(* ===== verification/Prelude.thy ===== *)
theory Prelude
  imports Main "HOL-Library.Word"
begin

text \<open>
  Shared vocabulary of the development: the machine types the crates use, results as sums,
  saturating arithmetic written out on \<open>nat\<close> and \<open>int\<close>, \<open>std::time::Duration\<close> as a bounded
  number of nanoseconds, and the word lemmas several codecs share.
\<close>

section \<open>Machine types\<close>

type_synonym u8 = "8 word"
type_synonym u32 = "32 word"
type_synonym u64 = "64 word"
type_synonym bytes = "u8 list"

text \<open>Facts about saturating operations, used as \<open>simp add: sat_simps\<close>.\<close>

named_theorems sat_simps

definition u32_max :: nat where
  "u32_max = 4294967295"

definition u64_max :: nat where
  "u64_max = 18446744073709551615"

definition u128_max :: nat where
  "u128_max = 340282366920938463463374607431768211455"

text \<open>The crates are built for 64-bit targets: \<open>usize\<close> is 64 bits wide.\<close>

definition usize_max :: nat where
  "usize_max = 18446744073709551615"

definition i64_min :: int where
  "i64_min = -9223372036854775808"

definition i64_max :: int where
  "i64_max = 9223372036854775807"

definition sat_add_u32 :: "nat \<Rightarrow> nat \<Rightarrow> nat" where
  "sat_add_u32 a b = min (a + b) u32_max"

definition sat_mul_u32 :: "nat \<Rightarrow> nat \<Rightarrow> nat" where
  "sat_mul_u32 a b = min (a * b) u32_max"

definition sat_add_u64 :: "nat \<Rightarrow> nat \<Rightarrow> nat" where
  "sat_add_u64 a b = min (a + b) u64_max"

definition sat_add_usize :: "nat \<Rightarrow> nat \<Rightarrow> nat" where
  "sat_add_usize a b = min (a + b) usize_max"

definition sat_mul_usize :: "nat \<Rightarrow> nat \<Rightarrow> nat" where
  "sat_mul_usize a b = min (a * b) usize_max"

definition sat_sub_u8 :: "u8 \<Rightarrow> u8 \<Rightarrow> u8" where
  "sat_sub_u8 a b = (if b \<le> a then a - b else 0)"

definition sat_add_u8 :: "u8 \<Rightarrow> u8 \<Rightarrow> u8" where
  "sat_add_u8 a b = (if unat a + unat b < 256 then a + b else 255)"

text \<open>\<open>i64\<close> saturating operations clamp the exact result.\<close>

definition clamp_i64 :: "int \<Rightarrow> int" where
  "clamp_i64 x = max i64_min (min i64_max x)"

lemma clamp_i64_id [sat_simps]: "i64_min \<le> x \<Longrightarrow> x \<le> i64_max \<Longrightarrow> clamp_i64 x = x"
  by (simp add: clamp_i64_def)

lemma sat_add_usize_small [sat_simps]: "a + b \<le> usize_max \<Longrightarrow> sat_add_usize a b = a + b"
  by (simp add: sat_add_usize_def)

lemma sat_mul_usize_small [sat_simps]: "a * b \<le> usize_max \<Longrightarrow> sat_mul_usize a b = a * b"
  by (simp add: sat_mul_usize_def)

lemma sat_add_u32_le [sat_simps]: "sat_add_u32 a b \<le> u32_max"
  by (simp add: sat_add_u32_def)

section \<open>Durations\<close>

text \<open>
  A \<open>Duration\<close> holds a \<open>u64\<close> of seconds and nanoseconds below one second: a natural number of
  nanoseconds up to \<open>dur_max\<close>. \<open>saturating_sub\<close> is subtraction on \<open>nat\<close>.
\<close>

type_synonym duration = nat

definition dur_max :: duration where
  "dur_max = 18446744073709551615999999999"

definition dur_add :: "duration \<Rightarrow> duration \<Rightarrow> duration" where
  "dur_add a b = min (a + b) dur_max"

definition dur_secs :: "nat \<Rightarrow> duration" where
  "dur_secs s = s * 1000000000"

definition dur_millis :: "nat \<Rightarrow> duration" where
  "dur_millis m = m * 1000000"

lemma dur_add_le [sat_simps]: "dur_add a b \<le> dur_max"
  by (simp add: dur_add_def)

lemma dur_add_ge: "a \<le> dur_max \<Longrightarrow> a \<le> dur_add a b"
  by (simp add: dur_add_def)

section \<open>Results\<close>

text \<open>\<open>Result<T, E>\<close> is \<open>E + T\<close>: \<open>Inl\<close> the error, \<open>Inr\<close> the value. \<open>rbind\<close> is the \<open>?\<close> operator.\<close>

definition rbind :: "'e + 'a \<Rightarrow> ('a \<Rightarrow> 'e + 'b) \<Rightarrow> 'e + 'b" where
  "rbind r f = (case r of Inl e \<Rightarrow> Inl e | Inr x \<Rightarrow> f x)"

definition ok_or :: "'e \<Rightarrow> 'a option \<Rightarrow> 'e + 'a" where
  "ok_or e x = (case x of None \<Rightarrow> Inl e | Some v \<Rightarrow> Inr v)"

lemma rbind_simps [simp]: "rbind (Inl e) f = Inl e" "rbind (Inr x) f = f x"
  by (simp_all add: rbind_def)

lemma rbind_eq_Inr [simp]: "rbind r f = Inr y \<longleftrightarrow> (\<exists>x. r = Inr x \<and> f x = Inr y)"
  by (cases r) auto

lemma rbind_cong [fundef_cong]:
  "r = r' \<Longrightarrow> (\<And>x. r' = Inr x \<Longrightarrow> f x = g x) \<Longrightarrow> rbind r f = rbind r' g"
  by (cases r') auto

lemma ok_or_simps [simp]: "ok_or e None = Inl e" "ok_or e (Some v) = Inr v"
  by (simp_all add: ok_or_def)

lemma ok_or_eq_Inr [simp]: "ok_or e x = Inr v \<longleftrightarrow> x = Some v"
  by (cases x) auto

definition is_ok :: "'e + 'a \<Rightarrow> bool" where
  "is_ok r = (case r of Inl _ \<Rightarrow> False | Inr _ \<Rightarrow> True)"

lemma is_ok_simps [simp]: "is_ok (Inl e) = False" "is_ok (Inr x) = True"
  by (simp_all add: is_ok_def)

section \<open>Words\<close>

text \<open>Or-ing a shifted group above the bits already present is adding it.\<close>

lemma word_or_push_bit:
  fixes a b :: "'w::len word"
  assumes "unat a < 2 ^ s"
  shows "or a (push_bit s b) = a + push_bit s b"
proof -
  have "\<not> bit a n \<or> \<not> bit (push_bit s b) n" for n
  proof (cases "n < s")
    case True
    then show ?thesis by (simp add: bit_push_bit_iff)
  next
    case False
    have "\<not> bit (unat a) n"
    proof
      assume "bit (unat a) n"
      then have "2 ^ n \<le> unat a" by (metis bit_iff_odd div_less even_zero not_le)
      moreover have "(2::nat) ^ s \<le> 2 ^ n" using False by simp
      ultimately show False using assms by linarith
    qed
    then show ?thesis by (simp add: bit_unsigned_iff)
  qed
  then have "a + push_bit s b = or a (push_bit s b)" by (rule disjunctive_add)
  then show ?thesis by simp
qed

lemma unat_low7: "unat (and b (0x7f :: u8)) = unat b mod 128"
proof -
  have "(0x7f :: u8) = mask 7" by (simp add: mask_eq_exp_minus_1)
  then have eq: "and b 0x7f = take_bit 7 b" by (simp add: take_bit_eq_mask)
  show ?thesis unfolding eq unsigned_take_bit_eq by (simp add: take_bit_eq_mod)
qed

lemma uint_low7: "uint (and b (0x7f :: u8)) = uint b mod 128"
  unfolding uint_nat unat_low7 by (simp only: zmod_int of_nat_numeral)

text \<open>A statement about every byte is a finite check: evaluate it at the 256 values.\<close>

lemma u8_all:
  assumes "list_all (\<lambda>n. P (word_of_nat n :: u8)) [0..<256]"
  shows "P b"
proof -
  have "unat b \<in> set [0..<256]"
    unfolding set_upt atLeastLessThan_iff using unsigned_less [of b] by simp
  with assms have "P (word_of_nat (unat b))" unfolding list_all_iff by blast
  then show ?thesis by simp
qed

lemma byte_bit_unat: "bit (b :: u8) n \<longleftrightarrow> odd (unat b div 2 ^ n)"
proof -
  have "bit (unat b) n \<longleftrightarrow> bit b n"
    by (auto simp: bit_unsigned_iff dest: bit_imp_le_length)
  then show ?thesis by (simp only: bit_iff_odd)
qed

lemma byte_lt_256 [simp]: "unat (b :: u8) < 256"
  using unsigned_less [of b, where ?'a = nat] by simp

lemma even_div_128: "x < 256 \<Longrightarrow> even (x div 128) \<longleftrightarrow> (x :: nat) < 128"
  by (cases "x < 128") (auto simp: div_if)

lemma byte_top_bit: "and b (0x80 :: u8) = 0 \<longleftrightarrow> unat b < 128"
proof -
  have w: "(0x80 :: u8) = 2 ^ 7" and n: "(128 :: nat) = 2 ^ 7" by simp_all
  have "and b 0x80 = 0 \<longleftrightarrow> even (unat b div 128)"
    unfolding w n and_exp_eq_0_iff_not_bit byte_bit_unat by (rule not_not)
  also have "\<dots> \<longleftrightarrow> unat b < 128"
    by (rule even_div_128) simp
  finally show ?thesis .
qed

lemma even_div_64: "even (x div 64) \<longleftrightarrow> (x :: nat) mod 128 < 64"
proof -
  have "x div 64 = 2 * (x div 128) + (x mod 128) div 64"
    using div_mult2_eq [of x 64 2] by (simp add: mod_mult2_eq [of x 64 2, simplified])
  then have "even (x div 64) = even ((x mod 128) div 64)" by simp
  moreover have "x mod 128 div 64 < 2" by simp
  ultimately show ?thesis by (auto simp: div_eq_0_iff less_2_cases_iff)
qed

lemma byte_sign_bit: "and b (0x40 :: u8) = 0 \<longleftrightarrow> unat b mod 128 < 64"
proof -
  have w: "(0x40 :: u8) = 2 ^ 6" and n: "(64 :: nat) = 2 ^ 6" by simp_all
  have "and b 0x40 = 0 \<longleftrightarrow> even (unat b div 64)"
    unfolding w n and_exp_eq_0_iff_not_bit byte_bit_unat by (rule not_not)
  then show ?thesis by (simp only: even_div_64)
qed

end
