(* ===== verification/Codec.thy ===== *)
theory Codec
  imports Prelude
begin

text \<open>
  The two contracts the byte codecs of \<open>lgwks-std\<close> keep. A \<open>prefix_codec\<close> decodes one value at the
  front of a buffer and reports how many bytes it took (\<open>leb128\<close>); a \<open>text_codec\<close> decodes the
  whole of its input (\<open>hex\<close>, \<open>encoding::base64\<close>). Each is a locale over the encoder and decoder;
  the codecs interpret them with their own definitions.
\<close>

section \<open>Self-delimiting codecs\<close>

locale prefix_codec =
  fixes enc :: "'a \<Rightarrow> bytes"
    and dec :: "bytes \<Rightarrow> 'e + ('a \<times> nat)"
  assumes dec_enc: "dec (enc x @ rest) = Inr (x, length (enc x))"
    and enc_dec: "dec bs = Inr (x, n) \<Longrightarrow> n \<le> length bs \<and> take n bs = enc x"
begin

lemma enc_inject: "enc x = enc y \<longleftrightarrow> x = y"
  by (metis dec_enc prod.inject sum.inject(2))

text \<open>No code word is a proper prefix of another: a stream of them has one reading.\<close>

lemma enc_unique_parse: "enc x @ r = enc y @ r' \<longleftrightarrow> x = y \<and> r = r'"
proof
  assume eq: "enc x @ r = enc y @ r'"
  then have "x = y" by (metis dec_enc prod.inject sum.inject(2))
  with eq show "x = y \<and> r = r'" by simp
qed simp

lemma dec_split: "dec bs = Inr (x, n) \<longleftrightarrow> (\<exists>rest. bs = enc x @ rest \<and> n = length (enc x))"
proof
  assume d: "dec bs = Inr (x, n)"
  then have "take n bs = enc x" and "n \<le> length bs" using enc_dec by auto
  then have "bs = enc x @ drop n bs" and "n = length (enc x)"
    by (metis append_take_drop_id, metis length_take min.absorb2)
  then show "\<exists>rest. bs = enc x @ rest \<and> n = length (enc x)" by blast
qed (auto simp: dec_enc)

lemma dec_take: "dec bs = Inr (x, n) \<longleftrightarrow> n \<le> length bs \<and> take n bs = enc x"
proof
  assume h: "n \<le> length bs \<and> take n bs = enc x"
  then have "bs = enc x @ drop n bs" by (metis append_take_drop_id)
  moreover have "n = length (enc x)" using h by (metis length_take min.absorb2)
  ultimately show "dec bs = Inr (x, n)" using dec_split by blast
qed (rule enc_dec)

text \<open>Bytes after the value never change what is decoded.\<close>

lemma dec_append: "dec bs = Inr (x, n) \<Longrightarrow> dec (bs @ more) = Inr (x, n)"
  by (auto simp: dec_split)

end

section \<open>Whole-input codecs\<close>

text \<open>\<open>norm\<close> is what the decoder forgets (the letter case of hex digits).\<close>

locale text_codec =
  fixes enc :: "bytes \<Rightarrow> bytes"
    and dec :: "bytes \<Rightarrow> 'e + bytes"
    and norm :: "bytes \<Rightarrow> bytes"
  assumes dec_enc: "dec (enc x) = Inr x"
    and enc_dec: "dec s = Inr x \<Longrightarrow> enc x = norm s"
begin

lemma enc_inject: "enc x = enc y \<longleftrightarrow> x = y"
  by (metis dec_enc sum.inject(2))

lemma norm_enc: "norm (enc x) = enc x"
  using enc_dec [OF dec_enc [of x]] by simp

lemma same_value_same_norm: "dec s = Inr x \<Longrightarrow> dec t = Inr x \<Longrightarrow> norm s = norm t"
  using enc_dec by metis

end

text \<open>A canonical codec forgets nothing: every value has one accepted spelling.\<close>

locale canonical_codec = text_codec enc dec "\<lambda>s. s"
  for enc :: "bytes \<Rightarrow> bytes" and dec :: "bytes \<Rightarrow> 'e + bytes"
begin

lemma accepts_iff: "dec s = Inr x \<longleftrightarrow> s = enc x"
  using dec_enc enc_dec by metis

lemma dec_inject: "dec s = Inr x \<Longrightarrow> dec t = Inr x \<Longrightarrow> s = t"
  by (simp add: accepts_iff)

end

end
