(* ===== verification/Leb128.thy ===== *)
theory Leb128
  imports Codec
begin

unbundle bit_operations_syntax

text \<open>
  \<open>crates/lgwks-std/src/leb128.rs\<close>: LEB128 integers. The trait \<open>Emittable\<close> is a record of its three
  methods, the two emit loops are generic over it (\<open>partial_function (option)\<close>, so that an
  \<open>Emittable\<close> that is never exhausted is \<open>None\<close>), and the four decoders fold their input byte by
  byte with the source's overflow and minimality checks. The reference encodings \<open>uleb\<close> and \<open>sleb\<close>
  and the reference decoders on \<open>nat\<close> and \<open>int\<close> are the abstract specification both widths refine.
\<close>

section \<open>Errors and the Emittable trait\<close>

datatype leb_error = UnexpectedEnd nat | Overflow nat | NonMinimal nat

record 'a emittable =
  payload :: "'a \<Rightarrow> u8"
  shifted :: "'a \<Rightarrow> 'a"
  is_exhausted :: "'a \<Rightarrow> bool \<Rightarrow> bool"

definition emit_u64 :: "u64 emittable" where
  "emit_u64 = \<lparr>payload = (\<lambda>x. ucast x AND 0x7f), shifted = (\<lambda>x. drop_bit 7 x),
     is_exhausted = (\<lambda>x _. x = 0)\<rparr>"

definition emit_u32 :: "u32 emittable" where
  "emit_u32 = \<lparr>payload = (\<lambda>x. ucast x AND 0x7f), shifted = (\<lambda>x. drop_bit 7 x),
     is_exhausted = (\<lambda>x _. x = 0)\<rparr>"

text \<open>\<open>i64\<close> and \<open>i32\<close> are the same words read by \<open>sint\<close>; \<open>>>\<close> on them is arithmetic.\<close>

definition emit_i64 :: "u64 emittable" where
  "emit_i64 = \<lparr>payload = (\<lambda>x. ucast x AND 0x7f), shifted = (\<lambda>x. signed_drop_bit 7 x),
     is_exhausted = (\<lambda>x sign_bit. x = 0 \<and> \<not> sign_bit \<or> x = -1 \<and> sign_bit)\<rparr>"

definition emit_i32 :: "u32 emittable" where
  "emit_i32 = \<lparr>payload = (\<lambda>x. ucast x AND 0x7f), shifted = (\<lambda>x. signed_drop_bit 7 x),
     is_exhausted = (\<lambda>x sign_bit. x = 0 \<and> \<not> sign_bit \<or> x = -1 \<and> sign_bit)\<rparr>"

definition encode_unsigned_step :: "'a emittable \<Rightarrow> 'a \<Rightarrow> 'a \<times> u8 \<times> bool" where
  "encode_unsigned_step T integer =
     (let byte = payload T integer;
          integer = shifted T integer;
          finished = is_exhausted T integer False;
          byte = (if finished then byte else byte OR 0x80)
      in (integer, byte, finished))"

definition encode_signed_step :: "'a emittable \<Rightarrow> 'a \<Rightarrow> 'a \<times> u8 \<times> bool" where
  "encode_signed_step T integer =
     (let byte = payload T integer;
          integer = shifted T integer;
          finished = is_exhausted T integer (byte AND 0x40 \<noteq> 0);
          byte = (if finished then byte else byte OR 0x80)
      in (integer, byte, finished))"

partial_function (option) emit_unsigned_groups ::
  "'a emittable \<Rightarrow> 'a \<Rightarrow> bytes \<Rightarrow> bytes option" where
  "emit_unsigned_groups T integer out =
     (case encode_unsigned_step T integer of (integer, byte, finished) \<Rightarrow>
        if finished then Some (out @ [byte])
        else emit_unsigned_groups T integer (out @ [byte]))"

partial_function (option) emit_signed_groups ::
  "'a emittable \<Rightarrow> 'a \<Rightarrow> bytes \<Rightarrow> bytes option" where
  "emit_signed_groups T integer out =
     (case encode_signed_step T integer of (integer, byte, finished) \<Rightarrow>
        if finished then Some (out @ [byte])
        else emit_signed_groups T integer (out @ [byte]))"

declare emit_unsigned_groups.simps [code] emit_signed_groups.simps [code]

definition encode_u64 :: "u64 \<Rightarrow> bytes \<Rightarrow> bytes option" where
  "encode_u64 integer out = emit_unsigned_groups emit_u64 integer out"

definition encode_u32 :: "u32 \<Rightarrow> bytes \<Rightarrow> bytes option" where
  "encode_u32 integer out = emit_unsigned_groups emit_u32 integer out"

definition encode_i64 :: "u64 \<Rightarrow> bytes \<Rightarrow> bytes option" where
  "encode_i64 integer out = emit_signed_groups emit_i64 integer out"

definition encode_i32 :: "u32 \<Rightarrow> bytes \<Rightarrow> bytes option" where
  "encode_i32 integer out = emit_signed_groups emit_i32 integer out"

section \<open>Decoding unsigned integers\<close>

definition check_overflow_u64 :: "nat \<Rightarrow> u64 \<Rightarrow> u8 \<Rightarrow> nat \<Rightarrow> leb_error + unit" where
  "check_overflow_u64 shift chunk byte index =
     (if shift = 63 \<and> (chunk > 1 \<or> byte AND 0x80 \<noteq> 0) \<or> shift > 63 then Inl (Overflow index)
      else Inr ())"

definition check_minimal_u64 :: "nat \<Rightarrow> u8 \<Rightarrow> leb_error + unit" where
  "check_minimal_u64 index byte =
     (if index > 0 \<and> byte = 0 then Inl (NonMinimal index) else Inr ())"

text \<open>The \<open>&mut result\<close> is threaded: each step returns it next to the source's return value.\<close>

definition decode_u64_byte ::
  "u8 \<Rightarrow> nat \<Rightarrow> nat \<Rightarrow> u64 \<Rightarrow> leb_error + (u64 \<times> nat option)" where
  "decode_u64_byte byte index shift result =
     (let chunk = ucast (byte AND 0x7f) in
      rbind (check_overflow_u64 shift chunk byte index) (\<lambda>_.
        let result = result OR push_bit shift chunk in
        if byte AND 0x80 = 0
        then rbind (check_minimal_u64 index byte) (\<lambda>_. Inr (result, Some (sat_add_usize index 1)))
        else Inr (result, None)))"

fun decode_u64_loop :: "bytes \<Rightarrow> nat \<Rightarrow> nat \<Rightarrow> u64 \<Rightarrow> leb_error + (u64 \<times> nat)" where
  "decode_u64_loop [] index len result = Inl (UnexpectedEnd len)"
| "decode_u64_loop (byte # input) index len result =
     rbind (decode_u64_byte byte index (sat_mul_usize index 7) result) (\<lambda>(result, consumed).
       case consumed of
         Some consumed \<Rightarrow> Inr (result, consumed)
       | None \<Rightarrow> decode_u64_loop input (index + 1) len result)"

definition decode_u64 :: "bytes \<Rightarrow> leb_error + (u64 \<times> nat)" where
  "decode_u64 input = decode_u64_loop input 0 (length input) 0"

definition check_overflow_u32 :: "nat \<Rightarrow> u32 \<Rightarrow> u8 \<Rightarrow> nat \<Rightarrow> leb_error + unit" where
  "check_overflow_u32 shift chunk byte index =
     (if shift = 28 \<and> (chunk > 0x0f \<or> byte AND 0x80 \<noteq> 0) \<or> shift > 28 then Inl (Overflow index)
      else Inr ())"

definition check_minimal_u32 :: "nat \<Rightarrow> u8 \<Rightarrow> leb_error + unit" where
  "check_minimal_u32 index byte =
     (if index > 0 \<and> byte = 0 then Inl (NonMinimal index) else Inr ())"

definition decode_u32_byte ::
  "u8 \<Rightarrow> nat \<Rightarrow> nat \<Rightarrow> u32 \<Rightarrow> leb_error + (u32 \<times> nat option)" where
  "decode_u32_byte byte index shift result =
     (let chunk = ucast (byte AND 0x7f) in
      rbind (check_overflow_u32 shift chunk byte index) (\<lambda>_.
        let result = result OR push_bit shift chunk in
        if byte AND 0x80 = 0
        then rbind (check_minimal_u32 index byte) (\<lambda>_. Inr (result, Some (sat_add_usize index 1)))
        else Inr (result, None)))"

fun decode_u32_loop :: "bytes \<Rightarrow> nat \<Rightarrow> nat \<Rightarrow> u32 \<Rightarrow> leb_error + (u32 \<times> nat)" where
  "decode_u32_loop [] index len result = Inl (UnexpectedEnd len)"
| "decode_u32_loop (byte # input) index len result =
     rbind (decode_u32_byte byte index (sat_mul_usize index 7) result) (\<lambda>(result, consumed).
       case consumed of
         Some consumed \<Rightarrow> Inr (result, consumed)
       | None \<Rightarrow> decode_u32_loop input (index + 1) len result)"

definition decode_u32 :: "bytes \<Rightarrow> leb_error + (u32 \<times> nat)" where
  "decode_u32 input = decode_u32_loop input 0 (length input) 0"

section \<open>Decoding signed integers\<close>

definition check_overflow_i64 :: "nat \<Rightarrow> u64 \<Rightarrow> u8 \<Rightarrow> nat \<Rightarrow> leb_error + unit" where
  "check_overflow_i64 shift chunk byte index =
     (if shift = 63 \<and> (chunk \<noteq> 0 \<and> chunk \<noteq> 0x7f \<or> byte AND 0x80 \<noteq> 0) \<or> shift > 63
      then Inl (Overflow index) else Inr ())"

definition check_minimal_i64 :: "nat \<Rightarrow> u8 \<Rightarrow> u8 \<Rightarrow> leb_error + unit" where
  "check_minimal_i64 index byte prev_byte =
     (if index > 0 then
        let prev_sign = (prev_byte AND 0x40 \<noteq> 0) in
        if \<not> prev_sign \<and> byte = 0 \<or> prev_sign \<and> byte = 0x7f then Inl (NonMinimal index)
        else Inr ()
      else Inr ())"

definition sign_extend_i64 :: "u64 \<Rightarrow> nat \<Rightarrow> u8 \<Rightarrow> u64" where
  "sign_extend_i64 raw_val shift byte =
     (if shift < 63 \<and> byte AND 0x40 \<noteq> 0
      then raw_val OR push_bit (sat_add_usize shift 7) (NOT 0) else raw_val)"

definition decode_i64_byte ::
  "u8 \<Rightarrow> nat \<Rightarrow> nat \<Rightarrow> u8 \<Rightarrow> u64 \<Rightarrow> leb_error + (u64 \<times> (u64 \<times> nat) option)" where
  "decode_i64_byte byte index shift prev_byte result =
     (let chunk = ucast (byte AND 0x7f) in
      rbind (check_overflow_i64 shift chunk byte index) (\<lambda>_.
        let result = result OR push_bit shift chunk in
        if byte AND 0x80 = 0
        then rbind (check_minimal_i64 index byte prev_byte) (\<lambda>_.
               let val = sign_extend_i64 result shift byte in
               Inr (result, Some (val, sat_add_usize index 1)))
        else Inr (result, None)))"

fun decode_i64_loop :: "bytes \<Rightarrow> nat \<Rightarrow> nat \<Rightarrow> u8 \<Rightarrow> u64 \<Rightarrow> leb_error + (u64 \<times> nat)" where
  "decode_i64_loop [] index len prev_byte result = Inl (UnexpectedEnd len)"
| "decode_i64_loop (byte # input) index len prev_byte result =
     rbind (decode_i64_byte byte index (sat_mul_usize index 7) prev_byte result) (\<lambda>(result, res).
       case res of
         Some res \<Rightarrow> Inr res
       | None \<Rightarrow> decode_i64_loop input (index + 1) len byte result)"

definition decode_i64 :: "bytes \<Rightarrow> leb_error + (u64 \<times> nat)" where
  "decode_i64 input = decode_i64_loop input 0 (length input) 0 0"

definition check_overflow_i32 :: "nat \<Rightarrow> u32 \<Rightarrow> u8 \<Rightarrow> nat \<Rightarrow> leb_error + unit" where
  "check_overflow_i32 shift chunk byte index =
     (if shift > 28 \<or> shift = 28 \<and>
         (chunk AND 0x78 \<noteq> 0x00 \<and> chunk AND 0x78 \<noteq> 0x78 \<or> byte AND 0x80 \<noteq> 0)
      then Inl (Overflow index) else Inr ())"

definition check_minimal_i32 :: "nat \<Rightarrow> u8 \<Rightarrow> u8 \<Rightarrow> leb_error + unit" where
  "check_minimal_i32 index byte prev_byte =
     (if index > 0 then
        let prev_sign = (prev_byte AND 0x40 \<noteq> 0) in
        if \<not> prev_sign \<and> byte = 0 \<or> prev_sign \<and> byte = 0x7f then Inl (NonMinimal index)
        else Inr ()
      else Inr ())"

definition sign_extend_i32 :: "u32 \<Rightarrow> nat \<Rightarrow> u8 \<Rightarrow> u32" where
  "sign_extend_i32 raw_val shift byte =
     (if shift < 28 \<and> byte AND 0x40 \<noteq> 0
      then raw_val OR push_bit (sat_add_usize shift 7) (NOT 0) else raw_val)"

definition decode_i32_byte ::
  "u8 \<Rightarrow> nat \<Rightarrow> nat \<Rightarrow> u8 \<Rightarrow> u32 \<Rightarrow> leb_error + (u32 \<times> (u32 \<times> nat) option)" where
  "decode_i32_byte byte index shift prev_byte result =
     (let chunk = ucast (byte AND 0x7f) in
      rbind (check_overflow_i32 shift chunk byte index) (\<lambda>_.
        let result = result OR push_bit shift chunk in
        if byte AND 0x80 = 0
        then rbind (check_minimal_i32 index byte prev_byte) (\<lambda>_.
               let val = sign_extend_i32 result shift byte in
               Inr (result, Some (val, sat_add_usize index 1)))
        else Inr (result, None)))"

fun decode_i32_loop :: "bytes \<Rightarrow> nat \<Rightarrow> nat \<Rightarrow> u8 \<Rightarrow> u32 \<Rightarrow> leb_error + (u32 \<times> nat)" where
  "decode_i32_loop [] index len prev_byte result = Inl (UnexpectedEnd len)"
| "decode_i32_loop (byte # input) index len prev_byte result =
     rbind (decode_i32_byte byte index (sat_mul_usize index 7) prev_byte result) (\<lambda>(result, res).
       case res of
         Some res \<Rightarrow> Inr res
       | None \<Rightarrow> decode_i32_loop input (index + 1) len byte result)"

definition decode_i32 :: "bytes \<Rightarrow> leb_error + (u32 \<times> nat)" where
  "decode_i32 input = decode_i32_loop input 0 (length input) 0 0"

section \<open>Reference encodings and the refinement of the encoders\<close>

text \<open>\<open>uleb\<close> and \<open>sleb\<close>: little-endian groups of seven bits of a natural number or an integer.\<close>

fun uleb :: "nat \<Rightarrow> bytes" where
  "uleb n = (if n < 128 then [word_of_nat n] else word_of_nat (n mod 128 + 128) # uleb (n div 128))"

declare uleb.simps [simp del]

function sleb :: "int \<Rightarrow> bytes" where
  "sleb n = (if -64 \<le> n \<and> n < 64 then [word_of_int (n mod 128)]
             else word_of_int (n mod 128 + 128) # sleb (n div 128))"
  by pat_completeness auto
termination
proof (relation "measure (\<lambda>n. nat \<bar>n\<bar>)")
  fix n :: int
  assume "\<not> (-64 \<le> n \<and> n < 64)"
  then consider "n \<ge> 64" | "n \<le> -65" by linarith
  then have "\<bar>n div 128\<bar> < \<bar>n\<bar>" by cases linarith+
  then show "(n div 128, n) \<in> measure (\<lambda>n. nat \<bar>n\<bar>)" by simp
qed simp

declare sleb.simps [simp del]

lemma byte_or_more: "unat (b :: u8) < 128 \<Longrightarrow> b OR 0x80 = b + 0x80"
  using word_or_push_bit [of b 7 1] by simp

lemma word_of_nat_byte: "unat (b :: u8) = n \<Longrightarrow> b = word_of_nat n"
  by auto

lemma word_of_int_byte: "uint (b :: u8) = n \<Longrightarrow> b = word_of_int n"
  by auto

lemma sleb_stop:
  fixes q m :: int
  assumes "0 \<le> m" and "m < 128"
  shows "(q = 0 \<and> \<not> 64 \<le> m \<or> q = -1 \<and> 64 \<le> m) \<longleftrightarrow> -64 \<le> 128 * q + m \<and> 128 * q + m < 64"
proof -
  consider "q \<ge> 1" | "q = 0" | "q = -1" | "q \<le> -2" by linarith
  then show ?thesis using assms by cases auto
qed

locale unsigned_emittable =
  fixes T :: "'a emittable" and rd :: "'a \<Rightarrow> nat"
  assumes rd_payload: "unat (payload T x) = rd x mod 128"
    and rd_shifted: "rd (shifted T x) = rd x div 128"
    and rd_exhausted: "is_exhausted T x sign_bit \<longleftrightarrow> rd x = 0"
begin

lemma payload_word: "payload T x = word_of_nat (rd x mod 128)"
  by (rule word_of_nat_byte) (rule rd_payload)

lemma payload_more: "payload T x OR 0x80 = word_of_nat (rd x mod 128 + 128)"
proof -
  have "unat (payload T x) < 128" by (simp add: rd_payload)
  then have "payload T x OR 0x80 = payload T x + 0x80" by (rule byte_or_more)
  then show ?thesis by (simp add: payload_word)
qed

lemma emit_unsigned_eq: "emit_unsigned_groups T x out = Some (out @ uleb (rd x))"
proof (induction "rd x" arbitrary: x out rule: less_induct)
  case less
  show ?case
  proof (cases "rd x < 128")
    case True
    then show ?thesis
      by (simp add: emit_unsigned_groups.simps encode_unsigned_step_def Let_def rd_exhausted
          rd_shifted payload_word uleb.simps [of "rd x"])
  next
    case False
    then have "rd (shifted T x) < rd x" by (simp add: rd_shifted)
    from less.hyps [OF this] False show ?thesis
      by (simp add: emit_unsigned_groups.simps [of T x] encode_unsigned_step_def Let_def rd_exhausted
          rd_shifted payload_more uleb.simps [of "rd x"] div_eq_0_iff)
  qed
qed

end

locale signed_emittable =
  fixes T :: "'a emittable" and rd :: "'a \<Rightarrow> int"
  assumes rd_payload: "uint (payload T x) = rd x mod 128"
    and rd_shifted: "rd (shifted T x) = rd x div 128"
    and rd_exhausted: "is_exhausted T x sign_bit \<longleftrightarrow> rd x = 0 \<and> \<not> sign_bit \<or> rd x = -1 \<and> sign_bit"
begin

lemma signed_payload_word: "payload T x = word_of_int (rd x mod 128)"
  by (rule word_of_int_byte) (rule rd_payload)

lemma signed_payload_unat: "int (unat (payload T x)) = rd x mod 128"
  using rd_payload [of x] by simp

lemma signed_payload_more: "payload T x OR 0x80 = word_of_int (rd x mod 128 + 128)"
proof -
  have "unat (payload T x) < 128" using signed_payload_unat [of x] by linarith
  then have "payload T x OR 0x80 = payload T x + 0x80" by (rule byte_or_more)
  then show ?thesis by (simp add: signed_payload_word)
qed

lemma signed_exhausted:
  "is_exhausted T (shifted T x) (payload T x AND 0x40 \<noteq> 0) \<longleftrightarrow> -64 \<le> rd x \<and> rd x < 64"
proof -
  have "unat (payload T x) < 128" using signed_payload_unat [of x] by linarith
  then have "unat (payload T x) mod 128 = unat (payload T x)" by (rule mod_less)
  then have sign: "payload T x AND 0x40 \<noteq> 0 \<longleftrightarrow> 64 \<le> rd x mod 128"
    unfolding byte_sign_bit using signed_payload_unat [of x] by linarith
  have "(rd x div 128 = 0 \<and> \<not> 64 \<le> rd x mod 128 \<or> rd x div 128 = -1 \<and> 64 \<le> rd x mod 128)
    \<longleftrightarrow> -64 \<le> 128 * (rd x div 128) + rd x mod 128 \<and> 128 * (rd x div 128) + rd x mod 128 < 64"
    by (rule sleb_stop) simp_all
  then show ?thesis unfolding rd_exhausted rd_shifted sign by (simp only: mult_div_mod_eq)
qed

lemma signed_step:
  "encode_signed_step T x =
     (if -64 \<le> rd x \<and> rd x < 64 then (shifted T x, word_of_int (rd x mod 128), True)
      else (shifted T x, word_of_int (rd x mod 128 + 128), False))"
  unfolding encode_signed_step_def Let_def signed_exhausted signed_payload_more
  by (simp only: signed_payload_word split: if_split) simp

lemma emit_signed_eq: "emit_signed_groups T x out = Some (out @ sleb (rd x))"
proof (induction "nat \<bar>rd x\<bar>" arbitrary: x out rule: less_induct)
  case less
  show ?case
  proof (cases "-64 \<le> rd x \<and> rd x < 64")
    case True
    then show ?thesis
      by (simp add: emit_signed_groups.simps [of T x] signed_step sleb.simps [of "rd x"])
  next
    case False
    then consider "rd x \<ge> 64" | "rd x \<le> -65" by linarith
    then have "\<bar>rd x div 128\<bar> < \<bar>rd x\<bar>" by cases linarith+
    then have "nat \<bar>rd (shifted T x)\<bar> < nat \<bar>rd x\<bar>" by (simp add: rd_shifted)
    from less.hyps [OF this] False show ?thesis
      by (simp add: emit_signed_groups.simps [of T x] signed_step rd_shifted sleb.simps [of "rd x"])
  qed
qed

end

lemma unat_ucast_low7: "unat ((ucast x :: u8) AND 0x7f) = unat (x :: 'w::len word) mod 128"
  if "8 \<le> LENGTH('w)"
  using that by (simp add: unat_low7 unsigned_ucast_eq take_bit_eq_mod mod_mod_cancel)

lemma unat_drop_bit_7: "unat (drop_bit 7 x) = unat (x :: 'w::len word) div 128"
  unfolding unsigned_drop_bit_eq by (simp add: drop_bit_eq_div take_bit_nat_eq_self)

lemma uint_ucast_low7: "uint ((ucast x :: u8) AND 0x7f) = sint (x :: 'w::len word) mod 128"
  if "8 \<le> LENGTH('w)"
proof -
  have "uint ((ucast x :: u8) AND 0x7f) = take_bit 7 (uint x)"
    using that by (simp add: uint_low7 unsigned_ucast_eq take_bit_eq_mod mod_mod_cancel)
  also have "\<dots> = take_bit 7 (sint x)"
    using that by (simp add: sint_uint take_bit_signed_take_bit)
  finally show ?thesis by (simp add: take_bit_eq_mod)
qed

lemma sint_shift_7: "sint (signed_drop_bit 7 (x :: 'w::len word)) = sint x div 128"
  by (simp add: sint_signed_drop_bit_eq drop_bit_eq_div)

lemma sint_eq_m1: "(x :: 'w::len word) = -1 \<longleftrightarrow> sint x = -1"
  by (metis sint_n1 signed_word_eqI)

interpretation emit_u64: unsigned_emittable emit_u64 unat
  by unfold_locales (simp_all add: emit_u64_def unat_ucast_low7 unat_drop_bit_7 unat_eq_0)

interpretation emit_u32: unsigned_emittable emit_u32 unat
  by unfold_locales (simp_all add: emit_u32_def unat_ucast_low7 unat_drop_bit_7 unat_eq_0)

interpretation emit_i64: signed_emittable emit_i64 sint
  by unfold_locales (simp_all add: emit_i64_def uint_ucast_low7 sint_shift_7 sint_eq_m1 signed_eq_0_iff)

interpretation emit_i32: signed_emittable emit_i32 sint
  by unfold_locales (simp_all add: emit_i32_def uint_ucast_low7 sint_shift_7 sint_eq_m1 signed_eq_0_iff)

lemma encode_u64_eq: "encode_u64 x out = Some (out @ uleb (unat x))"
  by (simp add: encode_u64_def emit_u64.emit_unsigned_eq)

lemma encode_u32_eq: "encode_u32 x out = Some (out @ uleb (unat x))"
  by (simp add: encode_u32_def emit_u32.emit_unsigned_eq)

lemma encode_i64_eq: "encode_i64 x out = Some (out @ sleb (sint x))"
  by (simp add: encode_i64_def emit_i64.emit_signed_eq)

lemma encode_i32_eq: "encode_i32 x out = Some (out @ sleb (sint x))"
  by (simp add: encode_i32_def emit_i32.emit_signed_eq)

section \<open>Reference decoders\<close>

text \<open>
  The decoders on unbounded numbers, for a target of \<open>W\<close> bits. A group is refused when it starts at
  or past bit \<open>W\<close>, or when it straddles the top and carries bits that do not fit.
\<close>

fun uleb_spec :: "nat \<Rightarrow> bytes \<Rightarrow> nat \<Rightarrow> nat \<Rightarrow> nat \<Rightarrow> leb_error + (nat \<times> nat)" where
  "uleb_spec W [] i len acc = Inl (UnexpectedEnd len)"
| "uleb_spec W (b # bs) i len acc =
     (let g = unat b mod 128; more = 128 \<le> unat b in
      if W \<le> 7 * i \<or> W < 7 * i + 7 \<and> (more \<or> 2 ^ (W - 7 * i) \<le> g) then Inl (Overflow i)
      else if more then uleb_spec W bs (i + 1) len (acc + g * 2 ^ (7 * i))
      else if 0 < i \<and> b = 0 then Inl (NonMinimal i)
      else Inr (acc + g * 2 ^ (7 * i), i + 1))"

definition sgroup_nat :: "nat \<Rightarrow> int" where
  "sgroup_nat u = (if u mod 128 < 64 then int (u mod 128) else int (u mod 128) - 128)"

definition sgroup :: "u8 \<Rightarrow> int" where
  "sgroup b = sgroup_nat (unat b)"

fun sleb_spec :: "nat \<Rightarrow> bytes \<Rightarrow> nat \<Rightarrow> nat \<Rightarrow> u8 \<Rightarrow> nat \<Rightarrow> leb_error + (int \<times> nat)" where
  "sleb_spec W [] i len prev acc = Inl (UnexpectedEnd len)"
| "sleb_spec W (b # bs) i len prev acc =
     (let g = unat b mod 128; more = 128 \<le> unat b in
      if W \<le> 7 * i \<or> W < 7 * i + 7 \<and>
           (more \<or> sgroup b < - (2 ^ (W - 7 * i - 1)) \<or> 2 ^ (W - 7 * i - 1) \<le> sgroup b)
      then Inl (Overflow i)
      else if more then sleb_spec W bs (i + 1) len b (acc + g * 2 ^ (7 * i))
      else if 0 < i \<and> (unat prev mod 128 < 64 \<and> b = 0 \<or> 64 \<le> unat prev mod 128 \<and> b = 0x7f)
      then Inl (NonMinimal i)
      else Inr (int acc + sgroup b * 2 ^ (7 * i), i + 1))"

declare uleb_spec.simps(2) [simp del] sleb_spec.simps(2) [simp del]

lemma pow_7_Suc: "(2 :: 'a::comm_semiring_1) ^ (7 * (i + 1)) = 128 * 2 ^ (7 * i)"
  by (simp add: power_add)

lemma group_fits:
  assumes "n * 2 ^ s < (2 :: nat) ^ W" and "0 < n"
  shows "s < W" and "n < 2 ^ (W - s)"
proof -
  have "2 ^ s \<le> n * 2 ^ s" using assms(2) by simp
  with assms(1) have "(2 :: nat) ^ s < 2 ^ W" by linarith
  then show s: "s < W" by simp
  then have "(2 :: nat) ^ W = 2 ^ (W - s) * 2 ^ s" by (simp flip: power_add)
  with assms(1) show "n < 2 ^ (W - s)" by simp
qed

lemma unat_word_of_nat_byte: "n < 256 \<Longrightarrow> unat (word_of_nat n :: u8) = n"
  by (simp add: unsigned_of_nat take_bit_nat_eq_self)

lemma high_group:
  assumes "128 \<le> x" and "x < 256"
  shows "(x :: nat) = x mod 128 + 128"
proof -
  have "x mod 128 = (x - 128) mod 128" using assms(1) by (rule le_mod_geq)
  also have "\<dots> = x - 128" using assms by (intro mod_less) linarith
  finally show ?thesis using assms(1) by simp
qed

lemma uleb_spec_enc:
  assumes "n * 2 ^ (7 * i) < 2 ^ W" and "i = 0 \<or> 0 < n" and "0 < W"
  shows "uleb_spec W (uleb n @ rest) i len acc = Inr (acc + n * 2 ^ (7 * i), i + length (uleb n))"
  using assms(1,2)
proof (induction n arbitrary: i acc rule: uleb.induct)
  case (1 n)
  have room: "\<not> W \<le> 7 * i" using "1.prems" assms(3) group_fits(1) [OF "1.prems"(1)] by fastforce
  show ?case
  proof (cases "n < 128")
    case True
    have "\<not> 2 ^ (W - 7 * i) \<le> n"
      using group_fits(2) [OF "1.prems"(1)] by (cases "n = 0") auto
    moreover have "(word_of_nat n :: u8) = 0 \<longleftrightarrow> n = 0"
      using True unat_word_of_nat_byte [of n] by (auto simp: unat_eq_0 [symmetric])
    ultimately show ?thesis
      using True room "1.prems"(2)
      by (auto simp: uleb.simps [of n] uleb_spec.simps(2) Let_def unat_word_of_nat_byte)
  next
    case False
    have split: "n = 128 * (n div 128) + n mod 128" by simp
    have "128 * 2 ^ (7 * i) \<le> n * 2 ^ (7 * i)" using False by (intro mult_right_mono) auto
    moreover have "(2::nat) ^ (7 * i + 7) = 128 * 2 ^ (7 * i)" by (simp add: power_add)
    ultimately have "(2::nat) ^ (7 * i + 7) < 2 ^ W" using "1.prems"(1) by linarith
    then have room7: "7 * i + 7 < W" by simp
    have "n div 128 * 128 * 2 ^ (7 * i) \<le> n * 2 ^ (7 * i)" by (intro mult_right_mono) auto
    moreover have "n div 128 * 2 ^ (7 * (i + 1)) = n div 128 * 128 * 2 ^ (7 * i)"
      unfolding pow_7_Suc by (simp only: ac_simps)
    ultimately have le: "n div 128 * 2 ^ (7 * (i + 1)) < 2 ^ W" using "1.prems"(1) by linarith
    have "0 < n div 128" using False by (simp add: div_greater_zero_iff)
    then have IH: "uleb_spec W (uleb (n div 128) @ rest) (i + 1) len (acc + n mod 128 * 2 ^ (7 * i)) =
        Inr (acc + n mod 128 * 2 ^ (7 * i) + n div 128 * 2 ^ (7 * (i + 1)), i + 1 + length (uleb (n div 128)))"
      using "1.IH" [OF False le] by simp
    define b :: u8 where "b = word_of_nat (n mod 128 + 128)"
    have u: "unat b = n mod 128 + 128"
      unfolding b_def by (rule unat_word_of_nat_byte) simp
    have enc: "uleb n = b # uleb (n div 128)" using False by (simp only: uleb.simps [of n] b_def if_False)
    have sum: "n mod 128 * 2 ^ (7 * i) + n div 128 * 2 ^ (7 * (i + 1)) = n * 2 ^ (7 * i)"
      unfolding pow_7_Suc by (subst (3) split) (simp only: algebra_simps)
    show ?thesis
      using False room room7 IH sum
      by (simp add: enc uleb_spec.simps(2) [of W b] Let_def u add.assoc)
  qed
qed

lemma uleb_spec_canonical:
  assumes "uleb_spec W bs i len acc = Inr (v, k)"
  shows "\<exists>n. v = acc + n * 2 ^ (7 * i) \<and> n * 2 ^ (7 * i) < 2 ^ W \<and> (i = 0 \<or> 0 < n) \<and>
    k = i + length (uleb n) \<and> length (uleb n) \<le> length bs \<and> take (length (uleb n)) bs = uleb n"
  using assms
proof (induction bs arbitrary: i acc)
  case Nil
  then show ?case by simp
next
  case (Cons b bs)
  let ?g = "unat b mod 128"
  have room: "\<not> W \<le> 7 * i" and fits: "\<not> (W < 7 * i + 7 \<and> (128 \<le> unat b \<or> 2 ^ (W - 7 * i) \<le> ?g))"
    using Cons.prems by (auto simp: uleb_spec.simps(2) Let_def split: if_splits)
  show ?case
  proof (cases "128 \<le> unat b")
    case False
    then have g: "?g = unat b" by simp
    have "?g < 2 ^ (W - 7 * i)"
    proof (cases "W < 7 * i + 7")
      case True
      with fits have "\<not> 2 ^ (W - 7 * i) \<le> ?g" by blast
      then show ?thesis by (simp only: not_le)
    next
      case False
      then have "(2 :: nat) ^ 7 \<le> 2 ^ (W - 7 * i)" by (intro power_increasing) auto
      then show ?thesis by (rule order_less_le_trans [rotated]) simp
    qed
    then have "?g * 2 ^ (7 * i) < 2 ^ (W - 7 * i) * 2 ^ (7 * i)" by simp
    also have "\<dots> = 2 ^ W" using room by (simp flip: power_add)
    finally have lt: "?g * 2 ^ (7 * i) < 2 ^ W" .
    have "uleb ?g = [b]" unfolding g using False by (simp add: uleb.simps [of "unat b"])
    moreover have "v = acc + ?g * 2 ^ (7 * i) \<and> k = i + 1 \<and> (i = 0 \<or> b \<noteq> 0)"
      using Cons.prems room fits False by (auto simp: uleb_spec.simps(2) Let_def split: if_splits)
    moreover have "b \<noteq> 0 \<longleftrightarrow> 0 < ?g" unfolding g by (simp add: unat_gt_0)
    ultimately show ?thesis using lt by (intro exI [of _ ?g]) auto
  next
    case True
    then have "uleb_spec W bs (i + 1) len (acc + ?g * 2 ^ (7 * i)) = Inr (v, k)"
      using Cons.prems room fits by (simp add: uleb_spec.simps(2) Let_def)
    from Cons.IH [OF this] obtain m where m: "v = acc + ?g * 2 ^ (7 * i) + m * 2 ^ (7 * (i + 1))"
      "m * 2 ^ (7 * (i + 1)) < 2 ^ W" "0 < m" "k = i + 1 + length (uleb m)"
      "length (uleb m) \<le> length bs" "take (length (uleb m)) bs = uleb m"
      by auto
    define n where "n = ?g + 128 * m"
    have dm: "n mod 128 = ?g" "n div 128 = m" unfolding n_def by simp_all
    have "\<not> n < 128" unfolding n_def using m(3) by simp
    moreover have "b = word_of_nat (?g + 128)"
    proof -
      have "unat b = ?g + 128" by (rule high_group [OF True byte_lt_256])
      then show ?thesis by (rule word_of_nat_byte)
    qed
    ultimately have enc: "uleb n = b # uleb m" by (simp only: uleb.simps [of n] dm if_False)
    have v: "v = acc + n * 2 ^ (7 * i)"
      using m(1) unfolding n_def pow_7_Suc by (simp add: algebra_simps)
    have "n * 2 ^ (7 * i) < 2 ^ W"
    proof -
      have s: "7 * (i + 1) < W" and "m < 2 ^ (W - 7 * (i + 1))" by (rule group_fits [OF m(2,3)])+
      then have "n < 128 * 2 ^ (W - 7 * (i + 1))"
        unfolding n_def using mod_less_divisor [of 128 "unat b"] by linarith
      then have "n * 2 ^ (7 * i) < 128 * 2 ^ (W - 7 * (i + 1)) * 2 ^ (7 * i)" by simp
      also have "\<dots> = 2 ^ (W - 7 * (i + 1)) * 2 ^ (7 * (i + 1))" unfolding pow_7_Suc by simp
      also have "\<dots> = 2 ^ W" using s by (simp only: power_add [symmetric]) simp
      finally show ?thesis .
    qed
    moreover have "0 < n" unfolding n_def using m(3) by simp
    ultimately show ?thesis using v enc m(4-6) by (intro exI [of _ n]) auto
  qed
qed

section \<open>Unsigned decoders refine the reference\<close>

lemma or_group:
  fixes r c :: "'w::len word"
  assumes "unat r < 2 ^ s"
  shows "r OR push_bit s c = word_of_nat (unat r + unat c * 2 ^ s)"
  using assms by (simp only: word_or_push_bit) (simp add: push_bit_eq_mult)

lemma or_group_unat:
  fixes r c :: "'w::len word"
  assumes "unat r < 2 ^ s" and "unat r + unat c * 2 ^ s < 2 ^ LENGTH('w)"
  shows "unat (r OR push_bit s c) = unat r + unat c * 2 ^ s"
  unfolding or_group [OF assms(1)] unsigned_of_nat using assms(2) by (simp add: take_bit_nat_eq_self)

lemma chunk_unat:
  assumes "8 \<le> LENGTH('w)"
  shows "unat (ucast (b AND (0x7f :: u8)) :: 'w::len word) = unat b mod 128"
proof -
  have "(2 :: nat) ^ 8 \<le> 2 ^ LENGTH('w)" using assms by (rule power_increasing) simp
  then have "256 \<le> (2 :: nat) ^ LENGTH('w)" by simp
  moreover have "unat b mod 128 < 128" by simp
  ultimately have "unat b mod 128 < 2 ^ LENGTH('w)" by linarith
  then show ?thesis by (simp add: unsigned_ucast_eq unat_low7 take_bit_nat_eq_self)
qed

definition read_u :: "leb_error + ('w::len word \<times> nat) \<Rightarrow> leb_error + (nat \<times> nat)" where
  "read_u r = (case r of Inl e \<Rightarrow> Inl e | Inr (x, n) \<Rightarrow> Inr (unat x, n))"

lemma read_u_eq_Inr: "read_u r = Inr (v, n) \<longleftrightarrow> (\<exists>x. r = Inr (x, n) \<and> v = unat x)"
  by (auto simp: read_u_def split: sum.splits)

lemma read_u_exact: "read_u r = Inr (unat x, n) \<longleftrightarrow> r = Inr (x, n)"
  by (auto simp: read_u_eq_Inr word_unat_eq_iff)

text \<open>What one group does to the accumulator, for a target of \<open>W\<close> bits.\<close>

lemma group_bounds:
  fixes r g :: nat
  assumes "r < 2 ^ (7 * i)" and "g < 128"
    and "7 * i + 7 \<le> W \<or> g < 2 ^ (W - 7 * i)" and "7 * i < W"
  shows "r + g * 2 ^ (7 * i) < 2 ^ W" and "r + g * 2 ^ (7 * i) < 2 ^ (7 * (i + 1))"
proof -
  have gen: "r + g * 2 ^ (7 * i) < m * 2 ^ (7 * i)" if "g < m" for m
  proof -
    have "(g + 1) * 2 ^ (7 * i) \<le> m * 2 ^ (7 * i)" using that by (intro mult_right_mono) auto
    with assms(1) show ?thesis by (simp add: algebra_simps)
  qed
  from gen [OF assms(2)] show small: "r + g * 2 ^ (7 * i) < 2 ^ (7 * (i + 1))"
    by (simp only: pow_7_Suc)
  show "r + g * 2 ^ (7 * i) < 2 ^ W"
  proof (cases "7 * i + 7 \<le> W")
    case True
    then have "(2::nat) ^ (7 * (i + 1)) \<le> 2 ^ W" by (intro power_increasing) auto
    with small show ?thesis by linarith
  next
    case False
    with assms(3) have "g < 2 ^ (W - 7 * i)" by simp
    from gen [OF this] show ?thesis using assms(4) by (simp flip: power_add)
  qed
qed

lemma byte_more_iff: "b AND (0x80 :: u8) = 0 \<longleftrightarrow> \<not> 128 \<le> unat b"
  by (simp add: byte_top_bit not_le)

lemma check_overflow_u64_ok:
  assumes "i \<le> 10"
  shows "check_overflow_u64 (7 * i) (ucast (b AND 0x7f)) b i =
    (if 64 \<le> 7 * i \<or> 64 < 7 * i + 7 \<and> (128 \<le> unat b \<or> 2 ^ (64 - 7 * i) \<le> unat b mod 128)
     then Inl (Overflow i) else Inr ())"
proof -
  have c: "(1 :: u64) < ucast (b AND 0x7f) \<longleftrightarrow> 2 \<le> unat b mod 128"
    using chunk_unat [where 'w = 64, of b] by (auto simp: word_less_nat_alt)
  consider "i = 10" | "i = 9" | "i \<le> 8" using assms by linarith
  then show ?thesis by cases (cases "128 \<le> unat b"; simp add: check_overflow_u64_def c byte_more_iff)+
qed

lemma check_overflow_u32_ok:
  assumes "i \<le> 5"
  shows "check_overflow_u32 (7 * i) (ucast (b AND 0x7f)) b i =
    (if 32 \<le> 7 * i \<or> 32 < 7 * i + 7 \<and> (128 \<le> unat b \<or> 2 ^ (32 - 7 * i) \<le> unat b mod 128)
     then Inl (Overflow i) else Inr ())"
proof -
  have c: "(0x0f :: u32) < ucast (b AND 0x7f) \<longleftrightarrow> 16 \<le> unat b mod 128"
    using chunk_unat [where 'w = 32, of b] by (auto simp: word_less_nat_alt)
  consider "i = 5" | "i = 4" | "i \<le> 3" using assms by linarith
  then show ?thesis by cases (cases "128 \<le> unat b"; simp add: check_overflow_u32_def c byte_more_iff)+
qed

lemma decode_u64_loop_refines:
  assumes "unat r < 2 ^ (7 * i)" and "i \<le> 10"
  shows "read_u (decode_u64_loop bs i len r) = uleb_spec 64 bs i len (unat r)"
  using assms
proof (induction bs arbitrary: i r)
  case Nil
  then show ?case by (simp add: read_u_def)
next
  case (Cons b bs)
  let ?g = "unat b mod 128" and ?c = "ucast (b AND 0x7f) :: u64"
  let ?over = "64 \<le> 7 * i \<or> 64 < 7 * i + 7 \<and> (128 \<le> unat b \<or> 2 ^ (64 - 7 * i) \<le> ?g)"
  have idx: "sat_mul_usize i 7 = 7 * i" "sat_add_usize i 1 = i + 1"
    using Cons.prems(2) by (simp_all add: sat_simps usize_max_def)
  have step: "decode_u64_byte b i (7 * i) r =
      (if ?over then Inl (Overflow i)
       else if 128 \<le> unat b then Inr (r OR push_bit (7 * i) ?c, None)
       else if 0 < i \<and> b = 0 then Inl (NonMinimal i)
       else Inr (r OR push_bit (7 * i) ?c, Some (i + 1)))"
    unfolding decode_u64_byte_def Let_def check_overflow_u64_ok [OF Cons.prems(2)] byte_more_iff idx
    by (simp add: check_minimal_u64_def)
  show ?case
  proof (cases ?over)
    case True
    then show ?thesis
      by (simp only: decode_u64_loop.simps idx step if_True rbind_simps uleb_spec.simps(2) Let_def)
        (simp add: read_u_def)
  next
    case False
    have c: "unat ?c = ?g" by (rule chunk_unat) simp
    from False have ok: "7 * i + 7 \<le> 64 \<or> ?g < 2 ^ (64 - 7 * i)" "7 * i < 64" by auto
    have g: "?g < 128" by simp
    note bnd = group_bounds [OF Cons.prems(1) g ok]
    have u: "unat (r OR push_bit (7 * i) ?c) = unat r + ?g * 2 ^ (7 * i)"
      using or_group_unat [OF Cons.prems(1), of ?c] bnd(1) by (simp add: c)
    have IH: "read_u (decode_u64_loop bs (i + 1) len (r OR push_bit (7 * i) ?c)) =
        uleb_spec 64 bs (i + 1) len (unat r + ?g * 2 ^ (7 * i))"
      using Cons.IH [of "r OR push_bit (7 * i) ?c" "i + 1"] bnd(2) ok(2) unfolding u by simp
    show ?thesis
      using IH
      by (simp only: decode_u64_loop.simps idx step False if_False uleb_spec.simps(2) Let_def split: if_split)
        (simp add: read_u_def u)
  qed
qed

lemma decode_u32_loop_refines:
  assumes "unat r < 2 ^ (7 * i)" and "i \<le> 5"
  shows "read_u (decode_u32_loop bs i len r) = uleb_spec 32 bs i len (unat r)"
  using assms
proof (induction bs arbitrary: i r)
  case Nil
  then show ?case by (simp add: read_u_def)
next
  case (Cons b bs)
  let ?g = "unat b mod 128" and ?c = "ucast (b AND 0x7f) :: u32"
  let ?over = "32 \<le> 7 * i \<or> 32 < 7 * i + 7 \<and> (128 \<le> unat b \<or> 2 ^ (32 - 7 * i) \<le> ?g)"
  have idx: "sat_mul_usize i 7 = 7 * i" "sat_add_usize i 1 = i + 1"
    using Cons.prems(2) by (simp_all add: sat_simps usize_max_def)
  have step: "decode_u32_byte b i (7 * i) r =
      (if ?over then Inl (Overflow i)
       else if 128 \<le> unat b then Inr (r OR push_bit (7 * i) ?c, None)
       else if 0 < i \<and> b = 0 then Inl (NonMinimal i)
       else Inr (r OR push_bit (7 * i) ?c, Some (i + 1)))"
    unfolding decode_u32_byte_def Let_def check_overflow_u32_ok [OF Cons.prems(2)] byte_more_iff idx
    by (simp add: check_minimal_u32_def)
  show ?case
  proof (cases ?over)
    case True
    then show ?thesis
      by (simp only: decode_u32_loop.simps idx step if_True rbind_simps uleb_spec.simps(2) Let_def)
        (simp add: read_u_def)
  next
    case False
    have c: "unat ?c = ?g" by (rule chunk_unat) simp
    from False have ok: "7 * i + 7 \<le> 32 \<or> ?g < 2 ^ (32 - 7 * i)" "7 * i < 32" by auto
    have g: "?g < 128" by simp
    note bnd = group_bounds [OF Cons.prems(1) g ok]
    have u: "unat (r OR push_bit (7 * i) ?c) = unat r + ?g * 2 ^ (7 * i)"
      using or_group_unat [OF Cons.prems(1), of ?c] bnd(1) by (simp add: c)
    have IH: "read_u (decode_u32_loop bs (i + 1) len (r OR push_bit (7 * i) ?c)) =
        uleb_spec 32 bs (i + 1) len (unat r + ?g * 2 ^ (7 * i))"
      using Cons.IH [of "r OR push_bit (7 * i) ?c" "i + 1"] bnd(2) ok(2) unfolding u by simp
    show ?thesis
      using IH
      by (simp only: decode_u32_loop.simps idx step False if_False uleb_spec.simps(2) Let_def split: if_split)
        (simp add: read_u_def u)
  qed
qed

lemma decode_u64_refines: "read_u (decode_u64 bs) = uleb_spec 64 bs 0 (length bs) 0"
  using decode_u64_loop_refines [of 0 0 bs "length bs"] by (simp add: decode_u64_def)

lemma decode_u32_refines: "read_u (decode_u32 bs) = uleb_spec 32 bs 0 (length bs) 0"
  using decode_u32_loop_refines [of 0 0 bs "length bs"] by (simp add: decode_u32_def)

interpretation leb_u64: prefix_codec "\<lambda>x. the (encode_u64 x [])" decode_u64
proof unfold_locales
  fix x :: u64 and rest
  have "read_u (decode_u64 (uleb (unat x) @ rest)) = Inr (unat x, length (uleb (unat x)))"
    unfolding decode_u64_refines using uleb_spec_enc [of "unat x" 0 64] unsigned_less [of x, where ?'a = nat] by simp
  then show "decode_u64 (the (encode_u64 x []) @ rest) = Inr (x, length (the (encode_u64 x [])))"
    by (simp add: encode_u64_eq read_u_exact)
next
  fix bs :: bytes and x :: u64 and n
  assume "decode_u64 bs = Inr (x, n)"
  then have "uleb_spec 64 bs 0 (length bs) 0 = Inr (unat x, n)"
    by (simp add: read_u_exact flip: decode_u64_refines)
  from uleb_spec_canonical [OF this] show "n \<le> length bs \<and> take n bs = the (encode_u64 x [])"
    by (auto simp: encode_u64_eq)
qed

interpretation leb_u32: prefix_codec "\<lambda>x. the (encode_u32 x [])" decode_u32
proof unfold_locales
  fix x :: u32 and rest
  have "read_u (decode_u32 (uleb (unat x) @ rest)) = Inr (unat x, length (uleb (unat x)))"
    unfolding decode_u32_refines using uleb_spec_enc [of "unat x" 0 32] unsigned_less [of x, where ?'a = nat] by simp
  then show "decode_u32 (the (encode_u32 x []) @ rest) = Inr (x, length (the (encode_u32 x [])))"
    by (simp add: encode_u32_eq read_u_exact)
next
  fix bs :: bytes and x :: u32 and n
  assume "decode_u32 bs = Inr (x, n)"
  then have "uleb_spec 32 bs 0 (length bs) 0 = Inr (unat x, n)"
    by (simp add: read_u_exact flip: decode_u32_refines)
  from uleb_spec_canonical [OF this] show "n \<le> length bs \<and> take n bs = the (encode_u32 x [])"
    by (auto simp: encode_u32_eq)
qed

section \<open>Unsigned integers: what the codec promises\<close>

lemma uleb_length: "n < 128 ^ k \<Longrightarrow> 0 < k \<Longrightarrow> length (uleb n) \<le> k"
proof (induction k arbitrary: n)
  case (Suc k)
  show ?case
  proof (cases "n < 128")
    case False
    have "n div 128 < 128 ^ k" using Suc.prems(1) by (simp add: less_mult_imp_div_less mult.commute)
    moreover from this False have "0 < k" by (cases k) auto
    ultimately have "length (uleb (n div 128)) \<le> k" by (rule Suc.IH)
    then show ?thesis using False by (simp add: uleb.simps [of n])
  qed (simp add: uleb.simps [of n])
qed simp

lemma uleb_word_length:
  fixes x :: "'w::len word"
  assumes "2 ^ LENGTH('w) \<le> (128 :: nat) ^ k" and "0 < k"
  shows "length (uleb (unat x)) \<le> k"
proof (rule uleb_length [OF _ assms(2)])
  show "unat x < 128 ^ k" by (rule less_le_trans [OF unsigned_less assms(1)])
qed

text \<open>
  The unsigned encoders return for every integer and output buffer, append at most ten (five)
  bytes, and the matching decoder reads exactly those bytes back, whatever follows them.
\<close>

theorem leb_unsigned_roundtrip:
  "(\<exists>bs. encode_u64 x out = Some (out @ bs) \<and> length bs \<le> 10 \<and>
      decode_u64 (bs @ rest) = Inr (x, length bs)) \<and>
   (\<exists>bs. encode_u32 y out = Some (out @ bs) \<and> length bs \<le> 5 \<and>
      decode_u32 (bs @ rest) = Inr (y, length bs))"
  using leb_u64.dec_enc [of x rest] leb_u32.dec_enc [of y rest]
    uleb_word_length [of 10 x] uleb_word_length [of 5 y]
  by (simp add: encode_u64_eq encode_u32_eq)

text \<open>
  C39: The unsigned encoders return for every integer, in at most ten (five) bytes, and the decoders accept
  that encoding and nothing else: a buffer decodes to an integer exactly when it starts with what the
  encoder writes for it, and then as many bytes are taken.
\<close>

theorem leb_unsigned_canonical:
  "(\<exists>bs. encode_u64 x [] = Some bs \<and> length bs \<le> 10) \<and> (\<exists>bs. encode_u32 y [] = Some bs \<and> length bs \<le> 5) \<and>
   (decode_u64 bs = Inr (x, n) \<longleftrightarrow> n \<le> length bs \<and> encode_u64 x [] = Some (take n bs)) \<and>
   (decode_u32 bs = Inr (y, n) \<longleftrightarrow> n \<le> length bs \<and> encode_u32 y [] = Some (take n bs))"
  unfolding leb_u64.dec_take leb_u32.dec_take
  using uleb_word_length [of 10 x] uleb_word_length [of 5 y] by (auto simp: encode_u64_eq encode_u32_eq)

end
