(* ===== verification/Leb128_Signed.thy ===== *)
theory Leb128_Signed
  imports Leb128
begin

unbundle bit_operations_syntax

text \<open>
  The signed half of \<open>crates/lgwks-std/src/leb128.rs\<close>: the reference encoding \<open>sleb\<close> and its
  decoder \<open>sleb_spec\<close> on integers, the sign extension of the last group, and the refinement of
  \<open>decode_i64\<close> and \<open>decode_i32\<close> to the reference, from which their round trip and canonicity follow.
\<close>

section \<open>The signed reference\<close>

lemma sgroup_nat_range: "-64 \<le> sgroup_nat u \<and> sgroup_nat u < 64"
proof -
  have "u mod 128 < 128" by simp
  then show ?thesis by (auto simp: sgroup_nat_def)
qed

lemma sgroup_range: "-64 \<le> sgroup b \<and> sgroup b < 64"
  unfolding sgroup_def by (rule sgroup_nat_range)

lemma sgroup_nat_low:
  assumes "\<not> 128 \<le> u"
  shows "sgroup_nat u mod 128 = int u" and "sgroup_nat u = 0 \<longleftrightarrow> u = 0" and "sgroup_nat u = -1 \<longleftrightarrow> u = 127"
  using assms by (auto simp: sgroup_nat_def)

text \<open>The last group of a signed value spells the value's own residue.\<close>

lemma sgroup_word:
  assumes "-64 \<le> n" and "n < 64"
  shows "unat (word_of_int (n mod 128) :: u8) < 128" and "sgroup (word_of_int (n mod 128)) = n"
proof -
  define u where "u = nat (n mod 128)"
  have u: "int u = n mod 128" "u < 128" unfolding u_def by simp_all
  have w: "(word_of_int (n mod 128) :: u8) = word_of_nat u"
    by (simp only: u(1) [symmetric] of_int_of_nat_eq)
  have un: "unat (word_of_int (n mod 128) :: u8) = u"
    unfolding w by (rule unat_word_of_nat_byte) (use u(2) in simp)
  then show "unat (word_of_int (n mod 128) :: u8) < 128" using u(2) by simp
  have "n mod 128 = (if n < 0 then n + 128 else n)"
  proof (cases "n < 0")
    case True
    then have "(n + 128) mod 128 = n + 128" using assms(1) by (intro mod_pos_pos_trivial) auto
    then show ?thesis using True by simp
  qed (use assms in simp)
  then show "sgroup (word_of_int (n mod 128)) = n"
    unfolding sgroup_def sgroup_nat_def un using u assms by auto
qed

lemma byte_of_sgroup:
  assumes "\<not> 128 \<le> unat b"
  shows "word_of_int (sgroup b mod 128) = b"
proof -
  have "sgroup b mod 128 = int (unat b)" unfolding sgroup_def by (rule sgroup_nat_low(1) [OF assms])
  then show ?thesis by simp
qed

lemma more_word:
  "unat (word_of_int (n mod 128 + 128) :: u8) = nat (n mod 128) + 128"
proof -
  have "(word_of_int (n mod 128 + 128) :: u8) = word_of_nat (nat (n mod 128) + 128)"
    by (metis of_int_of_nat_eq of_nat_add of_nat_numeral nat_0_le pos_mod_sign zero_less_numeral)
  moreover have "nat (n mod 128) + 128 < 256" by simp
  ultimately show ?thesis by (simp only: unat_word_of_nat_byte)
qed

lemma signed_room:
  fixes n :: int
  assumes "- (2 ^ (W - 1)) \<le> n * 2 ^ s" and "n * 2 ^ s < 2 ^ (W - 1)" and "\<not> (-64 \<le> n \<and> n < 64)"
  shows "s + 7 < W"
proof -
  have "64 * 2 ^ s < (2 :: int) ^ (W - 1)"
  proof (cases "0 \<le> n")
    case True
    with assms(3) have "64 * 2 ^ s \<le> n * 2 ^ s" by (intro mult_right_mono) auto
    with assms(2) show ?thesis by linarith
  next
    case False
    with assms(3) have "n * 2 ^ s \<le> - 65 * 2 ^ s" by (intro mult_right_mono) auto
    moreover have "(0 :: int) < 2 ^ s" by simp
    ultimately show ?thesis using assms(1) by linarith
  qed
  moreover have "64 * 2 ^ s = (2 :: int) ^ (s + 6)" by (simp add: power_add)
  ultimately have "(2 :: int) ^ (s + 6) < 2 ^ (W - 1)" by simp
  then have "s + 6 < W - 1" by simp
  then show ?thesis by linarith
qed

text \<open>A value that fits the target's remaining bits passes the overflow check of its last group.\<close>

lemma signed_top:
  fixes n :: int
  assumes "- (2 ^ (W - 1)) \<le> n * 2 ^ s" and "n * 2 ^ s < 2 ^ (W - 1)" and "s < W"
  shows "- (2 ^ (W - s - 1)) \<le> n" and "n < 2 ^ (W - s - 1)"
proof -
  have p: "(2 :: int) ^ (W - 1) = 2 ^ (W - s - 1) * 2 ^ s"
    using assms(3) by (simp flip: power_add)
  have pos: "(0 :: int) < 2 ^ s" by simp
  from assms(2) show "n < 2 ^ (W - s - 1)" unfolding p by simp
  from assms(1) have "- (2 ^ (W - s - 1)) * 2 ^ s \<le> n * 2 ^ s" unfolding p by simp
  then show "- (2 ^ (W - s - 1)) \<le> n" using pos by (simp only: mult_le_cancel_right_pos)
qed

definition minimal_after :: "nat \<Rightarrow> u8 \<Rightarrow> int \<Rightarrow> bool" where
  "minimal_after i prev n \<longleftrightarrow>
     i = 0 \<or> \<not> (unat prev mod 128 < 64 \<and> n = 0) \<and> \<not> (64 \<le> unat prev mod 128 \<and> n = -1)"

lemma sgroup_zero: "\<not> 128 \<le> unat b \<Longrightarrow> b = 0 \<longleftrightarrow> sgroup b = 0"
  using sgroup_nat_low(2) [of "unat b"] unfolding sgroup_def by (simp only: word_unat_eq_iff) simp

lemma sgroup_m1: "\<not> 128 \<le> unat b \<Longrightarrow> b = 0x7f \<longleftrightarrow> sgroup b = -1"
  using sgroup_nat_low(3) [of "unat b"] unfolding sgroup_def by (simp only: word_unat_eq_iff) simp

text \<open>A group that has a successor leaves a rest the minimality check accepts.\<close>

lemma continues_minimal:
  fixes n :: int
  assumes "\<not> (-64 \<le> n \<and> n < 64)" and "int m = n mod 128"
  shows "\<not> (m < 64 \<and> n div 128 = 0)" and "\<not> (64 \<le> m \<and> n div 128 = -1)"
proof -
  have q: "n = 128 * (n div 128) + int m" using assms(2) by simp
  have "m < 128" using assms(2) pos_mod_bound [of 128 n] by linarith
  have d: "n < -64 \<or> 64 \<le> n" using assms(1) by linarith
  show "\<not> (m < 64 \<and> n div 128 = 0)"
  proof
    assume "m < 64 \<and> n div 128 = 0"
    with q have "0 \<le> n \<and> n < 64" by linarith
    with d show False by linarith
  qed
  show "\<not> (64 \<le> m \<and> n div 128 = -1)"
  proof
    assume "64 \<le> m \<and> n div 128 = -1"
    with q \<open>m < 128\<close> have "-64 \<le> n \<and> n < 0" by linarith
    with d show False by linarith
  qed
qed

lemma sleb_spec_enc:
  assumes "- (2 ^ (W - 1)) \<le> n * 2 ^ (7 * i)" and "n * 2 ^ (7 * i) < 2 ^ (W - 1)"
    and "7 * i < W" and "minimal_after i prev n"
  shows "sleb_spec W (sleb n @ rest) i len prev acc
       = Inr (int acc + n * 2 ^ (7 * i), i + length (sleb n))"
  using assms
proof (induction n arbitrary: i acc prev rule: sleb.induct)
  case (1 n)
  note lo = "1.prems"(1) and hi = "1.prems"(2) and room = "1.prems"(3)
  show ?case
  proof (cases "-64 \<le> n \<and> n < 64")
    case True
    define b :: u8 where "b = word_of_int (n mod 128)"
    have b: "\<not> 128 \<le> unat b" "sgroup b = n" unfolding b_def using sgroup_word [of n] True by auto
    have "sleb n = [b]" using True by (simp add: sleb.simps [of n] b_def)
    moreover have "\<not> (n < - (2 ^ (W - 7 * i - 1)) \<or> 2 ^ (W - 7 * i - 1) \<le> n)"
      using signed_top [OF lo hi room] by linarith
    moreover have "\<not> (0 < i \<and> (unat prev mod 128 < 64 \<and> b = 0 \<or> 64 \<le> unat prev mod 128 \<and> b = 0x7f))"
      using "1.prems"(4) by (auto simp: minimal_after_def sgroup_zero [OF b(1)] sgroup_m1 [OF b(1)] b(2))
    ultimately show ?thesis
      using room b by (simp only: sleb_spec.simps(2) Let_def append_Cons) simp
  next
    case False
    define b :: u8 where "b = word_of_int (n mod 128 + 128)"
    have u: "unat b = nat (n mod 128) + 128" unfolding b_def by (rule more_word)
    then have more: "128 \<le> unat b" and g: "int (unat b mod 128) = n mod 128"
      by (simp_all add: nat_less_iff)
    have enc: "sleb n = b # sleb (n div 128)" using False by (simp only: sleb.simps [of n] b_def if_False)
    have room7: "7 * i + 7 < W" by (rule signed_room [OF lo hi False])
    have sum: "n mod 128 * 2 ^ (7 * i) + n div 128 * 2 ^ (7 * (i + 1)) = n * 2 ^ (7 * i)"
      unfolding pow_7_Suc by (metis (no_types) distrib_right mod_div_mult_eq mult.assoc)
    have pos: "0 \<le> n mod 128 * 2 ^ (7 * i)" by simp
    have below: "n mod 128 * 2 ^ (7 * i) < 2 ^ (7 * (i + 1))" unfolding pow_7_Suc by simp
    have hi': "n div 128 * 2 ^ (7 * (i + 1)) < 2 ^ (W - 1)" using sum pos hi by linarith
    have lo': "- (2 ^ (W - 1)) \<le> n div 128 * 2 ^ (7 * (i + 1))"
    proof -
      have p: "(2 :: int) ^ (W - 1) = 2 ^ (W - 1 - 7 * (i + 1)) * 2 ^ (7 * (i + 1))"
        using room7 by (simp only: power_add [symmetric]) simp
      have "- (2 ^ (W - 1 - 7 * (i + 1))) * 2 ^ (7 * (i + 1)) < (n div 128 + 1) * 2 ^ (7 * (i + 1))"
        using lo sum below unfolding p by (simp add: distrib_right)
      then have "- (2 ^ (W - 1 - 7 * (i + 1))) < n div 128 + 1"
        by (simp only: mult_less_cancel_right_pos zero_less_power zero_less_numeral)
      then have "- (2 ^ (W - 1 - 7 * (i + 1))) * 2 ^ (7 * (i + 1)) \<le> n div 128 * 2 ^ (7 * (i + 1))"
        by (intro mult_right_mono) auto
      then show ?thesis unfolding p by simp
    qed
    have min: "minimal_after (i + 1) b (n div 128)"
      using continues_minimal [OF False g] by (simp add: minimal_after_def)
    have "7 * (i + 1) < W" using room7 by simp
    from "1.IH" [OF False lo' hi' this min]
    have "sleb_spec W (sleb (n div 128) @ rest) (i + 1) len b (acc + unat b mod 128 * 2 ^ (7 * i)) =
        Inr (int acc + n * 2 ^ (7 * i), i + 1 + length (sleb (n div 128)))"
      using sum g by simp
    then show ?thesis
      using room room7 more by (simp only: enc sleb_spec.simps(2) Let_def append_Cons) simp
  qed
qed

lemma signed_step_bounds:
  fixes m :: int and s W :: nat
  assumes "- (2 ^ (W - 1)) \<le> m * (128 * 2 ^ s)" and "m * (128 * 2 ^ s) < 2 ^ (W - 1)"
    and "s + 7 < W" and "0 \<le> g" and "g < 128"
  shows "- (2 ^ (W - 1)) \<le> (128 * m + g) * 2 ^ s" and "(128 * m + g) * 2 ^ s < 2 ^ (W - 1)"
proof -
  have pos: "(0 :: int) < 2 ^ s" by simp
  have e: "(128 * m + g) * 2 ^ s = m * (128 * 2 ^ s) + g * 2 ^ s" by (simp add: algebra_simps)
  have "0 \<le> g * 2 ^ s" using assms(4) by simp
  with assms(1) show "- (2 ^ (W - 1)) \<le> (128 * m + g) * 2 ^ s" unfolding e by linarith
  have p: "(2 :: int) ^ (W - 1) = 2 ^ (W - 1 - (s + 7)) * (128 * 2 ^ s)"
  proof -
    have "(2 :: int) ^ (W - 1) = 2 ^ (W - 1 - (s + 7)) * 2 ^ (s + 7)"
      using assms(3) by (simp only: power_add [symmetric]) simp
    then show ?thesis by (simp add: power_add)
  qed
  have "m < 2 ^ (W - 1 - (s + 7))"
    using assms(2) pos unfolding p by (simp add: mult_less_cancel_right)
  then have "(m + 1) * (128 * 2 ^ s) \<le> 2 ^ (W - 1 - (s + 7)) * (128 * 2 ^ s)"
    by (intro mult_right_mono) auto
  moreover have "g * 2 ^ s < 128 * 2 ^ s" using assms(5) pos by (intro mult_strict_right_mono) auto
  ultimately show "(128 * m + g) * 2 ^ s < 2 ^ (W - 1)"
    unfolding e p by (simp only: distrib_right)
qed

lemma sleb_spec_canonical:
  assumes "sleb_spec W bs i len prev acc = Inr (v, k)"
  shows "\<exists>n. v = int acc + n * 2 ^ (7 * i) \<and> - (2 ^ (W - 1)) \<le> n * 2 ^ (7 * i) \<and>
    n * 2 ^ (7 * i) < 2 ^ (W - 1) \<and> 7 * i < W \<and> minimal_after i prev n \<and>
    k = i + length (sleb n) \<and> length (sleb n) \<le> length bs \<and> take (length (sleb n)) bs = sleb n"
  using assms
proof (induction bs arbitrary: i prev acc)
  case Nil
  then show ?case by simp
next
  case (Cons b bs)
  let ?n = "sgroup b"
  have room: "7 * i < W" and fits: "\<not> (W < 7 * i + 7 \<and>
      (128 \<le> unat b \<or> ?n < - (2 ^ (W - 7 * i - 1)) \<or> 2 ^ (W - 7 * i - 1) \<le> ?n))"
    using Cons.prems by (auto simp: sleb_spec.simps(2) Let_def split: if_splits)
  show ?case
  proof (cases "128 \<le> unat b")
    case False
    have p: "(2 :: int) ^ (W - 1) = 2 ^ (W - 7 * i - 1) * 2 ^ (7 * i)"
      using room by (simp flip: power_add)
    have "- (2 ^ (W - 7 * i - 1)) \<le> ?n \<and> ?n < 2 ^ (W - 7 * i - 1)"
    proof (cases "W < 7 * i + 7")
      case True
      with fits show ?thesis by (meson not_le)
    next
      case False
      then have "(2 :: int) ^ 6 \<le> 2 ^ (W - 7 * i - 1)" by (intro power_increasing) auto
      then have "64 \<le> (2 :: int) ^ (W - 7 * i - 1)" by simp
      with sgroup_range [of b] show ?thesis by linarith
    qed
    then have lo: "- (2 ^ (W - 7 * i - 1)) \<le> ?n" and hi: "?n < 2 ^ (W - 7 * i - 1)" by auto
    have rng: "- (2 ^ (W - 7 * i - 1)) * 2 ^ (7 * i) \<le> ?n * 2 ^ (7 * i)"
        "?n * 2 ^ (7 * i) < 2 ^ (W - 7 * i - 1) * 2 ^ (7 * i)"
      by (rule mult_right_mono [OF lo]) (simp, rule mult_strict_right_mono [OF hi], simp)
    have "sleb ?n = [b]"
      using sgroup_range [of b] byte_of_sgroup [OF False] by (simp add: sleb.simps [of ?n])
    moreover have "v = int acc + ?n * 2 ^ (7 * i) \<and> k = i + 1 \<and> minimal_after i prev ?n"
      using Cons.prems room fits False
      by (auto simp: sleb_spec.simps(2) Let_def minimal_after_def sgroup_zero [OF False, symmetric]
          sgroup_m1 [OF False, symmetric] split: if_splits)
    ultimately show ?thesis
      using rng room unfolding p by (intro exI [of _ ?n]) auto
  next
    case True
    define g where "g = unat b mod 128"
    have "sleb_spec W bs (i + 1) len b (acc + g * 2 ^ (7 * i)) = Inr (v, k)"
      using Cons.prems room fits True by (simp add: sleb_spec.simps(2) Let_def g_def)
    from Cons.IH [OF this] obtain m where m:
      "v = int (acc + g * 2 ^ (7 * i)) + m * 2 ^ (7 * (i + 1))"
      "- (2 ^ (W - 1)) \<le> m * (128 * 2 ^ (7 * i))" "m * (128 * 2 ^ (7 * i)) < 2 ^ (W - 1)"
      "7 * i + 7 < W" "minimal_after (i + 1) b m" "k = i + 1 + length (sleb m)"
      "length (sleb m) \<le> length bs" "take (length (sleb m)) bs = sleb m"
      unfolding pow_7_Suc by auto
    define n where "n = 128 * m + int g"
    have g: "g < 128" unfolding g_def by simp
    have dm: "n mod 128 = int g" "n div 128 = m" unfolding n_def using g by simp_all
    have out: "\<not> (-64 \<le> n \<and> n < 64)"
    proof
      assume n: "-64 \<le> n \<and> n < 64"
      then have "m = 0 \<and> g < 64 \<or> m = -1 \<and> 64 \<le> g" unfolding n_def using g by arith
      with m(5) show False by (auto simp: minimal_after_def g_def)
    qed
    have "b = word_of_int (int g + 128)"
    proof -
      have "unat b = g + 128" unfolding g_def by (rule high_group [OF True byte_lt_256])
      then have "b = word_of_nat (g + 128)" by (rule word_of_nat_byte)
      then show ?thesis by simp
    qed
    with out have enc: "sleb n = b # sleb m" by (simp only: sleb.simps [of n] dm if_False)
    have v: "v = int acc + n * 2 ^ (7 * i)"
      using m(1) unfolding n_def pow_7_Suc by (simp add: algebra_simps)
    have min: "minimal_after i prev n" using out by (auto simp: minimal_after_def)
    note bnd = signed_step_bounds [OF m(2-4), of "int g"]
    show ?thesis
      using v bnd g min enc m(6-8) room unfolding n_def [symmetric] by (intro exI [of _ n]) auto
  qed
qed

section \<open>Signed decoders refine the reference\<close>

definition read_s :: "leb_error + ('w::len word \<times> nat) \<Rightarrow> leb_error + (int \<times> nat)" where
  "read_s r = (case r of Inl e \<Rightarrow> Inl e | Inr (x, n) \<Rightarrow> Inr (sint x, n))"

lemma read_s_eq_Inr: "read_s r = Inr (v, n) \<longleftrightarrow> (\<exists>x. r = Inr (x, n) \<and> v = sint x)"
  by (auto simp: read_s_def split: sum.splits)

lemma read_s_exact: "read_s r = Inr (sint x, n) \<longleftrightarrow> r = Inr (x, n)"
  by (auto simp: read_s_eq_Inr dest: signed_word_eqI)

lemma sint_word_of_int:
  assumes "- (2 ^ (LENGTH('w) - 1)) \<le> k" and "k < 2 ^ (LENGTH('w) - 1)"
  shows "sint (word_of_int k :: 'w::len word) = k"
  using assms by (simp add: signed_of_int signed_take_bit_int_eq_self)

lemma or_group_int:
  fixes r c :: "'w::len word"
  assumes "unat r < 2 ^ s"
  shows "r OR push_bit s c = word_of_int (int (unat r) + int (unat c) * 2 ^ s)"
proof -
  have "int (unat r) + int (unat c) * 2 ^ s = int (unat r + unat c * 2 ^ s)" by (simp del: uint_nat)
  then show ?thesis unfolding or_group [OF assms] by (simp only: of_int_of_nat_eq)
qed

lemma sgroup_split:
  "sgroup b = int (unat b mod 128) - (if b AND 0x40 \<noteq> 0 then 128 else 0)"
  by (simp add: sgroup_def sgroup_nat_def byte_sign_bit)

text \<open>
  The sign extension of the last group, for both widths: \<open>lim\<close> is the source's constant (63, 28),
  below which the group does not reach the top bit.
\<close>

lemma sign_extend_value:
  fixes r :: "'w::len word"
  assumes c_def: "c = ucast (b AND 0x7f)"
    and r: "unat r < 2 ^ s" and w: "8 \<le> LENGTH('w)" "s < LENGTH('w)"
    and lim: "s < lim \<Longrightarrow> s + 7 \<le> LENGTH('w)" "\<not> s < lim \<Longrightarrow> LENGTH('w) \<le> s + 7"
    and lo: "- (2 ^ (LENGTH('w) - s - 1)) \<le> sgroup b" and hi: "sgroup b < 2 ^ (LENGTH('w) - s - 1)"
  shows "sint (if s < lim \<and> b AND 0x40 \<noteq> 0
               then (r OR push_bit s c) OR push_bit (s + 7) (NOT 0) else r OR push_bit s c)
       = int (unat r) + sgroup b * 2 ^ s" (is "sint ?x = ?v")
proof -
  let ?g = "unat b mod 128"
  have raw: "r OR push_bit s c = word_of_int (int (unat r) + int ?g * 2 ^ s)"
    unfolding or_group_int [OF r] c_def chunk_unat [OF w(1)] ..
  have "?x = word_of_int ?v"
  proof (cases "b AND 0x40 = 0")
    case True
    then show ?thesis by (simp add: sgroup_split raw)
  next
    case neg: False
    have top: "word_of_int (int (unat r) + int ?g * 2 ^ s) + word_of_int (- (2 ^ (s + 7))) = (word_of_int ?v :: 'w word)"
      using neg by (simp only: sgroup_split of_int_add [symmetric]) (simp add: power_add algebra_simps)
    show ?thesis
    proof (cases "s < lim")
      case True
      have rs: "unat r + ?g * 2 ^ s < 2 ^ (s + 7)"
      proof -
        have "(?g + 1) * 2 ^ s \<le> 128 * 2 ^ s" by (intro mult_right_mono) (simp_all add: Suc_le_eq)
        moreover have "(?g + 1) * 2 ^ s = ?g * 2 ^ s + 2 ^ s" by (simp only: distrib_right mult_1)
        moreover have "(2 :: nat) ^ (s + 7) = 128 * 2 ^ s" by (simp add: power_add)
        ultimately show ?thesis using r by linarith
      qed
      moreover have "(2 :: nat) ^ (s + 7) \<le> 2 ^ LENGTH('w)" using lim(1) [OF True] by (rule power_increasing) simp
      ultimately have "unat (r OR push_bit s c) = unat r + ?g * 2 ^ s"
        using or_group_unat [OF r, of c] unfolding c_def chunk_unat [OF w(1)] by linarith
      then have "(r OR push_bit s c) OR push_bit (s + 7) (NOT 0) = (r OR push_bit s c) + push_bit (s + 7) (NOT 0)"
        using rs by (intro word_or_push_bit) simp
      also have "\<dots> = word_of_int ?v"
        unfolding raw top [symmetric] by (simp add: push_bit_eq_mult)
      finally show ?thesis using True neg by simp
    next
      case False
      have "(2 :: 'w word) ^ (s + 7) = 0" using lim(2) [OF False] by (simp only: exp_eq_zero_iff)
      then have z: "word_of_int (- (2 ^ (s + 7))) = (0 :: 'w word)" by simp
      have "r OR push_bit s c = word_of_int ?v"
        unfolding raw top [symmetric] z by (simp only: add_0_right)
      then show ?thesis using False by (simp only: if_False simp_thms)
    qed
  qed
  moreover have "- (2 ^ (LENGTH('w) - 1)) \<le> ?v" and "?v < 2 ^ (LENGTH('w) - 1)"
  proof -
    have p: "(2 :: int) ^ (LENGTH('w) - 1) = 2 ^ (LENGTH('w) - s - 1) * 2 ^ s"
      using w(2) by (simp flip: power_add)
    have "- (2 ^ (LENGTH('w) - s - 1)) * 2 ^ s \<le> sgroup b * 2 ^ s"
      by (rule mult_right_mono [OF lo]) simp
    moreover have "0 \<le> int (unat r)" by (rule of_nat_0_le_iff)
    ultimately show "- (2 ^ (LENGTH('w) - 1)) \<le> ?v" unfolding p by linarith
    have "(sgroup b + 1) * 2 ^ s \<le> 2 ^ (LENGTH('w) - s - 1) * 2 ^ s"
      using hi by (intro mult_right_mono) auto
    moreover have "int (unat r) < 2 ^ s" using r by (metis of_nat_less_iff of_nat_numeral of_nat_power)
    ultimately show "?v < 2 ^ (LENGTH('w) - 1)" unfolding p by (simp only: distrib_right)
  qed
  ultimately show ?thesis by (simp only: sint_word_of_int)
qed

lemma sgroup_eq_chunk:
  "unat b mod 128 = 0 \<longleftrightarrow> sgroup b = 0" "unat b mod 128 = 127 \<longleftrightarrow> sgroup b = -1"
proof -
  have "unat b mod 128 < 128" by simp
  then show "unat b mod 128 = 0 \<longleftrightarrow> sgroup b = 0" "unat b mod 128 = 127 \<longleftrightarrow> sgroup b = -1"
    unfolding sgroup_def sgroup_nat_def by auto
qed

text \<open>The \<open>i32\<close> mask test: the bits above the sign bit of the last group agree.\<close>

lemma and_78_table:
  "list_all (\<lambda>n. ((n AND 120 = (0::nat)) \<longleftrightarrow> n < 8) \<and> ((n AND 120 = 120) \<longleftrightarrow> 120 \<le> n)) [0..<128]"
  by code_simp

lemma and_78_nat:
  assumes "n < 128"
  shows "n AND 120 = (0::nat) \<longleftrightarrow> n < 8" and "n AND 120 = (120::nat) \<longleftrightarrow> 120 \<le> n"
proof -
  have "n \<in> set [0..<128]" unfolding set_upt atLeastLessThan_iff using assms by blast
  with and_78_table show "n AND 120 = 0 \<longleftrightarrow> n < 8" and "n AND 120 = 120 \<longleftrightarrow> 120 \<le> n"
    unfolding list_all_iff by blast+
qed

lemma chunk_78:
  fixes b :: u8
  defines "c \<equiv> (ucast (b AND 0x7f) :: u32)"
  shows "c AND 0x78 = 0 \<longleftrightarrow> unat b mod 128 < 8" and "c AND 0x78 = 0x78 \<longleftrightarrow> 120 \<le> unat b mod 128"
proof -
  have "unat c = unat b mod 128" unfolding c_def by (rule chunk_unat) simp
  moreover have "unat (0x78 :: u32) = 120" by simp
  ultimately have u: "unat (c AND 0x78) = unat b mod 128 AND 120" by (simp only: unsigned_and_eq)
  have lt: "unat b mod 128 < 128" by simp
  show "c AND 0x78 = 0 \<longleftrightarrow> unat b mod 128 < 8"
    using and_78_nat(1) [OF lt] unfolding u [symmetric] by (simp only: unat_eq_0)
  show "c AND 0x78 = 0x78 \<longleftrightarrow> 120 \<le> unat b mod 128"
    using and_78_nat(2) [OF lt] unfolding u [symmetric] by (simp only: word_unat_eq_iff) simp
qed

lemma check_overflow_i64_ok:
  assumes "i \<le> 10"
  shows "check_overflow_i64 (7 * i) (ucast (b AND 0x7f)) b i =
    (if 64 \<le> 7 * i \<or> 64 < 7 * i + 7 \<and>
        (128 \<le> unat b \<or> sgroup b < - (2 ^ (64 - 7 * i - 1)) \<or> 2 ^ (64 - 7 * i - 1) \<le> sgroup b)
     then Inl (Overflow i) else Inr ())"
proof -
  have c: "(ucast (b AND 0x7f) :: u64) = 0 \<longleftrightarrow> sgroup b = 0"
      "(ucast (b AND 0x7f) :: u64) = 0x7f \<longleftrightarrow> sgroup b = -1"
    using chunk_unat [where 'w = 64, of b]
    by (simp_all only: word_unat_eq_iff sgroup_eq_chunk [symmetric]) simp_all
  consider "i = 10" | "i = 9" | "i \<le> 8" using assms by linarith
  then show ?thesis
    by cases (auto simp: check_overflow_i64_def c byte_more_iff)
qed

lemma check_overflow_i32_ok:
  assumes "i \<le> 5"
  shows "check_overflow_i32 (7 * i) (ucast (b AND 0x7f)) b i =
    (if 32 \<le> 7 * i \<or> 32 < 7 * i + 7 \<and>
        (128 \<le> unat b \<or> sgroup b < - (2 ^ (32 - 7 * i - 1)) \<or> 2 ^ (32 - 7 * i - 1) \<le> sgroup b)
     then Inl (Overflow i) else Inr ())"
proof -
  have lt: "unat b mod 128 < 128" by simp
  have c: "\<not> unat b mod 128 < 8 \<and> \<not> 120 \<le> unat b mod 128 \<longleftrightarrow> sgroup b < -8 \<or> 8 \<le> sgroup b"
    unfolding sgroup_def sgroup_nat_def using lt by auto
  consider "i = 5" | "i = 4" | "i \<le> 3" using assms by linarith
  then show ?thesis
    by cases (simp_all add: check_overflow_i32_def chunk_78 c byte_more_iff disj_commute)
qed

lemma check_minimal_i64_iff:
  "check_minimal_i64 i b prev =
     (if 0 < i \<and> (unat prev mod 128 < 64 \<and> b = 0 \<or> 64 \<le> unat prev mod 128 \<and> b = 0x7f)
      then Inl (NonMinimal i) else Inr ())"
  by (simp add: check_minimal_i64_def Let_def byte_sign_bit not_less)

lemma check_minimal_i32_iff:
  "check_minimal_i32 i b prev =
     (if 0 < i \<and> (unat prev mod 128 < 64 \<and> b = 0 \<or> 64 \<le> unat prev mod 128 \<and> b = 0x7f)
      then Inl (NonMinimal i) else Inr ())"
  by (simp add: check_minimal_i32_def Let_def byte_sign_bit not_less)

lemma sgroup_small_target:
  assumes "7 * i < W"
    and "\<not> (W < 7 * i + 7 \<and> (cont \<or> sgroup b < - (2 ^ (W - 7 * i - 1)) \<or> 2 ^ (W - 7 * i - 1) \<le> sgroup b))"
  shows "- (2 ^ (W - 7 * i - 1)) \<le> sgroup b" and "sgroup b < 2 ^ (W - 7 * i - 1)"
proof -
  have "- (2 ^ (W - 7 * i - 1)) \<le> sgroup b \<and> sgroup b < 2 ^ (W - 7 * i - 1)"
  proof (cases "W < 7 * i + 7")
    case True
    with assms(2) show ?thesis by (meson not_le)
  next
    case False
    then have "(2 :: int) ^ 6 \<le> 2 ^ (W - 7 * i - 1)" by (intro power_increasing) auto
    then have "64 \<le> (2 :: int) ^ (W - 7 * i - 1)" by simp
    with sgroup_range [of b] show ?thesis by linarith
  qed
  then show "- (2 ^ (W - 7 * i - 1)) \<le> sgroup b" and "sgroup b < 2 ^ (W - 7 * i - 1)" by auto
qed


lemma decode_i64_loop_refines:
  assumes "unat r < 2 ^ (7 * i)" and "i \<le> 10"
  shows "read_s (decode_i64_loop bs i len prev r) = sleb_spec 64 bs i len prev (unat r)"
  using assms
proof (induction bs arbitrary: i prev r)
  case Nil
  then show ?case by (simp add: read_s_def)
next
  case (Cons b bs)
  let ?g = "unat b mod 128" and ?c = "ucast (b AND 0x7f) :: u64"
  let ?over = "64 \<le> 7 * i \<or> 64 < 7 * i + 7 \<and>
      (128 \<le> unat b \<or> sgroup b < - (2 ^ (64 - 7 * i - 1)) \<or> 2 ^ (64 - 7 * i - 1) \<le> sgroup b)"
  let ?redundant = "0 < i \<and> (unat prev mod 128 < 64 \<and> b = 0 \<or> 64 \<le> unat prev mod 128 \<and> b = 0x7f)"
  let ?r = "r OR push_bit (7 * i) ?c"
  have idx: "sat_mul_usize i 7 = 7 * i" "sat_add_usize i 1 = i + 1" "sat_add_usize (7 * i) 7 = 7 * i + 7"
    using Cons.prems(2) by (simp_all add: sat_simps usize_max_def)
  have step: "decode_i64_byte b i (7 * i) prev r =
      (if ?over then Inl (Overflow i)
       else if 128 \<le> unat b then Inr (?r, None)
       else if ?redundant then Inl (NonMinimal i)
       else Inr (?r, Some (sign_extend_i64 ?r (7 * i) b, i + 1)))"
    unfolding decode_i64_byte_def Let_def check_overflow_i64_ok [OF Cons.prems(2)]
      check_minimal_i64_iff byte_more_iff idx
    by (cases ?over; cases "128 \<le> unat b"; cases ?redundant; simp only: simp_thms if_True if_False rbind_simps)
  show ?case
  proof (cases ?over)
    case True
    then show ?thesis
      by (simp only: decode_i64_loop.simps idx step if_True rbind_simps sleb_spec.simps(2) Let_def)
        (simp add: read_s_def)
  next
    case False
    then have room: "7 * i < 64"
      and fits: "\<not> (64 < 7 * i + 7 \<and> (128 \<le> unat b \<or> sgroup b < - (2 ^ (64 - 7 * i - 1)) \<or>
        2 ^ (64 - 7 * i - 1) \<le> sgroup b))" by auto
    note tgt = sgroup_small_target [OF room fits]
    have val: "sint (sign_extend_i64 ?r (7 * i) b) = int (unat r) + sgroup b * 2 ^ (7 * i)"
      unfolding sign_extend_i64_def idx
      by (rule sign_extend_value [OF refl Cons.prems(1)]) (use room tgt in auto)
    have c: "unat ?c = ?g" by (rule chunk_unat) simp
    have IH: "read_s (decode_i64_loop bs (i + 1) len b ?r) =
        sleb_spec 64 bs (i + 1) len b (unat r + ?g * 2 ^ (7 * i))" if more: "128 \<le> unat b"
    proof -
      have ok: "7 * i + 7 \<le> 64 \<or> ?g < 2 ^ (64 - 7 * i)" using fits more by linarith
      have g: "?g < 128" by simp
      note bnd = group_bounds [OF Cons.prems(1) g ok room]
      have "unat ?r = unat r + ?g * 2 ^ (7 * i)"
        using or_group_unat [OF Cons.prems(1), of ?c] bnd(1) by (simp only: c) simp
      then show ?thesis using Cons.IH [of ?r "i + 1" b] bnd(2) room by simp
    qed
    show ?thesis
      using IH val
      by (simp only: decode_i64_loop.simps idx step False if_False sleb_spec.simps(2) Let_def split: if_split)
        (simp add: read_s_def)
  qed
qed

lemma decode_i32_loop_refines:
  assumes "unat r < 2 ^ (7 * i)" and "i \<le> 5"
  shows "read_s (decode_i32_loop bs i len prev r) = sleb_spec 32 bs i len prev (unat r)"
  using assms
proof (induction bs arbitrary: i prev r)
  case Nil
  then show ?case by (simp add: read_s_def)
next
  case (Cons b bs)
  let ?g = "unat b mod 128" and ?c = "ucast (b AND 0x7f) :: u32"
  let ?over = "32 \<le> 7 * i \<or> 32 < 7 * i + 7 \<and>
      (128 \<le> unat b \<or> sgroup b < - (2 ^ (32 - 7 * i - 1)) \<or> 2 ^ (32 - 7 * i - 1) \<le> sgroup b)"
  let ?redundant = "0 < i \<and> (unat prev mod 128 < 64 \<and> b = 0 \<or> 64 \<le> unat prev mod 128 \<and> b = 0x7f)"
  let ?r = "r OR push_bit (7 * i) ?c"
  have idx: "sat_mul_usize i 7 = 7 * i" "sat_add_usize i 1 = i + 1" "sat_add_usize (7 * i) 7 = 7 * i + 7"
    using Cons.prems(2) by (simp_all add: sat_simps usize_max_def)
  have step: "decode_i32_byte b i (7 * i) prev r =
      (if ?over then Inl (Overflow i)
       else if 128 \<le> unat b then Inr (?r, None)
       else if ?redundant then Inl (NonMinimal i)
       else Inr (?r, Some (sign_extend_i32 ?r (7 * i) b, i + 1)))"
    unfolding decode_i32_byte_def Let_def check_overflow_i32_ok [OF Cons.prems(2)]
      check_minimal_i32_iff byte_more_iff idx
    by (cases ?over; cases "128 \<le> unat b"; cases ?redundant; simp only: simp_thms if_True if_False rbind_simps)
  show ?case
  proof (cases ?over)
    case True
    then show ?thesis
      by (simp only: decode_i32_loop.simps idx step if_True rbind_simps sleb_spec.simps(2) Let_def)
        (simp add: read_s_def)
  next
    case False
    then have room: "7 * i < 32"
      and fits: "\<not> (32 < 7 * i + 7 \<and> (128 \<le> unat b \<or> sgroup b < - (2 ^ (32 - 7 * i - 1)) \<or>
        2 ^ (32 - 7 * i - 1) \<le> sgroup b))" by auto
    note tgt = sgroup_small_target [OF room fits]
    have val: "sint (sign_extend_i32 ?r (7 * i) b) = int (unat r) + sgroup b * 2 ^ (7 * i)"
      unfolding sign_extend_i32_def idx
      by (rule sign_extend_value [OF refl Cons.prems(1)]) (use room tgt in auto)
    have c: "unat ?c = ?g" by (rule chunk_unat) simp
    have IH: "read_s (decode_i32_loop bs (i + 1) len b ?r) =
        sleb_spec 32 bs (i + 1) len b (unat r + ?g * 2 ^ (7 * i))" if more: "128 \<le> unat b"
    proof -
      have ok: "7 * i + 7 \<le> 32 \<or> ?g < 2 ^ (32 - 7 * i)" using fits more by linarith
      have g: "?g < 128" by simp
      note bnd = group_bounds [OF Cons.prems(1) g ok room]
      have "unat ?r = unat r + ?g * 2 ^ (7 * i)"
        using or_group_unat [OF Cons.prems(1), of ?c] bnd(1) by (simp only: c) simp
      then show ?thesis using Cons.IH [of ?r "i + 1" b] bnd(2) room by simp
    qed
    show ?thesis
      using IH val
      by (simp only: decode_i32_loop.simps idx step False if_False sleb_spec.simps(2) Let_def split: if_split)
        (simp add: read_s_def)
  qed
qed

lemma decode_i64_refines: "read_s (decode_i64 bs) = sleb_spec 64 bs 0 (length bs) 0 0"
  using decode_i64_loop_refines [of 0 0 bs "length bs" 0] by (simp add: decode_i64_def)

lemma decode_i32_refines: "read_s (decode_i32 bs) = sleb_spec 32 bs 0 (length bs) 0 0"
  using decode_i32_loop_refines [of 0 0 bs "length bs" 0] by (simp add: decode_i32_def)

lemma sint_fits: "- (2 ^ (LENGTH('w) - 1)) \<le> sint (x :: 'w::len word)" "sint x < 2 ^ (LENGTH('w) - 1)"
  using sint_ge [of x] sint_lt [of x] by auto

interpretation leb_i64: prefix_codec "\<lambda>x. the (encode_i64 x [])" decode_i64
proof unfold_locales
  fix x :: u64 and rest
  have "read_s (decode_i64 (sleb (sint x) @ rest)) = Inr (sint x, length (sleb (sint x)))"
    unfolding decode_i64_refines
    using sleb_spec_enc [of 64 "sint x" 0 0 rest _ 0] sint_fits [of x] by (simp add: minimal_after_def)
  then show "decode_i64 (the (encode_i64 x []) @ rest) = Inr (x, length (the (encode_i64 x [])))"
    by (simp add: encode_i64_eq read_s_exact)
next
  fix bs :: bytes and x :: u64 and n
  assume "decode_i64 bs = Inr (x, n)"
  then have "sleb_spec 64 bs 0 (length bs) 0 0 = Inr (sint x, n)"
    by (simp add: read_s_exact flip: decode_i64_refines)
  from sleb_spec_canonical [OF this] show "n \<le> length bs \<and> take n bs = the (encode_i64 x [])"
    by (auto simp: encode_i64_eq)
qed

interpretation leb_i32: prefix_codec "\<lambda>x. the (encode_i32 x [])" decode_i32
proof unfold_locales
  fix x :: u32 and rest
  have "read_s (decode_i32 (sleb (sint x) @ rest)) = Inr (sint x, length (sleb (sint x)))"
    unfolding decode_i32_refines
    using sleb_spec_enc [of 32 "sint x" 0 0 rest _ 0] sint_fits [of x] by (simp add: minimal_after_def)
  then show "decode_i32 (the (encode_i32 x []) @ rest) = Inr (x, length (the (encode_i32 x [])))"
    by (simp add: encode_i32_eq read_s_exact)
next
  fix bs :: bytes and x :: u32 and n
  assume "decode_i32 bs = Inr (x, n)"
  then have "sleb_spec 32 bs 0 (length bs) 0 0 = Inr (sint x, n)"
    by (simp add: read_s_exact flip: decode_i32_refines)
  from sleb_spec_canonical [OF this] show "n \<le> length bs \<and> take n bs = the (encode_i32 x [])"
    by (auto simp: encode_i32_eq)
qed

section \<open>Signed integers: what the codec promises\<close>

lemma sleb_length: "- (64 * 128 ^ k) \<le> n \<Longrightarrow> n < 64 * 128 ^ k \<Longrightarrow> length (sleb n) \<le> Suc k"
proof (induction k arbitrary: n)
  case (Suc k)
  show ?case
  proof (cases "-64 \<le> n \<and> n < 64")
    case False
    define p :: int where "p = 64 * 128 ^ k"
    have "-(128 * p) \<le> n" "n < 128 * p" using Suc.prems unfolding p_def by simp_all
    then have "- p \<le> n div 128" "n div 128 < p" by linarith+
    then have "length (sleb (n div 128)) \<le> Suc k" unfolding p_def by (rule Suc.IH)
    then show ?thesis using False by (simp add: sleb.simps [of n])
  qed (simp add: sleb.simps [of n])
next
  case 0
  then show ?case by (simp add: sleb.simps [of n])
qed

text \<open>
  The signed encoders return for every integer, append at most ten (five) bytes, and the
  matching decoder reads exactly those bytes back, sign included.
\<close>

theorem leb_signed_roundtrip:
  "(\<exists>bs. encode_i64 x out = Some (out @ bs) \<and> length bs \<le> 10 \<and>
      decode_i64 (bs @ rest) = Inr (x, length bs)) \<and>
   (\<exists>bs. encode_i32 y out = Some (out @ bs) \<and> length bs \<le> 5 \<and>
      decode_i32 (bs @ rest) = Inr (y, length bs))"
  using leb_i64.dec_enc [of x rest] leb_i32.dec_enc [of y rest]
    sleb_length [of 9 "sint x"] sleb_length [of 4 "sint y"] sint_fits [of x] sint_fits [of y]
  by (simp add: encode_i64_eq encode_i32_eq)

text \<open>
  The signed encoders return for every integer, in at most ten (five) bytes, and the decoders accept
  that minimal two's complement encoding and nothing else, taking exactly its bytes.
\<close>

theorem leb_signed_canonical:
  "(\<exists>bs. encode_i64 x [] = Some bs \<and> length bs \<le> 10) \<and> (\<exists>bs. encode_i32 y [] = Some bs \<and> length bs \<le> 5) \<and>
   (decode_i64 bs = Inr (x, n) \<longleftrightarrow> n \<le> length bs \<and> encode_i64 x [] = Some (take n bs)) \<and>
   (decode_i32 bs = Inr (y, n) \<longleftrightarrow> n \<le> length bs \<and> encode_i32 y [] = Some (take n bs))"
  unfolding leb_i64.dec_take leb_i32.dec_take
  using sleb_length [of 9 "sint x"] sleb_length [of 4 "sint y"] sint_fits [of x] sint_fits [of y] by (auto simp: encode_i64_eq encode_i32_eq)

end
