(* ===== verification/Flow.thy ===== *)
theory Flow
  imports Prelude
begin

text \<open>
  \<open>crates/lgwks-bot/src/script/error.rs\<close>, \<open>scope.rs\<close>: the error every scripted step returns, the
  step path it happened at, and the scope a step runs in. The boxed payloads of other components
  (a refusal, a store error, a capability deficit) are the type parameter of \<open>flow_error\<close>; strings
  are UTF-8 byte sequences as \<open>string\<close>. The cancellation token is the runtime's: each function that
  reads it takes what it read as an argument.
\<close>

section \<open>Decimal numbers in paths and messages\<close>

fun show_nat :: "nat \<Rightarrow> string" where
  "show_nat n = (if n < 10 then [char_of (48 + n)] else show_nat (n div 10) @ [char_of (48 + n mod 10)])"

declare show_nat.simps [simp del]

lemma show_nat_not_empty [simp]: "show_nat n \<noteq> []"
  by (subst show_nat.simps) simp

section \<open>Errors\<close>

datatype 'p flow_error =
    Cancelled string
  | TimedOut string duration
  | Exhausted string nat "'p flow_error"
  | Throttled string nat "'p flow_error"
  | Refused string 'p 'p
  | Intervention string 'p
  | Failed string string
  | Transient string string
  | Bot string 'p
  | TooDeep string nat
  | InvalidTenant string
  | InvalidName string
  | InvalidRequestKey string
  | InvalidBusinessKey string
  | FlowBlocked string 'p
  | InvalidBound string nat nat
  | Incompatible string 'p
  | Justified string string string
  | FlowGraph string string
  | Parked string string string nat
  | ApprovalDenied string string
  | ApprovalExpired string string
  | NeedsApproval string string
  | Store string 'p

definition failed :: "string \<Rightarrow> 'p flow_error" where
  "failed reason = Failed [] reason"

definition incompatible :: "string \<Rightarrow> 'p \<Rightarrow> 'p flow_error" where
  "incompatible at drift = Incompatible at drift"

definition transient :: "string \<Rightarrow> 'p flow_error" where
  "transient reason = Transient [] reason"

definition justified_error :: "string \<Rightarrow> string \<Rightarrow> 'p flow_error" where
  "justified_error rule reason = Justified [] rule reason"

definition graph_error :: "string \<Rightarrow> 'p flow_error" where
  "graph_error reason = FlowGraph [] reason"

text \<open>\<open>bot_safe\<close> is \<open>BotError::retry_class() == RetryClass::Safe\<close>, a method of the payload.\<close>

fun is_retryable :: "('p \<Rightarrow> bool) \<Rightarrow> 'p flow_error \<Rightarrow> bool" where
  "is_retryable bot_safe (TimedOut _ _) = True"
| "is_retryable bot_safe (Transient _ _) = True"
| "is_retryable bot_safe (Bot _ source) = bot_safe source"
| "is_retryable bot_safe _ = False"

fun is_cancelled :: "'p flow_error \<Rightarrow> bool" where
  "is_cancelled (Cancelled _) = True"
| "is_cancelled _ = False"

fun error_at :: "'p flow_error \<Rightarrow> string" where
  "error_at (Cancelled at) = at"
| "error_at (TimedOut at _) = at"
| "error_at (Exhausted at _ _) = at"
| "error_at (Throttled at _ _) = at"
| "error_at (Failed at _) = at"
| "error_at (Transient at _) = at"
| "error_at (Bot at _) = at"
| "error_at (FlowBlocked at _) = at"
| "error_at (Refused at _ _) = at"
| "error_at (Intervention at _) = at"
| "error_at (TooDeep at _) = at"
| "error_at (Justified at _ _) = at"
| "error_at (FlowGraph at _) = at"
| "error_at (Parked at _ _ _) = at"
| "error_at (ApprovalDenied at _) = at"
| "error_at (ApprovalExpired at _) = at"
| "error_at (NeedsApproval at _) = at"
| "error_at (Incompatible at _) = at"
| "error_at (Store at _) = at"
| "error_at (InvalidTenant _) = []"
| "error_at (InvalidName _) = []"
| "error_at (InvalidRequestKey _) = []"
| "error_at (InvalidBusinessKey _) = []"
| "error_at (InvalidBound _ _ _) = []"

fun deficit :: "'p flow_error \<Rightarrow> 'p option" where
  "deficit (FlowBlocked _ d) = Some d"
| "deficit _ = None"

definition fill :: "string \<Rightarrow> string \<Rightarrow> string" where
  "fill path at = (if at = [] then path else at)"

fun located_at :: "string \<Rightarrow> 'p flow_error \<Rightarrow> 'p flow_error" where
  "located_at path (Cancelled at) = Cancelled (fill path at)"
| "located_at path (TimedOut at d) = TimedOut (fill path at) d"
| "located_at path (Exhausted at n e) = Exhausted (fill path at) n e"
| "located_at path (Throttled at n e) = Throttled (fill path at) n e"
| "located_at path (Failed at r) = Failed (fill path at) r"
| "located_at path (Transient at r) = Transient (fill path at) r"
| "located_at path (Bot at s) = Bot (fill path at) s"
| "located_at path (FlowBlocked at d) = FlowBlocked (fill path at) d"
| "located_at path (Refused at r p) = Refused (fill path at) r p"
| "located_at path (Intervention at i) = Intervention (fill path at) i"
| "located_at path (TooDeep at l) = TooDeep (fill path at) l"
| "located_at path (Justified at rule r) = Justified (fill path at) rule r"
| "located_at path (FlowGraph at r) = FlowGraph (fill path at) r"
| "located_at path (Incompatible at d) = Incompatible (fill path at) d"
| "located_at path (Parked at i d x) = Parked (fill path at) i d x"
| "located_at path (ApprovalDenied at i) = ApprovalDenied (fill path at) i"
| "located_at path (ApprovalExpired at i) = ApprovalExpired (fill path at) i"
| "located_at path (NeedsApproval at w) = NeedsApproval (fill path at) w"
| "located_at path (Store at s) = Store (fill path at) s"
| "located_at path (InvalidTenant r) = InvalidTenant r"
| "located_at path (InvalidName r) = InvalidName r"
| "located_at path (InvalidRequestKey r) = InvalidRequestKey r"
| "located_at path (InvalidBusinessKey r) = InvalidBusinessKey r"
| "located_at path (InvalidBound w v m) = InvalidBound w v m"

text \<open>The errors that carry no path: a refused construction, made before any step.\<close>

fun pathless :: "'p flow_error \<Rightarrow> bool" where
  "pathless (InvalidTenant _) = True"
| "pathless (InvalidName _) = True"
| "pathless (InvalidRequestKey _) = True"
| "pathless (InvalidBusinessKey _) = True"
| "pathless (InvalidBound _ _ _) = True"
| "pathless _ = False"

lemma located_retryable [simp]: "is_retryable s (located_at path e) = is_retryable s e"
  by (cases e) simp_all

lemma located_cancelled [simp]: "is_cancelled (located_at path e) = is_cancelled e"
  by (cases e) simp_all

lemma located_deficit [simp]: "deficit (located_at path e) = deficit e"
  by (cases e) simp_all

lemma error_at_located:
  "error_at (located_at path e) = (if pathless e then [] else if error_at e = [] then path else error_at e)"
  by (cases e) (simp_all add: fill_def)

lemma located_twice: "located_at outer (located_at path e) = located_at (fill outer path) e"
  by (cases e) (simp_all add: fill_def)

lemma located_located: "error_at e \<noteq> [] \<Longrightarrow> located_at path e = e"
  by (cases e) (simp_all add: fill_def)

section \<open>Names\<close>

datatype nameFault = NameEmpty | NameTooLong | NameBadChar

definition ascii_alphanumeric :: "char \<Rightarrow> bool" where
  "ascii_alphanumeric c = (let n = (of_char c :: nat) in
     48 \<le> n \<and> n \<le> 57 \<or> 65 \<le> n \<and> n \<le> 90 \<or> 97 \<le> n \<and> n \<le> 122)"

definition name_allowed :: "char \<Rightarrow> bool" where
  "name_allowed c = (ascii_alphanumeric c \<or> c \<in> set ''-_.:'')"

definition name_fault :: "string \<Rightarrow> nat \<Rightarrow> nameFault option" where
  "name_fault name most =
     (if name = [] then Some NameEmpty
      else if length name > most then Some NameTooLong
      else if \<not> list_all name_allowed name then Some NameBadChar
      else None)"

definition max_tenant_bytes :: nat where
  "max_tenant_bytes = 128"

definition tenant_new :: "string \<Rightarrow> 'p flow_error + string" where
  "tenant_new name =
     (if name \<in> set [''fan-out'']
      then Inl (InvalidTenant ''the tenant name is reserved for the crate's own use'')
      else case name_fault name max_tenant_bytes of
        None \<Rightarrow> Inr name
      | Some NameEmpty \<Rightarrow> Inl (InvalidTenant ''the tenant name is empty'')
      | Some NameTooLong \<Rightarrow> Inl (InvalidTenant ''the tenant name is longer than MAX_TENANT_BYTES'')
      | Some NameBadChar \<Rightarrow> Inl (InvalidTenant
          (''the tenant name may hold only ASCII letters, digits, '-', '_', '.' and ':'' @ [CHR 0x27])))"

lemma name_fault_None:
  "name_fault name most = None \<longleftrightarrow> name \<noteq> [] \<and> length name \<le> most \<and> list_all name_allowed name"
  by (simp add: name_fault_def)

lemma tenant_new_ok:
  "tenant_new name = Inr t \<longleftrightarrow>
     t = name \<and> name \<noteq> ''fan-out'' \<and> name \<noteq> [] \<and> length name \<le> 128 \<and> list_all name_allowed name"
  by (auto simp: tenant_new_def name_fault_def max_tenant_bytes_def split: nameFault.splits)

section \<open>Scopes\<close>

record scope =
  sc_path :: string
  sc_depth :: nat

definition max_depth :: nat where
  "max_depth = 64"

definition scope_root :: scope where
  "scope_root = \<lparr>sc_path = [], sc_depth = 0\<rparr>"

definition scope_join :: "scope \<Rightarrow> string \<Rightarrow> string" where
  "scope_join sc segment = (if sc_path sc = [] then segment else sc_path sc @ ''/'' @ segment)"

definition checkpoint :: "bool \<Rightarrow> scope \<Rightarrow> 'p flow_error + unit" where
  "checkpoint stopped sc = (if stopped then Inl (Cancelled (sc_path sc)) else Inr ())"

definition descend :: "bool \<Rightarrow> scope \<Rightarrow> string \<Rightarrow> 'p flow_error + scope" where
  "descend stopped sc path =
     rbind (checkpoint stopped sc) (\<lambda>_.
       if sc_depth sc \<ge> max_depth then Inl (TooDeep (sc_path sc) max_depth)
       else Inr \<lparr>sc_path = path, sc_depth = min (sc_depth sc + 1) 65535\<rparr>)"

definition scope_enter :: "bool \<Rightarrow> scope \<Rightarrow> string \<Rightarrow> 'p flow_error + scope" where
  "scope_enter stopped sc step = descend stopped sc (scope_join sc step)"

definition scope_item :: "bool \<Rightarrow> scope \<Rightarrow> string \<Rightarrow> nat \<Rightarrow> 'p flow_error + scope" where
  "scope_item stopped sc step index = descend stopped sc (scope_join sc (step @ ''#'' @ show_nat index))"

definition scope_numbered :: "bool \<Rightarrow> scope \<Rightarrow> nat \<Rightarrow> 'p flow_error + scope" where
  "scope_numbered stopped sc index = descend stopped sc (sc_path sc @ ''#'' @ show_nat index)"

lemma descend_ok:
  "descend stopped sc path = Inr sc' \<longleftrightarrow>
     \<not> stopped \<and> sc_depth sc < max_depth \<and> sc' = \<lparr>sc_path = path, sc_depth = sc_depth sc + 1\<rparr>"
  by (auto simp: descend_def checkpoint_def max_depth_def)

text \<open>The scopes a program can hold: the root, and what \<open>descend\<close> makes of one it holds.\<close>

inductive scope_reachable :: "scope \<Rightarrow> bool" where
  root: "scope_reachable scope_root"
| enter: "scope_reachable sc \<Longrightarrow> descend stopped sc path = (Inr sc' :: unit flow_error + scope) \<Longrightarrow> scope_reachable sc'"

lemma scope_depth_bounded: "scope_reachable sc \<Longrightarrow> sc_depth sc \<le> max_depth"
  by (induction rule: scope_reachable.induct) (auto simp: scope_root_def descend_ok)

end
