(* ===== verification/RetryBudget.thy ===== *)
theory RetryBudget
  imports Prelude
begin

text \<open>
  \<open>crates/lgwks-bot/src/script/policy.rs\<close>: the adaptive policy of a run (its retry budget in
  thousandths of a retry, windowed or not) and the process-wide pool of fan-out slots with the
  leases that draw on it. Each atomic update is one function on the state; the clock reading and
  the machine's core count are arguments.
\<close>

section \<open>The policy and its retry budget\<close>

definition max_in_flight :: nat where
  "max_in_flight = 65536"

definition fan_out_per_core :: nat where
  "fan_out_per_core = 64"

definition retry_reserve :: nat where
  "retry_reserve = 10"

definition retry_ratio_milli :: nat where
  "retry_ratio_milli = 200"

definition milli :: nat where
  "milli = 1000"

definition retry_reserve_milli :: nat where
  "retry_reserve_milli = retry_reserve * milli"

definition retry_earned_cap_milli :: nat where
  "retry_earned_cap_milli = retry_reserve_milli"

definition retry_ceiling_milli :: nat where
  "retry_ceiling_milli = retry_reserve_milli + retry_earned_cap_milli"

definition retry_ttl_nanos :: nat where
  "retry_ttl_nanos = 10000000000"

definition duration_to_nanos :: "duration \<Rightarrow> nat" where
  "duration_to_nanos d = sat_add_u64 (min ((d div 1000000000) * 1000000000) u64_max) (d mod 1000000000)"

text \<open>\<open>window\<close> is the earning stamp of a windowed budget, \<open>None\<close> for a private one.\<close>

record policy =
  fan_out :: nat
  retries :: nat
  window :: "nat option"

text \<open>\<open>cores\<close> is what \<open>std::thread::available_parallelism\<close> answered.\<close>

definition machine_fan_out :: "nat option \<Rightarrow> nat option" where
  "machine_fan_out cores =
     (let cores = (case cores of Some n \<Rightarrow> n | None \<Rightarrow> 1);
          n = min (sat_mul_usize cores fan_out_per_core) max_in_flight
      in if n = 0 then None else Some n)"

definition one_body_per_core_placeholder :: policy where
  "one_body_per_core_placeholder = \<lparr>fan_out = 1, retries = retry_reserve_milli, window = None\<rparr>"

definition for_this_machine :: "nat option \<Rightarrow> policy" where
  "for_this_machine cores =
     (case machine_fan_out cores of
        Some n \<Rightarrow> \<lparr>fan_out = n, retries = retry_reserve_milli, window = None\<rparr>
      | None \<Rightarrow> one_body_per_core_placeholder)"

definition for_this_host :: "nat option \<Rightarrow> policy" where
  "for_this_host cores =
     (let n = (case machine_fan_out cores of Some n \<Rightarrow> n | None \<Rightarrow> 1)
      in \<lparr>fan_out = n, retries = retry_reserve_milli, window = Some 0\<rparr>)"

definition earn_windowed :: "duration \<Rightarrow> nat \<Rightarrow> policy \<Rightarrow> policy" where
  "earn_windowed clock_now earned_at p =
     (let now = duration_to_nanos clock_now;
          stale = now - earned_at > retry_ttl_nanos;
          held = (if stale then min (retries p) retry_reserve_milli else retries p)
      in p\<lparr>retries := min (sat_add_u64 held retry_ratio_milli) retry_ceiling_milli,
           window := Some (max earned_at now)\<rparr>)"

definition first_attempt :: "duration \<Rightarrow> policy \<Rightarrow> policy" where
  "first_attempt clock_now p =
     (case window p of
        Some earned_at \<Rightarrow> earn_windowed clock_now earned_at p
      | None \<Rightarrow> p\<lparr>retries := sat_add_u64 (retries p) retry_ratio_milli\<rparr>)"

definition spend_windowed :: "duration \<Rightarrow> nat \<Rightarrow> policy \<Rightarrow> bool \<times> policy" where
  "spend_windowed clock_now earned_at p =
     (let now = duration_to_nanos clock_now;
          stale = now - earned_at > retry_ttl_nanos;
          held = (if stale then min (retries p) retry_reserve_milli else retries p)
      in if milli \<le> held then (True, p\<lparr>retries := held - milli\<rparr>) else (False, p))"

definition take_retry :: "duration \<Rightarrow> policy \<Rightarrow> bool \<times> policy" where
  "take_retry clock_now p =
     (case window p of
        Some earned_at \<Rightarrow> spend_windowed clock_now earned_at p
      | None \<Rightarrow> if milli \<le> retries p then (True, p\<lparr>retries := retries p - milli\<rparr>) else (False, p))"

lemmas budget_consts = milli_def retry_reserve_def retry_reserve_milli_def retry_earned_cap_milli_def
  retry_ceiling_milli_def retry_ratio_milli_def retry_ttl_nanos_def

lemma duration_to_nanos_le: "duration_to_nanos d \<le> u64_max"
  by (simp add: duration_to_nanos_def sat_add_u64_def)

lemma machine_fan_out_bounds: "machine_fan_out cores = Some n \<Longrightarrow> 1 \<le> n \<and> n \<le> max_in_flight"
  by (auto simp: machine_fan_out_def Let_def split: if_splits)

section \<open>What a budget ever grants\<close>

text \<open>A history of the budget: each step is a first attempt or a request for a retry, at a time.\<close>

datatype budget_op = FirstAttempt duration | TakeRetry duration

fun budget_step :: "budget_op \<Rightarrow> policy \<times> nat \<Rightarrow> policy \<times> nat" where
  "budget_step (FirstAttempt now) (p, granted) = (first_attempt now p, granted)"
| "budget_step (TakeRetry now) (p, granted) =
     (case take_retry now p of (ok, p') \<Rightarrow> (p', if ok then granted + 1 else granted))"

definition budget_run :: "budget_op list \<Rightarrow> policy \<Rightarrow> policy \<times> nat" where
  "budget_run ops p = fold budget_step ops (p, 0)"

definition firsts :: "budget_op list \<Rightarrow> nat" where
  "firsts ops = length (filter (\<lambda>op. case op of FirstAttempt _ \<Rightarrow> True | TakeRetry _ \<Rightarrow> False) ops)"

lemma firsts_simps [simp]:
  "firsts [] = 0" "firsts (FirstAttempt now # ops) = Suc (firsts ops)" "firsts (TakeRetry now # ops) = firsts ops"
  by (simp_all add: firsts_def)

lemma first_attempt_credit: "retries (first_attempt now p) \<le> retries p + retry_ratio_milli"
  by (auto simp: first_attempt_def earn_windowed_def Let_def sat_add_u64_def split: option.splits)

lemma take_retry_debit:
  "take_retry now p = (ok, p') \<Longrightarrow> (if ok then milli else 0) + retries p' \<le> retries p"
  by (auto simp: take_retry_def spend_windowed_def Let_def split: option.splits if_splits)

lemma budget_fold:
  "fold budget_step ops (p, g) = (p', g') \<Longrightarrow>
     milli * g' + retries p' \<le> milli * g + retries p + retry_ratio_milli * firsts ops"
proof (induction ops arbitrary: p g)
  case (Cons op ops)
  show ?case
  proof (cases op)
    case (FirstAttempt now)
    then show ?thesis
      using Cons.IH [of "first_attempt now p" g] Cons.prems first_attempt_credit [of now p] by simp
  next
    case (TakeRetry now)
    obtain ok q where t: "take_retry now p = (ok, q)" by (cases "take_retry now p")
    then have "fold budget_step ops (q, if ok then g + 1 else g) = (p', g')" using Cons.prems TakeRetry by simp
    from Cons.IH [OF this] take_retry_debit [OF t] show ?thesis using TakeRetry by (cases ok) simp_all
  qed
qed simp

text \<open>The windowed stamp never goes back, and its balance never passes the ceiling.\<close>

definition windowed_ok :: "policy \<Rightarrow> bool" where
  "windowed_ok p \<longleftrightarrow> window p \<noteq> None \<and> retries p \<le> retry_ceiling_milli"

lemma windowed_step: "windowed_ok p \<Longrightarrow> windowed_ok (fst (budget_step op (p, g)))"
  by (cases op) (auto simp: windowed_ok_def first_attempt_def earn_windowed_def take_retry_def
      spend_windowed_def Let_def budget_consts split: option.splits if_splits)

lemma windowed_run: "windowed_ok p \<Longrightarrow> windowed_ok (fst (fold budget_step ops (p, g)))"
proof (induction ops arbitrary: p g)
  case (Cons op ops)
  have "windowed_ok (fst (budget_step op (p, g)))" by (rule windowed_step [OF Cons.prems])
  then show ?case using Cons.IH [of "fst (budget_step op (p, g))" "snd (budget_step op (p, g))"] by simp
qed simp

text \<open>Requests alone, all after the window has lapsed: what was earned before it is not spent.\<close>

lemma lapsed_run:
  assumes "window p = Some stamp" and "retries p \<le> b \<or> retry_reserve_milli \<le> b"
    and "list_all (\<lambda>op. \<exists>now. op = TakeRetry now \<and> duration_to_nanos now - stamp > retry_ttl_nanos) ops"
    and "fold budget_step ops (p, g) = (p', g')"
  shows "milli * g' \<le> milli * g + b"
  using assms
proof (induction ops arbitrary: p g b)
  case (Cons op ops)
  then obtain now where op: "op = TakeRetry now" and late: "duration_to_nanos now - stamp > retry_ttl_nanos"
    by auto
  let ?h = "min (retries p) retry_reserve_milli"
  have hb: "?h \<le> b" using Cons.prems(2) by linarith
  have t: "take_retry now p = (if milli \<le> ?h then (True, p\<lparr>retries := ?h - milli\<rparr>) else (False, p))"
    using Cons.prems(1) late by (simp add: take_retry_def spend_windowed_def Let_def)
  show ?case
  proof (cases "milli \<le> ?h")
    case True
    have "fold budget_step ops (p\<lparr>retries := ?h - milli\<rparr>, g + 1) = (p', g')"
      using Cons.prems(4) op t True by simp
    moreover have "retries (p\<lparr>retries := ?h - milli\<rparr>) \<le> b - milli" using hb by simp
    ultimately have "milli * g' \<le> milli * (g + 1) + (b - milli)"
      using Cons.IH [of "p\<lparr>retries := ?h - milli\<rparr>" "b - milli" "g + 1"] Cons.prems(1,3) by simp
    then show ?thesis using True hb by simp
  next
    case False
    have "budget_step op (p, g) = (p, g)"
      unfolding op budget_step.simps t if_not_P [OF False] by simp
    then have "fold budget_step ops (p, g) = (p', g')" using Cons.prems(4) by simp
    then show ?thesis using Cons.IH [of p b g] Cons.prems by simp
  qed
qed simp

section \<open>The host pool and its leases\<close>

record hostPool =
  ceiling :: nat
  outstanding :: nat

definition with_ceiling :: "nat \<Rightarrow> hostPool" where
  "with_ceiling c = \<lparr>ceiling = c, outstanding = 0\<rparr>"

definition try_acquire :: "hostPool \<Rightarrow> bool \<times> hostPool" where
  "try_acquire pool =
     (if outstanding pool < ceiling pool then (True, pool\<lparr>outstanding := sat_add_usize (outstanding pool) 1\<rparr>)
      else (False, pool))"

text \<open>A release with nothing held leaves the count as it is (and fails a debug assertion).\<close>

definition release :: "hostPool \<Rightarrow> hostPool" where
  "release pool = (if 1 \<le> outstanding pool then pool\<lparr>outstanding := outstanding pool - 1\<rparr> else pool)"

text \<open>A \<open>HostLease\<close> is its \<open>held\<close> count next to the pool it borrows.\<close>

definition lease_admit :: "hostPool \<Rightarrow> nat \<Rightarrow> nat \<Rightarrow> bool \<times> hostPool \<times> nat" where
  "lease_admit pool held running =
     (case try_acquire pool of
        (True, pool) \<Rightarrow> (True, pool, sat_add_usize held 1)
      | (False, pool) \<Rightarrow> (running = 0, pool, held))"

function lease_settle :: "hostPool \<Rightarrow> nat \<Rightarrow> nat \<Rightarrow> hostPool \<times> nat" where
  "lease_settle pool held running =
     (if held > running then lease_settle (release pool) (held - 1) running else (pool, held))"
  by pat_completeness auto
termination by (relation "measure (\<lambda>(_, held, _). held)") auto

declare lease_settle.simps [simp del]

definition release_all :: "hostPool \<Rightarrow> nat \<Rightarrow> hostPool \<times> nat" where
  "release_all pool held = lease_settle pool held 0"

lemma release_all_loop:
  "release_all pool held = (if held > 0 then release_all (release pool) (held - 1) else (pool, held))"
  unfolding release_all_def by (subst lease_settle.simps) simp

lemma lease_settle_eq:
  "held \<le> outstanding pool \<Longrightarrow>
   lease_settle pool held running =
     (pool\<lparr>outstanding := outstanding pool - (held - running)\<rparr>, min held running)"
proof (induction pool held running rule: lease_settle.induct)
  case (1 pool held running)
  show ?case
  proof (cases "held > running")
    case True
    then have "held - 1 \<le> outstanding (release pool)" using "1.prems" by (simp add: release_def)
    from "1.IH" [OF True this] show ?thesis
      using True "1.prems" by (simp add: lease_settle.simps [of pool held] release_def)
  qed (simp add: lease_settle.simps [of pool held])
qed

text \<open>
  \<open>host_pool\<close>: one pool for the process, sized from the core count, and any number of leases on it.
\<close>

definition host_pool :: "nat option \<Rightarrow> hostPool" where
  "host_pool cores = with_ceiling (case machine_fan_out cores of Some n \<Rightarrow> n | None \<Rightarrow> 1)"

inductive pool_step :: "hostPool \<times> nat list \<Rightarrow> hostPool \<times> nat list \<Rightarrow> bool" where
  take: "pool_step (pool, held) (pool, held @ [0])"
| admit: "\<lbrakk>i < length held; lease_admit pool (held ! i) running = (ok, pool', h)\<rbrakk>
    \<Longrightarrow> pool_step (pool, held) (pool', held[i := h])"
| settle: "\<lbrakk>i < length held; lease_settle pool (held ! i) running = (pool', h)\<rbrakk>
    \<Longrightarrow> pool_step (pool, held) (pool', held[i := h])"
| release_all: "\<lbrakk>i < length held; release_all pool (held ! i) = (pool', h)\<rbrakk>
    \<Longrightarrow> pool_step (pool, held) (pool', held[i := h])"

inductive_cases pool_stepE: "pool_step s s'"

definition pool_ok :: "hostPool \<times> nat list \<Rightarrow> bool" where
  "pool_ok s \<longleftrightarrow> (case s of (pool, held) \<Rightarrow>
     outstanding pool = sum_list held \<and> outstanding pool \<le> ceiling pool \<and> ceiling pool \<le> max_in_flight)"

lemma sum_list_update_nat:
  "i < length xs \<Longrightarrow> sum_list (xs[i := (h :: nat)]) + xs ! i = sum_list xs + h"
  by (induction xs arbitrary: i) (auto split: nat.split)

lemma member_le_sum: "i < length xs \<Longrightarrow> xs ! i \<le> sum_list (xs :: nat list)"
  by (induction xs arbitrary: i) (auto simp: nth_Cons split: nat.split intro: trans_le_add2)

lemma pool_settle_ok:
  assumes "pool_ok (pool, held)" and "i < length held" and "lease_settle pool (held ! i) running = (pool', h)"
  shows "pool_ok (pool', held[i := h])"
proof -
  have le: "held ! i \<le> outstanding pool" using assms(1) member_le_sum [OF assms(2)] by (simp add: pool_ok_def)
  from assms(3) have r: "pool' = pool\<lparr>outstanding := outstanding pool - (held ! i - running)\<rparr>" "h = min (held ! i) running"
    unfolding lease_settle_eq [OF le] by simp_all
  have "sum_list (held[i := h]) = outstanding pool'"
    using sum_list_update_nat [OF assms(2), of h] assms(1) le unfolding r by (simp add: pool_ok_def)
  then show ?thesis using assms(1) unfolding r by (auto simp: pool_ok_def)
qed

lemma pool_step_ok: "pool_step s s' \<Longrightarrow> pool_ok s \<Longrightarrow> pool_ok s'"
proof (induction rule: pool_step.induct)
  case (admit i held pool running ok pool' h)
  have le: "held ! i \<le> outstanding pool" using admit.prems member_le_sum [OF admit.hyps(1)] by (simp add: pool_ok_def)
  have sat: "n \<le> max_in_flight \<Longrightarrow> sat_add_usize n (Suc 0) = Suc n" for n
    by (simp add: sat_add_usize_def usize_max_def max_in_flight_def)
  show ?case
  proof (cases "outstanding pool < ceiling pool")
    case True
    then have "outstanding pool \<le> max_in_flight" "held ! i \<le> max_in_flight"
      using admit.prems le by (simp_all add: pool_ok_def)
    then have r: "pool' = pool\<lparr>outstanding := outstanding pool + 1\<rparr>" "h = held ! i + 1"
      using admit.hyps(2) True by (auto simp: lease_admit_def try_acquire_def sat)
    show ?thesis
      using sum_list_update_nat [OF admit.hyps(1), of h] admit.prems True unfolding r by (simp add: pool_ok_def)
  next
    case False
    then have "pool' = pool" "h = held ! i"
      using admit.hyps(2) by (simp_all add: lease_admit_def try_acquire_def)
    then show ?thesis using admit.prems by simp
  qed
next
  case (settle i held pool running pool' h)
  then show ?case by (intro pool_settle_ok)
next
  case (release_all i held pool pool' h)
  then show ?case unfolding release_all_def by (intro pool_settle_ok)
qed (simp add: pool_ok_def)

lemma host_pool_ok: "pool_ok (host_pool cores, [])"
  using machine_fan_out_bounds [of cores]
  by (auto simp: host_pool_def with_ceiling_def pool_ok_def max_in_flight_def split: option.split)

lemma pool_reachable_ok: "pool_step\<^sup>*\<^sup>* (host_pool cores, []) s \<Longrightarrow> pool_ok s"
  by (induction rule: rtranclp_induct) (auto simp: host_pool_ok intro: pool_step_ok)

section \<open>Properties\<close>

text \<open>
  a run's retry budget is a tenth of a storm: whatever the order of first attempts and retry
  requests and whatever the clock says, the retries granted are at most ten plus one for every five
  first attempts.
\<close>

theorem retry_budget_bound:
  "snd (budget_run ops (for_this_machine cores)) \<le> 10 + firsts ops div 5 \<and>
   snd (budget_run ops (for_this_host cores)) \<le> 10 + firsts ops div 5"
proof -
  have gen: "g' \<le> 10 + firsts ops div 5" if "fold budget_step ops (p, 0) = (p', g')" "retries p = 10000" for p p' g'
    using budget_fold [OF that(1)] that(2) by (simp add: budget_consts)
  have "retries (for_this_machine cores) = 10000" "retries (for_this_host cores) = 10000"
    by (simp_all add: for_this_machine_def for_this_host_def one_body_per_core_placeholder_def budget_consts
        Let_def split: option.split)
  then show ?thesis unfolding budget_run_def by (metis gen surjective_pairing)
qed

text \<open>
  a windowed budget forgets what it earned: once ten seconds have passed since the last first
  attempt, no run of requests is granted more than the ten retries of the reserve, whatever had
  been earned before.
\<close>

theorem retry_window_lapses:
  assumes "window p = Some stamp"
    and "\<forall>op \<in> set ops. \<exists>now. op = TakeRetry now \<and> duration_to_nanos now - stamp > retry_ttl_nanos"
  shows "snd (budget_run ops p) \<le> retry_reserve"
proof -
  have "milli * snd (budget_run ops p) \<le> milli * 0 + retry_reserve_milli"
    unfolding budget_run_def
    by (rule lapsed_run [OF assms(1) disjI2 [OF order_refl] _ surjective_pairing])
      (use assms(2) in \<open>simp add: list_all_iff\<close>)
  then show ?thesis by (simp add: budget_consts)
qed

theorem retry_window_lapses_witness:
  "snd (budget_run [TakeRetry 20000000001] ((for_this_host (Some 2))\<lparr>window := Some 10000000000\<rparr>)) \<le> retry_reserve"
  by (rule retry_window_lapses [where stamp = 10000000000])
    (simp_all add: duration_to_nanos_def sat_add_u64_def u64_max_def retry_ttl_nanos_def)

text \<open>
  C32: the host pool counts every slot lent exactly once: at every moment what is outstanding is the
  sum of what the leases hold and never more than the machine's ceiling, and a fan-out with nothing
  running is admitted whatever the others hold.
\<close>

theorem host_pool_accounting:
  assumes "pool_step\<^sup>*\<^sup>* (host_pool cores, []) (pool, held)"
  shows "outstanding pool = sum_list held \<and> outstanding pool \<le> ceiling pool \<and>
    (\<forall>h. fst (lease_admit pool h 0))"
  using pool_reachable_ok [OF assms]
  by (auto simp: pool_ok_def lease_admit_def try_acquire_def)

theorem host_pool_accounting_witness:
  "outstanding (fst (host_pool None, [0])) = sum_list [0]"
proof -
  have "pool_step\<^sup>*\<^sup>* (host_pool None, []) (host_pool None, [0])"
    using pool_step.take [of "host_pool None" "[]"] by auto
  from host_pool_accounting [OF this] show ?thesis by simp
qed

end
