(* ===== verification/Control.thy ===== *)
theory Control
  imports Flow RetryBudget
begin

text \<open>
  \<open>crates/lgwks-bot/src/script/justify.rs\<close> and \<open>control.rs\<close>: the justification rules a scope carries,
  the bounds a caller writes on a fan-out or a retry, the backoff between two attempts, and the
  loop that repeats a step until it settles. Rules keep their counters in shared atomic cells, so a
  rule decides on a store of cells; what the runtime reports to the loop at each attempt (stopped,
  the body's outcome, the clock, whether the wait was cut short) is a record per attempt.
\<close>

section \<open>Justification rules\<close>

datatype verdict = Allow | Slow duration | Park string | Block string

record justify_ctx =
  ctx_at :: string
  ctx_attempt :: nat

type_synonym cells = "nat \<Rightarrow> nat"

record rule =
  rule_name :: string
  rule_decide :: "justify_ctx \<Rightarrow> cells \<Rightarrow> verdict \<times> cells"

definition allowance_take :: "nat \<Rightarrow> cells \<Rightarrow> bool \<times> cells" where
  "allowance_take remaining cells =
     (if 1 \<le> cells remaining then (True, cells(remaining := cells remaining - 1)) else (False, cells))"

text \<open>
  \<open>refill\<close> retries a weak compare-exchange: each attempt finds a value in the cell and may fail
  spuriously. The result is what the cell holds after the exchange that succeeds, if one does.
\<close>

fun refill_loop :: "nat \<Rightarrow> nat \<Rightarrow> (nat \<times> bool) list \<Rightarrow> nat option" where
  "refill_loop tokens current [] = None"
| "refill_loop tokens current ((found, spurious) # rest) =
     (if found = current \<and> \<not> spurious then Some (sat_add_u64 current tokens)
      else refill_loop tokens found rest)"

definition fetch_add :: "nat \<Rightarrow> cells \<Rightarrow> nat \<times> cells" where
  "fetch_add cell cells = (cells cell, cells(cell := (cells cell + 1) mod 2 ^ 64))"

definition rule_allowance :: "string \<Rightarrow> nat \<Rightarrow> string \<Rightarrow> rule" where
  "rule_allowance name allowance reason = \<lparr>rule_name = name,
     rule_decide = (\<lambda>_ cells. case allowance_take allowance cells of
       (True, cells) \<Rightarrow> (Allow, cells) | (False, cells) \<Rightarrow> (Block reason, cells))\<rparr>"

definition rule_suspend :: "string \<Rightarrow> nat \<Rightarrow> nat \<Rightarrow> string \<Rightarrow> rule" where
  "rule_suspend name cell allowed reason = \<lparr>rule_name = name,
     rule_decide = (\<lambda>_ cells. case fetch_add cell cells of
       (seen, cells) \<Rightarrow> (if seen < allowed then Allow else Park reason, cells))\<rparr>"

definition rule_pace :: "string \<Rightarrow> nat \<Rightarrow> nat \<Rightarrow> duration \<Rightarrow> rule" where
  "rule_pace name cell every delay = (let every = max every 1 in \<lparr>rule_name = name,
     rule_decide = (\<lambda>_ cells. case fetch_add cell cells of
       (seen, cells) \<Rightarrow> (if sat_add_u64 seen 1 mod every = 0 then Slow delay else Allow, cells))\<rparr>)"

record decision =
  d_verdict :: verdict
  d_rule :: string

fun justify_decide :: "rule list \<Rightarrow> justify_ctx \<Rightarrow> cells \<Rightarrow> decision \<times> cells" where
  "justify_decide [] ctx cells = (\<lparr>d_verdict = Allow, d_rule = ''allow''\<rparr>, cells)"
| "justify_decide (rule # rules) ctx cells =
     (case rule_decide rule ctx cells of
        (Allow, cells) \<Rightarrow> justify_decide rules ctx cells
      | (verdict, cells) \<Rightarrow> (\<lparr>d_verdict = verdict, d_rule = rule_name rule\<rparr>, cells))"

definition refuse_if_unjustified ::
  "rule list option \<Rightarrow> scope \<Rightarrow> cells \<Rightarrow> ('p flow_error + unit) \<times> cells" where
  "refuse_if_unjustified justify sc cells =
     (case justify of
        None \<Rightarrow> (Inr (), cells)
      | Some rules \<Rightarrow>
          (case justify_decide rules \<lparr>ctx_at = sc_path sc, ctx_attempt = 0\<rparr> cells of (d, cells) \<Rightarrow>
            (case d_verdict d of
               Allow \<Rightarrow> Inr ()
             | Slow _ \<Rightarrow> Inr ()
             | Park reason \<Rightarrow> Inl (located_at (sc_path sc) (justified_error (d_rule d) reason))
             | Block reason \<Rightarrow> Inl (located_at (sc_path sc) (justified_error (d_rule d) reason)), cells)))"

text \<open>\<open>slept\<close>: the wait a \<open>Slow\<close> verdict asks for ran to its end.\<close>

definition scope_justified ::
  "rule list option \<Rightarrow> scope \<Rightarrow> nat \<Rightarrow> bool \<Rightarrow> cells \<Rightarrow> ('p flow_error + unit) \<times> cells" where
  "scope_justified justify sc attempt slept cells =
     (case justify of
        None \<Rightarrow> (Inr (), cells)
      | Some rules \<Rightarrow>
          (case justify_decide rules \<lparr>ctx_at = sc_path sc, ctx_attempt = attempt\<rparr> cells of (d, cells) \<Rightarrow>
            (case d_verdict d of
               Allow \<Rightarrow> Inr ()
             | Slow _ \<Rightarrow> if slept then Inr () else Inl (Cancelled (sc_path sc))
             | Park reason \<Rightarrow> Inl (located_at (sc_path sc) (justified_error (d_rule d) reason))
             | Block reason \<Rightarrow> Inl (located_at (sc_path sc) (justified_error (d_rule d) reason)), cells)))"

text \<open>The rules all allow, and leave these cells.\<close>

fun allow_all :: "rule list \<Rightarrow> justify_ctx \<Rightarrow> cells \<Rightarrow> cells option" where
  "allow_all [] ctx cells = Some cells"
| "allow_all (rule # rules) ctx cells =
     (case rule_decide rule ctx cells of (Allow, cells) \<Rightarrow> allow_all rules ctx cells | _ \<Rightarrow> None)"

section \<open>Bounds and backoff\<close>

definition max_attempts :: nat where
  "max_attempts = 1000"

definition max_backoff :: duration where
  "max_backoff = dur_secs 30"

definition at_most :: "nat \<Rightarrow> 'p flow_error + nat" where
  "at_most limit =
     (if limit \<noteq> 0 \<and> limit \<le> max_in_flight then Inr limit
      else Inl (InvalidBound ''each: at most N at once'' limit max_in_flight))"

definition attempts_bound :: "nat \<Rightarrow> 'p flow_error + nat" where
  "attempts_bound count =
     (if count \<noteq> 0 \<and> count \<le> max_attempts then Inr count
      else Inl (InvalidBound ''retry: up to N times'' count max_attempts))"

fun doubled :: "nat \<Rightarrow> duration \<Rightarrow> duration" where
  "doubled 0 d = d"
| "doubled (Suc n) d = doubled n (min (d * 2) dur_max)"

definition backoff_delay :: "duration \<Rightarrow> nat \<Rightarrow> bytes \<Rightarrow> duration" where
  "backoff_delay base attempt key =
     (if base = 0 then 0
      else let shift = min (attempt - 1) 16;
               grown = min (doubled shift base) max_backoff;
               jitter_byte = unat (key ! (attempt mod 32));
               scaled = min (grown * jitter_byte) u128_max;
               jitter = min (scaled div 512) u64_max
           in dur_add grown jitter)"

lemma doubled_eq: "d \<le> dur_max \<Longrightarrow> doubled n d = min (d * 2 ^ n) dur_max"
proof (induction n arbitrary: d)
  case (Suc n)
  have "min (min (d * 2) dur_max * 2 ^ n) dur_max = min (d * 2 * 2 ^ n) dur_max"
  proof (cases "d * 2 \<le> dur_max")
    case False
    have m: "x \<le> x * 2 ^ n" for x :: nat by simp
    have "dur_max \<le> d * 2 * 2 ^ n" using False m [of "d * 2"] by linarith
    then show ?thesis using False m [of dur_max] by simp
  qed simp
  then show ?case using Suc.IH [of "min (d * 2) dur_max"] by (simp add: mult.assoc)
qed simp

section \<open>Repeating a step\<close>

record ('t, 'p) attempt_env =
  env_stopped :: bool
  env_justify_slept :: bool
  env_body :: "'p flow_error + 't"
  env_now :: duration
  env_slept :: bool

text \<open>
  \<open>attempts\<close> and \<open>attempt\<close> are the source's \<open>u32\<close>. The loop returns its result, the attempt it ended
  at, how often the body ran, and the policy and cells it left.
\<close>

definition sat_succ_u32 :: "u32 \<Rightarrow> u32" where
  "sat_succ_u32 a = (if a = -1 then a else a + 1)"

lemma sat_succ_less: "a < b \<Longrightarrow> unat (sat_succ_u32 a) = unat a + 1"
proof -
  assume "a < b"
  then have ne: "a \<noteq> -1" by (metis not_less word_order.extremum)
  then have "1 + a \<noteq> 0" by (metis add.commute add_eq_0_iff)
  then show ?thesis using ne by (simp add: sat_succ_u32_def add.commute [of a] unatSuc)
qed

function attempt_loop ::
  "('p \<Rightarrow> bool) \<Rightarrow> scope \<Rightarrow> rule list option \<Rightarrow> bytes \<Rightarrow> u32 \<Rightarrow> duration \<Rightarrow> (nat \<Rightarrow> ('t, 'p) attempt_env) \<Rightarrow>
   u32 \<Rightarrow> nat \<Rightarrow> policy \<Rightarrow> cells \<Rightarrow> ('p flow_error + 't) \<times> u32 \<times> nat \<times> policy \<times> cells" where
  "attempt_loop bot_safe here justify key attempts backoff env attempt calls p cells =
     (let e = env (unat attempt) in
      case checkpoint (env_stopped e) here of
        Inl stopped \<Rightarrow> (Inl stopped, attempt, calls, p, cells)
      | Inr _ \<Rightarrow>
        (case scope_justified justify here (unat attempt) (env_justify_slept e) cells of
          (Inl refused, cells) \<Rightarrow> (Inl refused, attempt, calls, p, cells)
        | (Inr _, cells) \<Rightarrow>
          (case env_body e of
            Inr value \<Rightarrow> (Inr value, attempt, calls + 1, p, cells)
          | Inl error \<Rightarrow>
            let error = located_at (sc_path here) error in
            if \<not> is_retryable bot_safe error then (Inl error, attempt, calls + 1, p, cells)
            else if attempt \<ge> attempts
            then (Inl (Exhausted (sc_path here) (unat attempt) error), attempt, calls + 1, p, cells)
            else (case take_retry (env_now e) p of
              (False, p) \<Rightarrow>
                (Inl (Throttled (sc_path here) (unat attempt) error), attempt, calls + 1, p, cells)
            | (True, p) \<Rightarrow>
                let delay = backoff_delay backoff (unat attempt) key in
                if delay \<noteq> 0 \<and> \<not> env_slept e
                then (Inl (Cancelled (sc_path here)), attempt, calls + 1, p, cells)
                else attempt_loop bot_safe here justify key attempts backoff env
                       (sat_succ_u32 attempt) (calls + 1) p cells))))"
  by pat_completeness auto
termination
  by (relation "measure (\<lambda>(_, _, _, _, attempts, _, _, attempt, _). unat attempts - unat attempt)")
    (auto simp: sat_succ_less not_le word_less_nat_alt)

declare attempt_loop.simps [simp del]

definition attempt_until_settled ::
  "('p \<Rightarrow> bool) \<Rightarrow> scope \<Rightarrow> rule list option \<Rightarrow> bytes \<Rightarrow> u32 \<Rightarrow> duration \<Rightarrow> (nat \<Rightarrow> ('t, 'p) attempt_env) \<Rightarrow>
   duration \<Rightarrow> policy \<Rightarrow> cells \<Rightarrow> ('p flow_error + 't) \<times> u32 \<times> nat \<times> policy \<times> cells" where
  "attempt_until_settled bot_safe here justify key attempts backoff env now p cells =
     attempt_loop bot_safe here justify key attempts backoff env 1 0 (first_attempt now p) cells"

lemma justified_error_not_retryable [simp]:
  "\<not> is_retryable bot_safe (located_at path (justified_error rule reason))"
  by (simp add: justified_error_def)

text \<open>
  What the loop did by the time it settles: it ran the body once per attempt up to \<open>a\<close>, except that
  a refusal at attempt \<open>a\<close> comes before the body; every attempt before \<open>a\<close> failed retryably.
\<close>

definition settled_by ::
  "('p \<Rightarrow> bool) \<Rightarrow> nat \<Rightarrow> (nat \<Rightarrow> ('t, 'p) attempt_env) \<Rightarrow> nat \<Rightarrow> 'p flow_error + 't \<Rightarrow> nat \<Rightarrow> nat \<Rightarrow> bool" where
  "settled_by bot_safe attempts env from r a calls \<longleftrightarrow>
     from \<le> a \<and> a \<le> max from attempts \<and> (calls = a \<or> Suc calls = a) \<and>
     list_all (\<lambda>i. \<exists>e. env_body (env i) = Inl e \<and> is_retryable bot_safe e) [from..<a] \<and>
     (\<forall>v. r = Inr v \<longleftrightarrow> calls = a \<and> env_body (env a) = Inr v)"

lemma settled_by_here:
  assumes "calls = from \<and> (\<forall>v. r = Inr v \<longleftrightarrow> env_body (env from) = Inr v) \<or>
    Suc calls = from \<and> (\<forall>v. r \<noteq> Inr v)"
  shows "settled_by bot_safe attempts env from r from calls"
  using assms by (auto simp: settled_by_def)

lemma settled_by_next:
  assumes "settled_by bot_safe attempts env (Suc from) r a calls"
    and "env_body (env from) = Inl e" and "is_retryable bot_safe e" and "from < attempts"
  shows "settled_by bot_safe attempts env from r a calls"
proof -
  have "[from..<a] = from # [Suc from..<a]" using assms(1) by (intro upt_conv_Cons) (auto simp: settled_by_def)
  then show ?thesis using assms by (auto simp: settled_by_def)
qed

lemma attempt_loop_settles:
  fixes env :: "nat \<Rightarrow> ('t, 'p) attempt_env"
  assumes "Suc calls = unat attempt"
  shows "case attempt_loop bot_safe here justify key attempts backoff env attempt calls p cells of
    (r, a, calls', _, _) \<Rightarrow> settled_by bot_safe (unat attempts) env (unat attempt) r (unat a) calls'"
  using assms
proof (induction bot_safe here justify key attempts backoff env attempt calls p cells rule: attempt_loop.induct)
  case (1 bot_safe here justify key attempts backoff env attempt calls p cells)
  let ?e = "env (unat attempt)"
  obtain j :: "'p flow_error + unit" and cells' where j: "scope_justified justify here (unat attempt) (env_justify_slept ?e) cells = (j, cells')"
    by (rule that) (rule surjective_pairing)
  obtain ok q where t: "take_retry (env_now ?e) p = (ok, q)" by (cases "take_retry (env_now ?e) p")
  note unfold = attempt_loop.simps [of bot_safe here justify key attempts backoff env attempt calls p cells]
  show ?case
  proof (cases "env_stopped ?e")
    case True
    then show ?thesis using "1.prems"
      by (simp add: unfold checkpoint_def Let_def) (intro settled_by_here, simp)
  next
    case running: False
    show ?thesis
    proof (cases j)
      case (Inl refused)
      then show ?thesis using "1.prems" running j
        by (simp add: unfold checkpoint_def Let_def) (intro settled_by_here, simp)
    next
      case (Inr u)
      show ?thesis
      proof (cases "env_body ?e")
        case (Inr v)
        then show ?thesis using "1.prems" running j \<open>j = Inr u\<close>
          by (simp add: unfold checkpoint_def Let_def) (intro settled_by_here, simp)
      next
        case (Inl e)
        let ?err = "located_at (sc_path here) e"
        show ?thesis
        proof (cases "is_retryable bot_safe e \<and> attempt < attempts \<and> ok \<and>
            (backoff_delay backoff (unat attempt) key = 0 \<or> env_slept ?e)")
          case True
          then have n: "unat (sat_succ_u32 attempt) = Suc (unat attempt)" using sat_succ_less [of attempt attempts] by simp
          have "case attempt_loop bot_safe here justify key attempts backoff env (sat_succ_u32 attempt) (calls + 1) q cells' of
            (r, a, calls', _, _) \<Rightarrow> settled_by bot_safe (unat attempts) env (unat (sat_succ_u32 attempt)) r (unat a) calls'"
            using True "1.prems"
            by (intro "1.IH" [OF refl _ j [symmetric] Inr Inl refl _ _ t [symmetric] _ refl])
              (auto simp: checkpoint_def running n not_le)
          moreover have "unat attempt < unat attempts" "\<not> attempts \<le> attempt"
            using True by (simp_all add: word_less_nat_alt [symmetric] not_le)
          ultimately show ?thesis using True running j \<open>j = Inr u\<close> Inl t
            by (auto simp: unfold checkpoint_def n Let_def split: prod.splits intro: settled_by_next)
        next
          case False
          then show ?thesis using "1.prems" running j \<open>j = Inr u\<close> Inl t
            by (auto simp: unfold checkpoint_def Let_def not_le intro!: settled_by_here split: bool.splits)
        qed
      qed
    qed
  qed
qed

section \<open>Properties\<close>

text \<open>
  C31: a repeated step runs its body at most as often as it was allowed, in order, stopping at the
  first success: the value returned is the one of the last call, and every earlier call failed with
  a retryable error.
\<close>

theorem retry_loop_settles:
  assumes "attempt_until_settled bot_safe here justify key attempts backoff env now p cells = (r, a, calls, p', cells')"
    and "0 < attempts"
  shows "calls \<le> unat attempts \<and> unat a \<le> unat attempts \<and>
    (\<forall>i. 1 \<le> i \<and> i < unat a \<longrightarrow> (\<exists>e. env_body (env i) = Inl e \<and> is_retryable bot_safe e)) \<and>
    (\<forall>v. r = Inr v \<longleftrightarrow> calls = unat a \<and> env_body (env (unat a)) = Inr v)"
proof -
  have s: "settled_by bot_safe (unat attempts) env 1 r (unat a) calls"
    using attempt_loop_settles [where calls = 0 and attempt = 1 and attempts = attempts and env = env and cells = cells
        and bot_safe = bot_safe and here = here and justify = justify and key = key and backoff = backoff
        and p = "first_attempt now p"] assms(1)
    by (simp add: attempt_until_settled_def)
  moreover have "1 \<le> unat attempts" using assms(2) by (simp add: word_less_nat_alt Suc_le_eq)
  ultimately show ?thesis by (auto simp: settled_by_def list_all_iff)
qed

definition flaky_env :: "nat \<Rightarrow> (nat, unit) attempt_env" where
  "flaky_env i = \<lparr>env_stopped = False, env_justify_slept = True,
     env_body = (if i = 1 then Inl (transient ''busy'') else Inr 7), env_now = 0, env_slept = True\<rparr>"

lemma flaky_run:
  "attempt_until_settled (\<lambda>_. False) scope_root None [] 3 0 flaky_env 0 (for_this_machine None) (\<lambda>_. 0) =
     (Inr 7, 2, 2, (for_this_machine None)\<lparr>retries := 9200\<rparr>, \<lambda>_. 0)"
proof -
  have s: "sat_succ_u32 1 = 2" "\<not> 3 \<le> (1 :: u32)" by (simp_all add: sat_succ_u32_def word_le_nat_alt)
  have p: "window (for_this_machine None) = None" "retries (for_this_machine None) = 10000"
    by (simp_all add: for_this_machine_def one_body_per_core_placeholder_def budget_consts split: option.split)
  show ?thesis
    by (simp add: attempt_until_settled_def attempt_loop.simps flaky_env_def checkpoint_def scope_justified_def
        transient_def backoff_delay_def s take_retry_def first_attempt_def p budget_consts Let_def sat_add_u64_def u64_max_def)
qed

theorem retry_loop_settles_witness:
  "(2 :: nat) \<le> unat (3 :: u32) \<and> (\<exists>e. env_body (flaky_env 1) = Inl e \<and> is_retryable (\<lambda>_. False) e) \<and>
   env_body (flaky_env 2) = Inr 7"
proof -
  have "0 < (3 :: u32)" by simp
  note all = retry_loop_settles [OF flaky_run this]
  have "\<exists>e. env_body (flaky_env 1) = Inl e \<and> is_retryable (\<lambda>_. False) e" using all by simp
  moreover have "env_body (flaky_env 2) = Inr 7" using all by auto
  ultimately show ?thesis by simp
qed

text \<open>
  the wait before another attempt starts at the caller's backoff, doubles with each attempt up
  to thirty seconds, and adds less than half of itself as jitter; a backoff of zero never waits.
\<close>

theorem backoff_delay_bounds:
  "backoff_delay 0 attempt key = 0 \<and>
   (base \<le> dur_max \<and> 0 < base \<longrightarrow>
     (let grown = min (base * 2 ^ min (attempt - 1) 16) max_backoff
      in grown \<le> backoff_delay base attempt key \<and> 2 * backoff_delay base attempt key < 3 * grown))"
proof -
  have "grown \<le> backoff_delay base attempt key \<and> 2 * backoff_delay base attempt key < 3 * grown"
    if b: "base \<le> dur_max" "0 < base" and g: "grown = min (base * 2 ^ min (attempt - 1) 16) max_backoff" for grown
  proof -
    define j where "j = unat (key ! (attempt mod 32))"
    have mb: "max_backoff = 30000000000" "max_backoff \<le> dur_max" by (simp_all add: max_backoff_def dur_secs_def dur_max_def)
    have j: "j < 256" unfolding j_def by (rule byte_lt_256)
    have gr: "0 < grown" "grown \<le> 30000000000" using b(2) mb unfolding g by auto
    have gj: "grown * j \<le> 30000000000 * 255" using j gr(2) by (intro mult_mono) auto
    have "2 * (grown * j div 512) < grown"
    proof -
      have "grown * j \<le> grown * 255" using j by (intro mult_left_mono) auto
      then have "grown * j < 256 * grown" using gr(1) by linarith
      then have "grown * j div 512 * 512 < 256 * grown" using div_times_less_eq_dividend [of "grown * j" 512] by linarith
      then show ?thesis by linarith
    qed
    moreover have "backoff_delay base attempt key = dur_add grown (grown * j div 512)"
    proof -
      have m1: "min (min (base * 2 ^ min (attempt - 1) 16) dur_max) max_backoff = grown" unfolding g using mb(2) by linarith
      have m2: "min (grown * j) u128_max = grown * j" using gj by (simp add: u128_max_def)
      have m3: "min (grown * j div 512) u64_max = grown * j div 512" using gj by (simp add: u64_max_def)
      show ?thesis
        unfolding backoff_delay_def Let_def doubled_eq [OF b(1)] j_def [symmetric] m1 m2 m3 using b(2) by simp
    qed
    moreover have "dur_add grown (grown * j div 512) = grown + grown * j div 512"
      using gj gr by (simp add: dur_add_def dur_max_def)
    ultimately show ?thesis by simp
  qed
  then show ?thesis by (simp add: backoff_delay_def Let_def)
qed

theorem backoff_delay_bounds_witness:
  "800 \<le> backoff_delay 200 3 [] \<and> 2 * backoff_delay 200 3 [] < 2400"
  using backoff_delay_bounds [of 3 "[]" 200] by (simp add: dur_max_def max_backoff_def dur_secs_def)

text \<open>
  The first rule that does not allow decides: rules before it all allowed, its verdict and name
  are the decision, and no rule after it is asked, so their counters keep what they held.
\<close>

theorem justify_first_refusal:
  "justify_decide rules ctx cells = (d, cells') \<longleftrightarrow>
     d = \<lparr>d_verdict = Allow, d_rule = ''allow''\<rparr> \<and> allow_all rules ctx cells = Some cells' \<or>
     (\<exists>before rule after seen. rules = before @ rule # after \<and> allow_all before ctx cells = Some seen \<and>
        rule_decide rule ctx seen = (d_verdict d, cells') \<and> d_verdict d \<noteq> Allow \<and> d_rule d = rule_name rule)"
proof (induction rules arbitrary: cells)
  case Nil
  then show ?case by auto
next
  case (Cons rule rules)
  obtain v c where r: "rule_decide rule ctx cells = (v, c)" by (rule that) (rule surjective_pairing)
  have split: "(\<exists>before r after seen. rule # rules = before @ r # after \<and> P before r seen) \<longleftrightarrow>
      (\<exists>seen. P [] rule seen) \<or> (\<exists>before r after seen. rules = before @ r # after \<and> P (rule # before) r seen)" for P
    unfolding Cons_eq_append_conv by blast
  show ?case
    unfolding split using Cons.IH [of c] by (cases v) (auto simp: r)
qed

end
