(* ===== verification/Graph_Plan.thy ===== *)
theory Graph_Plan
  imports Flow "HOL-Library.List_Lexorder" "HOL-Library.Char_ord"
begin

text \<open>
  \<open>crates/lgwks-bot/src/script/graph.rs\<close>, first half: the declaration of a dependency graph, its
  validation (\<open>refusal_reason\<close>, a topological sort by names) and the plan the run follows
  (\<open>Plan::of\<close>: the same edges by index, both ways, and each node's height on the critical path).
  A \<open>BTreeMap\<close> is its association list in key order; a \<open>Vec\<close> used as a stack is a list with its
  top at the end.
\<close>

section \<open>Declarations\<close>

record graph_node =
  g_name :: string
  g_needs :: "string list"
  g_work :: nat

definition graph_node_new :: "string \<Rightarrow> string list \<Rightarrow> graph_node" where
  "graph_node_new name needs = \<lparr>g_name = name, g_needs = needs, g_work = 1\<rparr>"

definition with_work :: "nat \<Rightarrow> graph_node \<Rightarrow> graph_node" where
  "with_work work node = node\<lparr>g_work := max work 1\<rparr>"

definition max_graph_nodes :: nat where
  "max_graph_nodes = 4096"

section \<open>Validation\<close>

fun name_refusal :: "graph_node list \<Rightarrow> string set \<Rightarrow> string option" where
  "name_refusal [] seen = None"
| "name_refusal (node # nodes) seen =
     (if g_name node = [] then Some ''a node is named the empty string''
      else if g_name node \<in> seen then Some (''a node is declared twice: '' @ g_name node)
      else name_refusal nodes (insert (g_name node) seen))"

fun need_refusal :: "string set \<Rightarrow> string \<Rightarrow> string list \<Rightarrow> string option" where
  "need_refusal seen name [] = None"
| "need_refusal seen name (need # needs) =
     (if need \<notin> seen then Some (name @ '' needs '' @ need @ '', which no node declares'')
      else if need = name then Some (name @ '' needs itself'')
      else need_refusal seen name needs)"

fun needs_refusal :: "string set \<Rightarrow> graph_node list \<Rightarrow> string option" where
  "needs_refusal seen [] = None"
| "needs_refusal seen (node # nodes) =
     (case need_refusal seen (g_name node) (g_needs node) of
        Some reason \<Rightarrow> Some reason | None \<Rightarrow> needs_refusal seen nodes)"

definition relax :: "string \<Rightarrow> graph_node \<Rightarrow> (string \<times> nat) list \<times> string list \<Rightarrow> (string \<times> nat) list \<times> string list" where
  "relax name node s = (case s of (outstanding, ready) \<Rightarrow>
     if name \<in> set (g_needs node) then
       (case map_of outstanding (g_name node) of
          None \<Rightarrow> (outstanding, ready)
        | Some count \<Rightarrow>
            (map (\<lambda>(n, c). if n = g_name node then (n, count - 1) else (n, c)) outstanding,
             if count - 1 = 0 then ready @ [g_name node] else ready))
     else (outstanding, ready))"

definition remove_key :: "string \<Rightarrow> (string \<times> nat) list \<Rightarrow> (string \<times> nat) list" where
  "remove_key name outstanding = filter (\<lambda>(n, _). n \<noteq> name) outstanding"

lemma relax_keys:
  "relax name node (out, ready) = (out', ready') \<Longrightarrow>
     map fst out' = map fst out \<and> (ready' = ready \<or> ready' = ready @ [g_name node] \<and> g_name node \<in> fst ` set out)"
  by (auto simp: relax_def comp_def case_prod_beta split: if_splits option.splits dest!: map_of_SomeD intro: rev_image_eqI)

lemma relax_fold_keys:
  "fold (relax name) nodes (out, ready) = (out', ready') \<Longrightarrow>
     map fst out' = map fst out \<and> (\<exists>more. ready' = ready @ more \<and> set more \<subseteq> fst ` set out)"
proof (induction nodes arbitrary: out ready)
  case (Cons node nodes)
  obtain out1 ready1 where r: "relax name node (out, ready) = (out1, ready1)" by (rule that) (rule surjective_pairing)
  have k: "fst ` set out1 = fst ` set out" using relax_keys [OF r] by (metis set_map)
  from Cons.IH [of out1 ready1] Cons.prems r obtain more where
    "map fst out' = map fst out1" "ready' = ready1 @ more" "set more \<subseteq> fst ` set out1" by auto
  with relax_keys [OF r] k show ?case by (elim conjE disjE) auto
qed simp

definition kahn_measure :: "(string \<times> nat) list \<times> string list \<Rightarrow> nat" where
  "kahn_measure s = (case s of (out, ready) \<Rightarrow>
     2 * length out + (if ready \<noteq> [] \<and> last ready \<notin> fst ` set out then 1 else 0))"

lemma kahn_step:
  assumes "ready \<noteq> []" and "s = fold (relax (last ready)) nodes (remove_key (last ready) out, butlast ready)"
  shows "kahn_measure s < kahn_measure (out, ready) \<or>
    kahn_measure s = kahn_measure (out, ready) \<and> length (snd s) < length ready"
proof -
  let ?o = "remove_key (last ready) out"
  obtain out' ready' where s: "s = (out', ready')" by (rule that) (rule surjective_pairing)
  from relax_fold_keys [of "last ready" nodes ?o "butlast ready"] s assms(2) obtain more where
    k: "map fst out' = map fst ?o" and r: "ready' = butlast ready @ more" and m: "set more \<subseteq> fst ` set ?o" by auto
  have len: "length out' = length ?o" using k by (metis length_map)
  have keys: "fst ` set out' = fst ` set ?o" using k by (metis set_map)
  have short: "length (butlast ready) < length ready" using assms(1) by simp
  show ?thesis
  proof (cases "last ready \<in> fst ` set out")
    case True
    then obtain e where "e \<in> set out" "fst e = last ready" by auto
    then have "length ?o < length out" unfolding remove_key_def by (intro length_filter_less) auto
    then show ?thesis by (simp add: s kahn_measure_def len True)
  next
    case False
    then have "\<forall>e \<in> set out. case e of (n, _) \<Rightarrow> n \<noteq> last ready" by (auto simp: image_iff)
    then have o: "?o = out" unfolding remove_key_def by (simp add: filter_id_conv)
    show ?thesis
    proof (cases "more = []")
      case True
      then show ?thesis using False assms(1) short r o len keys by (auto simp: s kahn_measure_def)
    next
      case ne: False
      then have "last ready' \<in> fst ` set out'" using m r keys by auto
      then show ?thesis using False assms(1) len o by (simp add: s kahn_measure_def)
    qed
  qed
qed

function kahn_loop :: "graph_node list \<Rightarrow> (string \<times> nat) list \<Rightarrow> string list \<Rightarrow> (string \<times> nat) list" where
  "kahn_loop nodes outstanding ready =
     (if ready = [] then outstanding
      else let name = last ready;
               s = fold (relax name) nodes (remove_key name outstanding, butlast ready)
           in kahn_loop nodes (fst s) (snd s))"
  by pat_completeness auto
termination
proof (relation "measures [\<lambda>(nodes, out, ready). kahn_measure (out, ready), \<lambda>(nodes, out, ready). length ready]")
  fix nodes out ready name s
  assume "ready \<noteq> []" "name = last ready" "s = fold (relax name) nodes (remove_key name out, butlast ready)"
  then show "((nodes, fst s, snd s), nodes, out, ready) \<in>
      measures [\<lambda>(nodes, out, ready). kahn_measure (out, ready), \<lambda>(nodes, out, ready). length ready]"
    using kahn_step [of ready s nodes out] by (auto simp: case_prod_beta)
qed simp

declare kahn_loop.simps [simp del]

definition cycle_refusal :: "graph_node list \<Rightarrow> string option" where
  "cycle_refusal nodes =
     (let outstanding = sort_key fst (map (\<lambda>node. (g_name node, length (g_needs node))) nodes);
          ready = map fst (filter (\<lambda>(_, count). count = 0) outstanding)
      in case kahn_loop nodes outstanding ready of
           [] \<Rightarrow> None
         | (name, _) # _ \<Rightarrow> Some (''the needs cycle through '' @ name @ '': nothing can start it''))"

definition refusal_reason :: "graph_node list \<Rightarrow> string option" where
  "refusal_reason nodes =
     (if nodes = [] then Some ''a graph runs at least one node''
      else if length nodes > max_graph_nodes then
        Some (''a graph runs at most '' @ show_nat max_graph_nodes @ '' nodes, got '' @ show_nat (length nodes))
      else case name_refusal nodes {} of
        Some reason \<Rightarrow> Some reason
      | None \<Rightarrow>
          (case needs_refusal (set (map g_name nodes)) nodes of
             Some reason \<Rightarrow> Some reason
           | None \<Rightarrow> cycle_refusal nodes))"

definition validate :: "graph_node list \<Rightarrow> 'p flow_error + unit" where
  "validate nodes =
     (case refusal_reason nodes of Some reason \<Rightarrow> Inl (graph_error reason) | None \<Rightarrow> Inr ())"

section \<open>The plan\<close>

record plan =
  p_names :: "string list"
  p_needs :: "nat list list"
  p_dependants :: "nat list list"
  p_height :: "nat list"

text \<open>The index map is collected in order, so a later node of the same name would replace an earlier one.\<close>

definition plan_index :: "graph_node list \<Rightarrow> string \<Rightarrow> nat option" where
  "plan_index nodes = map_of (rev (zip (map g_name nodes) [0..<length nodes]))"

definition push_at :: "nat list list \<Rightarrow> nat \<Rightarrow> nat \<Rightarrow> nat list list" where
  "push_at rows dep at = (if dep < length rows then rows[dep := rows ! dep @ [at]] else rows)"

fun resolve_needs ::
  "(string \<Rightarrow> nat option) \<Rightarrow> nat \<Rightarrow> string list \<Rightarrow> nat list \<Rightarrow> nat list list \<Rightarrow>
   'p flow_error + (nat list \<times> nat list list)" where
  "resolve_needs index at [] resolved dependants = Inr (resolved, dependants)"
| "resolve_needs index at (need # needs) resolved dependants =
     (case index need of
        None \<Rightarrow> Inl (graph_error (need @ '' is not a declared node''))
      | Some dep \<Rightarrow> resolve_needs index at needs (resolved @ [dep]) (push_at dependants dep at))"

fun resolve_nodes ::
  "(string \<Rightarrow> nat option) \<Rightarrow> nat \<Rightarrow> graph_node list \<Rightarrow> nat list list \<Rightarrow> nat list list \<Rightarrow>
   'p flow_error + (nat list list \<times> nat list list)" where
  "resolve_nodes index at [] needs dependants = Inr (needs, dependants)"
| "resolve_nodes index at (node # nodes) needs dependants =
     rbind (resolve_needs index at (g_needs node) [] dependants) (\<lambda>(resolved, dependants).
       resolve_nodes index (at + 1) nodes (needs @ [resolved]) dependants)"

definition nth_or_empty :: "nat list list \<Rightarrow> nat \<Rightarrow> nat list" where
  "nth_or_empty rows at = (if at < length rows then rows ! at else [])"

definition countdown :: "nat \<Rightarrow> nat list \<times> nat list \<Rightarrow> nat list \<times> nat list" where
  "countdown next s = (case s of (queue, unmet) \<Rightarrow>
     if next < length unmet then
       (if unmet ! next - 1 = 0 then queue @ [next] else queue, unmet[next := unmet ! next - 1])
     else (queue, unmet))"

text \<open>On a declaration that was not validated the sort may push a node again and again.\<close>

partial_function (option) plan_order ::
  "nat list list \<Rightarrow> nat list \<Rightarrow> nat list \<Rightarrow> nat list \<Rightarrow> nat list option" where
  "plan_order dependants queue unmet order =
     (if queue = [] then Some order
      else let at = last queue;
               s = fold countdown (nth_or_empty dependants at) (butlast queue, unmet)
           in plan_order dependants (fst s) (snd s) (order @ [at]))"

declare plan_order.simps [code]

definition heaviest :: "nat list \<Rightarrow> nat list \<Rightarrow> nat" where
  "heaviest height nexts =
     fold (\<lambda>next heaviest. if next < length height then max heaviest (height ! next) else heaviest) nexts 0"

definition raise :: "nat list list \<Rightarrow> nat \<Rightarrow> nat list \<Rightarrow> nat list" where
  "raise dependants at height =
     (let below = heaviest height (nth_or_empty dependants at)
      in if at < length height then height[at := sat_add_u64 (height ! at) below] else height)"

definition plan_of :: "graph_node list \<Rightarrow> ('p flow_error + plan) option" where
  "plan_of nodes =
     (case resolve_nodes (plan_index nodes) 0 nodes [] (replicate (length nodes) []) of
        Inl e \<Rightarrow> Some (Inl e)
      | Inr (needs, dependants) \<Rightarrow>
          let unmet = map length needs;
              queue = filter (\<lambda>at. unmet ! at = 0) [0..<length unmet]
          in case plan_order dependants queue unmet [] of
               None \<Rightarrow> None
             | Some order \<Rightarrow>
                 Some (Inr \<lparr>p_names = map g_name nodes, p_needs = needs, p_dependants = dependants,
                   p_height = fold (raise dependants) (rev order) (map g_work nodes)\<rparr>))"


section \<open>Validation accepts exactly the runnable graphs\<close>

text \<open>
  The specification: named, distinct, closed under needs, no need written twice, and acyclic (some
  rank falls along every need).
\<close>

definition edges_runnable :: "graph_node list \<Rightarrow> bool" where
  "edges_runnable nodes \<longleftrightarrow> (\<forall>node \<in> set nodes. distinct (g_needs node)) \<and>
     (\<exists>rank :: string \<Rightarrow> nat. \<forall>node \<in> set nodes. \<forall>d \<in> set (g_needs node). rank d < rank (g_name node))"

definition runnable :: "graph_node list \<Rightarrow> bool" where
  "runnable nodes \<longleftrightarrow> nodes \<noteq> [] \<and> length nodes \<le> max_graph_nodes \<and>
     distinct (map g_name nodes) \<and> [] \<notin> set (map g_name nodes) \<and>
     (\<forall>node \<in> set nodes. set (g_needs node) \<subseteq> set (map g_name nodes)) \<and> edges_runnable nodes"

lemma name_refusal_None:
  "name_refusal nodes seen = None \<longleftrightarrow>
     distinct (map g_name nodes) \<and> [] \<notin> set (map g_name nodes) \<and> set (map g_name nodes) \<inter> seen = {}"
  by (induction nodes seen rule: name_refusal.induct) auto

lemma need_refusal_None:
  "need_refusal seen name needs = None \<longleftrightarrow> set needs \<subseteq> seen \<and> name \<notin> set needs"
  by (induction seen name needs rule: need_refusal.induct) auto

lemma needs_refusal_None:
  "needs_refusal seen nodes = None \<longleftrightarrow>
     (\<forall>node \<in> set nodes. set (g_needs node) \<subseteq> seen \<and> g_name node \<notin> set (g_needs node))"
proof (induction seen nodes rule: needs_refusal.induct)
  case (2 seen node nodes)
  then show ?case
    using need_refusal_None [of seen "g_name node" "g_needs node"]
    by (cases "need_refusal seen (g_name node) (g_needs node)") auto
qed simp

definition relaxed :: "string \<Rightarrow> graph_node list \<Rightarrow> string \<Rightarrow> bool" where
  "relaxed name nodes n \<longleftrightarrow> (\<exists>node \<in> set nodes. g_name node = n \<and> name \<in> set (g_needs node))"

lemma map_of_decrement:
  "map_of (map (\<lambda>(n, c). if n = m then (n, f c) else (n, c)) out) x =
     (if x = m then map_option f (map_of out x) else map_of out x)"
  by (induction out) auto

lemma relax_fold:
  assumes "distinct (map g_name nodes)"
    and "fold (relax name) nodes (out, ready) = (out', ready')"
  shows "map_of out' n = map_option (\<lambda>c. if relaxed name nodes n then c - 1 else c) (map_of out n)"
    and "ready' = ready @ map g_name (filter (\<lambda>node. name \<in> set (g_needs node) \<and>
      (\<exists>c. map_of out (g_name node) = Some c \<and> c - 1 = 0)) nodes)"
proof -
  have "map_of out' n = map_option (\<lambda>c. if relaxed name nodes n then c - 1 else c) (map_of out n) \<and>
    ready' = ready @ map g_name (filter (\<lambda>node. name \<in> set (g_needs node) \<and>
      (\<exists>c. map_of out (g_name node) = Some c \<and> c - 1 = 0)) nodes)"
    using assms
  proof (induction nodes arbitrary: out ready)
    case Nil
    then show ?case by (simp add: relaxed_def option.map_ident)
  next
    case (Cons node nodes)
    obtain o1 r1 where r: "relax name node (out, ready) = (o1, r1)" by (rule that) (rule surjective_pairing)
    have fresh: "\<not> relaxed name nodes (g_name node)"
      using Cons.prems(1) by (simp add: relaxed_def) (metis imageI)
    have o1: "map_of o1 x = (if x = g_name node \<and> name \<in> set (g_needs node)
        then map_option (\<lambda>c. c - 1) (map_of out x) else map_of out x)" for x
      using r by (auto simp: relax_def map_of_decrement split: if_splits option.splits)
    have r1: "r1 = ready @ (if name \<in> set (g_needs node) \<and> (\<exists>c. map_of out (g_name node) = Some c \<and> c - 1 = 0)
        then [g_name node] else [])"
      using r by (auto simp: relax_def split: if_splits option.splits)
    have same: "filter (\<lambda>nd. name \<in> set (g_needs nd) \<and> (\<exists>c. map_of o1 (g_name nd) = Some c \<and> c - 1 = 0)) nodes =
        filter (\<lambda>nd. name \<in> set (g_needs nd) \<and> (\<exists>c. map_of out (g_name nd) = Some c \<and> c - 1 = 0)) nodes"
    proof (rule filter_cong [OF refl])
      fix nd assume "nd \<in> set nodes"
      then have "g_name nd \<noteq> g_name node" using Cons.prems(1) by simp (metis imageI)
      then show "(name \<in> set (g_needs nd) \<and> (\<exists>c. map_of o1 (g_name nd) = Some c \<and> c - 1 = 0)) =
          (name \<in> set (g_needs nd) \<and> (\<exists>c. map_of out (g_name nd) = Some c \<and> c - 1 = 0))" by (simp add: o1)
    qed
    have "relaxed name (node # nodes) n \<longleftrightarrow> g_name node = n \<and> name \<in> set (g_needs node) \<or> relaxed name nodes n"
      by (auto simp: relaxed_def)
    moreover have "fold (relax name) nodes (o1, r1) = (out', ready')" using Cons.prems(2) r by simp
    then have ih: "map_of out' n = map_option (\<lambda>c. if relaxed name nodes n then c - 1 else c) (map_of o1 n)"
        "ready' = r1 @ map g_name (filter (\<lambda>node. name \<in> set (g_needs node) \<and>
          (\<exists>c. map_of o1 (g_name node) = Some c \<and> c - 1 = 0)) nodes)"
      using Cons.IH [of o1 r1] Cons.prems(1) by simp_all
    ultimately have "map_of out' n = map_option (\<lambda>c. if relaxed name (node # nodes) n then c - 1 else c) (map_of out n)"
      using fresh by (cases "map_of out n"; cases "n = g_name node") (simp_all add: o1)
    moreover have "ready' = ready @ map g_name (filter (\<lambda>node. name \<in> set (g_needs node) \<and>
        (\<exists>c. map_of out (g_name node) = Some c \<and> c - 1 = 0)) (node # nodes))"
      unfolding ih(2) same r1 filter.simps(2) by (simp only: if_distrib append_assoc list.map append_Nil append_Cons split: if_split) simp
    ultimately show ?case by blast
  qed
  then show "map_of out' n = map_option (\<lambda>c. if relaxed name nodes n then c - 1 else c) (map_of out n)"
    "ready' = ready @ map g_name (filter (\<lambda>node. name \<in> set (g_needs node) \<and>
      (\<exists>c. map_of out (g_name node) = Some c \<and> c - 1 = 0)) nodes)" by blast+
qed

text \<open>The state of the sort: \<open>R\<close> the names removed so far, ranked below \<open>k\<close>.\<close>

definition kahn_inv ::
  "graph_node list \<Rightarrow> (string \<times> nat) list \<Rightarrow> string list \<Rightarrow> string set \<Rightarrow> nat \<Rightarrow> (string \<Rightarrow> nat) \<Rightarrow> bool" where
  "kahn_inv nodes out ready R k rank \<longleftrightarrow>
     distinct (map fst out) \<and> fst ` set out \<union> R = g_name ` set nodes \<and> fst ` set out \<inter> R = {} \<and>
     distinct ready \<and> set ready = {n. map_of out n = Some 0} \<and>
     (\<forall>node \<in> set nodes. \<forall>c. map_of out (g_name node) = Some c \<longrightarrow>
        c + card (R \<inter> set (g_needs node)) = length (g_needs node)) \<and>
     (\<forall>node \<in> set nodes. g_name node \<in> R \<longrightarrow> distinct (g_needs node) \<and> set (g_needs node) \<subseteq> R \<and>
        (\<forall>d \<in> set (g_needs node). rank d < rank (g_name node))) \<and>
     (\<forall>x \<in> R. rank x < k)"

lemma all_removed:
  assumes "card (R \<inter> set needs) = length needs"
  shows "distinct needs \<and> set needs \<subseteq> R"
proof -
  have "card (R \<inter> set needs) \<le> card (set needs)" by (intro card_mono) auto
  then have c: "card (set needs) = length needs" using assms card_length [of needs] by linarith
  have "R \<inter> set needs = set needs" by (rule card_subset_eq) (auto simp: assms c)
  then show ?thesis using c by (auto simp: card_distinct)
qed

lemma kahn_inv_step:
  assumes inv: "kahn_inv nodes out ready R k rank" and names: "distinct (map g_name nodes)" and "ready \<noteq> []"
    and s: "fold (relax (last ready)) nodes (remove_key (last ready) out, butlast ready) = (out', ready')"
  shows "kahn_inv nodes out' ready' (insert (last ready) R) (Suc k) (rank(last ready := k))"
proof -
  let ?x = "last ready"
  have d: "distinct (map fst out)" and all: "fst ` set out \<union> R = g_name ` set nodes" and dis: "fst ` set out \<inter> R = {}"
    and dr: "distinct ready" and sr: "set ready = {n. map_of out n = Some 0}"
    and cnt: "\<And>node c. node \<in> set nodes \<Longrightarrow> map_of out (g_name node) = Some c \<Longrightarrow>
        c + card (R \<inter> set (g_needs node)) = length (g_needs node)"
    and gone: "\<And>node. node \<in> set nodes \<Longrightarrow> g_name node \<in> R \<Longrightarrow> distinct (g_needs node) \<and> set (g_needs node) \<subseteq> R \<and>
        (\<forall>d \<in> set (g_needs node). rank d < rank (g_name node))"
    and rk: "\<And>x. x \<in> R \<Longrightarrow> rank x < k"
    using inv unfolding kahn_inv_def by blast+
  have "R \<subseteq> g_name ` set nodes" unfolding all [symmetric] by (rule Un_upper2)
  then have fin: "finite R" by (rule finite_subset) simp
  have "?x \<in> set ready" using assms(3) by (rule last_in_set)
  then have x0: "map_of out ?x = Some 0" unfolding sr by simp
  then have xk: "?x \<in> fst ` set out" by (metis domI dom_map_of_conv_image_fst)
  then have xR: "?x \<notin> R" using dis by blast
  have rm: "map_of (remove_key ?x out) n = (if n = ?x then None else map_of out n)" for n
    unfolding remove_key_def by (induction out) auto
  note fold = relax_fold [OF names s]
  have mo: "map_of out' n = (if n = ?x then None else map_option (\<lambda>c. if relaxed ?x nodes n then c - 1 else c) (map_of out n))" for n
    using fold(1) [of n] by (simp add: rm)
  have rel: "relaxed ?x nodes (g_name node) \<longleftrightarrow> ?x \<in> set (g_needs node)" if "node \<in> set nodes" for node
    using that names by (auto simp: relaxed_def distinct_map inj_on_def)
  have pos: "0 < c" if "node \<in> set nodes" "map_of out (g_name node) = Some c" "?x \<in> set (g_needs node)" for node c
  proof (rule ccontr)
    assume "\<not> 0 < c"
    with cnt [OF that(1,2)] have "card (R \<inter> set (g_needs node)) = length (g_needs node)" by simp
    from all_removed [OF this] that(3) xR show False by auto
  qed
  have keys: "map fst out' = map fst (remove_key ?x out)" using relax_fold_keys [OF s] by simp
  have g1: "distinct (map fst out')"
    unfolding keys remove_key_def using d by (simp add: distinct_map inj_on_def)
  have f: "fst ` set out' = fst ` set out - {?x}"
    using arg_cong [OF keys, of set] by (auto simp: remove_key_def intro: rev_image_eqI)
  then have g2: "fst ` set out' \<union> insert ?x R = g_name ` set nodes" and g3: "fst ` set out' \<inter> insert ?x R = {}"
    using all dis xk by auto
  have g4: "distinct ready'"
  proof -
    have "distinct (map g_name (filter P nodes))" for P using names by (simp add: distinct_map inj_on_def)
    moreover have "g_name node \<notin> set (butlast ready)"
      if "node \<in> set nodes" "?x \<in> set (g_needs node)" "map_of (remove_key ?x out) (g_name node) = Some c" for node c
    proof
      assume "g_name node \<in> set (butlast ready)"
      then have "map_of out (g_name node) = Some 0" using sr by (auto dest: in_set_butlastD)
      with pos [OF that(1) this that(2)] show False by simp
    qed
    ultimately show ?thesis unfolding fold(2) using dr by (auto simp: distinct_butlast)
  qed
  have g5: "set ready' = {n. map_of out' n = Some 0}"
  proof -
    have b: "set (butlast ready) = set ready - {?x}"
      using dr assms(3) by (metis append_butlast_last_id distinct_butlast Diff_insert_absorb insert_iff
          list.simps(15) not_distinct_conv_prefix rotate1.simps(2) set_rotate1)
    have "n \<in> set ready' \<longleftrightarrow> map_of out' n = Some 0" for n
    proof (cases "\<exists>node \<in> set nodes. g_name node = n")
      case True
      then obtain node where n: "node \<in> set nodes" "g_name node = n" by blast
      have "n \<in> g_name ` {nd \<in> set nodes. ?x \<in> set (g_needs nd) \<and> (\<exists>c. map_of (remove_key ?x out) (g_name nd) = Some c \<and> c - 1 = 0)} \<longleftrightarrow>
          ?x \<in> set (g_needs node) \<and> n \<noteq> ?x \<and> (\<exists>c. map_of out n = Some c \<and> c - 1 = 0)"
        using n names by (auto simp: rm distinct_map inj_on_def image_iff)
      then have "n \<in> set ready' \<longleftrightarrow> map_of out n = Some 0 \<and> n \<noteq> ?x \<or>
          ?x \<in> set (g_needs node) \<and> n \<noteq> ?x \<and> (\<exists>c. map_of out n = Some c \<and> c - 1 = 0)"
        unfolding fold(2) using b sr by simp
      then show ?thesis using rel [OF n(1)] pos [OF n(1)] n(2) by (auto simp: mo)
    next
      case False
      then have "map_of out n = None" using all by (force simp: map_of_eq_None_iff)
      moreover have "n \<notin> set ready'" unfolding fold(2) using False \<open>map_of out n = None\<close> b sr by auto
      ultimately show ?thesis by (simp add: mo)
    qed
    then show ?thesis by blast
  qed
  have g6: "c + card (insert ?x R \<inter> set (g_needs node)) = length (g_needs node)"
    if n: "node \<in> set nodes" "map_of out' (g_name node) = Some c" for node c
  proof (cases "?x \<in> set (g_needs node)")
    case True
    with n obtain c0 where c0: "map_of out (g_name node) = Some c0" "c = c0 - 1"
      by (auto simp: mo rel split: if_splits)
    have "insert ?x R \<inter> set (g_needs node) = insert ?x (R \<inter> set (g_needs node))" using True by auto
    then have "card (insert ?x R \<inter> set (g_needs node)) = Suc (card (R \<inter> set (g_needs node)))"
      using xR fin by simp
    then show ?thesis using cnt [OF n(1) c0(1)] pos [OF n(1) c0(1) True] c0(2) by simp
  next
    case False
    with n have "map_of out (g_name node) = Some c" by (auto simp: mo rel split: if_splits)
    with cnt [OF n(1)] False show ?thesis by simp
  qed
  have g7: "distinct (g_needs node) \<and> set (g_needs node) \<subseteq> insert ?x R \<and>
      (\<forall>d \<in> set (g_needs node). (rank(?x := k)) d < (rank(?x := k)) (g_name node))"
    if n: "node \<in> set nodes" "g_name node \<in> insert ?x R" for node
  proof (cases "g_name node = ?x")
    case True
    from cnt [OF n(1)] True x0 have "card (R \<inter> set (g_needs node)) = length (g_needs node)" by simp
    from all_removed [OF this] show ?thesis using True xR rk by auto
  next
    case False
    then show ?thesis using gone [OF n(1)] n(2) xR by auto
  qed
  have g8: "(rank(?x := k)) x < Suc k" if "x \<in> insert ?x R" for x
    using that rk [of x] by auto
  show ?thesis
    unfolding kahn_inv_def
  proof (intro conjI ballI allI impI)
    fix node assume "node \<in> set nodes" "g_name node \<in> insert ?x R"
    note h = g7 [OF this]
    from h show "distinct (g_needs node)" and "set (g_needs node) \<subseteq> insert ?x R" by blast+
    show "\<And>d. d \<in> set (g_needs node) \<Longrightarrow> (rank(?x := k)) d < (rank(?x := k)) (g_name node)" using h by blast
  qed (fact g1 g2 g3 g4 g5 | erule g6, assumption | erule g8)+
qed

lemma kahn_loop_inv:
  "distinct (map g_name nodes) \<Longrightarrow> kahn_inv nodes out ready R k rank \<Longrightarrow>
     \<exists>R k rank. kahn_inv nodes (kahn_loop nodes out ready) [] R k rank"
proof (induction nodes out ready arbitrary: R k rank rule: kahn_loop.induct)
  case (1 nodes out ready)
  show ?case
  proof (cases "ready = []")
    case True
    then show ?thesis using "1.prems" by (auto simp: kahn_loop.simps [of nodes out])
  next
    case False
    obtain out' ready' where s: "fold (relax (last ready)) nodes (remove_key (last ready) out, butlast ready) = (out', ready')"
      by (rule that) (rule surjective_pairing)
    from "1.IH" [OF False refl refl "1.prems"(1)] kahn_inv_step [OF "1.prems"(2,1) False s]
    show ?thesis using False by (simp add: kahn_loop.simps [of nodes out ready] Let_def s)
  qed
qed

lemma kahn_start:
  assumes "distinct (map g_name nodes)"
  defines "out \<equiv> sort_key fst (map (\<lambda>node. (g_name node, length (g_needs node))) nodes)"
  shows "kahn_inv nodes out (map fst (filter (\<lambda>(_, count). count = 0) out)) {} 0 (\<lambda>_. 0)"
proof -
  have "distinct (map fst (map (\<lambda>node. (g_name node, length (g_needs node))) nodes))"
    using assms(1) by (simp add: comp_def)
  then have d: "distinct (map fst out)" unfolding out_def distinct_map by (auto simp: distinct_map)
  have s: "set out = (\<lambda>node. (g_name node, length (g_needs node))) ` set nodes" by (simp add: out_def)
  have m: "map_of out n = Some c \<longleftrightarrow> (n, c) \<in> set out" for n c using d by simp
  let ?ready = "map fst (filter (\<lambda>(_, count). count = 0) out)"
  have "distinct ?ready" using d by (simp add: distinct_map inj_on_def)
  moreover have "fst ` set out = g_name ` set nodes" unfolding s by (simp add: image_image)
  moreover have "set ?ready = {n. map_of out n = Some 0}" unfolding m by (auto intro: rev_image_eqI)
  moreover have "length (g_needs node) = c" if "node \<in> set nodes" "map_of out (g_name node) = Some c" for node c
  proof -
    from that(2) obtain nd where "nd \<in> set nodes" "g_name nd = g_name node" "c = length (g_needs nd)"
      unfolding m s by auto
    with that(1) assms(1) show ?thesis by (metis distinct_map inj_onD)
  qed
  ultimately show ?thesis using d unfolding kahn_inv_def by simp
qed

lemma cycle_refusal_None:
  assumes names: "distinct (map g_name nodes)"
    and closed: "\<forall>node \<in> set nodes. set (g_needs node) \<subseteq> set (map g_name nodes)"
  shows "cycle_refusal nodes = None \<longleftrightarrow> edges_runnable nodes"
proof -
  define out where "out = sort_key fst (map (\<lambda>node. (g_name node, length (g_needs node))) nodes)"
  define left where "left = kahn_loop nodes out (map fst (filter (\<lambda>(_, count). count = 0) out))"
  obtain R k rank where inv: "kahn_inv nodes left [] R k rank"
    using kahn_loop_inv [OF names kahn_start [OF names]] unfolding left_def out_def by blast
  have "cycle_refusal nodes = None \<longleftrightarrow> left = []"
    by (auto simp: cycle_refusal_def left_def out_def Let_def split: list.splits)
  also have "\<dots> \<longleftrightarrow> edges_runnable nodes"
  proof
    assume "left = []"
    then have "R = g_name ` set nodes" using inv by (simp add: kahn_inv_def)
    with inv have "\<forall>node \<in> set nodes. distinct (g_needs node) \<and> (\<forall>d \<in> set (g_needs node). rank d < rank (g_name node))"
      by (simp add: kahn_inv_def)
    then show "edges_runnable nodes" unfolding edges_runnable_def by blast
  next
    assume run: "edges_runnable nodes"
    then obtain r :: "string \<Rightarrow> nat" where r: "\<And>node d. node \<in> set nodes \<Longrightarrow> d \<in> set (g_needs node) \<Longrightarrow> r d < r (g_name node)"
      and dn: "\<And>node. node \<in> set nodes \<Longrightarrow> distinct (g_needs node)"
      unfolding edges_runnable_def by blast
    show "left = []"
    proof (rule ccontr)
      assume "left \<noteq> []"
      then obtain y0 where "y0 \<in> fst ` set left" by (cases left) auto
      from ex_has_least_nat [where P = "\<lambda>x. x \<in> fst ` set left" and m = r, OF this]
      obtain x where x: "x \<in> fst ` set left" and least: "\<And>y. y \<in> fst ` set left \<Longrightarrow> r x \<le> r y" by blast
      then obtain node where n: "node \<in> set nodes" "g_name node = x"
        using inv unfolding kahn_inv_def by (metis UnI1 imageE)
      obtain c where c: "map_of left x = Some c" using x by (metis map_of_eq_None_iff not_None_eq)
      have "map_of left x \<noteq> Some 0" using inv unfolding kahn_inv_def by auto
      then have "0 < c" using c by auto
      moreover have "c + card (R \<inter> set (g_needs node)) = length (g_needs node)"
        using inv n c unfolding kahn_inv_def by blast
      ultimately have "card (R \<inter> set (g_needs node)) < card (set (g_needs node))"
        using distinct_card [OF dn [OF n(1)]] by linarith
      then obtain d where d: "d \<in> set (g_needs node)" "d \<notin> R" by (metis Int_absorb1 less_irrefl subsetI)
      then have "d \<in> fst ` set left" using inv closed n(1) unfolding kahn_inv_def by (metis UnE list.set_map subsetD)
      from least [OF this] r [OF n(1) d(1)] n(2) show False by simp
    qed
  qed
  finally show ?thesis .
qed

lemma refusal_reason_None: "refusal_reason nodes = None \<longleftrightarrow> runnable nodes"
proof (cases "nodes \<noteq> [] \<and> length nodes \<le> max_graph_nodes \<and> name_refusal nodes {} = None \<and>
    needs_refusal (set (map g_name nodes)) nodes = None")
  case True
  then have "distinct (map g_name nodes)" "\<forall>node \<in> set nodes. set (g_needs node) \<subseteq> set (map g_name nodes)"
    by (simp_all add: name_refusal_None needs_refusal_None)
  note cycle = cycle_refusal_None [OF this]
  have "refusal_reason nodes = None \<longleftrightarrow> cycle_refusal nodes = None"
    using True by (simp add: refusal_reason_def not_less)
  moreover have "runnable nodes \<longleftrightarrow> edges_runnable nodes"
    using True by (simp add: runnable_def name_refusal_None needs_refusal_None)
  ultimately show ?thesis using cycle by simp
next
  case False
  have "\<not> runnable nodes"
  proof
    assume r: "runnable nodes"
    have "g_name node \<notin> set (g_needs node)" if "node \<in> set nodes" for node
      using r that unfolding runnable_def edges_runnable_def by blast
    with r False show False by (auto simp: runnable_def name_refusal_None needs_refusal_None)
  qed
  moreover have "refusal_reason nodes \<noteq> None"
    using False by (auto simp: refusal_reason_def not_le split: option.splits)
  ultimately show ?thesis by simp
qed

section \<open>The plan of a validated graph\<close>

text \<open>The edges of a plan, both ways with their multiplicity, and a rank they respect.\<close>

definition plan_edges :: "nat list list \<Rightarrow> nat list list \<Rightarrow> bool" where
  "plan_edges needs dependants \<longleftrightarrow> length dependants = length needs \<and>
     (\<forall>i < length needs. \<forall>d \<in> set (needs ! i). d < length needs) \<and>
     (\<forall>d < length needs. \<forall>i. count_list (dependants ! d) i = (if i < length needs then count_list (needs ! i) d else 0)) \<and>
     (\<exists>rank :: nat \<Rightarrow> nat. \<forall>i < length needs. \<forall>d \<in> set (needs ! i). rank d < rank i)"

lemma plan_edges_member:
  assumes "plan_edges needs dependants" and "d < length needs"
  shows "i \<in> set (dependants ! d) \<longleftrightarrow> i < length needs \<and> d \<in> set (needs ! i)"
proof -
  have "count_list (dependants ! d) i = (if i < length needs then count_list (needs ! i) d else 0)"
    using assms by (simp add: plan_edges_def)
  then have "count_list (dependants ! d) i = 0 \<longleftrightarrow> \<not> (i < length needs \<and> d \<in> set (needs ! i))"
    by (auto simp: count_list_0_iff)
  then show ?thesis unfolding count_list_0_iff by blast
qed

lemma plan_index_at:
  assumes "distinct (map g_name nodes)"
  shows "plan_index nodes name = Some i \<longleftrightarrow> i < length nodes \<and> g_name (nodes ! i) = name"
proof -
  have "distinct (map fst (rev (zip (map g_name nodes) [0..<length nodes])))"
    using assms by (simp flip: rev_map)
  then have "plan_index nodes name = Some i \<longleftrightarrow> (name, i) \<in> set (zip (map g_name nodes) [0..<length nodes])"
    unfolding plan_index_def by (simp only: map_of_eq_Some_iff set_rev)
  moreover have "(name, i) \<in> set (zip (map g_name nodes) [0..<length nodes]) \<longleftrightarrow>
      (\<exists>k < length nodes. name = g_name (nodes ! k) \<and> i = k)"
    unfolding in_set_zip by (auto intro!: exI [of _ i])
  ultimately show ?thesis by auto
qed

lemma push_at_length [simp]: "length (push_at rows dep at) = length rows"
  by (simp add: push_at_def)

lemma push_at_count:
  "d < length rows \<Longrightarrow> count_list (push_at rows dep at ! d) i =
     count_list (rows ! d) i + (if d = dep \<and> i = at then 1 else 0)"
  by (cases "d = dep") (auto simp: push_at_def)

lemma resolve_needs_ok:
  assumes "\<forall>need \<in> set needs. index need = Some (idx need)"
  shows "\<exists>rows'. resolve_needs index at needs resolved rows = (Inr (resolved @ map idx needs, rows') :: 'p flow_error + _) \<and>
    length rows' = length rows \<and>
    (\<forall>d < length rows. \<forall>i. count_list (rows' ! d) i =
       count_list (rows ! d) i + (if i = at then count_list (map idx needs) d else 0))"
  using assms
proof (induction needs arbitrary: resolved rows)
  case (Cons need needs)
  have idx: "index need = Some (idx need)" by (simp add: Cons.prems)
  have "\<forall>nd \<in> set needs. index nd = Some (idx nd)" by (simp add: Cons.prems)
  from Cons.IH [of "resolved @ [idx need]" "push_at rows (idx need) at", OF this] obtain rows' where
    "resolve_needs index at needs (resolved @ [idx need]) (push_at rows (idx need) at) =
        (Inr ((resolved @ [idx need]) @ map idx needs, rows') :: 'p flow_error + _)"
    "length rows' = length (push_at rows (idx need) at)"
    "\<forall>d < length (push_at rows (idx need) at). \<forall>i. count_list (rows' ! d) i =
        count_list (push_at rows (idx need) at ! d) i + (if i = at then count_list (map idx needs) d else 0)"
    by blast
  then show ?case by (intro exI [of _ rows']) (auto simp: idx push_at_count)
qed simp

lemma resolve_nodes_ok:
  assumes "\<forall>node \<in> set nodes. \<forall>need \<in> set (g_needs node). index need = Some (idx need)"
    and "at = length needs"
    and "\<forall>d < length rows. \<forall>i. count_list (rows ! d) i = (if i < length needs then count_list (needs ! i) d else 0)"
  shows "\<exists>rows'. resolve_nodes index at nodes needs rows = (Inr (needs @ map (map idx o g_needs) nodes, rows') :: 'p flow_error + _) \<and>
    length rows' = length rows \<and>
    (\<forall>d < length rows. \<forall>i. count_list (rows' ! d) i =
       (if i < length (needs @ map (map idx o g_needs) nodes) then count_list ((needs @ map (map idx o g_needs) nodes) ! i) d else 0))"
  using assms
proof (induction nodes arbitrary: at needs rows)
  case (Cons node nodes)
  have "\<forall>nd \<in> set (g_needs node). index nd = Some (idx nd)" using Cons.prems(1) by simp
  from resolve_needs_ok [of _ index idx at "[]" rows, OF this] obtain rows1 where r1:
    "resolve_needs index at (g_needs node) [] rows = (Inr (map idx (g_needs node), rows1) :: 'p flow_error + _)"
    "length rows1 = length rows"
    "\<forall>d < length rows. \<forall>i. count_list (rows1 ! d) i =
        count_list (rows ! d) i + (if i = at then count_list (map idx (g_needs node)) d else 0)"
    by auto
  have "\<forall>d < length rows1. \<forall>i. count_list (rows1 ! d) i =
      (if i < length (needs @ [map idx (g_needs node)]) then count_list ((needs @ [map idx (g_needs node)]) ! i) d else 0)"
    using r1(2,3) Cons.prems(2,3) by (auto simp: nth_append less_Suc_eq)
  note pre = this
  have hyp: "\<forall>nd \<in> set nodes. \<forall>need \<in> set (g_needs nd). index need = Some (idx need)"
    using Cons.prems(1) by simp
  have len: "at + 1 = length (needs @ [map idx (g_needs node)])" using Cons.prems(2) by simp
  from Cons.IH [OF hyp len pre] obtain rows' where
    "resolve_nodes index (at + 1) nodes (needs @ [map idx (g_needs node)]) rows1 =
        (Inr ((needs @ [map idx (g_needs node)]) @ map (map idx o g_needs) nodes, rows') :: 'p flow_error + _)"
    "length rows' = length rows1"
    "\<forall>d < length rows1. \<forall>i. count_list (rows' ! d) i =
       (if i < length ((needs @ [map idx (g_needs node)]) @ map (map idx o g_needs) nodes)
        then count_list (((needs @ [map idx (g_needs node)]) @ map (map idx o g_needs) nodes) ! i) d else 0)"
    by blast
  moreover have "(needs @ [map idx (g_needs node)]) @ map (map idx o g_needs) nodes =
      needs @ map (map idx o g_needs) (node # nodes)" by simp
  ultimately show ?case using r1 by (intro exI [of _ rows']) (simp del: append_assoc append_Cons map_append list.map)
qed simp

lemma count_list_map_inj: "inj_on f (insert x (set xs)) \<Longrightarrow> count_list (map f xs) (f x) = count_list xs x"
  by (induction xs) (auto simp: inj_on_def)

lemma resolve_runnable:
  assumes "runnable nodes"
  obtains needs rows where
    "resolve_nodes (plan_index nodes) 0 nodes [] (replicate (length nodes) []) = (Inr (needs, rows) :: 'p flow_error + _)"
    "length needs = length nodes" "plan_edges needs rows"
    "\<And>i. i < length nodes \<Longrightarrow> map (\<lambda>d. g_name (nodes ! d)) (needs ! i) = g_needs (nodes ! i)"
    "\<And>i d. i < length nodes \<Longrightarrow> d \<in> set (needs ! i) \<Longrightarrow> d < length nodes"
proof -
  have names: "distinct (map g_name nodes)"
    and closed: "\<And>node need. node \<in> set nodes \<Longrightarrow> need \<in> set (g_needs node) \<Longrightarrow> need \<in> set (map g_name nodes)"
    using assms unfolding runnable_def by blast+
  let ?idx = "\<lambda>need. the (plan_index nodes need)"
  define needs where "needs = map (map ?idx o g_needs) nodes"
  have idx: "plan_index nodes need = Some (?idx need)" "?idx need < length nodes" "g_name (nodes ! ?idx need) = need"
    if "need \<in> set (map g_name nodes)" for need
  proof -
    from that obtain k where "k < length nodes" "need = g_name (nodes ! k)" by (auto simp: in_set_conv_nth)
    then have "plan_index nodes need = Some k" using plan_index_at [OF names] by simp
    with plan_index_at [OF names, of need k]
    show "plan_index nodes need = Some (?idx need)" "?idx need < length nodes" "g_name (nodes ! ?idx need) = need" by auto
  qed
  have "\<forall>node \<in> set nodes. \<forall>need \<in> set (g_needs node). plan_index nodes need = Some (?idx need)"
    using closed idx(1) by blast
  then have "\<exists>rows'. resolve_nodes (plan_index nodes) 0 nodes [] (replicate (length nodes) []) =
        (Inr ([] @ map (map ?idx o g_needs) nodes, rows') :: 'p flow_error + _) \<and>
      length rows' = length (replicate (length nodes) ([] :: nat list)) \<and>
      (\<forall>d < length (replicate (length nodes) ([] :: nat list)). \<forall>i. count_list (rows' ! d) i =
        (if i < length ([] @ map (map ?idx o g_needs) nodes)
         then count_list (([] @ map (map ?idx o g_needs) nodes) ! i) d else 0))"
    by (rule resolve_nodes_ok) simp_all
  then obtain rows where r:
    "resolve_nodes (plan_index nodes) 0 nodes [] (replicate (length nodes) []) = (Inr (needs, rows) :: 'p flow_error + _)"
    "length rows = length nodes"
    "\<forall>d < length nodes. \<forall>i. count_list (rows ! d) i = (if i < length needs then count_list (needs ! i) d else 0)"
    unfolding append_Nil needs_def [symmetric] length_replicate by blast
  have mem: "d < length nodes \<and> g_name (nodes ! d) \<in> set (g_needs (nodes ! i))" if "i < length nodes" "d \<in> set (needs ! i)" for i d
  proof -
    from that obtain need where n: "need \<in> set (g_needs (nodes ! i))" "d = ?idx need" by (auto simp: needs_def)
    have "need \<in> set (map g_name nodes)" by (rule closed [OF nth_mem [OF that(1)] n(1)])
    with idx n show ?thesis by simp
  qed
  have spelled: "map (\<lambda>d. g_name (nodes ! d)) (needs ! i) = g_needs (nodes ! i)" if "i < length nodes" for i
  proof -
    have "g_name (nodes ! ?idx need) = need" if "need \<in> set (g_needs (nodes ! i))" for need
      by (rule idx(3)) (rule closed [OF nth_mem that], fact)
    then show ?thesis using that by (simp add: needs_def comp_def map_idI)
  qed
  obtain rank :: "string \<Rightarrow> nat" where rank: "\<And>node d. node \<in> set nodes \<Longrightarrow> d \<in> set (g_needs node) \<Longrightarrow> rank d < rank (g_name node)"
    using assms unfolding runnable_def edges_runnable_def by blast
  have "rank (g_name (nodes ! d)) < rank (g_name (nodes ! i))" if "i < length nodes" "d \<in> set (needs ! i)" for i d
    by (rule rank [OF nth_mem [OF that(1)] conjunct2 [OF mem [OF that]]])
  then have "\<exists>rank :: nat \<Rightarrow> nat. \<forall>i < length needs. \<forall>d \<in> set (needs ! i). rank d < rank i"
    by (intro exI [of _ "\<lambda>i. rank (g_name (nodes ! i))"]) (simp add: needs_def)
  moreover have len: "length needs = length nodes" by (simp add: needs_def)
  ultimately have "plan_edges needs rows" using r mem unfolding plan_edges_def by auto
  with that r(1) len spelled mem show ?thesis by blast
qed

section \<open>The order and the heights\<close>

lemma countdown_fold:
  assumes "\<forall>i \<in> set L. i < length unmet" and "\<forall>i. count_list L i \<le> unmet ! i"
  shows "\<exists>pushed. fold countdown L (queue, unmet) =
      (queue @ pushed, map (\<lambda>i. unmet ! i - count_list L i) [0..<length unmet]) \<and>
    distinct pushed \<and> set pushed = {i \<in> set L. unmet ! i = count_list L i}"
  using assms
proof (induction L arbitrary: queue unmet)
  case Nil
  then show ?case by (simp add: map_nth)
next
  case (Cons x L)
  let ?u = "unmet[x := unmet ! x - 1]" and ?p = "if unmet ! x - 1 = 0 then [x] else []"
  have x: "x < length unmet" "Suc (count_list L x) \<le> unmet ! x"
    using Cons.prems(1) Cons.prems(2) [rule_format, of x] by simp_all
  have u: "?u ! i = unmet ! i - (if i = x then 1 else 0)" for i using x(1) by simp
  have cl: "count_list L i \<le> ?u ! i" for i using Cons.prems(2)[rule_format, of i] x
    by (cases "i = x") simp_all
  have step: "countdown x (queue, unmet) = (queue @ ?p, ?u)" using x(1) by (simp add: countdown_def)
  from Cons.IH [of ?u "queue @ ?p"] Cons.prems(1) cl obtain pushed where p:
    "fold countdown L (queue @ ?p, ?u) = ((queue @ ?p) @ pushed, map (\<lambda>i. ?u ! i - count_list L i) [0..<length ?u])"
    "distinct pushed" "set pushed = {i \<in> set L. ?u ! i = count_list L i}" by auto
  have "map (\<lambda>i. ?u ! i - count_list L i) [0..<length ?u] = map (\<lambda>i. unmet ! i - count_list (x # L) i) [0..<length unmet]"
    by (auto simp: u)
  moreover have "distinct (?p @ pushed) \<and> set (?p @ pushed) = {i \<in> set (x # L). unmet ! i = count_list (x # L) i}"
  proof (cases "unmet ! x - 1 = 0")
    case True
    then have z: "count_list L x = 0" "unmet ! x = 1" using x(2) by simp_all
    then have xL: "x \<notin> set L" by (simp add: count_list_0_iff)
    then have "?u ! i = unmet ! i" if "i \<in> set L" for i using that by (cases "i = x") auto
    then have "set pushed = {i \<in> set L. unmet ! i = count_list L i}" unfolding p(3) by auto
    with xL show ?thesis using p(2) z True by auto
  next
    case False
    have "?u ! i = count_list L i \<longleftrightarrow> unmet ! i = count_list (x # L) i" for i
      using x by (cases "i = x") (auto simp: u)
    moreover have "x \<in> set L \<or> unmet ! x \<noteq> count_list (x # L) x"
      using False x(2) by (cases "x \<in> set L") (simp_all add: count_notin)
    ultimately show ?thesis using False p(2,3) by auto
  qed
  ultimately show ?case using step p(1) by (intro exI [of _ "?p @ pushed"]) simp
qed

text \<open>The sort by index: \<open>O\<close> the nodes ordered so far.\<close>

definition order_inv :: "nat list list \<Rightarrow> nat list \<Rightarrow> nat list \<Rightarrow> nat list \<Rightarrow> bool" where
  "order_inv needs queue unmet order \<longleftrightarrow> length unmet = length needs \<and> distinct order \<and> set order \<subseteq> {..<length needs} \<and>
     distinct queue \<and> set queue = {i. i < length needs \<and> i \<notin> set order \<and> unmet ! i = 0} \<and>
     (\<forall>i < length needs. unmet ! i = length (filter (\<lambda>d. d \<notin> set order) (needs ! i))) \<and>
     (\<forall>k < length order. set (needs ! (order ! k)) \<subseteq> set (take k order))"

lemma filter_out_one:
  "x \<notin> S \<Longrightarrow> length (filter (\<lambda>d. d \<notin> insert x S) xs) = length (filter (\<lambda>d. d \<notin> S) xs) - count_list xs x \<and>
     count_list xs x \<le> length (filter (\<lambda>d. d \<notin> S) xs)"
  by (induction xs) auto

lemma set_butlast_distinct: "distinct xs \<Longrightarrow> xs \<noteq> [] \<Longrightarrow> set (butlast xs) = set xs - {last xs}"
  by (cases xs rule: rev_cases) auto

lemma order_inv_step:
  assumes edges: "plan_edges needs rows" and inv: "order_inv needs queue unmet order" and "queue \<noteq> []"
    and s: "fold countdown (nth_or_empty rows (last queue)) (butlast queue, unmet) = (queue', unmet')"
  shows "order_inv needs queue' unmet' (order @ [last queue])"
proof -
  let ?x = "last queue" and ?n = "length needs"
  have len: "length unmet = ?n" and do: "distinct order" and so: "set order \<subseteq> {..<?n}" and dq: "distinct queue"
    and sq: "set queue = {i. i < ?n \<and> i \<notin> set order \<and> unmet ! i = 0}"
    and cnt: "\<And>i. i < ?n \<Longrightarrow> unmet ! i = length (filter (\<lambda>d. d \<notin> set order) (needs ! i))"
    and topo: "\<And>k. k < length order \<Longrightarrow> set (needs ! (order ! k)) \<subseteq> set (take k order)"
    using inv unfolding order_inv_def by blast+
  have "?x \<in> set queue" using assms(3) by (rule last_in_set)
  then have x: "?x < ?n" "?x \<notin> set order" "unmet ! ?x = 0" unfolding sq by simp_all
  have lr: "length rows = ?n" using edges by (simp add: plan_edges_def)
  have L: "nth_or_empty rows ?x = rows ! ?x" using x(1) lr by (simp add: nth_or_empty_def)
  have cl: "count_list (rows ! ?x) i = (if i < ?n then count_list (needs ! i) ?x else 0)" for i
    using edges x(1) by (simp add: plan_edges_def)
  note one = filter_out_one [OF x(2)]
  have le: "count_list (rows ! ?x) i \<le> unmet ! i" for i
    using one [of "needs ! i"] by (simp add: cl cnt)
  have "\<forall>i \<in> set (rows ! ?x). i < length unmet"
    using plan_edges_member [OF edges x(1)] len by auto
  from countdown_fold [OF this, of "butlast queue"] le obtain pushed where
    p: "queue' = butlast queue @ pushed" "unmet' = map (\<lambda>i. unmet ! i - count_list (rows ! ?x) i) [0..<length unmet]"
      "distinct pushed" "set pushed = {i \<in> set (rows ! ?x). unmet ! i = count_list (rows ! ?x) i}"
    using s unfolding L by auto
  have u': "unmet' ! i = length (filter (\<lambda>d. d \<notin> insert ?x (set order)) (needs ! i))" if "i < ?n" for i
    using that one [of "needs ! i"] by (simp add: p(2) len cl cnt)
  have b: "set (butlast queue) = set queue - {?x}" by (rule set_butlast_distinct [OF dq assms(3)])
  have xx: "?x \<notin> set (needs ! ?x)"
  proof
    assume "?x \<in> set (needs ! ?x)"
    then have "filter (\<lambda>d. d \<notin> set order) (needs ! ?x) \<noteq> []" using x(2) by (auto simp: filter_empty_conv)
    then show False using cnt [OF x(1)] x(3) by simp
  qed
  have seen: "?x \<notin> set (needs ! i)" if "i \<in> set order" for i
  proof
    assume h: "?x \<in> set (needs ! i)"
    from that obtain k where "k < length order" "order ! k = i" by (auto simp: in_set_conv_nth)
    with topo h have "?x \<in> set (take k order)" by blast
    then show False using x(2) by (auto dest: in_set_takeD)
  qed
  have pushed: "i \<in> set pushed \<longleftrightarrow> i < ?n \<and> ?x \<in> set (needs ! i) \<and> unmet ! i = count_list (needs ! i) ?x" for i
    unfolding p(4) using plan_edges_member [OF edges x(1), of i] cl [of i] by auto
  have g1: "distinct queue'"
  proof -
    have "set (butlast queue) \<inter> set pushed = {}" unfolding b sq by (auto simp: pushed count_list_0_iff)
    then show ?thesis unfolding p(1) using p(3) dq by (simp add: distinct_butlast)
  qed
  have g2: "set queue' = {i. i < ?n \<and> i \<notin> set (order @ [?x]) \<and> unmet' ! i = 0}"
  proof -
    have "i \<in> set queue' \<longleftrightarrow> i < ?n \<and> i \<notin> insert ?x (set order) \<and> unmet' ! i = 0" for i
    proof (cases "i < ?n \<and> i \<notin> insert ?x (set order)")
      case True
      have "unmet' ! i = unmet ! i - count_list (needs ! i) ?x" using True by (simp add: p(2) len cl)
      moreover have "count_list (needs ! i) ?x \<le> unmet ! i" using le [of i] True by (simp add: cl)
      moreover have "?x \<in> set (needs ! i) \<longleftrightarrow> count_list (needs ! i) ?x \<noteq> 0" by (simp add: count_list_0_iff)
      moreover have "i \<in> set queue' \<longleftrightarrow> unmet ! i = 0 \<or> i \<in> set pushed"
        using True unfolding p(1) set_append b sq by blast
      ultimately show ?thesis using True pushed [of i] by linarith
    next
      case False
      then have "i \<notin> set pushed" using pushed [of i] xx seen [of i] by blast
      with False show ?thesis unfolding p(1) set_append b sq by blast
    qed
    then show ?thesis by auto
  qed
  have g3: "set (needs ! ((order @ [?x]) ! k)) \<subseteq> set (take k (order @ [?x]))" if "k < length (order @ [?x])" for k
  proof (cases "k < length order")
    case True
    then show ?thesis using topo [OF True] by (simp add: nth_append)
  next
    case False
    have "filter (\<lambda>d. d \<notin> set order) (needs ! ?x) = []" using cnt [OF x(1)] x(3) by simp
    then have "set (needs ! ?x) \<subseteq> set order" by (auto simp: filter_empty_conv)
    moreover have "k = length order" using False that by simp
    ultimately show ?thesis by simp
  qed
  show ?thesis
    unfolding order_inv_def
  proof (intro conjI allI impI)
    show "length unmet' = ?n" by (simp add: p(2) len)
    show "distinct (order @ [?x])" using do x(2) by simp
    show "set (order @ [?x]) \<subseteq> {..<?n}" using so x(1) by simp
    show "\<And>i. i < ?n \<Longrightarrow> unmet' ! i = length (filter (\<lambda>d. d \<notin> set (order @ [?x])) (needs ! i))"
      using u' by simp
  qed (fact g1 g2 | erule g3)+
qed

lemma order_inv_length: "order_inv needs queue unmet order \<Longrightarrow> length order \<le> length needs"
proof -
  assume "order_inv needs queue unmet order"
  then have "distinct order" "set order \<subseteq> {..<length needs}" unfolding order_inv_def by blast+
  then show ?thesis by (metis card_lessThan card_mono distinct_card finite_lessThan)
qed

text \<open>The sort ends, and orders every node, needs first.\<close>

lemma plan_order_total:
  assumes "plan_edges needs rows" and "order_inv needs queue unmet order"
  shows "\<exists>order' unmet'. plan_order rows queue unmet order = Some order' \<and> order_inv needs [] unmet' order'"
  using assms(2)
proof (induction "length needs - length order" arbitrary: queue unmet order rule: less_induct)
  case less
  show ?case
  proof (cases "queue = []")
    case True
    then show ?thesis using less.prems by (subst plan_order.simps) auto
  next
    case False
    obtain queue' unmet' where s: "fold countdown (nth_or_empty rows (last queue)) (butlast queue, unmet) = (queue', unmet')"
      by (rule that) (rule surjective_pairing)
    note inv = order_inv_step [OF assms(1) less.prems False s]
    have "length needs - length (order @ [last queue]) < length needs - length order"
      using order_inv_length [OF inv] by simp
    from less.hyps [OF this inv] show ?thesis using False by (subst plan_order.simps) (simp add: Let_def s)
  qed
qed

lemma order_complete:
  assumes edges: "plan_edges needs rows" and inv: "order_inv needs [] unmet order"
  shows "set order = {..<length needs}"
proof (rule ccontr)
  assume "set order \<noteq> {..<length needs}"
  then obtain i0 where "i0 < length needs \<and> i0 \<notin> set order" using inv unfolding order_inv_def by blast
  obtain rank :: "nat \<Rightarrow> nat" where rank: "\<And>i d. i < length needs \<Longrightarrow> d \<in> set (needs ! i) \<Longrightarrow> rank d < rank i"
    using edges unfolding plan_edges_def by blast
  from ex_has_least_nat [where P = "\<lambda>i. i < length needs \<and> i \<notin> set order" and m = rank, OF \<open>i0 < length needs \<and> i0 \<notin> set order\<close>]
  obtain i where i: "i < length needs" "i \<notin> set order"
    and least: "\<And>j. j < length needs \<and> j \<notin> set order \<Longrightarrow> rank i \<le> rank j" by blast
  have "unmet ! i \<noteq> 0" using inv i unfolding order_inv_def by auto
  then have "filter (\<lambda>d. d \<notin> set order) (needs ! i) \<noteq> []" using inv i(1) unfolding order_inv_def by auto
  then obtain d where d: "d \<in> set (needs ! i)" "d \<notin> set order" by (auto simp: filter_empty_conv)
  have "d < length needs" using edges i(1) d(1) unfolding plan_edges_def by blast
  with least [of d] d(2) rank [OF i(1) d(1)] show False by simp
qed

lemma heaviest_cong:
  assumes "length h = length h'" and "\<forall>i \<in> set xs. h ! i = h' ! i"
  shows "heaviest h xs = heaviest h' xs"
  unfolding heaviest_def by (rule fold_cong) (use assms in auto)

text \<open>\<open>S\<close>: the nodes whose height is final. A node is raised once all that depend on it are.\<close>

lemma raise_fold:
  assumes "length h = length rows" and "distinct todo" and "set todo \<subseteq> {..<length rows}" and "set todo \<inter> S = {}"
    and "\<forall>k < length todo. set (rows ! (todo ! k)) \<subseteq> S \<union> set (take k todo)"
    and "\<forall>i \<in> S. h ! i = sat_add_u64 (work ! i) (heaviest h (rows ! i)) \<and> set (rows ! i) \<subseteq> S"
    and "\<forall>i \<in> set todo. h ! i = work ! i"
  shows "length (fold (raise rows) todo h) = length rows \<and>
    (\<forall>i \<in> S \<union> set todo. fold (raise rows) todo h ! i = sat_add_u64 (work ! i) (heaviest (fold (raise rows) todo h) (rows ! i)))"
  using assms
proof (induction todo arbitrary: S h)
  case (Cons x todo)
  have x: "x < length rows" "x \<notin> S" "x \<notin> set todo" using Cons.prems by auto
  have rx: "set (rows ! x) \<subseteq> S" using Cons.prems(5) by force
  let ?h = "h[x := sat_add_u64 (work ! x) (heaviest h (rows ! x))]"
  have r: "raise rows x h = ?h" using x Cons.prems(1,7) by (simp add: raise_def nth_or_empty_def Let_def)
  have same: "heaviest ?h (rows ! i) = heaviest h (rows ! i)" if "set (rows ! i) \<subseteq> S" for i
  proof (rule heaviest_cong)
    show "\<forall>j \<in> set (rows ! i). ?h ! j = h ! j"
    proof
      fix j assume "j \<in> set (rows ! i)"
      then have "j \<noteq> x" using that x(2) by blast
      then show "?h ! j = h ! j" by simp
    qed
  qed simp
  have "fold (raise rows) todo ?h ! i = sat_add_u64 (work ! i) (heaviest (fold (raise rows) todo ?h) (rows ! i))"
    if "i \<in> insert x S \<union> set todo" for i
  proof -
    have "\<forall>k < length todo. set (rows ! (todo ! k)) \<subseteq> insert x S \<union> set (take k todo)"
      using Cons.prems(5) by (metis (no_types, lifting) Suc_less_eq Un_insert_left Un_insert_right length_Cons list.simps(15) nth_Cons_Suc take_Suc_Cons)
    moreover have "\<forall>i \<in> insert x S. ?h ! i = sat_add_u64 (work ! i) (heaviest ?h (rows ! i)) \<and> set (rows ! i) \<subseteq> insert x S"
    proof
      fix i assume i: "i \<in> insert x S"
      show "?h ! i = sat_add_u64 (work ! i) (heaviest ?h (rows ! i)) \<and> set (rows ! i) \<subseteq> insert x S"
      proof (cases "i = x")
        case True
        then show ?thesis using same [OF rx] rx x(1) Cons.prems(1) by auto
      next
        case False
        then have "i \<in> S" using i by simp
        then have "h ! i = sat_add_u64 (work ! i) (heaviest h (rows ! i))" "set (rows ! i) \<subseteq> S" using Cons.prems(6) by auto
        then show ?thesis using False same by auto
      qed
    qed
    moreover have "\<forall>i \<in> set todo. ?h ! i = work ! i"
      using x(3) Cons.prems(7) by (metis list.set_intros(2) nth_list_update_neq)
    ultimately show ?thesis using Cons.IH [of ?h "insert x S"] Cons.prems(1-4) that x(3) by auto
  qed
  moreover have "length (fold (raise rows) todo ?h) = length rows"
  proof -
    have "length (fold (raise rows) xs g) = length g" for xs g
      by (induction xs arbitrary: g) (auto simp: raise_def Let_def)
    then show ?thesis using Cons.prems(1) by simp
  qed
  ultimately show ?case by (simp add: r)
qed simp

definition plan_ok :: "graph_node list \<Rightarrow> plan \<Rightarrow> bool" where
  "plan_ok nodes p \<longleftrightarrow> p_names p = map g_name nodes \<and> length (p_needs p) = length nodes \<and>
     length (p_height p) = length nodes \<and> plan_edges (p_needs p) (p_dependants p)"

lemma plan_of_runnable:
  assumes "runnable nodes"
  shows "\<exists>p. plan_of nodes = Some (Inr p :: 'p flow_error + plan) \<and> plan_ok nodes p \<and>
    (\<forall>i < length nodes. map (\<lambda>d. g_name (nodes ! d)) (p_needs p ! i) = g_needs (nodes ! i)) \<and>
    (\<forall>i < length nodes. p_height p ! i = sat_add_u64 (g_work (nodes ! i)) (heaviest (p_height p) (p_dependants p ! i)))"
proof -
  obtain needs rows where r: "resolve_nodes (plan_index nodes) 0 nodes [] (replicate (length nodes) []) = (Inr (needs, rows) :: 'p flow_error + _)"
    and len: "length needs = length nodes" and edges: "plan_edges needs rows"
    and spelled: "\<And>i. i < length nodes \<Longrightarrow> map (\<lambda>d. g_name (nodes ! d)) (needs ! i) = g_needs (nodes ! i)"
    by (rule resolve_runnable [OF assms, where 'p = 'p]) (rule that)
  have lr: "length rows = length nodes" using edges len by (simp add: plan_edges_def)
  let ?queue = "filter (\<lambda>at. map length needs ! at = 0) [0..<length (map length needs)]"
  have "order_inv needs ?queue (map length needs) []" by (auto simp: order_inv_def)
  from plan_order_total [OF edges this] obtain order unmet where
    o: "plan_order rows ?queue (map length needs) [] = Some order" and inv: "order_inv needs [] unmet order" by blast
  have so: "set order = {..<length nodes}" using order_complete [OF edges inv] len by simp
  have dist: "distinct order" and topo: "\<And>k. k < length order \<Longrightarrow> set (needs ! (order ! k)) \<subseteq> set (take k order)"
    using inv unfolding order_inv_def by blast+
  have later: "set (rows ! (rev order ! k)) \<subseteq> set (take k (rev order))" if k: "k < length order" for k
  proof
    fix i assume "i \<in> set (rows ! (rev order ! k))"
    moreover have at: "rev order ! k = order ! (length order - Suc k)" using k by (simp add: rev_nth)
    have xk: "rev order ! k < length needs" using k so len nth_mem [of k "rev order"] by simp
    ultimately have i: "i < length needs" "rev order ! k \<in> set (needs ! i)"
      using plan_edges_member [OF edges xk] by blast+
    then obtain j where j: "j < length order" "order ! j = i" using so len by (metis in_set_conv_nth lessThan_iff)
    have "order ! (length order - Suc k) \<in> set (take j order)" using topo [OF j(1)] i(2) j(2) at by auto
    then obtain l where "l < j" "order ! l = order ! (length order - Suc k)" using j(1) by (auto simp: in_set_conv_nth)
    then have "length order - Suc k < j" using dist j(1) k by (metis diff_less less_trans nth_eq_iff_index_eq zero_less_Suc less_nat_zero_code length_greater_0_conv list.size(3))
    then have "length order - Suc j < k" using j(1) k by linarith
    moreover have "rev order ! (length order - Suc j) = i" using j by (simp add: rev_nth)
    ultimately show "i \<in> set (take k (rev order))" using k by (metis in_set_conv_nth length_rev length_take min.absorb4 nth_take)
  qed
  let ?h = "fold (raise rows) (rev order) (map g_work nodes)"
  have h: "length ?h = length rows \<and>
    (\<forall>i \<in> {} \<union> set (rev order). ?h ! i = sat_add_u64 (map g_work nodes ! i) (heaviest ?h (rows ! i)))"
    by (rule raise_fold) (use lr dist so later in auto)
  let ?p = "\<lparr>p_names = map g_name nodes, p_needs = needs, p_dependants = rows, p_height = ?h\<rparr>"
  have "plan_of nodes = Some (Inr ?p :: 'p flow_error + plan)" using o by (simp add: plan_of_def r Let_def)
  moreover have "plan_ok nodes ?p" using len lr h edges by (simp add: plan_ok_def)
  moreover have "\<forall>i < length nodes. p_height ?p ! i = sat_add_u64 (g_work (nodes ! i)) (heaviest (p_height ?p) (p_dependants ?p ! i))"
    using h so by simp
  ultimately show ?thesis using spelled by (intro exI [of _ ?p]) simp
qed

lemma validate_accepts: "validate nodes = Inr () \<longleftrightarrow> runnable nodes"
  by (simp add: validate_def flip: refusal_reason_None split: option.split)

section \<open>Properties\<close>

text \<open>
  C11: validation accepts exactly the graphs that can run: between one and \<open>MAX_GRAPH_NODES\<close> nodes with
  distinct non-empty names, every need declared, no need written twice and no cycle of needs. Its
  sort always ends.
\<close>

theorem validate_accepts_runnable:
  "validate nodes = Inr () \<longleftrightarrow> runnable nodes"
  by (rule validate_accepts)

text \<open>
  C12: a validated graph has a plan: the sort by index returns, the plan's edges spell the needs as
  they were declared, and each node's height is its work plus the heaviest chain below it, saturating.
\<close>

theorem plan_of_validated:
  assumes "validate nodes = (Inr () :: 'p flow_error + unit)"
  shows "\<exists>p. plan_of nodes = (Some (Inr p) :: ('p flow_error + plan) option) \<and> p_names p = map g_name nodes \<and>
    (\<forall>i < length nodes. map (\<lambda>d. g_name (nodes ! d)) (p_needs p ! i) = g_needs (nodes ! i)) \<and>
    (\<forall>d < length nodes. \<forall>i. i \<in> set (p_dependants p ! d) \<longleftrightarrow> i < length nodes \<and> d \<in> set (p_needs p ! i)) \<and>
    (\<forall>i < length nodes. p_height p ! i = sat_add_u64 (g_work (nodes ! i)) (heaviest (p_height p) (p_dependants p ! i)))"
proof -
  from assms have "runnable nodes" by (simp add: validate_def flip: refusal_reason_None split: option.splits)
  from plan_of_runnable [OF this] obtain p where p: "plan_of nodes = (Some (Inr p) :: ('p flow_error + plan) option)" "plan_ok nodes p"
    "\<forall>i < length nodes. map (\<lambda>d. g_name (nodes ! d)) (p_needs p ! i) = g_needs (nodes ! i)"
    "\<forall>i < length nodes. p_height p ! i = sat_add_u64 (g_work (nodes ! i)) (heaviest (p_height p) (p_dependants p ! i))"
    by blast
  moreover have "\<forall>d < length nodes. \<forall>i. i \<in> set (p_dependants p ! d) \<longleftrightarrow> i < length nodes \<and> d \<in> set (p_needs p ! i)"
    using plan_edges_member [of "p_needs p" "p_dependants p"] p(2) by (simp add: plan_ok_def)
  ultimately show ?thesis by (intro exI [of _ p]) (simp add: plan_ok_def)
qed

definition two_nodes :: "graph_node list" where
  "two_nodes = [graph_node_new ''a'' [], graph_node_new ''b'' [''a'']]"

lemma two_nodes_runnable: "runnable two_nodes"
proof -
  have "\<forall>node \<in> set two_nodes. \<forall>d \<in> set (g_needs node). (\<lambda>n. if n = ''a'' then 0 else 1 :: nat) d < (\<lambda>n. if n = ''a'' then 0 else 1) (g_name node)"
    by (simp add: two_nodes_def graph_node_new_def)
  then have "\<exists>rank :: string \<Rightarrow> nat. \<forall>node \<in> set two_nodes. \<forall>d \<in> set (g_needs node). rank d < rank (g_name node)"
    by (rule exI [where x = "\<lambda>n. if n = ''a'' then 0 else 1"])
  then have "edges_runnable two_nodes"
    unfolding edges_runnable_def by (simp add: two_nodes_def graph_node_new_def)
  then show ?thesis by (simp add: runnable_def two_nodes_def graph_node_new_def max_graph_nodes_def)
qed

theorem plan_of_validated_witness:
  "\<exists>p. plan_of two_nodes = (Some (Inr p) :: (unit flow_error + plan) option) \<and> p_names p = [''a'', ''b'']"
proof -
  have "validate two_nodes = (Inr () :: unit flow_error + unit)"
    using two_nodes_runnable by (simp add: validate_def flip: refusal_reason_None)
  from plan_of_validated [OF this] show ?thesis by (auto simp: two_nodes_def graph_node_new_def)
qed

text \<open>
  A need written twice is counted twice and released once, so the sort reports a cycle where there is
  none; the plan itself would count the edge with its multiplicity.
\<close>

lemma duplicate_need_reported_as_cycle:
  "refusal_reason [graph_node_new ''a'' [], graph_node_new ''b'' [''a'', ''a'']] =
     Some ''the needs cycle through b: nothing can start it''"
  by (simp add: refusal_reason_def max_graph_nodes_def graph_node_new_def cycle_refusal_def kahn_loop.simps
      remove_key_def relax_def Let_def less_list_code less_eq_list_code)

end
