(* ===== verification/Slots.thy ===== *)
theory Slots
  imports Prelude
begin

text \<open>
  What the two fan-out drivers share (\<open>crates/lgwks-bot/src/script/each.rs\<close>, \<open>graph.rs\<close>): the wake
  queue of \<open>Wakes\<close>, on which a slot position waits at most once, and the table of slots with its
  free list.
\<close>

section \<open>The wake queue\<close>

text \<open>\<open>WakeState\<close> less the parent waker, which is the runtime's.\<close>

record wake_state =
  wk_ready :: "nat list"
  wk_queued :: "bool list"

definition wakes_new :: "nat \<Rightarrow> wake_state" where
  "wakes_new width = \<lparr>wk_ready = [], wk_queued = replicate width False\<rparr>"

definition enqueue :: "wake_state \<Rightarrow> nat \<Rightarrow> wake_state" where
  "enqueue state position =
     (if position < length (wk_queued state) \<and> \<not> wk_queued state ! position
      then \<lparr>wk_ready = wk_ready state @ [position], wk_queued = (wk_queued state)[position := True]\<rparr>
      else state)"

definition wakes_mark :: "wake_state \<Rightarrow> nat \<Rightarrow> wake_state" where
  "wakes_mark state position = enqueue state position"

fun clear_flags :: "nat list \<Rightarrow> bool list \<Rightarrow> bool list" where
  "clear_flags [] queued = queued"
| "clear_flags (position # ready) queued = clear_flags ready (queued[position := False])"

definition take_ready :: "wake_state \<Rightarrow> nat list \<times> wake_state" where
  "take_ready state =
     (wk_ready state, \<lparr>wk_ready = [], wk_queued = clear_flags (wk_ready state) (wk_queued state)\<rparr>)"

definition wakes_ok :: "wake_state \<Rightarrow> bool" where
  "wakes_ok state \<longleftrightarrow> distinct (wk_ready state) \<and>
     (\<forall>p. p \<in> set (wk_ready state) \<longleftrightarrow> p < length (wk_queued state) \<and> wk_queued state ! p)"

lemma clear_flags_length [simp]: "length (clear_flags ps q) = length q"
  by (induction ps q rule: clear_flags.induct) auto

lemma clear_flags_nth:
  "p < length q \<Longrightarrow> clear_flags ps q ! p \<longleftrightarrow> q ! p \<and> p \<notin> set ps"
proof (induction ps q rule: clear_flags.induct)
  case (2 position ready queued)
  then show ?case by (cases "p = position") auto
qed simp

lemma wakes_new_ok: "wakes_ok (wakes_new width)"
  by (auto simp: wakes_ok_def wakes_new_def)

lemma enqueue_ok: "wakes_ok state \<Longrightarrow> wakes_ok (enqueue state p)"
  by (auto simp: wakes_ok_def enqueue_def nth_list_update)

lemma enqueue_queued:
  "wakes_ok state \<Longrightarrow> p < length (wk_queued state) \<Longrightarrow> set (wk_ready (enqueue state p)) = insert p (set (wk_ready state))"
  by (auto simp: wakes_ok_def enqueue_def)

lemma enqueue_width [simp]: "length (wk_queued (enqueue state p)) = length (wk_queued state)"
  by (simp add: enqueue_def)

lemma take_ready_ok: "wakes_ok state \<Longrightarrow> wakes_ok (snd (take_ready state))"
  by (auto simp: wakes_ok_def take_ready_def clear_flags_nth)

text \<open>At most one entry per slot, so a queue never outgrows the table.\<close>

lemma wakes_bounded:
  assumes "wakes_ok state"
  shows "length (wk_ready state) \<le> length (wk_queued state)"
proof -
  have "set (wk_ready state) \<subseteq> {..<length (wk_queued state)}" using assms by (auto simp: wakes_ok_def)
  then have "card (set (wk_ready state)) \<le> length (wk_queued state)"
    using card_mono [of "{..<length (wk_queued state)}"] by fastforce
  then show ?thesis using assms by (simp add: wakes_ok_def distinct_card)
qed

section \<open>The slot table\<close>

definition slots_ok :: "'a option list \<Rightarrow> nat list \<Rightarrow> bool" where
  "slots_ok slots free \<longleftrightarrow> distinct free \<and> (\<forall>p. p \<in> set free \<longleftrightarrow> p < length slots \<and> slots ! p = None)"

definition slots_running :: "'a option list \<Rightarrow> nat list \<Rightarrow> nat" where
  "slots_running slots free = length slots - length free"

lemma slots_new_ok: "slots_ok (replicate width None) (rev [0..<width])"
  by (auto simp: slots_ok_def)

lemma slots_fill_ok:
  assumes "slots_ok slots (free @ [p])"
  shows "slots_ok (slots[p := Some x]) free"
proof -
  have d: "distinct free" "p \<notin> set free" using assms by (auto simp: slots_ok_def)
  have f: "q \<in> set free \<or> q = p \<longleftrightarrow> q < length slots \<and> slots ! q = None" for q
  proof -
    have "q \<in> set (free @ [p]) \<longleftrightarrow> q < length slots \<and> slots ! q = None"
      using assms unfolding slots_ok_def by (elim conjE) (erule spec)
    then show ?thesis by (simp add: disj_commute)
  qed
  have "q \<in> set free \<longleftrightarrow> q < length slots \<and> (slots[p := Some x]) ! q = None" for q
    using f [of q] d(2) by (cases "q = p") auto
  then show ?thesis using d(1) by (simp add: slots_ok_def)
qed

lemma slots_clear_ok:
  assumes "slots_ok slots free" and "p < length slots" and "slots ! p = Some x"
  shows "slots_ok (slots[p := None]) (free @ [p])"
proof -
  have d: "distinct free" using assms(1) unfolding slots_ok_def by (rule conjunct1)
  have f: "q \<in> set free \<longleftrightarrow> q < length slots \<and> slots ! q = None" for q
    using assms(1) unfolding slots_ok_def by (elim conjE) (erule spec)
  have "p \<notin> set free" using f [of p] assms(3) by simp
  moreover have "q \<in> set (free @ [p]) \<longleftrightarrow> q < length slots \<and> (slots[p := None]) ! q = None" for q
    using f [of q] assms(2) by (cases "q = p") auto
  ultimately show ?thesis using d by (simp add: slots_ok_def)
qed

lemma slots_free_card:
  assumes "slots_ok slots free"
  shows "length free = card {p. p < length slots \<and> slots ! p = None}"
proof -
  have "set free = {p. p < length slots \<and> slots ! p = None}" using assms by (auto simp: slots_ok_def)
  then show ?thesis using assms by (metis distinct_card slots_ok_def)
qed

lemma slots_running_card:
  assumes "slots_ok slots free"
  shows "slots_running slots free = card {p. p < length slots \<and> slots ! p \<noteq> None}"
proof -
  let ?N = "{p. p < length slots \<and> slots ! p = None}" and ?S = "{p. p < length slots \<and> slots ! p \<noteq> None}"
  have "?N \<union> ?S = {p. p < length slots}" by blast
  moreover have "card (?N \<union> ?S) = card ?N + card ?S" by (rule card_Un_disjoint) auto
  ultimately have "length slots = card ?N + card ?S" by simp
  then show ?thesis unfolding slots_running_def slots_free_card [OF assms] by linarith
qed

lemma slots_idle:
  assumes "slots_ok slots free" and "slots_running slots free = 0" and "p < length slots"
  shows "slots ! p = None"
proof -
  have "finite {p. p < length slots \<and> slots ! p \<noteq> None}" by simp
  then have "{p. p < length slots \<and> slots ! p \<noteq> None} = {}"
    using assms(2) unfolding slots_running_card [OF assms(1)] by simp
  then show ?thesis using assms(3) by auto
qed

lemma slots_free_length: "slots_ok slots free \<Longrightarrow> length free \<le> length slots"
proof -
  assume ok: "slots_ok slots free"
  then have "card (set free) \<le> card {..<length slots}" by (intro card_mono) (auto simp: slots_ok_def)
  then show ?thesis using ok by (simp add: slots_ok_def distinct_card)
qed

end
