(* ===== verification/Graph_Run.thy ===== *)
theory Graph_Run
  imports Graph_Plan Slots Control
begin

text \<open>
  \<open>crates/lgwks-bot/src/script/graph.rs\<close>, second half: the state of a running graph (\<open>Run\<close>), its
  operations, one pass of the driver \<open>run_graph\<close> polls, and the report. What a node's future answers
  when it is polled is an argument: \<open>None\<close> is pending, \<open>Some\<close> its outcome. The ready set, a
  \<open>BTreeSet<(Reverse<u64>, usize)>\<close>, is the list of its elements in order, tallest node first.
\<close>

section \<open>State\<close>

datatype ('t, 'p) node_outcome = Ran "'p flow_error + 't" | Blocked "string list"

record ('t, 'p) graph_report =
  gr_outcomes :: "(string \<times> ('t, 'p) node_outcome) list"
  gr_schedule :: "string list list"

definition report_outcome :: "('t, 'p) graph_report \<Rightarrow> string \<Rightarrow> ('t, 'p) node_outcome option" where
  "report_outcome rep name = map_of (gr_outcomes rep) name"

definition report_succeeded :: "('t, 'p) graph_report \<Rightarrow> string list" where
  "report_succeeded rep = map fst (filter (\<lambda>(_, out). case out of Ran (Inr _) \<Rightarrow> True | _ \<Rightarrow> False) (gr_outcomes rep))"

definition report_failed :: "('t, 'p) graph_report \<Rightarrow> string list" where
  "report_failed rep = map fst (filter (\<lambda>(_, out). case out of Ran (Inl _) \<Rightarrow> True | _ \<Rightarrow> False) (gr_outcomes rep))"

definition report_blocked :: "('t, 'p) graph_report \<Rightarrow> string list" where
  "report_blocked rep = map fst (filter (\<lambda>(_, out). case out of Blocked _ \<Rightarrow> True | _ \<Rightarrow> False) (gr_outcomes rep))"

definition report_is_ok :: "('t, 'p) graph_report \<Rightarrow> bool" where
  "report_is_ok rep = list_all (\<lambda>(_, out). case out of Ran (Inr _) \<Rightarrow> True | _ \<Rightarrow> False) (gr_outcomes rep)"

definition wave_count :: "('t, 'p) graph_report \<Rightarrow> nat" where
  "wave_count rep = length (gr_schedule rep)"

record ('t, 'p) run =
  r_plan :: plan
  r_nodes :: "graph_node option list"
  r_unmet :: "nat list"
  r_ready :: "(nat \<times> nat) list"
  r_outcomes :: "('t, 'p) node_outcome option list"
  r_slots :: "(nat \<times> scope) option list"
  r_free :: "nat list"
  r_schedule :: "string list list"

definition ready_before :: "nat \<times> nat \<Rightarrow> nat \<times> nat \<Rightarrow> bool" where
  "ready_before a b = (fst a > fst b \<or> fst a = fst b \<and> snd a < snd b)"

fun ready_insert :: "nat \<times> nat \<Rightarrow> (nat \<times> nat) list \<Rightarrow> (nat \<times> nat) list" where
  "ready_insert x [] = [x]"
| "ready_insert x (y # ys) =
     (if x = y then y # ys else if ready_before x y then x # y # ys else y # ready_insert x ys)"

definition run_new :: "plan \<Rightarrow> graph_node list \<Rightarrow> nat \<Rightarrow> ('t, 'p) run" where
  "run_new plan nodes width =
     (let unmet = map length (p_needs plan);
          zero = filter (\<lambda>at. unmet ! at = 0 \<and> at < length (p_height plan)) [0..<length unmet]
      in \<lparr>r_plan = plan, r_nodes = map Some nodes, r_unmet = unmet,
          r_ready = fold (\<lambda>at. ready_insert (p_height plan ! at, at)) zero [],
          r_outcomes = replicate (length nodes) None, r_slots = replicate width None,
          r_free = rev [0..<width], r_schedule = []\<rparr>)"

section \<open>Operations\<close>

definition is_open :: "('t, 'p) run \<Rightarrow> nat \<Rightarrow> bool" where
  "is_open run at =
     (at < length (r_outcomes run) \<and> r_outcomes run ! at = None \<and>
      at < length (r_nodes run) \<and> r_nodes run ! at \<noteq> None)"

definition record_outcome :: "nat \<Rightarrow> ('t, 'p) node_outcome \<Rightarrow> ('t, 'p) run \<Rightarrow> ('t, 'p) run" where
  "record_outcome at outcome run =
     (if at < length (r_outcomes run) then run\<lparr>r_outcomes := (r_outcomes run)[at := Some outcome]\<rparr> else run)"

definition stopped_by :: "('t, 'p) run \<Rightarrow> nat \<Rightarrow> bool" where
  "stopped_by run need =
     (need < length (r_outcomes run) \<and>
      (case r_outcomes run ! need of
         Some (Ran (Inl _)) \<Rightarrow> True | Some (Blocked _) \<Rightarrow> True | _ \<Rightarrow> False))"

definition blocked_by :: "('t, 'p) run \<Rightarrow> nat \<Rightarrow> string list" where
  "blocked_by run at =
     sort (map (\<lambda>need. p_names (r_plan run) ! need)
       (filter (\<lambda>need. need < length (p_names (r_plan run)))
         (filter (stopped_by run) (nth_or_empty (p_needs (r_plan run)) at))))"

definition close_node :: "nat \<Rightarrow> ('t, 'p) run \<Rightarrow> ('t, 'p) run" where
  "close_node at run =
     (let run = (if at < length (r_nodes run) then run\<lparr>r_nodes := (r_nodes run)[at := None]\<rparr> else run)
      in record_outcome at (Blocked (blocked_by run at)) run)"

definition open_count :: "('t, 'p) run \<Rightarrow> nat" where
  "open_count run = length (filter (is_open run) [0..<length (r_nodes run)])"

lemma is_open_close: "is_open (close_node at run) i \<longleftrightarrow> is_open run i \<and> i \<noteq> at"
  by (cases "i = at") (auto simp: is_open_def close_node_def record_outcome_def Let_def)

lemma r_nodes_close [simp]: "length (r_nodes (close_node at run)) = length (r_nodes run)"
  by (simp add: close_node_def record_outcome_def Let_def)

lemma open_count_close: "is_open run at \<Longrightarrow> open_count (close_node at run) < open_count run"
  unfolding open_count_def is_open_close [abs_def] r_nodes_close
proof -
  assume o: "is_open run at"
  then have "at \<in> set [0..<length (r_nodes run)]" by (simp add: is_open_def)
  moreover have "filter (\<lambda>i. is_open run i \<and> i \<noteq> at) [0..<length (r_nodes run)] =
      filter (\<lambda>i. i \<noteq> at) (filter (is_open run) [0..<length (r_nodes run)])" by (simp add: conj_commute)
  ultimately show "length (filter (\<lambda>i. is_open run i \<and> i \<noteq> at) [0..<length (r_nodes run)])
      < length (filter (is_open run) [0..<length (r_nodes run)])"
    using o length_filter_less [of at "filter (is_open run) [0..<length (r_nodes run)]" "\<lambda>i. i \<noteq> at"] by simp
qed

function block_loop :: "nat list \<Rightarrow> ('t, 'p) run \<Rightarrow> ('t, 'p) run" where
  "block_loop stack run =
     (if stack = [] then run
      else let at = last stack in
        if \<not> is_open run at then block_loop (butlast stack) run
        else block_loop (butlast stack @ nth_or_empty (p_dependants (r_plan run)) at) (close_node at run))"
  by pat_completeness auto
termination
  by (relation "measures [\<lambda>(stack, run). open_count run, \<lambda>(stack, run). length stack]")
    (auto simp: open_count_close)

declare block_loop.simps [simp del]

definition block :: "nat \<Rightarrow> ('t, 'p) run \<Rightarrow> ('t, 'p) run" where
  "block first run = block_loop [first] run"

definition release_node :: "nat \<Rightarrow> ('t, 'p) run \<Rightarrow> ('t, 'p) run" where
  "release_node next run =
     (let opened = is_open run next in
      if next < length (r_unmet run) then
        let count = r_unmet run ! next - 1;
            run = run\<lparr>r_unmet := (r_unmet run)[next := count]\<rparr>
        in if count = 0 \<and> opened \<and> next < length (p_height (r_plan run))
           then run\<lparr>r_ready := ready_insert (p_height (r_plan run) ! next, next) (r_ready run)\<rparr>
           else run
      else run)"

definition run_finish :: "nat \<Rightarrow> 'p flow_error + 't \<Rightarrow> ('t, 'p) run \<Rightarrow> ('t, 'p) run" where
  "run_finish index outcome run =
     (let succeeded = (case outcome of Inr _ \<Rightarrow> True | Inl _ \<Rightarrow> False);
          run = record_outcome index (Ran outcome) run;
          below = nth_or_empty (p_dependants (r_plan run)) index
      in fold (\<lambda>next. if \<not> succeeded then block next else release_node next) below run)"

definition locate_result :: "scope \<Rightarrow> 'p flow_error + 't \<Rightarrow> 'p flow_error + 't" where
  "locate_result sc outcome = (case outcome of Inl e \<Rightarrow> Inl (located_at (sc_path sc) e) | Inr v \<Rightarrow> Inr v)"

definition poll_slot :: "nat \<Rightarrow> ('p flow_error + 't) option \<Rightarrow> ('t, 'p) run \<Rightarrow> ('t, 'p) run" where
  "poll_slot position polled run =
     (if position < length (r_slots run) then
        (case r_slots run ! position of
           None \<Rightarrow> run
         | Some (index, sc) \<Rightarrow>
             (case polled of
                None \<Rightarrow> run
              | Some outcome \<Rightarrow>
                  run_finish index (locate_result sc outcome)
                    (run\<lparr>r_slots := (r_slots run)[position := None], r_free := r_free run @ [position]\<rparr>)))
      else run)"

text \<open>
  \<open>start\<close>: fill free slots with the tallest ready nodes. It stops at the first error, which ends the
  whole graph.
\<close>

function start_loop ::
  "bool \<Rightarrow> scope \<Rightarrow> string list \<Rightarrow> ('t, 'p) run \<Rightarrow> wake_state \<Rightarrow>
   'p flow_error option \<times> string list \<times> ('t, 'p) run \<times> wake_state" where
  "start_loop stopped here started run wakes =
     (if r_ready run = [] then (None, started, run, wakes)
      else if r_free run = [] then (None, started, run, wakes)
      else
        let position = last (r_free run);
            index = snd (hd (r_ready run));
            run = run\<lparr>r_free := butlast (r_free run), r_ready := tl (r_ready run)\<rparr>
        in case (if index < length (r_nodes run) then r_nodes run ! index else None) of
             None \<Rightarrow> (Some (graph_error ''a ready node had already started''), started, run, wakes)
           | Some node \<Rightarrow>
               let run = run\<lparr>r_nodes := (r_nodes run)[index := None]\<rparr>
               in case scope_enter stopped here (g_name node) of
                    Inl e \<Rightarrow> (Some e, started, run, wakes)
                  | Inr sc \<Rightarrow>
                      start_loop stopped here (started @ [g_name node])
                        (if position < length (r_slots run)
                         then run\<lparr>r_slots := (r_slots run)[position := Some (index, sc)]\<rparr> else run)
                        (wakes_mark wakes position))"
  by pat_completeness auto
termination
  by (relation "measure (\<lambda>(stopped, here, started, run, wakes). length (r_ready run))") (auto simp: Let_def)

declare start_loop.simps [simp del]

definition run_start ::
  "bool \<Rightarrow> scope \<Rightarrow> ('t, 'p) run \<Rightarrow> wake_state \<Rightarrow> 'p flow_error option \<times> ('t, 'p) run \<times> wake_state" where
  "run_start stopped here run wakes =
     (case start_loop stopped here [] run wakes of
        (Some e, _, run, wakes) \<Rightarrow> (Some e, run, wakes)
      | (None, started, run, wakes) \<Rightarrow>
          (None, if started = [] then run else run\<lparr>r_schedule := r_schedule run @ [started]\<rparr>, wakes))"

definition run_running :: "('t, 'p) run \<Rightarrow> nat" where
  "run_running run = slots_running (r_slots run) (r_free run)"

definition run_clear :: "('t, 'p) run \<Rightarrow> ('t, 'p) run" where
  "run_clear run = run\<lparr>r_slots := map (\<lambda>_. None) (r_slots run), r_ready := []\<rparr>"

fun collect_outcomes ::
  "string list \<Rightarrow> ('t, 'p) node_outcome option list \<Rightarrow> (string \<times> ('t, 'p) node_outcome) list \<Rightarrow>
   'p flow_error + (string \<times> ('t, 'p) node_outcome) list" where
  "collect_outcomes (name # names) (Some outcome # rest) done = collect_outcomes names rest (done @ [(name, outcome)])"
| "collect_outcomes (name # names) (None # rest) done = Inl (graph_error (name @ '' has no outcome''))"
| "collect_outcomes [] rest done = Inr done"
| "collect_outcomes names [] done = Inr done"

definition run_report :: "('t, 'p) run \<Rightarrow> 'p flow_error + ('t, 'p) graph_report" where
  "run_report run =
     rbind (collect_outcomes (p_names (r_plan run)) (r_outcomes run) []) (\<lambda>outcomes.
       Inr \<lparr>gr_outcomes = outcomes, gr_schedule = r_schedule run\<rparr>)"

section \<open>The driver\<close>

text \<open>
  One turn of the driver's loop: stop if the scope was cancelled, fill the slots, poll every slot
  that was woken, and when none was, report if nothing runs. The poll budget only decides when the
  driver yields to the executor: its next poll starts at the same place.
\<close>

datatype ('t, 'p) driverTurn =
    Finished "'p flow_error + ('t, 'p) graph_report"
  | Pending "('t, 'p) run \<times> wake_state"
  | Again "('t, 'p) run \<times> wake_state"

definition driver_turn ::
  "bool \<Rightarrow> scope \<Rightarrow> (nat \<Rightarrow> ('p flow_error + 't) option) \<Rightarrow> ('t, 'p) run \<times> wake_state \<Rightarrow> ('t, 'p) driverTurn" where
  "driver_turn stopped here polled s = (case s of (run, wakes) \<Rightarrow>
     if stopped then Finished (Inl (Cancelled (sc_path here)))
     else case run_start stopped here run wakes of
       (Some error, run, wakes) \<Rightarrow> Finished (Inl error)
     | (None, run, wakes) \<Rightarrow>
         (case take_ready wakes of (ready, wakes) \<Rightarrow>
            if ready = [] then (if run_running run = 0 then Finished (run_report run) else Pending (run, wakes))
            else Again (fold (\<lambda>position. poll_slot position (polled position)) ready run, wakes)))"

definition graph_width :: "nat \<Rightarrow> nat \<Rightarrow> nat" where
  "graph_width declared count = max (min (min declared max_in_flight) count) 1"

text \<open>\<open>run_graph\<close> before its first poll; \<open>None\<close> if the plan's sort did not end.\<close>

definition graph_begin ::
  "bool \<Rightarrow> scope \<Rightarrow> string \<Rightarrow> nat \<Rightarrow> graph_node list \<Rightarrow>
   ('p flow_error + scope \<times> ('t, 'p) run \<times> wake_state) option" where
  "graph_begin stopped sc step declared nodes =
     (case validate nodes of
        Inl e \<Rightarrow> Some (Inl e)
      | Inr _ \<Rightarrow>
          (case plan_of nodes of
             None \<Rightarrow> None
           | Some (Inl e) \<Rightarrow> Some (Inl e)
           | Some (Inr plan) \<Rightarrow>
               (case scope_enter stopped sc step of
                  Inl e \<Rightarrow> Some (Inl e)
                | Inr here \<Rightarrow>
                    let width = graph_width declared (length nodes)
                    in Some (Inr (here, run_new plan nodes width, wakes_new width)))))"

section \<open>The invariant of a run\<close>

definition ok_node :: "('t, 'p) run \<Rightarrow> nat \<Rightarrow> bool" where
  "ok_node run d \<longleftrightarrow> (case r_outcomes run ! d of Some (Ran (Inr _)) \<Rightarrow> True | _ \<Rightarrow> False)"

definition is_blocked :: "('t, 'p) run \<Rightarrow> nat \<Rightarrow> bool" where
  "is_blocked run i \<longleftrightarrow> (case r_outcomes run ! i of Some (Blocked _) \<Rightarrow> True | _ \<Rightarrow> False)"

text \<open>A node runs exactly when its body was taken, it has no outcome, and one slot holds it.\<close>

definition inv_slots :: "('t, 'p) run \<Rightarrow> bool" where
  "inv_slots run \<longleftrightarrow> slots_ok (r_slots run) (r_free run) \<and>
     (\<forall>q i sc. q < length (r_slots run) \<longrightarrow> r_slots run ! q = Some (i, sc) \<longrightarrow>
        i < length (r_nodes run) \<and> r_nodes run ! i = None \<and> r_outcomes run ! i = None) \<and>
     (\<forall>q q' i sc sc'. q < length (r_slots run) \<longrightarrow> q' < length (r_slots run) \<longrightarrow>
        r_slots run ! q = Some (i, sc) \<longrightarrow> r_slots run ! q' = Some (i, sc') \<longrightarrow> q = q') \<and>
     (\<forall>i < length (r_nodes run). r_nodes run ! i = None \<longrightarrow> r_outcomes run ! i = None \<longrightarrow>
        (\<exists>q < length (r_slots run). \<exists>sc. r_slots run ! q = Some (i, sc)))"

definition inv_taken :: "nat list list \<Rightarrow> ('t, 'p) run \<Rightarrow> bool" where
  "inv_taken needs run \<longleftrightarrow>
     (\<forall>i < length needs. r_outcomes run ! i \<noteq> None \<longrightarrow> r_nodes run ! i = None) \<and>
     (\<forall>i < length needs. r_nodes run ! i = None \<longrightarrow> \<not> is_blocked run i \<longrightarrow> (\<forall>d \<in> set (needs ! i). ok_node run d))"

text \<open>\<open>below\<close>: the dependants a finished node has still to release.\<close>

definition inv_unmet :: "nat list list \<Rightarrow> nat list \<Rightarrow> ('t, 'p) run \<Rightarrow> bool" where
  "inv_unmet needs below run \<longleftrightarrow> (\<forall>i < length needs.
     r_unmet run ! i = length (filter (\<lambda>d. \<not> ok_node run d) (needs ! i)) + count_list below i)"

definition inv_ready :: "('t, 'p) run \<Rightarrow> bool" where
  "inv_ready run \<longleftrightarrow> sorted_wrt ready_before (r_ready run) \<and>
     set (r_ready run) = {(p_height (r_plan run) ! i, i) | i. i < length (r_nodes run) \<and> is_open run i \<and> r_unmet run ! i = 0}"

text \<open>\<open>exempt d i\<close>: the failure of \<open>d\<close> has still to reach \<open>i\<close>.\<close>

definition inv_blocked :: "nat list list \<Rightarrow> (nat \<Rightarrow> nat \<Rightarrow> bool) \<Rightarrow> ('t, 'p) run \<Rightarrow> bool" where
  "inv_blocked needs exempt run \<longleftrightarrow>
     (\<forall>i < length needs. \<forall>d \<in> set (needs ! i). stopped_by run d \<longrightarrow> is_blocked run i \<or> exempt d i) \<and>
     (\<forall>i < length needs. \<forall>by. r_outcomes run ! i = Some (Blocked by) \<longrightarrow>
        by \<noteq> [] \<and> (\<forall>name \<in> set by. \<exists>d \<in> set (needs ! i). stopped_by run d \<and> name = p_names (r_plan run) ! d))"

definition inv_shape :: "plan \<Rightarrow> nat \<Rightarrow> ('t, 'p) run \<Rightarrow> bool" where
  "inv_shape p width run \<longleftrightarrow> r_plan run = p \<and> length (r_nodes run) = length (p_needs p) \<and>
     length (r_unmet run) = length (p_needs p) \<and> length (r_outcomes run) = length (p_needs p) \<and>
     length (r_slots run) = width"

definition run_inv :: "plan \<Rightarrow> nat \<Rightarrow> nat list \<Rightarrow> (nat \<Rightarrow> nat \<Rightarrow> bool) \<Rightarrow> ('t, 'p) run \<Rightarrow> bool" where
  "run_inv p width below exempt run \<longleftrightarrow> inv_shape p width run \<and> inv_slots run \<and> inv_taken (p_needs p) run \<and>
     inv_unmet (p_needs p) below run \<and> inv_ready run \<and> inv_blocked (p_needs p) exempt run"

definition plan_sound :: "plan \<Rightarrow> bool" where
  "plan_sound p \<longleftrightarrow> plan_edges (p_needs p) (p_dependants p) \<and> length (p_names p) = length (p_needs p) \<and>
     length (p_height p) = length (p_needs p)"

lemma plan_ok_sound: "plan_ok nodes p \<Longrightarrow> plan_sound p"
  by (simp add: plan_ok_def plan_sound_def)

lemma stopped_not_ok: "stopped_by run d \<Longrightarrow> \<not> ok_node run d"
  by (auto simp: stopped_by_def ok_node_def split: option.splits node_outcome.splits sum.splits)

lemma ready_before_asym: "ready_before a b \<Longrightarrow> \<not> ready_before b a"
  by (auto simp: ready_before_def)

lemma ready_before_trans: "ready_before a b \<Longrightarrow> ready_before b c \<Longrightarrow> ready_before a c"
  by (auto simp: ready_before_def)

lemma ready_before_total: "a \<noteq> b \<Longrightarrow> ready_before a b \<or> ready_before b a"
  by (cases a; cases b) (auto simp: ready_before_def)

lemma ready_insert_set [simp]: "set (ready_insert x ys) = insert x (set ys)"
  by (induction ys) auto

lemma ready_insert_sorted: "sorted_wrt ready_before ys \<Longrightarrow> sorted_wrt ready_before (ready_insert x ys)"
proof (induction ys)
  case (Cons y ys)
  then show ?case using ready_before_total [of x y] by (auto intro: ready_before_trans)
qed simp

lemma ready_sorted_hd: "sorted_wrt ready_before (x # xs) \<Longrightarrow> x \<notin> set xs"
  using ready_before_asym by fastforce

subsection \<open>Closing a blocked node\<close>

lemma close_node_fields [simp]:
  "r_plan (close_node at run) = r_plan run" "r_unmet (close_node at run) = r_unmet run"
  "r_ready (close_node at run) = r_ready run" "r_slots (close_node at run) = r_slots run"
  "r_free (close_node at run) = r_free run" "r_schedule (close_node at run) = r_schedule run"
  "length (r_outcomes (close_node at run)) = length (r_outcomes run)"
  by (simp_all add: close_node_def record_outcome_def Let_def)

lemma close_node_lists:
  assumes "is_open run at"
  shows "r_nodes (close_node at run) = (r_nodes run)[at := None]"
    and "r_outcomes (close_node at run) = (r_outcomes run)[at := Some (Blocked (blocked_by run at))]"
proof -
  have "blocked_by (run\<lparr>r_nodes := ns\<rparr>) at = blocked_by run at" for ns
    by (simp add: blocked_by_def stopped_by_def [abs_def])
  then show "r_nodes (close_node at run) = (r_nodes run)[at := None]"
    and "r_outcomes (close_node at run) = (r_outcomes run)[at := Some (Blocked (blocked_by run at))]"
    using assms by (simp_all add: close_node_def record_outcome_def Let_def is_open_def)
qed

lemma close_node_status:
  assumes "is_open run at"
  shows "ok_node (close_node at run) d \<longleftrightarrow> ok_node run d"
    and "stopped_by (close_node at run) d \<longleftrightarrow> stopped_by run d \<or> d = at"
    and "is_blocked (close_node at run) d \<longleftrightarrow> is_blocked run d \<or> d = at"
  using assms unfolding ok_node_def stopped_by_def is_blocked_def close_node_lists(2) [OF assms]
  by (cases "d = at"; simp add: is_open_def)+

lemma close_node_inv:
  assumes plan: "plan_sound p" and inv: "run_inv p width below exempt run"
    and open_at: "is_open run at" and d: "d \<in> set (p_needs p ! at)" "stopped_by run d"
    and cover: "\<And>i. i < length (p_needs p) \<Longrightarrow> at \<in> set (p_needs p ! i) \<Longrightarrow> exempt' at i"
    and keep: "\<And>e i. e \<noteq> at \<Longrightarrow> i < length (p_needs p) \<Longrightarrow> i \<noteq> at \<Longrightarrow> exempt e i \<Longrightarrow> exempt' e i"
  shows "run_inv p width below exempt' (close_node at run)"
proof -
  have shape: "inv_shape p width run" and slots: "inv_slots run" and taken: "inv_taken (p_needs p) run"
    and unmet: "inv_unmet (p_needs p) below run" and ready: "inv_ready run" and blocked: "inv_blocked (p_needs p) exempt run"
    using inv by (simp_all add: run_inv_def)
  note lists = close_node_lists [OF open_at] and status = close_node_status [OF open_at]
  have at: "at < length (p_needs p)" "r_outcomes run ! at = None" "r_nodes run ! at \<noteq> None"
    "length (r_nodes run) = length (p_needs p)" "length (r_outcomes run) = length (p_needs p)"
    using open_at shape by (auto simp: is_open_def inv_shape_def)
  have "inv_shape p width (close_node at run)" using shape by (simp add: inv_shape_def)
  moreover have "inv_slots (close_node at run)"
    unfolding inv_slots_def close_node_fields lists length_list_update
  proof (intro conjI allI impI)
    show "slots_ok (r_slots run) (r_free run)" using slots by (simp add: inv_slots_def)
  next
    fix q i sc assume q: "q < length (r_slots run)" "r_slots run ! q = Some (i, sc)"
    then have "i < length (r_nodes run) \<and> r_nodes run ! i = None \<and> r_outcomes run ! i = None"
      using slots unfolding inv_slots_def by blast
    moreover from this have "i \<noteq> at" using at(3) by auto
    ultimately show "i < length (r_nodes run)" "(r_nodes run)[at := None] ! i = None"
      "(r_outcomes run)[at := Some (Blocked (blocked_by run at))] ! i = None" by simp_all
  next
    fix q q' i sc sc'
    assume "q < length (r_slots run)" "q' < length (r_slots run)" "r_slots run ! q = Some (i, sc)" "r_slots run ! q' = Some (i, sc')"
    then show "q = q'" using slots unfolding inv_slots_def by blast
  next
    fix i assume i: "i < length (r_nodes run)" "(r_nodes run)[at := None] ! i = None"
      "(r_outcomes run)[at := Some (Blocked (blocked_by run at))] ! i = None"
    have "i \<noteq> at" using i(3) at by auto
    then show "\<exists>q < length (r_slots run). \<exists>sc. r_slots run ! q = Some (i, sc)"
      using i slots unfolding inv_slots_def by simp
  qed
  moreover have "inv_taken (p_needs p) (close_node at run)"
    unfolding inv_taken_def status lists
  proof (intro conjI allI impI)
    fix i assume "i < length (p_needs p)" "(r_outcomes run)[at := Some (Blocked (blocked_by run at))] ! i \<noteq> None"
    then show "(r_nodes run)[at := None] ! i = None"
      using taken at(4) unfolding inv_taken_def by (cases "i = at") simp_all
  next
    fix i assume "i < length (p_needs p)" "(r_nodes run)[at := None] ! i = None" "\<not> (is_blocked run i \<or> i = at)"
    then show "\<forall>d \<in> set (p_needs p ! i). ok_node run d" using taken unfolding inv_taken_def by simp
  qed
  moreover have "inv_unmet (p_needs p) below (close_node at run)"
    using unmet by (simp add: inv_unmet_def status)
  moreover have "inv_ready (close_node at run)"
  proof -
    have "filter (\<lambda>d. \<not> ok_node run d) (p_needs p ! at) \<noteq> []"
      using d stopped_not_ok by (auto simp: filter_empty_conv)
    then have "r_unmet run ! at \<noteq> 0" using unmet at(1) unfolding inv_unmet_def by simp
    then have e: "is_open (close_node at run) i \<and> r_unmet run ! i = 0 \<longleftrightarrow> is_open run i \<and> r_unmet run ! i = 0" for i
      unfolding is_open_close by blast
    show ?thesis using ready unfolding inv_ready_def close_node_fields r_nodes_close e .
  qed
  moreover have "inv_blocked (p_needs p) exempt' (close_node at run)"
    unfolding inv_blocked_def status lists close_node_fields
  proof (intro conjI allI impI ballI)
    fix i e assume e: "i < length (p_needs p)" "e \<in> set (p_needs p ! i)" "stopped_by run e \<or> e = at"
    show "(is_blocked run i \<or> i = at) \<or> exempt' e i"
    proof (cases "e = at \<or> i = at")
      case True
      then show ?thesis using e cover by auto
    next
      case False
      then have "is_blocked run i \<or> exempt e i" using e blocked unfolding inv_blocked_def by simp
      then show ?thesis using False e(1) keep by blast
    qed
  next
    fix i bs assume i: "i < length (p_needs p)" "(r_outcomes run)[at := Some (Blocked (blocked_by run at))] ! i = Some (Blocked bs)"
    have sb: "d \<in> set (filter (stopped_by run) (nth_or_empty (p_needs (r_plan run)) at))"
      using d at shape by (simp add: nth_or_empty_def inv_shape_def)
    have dn: "d < length (p_names (r_plan run))"
      using plan at(1) d(1) shape unfolding plan_sound_def plan_edges_def inv_shape_def by metis
    show "bs \<noteq> []"
    proof (cases "i = at")
      case True
      then have "set bs = set (blocked_by run at)" using i at by simp
      moreover have "p_names (r_plan run) ! d \<in> set (blocked_by run at)" using sb dn by (auto simp: blocked_by_def)
      ultimately show ?thesis by auto
    next
      case False
      then show ?thesis using i blocked unfolding inv_blocked_def by simp
    qed
    fix name assume n: "name \<in> set bs"
    show "\<exists>e \<in> set (p_needs p ! i). (stopped_by run e \<or> e = at) \<and> name = p_names (r_plan run) ! e"
    proof (cases "i = at")
      case True
      then have "name \<in> set (blocked_by run at)" using i at n by simp
      then show ?thesis using True at shape by (auto simp: blocked_by_def nth_or_empty_def inv_shape_def)
    next
      case False
      then have "r_outcomes run ! i = Some (Blocked bs)" using i by simp
      then show ?thesis using blocked i(1) n unfolding inv_blocked_def by blast
    qed
  qed
  ultimately show ?thesis by (simp add: run_inv_def)
qed

text \<open>What blocking leaves alone, and that outcomes only accumulate.\<close>

definition run_frame :: "('t, 'p) run \<Rightarrow> ('t, 'p) run \<Rightarrow> bool" where
  "run_frame run run' \<longleftrightarrow> r_plan run' = r_plan run \<and> r_slots run' = r_slots run \<and> r_free run' = r_free run \<and>
     r_schedule run' = r_schedule run \<and> (\<forall>d. stopped_by run d \<longrightarrow> stopped_by run' d)"

lemma run_frame_refl [simp]: "run_frame run run"
  by (simp add: run_frame_def)

lemma run_frame_trans: "run_frame a b \<Longrightarrow> run_frame b c \<Longrightarrow> run_frame a c"
  by (simp add: run_frame_def)

lemma closed_is_blocked:
  assumes "run_inv p width below exempt run" and "at < length (p_needs p)"
    and "d \<in> set (p_needs p ! at)" and "stopped_by run d" and "\<not> is_open run at"
  shows "is_blocked run at"
proof (rule ccontr)
  assume n: "\<not> is_blocked run at"
  have shape: "inv_shape p width run" and taken: "inv_taken (p_needs p) run"
    using assms(1) by (simp_all add: run_inv_def)
  have "r_nodes run ! at = None"
    using assms(2,5) shape taken by (auto simp: is_open_def inv_shape_def inv_taken_def)
  with taken n assms(2,3) have "ok_node run d" by (simp add: inv_taken_def)
  with stopped_not_ok [OF assms(4)] show False by simp
qed

lemma block_loop_inv:
  assumes "plan_sound p" and "run_inv p width below (\<lambda>d i. i \<in> set stack \<or> exempt d i) run"
    and "\<forall>at \<in> set stack. at < length (p_needs p) \<and> (\<exists>d \<in> set (p_needs p ! at). stopped_by run d)"
  shows "run_inv p width below exempt (block_loop stack run) \<and> run_frame run (block_loop stack run)"
  using assms(2,3)
proof (induction stack run rule: block_loop.induct)
  case (1 stack run)
  note edges = assms(1) [unfolded plan_sound_def]
  show ?case
  proof (cases "stack = []")
    case True
    then show ?thesis using "1.prems" by (simp add: block_loop.simps [of "[]" run])
  next
    case ne: False
    let ?at = "last stack"
    have split: "set stack = insert ?at (set (butlast stack))"
      using ne by (cases stack rule: rev_cases) auto
    from "1.prems"(2) obtain d where at: "?at < length (p_needs p)" and d: "d \<in> set (p_needs p ! ?at)" "stopped_by run d"
      unfolding split by auto
    show ?thesis
    proof (cases "is_open run ?at")
      case False
      have "is_blocked run ?at" by (rule closed_is_blocked [OF "1.prems"(1) at d False])
      then have "run_inv p width below (\<lambda>d i. i \<in> set (butlast stack) \<or> exempt d i) run"
        using "1.prems"(1) unfolding run_inv_def inv_blocked_def split by blast
      moreover have "\<forall>at \<in> set (butlast stack). at < length (p_needs p) \<and> (\<exists>d \<in> set (p_needs p ! at). stopped_by run d)"
        using "1.prems"(2) by (auto dest: in_set_butlastD)
      ultimately show ?thesis
        using "1.IH"(1) [OF ne refl False] False ne by (simp add: block_loop.simps [of stack run] Let_def)
    next
      case True
      let ?run = "close_node ?at run" and ?rows = "nth_or_empty (p_dependants (r_plan run)) ?at"
      have rp: "r_plan run = p" using "1.prems"(1) by (simp add: run_inv_def inv_shape_def)
      have rows: "i \<in> set ?rows \<longleftrightarrow> i < length (p_needs p) \<and> ?at \<in> set (p_needs p ! i)" for i
        using plan_edges_member [OF conjunct1 [OF edges] at, of i] edges at
        by (simp add: rp nth_or_empty_def plan_edges_def)
      have "run_inv p width below (\<lambda>d i. i \<in> set (butlast stack @ ?rows) \<or> exempt d i) ?run"
        by (rule close_node_inv [OF assms(1) "1.prems"(1) True d]) (use rows split in auto)
      moreover have "\<forall>i \<in> set (butlast stack @ ?rows). i < length (p_needs p) \<and> (\<exists>d \<in> set (p_needs p ! i). stopped_by ?run d)"
        using "1.prems"(2) rows by (auto simp: close_node_status [OF True] dest!: in_set_butlastD)
      moreover have "run_frame run ?run" by (simp add: run_frame_def close_node_status [OF True])
      ultimately show ?thesis
        using "1.IH"(2) [OF ne refl] True ne run_frame_trans [of run ?run]
        by (simp add: block_loop.simps [of stack run] Let_def)
    qed
  qed
qed

lemma block_inv:
  assumes "plan_sound p" and "run_inv p width below (\<lambda>d i. i = nxt \<or> exempt d i) run"
    and "nxt < length (p_needs p)" and "d \<in> set (p_needs p ! nxt)" and "stopped_by run d"
  shows "run_inv p width below exempt (block nxt run) \<and> run_frame run (block nxt run)"
  unfolding block_def by (rule block_loop_inv [OF assms(1)]) (use assms in auto)

lemma block_fold_inv:
  assumes "plan_sound p" and "run_inv p width below (\<lambda>d i. d = index \<and> i \<in> set rest) run"
    and "\<forall>i \<in> set rest. i < length (p_needs p) \<and> index \<in> set (p_needs p ! i)" and "stopped_by run index"
  shows "run_inv p width below (\<lambda>_ _. False) (fold block rest run) \<and> run_frame run (fold block rest run)"
  using assms(2-)
proof (induction rest arbitrary: run)
  case (Cons nxt rest)
  have "run_inv p width below (\<lambda>d i. i = nxt \<or> d = index \<and> i \<in> set rest) run"
    using Cons.prems(1) unfolding run_inv_def inv_blocked_def by auto
  from block_inv [OF assms(1) this, of index] Cons.prems(2,3)
  have b: "run_inv p width below (\<lambda>d i. d = index \<and> i \<in> set rest) (block nxt run)" "run_frame run (block nxt run)" by auto
  from Cons.IH [OF b(1)] Cons.prems(2,3) b(2) run_frame_trans [OF b(2)] show ?case
    by (auto simp: run_frame_def)
qed simp

subsection \<open>Releasing the dependants of a node that succeeded\<close>

lemma count_list_Cons_split: "count_list (x # xs) i = count_list xs i + (if i = x then 1 else 0)"
  by simp

lemma release_node_inv:
  assumes plan: "plan_sound p" and inv: "run_inv p width (nxt # rest) exempt run" and nxt: "nxt < length (p_needs p)"
  shows "run_inv p width rest exempt (release_node nxt run) \<and> run_frame run (release_node nxt run)"
proof -
  have shape: "inv_shape p width run" and slots: "inv_slots run" and taken: "inv_taken (p_needs p) run"
    and unmet: "inv_unmet (p_needs p) (nxt # rest) run" and ready: "inv_ready run" and blocked: "inv_blocked (p_needs p) exempt run"
    using inv by (simp_all add: run_inv_def)
  let ?run = "release_node nxt run" and ?u = "(r_unmet run)[nxt := r_unmet run ! nxt - 1]"
  have len: "length (r_unmet run) = length (p_needs p)" "r_plan run = p" "length (r_nodes run) = length (p_needs p)"
    using shape by (simp_all add: inv_shape_def)
  have ht: "nxt < length (p_height (r_plan run))" using plan len nxt by (simp add: plan_sound_def)
  have fields: "r_plan ?run = r_plan run" "r_nodes ?run = r_nodes run" "r_outcomes ?run = r_outcomes run"
    "r_slots ?run = r_slots run" "r_free ?run = r_free run" "r_schedule ?run = r_schedule run" "r_unmet ?run = ?u"
    using nxt len by (simp_all add: release_node_def Let_def)
  have rdy: "r_ready ?run = (if r_unmet run ! nxt - 1 = 0 \<and> is_open run nxt
      then ready_insert (p_height (r_plan run) ! nxt, nxt) (r_ready run) else r_ready run)"
    using nxt len ht by (simp add: release_node_def Let_def)
  have same: "ok_node ?run = ok_node run" "stopped_by ?run = stopped_by run" "is_blocked ?run = is_blocked run" "is_open ?run = is_open run"
    unfolding fun_eq_iff ok_node_def stopped_by_def is_blocked_def is_open_def fields by simp_all
  have pos: "0 < r_unmet run ! nxt" using unmet nxt by (simp add: inv_unmet_def)
  have u: "?u ! i = r_unmet run ! i - (if i = nxt then 1 else 0)" for i
    using nxt len by (cases "i = nxt") simp_all
  have "inv_shape p width ?run" using shape by (simp add: inv_shape_def fields)
  moreover have "inv_slots ?run" using slots unfolding inv_slots_def fields .
  moreover have "inv_taken (p_needs p) ?run" using taken unfolding inv_taken_def fields same .
  moreover have "inv_unmet (p_needs p) rest ?run"
    using unmet unfolding inv_unmet_def fields same u count_list_Cons_split by simp
  moreover have "inv_ready ?run"
  proof -
    have "sorted_wrt ready_before (r_ready ?run)" unfolding rdy using ready ready_insert_sorted by (simp add: inv_ready_def)
    moreover have "set (r_ready ?run) = {(p_height (r_plan run) ! i, i) | i. i < length (r_nodes run) \<and> is_open run i \<and> ?u ! i = 0}"
      (is "_ = ?R")
    proof (intro set_eqI)
      fix x
      have "x \<in> set (r_ready run) \<longleftrightarrow> (\<exists>i. x = (p_height (r_plan run) ! i, i) \<and> i < length (r_nodes run) \<and> is_open run i \<and> r_unmet run ! i = 0)"
        using ready by (auto simp: inv_ready_def)
      then show "x \<in> set (r_ready ?run) \<longleftrightarrow> x \<in> ?R"
        using pos nxt len unfolding rdy u by auto
    qed
    ultimately show ?thesis unfolding inv_ready_def fields same by blast
  qed
  moreover have "inv_blocked (p_needs p) exempt ?run" using blocked unfolding inv_blocked_def fields same .
  ultimately show ?thesis by (simp add: run_inv_def run_frame_def fields same)
qed

lemma release_fold_inv:
  assumes "plan_sound p" and "run_inv p width rest exempt run" and "\<forall>i \<in> set rest. i < length (p_needs p)"
  shows "run_inv p width [] exempt (fold release_node rest run) \<and> run_frame run (fold release_node rest run)"
  using assms(2,3)
proof (induction rest arbitrary: run)
  case (Cons nxt rest)
  from release_node_inv [OF assms(1) Cons.prems(1)] Cons.prems(2)
  have r: "run_inv p width rest exempt (release_node nxt run)" "run_frame run (release_node nxt run)" by auto
  from Cons.IH [OF r(1)] Cons.prems(2) run_frame_trans [OF r(2)] show ?case by auto
qed simp

subsection \<open>A node finishes\<close>

lemma filter_done:
  assumes "\<And>d. ok' d \<longleftrightarrow> ok d \<or> d = x" and "\<not> ok x"
  shows "length (filter (\<lambda>d. \<not> ok d) ds) = length (filter (\<lambda>d. \<not> ok' d) ds) + count_list ds x"
  using assms by (induction ds) auto

lemma poll_slot_inv:
  fixes run :: "('t, 'p) run"
  assumes plan: "plan_sound p" and inv: "run_inv p width [] (\<lambda>_ _. False) run"
  shows "run_inv p width [] (\<lambda>_ _. False) (poll_slot position polled run)"
proof (cases "position < length (r_slots run) \<and> r_slots run ! position \<noteq> None \<and> polled \<noteq> None")
  case False
  then show ?thesis using inv by (auto simp: poll_slot_def split: option.splits)
next
  case True
  then obtain index sc outcome0 where at: "position < length (r_slots run)" "r_slots run ! position = Some (index, sc)"
    and polled: "polled = Some outcome0" by auto
  define outcome where "outcome = locate_result sc outcome0"
  define good where "good \<longleftrightarrow> (case outcome of Inr _ \<Rightarrow> True | Inl _ \<Rightarrow> False)"
  define run1 :: "('t, 'p) run" where "run1 = run\<lparr>r_slots := (r_slots run)[position := None], r_free := r_free run @ [position],
    r_outcomes := (r_outcomes run)[index := Some (Ran outcome)]\<rparr>"
  have shape: "inv_shape p width run" and slots: "inv_slots run" and taken: "inv_taken (p_needs p) run"
    and unmet: "inv_unmet (p_needs p) [] run" and ready: "inv_ready run" and blocked: "inv_blocked (p_needs p) (\<lambda>_ _. False) run"
    using inv by (simp_all add: run_inv_def)
  have len: "length (r_nodes run) = length (p_needs p)" "length (r_outcomes run) = length (p_needs p)" "r_plan run = p"
    using shape by (simp_all add: inv_shape_def)
  have ix: "index < length (p_needs p)" "r_nodes run ! index = None" "r_outcomes run ! index = None"
    using slots at len unfolding inv_slots_def by auto
  let ?rows = "nth_or_empty (p_dependants p) index"
  have edges: "plan_edges (p_needs p) (p_dependants p)" using plan by (simp add: plan_sound_def)
  have rows: "?rows = p_dependants p ! index" using ix(1) edges by (simp add: nth_or_empty_def plan_edges_def)
  have fields: "r_plan run1 = p" "r_nodes run1 = r_nodes run" "r_unmet run1 = r_unmet run" "r_ready run1 = r_ready run"
    "r_outcomes run1 = (r_outcomes run)[index := Some (Ran outcome)]"
    "r_slots run1 = (r_slots run)[position := None]" "r_free run1 = r_free run @ [position]"
    by (simp_all add: run1_def len)
  have ok: "ok_node run1 d \<longleftrightarrow> ok_node run d \<or> good \<and> d = index" and was: "\<not> ok_node run index"
    and bad: "stopped_by run1 d \<longleftrightarrow> stopped_by run d \<or> \<not> good \<and> d = index"
    and blk: "is_blocked run1 d \<longleftrightarrow> is_blocked run d" and opn: "is_open run1 d \<longleftrightarrow> is_open run d" for d
    using ix len by (cases "d = index"; auto simp: ok_node_def stopped_by_def is_blocked_def is_open_def fields good_def
        split: sum.splits)+
  have "inv_shape p width run1" using shape by (simp add: inv_shape_def fields)
  moreover have "inv_slots run1"
    unfolding inv_slots_def fields length_list_update
  proof (intro conjI allI impI)
    show "slots_ok ((r_slots run)[position := None]) (r_free run @ [position])"
      using slots_clear_ok [OF _ at] slots by (simp add: inv_slots_def)
  next
    fix q i sc' assume q: "q < length (r_slots run)" "(r_slots run)[position := None] ! q = Some (i, sc')"
    then have q': "q \<noteq> position" "r_slots run ! q = Some (i, sc')" using at by (auto simp: nth_list_update split: if_splits)
    have "i \<noteq> index"
    proof
      assume "i = index"
      then have "q = position" using slots at q(1) q'(2) unfolding inv_slots_def by blast
      with q'(1) show False by simp
    qed
    moreover have "i < length (r_nodes run) \<and> r_nodes run ! i = None \<and> r_outcomes run ! i = None"
      using slots q(1) q'(2) unfolding inv_slots_def by blast
    ultimately show "i < length (r_nodes run)" "r_nodes run ! i = None" "(r_outcomes run)[index := Some (Ran outcome)] ! i = None"
      by simp_all
  next
    fix q q' i sc' sc''
    assume q: "q < length (r_slots run)" "q' < length (r_slots run)"
      "(r_slots run)[position := None] ! q = Some (i, sc')" "(r_slots run)[position := None] ! q' = Some (i, sc'')"
    then have "r_slots run ! q = Some (i, sc')" "r_slots run ! q' = Some (i, sc'')"
      using at by (auto simp: nth_list_update split: if_splits)
    with q(1,2) show "q = q'" using slots unfolding inv_slots_def by blast
  next
    fix i assume i: "i < length (r_nodes run)" "r_nodes run ! i = None" "(r_outcomes run)[index := Some (Ran outcome)] ! i = None"
    have ne: "i \<noteq> index" using i(3) ix(1) len by auto
    then have "r_outcomes run ! i = None" using i(3) by simp
    with slots i(1,2) obtain q sc' where q: "q < length (r_slots run)" "r_slots run ! q = Some (i, sc')"
      unfolding inv_slots_def by blast
    then have "q \<noteq> position" using at ne by auto
    with q show "\<exists>q < length (r_slots run). \<exists>sc. (r_slots run)[position := None] ! q = Some (i, sc)" by auto
  qed
  moreover have "inv_taken (p_needs p) run1"
    unfolding inv_taken_def ok blk fields
  proof (intro conjI allI impI)
    fix i assume i: "i < length (p_needs p)" "(r_outcomes run)[index := Some (Ran outcome)] ! i \<noteq> None"
    then show "r_nodes run ! i = None" using taken ix(2) unfolding inv_taken_def by (cases "i = index") simp_all
  next
    fix i assume "i < length (p_needs p)" "r_nodes run ! i = None" "\<not> is_blocked run i"
    then show "\<forall>d \<in> set (p_needs p ! i). ok_node run d \<or> good \<and> d = index"
      using taken unfolding inv_taken_def by blast
  qed
  moreover have "inv_unmet (p_needs p) (if good then ?rows else []) run1"
  proof (cases good)
    case True
    have "count_list ?rows i = count_list (p_needs p ! i) index" if "i < length (p_needs p)" for i
      using edges ix(1) that unfolding rows by (simp add: plan_edges_def)
    moreover have "length (filter (\<lambda>d. \<not> ok_node run d) ds) = length (filter (\<lambda>d. \<not> ok_node run1 d) ds) + count_list ds index" for ds
      by (rule filter_done) (simp_all add: ok True was)
    ultimately show ?thesis using unmet True by (simp add: inv_unmet_def fields)
  next
    case False
    then show ?thesis using unmet by (simp add: inv_unmet_def fields ok)
  qed
  moreover have "inv_ready run1" using ready unfolding inv_ready_def fields opn len(3) .
  moreover have "inv_blocked (p_needs p) (\<lambda>d i. \<not> good \<and> d = index \<and> i \<in> set ?rows) run1"
    unfolding inv_blocked_def bad blk fields
  proof (intro conjI allI impI ballI)
    fix i d assume d: "i < length (p_needs p)" "d \<in> set (p_needs p ! i)" "stopped_by run d \<or> \<not> good \<and> d = index"
    show "is_blocked run i \<or> \<not> good \<and> d = index \<and> i \<in> set ?rows"
    proof (cases "stopped_by run d")
      case True
      then show ?thesis using blocked d unfolding inv_blocked_def by blast
    next
      case False
      then show ?thesis using d plan_edges_member [OF edges ix(1)] unfolding rows by simp
    qed
  next
    fix i bs assume i: "i < length (p_needs p)" "(r_outcomes run)[index := Some (Ran outcome)] ! i = Some (Blocked bs)"
    then have "r_outcomes run ! i = Some (Blocked bs)" using ix(1) len by (cases "i = index") simp_all
    then have old: "bs \<noteq> [] \<and> (\<forall>name \<in> set bs. \<exists>d \<in> set (p_needs p ! i). stopped_by run d \<and> name = p_names (r_plan run) ! d)"
      using blocked i(1) unfolding inv_blocked_def by blast
    then show "bs \<noteq> []" by simp
    fix name assume "name \<in> set bs"
    with old show "\<exists>d \<in> set (p_needs p ! i). (stopped_by run d \<or> \<not> good \<and> d = index) \<and> name = p_names p ! d"
      unfolding len(3) by blast
  qed
  ultimately have mid: "run_inv p width (if good then ?rows else []) (\<lambda>d i. \<not> good \<and> d = index \<and> i \<in> set ?rows) run1"
    by (simp add: run_inv_def)
  have members: "\<forall>i \<in> set ?rows. i < length (p_needs p) \<and> index \<in> set (p_needs p ! i)"
    using plan_edges_member [OF edges ix(1)] unfolding rows by blast
  have poll: "poll_slot position polled run = fold (if good then release_node else block) ?rows run1"
  proof -
    have "record_outcome index (Ran outcome) (run\<lparr>r_slots := (r_slots run)[position := None], r_free := r_free run @ [position]\<rparr>) = run1"
      using ix(1) len by (simp add: record_outcome_def run1_def)
    then show ?thesis
      using at by (simp add: poll_slot_def polled run_finish_def Let_def fields(1) flip: outcome_def)
        (simp add: good_def split: sum.splits)
  qed
  show ?thesis
  proof (cases good)
    case True
    then show ?thesis using release_fold_inv [OF plan, of width ?rows "\<lambda>_ _. False" run1] mid members unfolding poll by simp
  next
    case False
    then have "stopped_by run1 index" using bad by simp
    with block_fold_inv [OF plan, of width "[]" index ?rows run1] mid members False show ?thesis unfolding poll by simp
  qed
qed

subsection \<open>Ready nodes start\<close>

text \<open>The run after the tallest ready node took the last free slot.\<close>

definition take_slot :: "scope \<Rightarrow> ('t, 'p) run \<Rightarrow> ('t, 'p) run" where
  "take_slot sc run = (let index = snd (hd (r_ready run)); position = last (r_free run) in
     run\<lparr>r_free := butlast (r_free run), r_ready := tl (r_ready run), r_nodes := (r_nodes run)[index := None],
       r_slots := (r_slots run)[position := Some (index, sc)]\<rparr>)"

lemma ready_head:
  assumes "run_inv p width [] (\<lambda>_ _. False) run" and "r_ready run \<noteq> []"
  shows "snd (hd (r_ready run)) < length (p_needs p)" and "is_open run (snd (hd (r_ready run)))"
    and "\<forall>d \<in> set (p_needs p ! snd (hd (r_ready run))). ok_node run d"
proof -
  have "hd (r_ready run) \<in> set (r_ready run)" using assms(2) by simp
  then have i: "snd (hd (r_ready run)) < length (p_needs p)" "is_open run (snd (hd (r_ready run)))"
      "r_unmet run ! snd (hd (r_ready run)) = 0"
    using assms(1) by (auto simp: run_inv_def inv_ready_def inv_shape_def)
  then show "snd (hd (r_ready run)) < length (p_needs p)" and "is_open run (snd (hd (r_ready run)))" by simp_all
  have "filter (\<lambda>d. \<not> ok_node run d) (p_needs p ! snd (hd (r_ready run))) = []"
    using assms(1) i(1,3) by (simp add: run_inv_def inv_unmet_def)
  then show "\<forall>d \<in> set (p_needs p ! snd (hd (r_ready run))). ok_node run d" by (auto simp: filter_empty_conv)
qed

lemma take_slot_inv:
  fixes run :: "('t, 'p) run"
  assumes inv: "run_inv p width [] (\<lambda>_ _. False) run" and ne: "r_ready run \<noteq> []" "r_free run \<noteq> []"
  shows "run_inv p width [] (\<lambda>_ _. False) (take_slot sc run)"
proof -
  have shape: "inv_shape p width run" and slots: "inv_slots run" and taken: "inv_taken (p_needs p) run"
    and unmet: "inv_unmet (p_needs p) [] run" and ready: "inv_ready run" and blocked: "inv_blocked (p_needs p) (\<lambda>_ _. False) run"
    using inv by (simp_all add: run_inv_def)
  define index where "index = snd (hd (r_ready run))"
  define position where "position = last (r_free run)"
  define run1 where "run1 = take_slot sc run"
  note head = ready_head [OF inv ne(1), folded index_def]
  have len: "length (r_nodes run) = length (p_needs p)" "length (r_outcomes run) = length (p_needs p)" "r_plan run = p"
    using shape by (simp_all add: inv_shape_def)
  have ix: "r_nodes run ! index \<noteq> None" "r_outcomes run ! index = None"
    using head(2) by (simp_all add: is_open_def)
  have pos: "position < length (r_slots run)" "r_slots run ! position = None"
    using slots last_in_set [OF ne(2)] unfolding inv_slots_def slots_ok_def position_def by auto
  have fields: "r_plan run1 = r_plan run" "r_nodes run1 = (r_nodes run)[index := None]" "r_unmet run1 = r_unmet run"
    "r_ready run1 = tl (r_ready run)" "r_outcomes run1 = r_outcomes run"
    "r_slots run1 = (r_slots run)[position := Some (index, sc)]" "r_free run1 = butlast (r_free run)"
    by (simp_all add: run1_def take_slot_def Let_def index_def position_def)
  have same: "ok_node run1 = ok_node run" "stopped_by run1 = stopped_by run" "is_blocked run1 = is_blocked run"
    unfolding fun_eq_iff ok_node_def stopped_by_def is_blocked_def fields by simp_all
  have opn: "is_open run1 i \<longleftrightarrow> is_open run i \<and> i \<noteq> index" for i
    using head(1) len by (cases "i = index") (auto simp: is_open_def fields)
  have "inv_shape p width run1" using shape by (simp add: inv_shape_def fields)
  moreover have "inv_slots run1"
    unfolding inv_slots_def fields length_list_update
  proof (intro conjI allI impI)
    have "r_free run = butlast (r_free run) @ [position]" using ne(2) by (simp add: position_def)
    then show "slots_ok ((r_slots run)[position := Some (index, sc)]) (butlast (r_free run))"
      using slots slots_fill_ok [of "r_slots run" "butlast (r_free run)" position "(index, sc)"] by (simp add: inv_slots_def)
  next
    fix q i sc' assume q: "q < length (r_slots run)" "(r_slots run)[position := Some (index, sc)] ! q = Some (i, sc')"
    show "i < length (r_nodes run)" "(r_nodes run)[index := None] ! i = None" "r_outcomes run ! i = None"
    proof -
      have "i < length (r_nodes run) \<and> (r_nodes run)[index := None] ! i = None \<and> r_outcomes run ! i = None"
      proof (cases "q = position")
        case True
        then show ?thesis using q pos head(1) ix(2) len by simp
      next
        case False
        then have "r_slots run ! q = Some (i, sc')" using q by simp
        then have o: "i < length (r_nodes run) \<and> r_nodes run ! i = None \<and> r_outcomes run ! i = None"
          using slots q(1) unfolding inv_slots_def by blast
        then have "i \<noteq> index" using ix(1) by auto
        with o show ?thesis by simp
      qed
      then show "i < length (r_nodes run)" "(r_nodes run)[index := None] ! i = None" "r_outcomes run ! i = None" by blast+
    qed
  next
    fix q q' i sc1 sc2
    assume q: "q < length (r_slots run)" "q' < length (r_slots run)"
      "(r_slots run)[position := Some (index, sc)] ! q = Some (i, sc1)"
      "(r_slots run)[position := Some (index, sc)] ! q' = Some (i, sc2)"
    have free: "i \<noteq> index" if "k < length (r_slots run)" "r_slots run ! k = Some (i, sc3)" for k sc3
    proof -
      have "r_nodes run ! i = None" using slots that unfolding inv_slots_def by blast
      then show ?thesis using ix(1) by auto
    qed
    show "q = q'"
    proof (cases "q = position"; cases "q' = position")
      assume n: "q \<noteq> position" "q' \<noteq> position"
      then have "r_slots run ! q = Some (i, sc1)" "r_slots run ! q' = Some (i, sc2)" using q by simp_all
      then show ?thesis using slots q(1,2) unfolding inv_slots_def by blast
    qed (use q pos free in auto)
  next
    fix i assume i: "i < length (r_nodes run)" "(r_nodes run)[index := None] ! i = None" "r_outcomes run ! i = None"
    show "\<exists>q < length (r_slots run). \<exists>sc'. (r_slots run)[position := Some (index, sc)] ! q = Some (i, sc')"
    proof (cases "i = index")
      case True
      then show ?thesis using pos(1) by (intro exI [of _ position]) simp
    next
      case False
      then have "r_nodes run ! i = None" using i(2) by simp
      with slots i(1,3) obtain q sc' where q: "q < length (r_slots run)" "r_slots run ! q = Some (i, sc')"
        unfolding inv_slots_def by blast
      moreover have "q \<noteq> position" using q(2) pos(2) by auto
      ultimately show ?thesis by (intro exI [of _ q]) simp
    qed
  qed
  moreover have "inv_taken (p_needs p) run1"
    unfolding inv_taken_def same fields
  proof (intro conjI allI impI)
    fix i assume "i < length (p_needs p)" "r_outcomes run ! i \<noteq> None"
    then show "(r_nodes run)[index := None] ! i = None" using taken ix(2) unfolding inv_taken_def by (cases "i = index") auto
  next
    fix i assume "i < length (p_needs p)" "(r_nodes run)[index := None] ! i = None" "\<not> is_blocked run i"
    then show "\<forall>d \<in> set (p_needs p ! i). ok_node run d"
      using taken head(3) unfolding inv_taken_def by (cases "i = index") auto
  qed
  moreover have "inv_unmet (p_needs p) [] run1" using unmet unfolding inv_unmet_def same fields .
  moreover have "inv_ready run1"
  proof -
    obtain h rest where r: "r_ready run = (h, index) # rest" using ne(1) by (cases "r_ready run") (auto simp: index_def)
    have sorted: "sorted_wrt ready_before ((h, index) # rest)"
      and all: "set ((h, index) # rest) = {(p_height (r_plan run) ! i, i) | i. i < length (r_nodes run) \<and> is_open run i \<and> r_unmet run ! i = 0}"
      using ready unfolding inv_ready_def r by auto
    have m: "y \<in> set ((h, index) # rest) \<longleftrightarrow> (\<exists>i. y = (p_height (r_plan run) ! i, i) \<and> i < length (r_nodes run) \<and>
        is_open run i \<and> r_unmet run ! i = 0)" for y unfolding all by blast
    have h: "h = p_height (r_plan run) ! index" using m [of "(h, index)"] by auto
    have "set rest = {(p_height (r_plan run) ! i, i) | i. i < length (r_nodes run) \<and> is_open run1 i \<and> r_unmet run ! i = 0}"
      (is "_ = ?R")
    proof (intro set_eqI)
      fix x
      have "x \<in> set rest \<longleftrightarrow> x \<in> set ((h, index) # rest) \<and> x \<noteq> (h, index)"
        using ready_sorted_hd [OF sorted] by auto
      also have "\<dots> \<longleftrightarrow> x \<in> ?R" unfolding m opn using h by auto
      finally show "x \<in> set rest \<longleftrightarrow> x \<in> ?R" .
    qed
    then show ?thesis using sorted unfolding inv_ready_def fields length_list_update r by simp
  qed
  moreover have "inv_blocked (p_needs p) (\<lambda>_ _. False) run1" using blocked unfolding inv_blocked_def same fields .
  ultimately show ?thesis unfolding run1_def by (simp add: run_inv_def)
qed

text \<open>The loop never finds a ready node already started, and ends with no ready node or no free slot.\<close>

lemma start_loop_inv:
  assumes "run_inv p width [] (\<lambda>_ _. False) run" and "start_loop stopped here started run wakes = (err, started', run', wakes')"
  shows "(case err of
      None \<Rightarrow> run_inv p width [] (\<lambda>_ _. False) run' \<and> (r_ready run' = [] \<or> r_free run' = [])
    | Some e \<Rightarrow> \<exists>step. scope_enter stopped here step = Inl e)"
  using assms
proof (induction stopped here started run wakes rule: start_loop.induct)
  case (1 stopped here started run wakes)
  note sim = start_loop.simps [of stopped here started run wakes]
  show ?case
  proof (cases "r_ready run = [] \<or> r_free run = []")
    case True
    then show ?thesis using "1.prems" by (cases "r_ready run = []") (auto simp: sim)
  next
    case False
    then have ne: "r_ready run \<noteq> []" "r_free run \<noteq> []" by simp_all
    let ?index = "snd (hd (r_ready run))" and ?position = "last (r_free run)"
    note head = ready_head [OF "1.prems"(1) ne(1)]
    obtain node where n: "?index < length (r_nodes run)" "r_nodes run ! ?index = Some node"
      using head(2) by (auto simp: is_open_def)
    have pos: "?position < length (r_slots run)"
      using "1.prems"(1) last_in_set [OF ne(2)] by (auto simp: run_inv_def inv_slots_def slots_ok_def)
    show ?thesis
    proof (cases "scope_enter stopped here (g_name node) :: 'b flow_error + scope")
      case (Inl e)
      then have "err = Some e" using "1.prems"(2) ne n by (simp add: sim Let_def)
      then show ?thesis using Inl by auto
    next
      case (Inr sc)
      let ?next = "run\<lparr>r_free := butlast (r_free run), r_ready := tl (r_ready run),
        r_nodes := (r_nodes run)[?index := None], r_slots := (r_slots run)[?position := Some (?index, sc)]\<rparr>"
      have t: "take_slot sc run = ?next" by (simp add: take_slot_def Let_def)
      have "start_loop stopped here (started @ [g_name node]) ?next (wakes_mark wakes ?position) = (err, started', run', wakes')"
        using "1.prems"(2) ne n Inr pos by (simp add: sim Let_def)
      moreover have "run_inv p width [] (\<lambda>_ _. False) ?next" unfolding t [symmetric] by (rule take_slot_inv [OF "1.prems"(1) ne])
      ultimately show ?thesis
        using "1.IH" [OF ne refl refl refl _ refl Inr] n pos by simp
    qed
  qed
qed

subsection \<open>A new run\<close>

lemma ready_fold:
  "sorted_wrt ready_before ys \<Longrightarrow>
     sorted_wrt ready_before (fold (\<lambda>at. ready_insert (f at, at)) zs ys) \<and>
     set (fold (\<lambda>at. ready_insert (f at, at)) zs ys) = (\<lambda>at. (f at, at)) ` set zs \<union> set ys"
proof (induction zs arbitrary: ys)
  case (Cons z zs)
  from Cons.IH [OF ready_insert_sorted [OF Cons.prems, of "(f z, z)"]] show ?case by auto
qed simp

lemma run_new_inv:
  assumes plan: "plan_sound p" and "length nodes = length (p_needs p)"
  shows "run_inv p width [] (\<lambda>_ _. False) (run_new p nodes width :: ('t, 'p) run)"
proof -
  let ?run = "run_new p nodes width :: ('t, 'p) run"
  let ?zero = "filter (\<lambda>at. map length (p_needs p) ! at = 0 \<and> at < length (p_height p)) [0..<length (map length (p_needs p))]"
  have fields: "r_plan ?run = p" "r_nodes ?run = map Some nodes" "r_unmet ?run = map length (p_needs p)"
    "r_outcomes ?run = replicate (length nodes) None" "r_slots ?run = replicate width None" "r_free ?run = rev [0..<width]"
    "r_ready ?run = fold (\<lambda>at. ready_insert (p_height p ! at, at)) ?zero []"
    by (simp_all add: run_new_def Let_def)
  have ht: "length (p_height p) = length (p_needs p)" using plan by (simp add: plan_sound_def)
  have "inv_shape p width ?run" using assms(2) by (simp add: inv_shape_def fields)
  moreover have "inv_slots ?run" using slots_new_ok [of width] by (simp add: inv_slots_def fields)
  moreover have "inv_taken (p_needs p) ?run" using assms(2) by (simp add: inv_taken_def fields)
  moreover have "inv_unmet (p_needs p) [] ?run"
  proof -
    have "filter (\<lambda>d. \<not> ok_node ?run d) (p_needs p ! i) = p_needs p ! i" if "i < length (p_needs p)" for i
    proof (rule filter_True, rule ballI)
      fix d assume "d \<in> set (p_needs p ! i)"
      then have "d < length nodes" using plan that assms(2) by (simp add: plan_sound_def plan_edges_def)
      then show "\<not> ok_node ?run d" by (simp add: ok_node_def fields)
    qed
    then show ?thesis by (simp add: inv_unmet_def fields)
  qed
  moreover have "inv_ready ?run"
  proof -
    have z: "set ?zero = {i. i < length nodes \<and> is_open ?run i \<and> map length (p_needs p) ! i = 0}"
      using assms(2) ht by (auto simp: is_open_def fields)
    have "set (r_ready ?run) = (\<lambda>at. (p_height p ! at, at)) ` set ?zero" and "sorted_wrt ready_before (r_ready ?run)"
      using ready_fold [of "[]" "\<lambda>at. p_height p ! at" ?zero] by (simp_all add: fields(7))
    then show ?thesis unfolding inv_ready_def z by (auto simp: fields(1-3))
  qed
  moreover have "inv_blocked (p_needs p) (\<lambda>_ _. False) ?run"
  proof -
    have "\<not> stopped_by ?run d" for d by (simp add: stopped_by_def fields)
    then show ?thesis using assms(2) by (simp add: inv_blocked_def fields)
  qed
  ultimately show ?thesis by (simp add: run_inv_def)
qed

section \<open>Runs of the driver\<close>

inductive driver_step :: "scope \<Rightarrow> ('t, 'p) run \<times> wake_state \<Rightarrow> ('t, 'p) run \<times> wake_state \<Rightarrow> bool" for here where
  again: "driver_turn stopped here polled s = Again s' \<Longrightarrow> driver_step here s s'"
| pending: "driver_turn stopped here polled s = Pending s' \<Longrightarrow> driver_step here s s'"
| wake: "driver_step here (run, wakes) (run, enqueue wakes position)"

inductive_cases driver_stepE: "driver_step here s s'"

lemma run_inv_schedule [simp]:
  "run_inv p width below exempt (run\<lparr>r_schedule := x\<rparr>) \<longleftrightarrow> run_inv p width below exempt run"
proof -
  have "ok_node (run\<lparr>r_schedule := x\<rparr>) = ok_node run" "stopped_by (run\<lparr>r_schedule := x\<rparr>) = stopped_by run"
    "is_blocked (run\<lparr>r_schedule := x\<rparr>) = is_blocked run" "is_open (run\<lparr>r_schedule := x\<rparr>) = is_open run"
    by (simp_all add: fun_eq_iff ok_node_def stopped_by_def is_blocked_def is_open_def)
  then show ?thesis
    by (simp add: run_inv_def inv_shape_def inv_slots_def inv_taken_def inv_unmet_def inv_ready_def inv_blocked_def)
qed

lemma run_start_inv:
  assumes "run_inv p width [] (\<lambda>_ _. False) run" and "run_start stopped here run wakes = (err, run', wakes')"
  shows "(case err of
      None \<Rightarrow> run_inv p width [] (\<lambda>_ _. False) run' \<and> (r_ready run' = [] \<or> r_free run' = [])
    | Some e \<Rightarrow> \<exists>step. scope_enter stopped here step = Inl e)"
proof -
  obtain err0 started run0 wakes0 where l: "start_loop stopped here [] run wakes = (err0, started, run0, wakes0)"
    by (metis prod_cases4)
  from start_loop_inv [OF assms(1) l] assms(2) l show ?thesis
    by (auto simp: run_start_def split: option.splits if_splits)
qed

lemma poll_fold_inv:
  assumes "plan_sound p" and "run_inv p width [] (\<lambda>_ _. False) run"
  shows "run_inv p width [] (\<lambda>_ _. False) (fold (\<lambda>position. poll_slot position (polled position)) ready run)"
  using assms(2) by (induction ready arbitrary: run) (auto intro: poll_slot_inv [OF assms(1)])

lemma driver_turn_inv:
  assumes "plan_sound p" and "run_inv p width [] (\<lambda>_ _. False) run"
  shows "case driver_turn stopped here polled (run, wakes) of
      Again s \<Rightarrow> run_inv p width [] (\<lambda>_ _. False) (fst s)
    | Pending s \<Rightarrow> run_inv p width [] (\<lambda>_ _. False) (fst s) \<and> 0 < run_running (fst s)
    | Finished r \<Rightarrow> stopped \<and> r = Inl (Cancelled (sc_path here)) \<or>
        (\<exists>step e. scope_enter stopped here step = (Inl e :: 'p flow_error + scope) \<and> r = Inl e) \<or>
        (\<exists>run'. run_inv p width [] (\<lambda>_ _. False) run' \<and> (r_ready run' = [] \<or> r_free run' = []) \<and>
          run_running run' = 0 \<and> r = run_report run')"
proof (cases stopped)
  case True
  then show ?thesis by (simp add: driver_turn_def)
next
  case False
  obtain err run1 wakes1 where s: "run_start stopped here run wakes = (err, run1, wakes1)" by (metis prod_cases3)
  obtain ready wakes2 where t: "take_ready wakes1 = (ready, wakes2)" by (metis surj_pair)
  note start = run_start_inv [OF assms(2) s]
  show ?thesis
  proof (cases err)
    case (Some e)
    then show ?thesis using False s start by (auto simp: driver_turn_def)
  next
    case None
    then show ?thesis
      using False s t start poll_fold_inv [OF assms(1), of width run1 polled ready]
      by (auto simp: driver_turn_def)
  qed
qed

lemma driver_step_inv:
  assumes "plan_sound p" and "driver_step here s s'" and "run_inv p width [] (\<lambda>_ _. False) (fst s)"
  shows "run_inv p width [] (\<lambda>_ _. False) (fst s')"
  using assms(2,3)
proof (cases rule: driver_step.cases)
  case (again stopped polled)
  then show ?thesis using driver_turn_inv [OF assms(1,3), of stopped here polled "snd s"] by simp
next
  case (pending stopped polled)
  then show ?thesis using driver_turn_inv [OF assms(1,3), of stopped here polled "snd s"] by simp
qed (use assms(3) in simp)

lemma driver_reaches_inv:
  assumes "plan_sound p" and "(driver_step here)\<^sup>*\<^sup>* s s'" and "run_inv p width [] (\<lambda>_ _. False) (fst s)"
  shows "run_inv p width [] (\<lambda>_ _. False) (fst s')"
  using assms(2,3) by (induction rule: rtranclp_induct) (auto intro: driver_step_inv [OF assms(1)])

section \<open>Reports\<close>

text \<open>
  What a report promises: every node of the declaration in its order, a node that ran had every
  need succeed, a blocked node names needs of its own that did not.
\<close>

definition report_sound :: "graph_node list \<Rightarrow> ('t, 'p) graph_report \<Rightarrow> bool" where
  "report_sound nodes rep \<longleftrightarrow> map fst (gr_outcomes rep) = map g_name nodes \<and>
     (\<forall>node \<in> set nodes. case report_outcome rep (g_name node) of
        None \<Rightarrow> False
      | Some (Ran _) \<Rightarrow> (\<forall>need \<in> set (g_needs node). \<exists>v. report_outcome rep need = Some (Ran (Inr v)))
      | Some (Blocked names) \<Rightarrow> names \<noteq> [] \<and>
          (\<forall>name \<in> set names. name \<in> set (g_needs node) \<and> (\<nexists>v. report_outcome rep name = Some (Ran (Inr v)))))"

lemma collect_all:
  assumes "length outs = length names" and "None \<notin> set outs"
  shows "collect_outcomes names outs acc = Inr (acc @ zip names (map the outs))"
  using assms
proof (induction names outs acc rule: collect_outcomes.induct)
  case (1 name names outcome rest acc)
  then show ?case by simp
qed auto

text \<open>When nothing runs and nothing is ready, every node has its outcome.\<close>

lemma idle_complete:
  assumes plan: "plan_sound p" and inv: "run_inv p width [] (\<lambda>_ _. False) run"
    and idle: "run_running run = 0" and "r_ready run = []" and "i < length (p_needs p)"
  shows "r_outcomes run ! i \<noteq> None"
proof
  assume none: "r_outcomes run ! i = None"
  have shape: "inv_shape p width run" and slots: "inv_slots run" and taken: "inv_taken (p_needs p) run"
    and unmet: "inv_unmet (p_needs p) [] run" and ready: "inv_ready run" and blocked: "inv_blocked (p_needs p) (\<lambda>_ _. False) run"
    using inv by (simp_all add: run_inv_def)
  obtain rank :: "nat \<Rightarrow> nat" where rank: "\<And>i d. i < length (p_needs p) \<Longrightarrow> d \<in> set (p_needs p ! i) \<Longrightarrow> rank d < rank i"
    using plan unfolding plan_sound_def plan_edges_def by blast
  have "i < length (p_needs p) \<and> r_outcomes run ! i = None" using assms(5) none by simp
  from ex_has_least_nat [where P = "\<lambda>i. i < length (p_needs p) \<and> r_outcomes run ! i = None" and m = rank, OF this]
  obtain k where k: "k < length (p_needs p)" "r_outcomes run ! k = None"
    and least: "\<And>j. j < length (p_needs p) \<and> r_outcomes run ! j = None \<Longrightarrow> rank k \<le> rank j" by blast
  have "r_nodes run ! k \<noteq> None"
  proof
    assume "r_nodes run ! k = None"
    then obtain q sc where q: "q < length (r_slots run)" "r_slots run ! q = Some (k, sc)"
      using slots shape k unfolding inv_slots_def inv_shape_def by metis
    moreover have "r_slots run ! q = None"
      using slots idle q(1) unfolding inv_slots_def run_running_def by (intro slots_idle [of _ "r_free run"]) auto
    ultimately show False by simp
  qed
  then have opn: "is_open run k" using k shape by (simp add: is_open_def inv_shape_def)
  have "r_unmet run ! k \<noteq> 0"
  proof
    assume "r_unmet run ! k = 0"
    then have "(p_height (r_plan run) ! k, k) \<in> set (r_ready run)"
      using ready opn k shape unfolding inv_ready_def inv_shape_def by auto
    then show False using assms(4) by simp
  qed
  then have "filter (\<lambda>d. \<not> ok_node run d) (p_needs p ! k) \<noteq> []" using unmet k(1) by (auto simp: inv_unmet_def)
  then obtain d where d: "d \<in> set (p_needs p ! k)" "\<not> ok_node run d" by (auto simp: filter_empty_conv)
  have dn: "d < length (p_needs p)" using plan k(1) d(1) unfolding plan_sound_def plan_edges_def by blast
  have "r_outcomes run ! d \<noteq> None" using least [of d] dn rank [OF k(1) d(1)] by force
  then have "stopped_by run d"
    using d(2) dn shape by (auto simp: ok_node_def stopped_by_def inv_shape_def split: option.splits node_outcome.splits sum.splits)
  then have "is_blocked run k" using blocked k(1) d(1) unfolding inv_blocked_def by blast
  then show False using k(2) by (simp add: is_blocked_def)
qed

lemma idle_report:
  fixes run :: "('t, 'p) run"
  assumes plan: "plan_sound p" and inv: "run_inv p width [] (\<lambda>_ _. False) run"
    and idle: "run_running run = 0" "r_ready run = []"
    and names: "p_names p = map g_name nodes" "distinct (map g_name nodes)" "length (p_needs p) = length nodes"
    and spelled: "\<And>i. i < length nodes \<Longrightarrow> map (\<lambda>d. g_name (nodes ! d)) (p_needs p ! i) = g_needs (nodes ! i)"
  shows "\<exists>rep. run_report run = Inr rep \<and> report_sound nodes rep"
proof -
  have shape: "inv_shape p width run" and taken: "inv_taken (p_needs p) run"
    and blocked: "inv_blocked (p_needs p) (\<lambda>_ _. False) run"
    using inv by (simp_all add: run_inv_def)
  have len: "length (r_outcomes run) = length nodes" "r_plan run = p" using shape names(3) by (simp_all add: inv_shape_def)
  have all: "r_outcomes run ! i \<noteq> None" if "i < length nodes" for i
    using idle_complete [OF plan inv idle] that names(3) by simp
  let ?outs = "zip (map g_name nodes) (map the (r_outcomes run))"
  let ?rep = "\<lparr>gr_outcomes = ?outs, gr_schedule = r_schedule run\<rparr>"
  have "None \<notin> set (r_outcomes run)" using all len(1) by (auto simp: in_set_conv_nth)
  then have rep: "run_report run = Inr ?rep"
    using collect_all [of "r_outcomes run" "map g_name nodes" "[]"] len names(1) by (simp add: run_report_def)
  have out: "report_outcome ?rep (g_name (nodes ! i)) = r_outcomes run ! i" if "i < length nodes" for i
  proof -
    have "(g_name (nodes ! i), the (r_outcomes run ! i)) \<in> set ?outs"
      using that len(1) by (auto simp: set_zip intro!: exI [of _ i])
    then have "map_of ?outs (g_name (nodes ! i)) = Some (the (r_outcomes run ! i))"
      using names(2) len(1) by simp
    then show ?thesis using all [OF that] by (simp add: report_outcome_def)
  qed
  have need_out: "report_outcome ?rep (g_name (nodes ! d)) = r_outcomes run ! d"
    if "i < length nodes" "d \<in> set (p_needs p ! i)" for i d
    using out plan that names(3) by (simp add: plan_sound_def plan_edges_def)
  have "case report_outcome ?rep (g_name (nodes ! i)) of
        None \<Rightarrow> False
      | Some (Ran _) \<Rightarrow> (\<forall>need \<in> set (g_needs (nodes ! i)). \<exists>v. report_outcome ?rep need = Some (Ran (Inr v)))
      | Some (Blocked bs) \<Rightarrow> bs \<noteq> [] \<and>
          (\<forall>name \<in> set bs. name \<in> set (g_needs (nodes ! i)) \<and> (\<nexists>v. report_outcome ?rep name = Some (Ran (Inr v))))"
    if i: "i < length nodes" for i
  proof (cases "r_outcomes run ! i")
    case None
    then show ?thesis using all [OF i] by simp
  next
    case (Some o')
    show ?thesis
    proof (cases o')
      case (Ran r)
      have "\<exists>v. report_outcome ?rep need = Some (Ran (Inr v))" if need: "need \<in> set (g_needs (nodes ! i))" for need
      proof -
        from need obtain d where d: "d \<in> set (p_needs p ! i)" "need = g_name (nodes ! d)"
          unfolding spelled [OF i, symmetric] by auto
        have "ok_node run d" using taken Some Ran i d(1) names(3) by (simp add: inv_taken_def is_blocked_def)
        then show ?thesis unfolding d(2) need_out [OF i d(1)]
          by (auto simp: ok_node_def split: option.splits node_outcome.splits sum.splits)
      qed
      then show ?thesis unfolding out [OF i] by (simp add: Some Ran)
    next
      case (Blocked bs)
      have "r_outcomes run ! i = Some (Blocked bs)" using Some Blocked by simp
      then have b: "bs \<noteq> []" "\<And>name. name \<in> set bs \<Longrightarrow> \<exists>d \<in> set (p_needs p ! i). stopped_by run d \<and> name = p_names p ! d"
        using blocked i names(3) len(2) unfolding inv_blocked_def by auto
      have "name \<in> set (g_needs (nodes ! i)) \<and> (\<nexists>v. report_outcome ?rep name = Some (Ran (Inr v)))" if n: "name \<in> set bs" for name
      proof -
        from b(2) [OF n] obtain d where d: "d \<in> set (p_needs p ! i)" "stopped_by run d" "name = p_names p ! d" by blast
        have dn: "d < length nodes" using plan i d(1) names(3) by (simp add: plan_sound_def plan_edges_def)
        then have nm: "name = g_name (nodes ! d)" using d(3) names(1) by simp
        have "name \<in> set (g_needs (nodes ! i))" unfolding spelled [OF i, symmetric] nm using d(1) by auto
        moreover have "\<not> ok_node run d" by (rule stopped_not_ok [OF d(2)])
        ultimately show ?thesis unfolding nm need_out [OF i d(1)] by (auto simp: ok_node_def)
      qed
      then show ?thesis using b(1) unfolding out [OF i] by (simp add: Some Blocked)
    qed
  qed
  then have "report_sound nodes ?rep" using len(1) by (auto simp: report_sound_def in_set_conv_nth)
  then show ?thesis using rep by blast
qed

section \<open>Properties\<close>

lemma graph_begin_inv:
  assumes "graph_begin stopped sc step declared nodes = (Some (Inr (here, s)) :: ('p flow_error + scope \<times> ('t, 'p) run \<times> wake_state) option)"
  obtains p where "plan_sound p" "run_inv p (graph_width declared (length nodes)) [] (\<lambda>_ _. False) (fst s)"
    "p_names p = map g_name nodes" "distinct (map g_name nodes)" "length (p_needs p) = length nodes"
    "\<And>i. i < length nodes \<Longrightarrow> map (\<lambda>d. g_name (nodes ! d)) (p_needs p ! i) = g_needs (nodes ! i)"
proof -
  have run: "runnable nodes"
    using assms by (auto simp: graph_begin_def validate_def simp flip: refusal_reason_None split: option.splits)
  from plan_of_runnable [OF run, where 'p = 'p] obtain p where p: "plan_of nodes = (Some (Inr p) :: ('p flow_error + plan) option)"
      "plan_ok nodes p" "\<And>i. i < length nodes \<Longrightarrow> map (\<lambda>d. g_name (nodes ! d)) (p_needs p ! i) = g_needs (nodes ! i)"
    by blast
  have v: "validate nodes = (Inr () :: 'p flow_error + unit)" using run by (simp add: validate_accepts)
  have "fst s = run_new p nodes (graph_width declared (length nodes))"
    using assms unfolding graph_begin_def v p(1) by (auto simp: Let_def split: sum.splits)
  moreover have "run_inv p (graph_width declared (length nodes)) [] (\<lambda>_ _. False)
      (run_new p nodes (graph_width declared (length nodes)) :: ('t, 'p) run)"
    using p(2) plan_ok_sound [OF p(2)] by (intro run_new_inv) (simp_all add: plan_ok_def)
  ultimately show thesis
    using that plan_ok_sound [OF p(2)] p(2,3) run by (simp add: plan_ok_def runnable_def)
qed

lemma graph_width_pos: "1 \<le> graph_width declared count" "graph_width declared count \<le> max_in_flight"
  by (auto simp: graph_width_def max_in_flight_def)

text \<open>A graph of one node, its run and the turns it takes.\<close>

definition one_node :: "graph_node list" where
  "one_node = [graph_node_new ''a'' []]"

definition one_scope :: scope where
  "one_scope = \<lparr>sc_path = ''g'', sc_depth = 1\<rparr>"

definition one_run :: "(nat, unit) run" where
  "one_run = \<lparr>r_plan = \<lparr>p_names = [''a''], p_needs = [[]], p_dependants = [[]], p_height = [1]\<rparr>,
     r_nodes = [Some (graph_node_new ''a'' [])], r_unmet = [0], r_ready = [(1, 0)], r_outcomes = [None],
     r_slots = [None], r_free = [0], r_schedule = []\<rparr>"

definition one_running :: "(nat, unit) run" where
  "one_running = \<lparr>r_plan = \<lparr>p_names = [''a''], p_needs = [[]], p_dependants = [[]], p_height = [1]\<rparr>,
     r_nodes = [None], r_unmet = [0], r_ready = [], r_outcomes = [None],
     r_slots = [Some (0, \<lparr>sc_path = ''g/a'', sc_depth = 2\<rparr>)], r_free = [], r_schedule = [[''a'']]\<rparr>"

definition one_done :: "(nat, unit) run" where
  "one_done = one_running\<lparr>r_outcomes := [Some (Ran (Inr 7))], r_slots := [None], r_free := [0]\<rparr>"

lemma one_begin: "graph_begin False scope_root ''g'' 1 one_node = Some (Inr (one_scope, one_run, wakes_new 1))"
proof -
  have "validate one_node = (Inr () :: unit flow_error + unit)"
    by (simp add: validate_def refusal_reason_def one_node_def max_graph_nodes_def graph_node_new_def cycle_refusal_def
        kahn_loop.simps remove_key_def relax_def Let_def)
  moreover have "plan_of one_node = (Some (Inr \<lparr>p_names = [''a''], p_needs = [[]], p_dependants = [[]], p_height = [1]\<rparr>) :: (unit flow_error + plan) option)"
    by (simp add: plan_of_def one_node_def graph_node_new_def plan_order.simps Let_def nth_or_empty_def raise_def heaviest_def sat_add_u64_def u64_max_def)
  ultimately show ?thesis
    by (simp add: graph_begin_def scope_enter_def descend_def checkpoint_def scope_join_def scope_root_def max_depth_def
        one_scope_def run_new_def one_run_def graph_width_def one_node_def Let_def max_in_flight_def)
qed

lemma one_turns:
  "driver_turn False one_scope (\<lambda>_. None) (one_run, wakes_new 1) = Again (one_running, wakes_new 1)"
  "driver_turn False one_scope (\<lambda>_. None) (one_done, wakes_new 1) =
     Finished (Inr \<lparr>gr_outcomes = [(''a'', Ran (Inr 7))], gr_schedule = [[''a'']]\<rparr>)"
  "driver_turn False one_scope (\<lambda>_. Some (Inr 7)) (one_running, enqueue (wakes_new 1) 0) = Again (one_done, wakes_new 1)"
  by (simp_all add: driver_turn_def run_start_def start_loop.simps one_run_def one_scope_def scope_enter_def descend_def
      checkpoint_def scope_join_def max_depth_def wakes_mark_def enqueue_def wakes_new_def take_ready_def poll_slot_def
      one_running_def one_done_def graph_node_new_def run_running_def slots_running_def run_report_def Let_def
      run_finish_def locate_result_def record_outcome_def nth_or_empty_def)

lemma one_reaches: "(driver_step one_scope)\<^sup>*\<^sup>* (one_run, wakes_new 1) (one_running, wakes_new 1)"
  by (rule r_into_rtranclp) (rule driver_step.again [OF one_turns(1)])

lemma one_completes: "(driver_step one_scope)\<^sup>*\<^sup>* (one_run, wakes_new 1) (one_done, wakes_new 1)"
  using one_reaches driver_step.wake [of one_scope one_running "wakes_new 1" 0] driver_step.again [OF one_turns(3)]
  by (meson rtranclp.rtrancl_into_rtrancl)

text \<open>The graph \<open>two_nodes\<close>, whose second node needs the first, up to the moment the second runs.\<close>

definition two_plan :: plan where
  "two_plan = \<lparr>p_names = [''a'', ''b''], p_needs = [[], [0]], p_dependants = [[1], []], p_height = [2, 1]\<rparr>"

definition two_run :: "(nat, unit) run" where
  "two_run = \<lparr>r_plan = two_plan, r_nodes = map Some two_nodes, r_unmet = [0, 1], r_ready = [(2, 0)],
     r_outcomes = [None, None], r_slots = [None], r_free = [0], r_schedule = []\<rparr>"

definition two_first :: "(nat, unit) run" where
  "two_first = two_run\<lparr>r_nodes := [None, Some (graph_node_new ''b'' [''a''])], r_ready := [],
     r_slots := [Some (0, \<lparr>sc_path = ''g/a'', sc_depth = 2\<rparr>)], r_free := [], r_schedule := [[''a'']]\<rparr>"

definition two_between :: "(nat, unit) run" where
  "two_between = two_first\<lparr>r_unmet := [0, 0], r_ready := [(1, 1)], r_outcomes := [Some (Ran (Inr 7)), None],
     r_slots := [None], r_free := [0]\<rparr>"

definition two_second :: "(nat, unit) run" where
  "two_second = two_between\<lparr>r_nodes := [None, None], r_ready := [], r_slots := [Some (1, \<lparr>sc_path = ''g/b'', sc_depth = 2\<rparr>)],
     r_free := [], r_schedule := [[''a''], [''b'']]\<rparr>"

lemma two_begin: "graph_begin False scope_root ''g'' 1 two_nodes = Some (Inr (one_scope, two_run, wakes_new 1))"
proof -
  have "validate two_nodes = (Inr () :: unit flow_error + unit)"
    by (simp add: validate_def refusal_reason_def two_nodes_def max_graph_nodes_def graph_node_new_def cycle_refusal_def
        kahn_loop.simps remove_key_def relax_def Let_def)
  moreover have "plan_of two_nodes = (Some (Inr two_plan) :: (unit flow_error + plan) option)"
  proof -
    have at_a: "plan_index two_nodes ''a'' = Some 0"
      by (simp add: plan_index_def two_nodes_def graph_node_new_def)
    have "resolve_nodes (plan_index two_nodes) 0 two_nodes [] [[], []] = (Inr ([[], [0]], [[1], []]) :: unit flow_error + _)"
      by (subst (2) two_nodes_def) (simp add: graph_node_new_def at_a push_at_def)
    moreover have "plan_order [[1], []] [0] [0, 1] [] = Some [0, 1]"
      by (simp add: plan_order.simps [of _ "x # xs" for x xs] plan_order.simps [of _ "[]"] nth_or_empty_def countdown_def)
    moreover have "fold (raise [[1], []]) [1, 0] [1, 1] = [2, 1]"
      by (simp add: raise_def nth_or_empty_def heaviest_def sat_add_u64_def u64_max_def)
    ultimately show ?thesis
      by (simp add: plan_of_def two_plan_def) (simp add: two_nodes_def graph_node_new_def)
  qed
  ultimately show ?thesis
    by (simp add: graph_begin_def scope_enter_def descend_def checkpoint_def scope_join_def scope_root_def max_depth_def
        one_scope_def run_new_def two_run_def two_plan_def graph_width_def two_nodes_def Let_def max_in_flight_def)
qed

lemmas two_eval = driver_turn_def run_start_def start_loop.simps one_scope_def scope_enter_def descend_def checkpoint_def
  scope_join_def max_depth_def wakes_mark_def enqueue_def wakes_new_def take_ready_def poll_slot_def graph_node_new_def
  run_running_def slots_running_def Let_def run_finish_def locate_result_def record_outcome_def nth_or_empty_def
  two_run_def two_first_def two_between_def two_second_def two_nodes_def two_plan_def release_node_def is_open_def

lemma two_turn_first: "driver_turn False one_scope (\<lambda>_. None) (two_run, wakes_new 1) = Again (two_first, wakes_new 1)"
  by (simp add: two_eval)

lemma two_turn_ran:
  "driver_turn False one_scope (\<lambda>_. Some (Inr 7)) (two_first, enqueue (wakes_new 1) 0) = Again (two_between, wakes_new 1)"
  by (simp add: two_eval)

lemma two_turn_second: "driver_turn False one_scope (\<lambda>_. None) (two_between, wakes_new 1) = Again (two_second, wakes_new 1)"
  by (simp add: two_eval)

lemma two_reaches: "(driver_step one_scope)\<^sup>*\<^sup>* (two_run, wakes_new 1) (two_second, wakes_new 1)"
  using driver_step.again [OF two_turn_first] driver_step.wake [of one_scope two_first "wakes_new 1" 0]
    driver_step.again [OF two_turn_ran] driver_step.again [OF two_turn_second]
  by (meson rtranclp.rtrancl_into_rtrancl rtranclp.rtrancl_refl)

text \<open>
  C9: a graph that started and was neither cancelled nor refused a scope ends in a sound report:
  whatever order its nodes finish in, every node has an outcome, a node ran only if all its needs
  succeeded, and a node that did not run names the needs that stopped it. It never ends with
  "has no outcome" or "had already started".
\<close>

theorem graph_report_sound:
  fixes s s' :: "('t, 'p) run \<times> wake_state"
  assumes "graph_begin stopped sc step declared nodes = Some (Inr (here, s))"
    and "(driver_step here)\<^sup>*\<^sup>* s s'"
    and "driver_turn now_stopped here polled s' = Finished r"
  shows "now_stopped \<and> r = Inl (Cancelled (sc_path here)) \<or>
    (\<exists>name e. scope_enter now_stopped here name = (Inl e :: 'p flow_error + scope) \<and> r = Inl e) \<or>
    (\<exists>rep. r = Inr rep \<and> report_sound nodes rep)"
proof -
  from graph_begin_inv [OF assms(1)] obtain p where p: "plan_sound p" "run_inv p (graph_width declared (length nodes)) [] (\<lambda>_ _. False) (fst s)"
    "p_names p = map g_name nodes" "distinct (map g_name nodes)" "length (p_needs p) = length nodes"
    "\<And>i. i < length nodes \<Longrightarrow> map (\<lambda>d. g_name (nodes ! d)) (p_needs p ! i) = g_needs (nodes ! i)" by blast
  have inv: "run_inv p (graph_width declared (length nodes)) [] (\<lambda>_ _. False) (fst s')"
    by (rule driver_reaches_inv [OF p(1) assms(2) p(2)])
  note turn = driver_turn_inv [OF p(1) inv, of now_stopped here polled "snd s'"]
  {
    fix run assume run: "run_inv p (graph_width declared (length nodes)) [] (\<lambda>_ _. False) run"
      "r_ready run = [] \<or> r_free run = []" "run_running run = 0" "r = run_report run"
    have "length (r_slots run) = graph_width declared (length nodes)"
      using run(1) by (simp add: run_inv_def inv_shape_def)
    then have "r_free run \<noteq> []"
      using run(3) graph_width_pos(1) [of declared "length nodes"] by (auto simp: run_running_def slots_running_def)
    then have "r_ready run = []" using run(2) by simp
    from idle_report [OF p(1) run(1,3) this p(3-6)] run(4) have "\<exists>rep. r = Inr rep \<and> report_sound nodes rep" by auto
  }
  then show ?thesis using turn assms(3) by (cases s') auto
qed

theorem graph_report_sound_witness:
  "report_sound one_node \<lparr>gr_outcomes = [(''a'', Ran (Inr 7 :: unit flow_error + nat))], gr_schedule = [[''a'']]\<rparr>"
  using graph_report_sound [OF one_begin one_completes one_turns(2)] by simp

text \<open>
  C10: at every moment of a run each slot holds one node of its own, without an outcome, and every need
  that node was declared with is the name of a node of the graph that has run and succeeded. No node
  holds two slots, and at most the declared limit run at once.
\<close>

theorem graph_runs_in_order:
  fixes s s' :: "('t, 'p) run \<times> wake_state"
  assumes "graph_begin stopped sc step declared nodes = Some (Inr (here, s))"
    and "(driver_step here)\<^sup>*\<^sup>* s s'"
    and "q < length (r_slots (fst s'))" and "r_slots (fst s') ! q = Some (index, at)"
  shows "index < length nodes \<and> r_outcomes (fst s') ! index = None \<and>
    (\<forall>need \<in> set (g_needs (nodes ! index)). \<exists>d < length nodes. g_name (nodes ! d) = need \<and>
       (\<exists>v. r_outcomes (fst s') ! d = Some (Ran (Inr v)))) \<and>
    (\<forall>q' < length (r_slots (fst s')). \<forall>at'. r_slots (fst s') ! q' = Some (index, at') \<longrightarrow> q' = q) \<and>
    run_running (fst s') \<le> graph_width declared (length nodes)"
proof -
  from graph_begin_inv [OF assms(1)] obtain p where p: "plan_sound p" "run_inv p (graph_width declared (length nodes)) [] (\<lambda>_ _. False) (fst s)"
    "length (p_needs p) = length nodes"
    "\<And>i. i < length nodes \<Longrightarrow> map (\<lambda>d. g_name (nodes ! d)) (p_needs p ! i) = g_needs (nodes ! i)" by blast
  let ?run = "fst s'"
  have inv: "run_inv p (graph_width declared (length nodes)) [] (\<lambda>_ _. False) ?run"
    by (rule driver_reaches_inv [OF p(1) assms(2) p(2)])
  then have shape: "inv_shape p (graph_width declared (length nodes)) ?run" and slots: "inv_slots ?run" and taken: "inv_taken (p_needs p) ?run"
    by (simp_all add: run_inv_def)
  have i: "index < length nodes" "r_nodes ?run ! index = None" "r_outcomes ?run ! index = None"
    using slots assms(3,4) shape p(3) unfolding inv_slots_def inv_shape_def by auto
  have "\<exists>d < length nodes. g_name (nodes ! d) = need \<and> (\<exists>v. r_outcomes ?run ! d = Some (Ran (Inr v)))"
    if named: "need \<in> set (g_needs (nodes ! index))" for need
  proof -
    obtain d where d: "d \<in> set (p_needs p ! index)" "g_name (nodes ! d) = need"
      using named unfolding p(4) [OF i(1), symmetric] by auto
    have "ok_node ?run d" using taken i d(1) p(3) by (simp add: inv_taken_def is_blocked_def)
    then have "\<exists>v. r_outcomes ?run ! d = Some (Ran (Inr v))"
      by (auto simp: ok_node_def split: option.splits node_outcome.splits sum.splits)
    moreover have "d < length nodes" using p(1,3) i(1) d(1) by (simp add: plan_sound_def plan_edges_def)
    ultimately show ?thesis using d(2) by blast
  qed
  moreover have "q' = q" if "q' < length (r_slots ?run)" "r_slots ?run ! q' = Some (index, at')" for q' at'
    using slots assms(3,4) that unfolding inv_slots_def by blast
  moreover have "run_running ?run \<le> graph_width declared (length nodes)"
    using shape by (simp add: run_running_def slots_running_def inv_shape_def)
  ultimately show ?thesis using i by simp
qed

theorem graph_runs_in_order_witness:
  "r_slots two_second ! 0 = Some (1, \<lparr>sc_path = ''g/b'', sc_depth = 2\<rparr>) \<and> g_needs (two_nodes ! 1) = [''a''] \<and>
   (\<exists>d < length two_nodes. g_name (two_nodes ! d) = ''a'' \<and> (\<exists>v. r_outcomes two_second ! d = Some (Ran (Inr v))))"
proof -
  have held: "0 < length (r_slots two_second)" "r_slots two_second ! 0 = Some (1, \<lparr>sc_path = ''g/b'', sc_depth = 2\<rparr>)"
    by (simp_all add: two_second_def)
  have needs: "g_needs (two_nodes ! 1) = [''a'']" by (simp add: two_nodes_def graph_node_new_def)
  show ?thesis using graph_runs_in_order [OF two_begin two_reaches, of 0 1] held needs by simp
qed

end
