(* ===== verification/Fan_Out.thy ===== *)
theory Fan_Out
  imports Slots Control
begin

text \<open>
  \<open>crates/lgwks-bot/src/script/each.rs\<close>: the fan-out driver. It admits inputs into free slots (when
  no limit was written, only as far as the host pool lends slots), polls the bodies that were woken,
  and returns their values in input order. The inputs are the list still to come; what the body of
  input \<open>i\<close> answers is the argument \<open>outcome i\<close>, and a poll of its slot is pending or gives it.
\<close>

section \<open>State\<close>

record 't fan =
  fan_slots :: "(nat \<times> string) option list"
  fan_free :: "nat list"
  fan_results :: "'t option list"
  fan_exhausted :: bool
  fan_lease :: "nat option"

text \<open>\<open>limited\<close>: the caller wrote a limit, so no lease is taken.\<close>

definition fan_new :: "nat \<Rightarrow> bool \<Rightarrow> 't fan" where
  "fan_new width limited = \<lparr>fan_slots = replicate width None, fan_free = rev [0..<width], fan_results = [],
     fan_exhausted = False, fan_lease = (if limited then None else Some 0)\<rparr>"

definition fan_running :: "'t fan \<Rightarrow> nat" where
  "fan_running fan = slots_running (fan_slots fan) (fan_free fan)"

definition fan_lease_admit :: "'t fan \<Rightarrow> hostPool \<Rightarrow> nat \<Rightarrow> bool \<times> 't fan \<times> hostPool" where
  "fan_lease_admit fan pool running =
     (case fan_lease fan of
        None \<Rightarrow> (True, fan, pool)
      | Some held \<Rightarrow> (case lease_admit pool held running of (ok, pool, held) \<Rightarrow> (ok, fan\<lparr>fan_lease := Some held\<rparr>, pool)))"

definition fan_lease_settle :: "'t fan \<Rightarrow> hostPool \<Rightarrow> nat \<Rightarrow> 't fan \<times> hostPool" where
  "fan_lease_settle fan pool running =
     (case fan_lease fan of
        None \<Rightarrow> (fan, pool)
      | Some held \<Rightarrow> (case lease_settle pool held running of (pool, held) \<Rightarrow> (fan\<lparr>fan_lease := Some held\<rparr>, pool)))"

definition fan_clear :: "'t fan \<Rightarrow> hostPool \<Rightarrow> 't fan \<times> hostPool" where
  "fan_clear fan pool =
     (let fan = fan\<lparr>fan_slots := map (\<lambda>_. None) (fan_slots fan)\<rparr>;
          s = (case fan_lease fan of
                 None \<Rightarrow> (fan, pool)
               | Some held \<Rightarrow> (case release_all pool held of (pool, held) \<Rightarrow> (fan\<lparr>fan_lease := Some held\<rparr>, pool)))
      in ((fst s)\<lparr>fan_exhausted := True\<rparr>, snd s))"

section \<open>Operations\<close>

function fan_admit ::
  "bool \<Rightarrow> scope \<Rightarrow> 'i list \<Rightarrow> 't fan \<Rightarrow> hostPool \<Rightarrow> wake_state \<Rightarrow>
   'p flow_error option \<times> 'i list \<times> 't fan \<times> hostPool \<times> wake_state" where
  "fan_admit stopped here inputs fan pool wakes =
     (if fan_exhausted fan then (None, inputs, fan, pool, wakes)
      else
        let running = fan_running fan in
        if fan_free fan = [] then (None, inputs, fan, pool, wakes)
        else
          let position = last (fan_free fan) in
          case fan_lease_admit fan pool running of
            (False, fan, pool) \<Rightarrow> (None, inputs, fan, pool, wakes)
          | (True, fan, pool) \<Rightarrow>
              (case inputs of
                 [] \<Rightarrow> (case fan_lease_settle fan pool running of (fan, pool) \<Rightarrow>
                   (None, [], fan\<lparr>fan_exhausted := True\<rparr>, pool, wakes))
               | item # inputs \<Rightarrow>
                   let index = length (fan_results fan);
                       fan = fan\<lparr>fan_free := butlast (fan_free fan), fan_results := fan_results fan @ [None]\<rparr>
                   in case scope_numbered stopped here index of
                        Inl e \<Rightarrow> (Some e, inputs, fan, pool, wakes)
                      | Inr sc \<Rightarrow>
                          fan_admit stopped here inputs
                            (if position < length (fan_slots fan)
                             then fan\<lparr>fan_slots := (fan_slots fan)[position := Some (index, sc_path sc)]\<rparr> else fan)
                            pool (wakes_mark wakes position)))"
  by pat_completeness auto
termination by (relation "measure (\<lambda>(stopped, here, inputs, fan, pool, wakes). length inputs)") auto

declare fan_admit.simps [simp del]

text \<open>\<open>polled i\<close> is what the body of input \<open>i\<close> answers now. A poll that fails leaves its error next to the state, for the driver to end the fan-out with.\<close>

definition fan_poll_slot ::
  "(nat \<Rightarrow> ('p flow_error + 't) option) \<Rightarrow> nat \<Rightarrow> 't fan \<Rightarrow> hostPool \<Rightarrow> 'p flow_error option \<times> 't fan \<times> hostPool" where
  "fan_poll_slot polled position fan pool =
     (if position < length (fan_slots fan) then
        (case fan_slots fan ! position of
           None \<Rightarrow> (None, fan, pool)
         | Some (index, at) \<Rightarrow>
             (case polled index of
                None \<Rightarrow> (None, fan, pool)
              | Some outcome \<Rightarrow>
                  let fan = fan\<lparr>fan_slots := (fan_slots fan)[position := None], fan_free := fan_free fan @ [position]\<rparr>;
                      s = fan_lease_settle fan pool (fan_running fan)
                  in case outcome of
                       Inl e \<Rightarrow> (Some (located_at at e), fst s, snd s)
                     | Inr value \<Rightarrow>
                         (None,
                          if index < length (fan_results (fst s))
                          then (fst s)\<lparr>fan_results := (fan_results (fst s))[index := Some value]\<rparr> else fst s,
                          snd s)))
      else (None, fan, pool))"

fun fan_poll_all ::
  "(nat \<Rightarrow> ('p flow_error + 't) option) \<Rightarrow> nat list \<Rightarrow> 't fan \<Rightarrow> hostPool \<Rightarrow> 'p flow_error option \<times> 't fan \<times> hostPool" where
  "fan_poll_all polled [] fan pool = (None, fan, pool)"
| "fan_poll_all polled (position # ready) fan pool =
     (case fan_poll_slot polled position fan pool of
        (Some e, fan, pool) \<Rightarrow> (Some e, fan, pool)
      | (None, fan, pool) \<Rightarrow> fan_poll_all polled ready fan pool)"

record ('i, 't) fan_state =
  fs_inputs :: "'i list"
  fs_fan :: "'t fan"
  fs_pool :: hostPool
  fs_wakes :: wake_state

datatype ('i, 't, 'p) fanTurn =
    FanFinished "'p flow_error + 't list" "('i, 't) fan_state"
  | FanPending "('i, 't) fan_state"
  | FanAgain "('i, 't) fan_state"

definition fan_end :: "'p flow_error \<Rightarrow> ('i, 't) fan_state \<Rightarrow> ('i, 't, 'p) fanTurn" where
  "fan_end e s = (case fan_clear (fs_fan s) (fs_pool s) of (fan, pool) \<Rightarrow>
     FanFinished (Inl e) (s\<lparr>fs_fan := fan, fs_pool := pool\<rparr>))"

definition fan_turn ::
  "bool \<Rightarrow> scope \<Rightarrow> (nat \<Rightarrow> ('p flow_error + 't) option) \<Rightarrow> ('i, 't) fan_state \<Rightarrow> ('i, 't, 'p) fanTurn" where
  "fan_turn stopped here polled s =
     (if stopped then fan_end (Cancelled (sc_path here)) s
      else case fan_admit stopped here (fs_inputs s) (fs_fan s) (fs_pool s) (fs_wakes s) of
        (Some e, inputs, fan, pool, wakes) \<Rightarrow>
          fan_end e \<lparr>fs_inputs = inputs, fs_fan = fan, fs_pool = pool, fs_wakes = wakes\<rparr>
      | (None, inputs, fan, pool, wakes) \<Rightarrow>
          (case take_ready wakes of (ready, wakes) \<Rightarrow>
             if ready = [] then
               let s = \<lparr>fs_inputs = inputs, fs_fan = fan, fs_pool = pool, fs_wakes = wakes\<rparr> in
               if fan_exhausted fan \<and> length (fan_free fan) = length (fan_slots fan)
               then FanFinished (Inr (map the (filter (\<lambda>r. r \<noteq> None) (fan_results fan)))) (s\<lparr>fs_fan := fan\<lparr>fan_results := []\<rparr>\<rparr>)
               else FanPending s
             else case fan_poll_all polled ready fan pool of
                    (Some e, fan, pool) \<Rightarrow>
                      fan_end e \<lparr>fs_inputs = inputs, fs_fan = fan, fs_pool = pool, fs_wakes = wakes\<rparr>
                  | (None, fan, pool) \<Rightarrow>
                      FanAgain \<lparr>fs_inputs = inputs, fs_fan = fan, fs_pool = pool, fs_wakes = wakes\<rparr>))"

definition fan_begin :: "nat \<Rightarrow> nat option \<Rightarrow> 'i list \<Rightarrow> hostPool \<Rightarrow> ('i, 't) fan_state" where
  "fan_begin policy_fan_out limit items pool =
     (let declared = (case limit of Some written \<Rightarrow> written | None \<Rightarrow> policy_fan_out);
          width = min declared max_in_flight
      in \<lparr>fs_inputs = items, fs_fan = fan_new width (limit \<noteq> None), fs_pool = pool, fs_wakes = wakes_new width\<rparr>)"

section \<open>The invariant\<close>

text \<open>
  Every input admitted so far is in one slot or has its value; \<open>outcome i\<close> is what input \<open>i\<close>'s body answers.
\<close>

definition fan_inv :: "(nat \<Rightarrow> 'p flow_error + 't) \<Rightarrow> nat \<Rightarrow> 't fan \<Rightarrow> bool" where
  "fan_inv outcome width fan \<longleftrightarrow> length (fan_slots fan) = width \<and> slots_ok (fan_slots fan) (fan_free fan) \<and>
     (\<forall>q i at. q < width \<longrightarrow> fan_slots fan ! q = Some (i, at) \<longrightarrow> i < length (fan_results fan) \<and> fan_results fan ! i = None) \<and>
     (\<forall>q q' i at at'. q < width \<longrightarrow> q' < width \<longrightarrow> fan_slots fan ! q = Some (i, at) \<longrightarrow> fan_slots fan ! q' = Some (i, at') \<longrightarrow> q = q') \<and>
     (\<forall>i < length (fan_results fan). fan_results fan ! i = None \<longrightarrow> (\<exists>q < width. \<exists>at. fan_slots fan ! q = Some (i, at))) \<and>
     (\<forall>i < length (fan_results fan). \<forall>v. fan_results fan ! i = Some v \<longrightarrow> outcome i = Inr v)"

lemma fan_invD:
  assumes "fan_inv outcome width fan"
  shows "length (fan_slots fan) = width" and "slots_ok (fan_slots fan) (fan_free fan)"
    and "q < width \<Longrightarrow> fan_slots fan ! q = Some (i, at) \<Longrightarrow> i < length (fan_results fan) \<and> fan_results fan ! i = None"
    and "q < width \<Longrightarrow> q' < width \<Longrightarrow> fan_slots fan ! q = Some (i, at) \<Longrightarrow> fan_slots fan ! q' = Some (i, at') \<Longrightarrow> q = q'"
    and "i < length (fan_results fan) \<Longrightarrow> fan_results fan ! i = None \<Longrightarrow> \<exists>q < width. \<exists>at. fan_slots fan ! q = Some (i, at)"
    and "i < length (fan_results fan) \<Longrightarrow> fan_results fan ! i = Some v \<Longrightarrow> outcome i = Inr v"
  using assms unfolding fan_inv_def by blast+

lemma fan_inv_other [simp]:
  "fan_inv outcome width (fan\<lparr>fan_lease := l\<rparr>) \<longleftrightarrow> fan_inv outcome width fan"
  "fan_inv outcome width (fan\<lparr>fan_exhausted := b\<rparr>) \<longleftrightarrow> fan_inv outcome width fan"
  by (simp_all add: fan_inv_def)

lemma fan_new_inv: "fan_inv outcome width (fan_new width limited)"
  using slots_new_ok [of width] by (simp add: fan_inv_def fan_new_def)

lemma fan_lease_fields:
  "fan_lease_admit fan pool running = (ok, fan', pool') \<Longrightarrow> fan' = fan\<lparr>fan_lease := fan_lease fan'\<rparr>"
  "fan_lease_settle fan pool running = (fan', pool') \<Longrightarrow> fan' = fan\<lparr>fan_lease := fan_lease fan'\<rparr>"
  by (auto simp: fan_lease_admit_def fan_lease_settle_def split: option.splits prod.splits)

lemma lease_settle_held: "snd (lease_settle pool held running) = min held running"
proof (induction pool held running rule: lease_settle.induct)
  case (1 pool held running)
  show ?case
  proof (cases "held > running")
    case True
    then show ?thesis using "1.IH" by (simp add: lease_settle.simps [of pool held])
  qed (simp add: lease_settle.simps [of pool held])
qed

text \<open>One admission, and one body that answered.\<close>

lemma fan_fill_inv:
  assumes inv: "fan_inv outcome width fan" and ne: "fan_free fan \<noteq> []"
  defines "position \<equiv> last (fan_free fan)" and "index \<equiv> length (fan_results fan)"
  shows "position < width" and "fan_inv outcome width (fan\<lparr>fan_free := butlast (fan_free fan),
    fan_results := fan_results fan @ [None], fan_slots := (fan_slots fan)[position := Some (index, at)]\<rparr>)"
proof -
  note d = fan_invD [OF inv]
  have pos: "position < width" "fan_slots fan ! position = None"
    using d(1,2) last_in_set [OF ne] by (auto simp: slots_ok_def position_def)
  then show "position < width" by simp
  let ?slots = "(fan_slots fan)[position := Some (index, at)]" and ?results = "fan_results fan @ [None]"
  have at_q: "?slots ! q = Some (i, a) \<longleftrightarrow> (if q = position then i = index \<and> a = at else fan_slots fan ! q = Some (i, a))"
    if "q < width" for q i a using pos d(1) that by (cases "q = position") auto
  have old: "i < index" if "q < width" "fan_slots fan ! q = Some (i, a)" for q i a
    using d(3) [OF that] by (simp add: index_def)
  let ?fan = "fan\<lparr>fan_free := butlast (fan_free fan), fan_results := ?results, fan_slots := ?slots\<rparr>"
  have fields: "fan_free ?fan = butlast (fan_free fan)" "fan_results ?fan = ?results" "fan_slots ?fan = ?slots" by simp_all
  show "fan_inv outcome width ?fan"
    unfolding fan_inv_def fields
  proof (intro conjI allI impI)
    show "length ?slots = width" using d(1) by simp
    have "fan_free fan = butlast (fan_free fan) @ [position]" using ne by (simp add: position_def)
    with d(2) show "slots_ok ?slots (butlast (fan_free fan))" by (metis slots_fill_ok)
  next
    fix q i a assume q: "q < width" "?slots ! q = Some (i, a)"
    have "i < length ?results \<and> ?results ! i = None"
    proof (cases "q = position")
      case True
      then show ?thesis using q at_q by (simp add: index_def)
    next
      case False
      then have "fan_slots fan ! q = Some (i, a)" using q at_q by simp
      from d(3) [OF q(1) this] show ?thesis by (simp add: nth_append)
    qed
    then show "i < length ?results" "?results ! i = None" by simp_all
  next
    fix q q' i a a' assume "q < width" "q' < width" "?slots ! q = Some (i, a)" "?slots ! q' = Some (i, a')"
    then show "q = q'" using at_q old d(4) by (metis less_irrefl)
  next
    fix i assume i: "i < length ?results" "?results ! i = None"
    show "\<exists>q < width. \<exists>a. ?slots ! q = Some (i, a)"
    proof (cases "i = index")
      case True
      then show ?thesis using pos(1) at_q by (intro exI [of _ position]) auto
    next
      case False
      then have "i < length (fan_results fan)" "fan_results fan ! i = None" using i by (auto simp: index_def nth_append split: if_splits)
      from d(5) [OF this] obtain q a where q: "q < width" "fan_slots fan ! q = Some (i, a)" by blast
      moreover have "q \<noteq> position" using q(2) pos(2) by auto
      ultimately have "?slots ! q = Some (i, a)" using at_q by simp
      then show ?thesis using q(1) by blast
    qed
  next
    fix i v assume "i < length ?results" "?results ! i = Some v"
    then show "outcome i = Inr v" using d(6) by (auto simp: nth_append split: if_splits)
  qed
qed

lemma fan_answer_inv:
  assumes inv: "fan_inv outcome width fan" and pos: "position < width" "fan_slots fan ! position = Some (index, at)"
    and val: "outcome index = Inr v"
  shows "index < length (fan_results fan)" and "fan_inv outcome width (fan\<lparr>fan_slots := (fan_slots fan)[position := None],
    fan_free := fan_free fan @ [position], fan_results := (fan_results fan)[index := Some v]\<rparr>)"
proof -
  note d = fan_invD [OF inv]
  have ix: "index < length (fan_results fan)" "fan_results fan ! index = None" using d(3) [OF pos] by simp_all
  then show "index < length (fan_results fan)" by simp
  let ?slots = "(fan_slots fan)[position := None]" and ?results = "(fan_results fan)[index := Some v]"
  have at_q: "?slots ! q = Some (i, a) \<longleftrightarrow> q \<noteq> position \<and> fan_slots fan ! q = Some (i, a)" if "q < width" for q i a
    using d(1) that by (cases "q = position") auto
  let ?fan = "fan\<lparr>fan_slots := ?slots, fan_free := fan_free fan @ [position], fan_results := ?results\<rparr>"
  have fields: "fan_free ?fan = fan_free fan @ [position]" "fan_results ?fan = ?results" "fan_slots ?fan = ?slots" by simp_all
  show "fan_inv outcome width ?fan"
    unfolding fan_inv_def fields
  proof (intro conjI allI impI)
    show "length ?slots = width" using d(1) by simp
    show "slots_ok ?slots (fan_free fan @ [position])" using slots_clear_ok [OF d(2) _ pos(2)] pos(1) d(1) by simp
  next
    fix q i a assume q: "q < width" "?slots ! q = Some (i, a)"
    then have s: "q \<noteq> position" "fan_slots fan ! q = Some (i, a)" using at_q by blast+
    then have "i \<noteq> index" using d(4) [OF q(1) pos(1) s(2)] pos(2) by blast
    then show "i < length ?results" "?results ! i = None" using d(3) [OF q(1) s(2)] by simp_all
  next
    fix q q' i a a' assume "q < width" "q' < width" "?slots ! q = Some (i, a)" "?slots ! q' = Some (i, a')"
    then show "q = q'" using at_q d(4) by blast
  next
    fix i assume i: "i < length ?results" "?results ! i = None"
    then have "i \<noteq> index" "fan_results fan ! i = None" using ix(1) by (auto simp: nth_list_update split: if_splits)
    moreover from this i d(5) obtain q a where q: "q < width" "fan_slots fan ! q = Some (i, a)" by (metis length_list_update)
    moreover have "q \<noteq> position" using q pos(2) \<open>i \<noteq> index\<close> by auto
    ultimately have "?slots ! q = Some (i, a)" using at_q by simp
    then show "\<exists>q < width. \<exists>a. ?slots ! q = Some (i, a)" using q(1) by blast
  next
    fix i w assume "i < length ?results" "?results ! i = Some w"
    then show "outcome i = Inr w" using d(6) val ix(1) by (cases "i = index") simp_all
  qed
qed

text \<open>The lease never holds more host slots than bodies are running.\<close>

definition lease_within :: "'t fan \<Rightarrow> bool" where
  "lease_within fan \<longleftrightarrow> (case fan_lease fan of None \<Rightarrow> True | Some held \<Rightarrow> held \<le> fan_running fan)"

definition fan_ok :: "(nat \<Rightarrow> 'p flow_error + 't) \<Rightarrow> nat \<Rightarrow> nat \<Rightarrow> 'i list \<Rightarrow> 't fan \<Rightarrow> bool" where
  "fan_ok outcome width n inputs fan \<longleftrightarrow> fan_inv outcome width fan \<and> lease_within fan \<and>
     length (fan_results fan) + length inputs = n \<and> (fan_exhausted fan \<longrightarrow> inputs = [])"

lemma fan_running_fill:
  assumes "fan_inv outcome width fan" and "fan_free fan \<noteq> []"
  shows "fan_running (fan\<lparr>fan_free := butlast (fan_free fan), fan_results := r, fan_slots := (fan_slots fan)[q := x], fan_lease := l\<rparr>)
    = Suc (fan_running fan)"
proof -
  have "length (fan_free fan) \<le> length (fan_slots fan)" by (rule slots_free_length [OF fan_invD(2) [OF assms(1)]])
  moreover have "0 < length (fan_free fan)" using assms(2) by simp
  ultimately have "length (fan_slots fan) - (length (fan_free fan) - 1) = Suc (length (fan_slots fan) - length (fan_free fan))" by linarith
  then show ?thesis by (simp add: fan_running_def slots_running_def)
qed

lemma fan_settle_ok:
  assumes "fan_lease_settle fan pool (fan_running fan) = (fan', pool')"
  shows "lease_within fan'" and "fan' = fan\<lparr>fan_lease := fan_lease fan'\<rparr>"
proof -
  show f: "fan' = fan\<lparr>fan_lease := fan_lease fan'\<rparr>" by (rule fan_lease_fields(2) [OF assms])
  show "lease_within fan'"
  proof (cases "fan_lease fan")
    case None
    then show ?thesis using assms by (simp add: fan_lease_settle_def lease_within_def)
  next
    case (Some held)
    have "fan_lease fan' = Some (min held (fan_running fan))"
      using assms lease_settle_held [of pool held "fan_running fan"] Some by (auto simp: fan_lease_settle_def split: prod.splits)
    moreover have "fan_running fan' = fan_running fan" by (subst f) (simp add: fan_running_def)
    ultimately show ?thesis by (simp add: lease_within_def)
  qed
qed

lemma lease_admit_held: "lease_admit pool held running = (ok, pool', held') \<Longrightarrow> held' \<le> Suc held \<and> (\<not> ok \<longrightarrow> held' = held)"
  by (auto simp: lease_admit_def try_acquire_def sat_add_usize_def split: if_splits)

text \<open>Every body in a slot runs in the scope that numbers its own input under the fan-out's scope.\<close>

definition body_path :: "scope \<Rightarrow> nat \<Rightarrow> string" where
  "body_path here index = sc_path here @ ''#'' @ show_nat index"

definition fan_placed :: "scope \<Rightarrow> 't fan \<Rightarrow> bool" where
  "fan_placed here fan \<longleftrightarrow> (\<forall>i at. Some (i, at) \<in> set (fan_slots fan) \<longrightarrow> at = body_path here i)"

lemma fan_placedD: "fan_placed here fan \<Longrightarrow> Some (i, at) \<in> set (fan_slots fan) \<Longrightarrow> at = body_path here i"
  by (simp add: fan_placed_def)

lemma fan_placed_sub:
  "fan_placed here fan \<Longrightarrow> set (fan_slots fan') \<subseteq> insert None (set (fan_slots fan)) \<Longrightarrow> fan_placed here fan'"
  unfolding fan_placed_def by blast

lemma fan_placed_new: "fan_placed here (fan_new width limited)"
  by (simp add: fan_placed_def fan_new_def)

lemma numbered_path: "scope_numbered stopped here index = Inr sc \<Longrightarrow> sc_path sc = body_path here index"
  by (simp add: scope_numbered_def descend_ok body_path_def)

lemma fan_settle_slots: "fan_lease_settle fan pool running = (fan', pool') \<Longrightarrow> fan_slots fan' = fan_slots fan"
  by (auto simp: fan_lease_settle_def split: option.splits prod.splits)

lemma fan_admit_slots: "fan_lease_admit fan pool running = (ok, fan', pool') \<Longrightarrow> fan_slots fan' = fan_slots fan"
  by (auto simp: fan_lease_admit_def split: option.splits prod.splits)

lemma fan_admit_placed:
  fixes err :: "'q flow_error option"
  assumes "fan_placed here fan"
    and "fan_admit stopped here inputs fan pool wakes = (err, inputs', fan', pool', wakes')"
  shows "fan_placed here fan'"
  using assms
proof (induction inputs arbitrary: fan pool wakes)
  case Nil
  then show ?case
    by (auto simp: fan_admit.simps [of _ _ "[]"] Let_def fan_placed_def
      dest!: fan_admit_slots fan_settle_slots split: if_splits prod.splits bool.splits)
next
  case (Cons item rest)
  note sim = fan_admit.simps [of stopped here "item # rest" fan pool wakes]
  obtain ok fan1 pool1 where a: "fan_lease_admit fan pool (fan_running fan) = (ok, fan1, pool1)" by (metis prod_cases3)
  note slots = fan_admit_slots [OF a]
  consider "fan_slots fan' = fan_slots fan"
    | sc where "scope_numbered stopped here (length (fan_results fan1)) = (Inr sc :: 'q flow_error + scope)"
        "\<not> fan_exhausted fan" "fan_free fan \<noteq> []" ok
    using Cons.prems(2) slots a
    by (cases "scope_numbered stopped here (length (fan_results fan1)) :: 'q flow_error + scope")
      (auto simp: sim Let_def split: if_splits bool.splits)
  then show ?case
  proof cases
    case 1
    then show ?thesis using Cons.prems(1) by (simp add: fan_placed_def)
  next
    case (2 sc)
    let ?index = "length (fan_results fan1)" and ?position = "last (fan_free fan)"
    let ?mid = "fan1\<lparr>fan_free := butlast (fan_free fan1), fan_results := fan_results fan1 @ [None]\<rparr>"
    let ?fan = "if ?position < length (fan_slots ?mid)
      then ?mid\<lparr>fan_slots := (fan_slots ?mid)[?position := Some (?index, sc_path sc)]\<rparr> else ?mid"
    have "fan_placed here ?fan"
      using Cons.prems(1) numbered_path [OF 2(1)] set_update_subset_insert [of "fan_slots fan"]
      by (fastforce simp: fan_placed_def slots)
    moreover have "fan_admit stopped here rest ?fan pool1 (wakes_mark wakes ?position) = (err, inputs', fan', pool', wakes')"
      using Cons.prems(2) 2 a by (simp add: sim Let_def)
    ultimately show ?thesis by (rule Cons.IH)
  qed
qed

lemma fan_poll_slot_placed:
  assumes "fan_placed here fan" and "fan_poll_slot polled position fan pool = (err, fan', pool')"
  shows "fan_placed here fan'"
proof -
  have "set (fan_slots fan') \<subseteq> insert None (set (fan_slots fan))"
    using assms(2) set_update_subset_insert [of "fan_slots fan" position None]
    by (auto simp: fan_poll_slot_def Let_def fan_lease_settle_def split: if_splits option.splits sum.splits prod.splits)
  then show ?thesis by (rule fan_placed_sub [OF assms(1)])
qed

text \<open>
  A pass of \<open>admit\<close> keeps the invariant, and it ends because the inputs are spent, the slots are full
  or a body is running.
\<close>

lemma fan_admit_ok:
  fixes outcome :: "nat \<Rightarrow> 'p flow_error + 't" and err :: "'q flow_error option"
  assumes "fan_ok outcome width n inputs fan"
    and "fan_admit stopped here inputs fan pool wakes = (err, inputs', fan', pool', wakes')"
  shows "(case err of None \<Rightarrow> fan_ok outcome width n inputs' fan' \<and>
        (fan_exhausted fan' \<or> fan_free fan' = [] \<or> 0 < fan_running fan')
    | Some e \<Rightarrow> \<exists>index < n. scope_numbered stopped here index = Inl e)"
  using assms
proof (induction inputs arbitrary: fan pool wakes rule: measure_induct_rule [where f = length])
  case (less inputs)
  note sim = fan_admit.simps [of stopped here inputs fan pool wakes]
  have inv: "fan_inv outcome width fan" and within: "lease_within fan" using less.prems(1) by (simp_all add: fan_ok_def)
  show ?case
  proof (cases "fan_exhausted fan \<or> fan_free fan = []")
    case True
    then show ?thesis using less.prems by (auto simp: sim Let_def split: if_splits)
  next
    case False
    then have nx: "\<not> fan_exhausted fan" and ne: "fan_free fan \<noteq> []" by simp_all
    obtain ok fan1 pool1 where a: "fan_lease_admit fan pool (fan_running fan) = (ok, fan1, pool1)" by (metis prod_cases3)
    note f1 = fan_lease_fields(1) [OF a]
    have inv1: "fan_inv outcome width fan1" using inv by (subst f1) simp
    have held: "case fan_lease fan1 of None \<Rightarrow> True | Some h \<Rightarrow> h \<le> Suc (fan_running fan) \<and> (\<not> ok \<longrightarrow> h \<le> fan_running fan)"
      using a within lease_admit_held by (fastforce simp: fan_lease_admit_def lease_within_def split: option.splits prod.splits)
    have same: "fan_exhausted fan1 = fan_exhausted fan" "fan_free fan1 = fan_free fan" "fan_results fan1 = fan_results fan"
      "fan_slots fan1 = fan_slots fan" "fan_running fan1 = fan_running fan"
      using f1 by (metis fan.select_convs fan.surjective fan.update_convs(5), metis fan.select_convs fan.surjective fan.update_convs(5),
        metis fan.select_convs fan.surjective fan.update_convs(5), metis fan.select_convs fan.surjective fan.update_convs(5),
        metis fan.select_convs fan.surjective fan.update_convs(5) fan_running_def)
    show ?thesis
    proof (cases ok)
      case False
      then have "lease_within fan1" using held same(5) by (auto simp: lease_within_def split: option.splits)
      moreover have "0 < fan_running fan" using a False
        by (auto simp: fan_lease_admit_def lease_admit_def split: option.splits prod.splits bool.splits)
      ultimately show ?thesis using less.prems False nx ne a inv1 same by (auto simp: sim Let_def fan_ok_def)
    next
      case True
      show ?thesis
      proof (cases inputs)
        case Nil
        obtain fan2 pool2 where s: "fan_lease_settle fan1 pool1 (fan_running fan) = (fan2, pool2)" by (metis surj_pair)
        then have s': "fan_lease_settle fan1 pool1 (fan_running fan1) = (fan2, pool2)" by (simp only: same)
        note f2 = fan_settle_ok [OF s']
        have "fan_inv outcome width (fan2\<lparr>fan_exhausted := True\<rparr>)" using inv1 by (subst f2(2)) simp
        moreover have "lease_within (fan2\<lparr>fan_exhausted := True\<rparr>)" using f2(1) by (auto simp: lease_within_def fan_running_def split: option.splits)
        moreover have "fan_results fan2 = fan_results fan" by (subst f2(2)) (simp add: same)
        moreover have "err = None \<and> inputs' = [] \<and> fan' = fan2\<lparr>fan_exhausted := True\<rparr>"
          using less.prems(2) nx ne a True Nil s by (simp add: sim [unfolded Nil] Let_def)
        ultimately show ?thesis using less.prems(1) Nil by (simp add: fan_ok_def)
      next
        case (Cons item rest)
        let ?index = "length (fan_results fan1)" and ?position = "last (fan_free fan)"
        show ?thesis
        proof (cases "scope_numbered stopped here ?index :: 'q flow_error + scope")
          case (Inl e)
          then have "err = Some e" using less.prems(2) nx ne a True Cons by (simp add: sim [unfolded Cons] Let_def)
          moreover have "?index < n" using less.prems(1) Cons by (simp add: fan_ok_def same)
          ultimately show ?thesis using Inl by auto
        next
          case (Inr sc)
          have pos: "?position < length (fan_slots fan1)"
            using fan_fill_inv(1) [OF inv ne] fan_invD(1) [OF inv1] by simp
          let ?mid = "fan1\<lparr>fan_free := butlast (fan_free fan1), fan_results := fan_results fan1 @ [None]\<rparr>"
          let ?fan = "?mid\<lparr>fan_slots := (fan_slots ?mid)[?position := Some (?index, sc_path sc)]\<rparr>"
          have "fan_inv outcome width ?fan"
            using fan_fill_inv(2) [OF inv1, of "sc_path sc"] ne by (simp add: same)
          moreover have "lease_within ?fan"
          proof -
            have "fan_running ?fan = Suc (fan_running fan)"
              using fan_running_fill [OF inv1, where r = "fan_results fan1 @ [None]" and q = ?position and x = "Some (?index, sc_path sc)" and l = "fan_lease fan1"] ne
              by (simp add: same fan_running_def)
            then show ?thesis using held by (auto simp: lease_within_def split: option.splits)
          qed
          ultimately have "fan_ok outcome width n rest ?fan"
            using less.prems(1) Cons nx by (simp add: fan_ok_def same)
          moreover have "fan_admit stopped here rest ?fan pool1 (wakes_mark wakes ?position) = (err, inputs', fan', pool', wakes')"
            using less.prems(2) nx ne a True Cons Inr pos by (simp add: sim [unfolded Cons] Let_def same)
          moreover have "length rest < length inputs" using Cons by simp
          ultimately show ?thesis using less.IH by blast
        qed
      qed
    qed
  qed
qed

lemma fan_poll_slot_ok:
  fixes outcome :: "nat \<Rightarrow> 'p flow_error + 't"
  assumes ok: "fan_ok outcome width n inputs fan" and placed: "fan_placed here fan"
    and answers: "\<And>i r. polled i = Some r \<Longrightarrow> outcome i = r"
    and poll: "fan_poll_slot polled position fan pool = (err, fan', pool')"
  shows "(case err of None \<Rightarrow> fan_ok outcome width n inputs fan'
    | Some e \<Rightarrow> \<exists>i < n. \<exists>e0. outcome i = Inl e0 \<and> e = located_at (body_path here i) e0)"
proof -
  have inv: "fan_inv outcome width fan" and n: "length (fan_results fan) + length inputs = n"
    and ex: "fan_exhausted fan \<longrightarrow> inputs = []" using ok by (simp_all add: fan_ok_def)
  note len = fan_invD(1) [OF inv]
  consider "err = None" "fan' = fan" | index at r where "position < width" "fan_slots fan ! position = Some (index, at)"
      "polled index = Some r"
    using poll len by (auto simp: fan_poll_slot_def split: if_splits option.splits)
  then show ?thesis
  proof cases
    case 1
    then show ?thesis using ok by simp
  next
    case (2 index at r)
    let ?mid = "fan\<lparr>fan_slots := (fan_slots fan)[position := None], fan_free := fan_free fan @ [position]\<rparr>"
    obtain fan2 pool2 where s: "fan_lease_settle ?mid pool (fan_running ?mid) = (fan2, pool2)" by (metis surj_pair)
    note f2 = fan_settle_ok [OF s]
    have same: "fan_results fan2 = fan_results fan" "fan_exhausted fan2 = fan_exhausted fan" by (subst f2(2), simp)+
    have index: "index < length (fan_results fan)" using fan_invD(3) [OF inv 2(1,2)] by simp
    show ?thesis
    proof (cases r)
      case (Inl e0)
      then have "err = Some (located_at at e0)" using poll 2 s len by (simp add: fan_poll_slot_def Let_def)
      moreover have "at = body_path here index"
        using fan_placedD [OF placed] 2(1,2) nth_mem [of position "fan_slots fan"] len by simp
      moreover have "index < n" "outcome index = Inl e0" using index n answers [OF 2(3)] Inl by simp_all
      ultimately show ?thesis by auto
    next
      case (Inr v)
      have r: "err = None" "fan' = fan2\<lparr>fan_results := (fan_results fan2)[index := Some v]\<rparr>"
        using poll 2 s len Inr index same by (simp_all add: fan_poll_slot_def Let_def)
      have "outcome index = Inr v" using answers [OF 2(3)] Inr by simp
      note a = fan_answer_inv(2) [OF inv 2(1,2) this]
      have "fan' = (?mid\<lparr>fan_results := (fan_results fan)[index := Some v]\<rparr>)\<lparr>fan_lease := fan_lease fan2\<rparr>"
        unfolding r(2) same by (subst f2(2)) simp
      then have "fan_inv outcome width fan'" using a by simp
      moreover have "lease_within fan'" using f2(1) r(2) by (auto simp: lease_within_def fan_running_def split: option.splits)
      ultimately show ?thesis using n ex r same by (simp add: fan_ok_def)
    qed
  qed
qed

lemma fan_poll_all_ok:
  fixes outcome :: "nat \<Rightarrow> 'p flow_error + 't"
  assumes "fan_ok outcome width n inputs fan" and "fan_placed here fan"
    and answers: "\<And>i r. polled i = Some r \<Longrightarrow> outcome i = r"
    and "fan_poll_all polled ready fan pool = (err, fan', pool')"
  shows "(case err of None \<Rightarrow> fan_ok outcome width n inputs fan' \<and> fan_placed here fan'
    | Some e \<Rightarrow> \<exists>i < n. \<exists>e0. outcome i = Inl e0 \<and> e = located_at (body_path here i) e0)"
  using assms(1,2,4)
proof (induction ready arbitrary: fan pool)
  case (Cons position ready)
  obtain err1 fan1 pool1 where s: "fan_poll_slot polled position fan pool = (err1, fan1, pool1)" by (metis prod_cases3)
  show ?case
  proof (cases err1)
    case None
    have "fan_ok outcome width n inputs fan1" using fan_poll_slot_ok [OF Cons.prems(1,2) answers s] None by simp
    moreover have "fan_placed here fan1" by (rule fan_poll_slot_placed [OF Cons.prems(2) s])
    ultimately show ?thesis using Cons.IH Cons.prems(3) s None by simp
  next
    case (Some e)
    then have "err = Some e" using Cons.prems(3) s by simp
    moreover have "\<exists>i < n. \<exists>e0. outcome i = Inl e0 \<and> e = located_at (body_path here i) e0"
      using fan_poll_slot_ok [OF Cons.prems(1,2) answers s] Some by simp
    ultimately show ?thesis by simp
  qed
qed simp

section \<open>The driver\<close>

text \<open>
  The states a fan-out goes through: turns of its own future, between which wakers fire and other
  fan-outs take slots of the host pool and give them back. \<open>fan_answers outcome polled\<close>: a poll is
  pending or gives the body's answer.
\<close>

definition fan_answers :: "(nat \<Rightarrow> 'p flow_error + 't) \<Rightarrow> (nat \<Rightarrow> ('p flow_error + 't) option) \<Rightarrow> bool" where
  "fan_answers outcome polled \<longleftrightarrow> (\<forall>i r. polled i = Some r \<longrightarrow> outcome i = r)"

inductive fan_reach ::
  "(nat \<Rightarrow> 'p flow_error + 't) \<Rightarrow> scope \<Rightarrow> nat \<Rightarrow> nat option \<Rightarrow> 'i list \<Rightarrow> ('i, 't) fan_state \<Rightarrow> bool"
  for outcome :: "nat \<Rightarrow> 'p flow_error + 't" and here policy_fan_out limit items where
  begin_fan: "fan_reach outcome here policy_fan_out limit items (fan_begin policy_fan_out limit items pool)"
| again: "\<lbrakk>fan_reach outcome here policy_fan_out limit items s; fan_answers outcome polled;
    fan_turn stopped here polled s = FanAgain s'\<rbrakk> \<Longrightarrow> fan_reach outcome here policy_fan_out limit items s'"
| pending: "\<lbrakk>fan_reach outcome here policy_fan_out limit items s; fan_answers outcome polled;
    fan_turn stopped here polled s = FanPending s'\<rbrakk> \<Longrightarrow> fan_reach outcome here policy_fan_out limit items s'"
| others: "fan_reach outcome here policy_fan_out limit items s \<Longrightarrow>
    fan_reach outcome here policy_fan_out limit items (s\<lparr>fs_pool := pool, fs_wakes := wakes\<rparr>)"

definition fan_width :: "nat \<Rightarrow> nat option \<Rightarrow> nat" where
  "fan_width policy_fan_out limit = min (case limit of Some written \<Rightarrow> written | None \<Rightarrow> policy_fan_out) max_in_flight"

abbreviation fan_state_ok :: "(nat \<Rightarrow> 'p flow_error + 't) \<Rightarrow> scope \<Rightarrow> nat \<Rightarrow> nat \<Rightarrow> ('i, 't) fan_state \<Rightarrow> bool" where
  "fan_state_ok outcome here width n s \<equiv> fan_ok outcome width n (fs_inputs s) (fs_fan s) \<and> fan_placed here (fs_fan s)"

lemma fan_idle_end:
  fixes outcome :: "nat \<Rightarrow> 'p flow_error + 't"
  assumes ok: "fan_ok outcome width n inputs fan" and ex: "fan_exhausted fan" and free: "length (fan_free fan) = length (fan_slots fan)"
  defines "vs \<equiv> map the (filter (\<lambda>r. r \<noteq> None) (fan_results fan))"
  shows "length vs = n \<and> (\<forall>i < n. outcome i = Inr (vs ! i))"
proof -
  have inv: "fan_inv outcome width fan" and n: "length (fan_results fan) = n" using ok ex by (auto simp: fan_ok_def)
  note d = fan_invD [OF inv]
  have "slots_running (fan_slots fan) (fan_free fan) = 0" using free by (simp add: slots_running_def)
  from slots_idle [OF d(2) this] have "fan_slots fan ! q = None" if "q < width" for q using d(1) that by simp
  then have some: "fan_results fan ! i \<noteq> None" if "i < n" for i using d(5) [of i] n that by fastforce
  then have "filter (\<lambda>r. r \<noteq> None) (fan_results fan) = fan_results fan"
    using n by (intro filter_True) (auto simp: in_set_conv_nth)
  then have vs: "vs = map the (fan_results fan)" by (simp add: vs_def)
  have "outcome i = Inr (vs ! i)" if "i < n" for i
  proof -
    obtain v where "fan_results fan ! i = Some v" using some [OF \<open>i < n\<close>] by blast
    then show ?thesis using d(6) [of i v] n that by (simp add: vs)
  qed
  then show ?thesis using n by (simp add: vs)
qed

lemma fan_idle_pending:
  assumes ok: "fan_ok outcome width n inputs fan" and sat: "fan_exhausted fan \<or> fan_free fan = [] \<or> 0 < fan_running fan"
    and go: "\<not> (fan_exhausted fan \<and> length (fan_free fan) = length (fan_slots fan))" and w: "0 < width"
  shows "0 < fan_running fan"
proof -
  note d = fan_invD(1,2) [OF conjunct1 [OF ok [unfolded fan_ok_def]]]
  have "length (fan_free fan) \<le> length (fan_slots fan)" by (rule slots_free_length [OF d(2)])
  then show ?thesis using sat go w d(1) by (auto simp: fan_running_def slots_running_def)
qed

text \<open>What one turn does, by its three results.\<close>

lemma numbered_refused: "scope_numbered False here index = Inl e \<Longrightarrow> max_depth \<le> sc_depth here \<and> e = TooDeep (sc_path here) max_depth"
  by (simp add: scope_numbered_def descend_def checkpoint_def split: if_splits)

lemma fan_turn_ok:
  fixes outcome :: "nat \<Rightarrow> 'p flow_error + 't"
  assumes ok: "fan_state_ok outcome here width n s" and answers: "fan_answers outcome polled"
  shows "case fan_turn stopped here polled s of
      FanAgain s' \<Rightarrow> fan_state_ok outcome here width n s'
    | FanPending s' \<Rightarrow> fan_state_ok outcome here width n s' \<and> (0 < width \<longrightarrow> 0 < fan_running (fs_fan s'))
    | FanFinished (Inr vs) s' \<Rightarrow> \<not> stopped \<and> length vs = n \<and> (\<forall>i < n. outcome i = Inr (vs ! i))
    | FanFinished (Inl e) s' \<Rightarrow> if stopped then e = Cancelled (sc_path here)
        else (0 < n \<and> max_depth \<le> sc_depth here \<and> e = TooDeep (sc_path here) max_depth) \<or>
          (\<exists>i < n. \<exists>e0. outcome i = Inl e0 \<and> e = located_at (body_path here i) e0)"
proof (cases stopped)
  case True
  then show ?thesis by (simp add: fan_turn_def fan_end_def split: prod.splits)
next
  case False
  obtain err inputs fan pool wakes where a:
    "fan_admit stopped here (fs_inputs s) (fs_fan s) (fs_pool s) (fs_wakes s) = (err :: 'p flow_error option, inputs, fan, pool, wakes)"
    by (metis prod_cases5)
  note admitted = fan_admit_ok [OF conjunct1 [OF ok] a] and placed = fan_admit_placed [OF conjunct2 [OF ok] a]
  obtain ready wakes' where r: "take_ready wakes = (ready, wakes')" by (metis surj_pair)
  show ?thesis
  proof (cases err)
    case (Some e)
    then obtain index where "index < n" "scope_numbered False here index = Inl e" using admitted \<open>\<not> stopped\<close> by auto
    then have "0 < n" "max_depth \<le> sc_depth here" "e = TooDeep (sc_path here) max_depth"
      using numbered_refused [of here index e] by auto
    then show ?thesis using False a Some by (simp add: fan_turn_def fan_end_def split: prod.splits)
  next
    case None
    then have ok1: "fan_ok outcome width n inputs fan"
      and sat: "fan_exhausted fan \<or> fan_free fan = [] \<or> 0 < fan_running fan" using admitted by simp_all
    show ?thesis
    proof (cases "ready = []")
      case True
      then show ?thesis using False a None r fan_idle_end [OF ok1] fan_idle_pending [OF ok1 sat] placed
        by (simp add: fan_turn_def Let_def ok1)
    next
      case False
      obtain err2 fan2 pool2 where p: "fan_poll_all polled ready fan pool = (err2, fan2, pool2)" by (metis prod_cases3)
      have "\<And>i r. polled i = Some r \<Longrightarrow> outcome i = r" using answers by (simp add: fan_answers_def)
      note polled = fan_poll_all_ok [OF ok1 placed this p]
      show ?thesis
        using polled False \<open>\<not> stopped\<close> a None r p by (cases err2) (simp_all add: fan_turn_def fan_end_def split: prod.splits)
    qed
  qed
qed

lemma fan_reach_ok:
  "fan_reach outcome here policy_fan_out limit items s \<Longrightarrow>
    fan_state_ok outcome here (fan_width policy_fan_out limit) (length items) s"
proof (induction rule: fan_reach.induct)
  case (begin_fan pool)
  then show ?case using fan_new_inv [of outcome "fan_width policy_fan_out limit" "limit \<noteq> None"] fan_placed_new
    by (auto simp: fan_begin_def Let_def fan_width_def fan_ok_def lease_within_def fan_new_def fan_placed_def split: option.splits)
next
  case (again s polled stopped s')
  then show ?case using fan_turn_ok [OF again.IH again.hyps(2), of stopped] by simp
next
  case (pending s polled stopped s')
  then show ?case using fan_turn_ok [OF pending.IH pending.hyps(2), of stopped] by simp
qed simp

section \<open>Concrete runs\<close>

lemmas fan_eval = fan_turn_def fan_begin_def fan_new_def max_in_flight_def fan_admit.simps Let_def wakes_new_def fan_running_def
  fan_lease_admit_def fan_lease_settle_def scope_numbered_def descend_def checkpoint_def scope_root_def max_depth_def
  wakes_mark_def enqueue_def take_ready_def slots_running_def fan_poll_slot_def upt_rec numeral_2_eq_2

definition two_mid :: "(nat, nat) fan_state" where
  "two_mid = \<lparr>fs_inputs = [], fs_fan = \<lparr>fan_slots = [None, None], fan_free = [0, 1], fan_results = [Some 0, Some 10],
     fan_exhausted = False, fan_lease = None\<rparr>, fs_pool = with_ceiling 5, fs_wakes = wakes_new 2\<rparr>"

definition two_polled :: "nat \<Rightarrow> (unit flow_error + nat) option" where
  "two_polled i = Some (Inr (10 * i))"

lemma two_first: "fan_turn False scope_root two_polled (fan_begin 1 (Some 2) [7::nat, 8] (with_ceiling 5)) = FanAgain two_mid"
  by (simp add: two_mid_def two_polled_def fan_eval)

lemma two_last: "fan_turn False scope_root two_polled two_mid =
  FanFinished (Inr [0, 10]) (two_mid\<lparr>fs_fan := (fs_fan two_mid)\<lparr>fan_results := [], fan_exhausted := True\<rparr>\<rparr>)"
  by (simp add: two_mid_def fan_eval)

lemma two_reach: "fan_reach (\<lambda>i. Inr (10 * i) :: unit flow_error + nat) scope_root 1 (Some 2) [7::nat, 8] two_mid"
  by (rule fan_reach.again [OF fan_reach.begin_fan _ two_first]) (simp add: fan_answers_def two_polled_def)

text \<open>One body that has not answered: its slot is polled, then the fan-out suspends.\<close>

definition one_waiting :: "(nat, nat) fan_state" where
  "one_waiting = \<lparr>fs_inputs = [], fs_fan = \<lparr>fan_slots = [Some (0, ''#'' @ show_nat 0)], fan_free = [], fan_results = [None],
     fan_exhausted = False, fan_lease = None\<rparr>, fs_pool = with_ceiling 5, fs_wakes = wakes_new 1\<rparr>"

definition no_polled :: "nat \<Rightarrow> (unit flow_error + nat) option" where
  "no_polled i = None"

lemma one_first: "fan_turn False scope_root no_polled (fan_begin 1 (Some 1) [7::nat] (with_ceiling 5)) = FanAgain one_waiting"
  by (simp add: one_waiting_def no_polled_def fan_eval)

lemma one_waits: "fan_turn False scope_root no_polled one_waiting = FanPending one_waiting"
  by (simp add: one_waiting_def fan_eval)

lemma one_reach: "fan_reach (\<lambda>i. Inr 3 :: unit flow_error + nat) scope_root 1 (Some 1) [7::nat] one_waiting"
  by (rule fan_reach.again [OF fan_reach.begin_fan _ one_first]) (simp add: fan_answers_def no_polled_def)

section \<open>What a fan-out promises\<close>

text \<open>
  C30: The fan-out returns, for every input in the order the caller gave them, the value its body
  answered. A cancelled fan-out fails with the cancellation of its own scope. One that is not cancelled
  fails only because its scope is too deep to hold an element's scope, or with the error of a body that
  failed, located at the numbered scope of that body's own input.
\<close>

theorem fan_out_ordered:
  assumes "fan_reach outcome here policy_fan_out limit items s" and "fan_answers outcome polled"
    and "fan_turn stopped here polled s = FanFinished result s'"
  shows "case result of
      Inr vs \<Rightarrow> \<not> stopped \<and> length vs = length items \<and> (\<forall>i < length items. outcome i = Inr (vs ! i))
    | Inl e \<Rightarrow> if stopped then e = Cancelled (sc_path here)
        else (items \<noteq> [] \<and> max_depth \<le> sc_depth here \<and> e = TooDeep (sc_path here) max_depth) \<or>
          (\<exists>i < length items. \<exists>e0. outcome i = Inl e0 \<and> e = located_at (sc_path here @ ''#'' @ show_nat i) e0)"
  using fan_turn_ok [OF fan_reach_ok [OF assms(1)] assms(2), of stopped] assms(3)
  by (cases stopped; cases result) (simp_all add: body_path_def)

text \<open>Never more bodies run than the written limit or the policy's fan-out, capped by the host ceiling, and the fan-out never holds more slots of the host pool than bodies run.\<close>

theorem fan_out_in_flight:
  assumes "fan_reach outcome here policy_fan_out limit items s"
  shows "fan_running (fs_fan s) \<le> fan_width policy_fan_out limit \<and>
    (case fan_lease (fs_fan s) of None \<Rightarrow> True | Some held \<Rightarrow> held \<le> fan_running (fs_fan s))"
proof -
  have ok: "fan_ok outcome (fan_width policy_fan_out limit) (length items) (fs_inputs s) (fs_fan s)"
    by (rule conjunct1 [OF fan_reach_ok [OF assms]])
  then have "length (fan_slots (fs_fan s)) = fan_width policy_fan_out limit"
    using fan_invD(1) by (auto simp: fan_ok_def)
  then show ?thesis using ok by (simp add: fan_ok_def lease_within_def fan_running_def slots_running_def)
qed

text \<open>A fan-out that suspends waits for a body of its own: it never waits for the host pool while nothing of its own runs.\<close>

theorem fan_out_waits_on_a_body:
  assumes "fan_reach outcome here policy_fan_out limit items s" and "fan_answers outcome polled"
    and "fan_turn stopped here polled s = FanPending s'" and "0 < fan_width policy_fan_out limit"
  shows "0 < fan_running (fs_fan s')"
  using fan_turn_ok [OF fan_reach_ok [OF assms(1)] assms(2), of stopped] assms(3,4) by simp

theorem fan_out_ordered_witness:
  "fan_turn False scope_root two_polled two_mid =
      FanFinished (Inr [0, 10]) (two_mid\<lparr>fs_fan := (fs_fan two_mid)\<lparr>fan_results := [], fan_exhausted := True\<rparr>\<rparr>) \<and>
    two_polled 0 = Some (Inr 0) \<and> two_polled (length [7::nat]) = Some (Inr 10)"
proof -
  have "fan_answers (\<lambda>i. Inr (10 * i) :: unit flow_error + nat) two_polled" by (simp add: fan_answers_def two_polled_def)
  from fan_out_ordered [OF two_reach this two_last] show ?thesis
    by (auto simp: two_last two_polled_def dest: spec [of _ 0] spec [of _ "Suc 0"])
qed

theorem fan_out_in_flight_witness: "fan_running (fs_fan two_mid) \<le> fan_width 1 (Some 2)"
  using fan_out_in_flight [OF two_reach] by simp

theorem fan_out_waits_on_a_body_witness: "0 < fan_running (fs_fan one_waiting)"
  using fan_out_waits_on_a_body [OF one_reach _ one_waits] by (simp add: fan_answers_def no_polled_def fan_width_def max_in_flight_def)

end
