(* ===== verification/Base64.thy ===== *)
theory Base64
  imports Codec
begin

text \<open>
  \<open>crates/lgwks-std/src/encoding.rs\<close>, module \<open>base64\<close>: the standard alphabet with padding. The
  encoder writes three bytes as four letters; the decoder shifts sextets through a 32-bit accumulator
  and refuses every spelling the encoder would not write.
\<close>

unbundle bit_operations_syntax

section \<open>Encoding\<close>

text \<open>\<open>A\<close> to \<open>Z\<close>, \<open>a\<close> to \<open>z\<close>, \<open>0\<close> to \<open>9\<close>, \<open>+\<close> and \<open>/\<close>.\<close>

definition b64_alphabet :: bytes where
  "b64_alphabet = [65, 66, 67, 68, 69, 70, 71, 72, 73, 74, 75, 76, 77, 78, 79, 80, 81, 82, 83, 84, 85, 86, 87, 88, 89, 90,
     97, 98, 99, 100, 101, 102, 103, 104, 105, 106, 107, 108, 109, 110, 111, 112, 113, 114, 115, 116, 117, 118, 119, 120, 121, 122,
     48, 49, 50, 51, 52, 53, 54, 55, 56, 57, 43, 47]"

definition b64_pad :: u8 where
  "b64_pad = 61"

definition encode_first_pair :: "u8 \<Rightarrow> u8 option \<Rightarrow> bytes" where
  "encode_first_pair b0 b1 =
     (let second_sextet = (case b1 of Some first \<Rightarrow> push_bit 4 (b0 AND 0x03) OR drop_bit 4 first
                                    | None \<Rightarrow> push_bit 4 (b0 AND 0x03))
      in [b64_alphabet ! unat (drop_bit 2 b0), b64_alphabet ! unat second_sextet])"

fun encode_third_char :: "u8 option \<Rightarrow> u8 option \<Rightarrow> bytes" where
  "encode_third_char (Some first) (Some second) = [b64_alphabet ! unat (push_bit 2 (first AND 0x0f) OR drop_bit 6 second)]"
| "encode_third_char (Some first) None = [b64_alphabet ! unat (push_bit 2 (first AND 0x0f))]"
| "encode_third_char None _ = [b64_pad]"

fun encode_fourth_char :: "u8 option \<Rightarrow> bytes" where
  "encode_fourth_char (Some second) = [b64_alphabet ! unat (second AND 0x3f)]"
| "encode_fourth_char None = [b64_pad]"

definition encode_quantum :: "u8 \<Rightarrow> u8 option \<Rightarrow> u8 option \<Rightarrow> bytes" where
  "encode_quantum b0 b1 b2 = encode_first_pair b0 b1 @ encode_third_char b1 b2 @ encode_fourth_char b2"

fun b64_encode :: "bytes \<Rightarrow> bytes" where
  "b64_encode (b0 # b1 # b2 # rest) = encode_quantum b0 (Some b1) (Some b2) @ b64_encode rest"
| "b64_encode [b0, b1] = encode_quantum b0 (Some b1) None"
| "b64_encode [b0] = encode_quantum b0 None None"
| "b64_encode [] = []"

section \<open>Decoding\<close>

datatype b64_error =
    B64BadLength (b64_len: nat) (b64_len_at: nat)
  | B64NotInAlphabet (b64_digit_at: nat) (b64_digit: u8)
  | B64MisplacedPadding (b64_padding_at: nat)

definition check_base64_quantum :: "nat \<Rightarrow> b64_error + unit" where
  "check_base64_quantum len = (if len mod 4 \<noteq> 0 then Inl (B64BadLength len len) else Inr ())"

definition inspect_padding :: "bytes \<Rightarrow> b64_error + nat" where
  "inspect_padding input =
     (let padding = length (takeWhile (\<lambda>byte. byte = b64_pad) (rev input)) in
      if padding > 2 then Inl (B64MisplacedPadding (length input - padding)) else Inr padding)"

definition check_interior_padding :: "bytes \<Rightarrow> b64_error + unit" where
  "check_interior_padding body =
     (let offset = length (takeWhile (\<lambda>byte. byte \<noteq> b64_pad) body) in
      if offset < length body then Inl (B64MisplacedPadding offset) else Inr ())"

definition sextet :: "u8 \<Rightarrow> u8 option" where
  "sextet byte =
     (if 65 \<le> byte \<and> byte \<le> 90 then Some (sat_sub_u8 byte 65)
      else if 97 \<le> byte \<and> byte \<le> 122 then Some (sat_add_u8 (sat_sub_u8 byte 97) 26)
      else if 48 \<le> byte \<and> byte \<le> 57 then Some (sat_add_u8 (sat_sub_u8 byte 48) 52)
      else if byte = 43 then Some 62
      else if byte = 47 then Some 63
      else None)"

definition low_byte :: "u32 \<Rightarrow> u8" where
  "low_byte v = ucast v"

definition push_sextet :: "u32 \<Rightarrow> u8 \<Rightarrow> u32" where
  "push_sextet accumulator v = push_bit 6 accumulator OR ucast v"

definition decode_body_chunk :: "u8 \<Rightarrow> nat \<Rightarrow> u32 \<Rightarrow> nat \<Rightarrow> bytes \<Rightarrow> b64_error + (u32 \<times> nat \<times> bytes)" where
  "decode_body_chunk byte index accumulator filled out =
     rbind (ok_or (B64NotInAlphabet index byte) (sextet byte)) (\<lambda>v.
       let accumulator = push_sextet accumulator v;
           filled = sat_add_u32 filled 6
       in if filled \<ge> 8 then Inr (accumulator, filled - 8, out @ [low_byte (drop_bit (filled - 8) accumulator)])
          else Inr (accumulator, filled, out))"

fun decode_body_loop :: "bytes \<Rightarrow> nat \<Rightarrow> u32 \<Rightarrow> nat \<Rightarrow> bytes \<Rightarrow> b64_error + (u32 \<times> nat \<times> bytes)" where
  "decode_body_loop [] index accumulator filled out = Inr (accumulator, filled, out)"
| "decode_body_loop (byte # body) index accumulator filled out =
     rbind (decode_body_chunk byte index accumulator filled out) (\<lambda>(accumulator, filled, out).
       decode_body_loop body (index + 1) accumulator filled out)"

definition decode_body_bytes :: "bytes \<Rightarrow> b64_error + bytes" where
  "decode_body_bytes body =
     rbind (decode_body_loop body 0 0 0 []) (\<lambda>(accumulator, filled, out).
       if filled > 0 \<and> (accumulator AND (push_bit filled 1 - 1)) \<noteq> 0
       then Inl (B64MisplacedPadding (length body)) else Inr out)"

definition b64_decode :: "bytes \<Rightarrow> b64_error + bytes" where
  "b64_decode input =
     (if input = [] then Inr []
      else rbind (check_base64_quantum (length input)) (\<lambda>_.
           rbind (inspect_padding input) (\<lambda>padding.
             let body = take (length input - padding) input in
             rbind (check_interior_padding body) (\<lambda>_. decode_body_bytes body))))"

section \<open>Letters\<close>

lemma sextet_letter:
  assumes "unat v < 64"
  shows "sextet (b64_alphabet ! unat v) = Some v \<and> b64_alphabet ! unat v \<noteq> b64_pad"
proof -
  have "\<forall>k \<in> set [0..<64]. sextet (b64_alphabet ! k) = Some (word_of_nat k) \<and> b64_alphabet ! k \<noteq> b64_pad" by code_simp
  moreover have "unat v \<in> set [0..<64]" using assms by simp
  ultimately have "sextet (b64_alphabet ! unat v) = Some (word_of_nat (unat v)) \<and> b64_alphabet ! unat v \<noteq> b64_pad" by blast
  then show ?thesis by simp
qed

lemma letter_sextet:
  assumes "sextet c = Some v"
  shows "unat v < 64 \<and> b64_alphabet ! unat v = c \<and> c \<noteq> b64_pad"
proof -
  let ?codes = "[43, 47] @ [48..<58] @ [65..<91] @ [97..<123] :: nat list"
  have "\<forall>k \<in> set ?codes. case sextet (word_of_nat k) of None \<Rightarrow> False
      | Some v \<Rightarrow> unat v < 64 \<and> b64_alphabet ! unat v = word_of_nat k \<and> word_of_nat k \<noteq> b64_pad" by code_simp
  moreover have "unat c \<in> set ?codes"
    unfolding set_append set_upt Un_iff atLeastLessThan_iff
    using assms by (auto simp: sextet_def word_le_nat_alt split: if_splits)
  ultimately have "case sextet (word_of_nat (unat c)) of None \<Rightarrow> False
      | Some v \<Rightarrow> unat v < 64 \<and> b64_alphabet ! unat v = word_of_nat (unat c) \<and> word_of_nat (unat c) \<noteq> b64_pad" by blast
  then show ?thesis using assms by simp
qed

lemma letter_iff: "sextet c = Some v \<longleftrightarrow> unat v < 64 \<and> c = b64_alphabet ! unat v"
  using sextet_letter letter_sextet by blast

section \<open>Bits\<close>

lemma u8_eq_bits: "(a :: u8) = b \<longleftrightarrow> (\<forall>n \<in> {0, 1, 2, 3, 4, 5, 6, 7}. bit a n = bit b n)"
proof
  assume h: "\<forall>n \<in> {0, 1, 2, 3, 4, 5, 6, 7}. bit a n = bit b n"
  show "a = b"
  proof (rule bit_word_eqI)
    fix n assume "n < LENGTH(8)"
    then have "n \<in> {0, 1, 2, 3, 4, 5, 6, 7}" by auto
    then show "bit a n = bit b n" using h by blast
  qed
qed simp

lemma low_masks: "(0x03 :: u8) = mask 2" "(0x0f :: u8) = mask 4" "(0x3f :: u8) = mask 6"
  by (simp_all add: mask_eq_exp_minus_1)

lemma bits_out [simp]: "\<not> bit (b :: u8) 8" "\<not> bit b 9" "\<not> bit b 10" "\<not> bit b 11" "\<not> bit b 12" "\<not> bit b 13"
  by (auto dest: bit_imp_le_length)

lemma bit_index: "bit w (Suc (Suc 0)) = bit w 2" "bit w (Suc (Suc (Suc 0))) = bit w 3"
  by (simp_all add: numeral_2_eq_2 numeral_3_eq_3)

lemma small_bits:
  assumes "unat (v :: u8) < 64" shows "\<not> bit v 6" "\<not> bit v 7"
  using assms by (simp_all add: byte_bit_unat)

lemma sextets_of_bytes:
  fixes b0 b1 b2 v0 v1 v2 v3 :: u8
  assumes "unat v0 < 64" "unat v1 < 64" "unat v2 < 64" "unat v3 < 64"
  shows "b0 = push_bit 2 v0 OR drop_bit 4 v1 \<and> b1 = push_bit 4 (v1 AND 0x0f) OR drop_bit 2 v2 \<and> b2 = push_bit 6 (v2 AND 0x03) OR v3 \<longleftrightarrow>
    v0 = drop_bit 2 b0 \<and> v1 = push_bit 4 (b0 AND 0x03) OR drop_bit 4 b1 \<and> v2 = push_bit 2 (b1 AND 0x0f) OR drop_bit 6 b2 \<and> v3 = b2 AND 0x3f"
  using small_bits [OF assms(1)] small_bits [OF assms(2)] small_bits [OF assms(3)] small_bits [OF assms(4)]
  unfolding u8_eq_bits low_masks
  by (simp add: bit_simps bit_index) argo

lemma acc_bytes:
  fixes v0 v1 v2 v3 :: u8 and acc :: u32
  defines "a2 \<equiv> push_sextet (push_sextet acc v0) v1"
  defines "a3 \<equiv> push_sextet a2 v2"
  defines "a4 \<equiv> push_sextet a3 v3"
  assumes "unat v0 < 64" "unat v1 < 64" "unat v2 < 64" "unat v3 < 64"
  shows "low_byte (drop_bit 4 a2) = push_bit 2 v0 OR drop_bit 4 v1"
    and "low_byte (drop_bit 2 a3) = push_bit 4 (v1 AND 0x0f) OR drop_bit 2 v2"
    and "low_byte a4 = push_bit 6 (v2 AND 0x03) OR v3"
  using small_bits [OF assms(4)] small_bits [OF assms(5)] small_bits [OF assms(6)] small_bits [OF assms(7)]
  unfolding u8_eq_bits low_masks low_byte_def a2_def a3_def a4_def push_sextet_def
  by (simp_all add: bit_simps bit_index)

lemma acc_rest:
  fixes v0 v1 v2 :: u8 and acc :: u32
  assumes "unat v0 < 64" "unat v1 < 64" "unat v2 < 64"
  shows "push_sextet (push_sextet acc v0) v1 AND 0x0f = 0 \<longleftrightarrow> v1 AND 0x0f = 0"
    and "push_sextet (push_sextet (push_sextet acc v0) v1) v2 AND 0x03 = 0 \<longleftrightarrow> v2 AND 0x03 = 0"
proof -
  have m: "(0x03 :: u32) = mask 2" "(0x0f :: u32) = mask 4" by (simp_all add: mask_eq_exp_minus_1)
  have z: "x AND mask n = 0 \<longleftrightarrow> (\<forall>k < n. \<not> bit x k)" for x :: "'a::len word" and n
    by (auto simp: bit_eq_iff bit_simps dest: bit_imp_le_length)
  have four: "(\<forall>k < 4. P k) \<longleftrightarrow> P 0 \<and> P 1 \<and> P 2 \<and> P 3" "(\<forall>k < 2. P k) \<longleftrightarrow> P 0 \<and> P 1" for P :: "nat \<Rightarrow> bool"
    by (auto simp: numeral_eq_Suc All_less_Suc2)
  show "push_sextet (push_sextet acc v0) v1 AND 0x0f = 0 \<longleftrightarrow> v1 AND 0x0f = 0"
    unfolding m low_masks z four push_sextet_def by (simp add: bit_simps bit_index)
  show "push_sextet (push_sextet (push_sextet acc v0) v1) v2 AND 0x03 = 0 \<longleftrightarrow> v2 AND 0x03 = 0"
    unfolding m low_masks z four push_sextet_def by (simp add: bit_simps bit_index)
qed


section \<open>The body\<close>

text \<open>The letters without the padding.\<close>

fun b64_body :: "bytes \<Rightarrow> bytes" where
  "b64_body (b0 # b1 # b2 # rest) = encode_quantum b0 (Some b1) (Some b2) @ b64_body rest"
| "b64_body [b0, b1] = encode_first_pair b0 (Some b1) @ encode_third_char (Some b1) None"
| "b64_body [b0] = encode_first_pair b0 None"
| "b64_body [] = []"

definition b64_finish :: "nat \<Rightarrow> u32 \<times> nat \<times> bytes \<Rightarrow> b64_error + bytes" where
  "b64_finish len = (\<lambda>(accumulator, filled, out).
     if filled > 0 \<and> (accumulator AND (push_bit filled 1 - 1)) \<noteq> 0 then Inl (B64MisplacedPadding len) else Inr out)"

lemma decode_body_bytes_finish: "decode_body_bytes body = rbind (decode_body_loop body 0 0 0 []) (b64_finish (length body))"
  by (simp add: decode_body_bytes_def b64_finish_def)

lemma loop_step:
  "decode_body_loop (c # cs) i acc filled out = Inr r \<longleftrightarrow> (\<exists>v. sextet c = Some v \<and>
    decode_body_loop cs (i + 1) (push_sextet acc v) (if 8 \<le> sat_add_u32 filled 6 then sat_add_u32 filled 6 - 8 else sat_add_u32 filled 6)
      (if 8 \<le> sat_add_u32 filled 6 then out @ [low_byte (drop_bit (sat_add_u32 filled 6 - 8) (push_sextet acc v))] else out) = Inr r)"
  by (cases "sextet c") (auto simp: decode_body_chunk_def Let_def)

lemma loop_fill:
  "decode_body_loop (c # cs) i acc 0 out = Inr r \<longleftrightarrow> (\<exists>v. sextet c = Some v \<and> decode_body_loop cs (i + 1) (push_sextet acc v) 6 out = Inr r)"
  "decode_body_loop (c # cs) i acc 6 out = Inr r \<longleftrightarrow> (\<exists>v. sextet c = Some v \<and>
     decode_body_loop cs (i + 1) (push_sextet acc v) 4 (out @ [low_byte (drop_bit 4 (push_sextet acc v))]) = Inr r)"
  "decode_body_loop (c # cs) i acc 4 out = Inr r \<longleftrightarrow> (\<exists>v. sextet c = Some v \<and>
     decode_body_loop cs (i + 1) (push_sextet acc v) 2 (out @ [low_byte (drop_bit 2 (push_sextet acc v))]) = Inr r)"
  "decode_body_loop (c # cs) i acc 2 out = Inr r \<longleftrightarrow> (\<exists>v. sextet c = Some v \<and>
     decode_body_loop cs (i + 1) (push_sextet acc v) 0 (out @ [low_byte (push_sextet acc v)]) = Inr r)"
  unfolding loop_step by (simp_all add: sat_add_u32_def u32_max_def)

lemma loop_quad:
  "decode_body_loop (c0 # c1 # c2 # c3 # rest) i acc 0 out = Inr r \<longleftrightarrow>
    (\<exists>v0 v1 v2 v3. sextet c0 = Some v0 \<and> sextet c1 = Some v1 \<and> sextet c2 = Some v2 \<and> sextet c3 = Some v3 \<and>
      decode_body_loop rest (i + 1 + 1 + 1 + 1) (push_sextet (push_sextet (push_sextet (push_sextet acc v0) v1) v2) v3) 0
        (out @ [push_bit 2 v0 OR drop_bit 4 v1, push_bit 4 (v1 AND 0x0f) OR drop_bit 2 v2, push_bit 6 (v2 AND 0x03) OR v3]) = Inr r)"
  (is "?l \<longleftrightarrow> ?r")
proof -
  have bytes: "out @ [low_byte (drop_bit 4 (push_sextet (push_sextet acc v0) v1)), low_byte (drop_bit 2 (push_sextet (push_sextet (push_sextet acc v0) v1) v2)),
      low_byte (push_sextet (push_sextet (push_sextet (push_sextet acc v0) v1) v2) v3)] =
      out @ [push_bit 2 v0 OR drop_bit 4 v1, push_bit 4 (v1 AND 0x0f) OR drop_bit 2 v2, push_bit 6 (v2 AND 0x03) OR v3]"
    if "sextet c0 = Some v0" "sextet c1 = Some v1" "sextet c2 = Some v2" "sextet c3 = Some v3" for v0 v1 v2 v3
    using acc_bytes [of v0 v1 v2 v3 acc] letter_sextet [OF that(1)] letter_sextet [OF that(2)] letter_sextet [OF that(3)] letter_sextet [OF that(4)]
    by simp
  show ?thesis
    unfolding loop_fill using bytes by auto
qed

text \<open>The letters of a quantum are the sextets of its bytes.\<close>

definition quad_letters :: "u8 \<Rightarrow> u8 \<Rightarrow> u8 \<Rightarrow> u8 \<Rightarrow> bytes" where
  "quad_letters v0 v1 v2 v3 = map (\<lambda>v. b64_alphabet ! unat v) [v0, v1, v2, v3]"

lemma encode_quantum_letters:
  "encode_quantum b0 (Some b1) (Some b2) =
    quad_letters (drop_bit 2 b0) (push_bit 4 (b0 AND 0x03) OR drop_bit 4 b1) (push_bit 2 (b1 AND 0x0f) OR drop_bit 6 b2) (b2 AND 0x3f)"
  by (simp add: encode_quantum_def encode_first_pair_def quad_letters_def Let_def)

lemma quarter_zero: "a < 4 \<Longrightarrow> even a \<Longrightarrow> even (a div 2) \<Longrightarrow> a = (0 :: nat)"
  by presburger

lemma sextet_bits: "\<not> bit v 6 \<Longrightarrow> \<not> bit v 7 \<Longrightarrow> unat (v :: u8) < 64"
proof -
  assume "\<not> bit v 6" "\<not> bit v 7"
  then have even: "even (unat v div 64)" "even (unat v div 128)" by (simp_all add: byte_bit_unat)
  have "unat v div 128 = unat v div 64 div 2" by (simp only: div_mult2_eq [symmetric]) simp
  with even(2) have "even (unat v div 64 div 2)" by (simp only:)
  moreover have "unat v div 64 < 4" using byte_lt_256 [of v] by (intro less_mult_imp_div_less) simp
  ultimately have "unat v div 64 = 0" using even(1) quarter_zero by blast
  then show ?thesis by (simp only: div_eq_0_iff) simp
qed

lemma sextet_small:
  fixes b0 b1 b2 :: u8
  shows "unat (drop_bit 2 b0) < 64" "unat (push_bit 4 (b0 AND 0x03) OR drop_bit 4 b1) < 64"
    "unat (push_bit 2 (b1 AND 0x0f) OR drop_bit 6 b2) < 64" "unat (b2 AND 0x3f) < 64"
    "unat (push_bit 4 (b0 AND 0x03)) < 64" "unat (push_bit 2 (b1 AND 0x0f)) < 64"
  unfolding low_masks by (rule sextet_bits; simp add: bit_simps)+

lemma quad_iff:
  "c0 # c1 # c2 # c3 # cs = encode_quantum b0 (Some b1) (Some b2) @ b64_body bytes \<longleftrightarrow> cs = b64_body bytes \<and>
    (\<exists>v0 v1 v2 v3. sextet c0 = Some v0 \<and> sextet c1 = Some v1 \<and> sextet c2 = Some v2 \<and> sextet c3 = Some v3 \<and>
      b0 = push_bit 2 v0 OR drop_bit 4 v1 \<and> b1 = push_bit 4 (v1 AND 0x0f) OR drop_bit 2 v2 \<and> b2 = push_bit 6 (v2 AND 0x03) OR v3)"
  (is "?l \<longleftrightarrow> ?cs \<and> ?r")
proof -
  have "[c0, c1, c2, c3] = encode_quantum b0 (Some b1) (Some b2) \<longleftrightarrow> ?r"
  proof
    assume "[c0, c1, c2, c3] = encode_quantum b0 (Some b1) (Some b2)"
    then have "sextet c0 = Some (drop_bit 2 b0)" "sextet c1 = Some (push_bit 4 (b0 AND 0x03) OR drop_bit 4 b1)"
      "sextet c2 = Some (push_bit 2 (b1 AND 0x0f) OR drop_bit 6 b2)" "sextet c3 = Some (b2 AND 0x3f)"
      using sextet_letter [OF sextet_small(1) [of b0]] sextet_letter [OF sextet_small(2) [of b0 b1]]
        sextet_letter [OF sextet_small(3) [of b1 b2]] sextet_letter [OF sextet_small(4) [of b2]] by (simp_all add: encode_quantum_letters quad_letters_def)
    then show ?r using sextets_of_bytes [OF sextet_small(1) [of b0] sextet_small(2) [of b0 b1] sextet_small(3) [of b1 b2] sextet_small(4) [of b2], of b0 b1 b2]
      by blast
  next
    assume ?r
    then obtain v0 v1 v2 v3 where v: "sextet c0 = Some v0" "sextet c1 = Some v1" "sextet c2 = Some v2" "sextet c3 = Some v3"
      and b: "b0 = push_bit 2 v0 OR drop_bit 4 v1 \<and> b1 = push_bit 4 (v1 AND 0x0f) OR drop_bit 2 v2 \<and> b2 = push_bit 6 (v2 AND 0x03) OR v3"
      by blast
    note s = letter_sextet [OF v(1)] letter_sextet [OF v(2)] letter_sextet [OF v(3)] letter_sextet [OF v(4)]
    from b have "v0 = drop_bit 2 b0 \<and> v1 = push_bit 4 (b0 AND 0x03) OR drop_bit 4 b1 \<and> v2 = push_bit 2 (b1 AND 0x0f) OR drop_bit 6 b2 \<and> v3 = b2 AND 0x3f"
      using sextets_of_bytes s by blast
    then show "[c0, c1, c2, c3] = encode_quantum b0 (Some b1) (Some b2)"
      using s by (simp add: encode_quantum_letters quad_letters_def)
  qed
  then show ?thesis by (auto simp: encode_quantum_letters quad_letters_def)
qed

lemma list_quad_cases:
  obtains "cs = []" | a where "cs = [a]" | a b where "cs = [a, b]" | a b c where "cs = [a, b, c]"
    | a b c d rest where "cs = a # b # c # d # rest"
  by (metis list.exhaust)

lemma b64_body_quad: "(\<exists>bytes. P bytes \<and> c0 # c1 # c2 # c3 # cs = b64_body bytes) \<longleftrightarrow>
    (\<exists>b0 b1 b2 bytes. P (b0 # b1 # b2 # bytes) \<and> c0 # c1 # c2 # c3 # cs = encode_quantum b0 (Some b1) (Some b2) @ b64_body bytes)"
proof
  assume "\<exists>bytes. P bytes \<and> c0 # c1 # c2 # c3 # cs = b64_body bytes"
  then obtain bytes where b: "P bytes" "c0 # c1 # c2 # c3 # cs = b64_body bytes" by blast
  then show "\<exists>b0 b1 b2 bytes. P (b0 # b1 # b2 # bytes) \<and> c0 # c1 # c2 # c3 # cs = encode_quantum b0 (Some b1) (Some b2) @ b64_body bytes"
    by (cases bytes rule: b64_body.cases) (auto simp: encode_first_pair_def Let_def)
next
  assume "\<exists>b0 b1 b2 bytes. P (b0 # b1 # b2 # bytes) \<and> c0 # c1 # c2 # c3 # cs = encode_quantum b0 (Some b1) (Some b2) @ b64_body bytes"
  then show "\<exists>bytes. P bytes \<and> c0 # c1 # c2 # c3 # cs = b64_body bytes" by (metis b64_body.simps(1))
qed

lemma sextets_of_one:
  fixes b0 v0 v1 :: u8
  assumes "unat v0 < 64" "unat v1 < 64"
  shows "b0 = push_bit 2 v0 OR drop_bit 4 v1 \<and> v1 AND 0x0f = 0 \<longleftrightarrow> v0 = drop_bit 2 b0 \<and> v1 = push_bit 4 (b0 AND 0x03)"
  using small_bits [OF assms(1)] small_bits [OF assms(2)]
  unfolding u8_eq_bits low_masks by (simp add: bit_simps bit_index) argo

lemma sextets_of_two:
  fixes b0 b1 v0 v1 v2 :: u8
  assumes "unat v0 < 64" "unat v1 < 64" "unat v2 < 64"
  shows "b0 = push_bit 2 v0 OR drop_bit 4 v1 \<and> b1 = push_bit 4 (v1 AND 0x0f) OR drop_bit 2 v2 \<and> v2 AND 0x03 = 0 \<longleftrightarrow>
    v0 = drop_bit 2 b0 \<and> v1 = push_bit 4 (b0 AND 0x03) OR drop_bit 4 b1 \<and> v2 = push_bit 2 (b1 AND 0x0f)"
  using small_bits [OF assms(1)] small_bits [OF assms(2)] small_bits [OF assms(3)]
  unfolding u8_eq_bits low_masks by (simp add: bit_simps bit_index) argo

lemma finish_eq:
  "b64_finish n (acc, 0, out) = Inr out"
  "b64_finish n (acc, 4, out) = (if acc AND 0x0f = 0 then Inr out else Inl (B64MisplacedPadding n))"
  "b64_finish n (acc, 2, out) = (if acc AND 0x03 = 0 then Inr out else Inl (B64MisplacedPadding n))"
  by (simp_all add: b64_finish_def)

lemma tail_two:
  "rbind (decode_body_loop [c0, c1] i acc 0 out) (b64_finish n) = Inr res \<longleftrightarrow> (\<exists>b0. res = out @ [b0] \<and> [c0, c1] = encode_first_pair b0 None)"
  (is "?l \<longleftrightarrow> ?r")
proof -
  have "?l \<longleftrightarrow> (\<exists>v0 v1. sextet c0 = Some v0 \<and> sextet c1 = Some v1 \<and>
      push_sextet (push_sextet acc v0) v1 AND 0x0f = 0 \<and> res = out @ [low_byte (drop_bit 4 (push_sextet (push_sextet acc v0) v1))])"
    unfolding rbind_eq_Inr loop_fill by (auto simp: finish_eq split: if_splits)
  also have "\<dots> \<longleftrightarrow> (\<exists>v0 v1 b0. sextet c0 = Some v0 \<and> sextet c1 = Some v1 \<and> res = out @ [b0] \<and> b0 = push_bit 2 v0 OR drop_bit 4 v1 \<and> v1 AND 0x0f = 0)"
  proof -
    have "push_sextet (push_sextet acc v0) v1 AND 0x0f = 0 \<longleftrightarrow> v1 AND 0x0f = 0"
      "low_byte (drop_bit 4 (push_sextet (push_sextet acc v0) v1)) = push_bit 2 v0 OR drop_bit 4 v1"
      if "sextet c0 = Some v0" "sextet c1 = Some v1" for v0 v1
      using letter_sextet [OF that(1)] letter_sextet [OF that(2)] acc_rest(1) [of v0 v1 0 acc] acc_bytes(1) [of v0 v1 0 0 acc] by simp_all
    then show ?thesis by auto
  qed
  also have "\<dots> \<longleftrightarrow> (\<exists>v0 v1 b0. sextet c0 = Some v0 \<and> sextet c1 = Some v1 \<and> res = out @ [b0] \<and> v0 = drop_bit 2 b0 \<and> v1 = push_bit 4 (b0 AND 0x03))"
    using sextets_of_one letter_sextet by blast
  also have "\<dots> \<longleftrightarrow> (\<exists>b0. res = out @ [b0] \<and> sextet c0 = Some (drop_bit 2 b0) \<and> sextet c1 = Some (push_bit 4 (b0 AND 0x03)))" by blast
  also have "\<dots> \<longleftrightarrow> ?r"
    by (simp only: letter_iff encode_first_pair_def sextet_small simp_thms option.case Let_def list.inject)
  finally show ?thesis .
qed

lemma tail_three:
  "rbind (decode_body_loop [c0, c1, c2] i acc 0 out) (b64_finish n) = Inr res \<longleftrightarrow>
    (\<exists>b0 b1. res = out @ [b0, b1] \<and> [c0, c1, c2] = encode_first_pair b0 (Some b1) @ encode_third_char (Some b1) None)"
  (is "?l \<longleftrightarrow> ?r")
proof -
  let ?a2 = "\<lambda>v0 v1. push_sextet (push_sextet acc v0) v1" and ?a3 = "\<lambda>v0 v1 v2. push_sextet (push_sextet (push_sextet acc v0) v1) v2"
  have "?l \<longleftrightarrow> (\<exists>v0 v1 v2. sextet c0 = Some v0 \<and> sextet c1 = Some v1 \<and> sextet c2 = Some v2 \<and>
      ?a3 v0 v1 v2 AND 0x03 = 0 \<and> res = out @ [low_byte (drop_bit 4 (?a2 v0 v1)), low_byte (drop_bit 2 (?a3 v0 v1 v2))])"
    unfolding rbind_eq_Inr loop_fill by (auto simp: finish_eq split: if_splits)
  also have "\<dots> \<longleftrightarrow> (\<exists>v0 v1 v2 b0 b1. sextet c0 = Some v0 \<and> sextet c1 = Some v1 \<and> sextet c2 = Some v2 \<and> res = out @ [b0, b1] \<and>
      b0 = push_bit 2 v0 OR drop_bit 4 v1 \<and> b1 = push_bit 4 (v1 AND 0x0f) OR drop_bit 2 v2 \<and> v2 AND 0x03 = 0)"
  proof -
    have "?a3 v0 v1 v2 AND 0x03 = 0 \<longleftrightarrow> v2 AND 0x03 = 0" "low_byte (drop_bit 4 (?a2 v0 v1)) = push_bit 2 v0 OR drop_bit 4 v1"
      "low_byte (drop_bit 2 (?a3 v0 v1 v2)) = push_bit 4 (v1 AND 0x0f) OR drop_bit 2 v2"
      if "sextet c0 = Some v0" "sextet c1 = Some v1" "sextet c2 = Some v2" for v0 v1 v2
      using letter_sextet [OF that(1)] letter_sextet [OF that(2)] letter_sextet [OF that(3)]
        acc_rest(2) [of v0 v1 v2 acc] acc_bytes(1,2) [of v0 v1 v2 0 acc] by simp_all
    then show ?thesis by auto
  qed
  also have "\<dots> \<longleftrightarrow> (\<exists>v0 v1 v2 b0 b1. sextet c0 = Some v0 \<and> sextet c1 = Some v1 \<and> sextet c2 = Some v2 \<and> res = out @ [b0, b1] \<and>
      v0 = drop_bit 2 b0 \<and> v1 = push_bit 4 (b0 AND 0x03) OR drop_bit 4 b1 \<and> v2 = push_bit 2 (b1 AND 0x0f))"
    using sextets_of_two letter_sextet by blast
  also have "\<dots> \<longleftrightarrow> (\<exists>b0 b1. res = out @ [b0, b1] \<and> sextet c0 = Some (drop_bit 2 b0) \<and>
      sextet c1 = Some (push_bit 4 (b0 AND 0x03) OR drop_bit 4 b1) \<and> sextet c2 = Some (push_bit 2 (b1 AND 0x0f)))" by blast
  also have "\<dots> \<longleftrightarrow> ?r"
    by (simp only: letter_iff encode_first_pair_def encode_third_char.simps sextet_small simp_thms option.case Let_def list.inject append.simps)
  finally show ?thesis .
qed

lemma body_iff:
  assumes "length cs mod 4 \<noteq> 1"
  shows "rbind (decode_body_loop cs i acc 0 out) (b64_finish n) = Inr res \<longleftrightarrow> (\<exists>bytes. res = out @ bytes \<and> cs = b64_body bytes)"
  using assms
proof (induction cs arbitrary: i acc out rule: measure_induct_rule [where f = length])
  case (less cs)
  have short: "b64_body bytes = [] \<longleftrightarrow> bytes = []"
    "[c0, c1] = b64_body bytes \<longleftrightarrow> (\<exists>b0. bytes = [b0] \<and> [c0, c1] = encode_first_pair b0 None)"
    "[c0, c1, c2] = b64_body bytes \<longleftrightarrow> (\<exists>b0 b1. bytes = [b0, b1] \<and> [c0, c1, c2] = encode_first_pair b0 (Some b1) @ encode_third_char (Some b1) None)"
    for bytes c0 c1 c2
    by (cases bytes rule: b64_body.cases; simp add: encode_quantum_letters quad_letters_def encode_first_pair_def Let_def)+
  show ?case
  proof (cases cs rule: list_quad_cases)
    case 1
    have "[] = b64_body bytes \<longleftrightarrow> bytes = []" for bytes using short(1) [of bytes] by metis
    then show ?thesis by (auto simp: 1 finish_eq)
  next
    case (2 a)
    then show ?thesis using less.prems by simp
  next
    case (3 a b)
    show ?thesis unfolding 3 tail_two short(2) by blast
  next
    case (4 a b c)
    show ?thesis unfolding 4 tail_three short(3) by blast
  next
    case (5 a b c d rest)
    have IH: "rbind (decode_body_loop rest i acc 0 out) (b64_finish n) = Inr res \<longleftrightarrow> (\<exists>bytes. res = out @ bytes \<and> rest = b64_body bytes)" for i acc out
      using less.IH [of rest] less.prems 5 by simp
    have "rbind (decode_body_loop cs i acc 0 out) (b64_finish n) = Inr res \<longleftrightarrow>
      (\<exists>v0 v1 v2 v3. sextet a = Some v0 \<and> sextet b = Some v1 \<and> sextet c = Some v2 \<and> sextet d = Some v3 \<and>
        rbind (decode_body_loop rest (i + 1 + 1 + 1 + 1) (push_sextet (push_sextet (push_sextet (push_sextet acc v0) v1) v2) v3) 0
          (out @ [push_bit 2 v0 OR drop_bit 4 v1, push_bit 4 (v1 AND 0x0f) OR drop_bit 2 v2, push_bit 6 (v2 AND 0x03) OR v3]))
          (b64_finish n) = Inr res)"
      unfolding 5 rbind_eq_Inr loop_quad by blast
    also have "\<dots> \<longleftrightarrow>
      (\<exists>v0 v1 v2 v3. sextet a = Some v0 \<and> sextet b = Some v1 \<and> sextet c = Some v2 \<and> sextet d = Some v3 \<and>
        (\<exists>bytes. res = out @ [push_bit 2 v0 OR drop_bit 4 v1, push_bit 4 (v1 AND 0x0f) OR drop_bit 2 v2, push_bit 6 (v2 AND 0x03) OR v3] @ bytes \<and>
          rest = b64_body bytes))"
      unfolding IH append_assoc by (rule refl)
    also have "\<dots> \<longleftrightarrow> (\<exists>b0 b1 b2 bytes. res = out @ (b0 # b1 # b2 # bytes) \<and>
        a # b # c # d # rest = encode_quantum b0 (Some b1) (Some b2) @ b64_body bytes)"
      unfolding quad_iff by auto
    finally show ?thesis unfolding 5 b64_body_quad [where P = "\<lambda>bytes. res = out @ bytes"] .
  qed
qed

section \<open>Padding\<close>

fun b64_pads :: "bytes \<Rightarrow> nat" where
  "b64_pads (b0 # b1 # b2 # rest) = b64_pads rest"
| "b64_pads [b0, b1] = 1"
| "b64_pads [b0] = 2"
| "b64_pads [] = 0"

lemma encode_split: "b64_encode bytes = b64_body bytes @ replicate (b64_pads bytes) b64_pad"
  by (induction bytes rule: b64_encode.induct) (simp_all add: encode_quantum_def numeral_2_eq_2)

lemmas letters_no_pad = conjunct2 [OF sextet_letter [OF sextet_small(1)]] conjunct2 [OF sextet_letter [OF sextet_small(2)]]
  conjunct2 [OF sextet_letter [OF sextet_small(3)]] conjunct2 [OF sextet_letter [OF sextet_small(4)]]
  conjunct2 [OF sextet_letter [OF sextet_small(5)]] conjunct2 [OF sextet_letter [OF sextet_small(6)]]

lemma body_letters: "b64_pad \<notin> set (b64_body bytes)"
proof (induction bytes rule: b64_body.induct)
  case (1 b0 b1 b2 rest)
  then show ?case using letters_no_pad
    by (simp only: b64_body.simps encode_quantum_letters quad_letters_def list.map set_append list.set Un_iff insert_iff empty_iff) metis
next
  case (2 b0 b1)
  then show ?case using letters_no_pad
    by (simp only: b64_body.simps encode_first_pair_def encode_third_char.simps option.case Let_def set_append list.set Un_iff insert_iff empty_iff) metis
next
  case (3 b0)
  then show ?case using letters_no_pad
    by (simp only: b64_body.simps encode_first_pair_def option.case Let_def set_append list.set Un_iff insert_iff empty_iff) metis
qed simp

lemma body_length: "length (b64_body bytes) mod 4 = (4 - b64_pads bytes) mod 4" "b64_pads bytes \<le> 2"
  by (induction bytes rule: b64_body.induct) (simp_all add: encode_quantum_letters quad_letters_def encode_first_pair_def Let_def)

lemma body_empty: "b64_body bytes = [] \<longleftrightarrow> bytes = []"
  by (cases bytes rule: b64_body.cases) (simp_all add: encode_quantum_letters quad_letters_def encode_first_pair_def Let_def)

lemma trailing_pads:
  assumes "b64_pad \<notin> set body"
  shows "length (takeWhile (\<lambda>b. b = b64_pad) (rev (body @ replicate p b64_pad))) = p"
proof -
  have "takeWhile (\<lambda>b. b = b64_pad) (rev body) = []" using assms by (cases body rule: rev_cases) auto
  then have "takeWhile (\<lambda>b. b = b64_pad) (replicate p b64_pad @ rev body) = replicate p b64_pad"
    by (subst takeWhile_append2) auto
  then show ?thesis by simp
qed

lemma pads_split:
  assumes "p = length (takeWhile (\<lambda>b. b = b64_pad) (rev s))"
  shows "s = take (length s - p) s @ replicate p b64_pad" and "p \<le> length s"
proof -
  show le: "p \<le> length s" unfolding assms by (metis length_rev length_takeWhile_le)
  have "takeWhile (\<lambda>b. b = b64_pad) (rev s) = take p (rev s)" unfolding assms by (rule takeWhile_eq_take)
  moreover have "\<forall>b \<in> set (takeWhile (\<lambda>b. b = b64_pad) (rev s)). b = b64_pad" by (auto dest: set_takeWhileD)
  ultimately have "take p (rev s) = replicate p b64_pad" using le
    by (metis length_rev length_take min.absorb2 replicate_eqI)
  then have "rev (drop (length s - p) s) = replicate p b64_pad" by (simp add: take_rev)
  then have "drop (length s - p) s = replicate p b64_pad" by (metis rev_replicate rev_rev_ident)
  then show "s = take (length s - p) s @ replicate p b64_pad" by (metis append_take_drop_id)
qed

lemma short_takeWhile: "length (takeWhile P xs) < length xs \<longleftrightarrow> (\<exists>x \<in> set xs. \<not> P x)"
  by (induction xs) auto

lemma check_interior_iff: "check_interior_padding body = Inr u \<longleftrightarrow> b64_pad \<notin> set body"
  by (auto simp: check_interior_padding_def Let_def short_takeWhile)

lemma inspect_iff: "inspect_padding s = Inr p \<longleftrightarrow> p = length (takeWhile (\<lambda>b. b = b64_pad) (rev s)) \<and> p \<le> 2"
  by (auto simp: inspect_padding_def Let_def)

lemma decode_iff:
  assumes "s \<noteq> []"
  shows "b64_decode s = Inr bytes \<longleftrightarrow> length s mod 4 = 0 \<and> (\<exists>p. inspect_padding s = Inr p \<and>
    b64_pad \<notin> set (take (length s - p) s) \<and> decode_body_bytes (take (length s - p) s) = Inr bytes)"
  using assms by (auto simp: b64_decode_def check_base64_quantum_def check_interior_iff Let_def)

lemma body_bytes_iff: "length body mod 4 \<noteq> 1 \<Longrightarrow> decode_body_bytes body = Inr bytes \<longleftrightarrow> body = b64_body bytes"
  using body_iff [of body 0 0 "[]"] by (simp add: decode_body_bytes_finish)

lemma mod4_pads:
  assumes "p \<le> 2" and "(n + p) mod 4 = 0"
  shows "n mod 4 = (4 - p) mod (4 :: nat) \<and> n mod 4 \<noteq> 1"
proof -
  consider "p = 0" | "p = 1" | "p = 2" using assms(1) by linarith
  then show ?thesis
  proof cases
    case 2
    then have "(n + 1) mod 4 = 0" using assms(2) by simp
    then have "n mod 4 = 3" by presburger
    then show ?thesis using 2 by simp
  next
    case 3
    then have "(n + 2) mod 4 = 0" using assms(2) by simp
    then have "n mod 4 = 2" by presburger
    then show ?thesis using 3 by simp
  qed (use assms in simp)
qed

lemma pads_mod4: "(4 - p) mod 4 = (4 - q) mod (4 :: nat) \<Longrightarrow> p \<le> 2 \<Longrightarrow> q \<le> 2 \<Longrightarrow> p = q"
  by (auto simp: numeral_2_eq_2 le_Suc_eq)

lemma sum_mod4: "n mod 4 = (4 - p) mod 4 \<Longrightarrow> p \<le> 2 \<Longrightarrow> (n + p) mod 4 = (0 :: nat) \<and> n mod 4 \<noteq> 1"
proof -
  assume n: "n mod 4 = (4 - p) mod 4" and "p \<le> 2"
  then consider "p = 0" | "p = 1" | "p = 2" by linarith
  then show ?thesis
  proof cases
    case 2
    then have "n mod 4 = 3" using n by simp
    then show ?thesis using 2 by (simp add: mod_Suc)
  next
    case 3
    then have "n mod 4 = 2" using n by simp
    then show ?thesis using 3 by (simp add: mod_Suc)
  qed (use n in simp)
qed

lemma b64_decode_encode: "b64_decode (b64_encode bytes) = Inr bytes"
proof (cases "bytes = []")
  case True
  then show ?thesis by (simp add: b64_decode_def)
next
  case False
  let ?s = "b64_encode bytes" and ?p = "b64_pads bytes"
  have len: "length ?s = length (b64_body bytes) + ?p" by (simp add: encode_split)
  have "inspect_padding ?s = Inr ?p"
    unfolding inspect_iff encode_split using trailing_pads [OF body_letters [of bytes], of ?p] body_length(2) [of bytes] by simp
  moreover have "take (length ?s - ?p) ?s = b64_body bytes" by (simp add: encode_split)
  moreover have "length ?s mod 4 = 0" unfolding len using sum_mod4 [OF body_length] by (rule conjunct1)
  moreover have "decode_body_bytes (b64_body bytes) = Inr bytes"
    using body_bytes_iff sum_mod4 [OF body_length] by blast
  moreover have "?s \<noteq> []" using False body_empty by (simp add: encode_split)
  ultimately show ?thesis using decode_iff [of ?s bytes] body_letters [of bytes] by simp
qed

lemma b64_decode_only: "b64_decode s = Inr bytes \<Longrightarrow> b64_encode bytes = s"
proof (cases "s = []")
  case True
  then show "b64_decode s = Inr bytes \<Longrightarrow> b64_encode bytes = s" by (simp add: b64_decode_def)
next
  case False
  assume d: "b64_decode s = Inr bytes"
  then obtain p where p: "p = length (takeWhile (\<lambda>b. b = b64_pad) (rev s))" "p \<le> 2"
    and len: "length s mod 4 = 0" and body: "decode_body_bytes (take (length s - p) s) = Inr bytes"
    using decode_iff [OF False] by (auto simp: inspect_iff)
  note split = pads_split [OF p(1)]
  have "(length (take (length s - p) s) + p) mod 4 = 0" using len split(2) by simp
  note m = mod4_pads [OF p(2) this]
  have eq: "take (length s - p) s = b64_body bytes" using body body_bytes_iff m by blast
  moreover have "p = b64_pads bytes" using m body_length [of bytes] p(2) pads_mod4 unfolding eq by metis
  ultimately show "b64_encode bytes = s" using split(1) by (simp add: encode_split)
qed

interpretation b64: canonical_codec b64_encode b64_decode
  by unfold_locales (simp_all add: b64_decode_encode b64_decode_only)

text \<open>The base64 decoder accepts one spelling of each byte string, the encoder's: a spelling with misplaced or missing padding, a letter outside the alphabet or leftover bits in the last letter is refused.\<close>

theorem b64_canonical: "b64_decode s = Inr bytes \<longleftrightarrow> s = b64_encode bytes"
  by (rule b64.accepts_iff)

end
