(* ===== verification/Calendar.thy ===== *)
theory Calendar
  imports Prelude
begin

text \<open>
  \<open>crates/lgwks-std/src/time/calendar.rs\<close>: the proleptic Gregorian calendar over days since
  1970-01-01. The code counts years from March, so the leap day is the last of its year, and splits
  days into eras of 400 years. \<open>days_from_civil\<close> computes in \<open>i128\<close> from \<open>i64\<close> and \<open>u32\<close> operands and
  \<open>civil_from_days\<close> in \<open>i64\<close> on values below 2^55: no step of either can saturate, so they are integers
  here, with \<open>div_euclid\<close> by a positive divisor as \<open>div\<close>. The narrowing to \<open>i64\<close> at the end can.
\<close>

section \<open>Code\<close>

definition days_per_era :: int where
  "days_per_era = 146097"

definition epoch_era_offset :: int where
  "epoch_era_offset = 719468"

definition epoch_whole_eras :: int where
  "epoch_whole_eras = 4"

definition epoch_era_remainder :: int where
  "epoch_era_remainder = 135080"

text \<open>Only whether a remainder is zero is asked, so the sign of Rust's \<open>%\<close> does not matter.\<close>

definition is_leap :: "int \<Rightarrow> bool" where
  "is_leap year \<longleftrightarrow> (year mod 4 = 0 \<and> year mod 100 \<noteq> 0) \<or> year mod 400 = 0"

definition try_days_in_month :: "int \<Rightarrow> int \<Rightarrow> int option" where
  "try_days_in_month year month =
     (if month \<in> {1, 3, 5, 7, 8, 10, 12} then Some 31
      else if month \<in> {4, 6, 9, 11} then Some 30
      else if month = 2 \<and> is_leap year then Some 29
      else if month = 2 then Some 28
      else None)"

definition days_from_civil :: "int \<Rightarrow> int \<Rightarrow> int \<Rightarrow> int" where
  "days_from_civil year month day =
     (let adjusted_year = (if month \<le> 2 then year - 1 else year);
          era = adjusted_year div 400;
          year_of_era = adjusted_year - era * 400;
          month_prime = (if month > 2 then month - 3 else month + 9);
          day_of_year = (month_prime * 153 + 2) div 5 + day - 1;
          day_of_era = year_of_era * 365 + year_of_era div 4 - year_of_era div 100 + day_of_year;
          days = era * days_per_era + day_of_era - epoch_era_offset
      in clamp_i64 days)"

definition shifted_to_era :: "int \<Rightarrow> int \<times> int" where
  "shifted_to_era days_since_epoch =
     (let base_era = days_since_epoch div days_per_era;
          within_era = days_since_epoch mod days_per_era;
          rebased = within_era + epoch_era_remainder
      in if rebased < days_per_era then (base_era + epoch_whole_eras, rebased)
         else (base_era + epoch_whole_eras + 1, rebased - days_per_era))"

definition era_to_year :: "int \<Rightarrow> int \<Rightarrow> int \<times> int" where
  "era_to_year day_of_era era =
     (let year_of_era = (day_of_era - day_of_era div 1460 + day_of_era div 36524 - day_of_era div 146096) div 365;
          computed_year = year_of_era + era * 400;
          day_of_year = day_of_era - (year_of_era * 365 + year_of_era div 4 - year_of_era div 100)
      in (computed_year, day_of_year))"

text \<open>On \<open>u32\<close>, where \<open>saturating_sub\<close> stops at zero.\<close>

definition day_of_year_to_month_day :: "int \<Rightarrow> int \<Rightarrow> int \<times> int \<times> int" where
  "day_of_year_to_month_day day_of_year computed_year =
     (let month_prime = (day_of_year * 5 + 2) div 153;
          computed_day = max 0 (day_of_year - (month_prime * 153 + 2) div 5) + 1;
          computed_month = (if month_prime < 10 then month_prime + 3 else max 0 (month_prime - 9));
          final_year = (if computed_month \<le> 2 then computed_year + 1 else computed_year)
      in (final_year, computed_month, computed_day))"

text \<open>The low four bytes of the little-endian form.\<close>

definition era_day_offset :: "int \<Rightarrow> int" where
  "era_day_offset day_of_era = day_of_era mod 2 ^ 32"

definition civil_from_days :: "int \<Rightarrow> int \<times> int \<times> int" where
  "civil_from_days days =
     (case shifted_to_era days of (era, day_of_era) \<Rightarrow>
      case era_to_year day_of_era era of (computed_year, day_of_year) \<Rightarrow>
        day_of_year_to_month_day (era_day_offset day_of_year) computed_year)"

section \<open>Years from March\<close>

text \<open>Days before the March-based year \<open>y\<close>, and before its month \<open>mp\<close>.\<close>

definition year_start :: "int \<Rightarrow> int" where
  "year_start y = 365 * y + y div 4 - y div 100 + y div 400"

definition month_start :: "int \<Rightarrow> int" where
  "month_start mp = (mp * 153 + 2) div 5"

definition year_size :: "int \<Rightarrow> int" where
  "year_size y = (if is_leap (y + 1) then 366 else 365)"

definition unclamped :: "int \<Rightarrow> int \<Rightarrow> int \<Rightarrow> int" where
  "unclamped year month day =
     year_start (if month \<le> 2 then year - 1 else year) + month_start (if month > 2 then month - 3 else month + 9) + day - 1 - 719468"

lemma div_Suc: "0 < k \<Longrightarrow> (y + 1) div k = y div k + (if (y + 1) mod k = 0 then 1 else (0 :: int))"
proof -
  assume k: "0 < k"
  show ?thesis
  proof (cases "(y + 1) mod k = 0")
    case True
    then obtain q where q: "y + 1 = k * q" by (metis mod_0_imp_dvd dvd_def)
    then have "y = k * (q - 1) + (k - 1)" by (simp add: algebra_simps)
    have "y div k = q - 1" by (rule int_div_pos_eq [OF \<open>y = k * (q - 1) + (k - 1)\<close>]) (use k in auto)
    then show ?thesis using True q k by simp
  next
    case False
    have "0 \<le> (y + 1) mod k" "(y + 1) mod k < k" using k by simp_all
    moreover have "y = k * ((y + 1) div k) + ((y + 1) mod k - 1)" by (simp add: algebra_simps)
    ultimately have "y div k = (y + 1) div k" using False by (intro int_div_pos_eq [where r = "(y + 1) mod k - 1"]) auto
    then show ?thesis using False by simp
  qed
qed

lemma year_start_next: "year_start (y + 1) = year_start y + year_size y"
proof -
  have m: "(y + 1) mod 100 = 0 \<Longrightarrow> (y + 1) mod 4 = 0" "(y + 1) mod 400 = 0 \<Longrightarrow> (y + 1) mod 100 = 0" by presburger+
  have d: "(y + 1) div 4 = y div 4 + (if (y + 1) mod 4 = 0 then 1 else 0)"
    "(y + 1) div 100 = y div 100 + (if (y + 1) mod 100 = 0 then 1 else 0)"
    "(y + 1) div 400 = y div 400 + (if (y + 1) mod 400 = 0 then 1 else 0)" by (rule div_Suc; simp)+
  show ?thesis
    unfolding year_start_def year_size_def is_leap_def d using m
    by (cases "(y + 1) mod 4 = 0"; cases "(y + 1) mod 100 = 0"; cases "(y + 1) mod 400 = 0") simp_all
qed

lemma year_start_era:
  assumes "0 \<le> r" "r < 400"
  shows "year_start (400 * e + r) = 146097 * e + (365 * r + r div 4 - r div 100)"
proof -
  have "(400 * e + r) div 4 = 100 * e + r div 4" "(400 * e + r) div 100 = 4 * e + r div 100"
    using div_mult_self2 [of 4 r "100 * e"] div_mult_self2 [of 100 r "4 * e"] by (simp_all add: add.commute)
  moreover have "(400 * e + r) div 400 = e" using assms by simp
  ultimately show ?thesis by (simp add: year_start_def)
qed

lemma era_split:
  fixes y :: int
  defines "r \<equiv> y - y div 400 * 400"
  shows "0 \<le> r" "r < 400" "y = 400 * (y div 400) + r"
  by (simp_all add: r_def minus_div_mult_eq_mod)

lemma days_from_civil_eq: "days_from_civil year month day = clamp_i64 (unclamped year month day)"
proof -
  define y where "y = (if month \<le> 2 then year - 1 else year)"
  define r where "r = y - y div 400 * 400"
  define ms where "ms = month_start (if month > 2 then month - 3 else month + 9)"
  note e = era_split [of y, folded r_def]
  have "year_start y = 146097 * (y div 400) + (365 * r + r div 4 - r div 100)"
    using year_start_era [OF e(1,2), of "y div 400"] e(3) by simp
  then show ?thesis
    unfolding days_from_civil_def unclamped_def Let_def days_per_era_def epoch_era_offset_def y_def [symmetric] r_def [symmetric]
      month_start_def [symmetric] ms_def [symmetric]
    by (intro arg_cong [where f = clamp_i64]) linarith
qed

section \<open>Days to civil\<close>

text \<open>
  The year of a day is found by a monotone function of the day, so it is right everywhere if it is
  right on the first and the last day of each of the 400 years.
\<close>

definition era_year :: "int \<Rightarrow> int" where
  "era_year d = (d - d div 1460 + d div 36524 - d div 146096) div 365"

definition era_start :: "int \<Rightarrow> int" where
  "era_start y = y * 365 + y div 4 - y div 100"

definition era_end :: "int \<Rightarrow> int" where
  "era_end y = (if y = 399 then 146096 else era_start (y + 1) - 1)"

lemma era_year_mono: "d \<le> d' \<Longrightarrow> era_year d \<le> era_year d'"
proof -
  have step: "era_year d \<le> era_year (d + 1)" for d
  proof -
    have m: "(d + 1) mod 146096 = 0 \<Longrightarrow> (d + 1) mod 36524 = 0"
      using mod_mod_cancel [of 36524 146096 "d + 1"] by simp
    have "(d + 1) div 1460 \<le> d div 1460 + 1"
      unfolding div_Suc [of 1460 d, OF zero_less_numeral] by simp
    moreover have "d div 36524 - d div 146096 \<le> (d + 1) div 36524 - (d + 1) div 146096"
      unfolding div_Suc [of 36524 d, OF zero_less_numeral] div_Suc [of 146096 d, OF zero_less_numeral] using m by auto
    ultimately have "d - d div 1460 + d div 36524 - d div 146096 \<le> (d + 1) - (d + 1) div 1460 + (d + 1) div 36524 - (d + 1) div 146096"
      by linarith
    then show ?thesis unfolding era_year_def by (rule zdiv_mono1) simp
  qed
  assume "d \<le> d'"
  then show ?thesis by (induction rule: int_ge_induct) (use step in \<open>auto intro: order_trans\<close>)
qed

lemma era_start_parts:
  fixes c r :: int
  assumes "0 \<le> r" "r < 100"
  shows "era_start (100 * c + r) = 36524 * c + 365 * r + r div 4"
    and "era_start (100 * c + r) = 1460 * (25 * c + r div 4) + 365 * (r mod 4) + 24 * c + r div 4"
proof -
  have "(100 * c + r) div 4 = 25 * c + r div 4"
    using div_mult_self2 [of 4 r "25 * c"] by (simp add: add.commute)
  moreover have "(100 * c + r) div 100 = c" using assms by simp
  ultimately show eq: "era_start (100 * c + r) = 36524 * c + 365 * r + r div 4" by (simp add: era_start_def)
  have "365 * r = 1460 * (r div 4) + 365 * (r mod 4)" using mult_div_mod_eq [of 4 r] by linarith
  then show "era_start (100 * c + r) = 1460 * (25 * c + r div 4) + 365 * (r mod 4) + 24 * c + r div 4"
    unfolding eq by (simp add: algebra_simps)
qed

text \<open>The day before the start of year \<open>100 c + r\<close> is day 364 or 365 of the year before.\<close>

lemma era_year_edges:
  fixes c r :: int
  assumes r: "0 \<le> r" "r < 100" and c: "0 \<le> c" "c \<le> 3"
  shows "era_year (era_start (100 * c + r)) = 100 * c + r"
    and "0 < 100 * c + r \<Longrightarrow> era_year (era_start (100 * c + r) - 1) = 100 * c + r - 1"
proof -
  let ?d = "era_start (100 * c + r)"
  note s = era_start_parts [OF r, of c]
  have q: "0 \<le> r div 4" "r div 4 \<le> 24" "0 \<le> r mod 4" "r mod 4 \<le> 3" using r by (simp_all, linarith?)
  have "?d div 1460 = 25 * c + r div 4"
    by (rule int_div_pos_eq [where r = "365 * (r mod 4) + 24 * c + r div 4"]) (use s(2) q c in linarith)+
  moreover have "?d div 36524 = c"
    by (rule int_div_pos_eq [where r = "365 * r + r div 4"]) (use s(1) q r in linarith)+
  moreover have "?d div 146096 = 0"
    by (rule div_pos_pos_trivial) (use s(1) q r c in linarith)+
  ultimately have "?d - ?d div 1460 + ?d div 36524 - ?d div 146096 = 365 * (100 * c + r)" using s(1) by (simp add: algebra_simps)
  then show "era_year ?d = 100 * c + r" unfolding era_year_def by simp
  assume pos: "0 < 100 * c + r"
  have "(?d - 1) div 1460 = 25 * c + r div 4"
  proof (rule int_div_pos_eq [where r = "365 * (r mod 4) + 24 * c + r div 4 - 1"])
    have "r mod 4 = 0 \<and> r div 4 = 0 \<Longrightarrow> r = 0" using mult_div_mod_eq [of 4 r] by linarith
    then show "0 \<le> 365 * (r mod 4) + 24 * c + r div 4 - 1" using pos q c by linarith
  qed (use s(2) q c in linarith)+
  moreover have "(?d - 1) div 36524 = (if r = 0 then c - 1 else c)"
  proof (cases "r = 0")
    case True
    then show ?thesis using int_div_pos_eq [of "?d - 1" 36524 "c - 1" 36523] s(1) by simp
  next
    case False
    then show ?thesis using int_div_pos_eq [of "?d - 1" 36524 c "365 * r + r div 4 - 1"] s(1) q r by simp
  qed
  moreover have "(?d - 1) div 146096 = 0"
    by (rule div_pos_pos_trivial) (use s(1) q r c pos in linarith)+
  ultimately have "?d - 1 - (?d - 1) div 1460 + (?d - 1) div 36524 - (?d - 1) div 146096 =
      365 * (100 * c + r - 1) + (if r = 0 then 363 else 364)" using s(1) by (simp add: algebra_simps)
  then show "era_year (?d - 1) = 100 * c + r - 1"
    unfolding era_year_def by (intro int_div_pos_eq) auto
qed

lemma era_year_ends:
  assumes y: "0 \<le> y" "y < 400"
  shows "era_year (era_start y) = y" and "era_year (era_end y) = y"
    and "era_end y - era_start y + 1 = year_size y"
proof -
  have start: "era_year (era_start z) = z" "0 < z \<Longrightarrow> era_year (era_start z - 1) = z - 1" if "0 \<le> z" "z < 400" for z
  proof -
    have "z = 100 * (z div 100) + z mod 100" "0 \<le> z mod 100" "z mod 100 < 100" "0 \<le> z div 100" "z div 100 \<le> 3" using that by auto
    then show "era_year (era_start z) = z" "0 < z \<Longrightarrow> era_year (era_start z - 1) = z - 1" using era_year_edges by metis+
  qed
  show "era_year (era_start y) = y" by (rule start(1) [OF y])
  show "era_year (era_end y) = y"
  proof (cases "y = 399")
    case True
    have "era_year 146096 = 399" by (simp add: era_year_def)
    then show ?thesis using True by (simp add: era_end_def)
  next
    case False
    then show ?thesis using start(2) [of "y + 1"] y by (simp add: era_end_def)
  qed
  show "era_end y - era_start y + 1 = year_size y"
  proof (cases "y = 399")
    case True
    then show ?thesis by (simp add: era_end_def era_start_def year_size_def is_leap_def)
  next
    case False
    have "year_start z = era_start z" if "0 \<le> z" "z < 400" for z using year_start_era [OF that, of 0] by (simp add: era_start_def)
    then show ?thesis using year_start_next [of y] y False by (simp add: era_end_def)
  qed
qed

text \<open>Every day of an era lies in exactly the year found for it.\<close>

lemma era_year_of:
  assumes "0 \<le> d" "d \<le> 146096"
  shows "0 \<le> era_year d" "era_year d < 400" "era_start (era_year d) \<le> d" "d \<le> era_end (era_year d)"
proof -
  have range: "0 \<le> era_year d" "era_year d < 400"
    using era_year_mono [OF assms(1)] era_year_mono [OF assms(2)] by (simp_all add: era_year_def)
  then show "0 \<le> era_year d" "era_year d < 400" by simp_all
  have succ: "era_end y + 1 = era_start (y + 1)" if "y \<noteq> 399" for y using that by (simp add: era_end_def)
  show "era_start (era_year d) \<le> d"
  proof (rule ccontr)
    assume "\<not> era_start (era_year d) \<le> d"
    then have lt: "d \<le> era_start (era_year d) - 1" by simp
    have pos: "0 < era_year d"
    proof (rule ccontr)
      assume "\<not> 0 < era_year d"
      then have "era_year d = 0" using range by simp
      then show False using lt assms(1) by (simp add: era_start_def)
    qed
    then have "era_start (era_year d) - 1 = era_end (era_year d - 1)" using succ [of "era_year d - 1"] range by simp
    then have "era_year d \<le> era_year (era_end (era_year d - 1))" using era_year_mono [OF lt] by simp
    then show False using era_year_ends(2) [of "era_year d - 1"] pos range by simp
  qed
  show "d \<le> era_end (era_year d)"
  proof (rule ccontr)
    assume "\<not> d \<le> era_end (era_year d)"
    then have gt: "era_end (era_year d) + 1 \<le> d" by simp
    have "era_year d \<noteq> 399" using gt assms(2) by (auto simp: era_end_def)
    then have "era_year (era_start (era_year d + 1)) \<le> era_year d" using era_year_mono [OF gt] succ by simp
    then show False using era_year_ends(1) [of "era_year d + 1"] range \<open>era_year d \<noteq> 399\<close> by simp
  qed
qed

lemma era_year_unique:
  assumes "0 \<le> y" "y < 400" "era_start y \<le> d" "d \<le> era_end y"
  shows "era_year d = y"
  using era_year_mono [OF assms(3)] era_year_mono [OF assms(4)] era_year_ends(1,2) [OF assms(1,2)] by simp

text \<open>The months of a year.\<close>

definition month_of :: "int \<Rightarrow> int" where
  "month_of doy = (doy * 5 + 2) div 153"

lemma div_bounds: "0 < k \<Longrightarrow> k * (x div k) \<le> x \<and> x < k * (x div k) + (k :: int)"
  using mult_div_mod_eq [of k x] pos_mod_bound [of k x] pos_mod_sign [of k x] by linarith

lemma month_start_bounds: "5 * month_start mp \<le> mp * 153 + 2" "mp * 153 + 2 < 5 * month_start mp + 5"
  using div_bounds [of 5 "mp * 153 + 2"] by (simp_all add: month_start_def)

lemma month_of_bounds: "153 * month_of doy \<le> doy * 5 + 2" "doy * 5 + 2 < 153 * month_of doy + 153"
  using div_bounds [of 153 "doy * 5 + 2"] by (simp_all add: month_of_def)

lemma month_of_day:
  assumes "0 \<le> doy" "doy < 366"
  shows "0 \<le> month_of doy" "month_of doy \<le> 11" "month_start (month_of doy) \<le> doy" "doy < month_start (month_of doy + 1)"
  using month_of_bounds [of doy] month_start_bounds [of "month_of doy"] month_start_bounds [of "month_of doy + 1"] assms
  by (simp_all only: distrib_right)

lemma month_of_unique: "month_start mp \<le> doy \<Longrightarrow> doy < month_start (mp + 1) \<Longrightarrow> month_of doy = mp"
  using month_of_bounds [of doy] month_start_bounds [of mp] month_start_bounds [of "mp + 1"]
  by (simp only: distrib_right)

lemma month_sizes:
  assumes "try_days_in_month year month = Some n"
  shows "1 \<le> month" "month \<le> 12"
    and "month_start ((if month > 2 then month - 3 else month + 9) + 1) - month_start (if month > 2 then month - 3 else month + 9) \<ge> n"
    and "month \<noteq> 2 \<Longrightarrow> month_start ((if month > 2 then month - 3 else month + 9) + 1) - month_start (if month > 2 then month - 3 else month + 9) = n"
    and "month = 2 \<Longrightarrow> n = year_size (year - 1) - 337"
proof -
  have m: "month \<in> {1, 2, 3, 4, 5, 6, 7, 8, 9, 10, 11, 12}"
    using assms by (auto simp: try_days_in_month_def split: if_splits)
  then show "1 \<le> month" "month \<le> 12" by auto
  show "month_start ((if month > 2 then month - 3 else month + 9) + 1) - month_start (if month > 2 then month - 3 else month + 9) \<ge> n"
    "month \<noteq> 2 \<Longrightarrow> month_start ((if month > 2 then month - 3 else month + 9) + 1) - month_start (if month > 2 then month - 3 else month + 9) = n"
    "month = 2 \<Longrightarrow> n = year_size (year - 1) - 337"
    using m assms by (auto simp: try_days_in_month_def month_start_def year_size_def split: if_splits)
qed

text \<open>The parts \<open>civil_from_days\<close> finds: the era and its day, the year and its day, the month and its day.\<close>

lemma civil_parts:
  obtains era doe where "civil_from_days days = (case month_of (doe - era_start (era_year doe)) of mp \<Rightarrow>
      (400 * era + era_year doe + (if mp < 10 then 0 else 1), (if mp < 10 then mp + 3 else mp - 9), doe - era_start (era_year doe) - month_start mp + 1))"
    and "days + 719468 = 146097 * era + doe" and "0 \<le> doe" "doe \<le> 146096" and "0 \<le> doe - era_start (era_year doe)" "doe - era_start (era_year doe) < 366"
proof -
  obtain era doe where s: "shifted_to_era days = (era, doe)" by (metis surj_pair)
  have b: "days = 146097 * (days div 146097) + days mod 146097" "0 \<le> days mod 146097" "days mod 146097 < 146097" by simp_all
  have e: "days + 719468 = 146097 * era + doe" "0 \<le> doe" "doe \<le> 146096"
    using s b by (auto simp: shifted_to_era_def Let_def days_per_era_def epoch_whole_eras_def epoch_era_remainder_def split: if_splits)
  note y = era_year_of [OF e(2,3)]
  let ?doy = "doe - era_start (era_year doe)"
  have doy: "0 \<le> ?doy" "?doy < 366" using y era_year_ends(3) [OF y(1,2)] by (auto simp: year_size_def split: if_splits)
  note m = month_of_day [OF doy]
  have "era_day_offset ?doy = ?doy" using doy by (simp add: era_day_offset_def)
  then have "civil_from_days days = (case month_of ?doy of mp \<Rightarrow>
      (400 * era + era_year doe + (if mp < 10 then 0 else 1), (if mp < 10 then mp + 3 else mp - 9), ?doy - month_start mp + 1))"
    using m by (simp add: civil_from_days_def s era_to_year_def Let_def era_year_def [symmetric] era_start_def [symmetric]
        day_of_year_to_month_day_def month_of_def [symmetric] month_start_def [symmetric])
  then show ?thesis using that e doy by blast
qed

definition valid_date :: "int \<times> int \<times> int \<Rightarrow> bool" where
  "valid_date date = (case date of (year, month, day) \<Rightarrow>
     case try_days_in_month year month of None \<Rightarrow> False | Some n \<Rightarrow> 1 \<le> day \<and> day \<le> n)"

text \<open>The date after a valid date.\<close>

definition next_date :: "int \<times> int \<times> int \<Rightarrow> int \<times> int \<times> int" where
  "next_date date = (case date of (year, month, day) \<Rightarrow>
     if Some day \<noteq> try_days_in_month year month then (year, month, day + 1)
     else if month < 12 then (year, month + 1, 1) else (year + 1, 1, 1))"

lemma try_days_some: "1 \<le> month \<Longrightarrow> month \<le> 12 \<Longrightarrow> \<exists>n. try_days_in_month year month = Some n \<and> 28 \<le> n"
proof -
  assume "1 \<le> month" "month \<le> 12"
  then have "month = 1 \<or> month = 2 \<or> month = 3 \<or> month = 4 \<or> month = 5 \<or> month = 6 \<or> month = 7 \<or> month = 8 \<or>
      month = 9 \<or> month = 10 \<or> month = 11 \<or> month = 12" by presburger
  then show ?thesis by (auto simp: try_days_in_month_def)
qed

lemma era_year_start:
  "0 \<le> y \<Longrightarrow> y < 400 \<Longrightarrow> year_start (400 * e + y) = 146097 * e + era_start y"
  using year_start_era [of y e] by (simp add: era_start_def)

lemma civil_valid: "valid_date (civil_from_days days) \<and> (case civil_from_days days of (y, m, d) \<Rightarrow> unclamped y m d = days)"
proof -
  obtain era doe where c: "civil_from_days days = (case month_of (doe - era_start (era_year doe)) of mp \<Rightarrow>
      (400 * era + era_year doe + (if mp < 10 then 0 else 1), (if mp < 10 then mp + 3 else mp - 9), doe - era_start (era_year doe) - month_start mp + 1))"
    and e: "days + 719468 = 146097 * era + doe" "0 \<le> doe" "doe \<le> 146096"
    and doy: "0 \<le> doe - era_start (era_year doe)" "doe - era_start (era_year doe) < 366" by (rule civil_parts)
  define y where "y = era_year doe"
  define doy where "doy = doe - era_start y"
  define mp where "mp = month_of doy"
  note m = month_of_day [OF doy(1,2), folded y_def, folded doy_def, folded mp_def]
  note yb = era_year_of [OF e(2,3), folded y_def]
  let ?month = "if mp < 10 then mp + 3 else mp - 9" and ?year = "400 * era + y + (if mp < 10 then 0 else 1)"
  have c': "civil_from_days days = (?year, ?month, doy - month_start mp + 1)"
    using c by (simp only: y_def [symmetric] doy_def [symmetric] mp_def [symmetric])
  have month: "1 \<le> ?month" "?month \<le> 12" "(if ?month > 2 then ?month - 3 else ?month + 9) = mp" "?month = 2 \<longleftrightarrow> mp = 11" using m by auto
  have ay: "(if ?month \<le> 2 then ?year - 1 else ?year) = 400 * era + y" using m by auto
  have "unclamped ?year ?month (doy - month_start mp + 1) = year_start (400 * era + y) + doy - 719468"
    unfolding unclamped_def ay month(3) by simp
  also have "\<dots> = days" unfolding era_year_start [OF yb(1,2)] using e(1) by (simp add: doy_def)
  finally have un: "unclamped ?year ?month (doy - month_start mp + 1) = days" .
  obtain n where n: "try_days_in_month ?year ?month = Some n" using try_days_some [OF month(1,2)] by blast
  note sz = month_sizes [OF n]
  have "doy - month_start mp + 1 \<le> n"
  proof (cases "mp = 11")
    case True
    then have "n = year_size (400 * era + y) - 337" using sz(5) month(4) by simp
    moreover have "is_leap (400 * era + (y + 1)) \<longleftrightarrow> is_leap (y + 1)"
      using mod_mult_self2 [of "y + 1" 4 "100 * era"] mod_mult_self2 [of "y + 1" 100 "4 * era"] mod_mult_self2 [of "y + 1" 400 era]
      by (simp add: is_leap_def add.commute)
    ultimately have "n = year_size y - 337" by (simp add: year_size_def add.assoc)
    moreover have "doy < year_size y" using yb(4) era_year_ends(3) [OF yb(1,2)] by (simp add: doy_def)
    moreover have "month_start 11 = 337" by (simp add: month_start_def)
    ultimately show ?thesis using True by simp
  next
    case False
    then have "n = month_start (mp + 1) - month_start mp" using sz(4) month(3,4) by simp
    then show ?thesis using m(4) by simp
  qed
  then have "valid_date (?year, ?month, doy - month_start mp + 1)" using n m(3) by (simp add: valid_date_def)
  then show ?thesis using un unfolding c' by simp
qed

lemma leap_era: "is_leap (400 * e + y) \<longleftrightarrow> is_leap y"
  using mod_mult_self2 [of y 4 "100 * e"] mod_mult_self2 [of y 100 "4 * e"] mod_mult_self2 [of y 400 e]
  by (simp add: is_leap_def add.commute)

lemma unclamped_inverse:
  assumes v: "valid_date (year, month, day)"
  shows "civil_from_days (unclamped year month day) = (year, month, day)"
proof -
  obtain n where n: "try_days_in_month year month = Some n" "1 \<le> day" "day \<le> n"
    using v by (auto simp: valid_date_def split: option.splits)
  note sz = month_sizes [OF n(1)]
  define ay where "ay = (if month \<le> 2 then year - 1 else year)"
  define mp where "mp = (if month > 2 then month - 3 else month + 9)"
  define doy where "doy = month_start mp + day - 1"
  define e where "e = ay div 400"
  define y where "y = ay - ay div 400 * 400"
  note es = era_split [of ay, folded y_def e_def]
  have mp: "0 \<le> mp" "mp \<le> 11" "mp = 11 \<longleftrightarrow> month = 2" using sz(1,2) by (auto simp: mp_def)
  have doy: "month_start mp \<le> doy" "doy < month_start (mp + 1)"
    using n sz(3) by (auto simp: doy_def mp_def)
  have "doy < year_size y"
  proof (cases "mp = 11")
    case True
    then have "month = 2" using mp by simp
    then have "ay = year - 1" by (simp add: ay_def)
    moreover have "year_size ay = year_size y" using leap_era [of e "y + 1"] es(3) by (simp add: year_size_def add.assoc)
    ultimately have "n = year_size y - 337" using sz(5) \<open>month = 2\<close> by simp
    then show ?thesis using n True by (simp add: doy_def month_start_def)
  next
    case False
    then have "mp \<le> 10" using mp by simp
    moreover have "5 * month_start (mp + 1) \<le> 153 * mp + 155" using month_start_bounds(1) [of "mp + 1"] by (simp add: algebra_simps)
    ultimately have "month_start (mp + 1) \<le> 337" by linarith
    moreover have "365 \<le> year_size y" by (simp add: year_size_def)
    ultimately show ?thesis using doy(2) by linarith
  qed
  have doy0: "0 \<le> doy" using doy(1) mp(1) month_start_bounds(2) [of mp] by linarith
  let ?doe = "era_start y + doy"
  have in_year: "era_start y \<le> ?doe" "?doe \<le> era_end y"
    using doy0 \<open>doy < year_size y\<close> era_year_ends(3) [OF es(1,2)] by simp_all
  have "0 \<le> era_start y" using es(1) era_start_def [of y] div_bounds [of 100 y] div_bounds [of 4 y] by simp
  moreover have "era_end y \<le> 146096"
  proof (cases "y = 399")
    case False
    then have "0 \<le> y + 1" "y + 1 \<le> 399" using es by simp_all
    then show ?thesis using False div_bounds [of 100 "y + 1"] div_bounds [of 4 "y + 1"] by (simp add: era_end_def era_start_def)
  qed (simp add: era_end_def)
  ultimately have range: "0 \<le> ?doe" "?doe \<le> 146096" using in_year by linarith+
  let ?days = "unclamped year month day"
  have days: "?days + 719468 = 146097 * e + ?doe"
    using era_year_start [OF es(1,2), of e] unfolding unclamped_def ay_def [symmetric] mp_def [symmetric] es(3) [symmetric]
    by (simp add: doy_def)
  obtain era doe where c: "civil_from_days ?days = (case month_of (doe - era_start (era_year doe)) of mp \<Rightarrow>
      (400 * era + era_year doe + (if mp < 10 then 0 else 1), (if mp < 10 then mp + 3 else mp - 9), doe - era_start (era_year doe) - month_start mp + 1))"
    and eq: "?days + 719468 = 146097 * era + doe" "0 \<le> doe" "doe \<le> 146096" by (rule civil_parts)
  have "(146097 * e + ?doe) div 146097 = e" by (rule int_div_pos_eq [OF refl]) (use range in simp_all)
  moreover have "(146097 * era + doe) div 146097 = era" by (rule int_div_pos_eq [OF refl]) (use eq in simp_all)
  ultimately have "era = e" using days eq(1) by metis
  then have same: "era = e" "doe = ?doe" using days eq(1) by linarith+
  have "era_year ?doe = y" by (rule era_year_unique [OF es(1,2) in_year])
  moreover have "month_of doy = mp" by (rule month_of_unique [OF doy])
  moreover have "400 * e + y = ay" using es(3) by simp
  ultimately have "civil_from_days ?days = (ay + (if mp < 10 then 0 else 1), (if mp < 10 then mp + 3 else mp - 9), day)"
    unfolding c same by (simp add: doy_def)
  also have "\<dots> = (year, month, day)" using sz(1,2) by (auto simp: ay_def mp_def)
  finally show ?thesis .
qed

lemma civil_epoch: "civil_from_days 0 = (1970, 1, 1)"
  by code_simp

section \<open>What the module promises\<close>

text \<open>Converting a day number to a civil date and back gives the day number, and the date is a valid date of the Gregorian calendar.\<close>

theorem civil_round_trip:
  assumes "i64_min \<le> days" and "days \<le> i64_max" and "civil_from_days days = (year, month, day)"
  shows "valid_date (year, month, day) \<and> days_from_civil year month day = days"
  using civil_valid [of days] assms by (simp add: days_from_civil_eq clamp_i64_id)

text \<open>The civil date of day 0 is 1970-01-01 and the date of each next day is the next date of the Gregorian calendar.\<close>

theorem civil_next_day: "civil_from_days 0 = (1970, 1, 1) \<and> civil_from_days (days + 1) = next_date (civil_from_days days)"
proof -
  obtain year month day where c: "civil_from_days days = (year, month, day)" by (metis prod_cases3)
  then have v: "valid_date (year, month, day)" and u: "unclamped year month day = days" using civil_valid [of days] by simp_all
  obtain n where n: "try_days_in_month year month = Some n" "1 \<le> day" "day \<le> n"
    using v by (auto simp: valid_date_def split: option.splits)
  note sz = month_sizes [OF n(1)]
  obtain y' m' d' where next_eq: "next_date (year, month, day) = (y', m', d')" by (metis prod_cases3)
  have "valid_date (y', m', d') \<and> unclamped y' m' d' = days + 1"
  proof (cases "day = n")
    case False
    then have "(y', m', d') = (year, month, day + 1)" using next_eq n by (auto simp: next_date_def)
    then show ?thesis using n False u by (auto simp: valid_date_def unclamped_def)
  next
    case last: True
    show ?thesis
    proof (cases "month < 12")
      case True
      then have eq: "(y', m', d') = (year, month + 1, 1)" using next_eq n last by (auto simp: next_date_def)
      obtain k where "try_days_in_month year (month + 1) = Some k" "28 \<le> k"
        using try_days_some [of "month + 1" year] sz(1,2) True by auto
      then have "valid_date (year, month + 1, 1)" by (simp add: valid_date_def)
      moreover have "unclamped year (month + 1) 1 = unclamped year month n + 1"
      proof (cases "month = 2")
        case True
        then show ?thesis using sz(5) year_start_next [of "year - 1"] by (simp add: unclamped_def month_start_def)
      next
        case False
        then show ?thesis using sz(4) sz(1) True by (auto simp: unclamped_def add.commute add.left_commute)
      qed
      ultimately show ?thesis using eq u last by simp
    next
      case False
      then have m: "month = 12" using sz(2) by simp
      then have "(y', m', d') = (year + 1, 1, 1)" using next_eq n last by (auto simp: next_date_def)
      moreover have "n = 31" using n(1) m by (simp add: try_days_in_month_def)
      ultimately show ?thesis using u last m by (auto simp: valid_date_def try_days_in_month_def unclamped_def month_start_def)
    qed
  qed
  then have "civil_from_days (days + 1) = (y', m', d')" using unclamped_inverse [of y' m' d'] by simp
  then show ?thesis using c next_eq civil_epoch by simp
qed

theorem civil_round_trip_witness: "days_from_civil 1970 1 1 = 0"
  using civil_round_trip [of 0 1970 1 1] civil_epoch by (simp add: i64_min_def i64_max_def)

end
