(* ===== verification/Rfc3339.thy ===== *)
theory Rfc3339
  imports Calendar
begin

text \<open>
  \<open>crates/lgwks-std/src/time/\<close> (\<open>error.rs\<close>, \<open>format.rs\<close>, \<open>parse.rs\<close>): instants as seconds and
  nanoseconds since the epoch, their RFC 3339 text, and the parser. \<open>SystemTime\<close> is the standard
  library's on a 64-bit Unix: a signed number of nanoseconds whose seconds fit \<open>i64\<close>. Text is its
  ASCII bytes. Offsets into a text stay below \<open>isize::MAX\<close>, so their sums are exact.
\<close>

section \<open>Instants\<close>

type_synonym systime = int

definition systime_ok :: "systime \<Rightarrow> bool" where
  "systime_ok t \<longleftrightarrow> i64_min \<le> t div 1000000000 \<and> t div 1000000000 \<le> i64_max"

datatype unix_time_error =
    SecondsOverflow int int
  | SystemTimeOutOfRange int int
  | SystemTimeOutsideI64Range bool
  | NegationOverflow int

definition i64_try_from :: "'e \<Rightarrow> int \<Rightarrow> 'e + int" where
  "i64_try_from e x = (if i64_min \<le> x \<and> x \<le> i64_max then Inr x else Inl e)"

definition i64_checked :: "int \<Rightarrow> int option" where
  "i64_checked x = (if i64_min \<le> x \<and> x \<le> i64_max then Some x else None)"

definition nanos_per_second :: int where
  "nanos_per_second = 1000000000"

definition seconds_per_day :: int where
  "seconds_per_day = 86400"

definition unix_parts :: "systime \<Rightarrow> unix_time_error + (int \<times> int)" where
  "unix_parts t =
     (if 0 \<le> t then
        rbind (i64_try_from (SystemTimeOutsideI64Range False) (t div nanos_per_second)) (\<lambda>seconds.
          Inr (seconds, t mod nanos_per_second))
      else
        let secs = (- t) div nanos_per_second; nanos = (- t) mod nanos_per_second in
        if secs = - i64_min \<and> nanos = 0 then Inr (i64_min, 0)
        else rbind (i64_try_from (SystemTimeOutsideI64Range True) secs) (\<lambda>whole.
          let seconds = (if nanos = 0 then i64_checked (- whole)
                         else (case i64_checked (- whole) of None \<Rightarrow> None | Some v \<Rightarrow> i64_checked (v - 1)))
          in case seconds of
               None \<Rightarrow> Inl (NegationOverflow (abs whole))
             | Some seconds \<Rightarrow> Inr (seconds, if nanos = 0 then 0 else nanos_per_second - nanos)))"

text \<open>\<open>checked_add\<close> and \<open>checked_sub\<close> of a duration to the epoch.\<close>

definition epoch_plus :: "int \<Rightarrow> systime option" where
  "epoch_plus t = (if systime_ok t then Some t else None)"

definition from_unix_parts :: "int \<Rightarrow> int \<Rightarrow> unix_time_error + systime" where
  "from_unix_parts secs nanos =
     (let carry = nanos div nanos_per_second; fraction = nanos mod nanos_per_second in
      rbind (ok_or (SecondsOverflow secs nanos) (i64_checked (secs + carry))) (\<lambda>normalized_secs.
        let instant = (if normalized_secs \<ge> 0 then epoch_plus (normalized_secs * nanos_per_second + fraction)
              else if fraction = 0 then epoch_plus (- (abs normalized_secs * nanos_per_second))
              else epoch_plus (- ((abs normalized_secs - 1) * nanos_per_second + (nanos_per_second - fraction))))
        in ok_or (SystemTimeOutOfRange normalized_secs fraction) instant))"

text \<open>The lossy readings of both, which give an end of the range, or the epoch, for an error.\<close>

definition unix_parts_lossy :: "systime \<Rightarrow> int \<times> int" where
  "unix_parts_lossy t = (case unix_parts t of Inr parts \<Rightarrow> parts
     | Inl (SystemTimeOutsideI64Range True) \<Rightarrow> (i64_min, 0)
     | Inl _ \<Rightarrow> (i64_max, 0))"

definition from_unix_parts_lossy :: "int \<Rightarrow> int \<Rightarrow> systime" where
  "from_unix_parts_lossy secs nanos = (case from_unix_parts secs nanos of Inr instant \<Rightarrow> instant | Inl _ \<Rightarrow> 0)"

section \<open>Formatting\<close>

datatype format_error = FormatUnixTime unix_time_error | YearOutsideRfc3339 int

definition digit_byte :: "int \<Rightarrow> u8" where
  "digit_byte v = sat_add_u8 48 (word_of_int (v mod 10))"

definition write_two_digits :: "int \<Rightarrow> bytes" where
  "write_two_digits v = [digit_byte (v div 10), digit_byte (v mod 10)]"

definition write_four_digits :: "int \<Rightarrow> bytes" where
  "write_four_digits v = write_two_digits (v div 100) @ write_two_digits (v mod 100)"

text \<open>The buffer is filled from its end; \<open>count\<close> bytes are left.\<close>

fun fraction_buf :: "nat \<Rightarrow> int \<Rightarrow> bytes \<Rightarrow> bytes" where
  "fraction_buf 0 remainder buf = buf"
| "fraction_buf (Suc count) remainder buf = fraction_buf count (remainder div 10) (digit_byte (remainder mod 10) # buf)"

fun fraction_length :: "bytes \<Rightarrow> nat \<Rightarrow> nat" where
  "fraction_length buf 0 = 0"
| "fraction_length buf (Suc n) = (if buf ! n = 48 then fraction_length buf n else Suc n)"

definition write_fraction :: "int \<Rightarrow> bytes" where
  "write_fraction nanos = (let buf = fraction_buf 9 nanos [] in take (fraction_length buf 9) buf)"

definition write_civil :: "int \<Rightarrow> int \<Rightarrow> int \<Rightarrow> bytes" where
  "write_civil year month day = write_four_digits year @ [45] @ write_two_digits month @ [45] @ write_two_digits day"

definition write_time_parts :: "int \<Rightarrow> int \<Rightarrow> int \<Rightarrow> bytes" where
  "write_time_parts hour minute sec = [84] @ write_two_digits hour @ [58] @ write_two_digits minute @ [58] @ write_two_digits sec"

definition write_optional_fraction :: "int \<Rightarrow> bytes" where
  "write_optional_fraction nanos = (if nanos > 0 then 46 # write_fraction nanos else []) @ [90]"

definition to_rfc3339 :: "systime \<Rightarrow> format_error + bytes" where
  "to_rfc3339 t =
     (case unix_parts t of
        Inl e \<Rightarrow> Inl (FormatUnixTime e)
      | Inr (secs, nanos) \<Rightarrow>
          (case civil_from_days (secs div seconds_per_day) of (year, month, day) \<Rightarrow>
             if \<not> (0 \<le> year \<and> year \<le> 9999) then Inl (YearOutsideRfc3339 year)
             else
               let rest = secs mod seconds_per_day;
                   hour = rest div 3600; minute = rest mod 3600 div 60; sec = rest mod 60
               in Inr (write_civil year month day @ write_time_parts hour minute sec @ write_optional_fraction nanos)))"

section \<open>Parsing\<close>

datatype time_field = Year | Month | Day | Hour | Minute | Second | OffsetHour | OffsetMinute

datatype parse_error =
    TooShort nat nat
  | Malformed nat u8
  | NonDigit time_field nat u8
  | OutOfRange time_field int int int nat
  | FractionWidth nat nat
  | UnsupportedLeapSecond nat
  | UnrepresentableInstant unix_time_error
  | MissingOffset nat

definition get_byte :: "bytes \<Rightarrow> nat \<Rightarrow> u8 option" where
  "get_byte bytes k = (if k < length bytes then Some (bytes ! k) else None)"

definition check_min_len :: "bytes \<Rightarrow> parse_error + unit" where
  "check_min_len bytes = (if length bytes < 19 then Inl (TooShort (length bytes) (length bytes)) else Inr ())"

definition expect_byte :: "bytes \<Rightarrow> nat \<Rightarrow> u8 \<Rightarrow> parse_error + unit" where
  "expect_byte bytes k expected =
     (case get_byte bytes k of
        Some actual \<Rightarrow> if actual = expected then Inr () else Inl (Malformed k actual)
      | None \<Rightarrow> Inl (TooShort (length bytes) k))"

definition is_digit :: "u8 \<Rightarrow> bool" where
  "is_digit byte \<longleftrightarrow> 48 \<le> byte \<and> byte \<le> 57"

definition check_digit :: "u8 \<Rightarrow> time_field \<Rightarrow> nat \<Rightarrow> parse_error + int" where
  "check_digit byte field k = (if is_digit byte then Inr (uint (sat_sub_u8 byte 48)) else Inl (NonDigit field k byte))"

definition sat_u32 :: "int \<Rightarrow> int" where
  "sat_u32 x = min x 4294967295"

text \<open>The loop over the offsets \<open>offset, ..., len - 1\<close>; \<open>left\<close> of them are left.\<close>

fun digit_field_loop :: "bytes \<Rightarrow> nat \<Rightarrow> nat \<Rightarrow> time_field \<Rightarrow> int \<Rightarrow> parse_error + int" where
  "digit_field_loop bytes k 0 field acc = Inr acc"
| "digit_field_loop bytes k (Suc left) field acc =
     rbind (ok_or (TooShort (length bytes) k) (get_byte bytes k)) (\<lambda>byte.
     rbind (check_digit byte field k) (\<lambda>digit.
       digit_field_loop bytes (k + 1) left field (sat_u32 (sat_u32 (acc * 10) + digit))))"

definition parse_digit_field :: "bytes \<Rightarrow> nat \<Rightarrow> nat \<Rightarrow> time_field \<Rightarrow> parse_error + int" where
  "parse_digit_field bytes start len field = digit_field_loop bytes start len field 0"

definition check_range :: "time_field \<Rightarrow> int \<Rightarrow> int \<Rightarrow> int \<Rightarrow> nat \<Rightarrow> parse_error + unit" where
  "check_range field v lo hi k = (if v < lo \<or> v > hi then Inl (OutOfRange field v lo hi k) else Inr ())"

definition parse_year :: "bytes \<Rightarrow> parse_error + int" where
  "parse_year bytes = rbind (parse_digit_field bytes 0 4 Year) (\<lambda>v. rbind (expect_byte bytes 4 45) (\<lambda>_. Inr v))"

definition parse_month :: "bytes \<Rightarrow> parse_error + int" where
  "parse_month bytes = rbind (parse_digit_field bytes 5 2 Month) (\<lambda>v. rbind (expect_byte bytes 7 45) (\<lambda>_.
     rbind (check_range Month v 1 12 5) (\<lambda>_. Inr v)))"

definition parse_day :: "bytes \<Rightarrow> int \<Rightarrow> int \<Rightarrow> parse_error + int" where
  "parse_day bytes year month = rbind (parse_digit_field bytes 8 2 Day) (\<lambda>v.
     rbind (ok_or (OutOfRange Month month 1 12 5) (try_days_in_month year month)) (\<lambda>month_days.
     rbind (check_range Day v 1 month_days 8) (\<lambda>_. Inr v)))"

definition parse_date :: "bytes \<Rightarrow> parse_error + (int \<times> int \<times> int)" where
  "parse_date bytes = rbind (parse_year bytes) (\<lambda>year. rbind (parse_month bytes) (\<lambda>month.
     rbind (parse_day bytes year month) (\<lambda>day. Inr (year, month, day))))"

definition check_time_separator :: "bytes \<Rightarrow> parse_error + unit" where
  "check_time_separator bytes =
     (case get_byte bytes 10 of
        Some byte \<Rightarrow> if byte \<in> {84, 116, 32} then Inr () else Inl (Malformed 10 byte)
      | None \<Rightarrow> Inl (TooShort (length bytes) 10))"

definition parse_hour :: "bytes \<Rightarrow> parse_error + int" where
  "parse_hour bytes = rbind (parse_digit_field bytes 11 2 Hour) (\<lambda>v. rbind (expect_byte bytes 13 58) (\<lambda>_.
     rbind (check_range Hour v 0 23 11) (\<lambda>_. Inr v)))"

definition parse_minute :: "bytes \<Rightarrow> parse_error + int" where
  "parse_minute bytes = rbind (parse_digit_field bytes 14 2 Minute) (\<lambda>v. rbind (expect_byte bytes 16 58) (\<lambda>_.
     rbind (check_range Minute v 0 59 14) (\<lambda>_. Inr v)))"

definition parse_second :: "bytes \<Rightarrow> parse_error + int" where
  "parse_second bytes = rbind (parse_digit_field bytes 17 2 Second) (\<lambda>v.
     if v = 60 then Inl (UnsupportedLeapSecond 17)
     else rbind (check_range Second v 0 59 17) (\<lambda>_. Inr v))"

definition parse_time :: "bytes \<Rightarrow> parse_error + (int \<times> int \<times> int)" where
  "parse_time bytes = rbind (check_time_separator bytes) (\<lambda>_. rbind (parse_hour bytes) (\<lambda>hour.
     rbind (parse_minute bytes) (\<lambda>minute. rbind (parse_second bytes) (\<lambda>second. Inr (hour, minute, second)))))"

text \<open>The loop over \<open>digit_idx\<close>; \<open>left\<close> of the nine rounds are left.\<close>

fun fraction_loop :: "bytes \<Rightarrow> nat \<Rightarrow> nat \<Rightarrow> nat \<Rightarrow> nat \<Rightarrow> int \<Rightarrow> parse_error + int" where
  "fraction_loop bytes start digits digit_idx 0 scaled = Inr scaled"
| "fraction_loop bytes start digits digit_idx (Suc left) scaled =
     rbind (if digit_idx < digits then
              rbind (ok_or (TooShort (length bytes) (start + digit_idx)) (get_byte bytes (start + digit_idx))) (\<lambda>byte.
                Inr (uint (sat_sub_u8 byte 48)))
            else Inr 0) (\<lambda>digit.
       fraction_loop bytes start digits (digit_idx + 1) left (sat_u32 (sat_u32 (scaled * 10) + digit)))"

definition compute_fraction :: "bytes \<Rightarrow> nat \<Rightarrow> nat \<Rightarrow> parse_error + int" where
  "compute_fraction bytes start digits = fraction_loop bytes start digits 0 9 0"

definition skip_digits :: "bytes \<Rightarrow> nat \<Rightarrow> nat" where
  "skip_digits bytes cursor = cursor + length (takeWhile is_digit (drop cursor bytes))"

definition parse_fraction_digits :: "bytes \<Rightarrow> nat \<Rightarrow> nat \<Rightarrow> (parse_error + int) \<times> nat" where
  "parse_fraction_digits bytes start dot_pos =
     (let cursor = skip_digits bytes start; digits = cursor - start in
      if digits = 0 \<or> digits > 9 then (Inl (FractionWidth digits dot_pos), cursor)
      else (compute_fraction bytes start digits, cursor))"

definition parse_fraction :: "bytes \<Rightarrow> nat \<Rightarrow> (parse_error + int) \<times> nat" where
  "parse_fraction bytes cursor =
     (if get_byte bytes cursor \<noteq> Some 46 then (Inr 0, cursor)
      else parse_fraction_digits bytes (cursor + 1) cursor)"

definition offset_magnitude :: "bytes \<Rightarrow> nat \<Rightarrow> parse_error + int" where
  "offset_magnitude bytes cursor =
     rbind (parse_digit_field bytes (cursor + 1) 2 OffsetHour) (\<lambda>offset_hour.
     rbind (expect_byte bytes (cursor + 3) 58) (\<lambda>_.
     rbind (parse_digit_field bytes (cursor + 4) 2 OffsetMinute) (\<lambda>offset_minute.
     rbind (check_range OffsetHour offset_hour 0 23 (cursor + 1)) (\<lambda>_.
     rbind (check_range OffsetMinute offset_minute 0 59 (cursor + 4)) (\<lambda>_.
       Inr (clamp_i64 (clamp_i64 (offset_hour * 60) + offset_minute)))))))"

definition parse_numeric_offset :: "bytes \<Rightarrow> nat \<Rightarrow> bool \<Rightarrow> parse_error + int" where
  "parse_numeric_offset bytes cursor sign_negative =
     (let last_at = cursor + 6 in
      if last_at > length bytes then Inl (MissingOffset cursor)
      else if last_at < length bytes then
        rbind (ok_or (MissingOffset cursor) (get_byte bytes last_at)) (\<lambda>byte. Inl (Malformed last_at byte))
      else rbind (offset_magnitude bytes cursor) (\<lambda>magnitude.
        Inr (if sign_negative then clamp_i64 (- magnitude) else magnitude)))"

definition parse_offset :: "bytes \<Rightarrow> nat \<Rightarrow> parse_error + int" where
  "parse_offset bytes cursor =
     (case get_byte bytes cursor of
        None \<Rightarrow> Inl (MissingOffset cursor)
      | Some byte \<Rightarrow>
          if byte \<in> {90, 122} \<and> cursor + 1 = length bytes then Inr 0
          else if byte \<in> {90, 122} then
            (case get_byte bytes (cursor + 1) of Some byte \<Rightarrow> Inl (Malformed (cursor + 1) byte) | None \<Rightarrow> Inl (MissingOffset (cursor + 1)))
          else if byte = 43 then parse_numeric_offset bytes cursor False
          else if byte = 45 then parse_numeric_offset bytes cursor True
          else Inl (Malformed cursor byte))"

definition checked_system_time :: "int \<Rightarrow> int \<Rightarrow> parse_error + systime" where
  "checked_system_time seconds nanoseconds =
     (case from_unix_parts seconds nanoseconds of Inl e \<Rightarrow> Inl (UnrepresentableInstant e) | Inr t \<Rightarrow> Inr t)"

definition parse_rfc3339 :: "bytes \<Rightarrow> parse_error + systime" where
  "parse_rfc3339 bytes =
     rbind (check_min_len bytes) (\<lambda>_.
     rbind (parse_date bytes) (\<lambda>(year, month, day).
     rbind (parse_time bytes) (\<lambda>(hour, minute, second).
       case parse_fraction bytes 19 of (fraction, cursor) \<Rightarrow>
       rbind fraction (\<lambda>nanos.
       rbind (parse_offset bytes cursor) (\<lambda>offset_minutes.
         let secs = clamp_i64 (clamp_i64 (clamp_i64 (clamp_i64 (clamp_i64 (days_from_civil year month day * 86400)
               + clamp_i64 (hour * 3600)) + clamp_i64 (minute * 60)) + second) - clamp_i64 (offset_minutes * 60))
         in checked_system_time secs nanos)))))"

section \<open>Instants and their parts\<close>

lemma unix_parts_ok:
  assumes "systime_ok t"
  shows "unix_parts t = Inr (t div 1000000000, t mod 1000000000)"
proof (cases "0 \<le> t")
  case True
  then show ?thesis using assms by (simp add: unix_parts_def i64_try_from_def systime_ok_def nanos_per_second_def)
next
  case False
  define secs where "secs = (- t) div 1000000000"
  define nanos where "nanos = (- t) mod 1000000000"
  have "1000000000 * secs + nanos = - t" by (simp only: secs_def nanos_def mult_div_mod_eq)
  then have t: "t = 1000000000 * (- secs) - nanos" by simp
  have t: "t = 1000000000 * (- secs) - nanos" "0 \<le> nanos" "nanos < 1000000000" "0 \<le> secs"
    using t False by (simp_all add: secs_def nanos_def pos_imp_zdiv_nonneg_iff)
  have parts: "t div 1000000000 = (if nanos = 0 then - secs else - secs - 1) \<and> t mod 1000000000 = (if nanos = 0 then 0 else 1000000000 - nanos)"
  proof (cases "nanos = 0")
    case True
    then show ?thesis using t by simp
  next
    case False
    have "t = 1000000000 * (- secs - 1) + (1000000000 - nanos)" using t(1) by (simp add: algebra_simps)
    then have "t div 1000000000 = - secs - 1" "t mod 1000000000 = 1000000000 - nanos"
      using int_div_pos_eq [of t 1000000000 "- secs - 1" "1000000000 - nanos"] int_mod_pos_eq [of t 1000000000 "- secs - 1" "1000000000 - nanos"] t False
      by simp_all
    then show ?thesis using False by simp
  qed
  have bound: "secs \<le> - i64_min" "secs = - i64_min \<Longrightarrow> nanos = 0"
    using assms parts by (auto simp: systime_ok_def split: if_splits)
  show ?thesis
    using False parts bound t(4) unfolding unix_parts_def nanos_per_second_def Let_def secs_def [symmetric] nanos_def [symmetric]
    by (auto simp: i64_try_from_def i64_checked_def i64_min_def i64_max_def)
qed

lemma from_unix_parts_ok:
  assumes "systime_ok t"
  shows "from_unix_parts (t div 1000000000) (t mod 1000000000) = Inr t"
proof -
  define secs where "secs = t div 1000000000"
  define nanos where "nanos = t mod 1000000000"
  have t: "t = secs * 1000000000 + nanos" "0 \<le> nanos" "nanos < 1000000000" by (simp_all add: secs_def nanos_def)
  have range: "i64_min \<le> secs" "secs \<le> i64_max" using assms by (simp_all add: systime_ok_def secs_def)
  have norm: "nanos div 1000000000 = 0" "nanos mod 1000000000 = nanos" using t by simp_all
  show ?thesis
    unfolding secs_def [symmetric] nanos_def [symmetric] from_unix_parts_def nanos_per_second_def norm
    using range t assms by (auto simp: i64_checked_def Let_def epoch_plus_def algebra_simps)
qed

section \<open>Digits\<close>

lemma digit_byte_facts:
  "is_digit (digit_byte v)" "uint (sat_sub_u8 (digit_byte v) 48) = v mod 10" "digit_byte v = 48 \<longleftrightarrow> v mod 10 = 0"
proof -
  have "\<forall>k \<in> set [0..9]. is_digit (digit_byte k) \<and> uint (sat_sub_u8 (digit_byte k) 48) = k \<and> (digit_byte k = 48 \<longleftrightarrow> k = 0)" by code_simp
  moreover have "v mod 10 \<in> set [0..9]" by simp
  moreover have "digit_byte (v mod 10) = digit_byte v" by (simp add: digit_byte_def)
  ultimately show "is_digit (digit_byte v)" "uint (sat_sub_u8 (digit_byte v) 48) = v mod 10" "digit_byte v = 48 \<longleftrightarrow> v mod 10 = 0"
    by metis+
qed

lemma check_digit_byte [simp]: "check_digit (digit_byte v) field k = Inr (v mod 10)"
  by (simp add: check_digit_def digit_byte_facts)

lemma two_digits_read:
  assumes "get_byte bytes k = Some (digit_byte (v div 10))" "get_byte bytes (k + 1) = Some (digit_byte (v mod 10))" "0 \<le> v" "v < 100"
  shows "parse_digit_field bytes k 2 field = Inr v"
  using assms by (simp add: parse_digit_field_def numeral_2_eq_2 sat_u32_def)

lemma digit_loop_step:
  assumes "get_byte bytes k = Some (digit_byte h)" "0 \<le> h" "h < 10" "0 \<le> acc" "acc \<le> 1000"
  shows "digit_field_loop bytes k (Suc left) field acc = digit_field_loop bytes (Suc k) left field (acc * 10 + h)"
  using assms by (simp add: sat_u32_def)

lemma four_digits_loop:
  assumes g: "get_byte bytes k = Some (digit_byte h)" "get_byte bytes (Suc k) = Some (digit_byte l)"
    "get_byte bytes (Suc (Suc k)) = Some (digit_byte h')" "get_byte bytes (Suc (Suc (Suc k))) = Some (digit_byte l')"
    and b: "0 \<le> h" "h < 10" "0 \<le> l" "l < 10" "0 \<le> h'" "h' < 10" "0 \<le> l'" "l' < 10"
  shows "parse_digit_field bytes k 4 field = Inr (((h * 10 + l) * 10 + h') * 10 + l')"
proof -
  have four: "4 = Suc (Suc (Suc (Suc 0)))" by simp
  have hl: "0 \<le> h * 10 + l" "h * 10 + l \<le> 99" using b by linarith+
  have "0 \<le> x * 10 + h' \<and> x * 10 + h' \<le> 999" if "0 \<le> x" "x \<le> 99" for x using that b by linarith
  then have hlh: "0 \<le> (h * 10 + l) * 10 + h' \<and> (h * 10 + l) * 10 + h' \<le> 999" using hl by blast
  show ?thesis
    unfolding parse_digit_field_def four
    by (subst digit_loop_step [OF g(1)], use b in simp, use b in simp, simp, simp,
        subst digit_loop_step [OF g(2)], use b in simp, use b in simp, use b in simp, use b in simp,
        subst digit_loop_step [OF g(3)], use b in simp, use b in simp, use hl in simp, use hl in simp,
        subst digit_loop_step [OF g(4)], use b in simp, use b in simp, use hlh in simp, use hlh in simp) simp
qed

lemma digits_value: "((x div 10 * 10 + x mod 10) * 10 + y div 10) * 10 + y mod 10 = 100 * x + (y :: int)"
proof -
  have "y div 10 * 10 + y mod 10 = y" "x div 10 * 10 + x mod 10 = x" by simp_all
  then show ?thesis by (simp only: distrib_right)
qed

lemma four_digits_read:
  assumes "get_byte bytes k = Some (digit_byte (v div 100 div 10))" "get_byte bytes (Suc k) = Some (digit_byte (v div 100 mod 10))"
    "get_byte bytes (Suc (Suc k)) = Some (digit_byte (v mod 100 div 10))" "get_byte bytes (Suc (Suc (Suc k))) = Some (digit_byte (v mod 100 mod 10))"
    "0 \<le> v" "v < 10000"
  shows "parse_digit_field bytes k 4 field = Inr v"
proof -
  have x: "0 \<le> v div 100" "v div 100 < 100" and y: "0 \<le> v mod 100" "v mod 100 < 100" using assms(5,6) by simp_all
  have small: "0 \<le> z div 10 \<and> z div 10 < 10 \<and> 0 \<le> z mod 10 \<and> z mod 10 < 10" if "0 \<le> z" "z < 100" for z :: int
    using that by auto
  note d = small [OF x] small [OF y]
  have "parse_digit_field bytes k 4 field = Inr (100 * (v div 100) + v mod 100)"
    unfolding digits_value [of "v div 100" "v mod 100", symmetric]
    by (rule four_digits_loop [OF assms(1-4)]) (use d in blast)+
  then show ?thesis by simp
qed

section \<open>Fractions\<close>

lemma fraction_buf_digits: "fraction_buf n v buf = map (\<lambda>k. digit_byte (v div 10 ^ (n - 1 - k) mod 10)) [0..<n] @ buf"
proof (induction n arbitrary: v buf)
  case (Suc n)
  have "v div 10 div 10 ^ (n - 1 - k) = v div 10 ^ (n - k)" if "k < n" for k
  proof -
    have "n - k = Suc (n - 1 - k)" using that by simp
    then show ?thesis by (simp only: power_Suc zdiv_zmult2_eq zero_le_power zero_le_numeral)
  qed
  then have "map (\<lambda>k. digit_byte (v div 10 div 10 ^ (n - 1 - k) mod 10)) [0..<n] = map (\<lambda>k. digit_byte (v div 10 ^ (n - k) mod 10)) [0..<n]"
    by (intro map_cong) simp_all
  then show ?case using Suc by simp
qed simp

lemma fraction_length_le: "fraction_length buf n \<le> n"
  by (induction n) auto

lemma fraction_length_zeros: "fraction_length buf n \<le> k \<Longrightarrow> k < n \<Longrightarrow> buf ! k = 48"
  by (induction n) (auto simp: less_Suc_eq split: if_splits)

lemma fraction_length_pos: "k < n \<Longrightarrow> buf ! k \<noteq> 48 \<Longrightarrow> 0 < fraction_length buf n"
  using fraction_length_zeros [of buf n k] by (cases "fraction_length buf n") auto

text \<open>Reading the first \<open>digit_idx + left\<close> digits of \<open>v\<close>, from a state that has read \<open>digit_idx\<close> of nine.\<close>

lemma fraction_loop_reads:
  assumes "\<And>k. k < 9 \<Longrightarrow> k < digits \<Longrightarrow> get_byte bytes (start + k) = Some (digit_byte (v div 10 ^ (8 - k) mod 10))"
    and "\<And>k. k < 9 \<Longrightarrow> digits \<le> k \<Longrightarrow> v div 10 ^ (8 - k) mod 10 = 0"
    and "0 \<le> v" "v < 10 ^ 9"
  shows "left + idx = 9 \<Longrightarrow> fraction_loop bytes start digits idx left (v div 10 ^ left) = Inr v"
proof (induction left arbitrary: idx)
  case (Suc left)
  have idx: "idx < 9" "8 - idx = left" using Suc.prems by simp_all
  have "(if idx < digits then
      rbind (ok_or (TooShort (length bytes) (start + idx)) (get_byte bytes (start + idx))) (\<lambda>byte. Inr (uint (sat_sub_u8 byte 48)))
      else Inr 0) = (Inr (v div 10 ^ left mod 10) :: parse_error + int)"
    using assms(1) [OF idx(1)] assms(2) [OF idx(1)] idx(2) by (auto simp: digit_byte_facts)
  moreover have "sat_u32 (sat_u32 (v div 10 ^ Suc left * 10) + v div 10 ^ left mod 10) = v div 10 ^ left"
  proof -
    have split: "v div 10 ^ left = v div 10 ^ Suc left * 10 + v div 10 ^ left mod 10"
    proof -
      have "v div 10 ^ Suc left = v div 10 ^ left div 10"
        unfolding power_Suc mult.commute [of 10] by (rule zdiv_zmult2_eq) simp
      then show ?thesis by simp
    qed
    have "v div 10 ^ left \<le> v" using zdiv_mono2 [of v 1 "10 ^ left"] assms(3) by simp
    moreover have "0 \<le> v div 10 ^ left mod 10" by simp
    ultimately show ?thesis using split assms(4) by (simp add: sat_u32_def)
  qed
  ultimately show ?case using Suc by (simp add: add.commute)
qed simp

section \<open>Round trip\<close>

lemma get_byte_header: "k < length front \<Longrightarrow> get_byte (front @ tail) k = Some (front ! k)"
  by (simp add: get_byte_def nth_append)

lemma get_byte_tail: "k < length tail \<Longrightarrow> get_byte (front @ tail) (length front + k) = Some (tail ! k)"
  by (simp add: get_byte_def nth_append)

definition header :: "int \<Rightarrow> int \<Rightarrow> int \<Rightarrow> int \<Rightarrow> int \<Rightarrow> int \<Rightarrow> bytes" where
  "header year month day hour minute sec = write_civil year month day @ write_time_parts hour minute sec"

lemma header_nth:
  fixes year month day hour minute sec :: int
  defines "b \<equiv> header year month day hour minute sec"
  shows "length b = 19" "b ! 0 = digit_byte (year div 100 div 10)" "b ! 1 = digit_byte (year div 100 mod 10)"
    "b ! 2 = digit_byte (year mod 100 div 10)" "b ! 3 = digit_byte (year mod 100 mod 10)" "b ! 4 = 45"
    "b ! 5 = digit_byte (month div 10)" "b ! 6 = digit_byte (month mod 10)" "b ! 7 = 45"
    "b ! 8 = digit_byte (day div 10)" "b ! 9 = digit_byte (day mod 10)" "b ! 10 = 84"
    "b ! 11 = digit_byte (hour div 10)" "b ! 12 = digit_byte (hour mod 10)" "b ! 13 = 58"
    "b ! 14 = digit_byte (minute div 10)" "b ! 15 = digit_byte (minute mod 10)" "b ! 16 = 58"
    "b ! 17 = digit_byte (sec div 10)" "b ! 18 = digit_byte (sec mod 10)"
proof -
  have b: "b = [digit_byte (year div 100 div 10), digit_byte (year div 100 mod 10), digit_byte (year mod 100 div 10), digit_byte (year mod 100 mod 10), 45,
      digit_byte (month div 10), digit_byte (month mod 10), 45, digit_byte (day div 10), digit_byte (day mod 10), 84,
      digit_byte (hour div 10), digit_byte (hour mod 10), 58, digit_byte (minute div 10), digit_byte (minute mod 10), 58,
      digit_byte (sec div 10), digit_byte (sec mod 10)]"
    unfolding b_def header_def write_civil_def write_time_parts_def write_four_digits_def write_two_digits_def append.simps by (rule refl)
  show "length b = 19" "b ! 0 = digit_byte (year div 100 div 10)" "b ! 1 = digit_byte (year div 100 mod 10)"
    "b ! 2 = digit_byte (year mod 100 div 10)" "b ! 3 = digit_byte (year mod 100 mod 10)" "b ! 4 = 45"
    "b ! 5 = digit_byte (month div 10)" "b ! 6 = digit_byte (month mod 10)" "b ! 7 = 45"
    "b ! 8 = digit_byte (day div 10)" "b ! 9 = digit_byte (day mod 10)" "b ! 10 = 84"
    "b ! 11 = digit_byte (hour div 10)" "b ! 12 = digit_byte (hour mod 10)" "b ! 13 = 58"
    "b ! 14 = digit_byte (minute div 10)" "b ! 15 = digit_byte (minute mod 10)" "b ! 16 = 58"
    "b ! 17 = digit_byte (sec div 10)" "b ! 18 = digit_byte (sec mod 10)"
    unfolding b by (simp_all only: list.size nth_Cons_0 nth_Cons_Suc nth_Cons_numeral Nat.add_0_right One_nat_def) simp_all
qed

lemma valid_date_bounds:
  assumes "valid_date (year, month, day)"
  shows "1 \<le> month" "month \<le> 12" "1 \<le> day" "day \<le> 31"
    and "\<exists>n. try_days_in_month year month = Some n \<and> day \<le> n"
proof -
  obtain n where n: "try_days_in_month year month = Some n" "1 \<le> day" "day \<le> n"
    using assms by (auto simp: valid_date_def split: option.splits)
  moreover have "n \<le> 31" using n(1) by (auto simp: try_days_in_month_def split: if_splits)
  ultimately show "1 \<le> month" "month \<le> 12" "1 \<le> day" "day \<le> 31" "\<exists>n. try_days_in_month year month = Some n \<and> day \<le> n"
    using month_sizes(1,2) [OF n(1)] by auto
qed

lemma parse_date_header:
  assumes "0 \<le> year" "year \<le> 9999" and v: "valid_date (year, month, day)"
  shows "parse_date (header year month day hour minute sec @ tail) = Inr (year, month, day)"
proof -
  let ?h = "header year month day hour minute sec"
  note n = header_nth [of year month day hour minute sec]
  have g: "get_byte (?h @ tail) k = Some (?h ! k)" if "k < 19" for k using get_byte_header that n(1) by simp
  note b = valid_date_bounds [OF v]
  have "parse_digit_field (?h @ tail) 0 4 Year = Inr year"
    using assms(1,2) by (intro four_digits_read) (simp_all add: g n numeral_2_eq_2 [symmetric] numeral_3_eq_3 [symmetric] n(3) [simplified])
  moreover have "parse_digit_field (?h @ tail) 5 2 Month = Inr month"
    using b by (intro two_digits_read) (simp_all add: g n)
  moreover have "parse_digit_field (?h @ tail) 8 2 Day = Inr day"
    using b by (intro two_digits_read) (simp_all add: g n)
  moreover obtain k where "try_days_in_month year month = Some k" "day \<le> k" using b(5) by blast
  ultimately show ?thesis
    using b by (simp add: parse_date_def parse_year_def parse_month_def parse_day_def expect_byte_def g n check_range_def)
qed

lemma parse_time_header:
  assumes "0 \<le> hour" "hour \<le> 23" "0 \<le> minute" "minute \<le> 59" "0 \<le> sec" "sec \<le> 59"
  shows "parse_time (header year month day hour minute sec @ tail) = Inr (hour, minute, sec)"
proof -
  let ?h = "header year month day hour minute sec"
  note n = header_nth [of year month day hour minute sec]
  have g: "get_byte (?h @ tail) k = Some (?h ! k)" if "k < 19" for k using get_byte_header that n(1) by simp
  have "parse_digit_field (?h @ tail) 11 2 Hour = Inr hour" "parse_digit_field (?h @ tail) 14 2 Minute = Inr minute"
    "parse_digit_field (?h @ tail) 17 2 Second = Inr sec"
    using assms by (auto intro!: two_digits_read simp: g n)
  then show ?thesis using assms
    by (simp add: parse_time_def parse_hour_def parse_minute_def parse_second_def check_time_separator_def expect_byte_def g n check_range_def)
qed

lemma fraction_loop_none: "fraction_loop bytes start 0 idx left 0 = Inr 0"
  by (induction left arbitrary: idx) (simp_all add: sat_u32_def)

lemma parse_tail:
  assumes "length front = 19" and "0 \<le> nanos" "nanos < 1000000000"
  defines "s \<equiv> front @ write_optional_fraction nanos"
  obtains cursor where "parse_fraction s 19 = (Inr nanos, cursor)" and "parse_offset s cursor = Inr 0"
proof (cases "nanos = 0")
  case True
  then have s: "s = front @ [90]" by (simp add: s_def write_optional_fraction_def)
  have "get_byte s 19 = Some 90" using assms(1) by (simp add: s get_byte_def nth_append)
  then have "parse_fraction s 19 = (Inr nanos, 19)" "parse_offset s 19 = Inr 0"
    using True assms(1) by (simp_all add: parse_fraction_def parse_offset_def s)
  then show ?thesis by (rule that)
next
  case False
  define buf where "buf = fraction_buf 9 nanos []"
  define len where "len = fraction_length buf 9"
  have len9: "len \<le> 9" unfolding len_def by (rule fraction_length_le)
  have buf: "length buf = 9" "\<And>k. k < 9 \<Longrightarrow> buf ! k = digit_byte (nanos div 10 ^ (8 - k) mod 10)"
    by (simp_all add: buf_def fraction_buf_digits del: fraction_buf.simps)
  have zero: "nanos div 10 ^ (8 - k) mod 10 = 0" if "k < 9" "len \<le> k" for k
    using fraction_length_zeros [of buf 9 k] that buf(2) by (simp add: len_def digit_byte_facts)
  have s: "s = (front @ [46]) @ take len buf @ [90]"
    using False assms(2) by (simp add: s_def write_optional_fraction_def write_fraction_def Let_def buf_def len_def)
  have front: "length (front @ [46]) = 20" using assms(1) by simp
  have get: "get_byte s (20 + k) = Some (digit_byte (nanos div 10 ^ (8 - k) mod 10))" if "k < 9" "k < len" for k
  proof -
    have "get_byte s (20 + k) = Some ((take len buf @ [90]) ! k)"
      unfolding s using get_byte_tail [of k "take len buf @ [90]" "front @ [46]"] front that buf(1) by simp
    then show ?thesis using that buf by (simp add: nth_append)
  qed
  have loop: "fraction_loop s 20 len 0 9 0 = Inr nanos"
    using fraction_loop_reads [of len s 20 nanos 9 0, OF get zero] assms(2,3) by simp
  have "0 < len"
  proof (rule ccontr)
    assume "\<not> 0 < len"
    then have "fraction_loop s 20 len 0 9 0 = Inr 0" using fraction_loop_none by simp
    then show False using loop False by simp
  qed
  have "takeWhile is_digit (drop 20 s) = take len buf"
  proof -
    have "drop 20 s = take len buf @ [90]" unfolding s using front by simp
    moreover have "\<forall>b \<in> set (take len buf). is_digit b"
      using buf len9 by (auto simp: in_set_conv_nth digit_byte_facts)
    moreover have "\<not> is_digit 90" by (simp add: is_digit_def)
    ultimately show ?thesis by (simp add: takeWhile_append2)
  qed
  then have skip: "skip_digits s 20 = 20 + len" using buf(1) len9 by (simp add: skip_digits_def)
  have dot: "get_byte s 19 = Some 46" using assms(1) by (simp add: s get_byte_def nth_append)
  have "parse_fraction s 19 = (Inr nanos, 20 + len)"
    using dot skip loop \<open>0 < len\<close> len9 by (simp add: parse_fraction_def parse_fraction_digits_def compute_fraction_def)
  moreover have "parse_offset s (20 + len) = Inr 0"
  proof -
    have "get_byte s (20 + len) = Some 90"
      unfolding s using get_byte_tail [of len "take len buf @ [90]" "front @ [46]"] front buf(1) len9 by (simp add: nth_append)
    moreover have "length s = 21 + len" unfolding s using assms(1) buf(1) len9 by simp
    ultimately show ?thesis by (simp add: parse_offset_def)
  qed
  ultimately show ?thesis by (rule that)
qed

lemma time_of_day:
  fixes r :: int
  assumes "0 \<le> r" "r < 86400"
  shows "0 \<le> r div 3600" "r div 3600 \<le> 23" "0 \<le> r mod 3600 div 60" "r mod 3600 div 60 \<le> 59" "0 \<le> r mod 60" "r mod 60 \<le> 59"
    and "r div 3600 * 3600 + r mod 3600 div 60 * 60 + r mod 60 = r"
proof -
  have "r mod 3600 mod 60 = r mod 60" by (rule mod_mod_cancel) simp
  then show "r div 3600 * 3600 + r mod 3600 div 60 * 60 + r mod 60 = r"
    using mult_div_mod_eq [of 60 "r mod 3600"] mult_div_mod_eq [of 3600 r] by linarith
qed (use assms div_bounds [of 3600 r] div_bounds [of 60 "r mod 3600"] pos_mod_bound [of 3600 r] in \<open>simp_all, linarith?\<close>)

lemma year_start_small:
  assumes "-1 \<le> y" "y \<le> 9999"
  shows "-1000 \<le> year_start y" "year_start y \<le> 3700000"
  unfolding year_start_def using div_bounds [of 4 y] div_bounds [of 100 y] div_bounds [of 400 y] assms by linarith+

lemma unclamped_small:
  assumes "0 \<le> year" "year \<le> 9999" "valid_date (year, month, day)"
  shows "-800000 \<le> unclamped year month day" "unclamped year month day \<le> 3700000"
proof -
  note b = valid_date_bounds [OF assms(3)]
  define ay where "ay = (if month \<le> 2 then year - 1 else year)"
  define mp where "mp = (if month > 2 then month - 3 else month + 9)"
  have "-1 \<le> ay" "ay \<le> 9999" "0 \<le> mp" "mp \<le> 11" using assms b by (auto simp: ay_def mp_def)
  then have "-1000 \<le> year_start ay" "year_start ay \<le> 3700000" "-1 \<le> month_start mp" "month_start mp \<le> 340"
    using year_start_small [of ay] month_start_bounds [of mp] by linarith+
  then show "-800000 \<le> unclamped year month day" "unclamped year month day \<le> 3700000"
    unfolding unclamped_def ay_def [symmetric] mp_def [symmetric] using b by linarith+
qed

lemma instant_seconds:
  assumes "-800000 \<le> days" "days \<le> 3700000" "0 \<le> hour" "hour \<le> 23" "0 \<le> minute" "minute \<le> 59" "0 \<le> sec" "sec \<le> 59"
  shows "clamp_i64 (clamp_i64 (clamp_i64 (clamp_i64 (clamp_i64 (days * 86400) + clamp_i64 (hour * 3600)) + clamp_i64 (minute * 60)) + sec) - clamp_i64 (0 * 60))
    = days * 86400 + (hour * 3600 + minute * 60 + sec)"
  using assms by (simp add: clamp_i64_id i64_min_def i64_max_def)

text \<open>An instant is its seconds and nanoseconds: taking them apart and putting them together gives the instant, for every instant the platform can hold.\<close>

theorem unix_parts_round_trip:
  assumes "systime_ok t"
  shows "\<exists>secs nanos. unix_parts t = Inr (secs, nanos) \<and> 0 \<le> nanos \<and> nanos < 1000000000 \<and> from_unix_parts secs nanos = Inr t"
  using unix_parts_ok [OF assms] from_unix_parts_ok [OF assms] by simp

text \<open>C40: The parser reads every text the formatter writes back to the instant it was written for, to the nanosecond.\<close>

theorem rfc3339_round_trip:
  assumes ok: "systime_ok t" and s: "to_rfc3339 t = Inr s"
  shows "parse_rfc3339 s = Inr t"
proof -
  define secs where "secs = t div 1000000000"
  define nanos where "nanos = t mod 1000000000"
  have parts: "unix_parts t = Inr (secs, nanos)" using unix_parts_ok [OF ok] by (simp add: secs_def nanos_def)
  have nanos: "0 \<le> nanos" "nanos < 1000000000" by (simp_all add: nanos_def)
  obtain year month day where c: "civil_from_days (secs div 86400) = (year, month, day)" by (metis prod_cases3)
  then have v: "valid_date (year, month, day)" and u: "unclamped year month day = secs div 86400"
    using civil_valid [of "secs div 86400"] by simp_all
  define r where "r = secs mod 86400"
  have r: "0 \<le> r" "r < 86400" by (simp_all add: r_def)
  have year: "0 \<le> year" "year \<le> 9999"
    and s': "s = header year month day (r div 3600) (r mod 3600 div 60) (r mod 60) @ write_optional_fraction nanos"
    using s by (auto simp: to_rfc3339_def parts c seconds_per_day_def Let_def r_def header_def split: if_splits)
  note td = time_of_day [OF r]
  have len: "length (header year month day (r div 3600) (r mod 3600 div 60) (r mod 60)) = 19" by (rule header_nth(1))
  obtain cursor where tail: "parse_fraction s 19 = (Inr nanos, cursor)" "parse_offset s cursor = Inr 0"
    using parse_tail [OF len nanos] s' by metis
  have date: "parse_date s = Inr (year, month, day)" unfolding s' by (rule parse_date_header [OF year v])
  have clock: "parse_time s = Inr (r div 3600, r mod 3600 div 60, r mod 60)" unfolding s' by (rule parse_time_header [OF td(1-6)])
  note small = unclamped_small [OF year v]
  have days: "days_from_civil year month day = secs div 86400"
    unfolding days_from_civil_eq u using small u by (simp add: clamp_i64_id i64_min_def i64_max_def)
  have "secs div 86400 * 86400 + (r div 3600 * 3600 + r mod 3600 div 60 * 60 + r mod 60) = secs"
    unfolding td(7) by (simp add: r_def)
  then have secs: "clamp_i64 (clamp_i64 (clamp_i64 (clamp_i64 (clamp_i64 (days_from_civil year month day * 86400) + clamp_i64 (r div 3600 * 3600))
      + clamp_i64 (r mod 3600 div 60 * 60)) + r mod 60) - clamp_i64 (0 * 60)) = secs"
    unfolding days using instant_seconds [OF small [unfolded u] td(1-6)] by simp
  have "check_min_len s = Inr ()" using len by (simp add: s' check_min_len_def)
  moreover have "checked_system_time secs nanos = Inr t"
    using from_unix_parts_ok [OF ok] by (simp add: checked_system_time_def secs_def nanos_def)
  ultimately show ?thesis
    unfolding parse_rfc3339_def by (simp only: rbind_simps date clock prod.case tail Let_def secs)
qed

theorem unix_parts_round_trip_witness: "\<exists>secs nanos. unix_parts (- 1) = Inr (secs, nanos) \<and> from_unix_parts secs nanos = Inr (- 1)"
  using unix_parts_round_trip [of "- 1"] by (auto simp: systime_ok_def i64_min_def i64_max_def)

theorem rfc3339_round_trip_witness: "parse_rfc3339 [49, 57, 55, 48, 45, 48, 49, 45, 48, 49, 84, 48, 48, 58, 48, 48, 58, 48, 49, 46, 53, 90] = Inr 1500000000"
proof -
  have "to_rfc3339 1500000000 = Inr [49, 57, 55, 48, 45, 48, 49, 45, 48, 49, 84, 48, 48, 58, 48, 48, 58, 48, 49, 46, 53, 90]" by code_simp
  then show ?thesis using rfc3339_round_trip [of 1500000000] by (simp add: systime_ok_def i64_min_def i64_max_def)
qed

end
