(* ===== verification/Buffer.thy ===== *)
theory Buffer
  imports Prelude
begin

text \<open>
  The contract of a bounded first-in first-out buffer that refuses rather than grows: the work queue of
  \<open>dist_lease\<close> and the mailbox of \<open>cell\<close> keep it. \<open>occupied\<close> counts what holds a place, which may be
  more than what is waiting (the mailbox also counts the batch being served); \<open>is_open\<close> is whether the
  buffer takes items at all.
\<close>

locale bounded_buffer =
  fixes push :: "'a \<Rightarrow> 's \<Rightarrow> 'e + 's"
    and waiting :: "'s \<Rightarrow> 'a list"
    and occupied :: "'s \<Rightarrow> nat"
    and bound :: "'s \<Rightarrow> nat"
    and is_open :: "'s \<Rightarrow> bool"
  assumes push_room: "is_open s \<Longrightarrow> occupied s < bound s \<Longrightarrow> \<exists>s'. push x s = Inr s'"
    and push_takes: "push x s = Inr s' \<Longrightarrow> is_open s \<and> is_open s' \<and> occupied s < bound s \<and>
      waiting s' = waiting s @ [x] \<and> occupied s' = Suc (occupied s) \<and> bound s' = bound s"
begin

lemma push_iff: "(\<exists>s'. push x s = Inr s') \<longleftrightarrow> is_open s \<and> occupied s < bound s"
  using push_room push_takes by blast

lemma push_within: "push x s = Inr s' \<Longrightarrow> occupied s' \<le> bound s'"
  using push_takes [of x s s'] by simp

text \<open>Pushing a list one item at a time: either all of it is waiting behind what was there, or the buffer filled up.\<close>

lemma push_list:
  assumes "is_open s" and "occupied s + length xs \<le> bound s"
  shows "\<exists>s'. foldl (\<lambda>r x. case r of Inl e \<Rightarrow> Inl e | Inr s \<Rightarrow> push x s) (Inr s) xs = Inr s' \<and>
    waiting s' = waiting s @ xs \<and> occupied s' = occupied s + length xs \<and> bound s' = bound s \<and> is_open s'"
  using assms
proof (induction xs arbitrary: s)
  case (Cons x xs)
  then obtain s1 where s1: "push x s = Inr s1" using push_room [of s x] by fastforce
  then show ?case using Cons.IH [of s1] Cons.prems push_takes [OF s1] by auto
qed simp

end

end
