(* ===== verification/Mailbox.thy ===== *)
theory Mailbox
  imports Buffer
begin

text \<open>
  \<open>crates/lgwks-bot/src/cell/mailbox.rs\<close>: the bounded mailbox between the callers of a cell and its one
  worker. Every method runs under the mutex, so each is one step; a condition variable gives up the
  mutex while it waits, so a wait ends one step and the wake begins another. The worker serves a batch
  from the front (\<open>cell/host.rs\<close>) and asks for the next when it is empty.
\<close>

section \<open>State\<close>

record 'j mailbox =
  mb_queue :: "'j list"
  mb_closed :: bool
  mb_parked :: bool
  mb_serving :: nat
  mb_bound :: nat
  mb_poisoned :: bool

datatype 'j push_refused = PushClosed 'j | PushFull 'j | PushPoisoned 'j

datatype cell_error = CellClosed | CellPoisoned

definition mailbox_new :: "nat \<Rightarrow> 'j mailbox" where
  "mailbox_new bound = \<lparr>mb_queue = [], mb_closed = False, mb_parked = False, mb_serving = 0, mb_bound = max bound 1, mb_poisoned = False\<rparr>"

section \<open>Operations\<close>

text \<open>\<open>try_push\<close>: the refusal hands the job back; \<open>True\<close> beside the new state is \<open>work.notify_one()\<close>.\<close>

definition try_push :: "'j \<Rightarrow> 'j mailbox \<Rightarrow> 'j push_refused + ('j mailbox \<times> bool)" where
  "try_push job m =
     (if mb_poisoned m then Inl (PushPoisoned job)
      else if mb_closed m then Inl (PushClosed job)
      else if length (mb_queue m) + mb_serving m \<ge> mb_bound m then Inl (PushFull job)
      else Inr (m\<lparr>mb_queue := mb_queue m @ [job]\<rparr>, mb_parked m))"

text \<open>
  The loop of \<open>take_batch\<close>, up to its next wait: it swaps the queue with the worker's batch, or
  reports the end, or parks.
\<close>

datatype 'j taken = TookBatch "'j mailbox" "'j list" | TookEnd "'j mailbox" | TookParked "'j mailbox"

definition take_loop :: "'j list \<Rightarrow> 'j mailbox \<Rightarrow> 'j taken" where
  "take_loop batch m =
     (if mb_queue m \<noteq> [] then TookBatch (m\<lparr>mb_queue := batch, mb_serving := length (mb_queue m)\<rparr>) (mb_queue m)
      else if mb_closed m then TookEnd m
      else TookParked (m\<lparr>mb_parked := True\<rparr>))"

definition take_batch :: "'j list \<Rightarrow> 'j mailbox \<Rightarrow> cell_error + 'j taken" where
  "take_batch batch m = (if mb_poisoned m then Inl CellPoisoned else Inr (take_loop batch (m\<lparr>mb_serving := 0\<rparr>)))"

text \<open>After \<open>work.wait\<close> returned.\<close>

definition take_woken :: "'j list \<Rightarrow> 'j mailbox \<Rightarrow> cell_error + 'j taken" where
  "take_woken batch m = (if mb_poisoned m then Inl CellPoisoned else Inr (take_loop batch (m\<lparr>mb_parked := False\<rparr>)))"

text \<open>\<open>close\<close> notifies everyone, even past a poisoned lock.\<close>

definition mailbox_close :: "'j mailbox \<Rightarrow> 'j mailbox" where
  "mailbox_close m = (if mb_poisoned m then m else m\<lparr>mb_closed := True\<rparr>)"

section \<open>The bound\<close>

interpretation mail: bounded_buffer "\<lambda>job m. map_sum id fst (try_push job m)" mb_queue "\<lambda>m. length (mb_queue m) + mb_serving m"
  mb_bound "\<lambda>m. \<not> mb_poisoned m \<and> \<not> mb_closed m"
  by unfold_locales (auto simp: try_push_def split: if_splits)

section \<open>One worker\<close>

text \<open>
  What the worker is doing, with the history: the jobs accepted so far, the jobs served so far, and
  whether a notification is on its way to a worker in \<open>wait\<close>.
\<close>

datatype worker = Running | Waiting | Ended

record 'j mail_run =
  mr_box :: "'j mailbox"
  mr_batch :: "'j list"
  mr_worker :: worker
  mr_notified :: bool
  mr_accepted :: "'j list"
  mr_served :: "'j list"

definition mail_start :: "nat \<Rightarrow> 'j mail_run" where
  "mail_start bound = \<lparr>mr_box = mailbox_new bound, mr_batch = [], mr_worker = Running, mr_notified = False, mr_accepted = [], mr_served = []\<rparr>"

definition worker_after :: "'j mail_run \<Rightarrow> 'j taken \<Rightarrow> 'j mail_run" where
  "worker_after s r = (case r of
     TookBatch m batch \<Rightarrow> s\<lparr>mr_box := m, mr_batch := batch, mr_worker := Running, mr_notified := False\<rparr>
   | TookEnd m \<Rightarrow> s\<lparr>mr_box := m, mr_worker := Ended, mr_notified := False\<rparr>
   | TookParked m \<Rightarrow> s\<lparr>mr_box := m, mr_worker := Waiting, mr_notified := False\<rparr>)"

inductive mail_step :: "'j mail_run \<Rightarrow> 'j mail_run \<Rightarrow> bool" where
  push: "try_push job (mr_box s) = Inr (m, notify) \<Longrightarrow>
    mail_step s (s\<lparr>mr_box := m, mr_notified := mr_notified s \<or> notify, mr_accepted := mr_accepted s @ [job]\<rparr>)"
| close: "mail_step s (s\<lparr>mr_box := mailbox_close (mr_box s), mr_notified := True\<rparr>)"
| serve: "mr_worker s = Running \<Longrightarrow> mr_batch s = job # batch \<Longrightarrow>
    mail_step s (s\<lparr>mr_batch := batch, mr_served := mr_served s @ [job]\<rparr>)"
| take: "mr_worker s = Running \<Longrightarrow> mr_batch s = [] \<Longrightarrow> take_batch [] (mr_box s) = Inr r \<Longrightarrow>
    mail_step s (worker_after s r)"
| wake: "mr_worker s = Waiting \<Longrightarrow> take_woken (mr_batch s) (mr_box s) = Inr r \<Longrightarrow> mail_step s (worker_after s r)"

inductive mail_reach :: "nat \<Rightarrow> 'j mail_run \<Rightarrow> bool" for bound where
  start: "mail_reach bound (mail_start bound)"
| step: "mail_reach bound s \<Longrightarrow> mail_step s s' \<Longrightarrow> mail_reach bound s'"

definition mail_inv :: "nat \<Rightarrow> 'j mail_run \<Rightarrow> bool" where
  "mail_inv bound s \<longleftrightarrow>
     mb_bound (mr_box s) = max bound 1 \<and> \<not> mb_poisoned (mr_box s) \<and>
     mr_accepted s = mr_served s @ mr_batch s @ mb_queue (mr_box s) \<and>
     length (mb_queue (mr_box s)) + mb_serving (mr_box s) \<le> mb_bound (mr_box s) \<and>
     length (mr_batch s) \<le> mb_serving (mr_box s) \<and>
     (mr_worker s \<noteq> Running \<longrightarrow> mr_batch s = []) \<and>
     (mr_worker s = Waiting \<longrightarrow> mb_parked (mr_box s)) \<and>
     (mr_worker s = Ended \<longrightarrow> mb_closed (mr_box s) \<and> mb_queue (mr_box s) = []) \<and>
     (mr_worker s = Waiting \<and> (mb_queue (mr_box s) \<noteq> [] \<or> mb_closed (mr_box s)) \<longrightarrow> mr_notified s)"

lemma mail_start_inv: "mail_inv bound (mail_start bound)"
  by (simp add: mail_inv_def mail_start_def mailbox_new_def)

lemma take_loop_cases:
  obtains (batch) "take_loop [] m = TookBatch (m\<lparr>mb_queue := [], mb_serving := length (mb_queue m)\<rparr>) (mb_queue m)" "mb_queue m \<noteq> []"
  | (ended) "take_loop [] m = TookEnd m" "mb_queue m = []" "mb_closed m"
  | (parked) "take_loop [] m = TookParked (m\<lparr>mb_parked := True\<rparr>)" "mb_queue m = []" "\<not> mb_closed m"
  by (cases "mb_queue m = []"; cases "mb_closed m") (simp_all add: take_loop_def)

lemma mail_step_inv:
  assumes "mail_step s s'" and "mail_inv bound s"
  shows "mail_inv bound s'"
  using assms
proof (cases rule: mail_step.cases)
  case (push job m notify)
  then show ?thesis using assms(2) by (auto simp: mail_inv_def try_push_def split: if_splits)
next
  case close
  then show ?thesis using assms(2) by (auto simp: mail_inv_def mailbox_close_def)
next
  case (serve job batch)
  then show ?thesis using assms(2) by (auto simp: mail_inv_def)
next
  case (take r)
  have "r = take_loop [] ((mr_box s)\<lparr>mb_serving := 0\<rparr>)" using take assms(2) by (simp add: take_batch_def mail_inv_def split: if_splits)
  then show ?thesis using take assms(2)
    by (cases "(mr_box s)\<lparr>mb_serving := 0\<rparr>" rule: take_loop_cases) (auto simp: mail_inv_def worker_after_def)
next
  case (wake r)
  have "mr_batch s = []" using wake assms(2) by (simp add: mail_inv_def)
  then have "r = take_loop [] ((mr_box s)\<lparr>mb_parked := False\<rparr>)" using wake assms(2) by (simp add: take_woken_def mail_inv_def split: if_splits)
  then show ?thesis using wake assms(2) \<open>mr_batch s = []\<close>
    by (cases "(mr_box s)\<lparr>mb_parked := False\<rparr>" rule: take_loop_cases) (auto simp: mail_inv_def worker_after_def)
qed

lemma mail_reach_inv: "mail_reach bound s \<Longrightarrow> mail_inv bound s"
  by (induction rule: mail_reach.induct) (simp_all add: mail_start_inv mail_step_inv)

section \<open>What the mailbox promises\<close>

text \<open>C35: Every accepted job is served once, in the order accepted: the accepted jobs are those served, then the rest of the batch, then the queue; and never more jobs than the bound are waiting or being served.\<close>

theorem mailbox_delivers:
  assumes "mail_reach bound s"
  shows "mr_accepted s = mr_served s @ mr_batch s @ mb_queue (mr_box s) \<and>
    length (mr_batch s) + length (mb_queue (mr_box s)) \<le> max bound 1"
  using mail_reach_inv [OF assms] by (auto simp: mail_inv_def)

text \<open>C36: No wake-up is lost: a worker that waits while there is a job, or while the mailbox is closed, has a notification on its way; and a worker ends only when the mailbox is closed and every accepted job has been served.\<close>

theorem mailbox_wakes:
  assumes "mail_reach bound s"
  shows "(mr_worker s = Waiting \<longrightarrow> mb_queue (mr_box s) \<noteq> [] \<or> mb_closed (mr_box s) \<longrightarrow> mr_notified s) \<and>
    (mr_worker s = Ended \<longrightarrow> mb_closed (mr_box s) \<and> mr_served s = mr_accepted s)"
  using mail_reach_inv [OF assms] by (auto simp: mail_inv_def)

text \<open>One job through the mailbox, and a worker that waits for it.\<close>

definition waiting_worker :: "nat mail_run" where
  "waiting_worker = worker_after (mail_start 1) (TookParked ((mailbox_new 1)\<lparr>mb_parked := True\<rparr>))"

definition woken_worker :: "nat mail_run" where
  "woken_worker = waiting_worker\<lparr>mr_box := (mr_box waiting_worker)\<lparr>mb_queue := [7]\<rparr>, mr_notified := True, mr_accepted := [7]\<rparr>"

lemma waiting_worker_reach: "mail_reach 1 waiting_worker"
  unfolding waiting_worker_def
  by (rule mail_reach.step [OF mail_reach.start], rule mail_step.take)
    (simp_all add: mail_start_def mailbox_new_def take_batch_def take_loop_def)

lemma woken_worker_reach: "mail_reach 1 woken_worker"
proof -
  have push: "try_push 7 (mr_box waiting_worker) = Inr ((mr_box waiting_worker)\<lparr>mb_queue := [7]\<rparr>, True)"
    by (simp add: waiting_worker_def worker_after_def mailbox_new_def try_push_def)
  have woken: "woken_worker = waiting_worker\<lparr>mr_box := (mr_box waiting_worker)\<lparr>mb_queue := [7]\<rparr>, mr_notified := mr_notified waiting_worker \<or> True,
      mr_accepted := mr_accepted waiting_worker @ [7]\<rparr>"
    by (simp add: woken_worker_def waiting_worker_def worker_after_def mail_start_def)
  show ?thesis unfolding woken by (rule mail_reach.step [OF waiting_worker_reach mail_step.push [OF push]])
qed

theorem mailbox_delivers_witness: "mr_accepted woken_worker = mr_served woken_worker @ [7]"
  using mailbox_delivers [OF woken_worker_reach]
  by (simp add: woken_worker_def waiting_worker_def worker_after_def mail_start_def)

theorem mailbox_wakes_witness: "mr_worker woken_worker = Waiting \<and> mr_notified woken_worker"
  using mailbox_wakes [OF woken_worker_reach]
  by (simp add: woken_worker_def waiting_worker_def worker_after_def mail_start_def)

end
