(* ===== verification/Hex.thy ===== *)
theory Hex
  imports Codec
begin

text \<open>
  \<open>crates/lgwks-std/src/hex.rs\<close>: the lower-case hex encoder, and the decoders to a fresh vector
  and into a caller's buffer. Strings are their ASCII bytes.
\<close>

unbundle bit_operations_syntax

section \<open>Code\<close>

definition hex_lower :: bytes where
  "hex_lower = [48, 49, 50, 51, 52, 53, 54, 55, 56, 57, 97, 98, 99, 100, 101, 102]"

fun hex_encode :: "bytes \<Rightarrow> bytes" where
  "hex_encode [] = []"
| "hex_encode (byte # bytes) =
     hex_lower ! unat (drop_bit 4 byte) # hex_lower ! unat (byte AND 0x0f) # hex_encode bytes"

datatype hex_error =
    OddLength (odd_len: nat) (odd_at: nat)
  | NotHexDigit (digit_at: nat) (digit_byte: u8)
  | OutputLength (out_expected: nat) (out_actual: nat)

definition check_even_length :: "nat \<Rightarrow> hex_error + unit" where
  "check_even_length len = (if len mod 2 \<noteq> 0 then Inl (OddLength len len) else Inr ())"

definition decode_nibble :: "u8 \<Rightarrow> u8 option" where
  "decode_nibble b =
     (if 48 \<le> b \<and> b \<le> 57 then Some (sat_sub_u8 b 48)
      else if 97 \<le> b \<and> b \<le> 102 then Some (sat_add_u8 (sat_sub_u8 b 97) 10)
      else if 65 \<le> b \<and> b \<le> 70 then Some (sat_add_u8 (sat_sub_u8 b 65) 10)
      else None)"

definition decode_pair :: "u8 \<Rightarrow> u8 \<Rightarrow> nat \<Rightarrow> hex_error + u8" where
  "decode_pair high low offset =
     rbind (ok_or (NotHexDigit offset high) (decode_nibble high)) (\<lambda>hi.
     rbind (ok_or (NotHexDigit (sat_add_usize offset 1) low) (decode_nibble low)) (\<lambda>lo.
     Inr (push_bit 4 hi OR lo)))"

text \<open>The loop over \<open>as_chunks::<2>()\<close>; what is left over is ignored.\<close>

fun hex_pairs :: "nat \<Rightarrow> bytes \<Rightarrow> hex_error + bytes" where
  "hex_pairs pair_index (high # low # rest) =
     rbind (decode_pair high low (sat_mul_usize pair_index 2)) (\<lambda>b.
     rbind (hex_pairs (pair_index + 1) rest) (\<lambda>out. Inr (b # out)))"
| "hex_pairs pair_index rest = Inr []"

definition hex_decode :: "bytes \<Rightarrow> hex_error + bytes" where
  "hex_decode input = rbind (check_even_length (length input)) (\<lambda>_. hex_pairs 0 input)"

text \<open>The two passes of \<open>decode_into\<close>: every pair is checked before the first byte is written.\<close>

fun hex_check :: "nat \<Rightarrow> bytes \<Rightarrow> hex_error + unit" where
  "hex_check pair_index (high # low # rest) =
     rbind (decode_pair high low (sat_mul_usize pair_index 2)) (\<lambda>_. hex_check (pair_index + 1) rest)"
| "hex_check pair_index rest = Inr ()"

fun hex_write :: "nat \<Rightarrow> bytes \<Rightarrow> bytes \<Rightarrow> (hex_error + unit) \<times> bytes" where
  "hex_write pair_index (high # low # rest) (destination # output) =
     (case decode_pair high low (sat_mul_usize pair_index 2) of
        Inl e \<Rightarrow> (Inl e, destination # output)
      | Inr b \<Rightarrow> (case hex_write (pair_index + 1) rest output of (r, written) \<Rightarrow> (r, b # written)))"
| "hex_write pair_index rest output = (Inr (), output)"

definition hex_decode_into :: "bytes \<Rightarrow> bytes \<Rightarrow> (hex_error + unit) \<times> bytes" where
  "hex_decode_into input output =
     (case check_even_length (length input) of
        Inl e \<Rightarrow> (Inl e, output)
      | Inr _ \<Rightarrow>
          let expected = (length input + 1) div 2 in
          if length output \<noteq> expected then (Inl (OutputLength expected (length output)), output)
          else case hex_check 0 input of
                 Inl e \<Rightarrow> (Inl e, output)
               | Inr _ \<Rightarrow> hex_write 0 input output)"

section \<open>Digits\<close>

definition hex_letter_lower :: "u8 \<Rightarrow> u8" where
  "hex_letter_lower b = (if 65 \<le> b \<and> b \<le> 70 then b + 32 else b)"

lemma low_mask: "(0x0f :: u8) = mask 4"
  by (simp add: mask_eq_exp_minus_1)

lemma nibble_bounds: "unat (drop_bit 4 (b :: u8)) < 16" "unat (b AND 0x0f :: u8) < 16"
proof -
  show "unat (drop_bit 4 b) < 16"
    unfolding unat_drop_bit_eq drop_bit_eq_div [where ?'a = nat] using byte_lt_256 [of b]
    by (intro less_mult_imp_div_less) simp
  have "unat (take_bit 4 b) < 16" unfolding unsigned_take_bit_eq take_bit_eq_mod [where ?'a = nat] by simp
  then show "unat (b AND 0x0f) < 16" by (simp add: low_mask take_bit_eq_mask)
qed

lemma nibble_lower:
  assumes "unat n < 16"
  shows "decode_nibble (hex_lower ! unat n) = Some n"
proof -
  have "\<forall>k \<in> set [0..<16]. decode_nibble (hex_lower ! k) = Some (word_of_nat k)" by code_simp
  moreover have "unat n \<in> set [0..<16]" using assms by simp
  ultimately have "decode_nibble (hex_lower ! unat n) = Some (word_of_nat (unat n))" by blast
  then show ?thesis by simp
qed

lemma nibble_join: "push_bit 4 (drop_bit 4 b) OR (b AND 0x0f) = (b :: u8)"
  by (rule bit_word_eqI) (auto simp: low_mask bit_simps)

lemma nibble_split:
  fixes hi lo :: u8
  assumes "hi < 16" and "lo < 16"
  shows "drop_bit 4 (push_bit 4 hi OR lo) = hi \<and> (push_bit 4 hi OR lo) AND 0x0f = lo"
proof -
  have "\<forall>h \<in> set [0..<16]. \<forall>l \<in> set [0..<16].
      drop_bit 4 (push_bit 4 (word_of_nat h) OR word_of_nat l) = (word_of_nat h :: u8) \<and>
      (push_bit 4 (word_of_nat h) OR word_of_nat l) AND 0x0f = (word_of_nat l :: u8)" by code_simp
  moreover have "unat hi \<in> set [0..<16]" "unat lo \<in> set [0..<16]"
    using assms by (simp_all add: word_less_nat_alt)
  ultimately have "drop_bit 4 (push_bit 4 (word_of_nat (unat hi)) OR word_of_nat (unat lo)) = (word_of_nat (unat hi) :: u8) \<and>
      (push_bit 4 (word_of_nat (unat hi)) OR word_of_nat (unat lo)) AND 0x0f = (word_of_nat (unat lo) :: u8)" by blast
  then show ?thesis by simp
qed

lemma nibble_digit:
  assumes "decode_nibble d = Some v"
  shows "v < 16 \<and> hex_lower ! unat v = hex_letter_lower d"
proof -
  have "\<forall>k \<in> set ([48..<58] @ [65..<71] @ [97..<103]). case decode_nibble (word_of_nat k) of None \<Rightarrow> False
      | Some v \<Rightarrow> v < 16 \<and> hex_lower ! unat v = hex_letter_lower (word_of_nat k)" by code_simp
  moreover have "unat d \<in> set ([48..<58] @ [65..<71] @ [97..<103])"
    unfolding set_append set_upt Un_iff atLeastLessThan_iff
    using assms by (auto simp: decode_nibble_def word_le_nat_alt split: if_splits)
  ultimately have "case decode_nibble (word_of_nat (unat d)) of None \<Rightarrow> False
      | Some v \<Rightarrow> v < 16 \<and> hex_lower ! unat v = hex_letter_lower (word_of_nat (unat d))" by blast
  then show ?thesis using assms by simp
qed

section \<open>Decoding\<close>

text \<open>The first byte that is no digit, where the scan starts at offset \<open>k\<close>.\<close>

fun first_bad :: "nat \<Rightarrow> bytes \<Rightarrow> (nat \<times> u8) option" where
  "first_bad k [] = None"
| "first_bad k (b # s) = (if decode_nibble b = None then Some (k, b) else first_bad (k + 1) s)"

lemma first_bad_None: "first_bad k s = None \<longleftrightarrow> (\<forall>b \<in> set s. decode_nibble b \<noteq> None)"
  by (induction k s rule: first_bad.induct) auto

lemma first_bad_Some:
  "first_bad k s = Some (i, b) \<longleftrightarrow> k \<le> i \<and> i - k < length s \<and> s ! (i - k) = b \<and> decode_nibble b = None \<and>
     (\<forall>j < i - k. decode_nibble (s ! j) \<noteq> None)"
proof (induction k s rule: first_bad.induct)
  case (2 k c s)
  show ?case
  proof (cases "decode_nibble c = None")
    case True
    then show ?thesis by (cases "i = k") (auto simp: nth_Cons' split: if_splits)
  next
    case False
    show ?thesis
    proof (cases "k < i")
      case True
      then obtain d where d: "i = Suc (k + d)" by (metis less_iff_Suc_add)
      show ?thesis using 2 False by (auto simp: d All_less_Suc2)
    next
      case ik: False
      then show ?thesis using 2 False by (cases "i = k") auto
    qed
  qed
qed simp

fun nibbles :: "bytes \<Rightarrow> bytes" where
  "nibbles (high # low # rest) = (push_bit 4 (the (decode_nibble high)) OR the (decode_nibble low)) # nibbles rest"
| "nibbles rest = []"

lemma decode_pair_eq:
  assumes "k + 1 \<le> usize_max"
  shows "decode_pair high low k = (case first_bad k [high, low] of
     Some (i, b) \<Rightarrow> Inl (NotHexDigit i b) | None \<Rightarrow> Inr (push_bit 4 (the (decode_nibble high)) OR the (decode_nibble low)))"
  using assms by (cases "decode_nibble high"; cases "decode_nibble low") (simp_all add: decode_pair_def sat_simps)

text \<open>One round of the three loops, and where it leads.\<close>

lemma pair_round:
  assumes "2 * p + length (high # low # rest) \<le> usize_max"
  shows "decode_pair high low (sat_mul_usize p 2) = (case first_bad (2 * p) [high, low] of
      Some (i, b) \<Rightarrow> Inl (NotHexDigit i b) | None \<Rightarrow> Inr (hd (nibbles (high # low # rest))))"
    and "first_bad (2 * p) (high # low # rest) =
      (case first_bad (2 * p) [high, low] of Some ib \<Rightarrow> Some ib | None \<Rightarrow> first_bad (2 * (p + 1)) rest)"
proof -
  have off: "sat_mul_usize p 2 = 2 * p" using assms by (simp add: sat_mul_usize_def)
  show "decode_pair high low (sat_mul_usize p 2) = (case first_bad (2 * p) [high, low] of
      Some (i, b) \<Rightarrow> Inl (NotHexDigit i b) | None \<Rightarrow> Inr (hd (nibbles (high # low # rest))))"
    unfolding off using assms by (subst decode_pair_eq) simp_all
qed simp

lemma hex_pairs_eq:
  assumes "even (length s)" and "2 * p + length s \<le> usize_max"
  shows "hex_pairs p s = (case first_bad (2 * p) s of Some (i, b) \<Rightarrow> Inl (NotHexDigit i b) | None \<Rightarrow> Inr (nibbles s))"
  using assms
proof (induction p s rule: hex_pairs.induct)
  case (1 p high low rest)
  note r = pair_round [OF "1.prems"(2)]
  show ?case
  proof (cases "first_bad (2 * p) [high, low]")
    case None
    have "hex_pairs (p + 1) rest = (case first_bad (2 * (p + 1)) rest of Some (i, b) \<Rightarrow> Inl (NotHexDigit i b) | None \<Rightarrow> Inr (nibbles rest))"
      using "1.IH" [of "hd (nibbles (high # low # rest))"] "1.prems" r None by simp
    then show ?thesis unfolding r(2) None hex_pairs.simps(1) r(1) by (simp split: option.splits prod.splits)
  next
    case (Some ib)
    then show ?thesis unfolding r(2) hex_pairs.simps(1) r(1) by (simp split: prod.splits)
  qed
qed simp_all

lemma hex_check_eq: "hex_check p s = rbind (hex_pairs p s) (\<lambda>_. Inr ())"
proof (induction p s rule: hex_pairs.induct)
  case (1 p high low rest)
  then show ?case by (cases "decode_pair high low (sat_mul_usize p 2)"; cases "hex_pairs (p + 1) rest") simp_all
qed simp_all

lemma hex_write_eq:
  assumes "even (length s)" and "hex_pairs p s = Inr bytes" and "length out = length s div 2"
  shows "hex_write p s out = (Inr (), bytes)"
  using assms
proof (induction p s arbitrary: bytes out rule: hex_pairs.induct)
  case (1 p high low rest)
  then obtain b more where d: "decode_pair high low (sat_mul_usize p 2) = Inr b" "hex_pairs (p + 1) rest = Inr more" "bytes = b # more"
    by auto
  moreover obtain x tail where "out = x # tail" "length tail = length rest div 2" using "1.prems"(3) by (cases out) auto
  ultimately show ?case using "1.IH" [OF d(1) _ d(2), of tail] "1.prems"(1) by simp
qed simp_all

lemma nibbles_encode [simp]: "nibbles (hex_encode bytes) = bytes"
  by (induction bytes) (simp_all add: nibble_lower nibble_bounds nibble_join)

lemma first_bad_encode [simp]: "first_bad k (hex_encode bytes) = None"
  by (induction bytes arbitrary: k) (simp_all add: nibble_lower nibble_bounds)

lemma hex_encode_length [simp]: "length (hex_encode bytes) = 2 * length bytes"
  by (induction bytes) simp_all

lemma encode_nibbles:
  "even (length s) \<Longrightarrow> first_bad k s = None \<Longrightarrow> hex_encode (nibbles s) = map hex_letter_lower s"
proof (induction s arbitrary: k rule: nibbles.induct)
  case (1 high low rest)
  then obtain hi lo where d: "decode_nibble high = Some hi" "decode_nibble low = Some lo" "first_bad (Suc (Suc k)) rest = None"
    by (auto split: if_splits)
  note h = nibble_digit [OF d(1)] nibble_digit [OF d(2)]
  have "drop_bit 4 (push_bit 4 hi OR lo) = hi \<and> (push_bit 4 hi OR lo) AND 0x0f = lo" using h by (intro nibble_split) simp_all
  then show ?case using 1 d h by simp
qed simp_all

text \<open>Success does not depend on where the offsets saturate.\<close>

lemma hex_pairs_ok:
  "even (length s) \<Longrightarrow> hex_pairs p s = Inr bytes \<longleftrightarrow> first_bad k s = None \<and> bytes = nibbles s"
proof (induction p s arbitrary: k bytes rule: hex_pairs.induct)
  case (1 p high low rest)
  show ?case
  proof (cases "decode_pair high low (sat_mul_usize p 2)")
    case (Inl e)
    then have "decode_nibble high = None \<or> decode_nibble low = None"
      by (cases "decode_nibble high"; cases "decode_nibble low") (simp_all add: decode_pair_def)
    then show ?thesis using Inl by auto
  next
    case (Inr b)
    then show ?thesis using "1.IH" [OF Inr, of _ "Suc (Suc k)"] "1.prems"
      by (cases "decode_nibble high"; cases "decode_nibble low") (auto simp: decode_pair_def)
  qed
qed auto

lemma hex_decode_ok: "hex_decode s = Inr bytes \<longleftrightarrow> even (length s) \<and> first_bad 0 s = None \<and> bytes = nibbles s"
  using hex_pairs_ok [of s 0 bytes 0] by (auto simp: hex_decode_def check_even_length_def odd_iff_mod_2_eq_one)

lemma nibble_case: "decode_nibble (hex_letter_lower b) = decode_nibble b"
proof (cases "65 \<le> b \<and> b \<le> 70")
  case True
  have "\<forall>k \<in> set [65..<71]. decode_nibble (hex_letter_lower (word_of_nat k)) = decode_nibble (word_of_nat k)" by code_simp
  moreover have "unat b \<in> set [65..<71]" using True by (auto simp: word_le_nat_alt)
  ultimately have "decode_nibble (hex_letter_lower (word_of_nat (unat b))) = decode_nibble (word_of_nat (unat b))" by blast
  then show ?thesis by simp
qed (auto simp: hex_letter_lower_def)

lemma lower_same_reading:
  "first_bad k (map hex_letter_lower s) = None \<longleftrightarrow> first_bad k s = None" "nibbles (map hex_letter_lower s) = nibbles s"
proof -
  show "first_bad k (map hex_letter_lower s) = None \<longleftrightarrow> first_bad k s = None"
    by (induction s arbitrary: k) (simp_all add: nibble_case)
  show "nibbles (map hex_letter_lower s) = nibbles s"
    by (induction s rule: nibbles.induct) (simp_all add: nibble_case)
qed

lemma hex_decode_lower: "hex_decode s = Inr bytes \<longleftrightarrow> map hex_letter_lower s = hex_encode bytes"
proof
  assume "hex_decode s = Inr bytes"
  then show "map hex_letter_lower s = hex_encode bytes" using encode_nibbles [of s 0] by (simp add: hex_decode_ok)
next
  assume eq: "map hex_letter_lower s = hex_encode bytes"
  then have "first_bad 0 s = None" "nibbles s = bytes"
    using lower_same_reading(1) [of 0 s] lower_same_reading(2) [of s] by simp_all
  moreover have "length s = 2 * length bytes" using eq by (metis hex_encode_length length_map)
  ultimately show "hex_decode s = Inr bytes" by (simp add: hex_decode_ok)
qed

lemma hex_encode_lower: "map hex_letter_lower (hex_encode bytes) = hex_encode bytes"
  using hex_decode_ok hex_decode_lower by (metis dvd_triv_left first_bad_encode hex_encode_length nibbles_encode)

interpretation hex: text_codec hex_encode hex_decode "map hex_letter_lower"
  by unfold_locales (simp_all add: hex_decode_lower hex_encode_lower)

section \<open>What the module promises\<close>

text \<open>The hex decoder accepts exactly the spellings of an encoding in either letter case, and gives the bytes that were encoded.\<close>

theorem hex_decode_accepts:
  "hex_decode (hex_encode bytes) = Inr bytes \<and> (hex_decode s = Inr bytes \<longleftrightarrow> map hex_letter_lower s = hex_encode bytes)"
  using hex.dec_enc hex_decode_lower by blast

text \<open>The hex decoder refuses an odd length by the length, and otherwise the first byte that is no digit, with its offset.\<close>

theorem hex_decode_refuses:
  assumes "length s \<le> usize_max"
  shows "hex_decode s = Inl e \<longleftrightarrow>
    (if odd (length s) then e = OddLength (length s) (length s)
     else \<exists>i < length s. e = NotHexDigit i (s ! i) \<and> decode_nibble (s ! i) = None \<and> (\<forall>j < i. decode_nibble (s ! j) \<noteq> None))"
proof -
  have "hex_decode s = (if odd (length s) then Inl (OddLength (length s) (length s))
    else case first_bad 0 s of Some (i, b) \<Rightarrow> Inl (NotHexDigit i b) | None \<Rightarrow> Inr (nibbles s))"
    using assms hex_pairs_eq [of s 0] by (auto simp: hex_decode_def check_even_length_def odd_iff_mod_2_eq_one)
  moreover have "(\<exists>i b. first_bad 0 s = Some (i, b) \<and> e = NotHexDigit i b) \<longleftrightarrow>
      (\<exists>i < length s. e = NotHexDigit i (s ! i) \<and> decode_nibble (s ! i) = None \<and> (\<forall>j < i. decode_nibble (s ! j) \<noteq> None))"
    by (auto simp: first_bad_Some)
  ultimately show ?thesis by (auto split: option.splits)
qed

text \<open>Decoding into a buffer does what decoding to a vector does, when the buffer has the exact length, and leaves the buffer untouched whenever it refuses.\<close>

theorem hex_decode_into_refines:
  "hex_decode_into s out =
    (case check_even_length (length s) of Inl e \<Rightarrow> (Inl e, out)
     | Inr _ \<Rightarrow> if length out \<noteq> length s div 2 then (Inl (OutputLength (length s div 2) (length out)), out)
         else case hex_decode s of Inl e \<Rightarrow> (Inl e, out) | Inr bytes \<Rightarrow> (Inr (), bytes))"
proof (cases "even (length s)")
  case True
  then have even: "check_even_length (length s) = Inr ()" by (simp add: check_even_length_def)
  have size: "Suc (length s) div 2 = length s div 2" using True by simp
  show ?thesis
    using True hex_write_eq [OF True, of 0 _ out]
    by (auto simp: hex_decode_into_def Let_def even size hex_decode_def hex_check_eq split: sum.splits)
qed (simp add: hex_decode_into_def check_even_length_def odd_iff_mod_2_eq_one)

theorem hex_decode_refuses_witness:
  "hex_decode [0x30, 0x30, 0x7a, 0x30] = Inl (NotHexDigit 2 0x7a)"
proof -
  let ?s = "[0x30, 0x30, 0x7a, 0x30] :: bytes"
  have "decode_nibble (?s ! 2) = None \<and> (\<forall>j < 2. decode_nibble (?s ! j) \<noteq> None)" by code_simp
  then show ?thesis using hex_decode_refuses [of ?s "NotHexDigit 2 0x7a"] by (auto simp: usize_max_def)
qed

end
