(* ===== verification/Percent.thy ===== *)
theory Percent
  imports Hex
begin

text \<open>
  \<open>crates/lgwks-std/src/encoding.rs\<close>, module \<open>percent\<close>: the percent encoding of a text component.
  A \<open>&str\<close> is its UTF-8 bytes, and \<open>String::from_utf8\<close> is written out from the ranges the standard
  library documents. Indices into a slice stay below \<open>isize::MAX\<close>, so the cursor sums are exact.
\<close>

unbundle bit_operations_syntax

section \<open>Code\<close>

definition is_unreserved :: "u8 \<Rightarrow> bool" where
  "is_unreserved byte \<longleftrightarrow> (65 \<le> byte \<and> byte \<le> 90) \<or> (97 \<le> byte \<and> byte \<le> 122) \<or> (48 \<le> byte \<and> byte \<le> 57) \<or>
     byte \<in> {45, 95, 46, 126}"

definition hex_upper :: bytes where
  "hex_upper = [48, 49, 50, 51, 52, 53, 54, 55, 56, 57, 65, 66, 67, 68, 69, 70]"

definition upper_nibble :: "u8 \<Rightarrow> u8" where
  "upper_nibble v = hex_upper ! unat v"

fun encode_component :: "bytes \<Rightarrow> bytes" where
  "encode_component [] = []"
| "encode_component (byte # chars) =
     (if is_unreserved byte then [byte] else [37, upper_nibble (drop_bit 4 byte), upper_nibble (byte AND 0x0f)]) @ encode_component chars"

datatype percent_error = TruncatedEscape (truncated_at: nat) | PctNotHexDigit (nonhex_at: nat) | NotUtf8 (decoded_at: nat)

definition decode_escape_pair :: "u8 \<Rightarrow> u8 \<Rightarrow> nat \<Rightarrow> percent_error + u8" where
  "decode_escape_pair high low percent_at =
     rbind (ok_or (PctNotHexDigit (percent_at + 1)) (decode_nibble high)) (\<lambda>high.
     rbind (ok_or (PctNotHexDigit (percent_at + 2)) (decode_nibble low)) (\<lambda>low.
     Inr (push_bit 4 high OR low)))"

definition decode_step :: "bytes \<Rightarrow> nat \<Rightarrow> bytes \<Rightarrow> percent_error + (nat \<times> bytes)" where
  "decode_step bytes i out =
     (if bytes ! i \<noteq> 37 then Inr (i + 1, out @ [bytes ! i])
      else if i + 3 > length bytes then Inl (TruncatedEscape i)
      else rbind (decode_escape_pair (bytes ! (i + 1)) (bytes ! (i + 2)) i) (\<lambda>byte_val. Inr (i + 3, out @ [byte_val])))"

function percent_loop :: "bytes \<Rightarrow> nat \<Rightarrow> bytes \<Rightarrow> percent_error + bytes" where
  "percent_loop bytes cursor out =
     (if cursor < length bytes then
        (case decode_step bytes cursor out of Inl e \<Rightarrow> Inl e | Inr (cursor, out) \<Rightarrow> percent_loop bytes cursor out)
      else Inr out)"
  by pat_completeness auto
termination
  by (relation "measure (\<lambda>(bytes, cursor, out). length bytes - cursor)") (auto simp: decode_step_def split: if_splits)

declare percent_loop.simps [simp del]

text \<open>
  UTF-8 validity as \<open>from_utf8\<close> checks it: the ranges of the continuation bytes after each first
  byte, and the offset of the first sequence that is not well formed.
\<close>

definition continuation :: "u8 \<Rightarrow> bool" where
  "continuation b \<longleftrightarrow> 0x80 \<le> b \<and> b \<le> 0xbf"

definition second_ok :: "u8 \<Rightarrow> u8 \<Rightarrow> bool" where
  "second_ok first b \<longleftrightarrow>
     (if first = 0xe0 then 0xa0 \<le> b \<and> b \<le> 0xbf
      else if first = 0xed then 0x80 \<le> b \<and> b \<le> 0x9f
      else if first = 0xf0 then 0x90 \<le> b \<and> b \<le> 0xbf
      else if first = 0xf4 then 0x80 \<le> b \<and> b \<le> 0x8f
      else continuation b)"

definition utf8_width :: "u8 \<Rightarrow> nat" where
  "utf8_width first = (if first < 0x80 then 1 else if 0xc2 \<le> first \<and> first \<le> 0xdf then 2
     else if 0xe0 \<le> first \<and> first \<le> 0xef then 3 else if 0xf0 \<le> first \<and> first \<le> 0xf4 then 4 else 0)"

function utf8_error :: "bytes \<Rightarrow> nat \<Rightarrow> nat option" where
  "utf8_error bytes at_byte =
     (if at_byte < length bytes then
        let width = utf8_width (bytes ! at_byte) in
        if width = 0 \<or> at_byte + width > length bytes then Some at_byte
        else if (1 < width \<longrightarrow> second_ok (bytes ! at_byte) (bytes ! (at_byte + 1))) \<and>
                (\<forall>k \<in> {2..<width}. continuation (bytes ! (at_byte + k)))
        then utf8_error bytes (at_byte + width) else Some at_byte
      else None)"
  by pat_completeness auto
termination by (relation "measure (\<lambda>(bytes, k). length bytes - k)") auto

declare utf8_error.simps [simp del]

definition percent_decode :: "bytes \<Rightarrow> percent_error + bytes" where
  "percent_decode chars =
     rbind (percent_loop chars 0 []) (\<lambda>out. case utf8_error out 0 of Some valid_up_to \<Rightarrow> Inl (NotUtf8 valid_up_to) | None \<Rightarrow> Inr out)"

section \<open>Round trip\<close>

lemma nibble_upper:
  assumes "unat n < 16"
  shows "decode_nibble (upper_nibble n) = Some n \<and> is_unreserved (upper_nibble n)"
proof -
  have "\<forall>k \<in> set [0..<16]. decode_nibble (hex_upper ! k) = Some (word_of_nat k) \<and> is_unreserved (hex_upper ! k)" by code_simp
  moreover have "unat n \<in> set [0..<16]" using assms by simp
  ultimately have "decode_nibble (hex_upper ! unat n) = Some (word_of_nat (unat n)) \<and> is_unreserved (hex_upper ! unat n)" by blast
  then show ?thesis by (simp add: upper_nibble_def)
qed

lemma percent_loop_encode: "percent_loop (pre @ encode_component chars) (length pre) out = Inr (out @ chars)"
proof (induction chars arbitrary: pre out)
  case Nil
  then show ?case by (simp add: percent_loop.simps)
next
  case (Cons byte chars)
  show ?case
  proof (cases "is_unreserved byte")
    case True
    then have "byte \<noteq> 37" by (auto simp: is_unreserved_def)
    then have "percent_loop (pre @ encode_component (byte # chars)) (length pre) out =
        percent_loop ((pre @ [byte]) @ encode_component chars) (length (pre @ [byte])) (out @ [byte])"
      using True by (subst percent_loop.simps) (simp add: decode_step_def)
    then show ?thesis by (simp only: Cons.IH) simp
  next
    case False
    let ?esc = "[37, upper_nibble (drop_bit 4 byte), upper_nibble (byte AND 0x0f)]"
    have nth: "(pre @ ?esc @ encode_component chars) ! (length pre + 1) = upper_nibble (drop_bit 4 byte)"
      "(pre @ ?esc @ encode_component chars) ! (length pre + 2) = upper_nibble (byte AND 0x0f)"
      by (simp_all add: nth_append)
    have "percent_loop (pre @ encode_component (byte # chars)) (length pre) out =
        percent_loop ((pre @ ?esc) @ encode_component chars) (length (pre @ ?esc)) (out @ [byte])"
      using False nth nibble_upper [OF nibble_bounds(1) [of byte]] nibble_upper [OF nibble_bounds(2) [of byte]]
      by (subst percent_loop.simps) (simp add: decode_step_def decode_escape_pair_def nibble_join numeral_3_eq_3)
    then show ?thesis by (simp only: Cons.IH) simp
  qed
qed

text \<open>Decoding a percent-encoded text gives the text, and the encoding uses only unreserved bytes and the percent sign.\<close>

theorem percent_roundtrip:
  assumes "utf8_error chars 0 = None"
  shows "percent_decode (encode_component chars) = Inr chars \<and>
    (\<forall>byte \<in> set (encode_component chars). is_unreserved byte \<or> byte = 37)"
proof -
  have "percent_loop (encode_component chars) 0 [] = Inr chars"
    using percent_loop_encode [of "[]" chars "[]"] by simp
  then have "percent_decode (encode_component chars) = Inr chars" using assms by (simp add: percent_decode_def)
  moreover have "\<forall>byte \<in> set (encode_component chars). is_unreserved byte \<or> byte = 37" for chars
    by (induction chars) (use nibble_upper nibble_bounds in auto)
  ultimately show ?thesis by blast
qed

theorem percent_roundtrip_witness: "percent_decode (encode_component [0x61, 0x20, 0xc3, 0xa9]) = Inr [0x61, 0x20, 0xc3, 0xa9]"
  using percent_roundtrip [of "[0x61, 0x20, 0xc3, 0xa9]"]
  by (simp add: utf8_error.simps utf8_width_def Let_def second_ok_def continuation_def)

end
