(* ===== verification/Dist_Lease.thy ===== *)
theory Dist_Lease
  imports Buffer
begin

text \<open>
  \<open>crates/lgwks-bot/src/dist_lease.rs\<close> and \<open>dist_lease/coordinator.rs\<close>: the lease authority and its
  fencing epochs, the in-process channel, the coordinator's fenced commits and the work queue. A
  \<open>u64\<close> epoch is a natural number that saturates. The mutex of \<open>AuthorityHandle\<close> makes each operation
  one step, poisoned or not. Names are UTF-8 bytes. The run store is not modelled here: its operations are arguments.
\<close>

section \<open>The authority\<close>

type_synonym host_id = bytes

record lease =
  ls_holder :: host_id
  ls_epoch :: nat

datatype lease_error = StaleEpoch (stale_presented: nat) (stale_current: nat)

record authority =
  au_epoch :: nat
  au_holder :: "host_id option"

definition authority_new :: authority where
  "authority_new = \<lparr>au_epoch = 0, au_holder = None\<rparr>"

definition acquire :: "host_id \<Rightarrow> authority \<Rightarrow> lease \<times> authority" where
  "acquire holder a =
     (let a = a\<lparr>au_epoch := sat_add_u64 (au_epoch a) 1, au_holder := Some holder\<rparr>
      in (\<lparr>ls_holder = holder, ls_epoch = au_epoch a\<rparr>, a))"

definition lease_check :: "authority \<Rightarrow> lease \<Rightarrow> lease_error + unit" where
  "lease_check a lease =
     (if ls_epoch lease = au_epoch a then Inr () else Inl (StaleEpoch (ls_epoch lease) (au_epoch a)))"

definition revoke :: "authority \<Rightarrow> authority" where
  "revoke a = a\<lparr>au_epoch := sat_add_u64 (au_epoch a) 1, au_holder := None\<rparr>"

section \<open>Channels and fences\<close>

datatype channel_error = ChannelUnanswered string

text \<open>\<open>LoopbackChannel::validate\<close>.\<close>

definition loopback_validate :: "bool \<Rightarrow> authority \<Rightarrow> lease \<Rightarrow> channel_error + bool" where
  "loopback_validate partitioned a lease =
     (if partitioned then Inl (ChannelUnanswered ''the hosts are partitioned'') else Inr (is_ok (lease_check a lease)))"

datatype 'e dispatch_error = DispatchLease lease_error | DispatchStore 'e | DispatchUnvalidated channel_error

definition authority_admit :: "authority \<Rightarrow> lease \<Rightarrow> 'e dispatch_error + unit" where
  "authority_admit a lease = (case lease_check a lease of Inl e \<Rightarrow> Inl (DispatchLease e) | Inr u \<Rightarrow> Inr u)"

text \<open>
  \<open>TcpGrantChannel\<close> as a fence: \<open>answer\<close> is the epoch its authenticated exchange brought back, or the
  reason it brought none.
\<close>

definition tcp_admit :: "channel_error + nat \<Rightarrow> lease \<Rightarrow> 'e dispatch_error + unit" where
  "tcp_admit answer lease =
     (case answer of
        Inl e \<Rightarrow> Inl (DispatchUnvalidated e)
      | Inr current \<Rightarrow> if current = ls_epoch lease then Inr () else Inl (DispatchLease (StaleEpoch (ls_epoch lease) current)))"

definition tcp_validate :: "channel_error + nat \<Rightarrow> lease \<Rightarrow> channel_error + bool" where
  "tcp_validate answer lease = rbind answer (\<lambda>current. Inr (current = ls_epoch lease))"

section \<open>The coordinator\<close>

text \<open>\<open>checked\<close>: the commit runs only behind the fence. The store is threaded through.\<close>

definition checked :: "(lease \<Rightarrow> 'e dispatch_error + unit) \<Rightarrow> lease \<Rightarrow> ('s \<Rightarrow> ('e + 't) \<times> 's) \<Rightarrow> 's \<Rightarrow> ('e dispatch_error + 't) \<times> 's" where
  "checked admit lease commit store =
     (case admit lease of
        Inl e \<Rightarrow> (Inl e, store)
      | Inr _ \<Rightarrow> (case commit store of (Inl e, store) \<Rightarrow> (Inl (DispatchStore e), store) | (Inr v, store) \<Rightarrow> (Inr v, store)))"

text \<open>The loop of \<open>recover\<close> over the dead host's open runs.\<close>

fun recover_loop :: "('r \<Rightarrow> 's \<Rightarrow> ('e + bool) \<times> 's) \<Rightarrow> 'r list \<Rightarrow> nat \<Rightarrow> 's \<Rightarrow> ('e + nat) \<times> 's" where
  "recover_loop abandon [] closed store = (Inr closed, store)"
| "recover_loop abandon (run # runs) closed store =
     (case abandon run store of
        (Inl e, store) \<Rightarrow> (Inl e, store)
      | (Inr ended, store) \<Rightarrow> recover_loop abandon runs (if ended then sat_add_usize closed 1 else closed) store)"

definition recover :: "(lease \<Rightarrow> 'e dispatch_error + unit) \<Rightarrow> lease \<Rightarrow> ('s \<Rightarrow> ('e + 'r list) \<times> 's) \<Rightarrow>
    ('r \<Rightarrow> 's \<Rightarrow> ('e + bool) \<times> 's) \<Rightarrow> 's \<Rightarrow> ('e dispatch_error + nat) \<times> 's" where
  "recover admit lease open_runs abandon =
     checked admit lease (\<lambda>store. case open_runs store of
        (Inl e, store) \<Rightarrow> (Inl e, store) | (Inr runs, store) \<Rightarrow> recover_loop abandon runs 0 store)"

section \<open>The work queue\<close>

record 't work_queue =
  wq_queue :: "'t list"
  wq_capacity :: nat

datatype queue_error = ZeroCapacity

datatype 't overfull = Overfull (overfull_item: 't) (overfull_capacity: nat)

definition work_queue_new :: "nat \<Rightarrow> queue_error + 't work_queue" where
  "work_queue_new capacity = (if capacity = 0 then Inl ZeroCapacity else Inr \<lparr>wq_queue = [], wq_capacity = capacity\<rparr>)"

definition wq_try_push :: "'t \<Rightarrow> 't work_queue \<Rightarrow> 't overfull + 't work_queue" where
  "wq_try_push item q =
     (if length (wq_queue q) \<ge> wq_capacity q then Inl (Overfull item (wq_capacity q))
      else Inr (q\<lparr>wq_queue := wq_queue q @ [item]\<rparr>))"

definition wq_pop :: "'t work_queue \<Rightarrow> 't option \<times> 't work_queue" where
  "wq_pop q = (case wq_queue q of [] \<Rightarrow> (None, q) | x # xs \<Rightarrow> (Some x, q\<lparr>wq_queue := xs\<rparr>))"

definition wq_is_full :: "'t work_queue \<Rightarrow> bool" where
  "wq_is_full q \<longleftrightarrow> length (wq_queue q) \<ge> wq_capacity q"

interpretation work: bounded_buffer wq_try_push wq_queue "\<lambda>q. length (wq_queue q)" wq_capacity "\<lambda>_. True"
  by unfold_locales (auto simp: wq_try_push_def split: if_splits)

section \<open>The contract of a fence\<close>

text \<open>
  What the coordinator relies on: a fence admits only the lease of the epoch the authority is at.
  The authority itself keeps it, and the TCP channel whenever the answer it got is the authority's.
\<close>

locale fence =
  fixes admit :: "'f \<Rightarrow> lease \<Rightarrow> 'e dispatch_error + unit"
    and epoch :: "'f \<Rightarrow> nat"
  assumes admit_current: "admit f l = Inr u \<Longrightarrow> ls_epoch l = epoch f"
begin

lemma stale_refused: "ls_epoch l \<noteq> epoch f \<Longrightarrow> \<exists>e. admit f l = Inl e"
  using admit_current [of f l] by (cases "admit f l") auto

lemma stale_writes_nothing: "ls_epoch l \<noteq> epoch f \<Longrightarrow> \<exists>e. checked (admit f) l commit store = (Inl e, store)"
  using stale_refused [of l f] by (auto simp: checked_def)

lemma admitted_commits:
  "checked (admit f) l commit store = (Inr v, store') \<Longrightarrow> ls_epoch l = epoch f \<and> commit store = (Inr v, store')"
  using admit_current [of f l] by (auto simp: checked_def split: sum.splits prod.splits)

end

interpretation inline: fence authority_admit au_epoch
  by unfold_locales (auto simp: authority_admit_def lease_check_def split: if_splits sum.splits)

text \<open>A channel's answer paired with the authority it came from: an answer, when there is one, is the authority's epoch.\<close>

typedef tcp_fence = "{(answer :: channel_error + nat, a :: authority). \<forall>n. answer = Inr n \<longrightarrow> n = au_epoch a}"
  by (rule exI [of _ "(Inl (ChannelUnanswered []), authority_new)"]) simp

interpretation tcp: fence "\<lambda>f. tcp_admit (fst (Rep_tcp_fence f))" "\<lambda>f. au_epoch (snd (Rep_tcp_fence f))"
proof
  fix f l and u :: unit
  assume "(tcp_admit (fst (Rep_tcp_fence f)) l :: 'a dispatch_error + unit) = Inr u"
  then show "ls_epoch l = au_epoch (snd (Rep_tcp_fence f))"
    using Rep_tcp_fence [of f] by (auto simp: tcp_admit_def split: sum.splits if_splits prod.splits)
qed

section \<open>Runs of the authority\<close>

text \<open>The leases minted so far, newest first, with the authority.\<close>

inductive authority_run :: "authority \<Rightarrow> lease list \<Rightarrow> bool" where
  fresh: "authority_run authority_new []"
| acquired: "authority_run a minted \<Longrightarrow> acquire holder a = (lease, a') \<Longrightarrow> authority_run a' (lease # minted)"
| revoked: "authority_run a minted \<Longrightarrow> authority_run (revoke a) minted"

inductive_cases authority_runE: "authority_run a minted"

definition authority_inv :: "authority \<Rightarrow> lease list \<Rightarrow> bool" where
  "authority_inv a minted \<longleftrightarrow>
     au_epoch a \<le> u64_max \<and> (\<forall>l \<in> set minted. ls_epoch l \<le> au_epoch a) \<and>
     (au_epoch a < u64_max \<longrightarrow> distinct (map ls_epoch minted)) \<and>
     (\<forall>h. au_holder a = Some h \<longrightarrow> minted \<noteq> [] \<and> hd minted = \<lparr>ls_holder = h, ls_epoch = au_epoch a\<rparr>) \<and>
     (au_holder a = None \<longrightarrow> au_epoch a < u64_max \<longrightarrow> (\<forall>l \<in> set minted. ls_epoch l < au_epoch a))"

lemma authority_invD:
  assumes "authority_inv a minted"
  shows "au_epoch a \<le> u64_max" "l \<in> set minted \<Longrightarrow> ls_epoch l \<le> au_epoch a"
    "au_epoch a < u64_max \<Longrightarrow> distinct (map ls_epoch minted)"
    "au_holder a = Some h \<Longrightarrow> minted \<noteq> [] \<and> hd minted = \<lparr>ls_holder = h, ls_epoch = au_epoch a\<rparr>"
    "au_holder a = None \<Longrightarrow> au_epoch a < u64_max \<Longrightarrow> l \<in> set minted \<Longrightarrow> ls_epoch l < au_epoch a"
  using assms unfolding authority_inv_def by blast+

lemma next_epoch: "e \<le> u64_max \<Longrightarrow> sat_add_u64 e 1 \<le> u64_max \<and> e \<le> sat_add_u64 e 1 \<and> (sat_add_u64 e 1 < u64_max \<longrightarrow> e < sat_add_u64 e 1)"
  by (auto simp: sat_add_u64_def)

lemma authority_run_inv: "authority_run a minted \<Longrightarrow> authority_inv a minted"
proof (induction rule: authority_run.induct)
  case fresh
  then show ?case by (simp add: authority_inv_def authority_new_def)
next
  case (acquired a minted holder lease a')
  note d = authority_invD [OF acquired.IH]
  let ?e = "sat_add_u64 (au_epoch a) 1"
  have r: "lease = \<lparr>ls_holder = holder, ls_epoch = ?e\<rparr>" "au_epoch a' = ?e" "au_holder a' = Some holder"
    using acquired.hyps(2) by (auto simp: acquire_def Let_def)
  note e = next_epoch [OF d(1)]
  have below: "ls_epoch l \<le> ?e \<and> (?e < u64_max \<longrightarrow> ls_epoch l < ?e)" if "l \<in> set minted" for l
    using d(2) [OF that] e by linarith
  show ?case
    unfolding authority_inv_def r(2,3)
  proof (intro conjI ballI impI allI)
    fix l assume "l \<in> set (lease # minted)"
    then show "ls_epoch l \<le> ?e" using below r(1) by auto
  next
    assume "?e < u64_max"
    then have "au_epoch a < u64_max" using e by linarith
    then show "distinct (map ls_epoch (lease # minted))" using d(3) below \<open>?e < u64_max\<close> r(1) by fastforce
  qed (use e r in simp_all)
next
  case (revoked a minted)
  note d = authority_invD [OF revoked.IH]
  let ?e = "sat_add_u64 (au_epoch a) 1"
  note e = next_epoch [OF d(1)]
  have r: "au_epoch (revoke a) = ?e" "au_holder (revoke a) = None" by (simp_all add: revoke_def)
  have below: "ls_epoch l \<le> ?e \<and> (?e < u64_max \<longrightarrow> ls_epoch l < ?e)" if "l \<in> set minted" for l
    using d(2) [OF that] e by linarith
  show ?case
    unfolding authority_inv_def r
  proof (intro conjI ballI impI allI)
    assume "?e < u64_max"
    then have "au_epoch a < u64_max" using e by linarith
    then show "distinct (map ls_epoch minted)" by (rule d(3))
  qed (use e below in simp_all)
qed

text \<open>C33: At most one minted lease is current: while the epoch has not saturated, the fence admits the newest lease and only if it was not revoked, and every other minted lease is refused with its epoch and the current one.\<close>

theorem lease_fencing:
  assumes "authority_run a minted" and "au_epoch a < u64_max" and "l \<in> set minted"
  shows "lease_check a l = (if au_holder a = Some (ls_holder l) \<and> l = hd minted then Inr ()
     else Inl (StaleEpoch (ls_epoch l) (au_epoch a)))"
proof -
  note d = authority_invD [OF authority_run_inv [OF assms(1)]]
  show ?thesis
  proof (cases "au_holder a")
    case None
    then have "ls_epoch l < au_epoch a" by (rule d(5) [OF _ assms(2,3)])
    then show ?thesis using None by (simp add: lease_check_def)
  next
    case (Some h)
    then have h: "minted \<noteq> []" "hd minted = \<lparr>ls_holder = h, ls_epoch = au_epoch a\<rparr>" using d(4) [OF Some] by simp_all
    have "distinct (map ls_epoch minted)" by (rule d(3) [OF assms(2)])
    then have inj: "ls_epoch x = ls_epoch y \<Longrightarrow> x \<in> set minted \<Longrightarrow> y \<in> set minted \<Longrightarrow> x = y" for x y
      by (simp add: distinct_map inj_on_def)
    show ?thesis
    proof (cases "l = hd minted")
      case True
      then show ?thesis using Some h(2) by (simp add: lease_check_def)
    next
      case False
      have "hd minted \<in> set minted" using h(1) by simp
      then have "ls_epoch l \<noteq> ls_epoch (hd minted)" using inj [of l "hd minted"] assms(3) False by blast
      then have "ls_epoch l \<noteq> au_epoch a" unfolding h(2) by simp
      then show ?thesis using False by (simp add: lease_check_def)
    qed
  qed
qed

text \<open>A stale or unvalidated lease writes nothing: whatever a coordinator asks for, recovery included, a lease of another epoch than the authority's leaves the run store as it was, with the authority's own fence and across the TCP channel, and so does any lease the channel got no answer for.\<close>

theorem stale_lease_writes_nothing:
  assumes "ls_epoch lease \<noteq> au_epoch a" and "admit \<in> {authority_admit a, tcp_admit (Inr (au_epoch a))}"
  shows "checked admit lease commit store = (Inl (DispatchLease (StaleEpoch (ls_epoch lease) (au_epoch a))), store) \<and>
    recover admit lease open_runs abandon store = (Inl (DispatchLease (StaleEpoch (ls_epoch lease) (au_epoch a))), store) \<and>
    checked (tcp_admit (Inl e)) any_lease commit store = (Inl (DispatchUnvalidated e), store)"
  using assms by (auto simp: recover_def checked_def authority_admit_def lease_check_def tcp_admit_def)

text \<open>Two acquisitions: the second makes the first stale.\<close>

definition first_lease :: lease where "first_lease = fst (acquire [97] authority_new)"
definition after_first :: authority where "after_first = snd (acquire [97] authority_new)"
definition second_lease :: lease where "second_lease = fst (acquire [98] after_first)"
definition after_second :: authority where "after_second = snd (acquire [98] after_first)"

lemma two_acquired: "authority_run after_second [second_lease, first_lease]"
  unfolding after_second_def second_lease_def
  by (rule authority_run.acquired [where a = after_first and holder = "[98]"], unfold after_first_def first_lease_def,
      rule authority_run.acquired [OF authority_run.fresh, where holder = "[97]"]) simp_all

theorem lease_fencing_witness: "lease_check after_second first_lease = Inl (StaleEpoch 1 2)"
  using lease_fencing [OF two_acquired, of first_lease]
  by (simp add: after_second_def first_lease_def second_lease_def after_first_def acquire_def Let_def authority_new_def sat_add_u64_def u64_max_def)

theorem stale_lease_writes_nothing_witness:
  "checked (authority_admit after_second) first_lease (\<lambda>_. (Inr () :: string + unit, 5)) (0 :: nat) = (Inl (DispatchLease (StaleEpoch 1 2)), 0)"
proof -
  have "ls_epoch first_lease \<noteq> au_epoch after_second" "ls_epoch first_lease = 1" "au_epoch after_second = 2"
    by (simp_all add: after_second_def first_lease_def after_first_def acquire_def Let_def authority_new_def sat_add_u64_def u64_max_def)
  then show ?thesis
    using conjunct1 [OF stale_lease_writes_nothing [of first_lease after_second "authority_admit after_second" "\<lambda>_. (Inr () :: string + unit, 5)" "0 :: nat"]]
    by simp
qed

end
