(* ===== verification/Int_Bytes.thy ===== *)
theory Int_Bytes
  imports Prelude
begin

text \<open>
  The fixed-width byte forms of the unsigned integers in the standard library, both orders, with their
  inverses: the frames of the journal and of the lease channel are written with them.
\<close>

text \<open>\<open>to_le_bytes\<close> and \<open>from_le_bytes\<close> of the unsigned integers.\<close>

fun le_bytes :: "nat \<Rightarrow> nat \<Rightarrow> bytes" where
  "le_bytes 0 v = []"
| "le_bytes (Suc n) v = word_of_nat (v mod 256) # le_bytes n (v div 256)"

fun from_le :: "bytes \<Rightarrow> nat" where
  "from_le [] = 0"
| "from_le (b # bytes) = unat b + 256 * from_le bytes"

definition be_bytes :: "nat \<Rightarrow> nat \<Rightarrow> bytes" where
  "be_bytes n v = rev (le_bytes n v)"

definition from_be :: "bytes \<Rightarrow> nat" where
  "from_be bytes = from_le (rev bytes)"

text \<open>\<open>Hasher::write_framed\<close>: what it feeds the hash, a little-endian length of eight bytes and the data.\<close>

definition write_framed :: "bytes \<Rightarrow> bytes" where
  "write_framed data = le_bytes 8 (length data) @ data"

section \<open>Bytes of an integer\<close>

lemma le_bytes_length [simp]: "length (le_bytes n v) = n"
  by (induction n arbitrary: v) simp_all

lemma from_le_bytes: "v < 256 ^ n \<Longrightarrow> from_le (le_bytes n v) = v"
proof (induction n arbitrary: v)
  case (Suc n)
  then have "v div 256 < 256 ^ n" by (simp add: less_mult_imp_div_less mult.commute)
  then show ?case using Suc.IH by (simp add: unat_of_nat take_bit_eq_mod)
qed simp

lemma le_bytes_from: "le_bytes (length bytes) (from_le bytes) = bytes"
proof (induction bytes)
  case (Cons b bytes)
  have "(unat b + 256 * from_le bytes) mod 256 = unat b" "(unat b + 256 * from_le bytes) div 256 = from_le bytes"
    using byte_lt_256 [of b] by (simp_all del: byte_lt_256)
  then show ?case using Cons by simp
qed simp

lemma be_bytes_length [simp]: "length (be_bytes n v) = n"
  by (simp add: be_bytes_def)

lemma from_be_bytes: "v < 256 ^ n \<Longrightarrow> from_be (be_bytes n v) = v"
  by (simp add: be_bytes_def from_be_def from_le_bytes)

text \<open>Framing is unambiguous: the length says where the data ends.\<close>

lemma le_bytes_inject: "a < 256 ^ n \<Longrightarrow> b < 256 ^ n \<Longrightarrow> le_bytes n a = le_bytes n b \<longleftrightarrow> a = b"
  by (metis from_le_bytes)

lemma write_framed_inject:
  assumes "length a \<le> u64_max" and "length b \<le> u64_max" and "write_framed a @ rest = write_framed b @ rest'"
  shows "a = b" and "rest = rest'"
proof -
  have small: "length a < 256 ^ 8" "length b < 256 ^ 8" using assms(1,2) by (simp_all add: u64_max_def)
  have "le_bytes 8 (length a) = le_bytes 8 (length b)" and data: "a @ rest = b @ rest'"
    using assms(3) by (simp_all add: write_framed_def append_eq_append_conv)
  then have "length a = length b" using le_bytes_inject [OF small] by simp
  then show "a = b" "rest = rest'" using data by simp_all
qed

end
