(* ===== verification/Lease_Wire.thy ===== *)
theory Lease_Wire
  imports Percent Dist_Lease Int_Bytes
begin

text \<open>
  \<open>crates/lgwks-bot/src/dist_lease/tcp.rs\<close>: the frames of the lease channel. The keyed hash of
  \<open>lgwks-std\<close> (BLAKE3, whose implementation is a dependency) is the argument \<open>tag\<close>: the digest of a
  frame under the shared key, 32 bytes. A socket is the bytes it still has to give; reading fewer than
  asked for is \<open>WireIo\<close>.
\<close>

section \<open>Frames\<close>

datatype wire_op = OpCheck | OpAcquire

definition op_code :: "wire_op \<Rightarrow> u8" where
  "op_code op = (case op of OpCheck \<Rightarrow> 1 | OpAcquire \<Rightarrow> 2)"

datatype wire_refusal = WireIo | WireShort | WireMagic | WireOp | WireOversize | WireUtf8 | WireTag | WireNonce | WireEntropy | WireZeroTimeout

definition request_magic :: bytes where "request_magic = [76, 71, 76, 81]"
definition reply_magic :: bytes where "reply_magic = [76, 71, 76, 82]"
definition max_name :: nat where "max_name = 256"
definition header_len :: nat where "header_len = 4 + 1 + 16 + 2"
definition tag_len :: nat where "tag_len = 32"
definition reply_len :: nat where "reply_len = 4 + 16 + 8 + tag_len"
definition body_len :: nat where "body_len = reply_len - tag_len"

text \<open>\<open>field::<N>(bytes, at)\<close>.\<close>

definition wire_field :: "nat \<Rightarrow> bytes \<Rightarrow> nat \<Rightarrow> wire_refusal + bytes" where
  "wire_field n bytes k = (if k + n \<le> length bytes then Inr (take n (drop k bytes)) else Inl WireShort)"

definition verifies :: "(bytes \<Rightarrow> bytes) \<Rightarrow> bytes \<Rightarrow> bytes \<Rightarrow> wire_refusal + unit" where
  "verifies tag frame t = rbind (wire_field tag_len t 0) (\<lambda>t. if tag frame = t then Inr () else Inl WireTag)"

definition encode_request :: "(bytes \<Rightarrow> bytes) \<Rightarrow> wire_op \<Rightarrow> bytes \<Rightarrow> bytes \<Rightarrow> wire_refusal + bytes" where
  "encode_request tag op nonce name =
     (if length name > max_name then Inl WireOversize
      else if length name \<ge> 2 ^ 16 then Inl WireOversize
      else let frame = request_magic @ [op_code op] @ nonce @ le_bytes 2 (length name) @ name in Inr (frame @ tag frame))"

text \<open>\<open>fill\<close>: exactly \<open>n\<close> bytes off the socket.\<close>

definition wire_fill :: "nat \<Rightarrow> bytes \<Rightarrow> wire_refusal + (bytes \<times> bytes)" where
  "wire_fill n stream = (if n \<le> length stream then Inr (take n stream, drop n stream) else Inl WireIo)"

record request =
  rq_op :: wire_op
  rq_nonce :: bytes
  rq_name :: bytes

definition read_request :: "(bytes \<Rightarrow> bytes) \<Rightarrow> bytes \<Rightarrow> wire_refusal + request" where
  "read_request tag stream =
     rbind (wire_fill header_len stream) (\<lambda>(header, stream).
     rbind (wire_field 4 header 0) (\<lambda>magic.
     if magic \<noteq> request_magic then Inl WireMagic
     else rbind (wire_field 1 header 4) (\<lambda>code.
     rbind (if code = [1] then Inr OpCheck else if code = [2] then Inr OpAcquire else Inl WireOp) (\<lambda>op.
     rbind (wire_field 2 header 21) (\<lambda>len.
       let n = from_le len in
       if n > max_name then Inl WireOversize
       else rbind (wire_fill (n + tag_len) stream) (\<lambda>(rest, stream).
         if n > length rest then Inl WireShort
         else
           let name = take n rest; t = drop n rest in
           rbind (verifies tag (header @ name) t) (\<lambda>_.
             if utf8_error name 0 \<noteq> None then Inl WireUtf8
             else rbind (wire_field 16 header 5) (\<lambda>nonce. Inr \<lparr>rq_op = op, rq_nonce = nonce, rq_name = name\<rparr>))))))))"

definition encode_reply :: "(bytes \<Rightarrow> bytes) \<Rightarrow> bytes \<Rightarrow> nat \<Rightarrow> bytes" where
  "encode_reply tag nonce epoch = (let frame = reply_magic @ nonce @ le_bytes 8 epoch in frame @ tag frame)"

definition decode_reply :: "(bytes \<Rightarrow> bytes) \<Rightarrow> bytes \<Rightarrow> bytes \<Rightarrow> wire_refusal + nat" where
  "decode_reply tag nonce frame =
     (if length frame < body_len then Inl WireShort
      else
        let body = take body_len frame; t = drop body_len frame in
        rbind (wire_field 4 body 0) (\<lambda>magic.
        if magic \<noteq> reply_magic then Inl WireMagic
        else rbind (verifies tag body t) (\<lambda>_.
        rbind (wire_field 16 body 4) (\<lambda>n.
        if n \<noteq> nonce then Inl WireNonce
        else rbind (wire_field 8 body 20) (\<lambda>e. Inr (from_le e))))))"

text \<open>
  The sockets. \<open>sk_bounded\<close> and \<open>sk_writable\<close> say whether setting the timeouts and writing the reply
  succeed.
\<close>

record socket =
  sk_input :: bytes
  sk_bounded :: bool
  sk_writable :: bool

definition bound_socket :: "duration \<Rightarrow> socket \<Rightarrow> wire_refusal + unit" where
  "bound_socket timeout s = (if timeout = 0 then Inl WireZeroTimeout else if sk_bounded s then Inr () else Inl WireIo)"

text \<open>
  \<open>AuthorityServer::answer\<close> and \<open>serve\<close>: one request off each connection, a reply or a counted refusal. An
  acquisition whose reply cannot be written has happened all the same.
\<close>

definition server_answer :: "(bytes \<Rightarrow> bytes) \<Rightarrow> duration \<Rightarrow> socket \<Rightarrow> authority \<Rightarrow> (wire_refusal + bytes) \<times> authority" where
  "server_answer tag timeout s a =
     (case rbind (bound_socket timeout s) (\<lambda>_. read_request tag (sk_input s)) of
        Inl refusal \<Rightarrow> (Inl refusal, a)
      | Inr request \<Rightarrow>
          (case (case rq_op request of
                   OpCheck \<Rightarrow> (au_epoch a, a)
                 | OpAcquire \<Rightarrow> (case acquire (rq_name request) a of (lease, a) \<Rightarrow> (ls_epoch lease, a))) of
             (epoch, a) \<Rightarrow> (if sk_writable s then Inr (encode_reply tag (rq_nonce request) epoch) else Inl WireIo, a)))"

record serve_report =
  sr_answered :: nat
  sr_refused :: nat

fun serve_loop :: "(bytes \<Rightarrow> bytes) \<Rightarrow> duration \<Rightarrow> (wire_refusal + socket) list \<Rightarrow> authority \<Rightarrow> serve_report \<Rightarrow> serve_report \<times> authority" where
  "serve_loop tag timeout [] a report = (report, a)"
| "serve_loop tag timeout (incoming # connections) a report =
     (case (case incoming of Inl refusal \<Rightarrow> (Inl refusal, a) | Inr s \<Rightarrow> server_answer tag timeout s a) of
        (Inr reply, a) \<Rightarrow> serve_loop tag timeout connections a (report\<lparr>sr_answered := sat_add_usize (sr_answered report) 1\<rparr>)
      | (Inl refusal, a) \<Rightarrow> serve_loop tag timeout connections a (report\<lparr>sr_refused := sat_add_usize (sr_refused report) 1\<rparr>))"

text \<open>
  The client. \<open>entropy\<close> is the nonce, when the platform gives one; \<open>network\<close> is what the peer sends back
  for a frame, or \<open>None\<close> when connecting, bounding or writing fails.
\<close>

definition client_exchange ::
    "(bytes \<Rightarrow> bytes) \<Rightarrow> duration \<Rightarrow> bytes option \<Rightarrow> (bytes \<Rightarrow> bytes option) \<Rightarrow> wire_op \<Rightarrow> bytes \<Rightarrow> wire_refusal + nat" where
  "client_exchange tag timeout entropy network op name =
     (if timeout = 0 then Inl WireZeroTimeout
      else
        rbind (case entropy of None \<Rightarrow> Inl WireEntropy | Some nonce \<Rightarrow> Inr nonce) (\<lambda>nonce.
        rbind (encode_request tag op nonce name) (\<lambda>frame.
        rbind (case network frame of None \<Rightarrow> Inl WireIo | Some stream \<Rightarrow> Inr stream) (\<lambda>stream.
        rbind (wire_fill reply_len stream) (\<lambda>(reply, _). decode_reply tag nonce reply)))))"

definition refusal_reason_text :: "wire_refusal \<Rightarrow> string" where
  "refusal_reason_text refusal = (case refusal of
     WireIo \<Rightarrow> ''the socket failed, timed out or closed early''
   | WireShort \<Rightarrow> ''the frame is shorter than its layout''
   | WireMagic \<Rightarrow> ''the frame is not a lease-channel frame''
   | WireOp \<Rightarrow> ''the request asks no known question''
   | WireOversize \<Rightarrow> ''the holder name is longer than 256 bytes''
   | WireUtf8 \<Rightarrow> ''the holder name is not UTF-8''
   | WireTag \<Rightarrow> ''the frame's keyed tag does not verify''
   | WireNonce \<Rightarrow> ''the reply answers another question''
   | WireEntropy \<Rightarrow> ''the OS had no entropy for a nonce''
   | WireZeroTimeout \<Rightarrow> ''a zero timeout bounds nothing'')"

definition client_ask ::
    "(bytes \<Rightarrow> bytes) \<Rightarrow> duration \<Rightarrow> bytes option \<Rightarrow> (bytes \<Rightarrow> bytes option) \<Rightarrow> wire_op \<Rightarrow> bytes \<Rightarrow> channel_error + nat" where
  "client_ask tag timeout entropy network op name =
     map_sum (\<lambda>refusal. ChannelUnanswered (refusal_reason_text refusal)) id (client_exchange tag timeout entropy network op name)"

definition client_acquire ::
    "(bytes \<Rightarrow> bytes) \<Rightarrow> duration \<Rightarrow> bytes option \<Rightarrow> (bytes \<Rightarrow> bytes option) \<Rightarrow> bytes \<Rightarrow> channel_error + lease" where
  "client_acquire tag timeout entropy network holder =
     rbind (client_ask tag timeout entropy network OpAcquire holder) (\<lambda>epoch. Inr \<lparr>ls_holder = holder, ls_epoch = epoch\<rparr>)"

section \<open>Frames read back\<close>

lemma wire_field_Inr [simp]: "wire_field n bytes k = Inr f \<longleftrightarrow> k + n \<le> length bytes \<and> f = take n (drop k bytes)"
  by (auto simp: wire_field_def)

lemma decode_reply_iff:
  assumes "length frame = reply_len"
  defines "body \<equiv> take 28 frame" and "t \<equiv> drop 28 frame"
  shows "decode_reply tag nonce frame = Inr epoch \<longleftrightarrow> take 4 body = reply_magic \<and> tag body = t \<and>
    take 16 (drop 4 body) = nonce \<and> from_le (take 8 (drop 20 body)) = epoch"
proof -
  have lens: "length body = 28" "length t = 32" "\<not> length frame < body_len"
    using assms(1) by (simp_all add: body_def t_def reply_len_def tag_len_def body_len_def)
  have b: "body_len = 28" by (simp add: body_len_def reply_len_def)
  show ?thesis
    using lens unfolding decode_reply_def Let_def b body_def [symmetric] t_def [symmetric]
    by (auto simp: verifies_def tag_len_def b split: if_splits)
qed

lemma body_parts: "length body = 28 \<Longrightarrow> body = take 4 body @ take 16 (drop 4 body) @ take 8 (drop 20 body)"
proof -
  assume len: "length body = 28"
  have "drop 4 body = take 16 (drop 4 body) @ drop 20 body" using append_take_drop_id [of 16 "drop 4 body"] by simp
  moreover have "drop 20 body = take 8 (drop 20 body)" using len by simp
  ultimately show ?thesis using append_take_drop_id [of 4 body] by metis
qed

lemma reply_iff:
  assumes tag: "\<And>frame. length (tag frame) = 32" and n: "length nonce = 16" and len: "length frame = reply_len" and e: "epoch < 2 ^ 64"
  shows "decode_reply tag nonce frame = Inr epoch \<longleftrightarrow> frame = encode_reply tag nonce epoch"
proof
  let ?body = "take 28 frame"
  assume "decode_reply tag nonce frame = Inr epoch"
  then have d: "take 4 ?body = reply_magic" "tag ?body = drop 28 frame" "take 16 (drop 4 ?body) = nonce" "from_le (take 8 (drop 20 ?body)) = epoch"
    unfolding decode_reply_iff [OF len] by blast+
  have len28: "length ?body = 28" using len by (simp add: reply_len_def)
  have "le_bytes 8 epoch = take 8 (drop 20 ?body)"
    using le_bytes_from [of "take 8 (drop 20 ?body)"] len28 d(4) by simp
  then have "?body = reply_magic @ nonce @ le_bytes 8 epoch" using body_parts [OF len28] d by simp
  then show "frame = encode_reply tag nonce epoch"
    using d(2) append_take_drop_id [of 28 frame] by (simp add: encode_reply_def Let_def)
next
  assume f: "frame = encode_reply tag nonce epoch"
  let ?body = "reply_magic @ nonce @ le_bytes 8 epoch"
  have m: "length reply_magic = 4" by (simp add: reply_magic_def)
  have "take 28 frame = ?body" "drop 28 frame = tag ?body" using n m by (simp_all add: f encode_reply_def Let_def)
  moreover have "from_le (le_bytes 8 epoch) = epoch" using e by (intro from_le_bytes) simp
  ultimately show "decode_reply tag nonce frame = Inr epoch"
    unfolding decode_reply_iff [OF len] using n m by simp
qed

lemma encode_reply_length: "(\<And>frame. length (tag frame) = 32) \<Longrightarrow> length nonce = 16 \<Longrightarrow> length (encode_reply tag nonce epoch) = reply_len"
  by (simp add: encode_reply_def Let_def reply_magic_def reply_len_def tag_len_def)

lemma request_reads_back:
  assumes tag: "\<And>frame. length (tag frame) = 32" and n: "length nonce = 16" and utf8: "utf8_error name 0 = None"
    and f: "encode_request tag op nonce name = Inr frame"
  shows "read_request tag frame = Inr \<lparr>rq_op = op, rq_nonce = nonce, rq_name = name\<rparr>"
proof -
  let ?header = "request_magic @ [op_code op] @ nonce @ le_bytes 2 (length name)"
  have small: "length name \<le> 256" and frame: "frame = ?header @ name @ tag (?header @ name)"
    using f by (auto simp: encode_request_def max_name_def Let_def split: if_splits)
  have m: "length request_magic = 4" by (simp add: request_magic_def)
  have h: "length ?header = 23" using n m by simp
  have fill1: "wire_fill header_len frame = Inr (?header, name @ tag (?header @ name))"
    using n m by (simp add: wire_fill_def header_len_def frame)
  have fields: "wire_field 4 ?header 0 = Inr request_magic" "wire_field 1 ?header 4 = Inr [op_code op]"
    "wire_field 2 ?header 21 = Inr (le_bytes 2 (length name))" "wire_field 16 ?header 5 = Inr nonce"
    using n m by simp_all
  have len: "from_le (le_bytes 2 (length name)) = length name" using small by (intro from_le_bytes) simp
  have fill2: "wire_fill (length name + tag_len) (name @ tag (?header @ name)) = Inr (name @ tag (?header @ name), [])"
    using tag by (simp add: wire_fill_def tag_len_def)
  have ver: "verifies tag (?header @ name) (tag (?header @ name)) = Inr ()"
    using tag by (simp add: verifies_def tag_len_def)
  have op: "(if [op_code op] = [1] then Inr OpCheck else if [op_code op] = [2] then Inr OpAcquire else Inl WireOp) = (Inr op :: wire_refusal + wire_op)"
    by (cases op) (simp_all add: op_code_def)
  show ?thesis
    unfolding read_request_def fill1 rbind_simps prod.case fields op Let_def len fill2
    using small ver utf8 by (simp add: max_name_def)
qed

lemma asked:
  assumes tag: "\<And>frame. length (tag frame) = 32" and nonce: "length nonce = 16"
    and name: "utf8_error name 0 = None" "length name \<le> max_name" and time: "0 < timeout"
    and network: "\<And>frame. network frame = (case server_answer tag timeout \<lparr>sk_input = frame, sk_bounded = True, sk_writable = True\<rparr> a of
      (Inr reply, _) \<Rightarrow> Some reply | (Inl _, _) \<Rightarrow> Some [])"
    and answer: "\<And>frame. read_request tag frame = Inr \<lparr>rq_op = op, rq_nonce = nonce, rq_name = name\<rparr> \<Longrightarrow>
      fst (server_answer tag timeout \<lparr>sk_input = frame, sk_bounded = True, sk_writable = True\<rparr> a) = Inr (encode_reply tag nonce epoch)"
    and "epoch < 2 ^ 64"
  shows "client_ask tag timeout (Some nonce) network op name = Inr epoch"
proof -
  obtain frame where f: "encode_request tag op nonce name = Inr frame"
    using name(2) by (auto simp: encode_request_def max_name_def Let_def)
  have "fst (server_answer tag timeout \<lparr>sk_input = frame, sk_bounded = True, sk_writable = True\<rparr> a) = Inr (encode_reply tag nonce epoch)"
    using answer request_reads_back [OF tag nonce name(1) f] by blast
  then have "network frame = Some (encode_reply tag nonce epoch)" by (auto simp: network split: prod.split sum.split)
  moreover have len: "length (encode_reply tag nonce epoch) = reply_len" by (rule encode_reply_length [OF tag nonce])
  ultimately show ?thesis
    using f reply_iff [of tag, OF tag nonce len assms(8)] time by (simp add: client_ask_def client_exchange_def wire_fill_def)
qed

section \<open>What the channel promises\<close>

text \<open>A client accepts exactly the reply the authority tagged for its own nonce: with a keyed tag of 32 bytes, a full reply frame decodes to an epoch just when it is the encoding of that epoch for the nonce that was sent, so neither a replayed nor an altered frame is an answer.\<close>

theorem reply_authentic:
  assumes "\<And>frame. length (tag frame) = 32" and "length nonce = 16" and "length frame = reply_len" and "epoch < 2 ^ 64"
  shows "decode_reply tag nonce frame = Inr epoch \<longleftrightarrow> frame = encode_reply tag nonce epoch"
  by (rule reply_iff [OF assms])

text \<open>A question put to the authority over the wire is answered with its epoch: the frame the client writes is served, the reply decodes under the client's nonce, a check gives the current epoch, and an acquisition gives the client the very lease the authority minted for the name that was sent. The channel as a fence then admits a lease exactly when the authority does.\<close>

theorem exchange_answers:
  assumes tag: "\<And>frame. length (tag frame) = 32" and nonce: "length nonce = 16"
    and name: "utf8_error name 0 = None" "length name \<le> max_name"
    and a: "au_epoch a \<le> u64_max" and time: "0 < timeout"
    and network: "\<And>frame. network frame = (case server_answer tag timeout \<lparr>sk_input = frame, sk_bounded = True, sk_writable = True\<rparr> a of
      (Inr reply, _) \<Rightarrow> Some reply | (Inl _, _) \<Rightarrow> Some [])"
  shows "client_ask tag timeout (Some nonce) network OpCheck [] = Inr (au_epoch a) \<and>
    client_acquire tag timeout (Some nonce) network name = Inr (fst (acquire name a)) \<and>
    (tcp_admit (client_ask tag timeout (Some nonce) network OpCheck []) l = Inr () \<longleftrightarrow> lease_check a l = Inr ())"
proof -
  have "ls_epoch (fst (acquire name a)) \<le> u64_max" by (simp add: acquire_def Let_def sat_add_u64_def)
  then have small: "au_epoch a < 2 ^ 64" "ls_epoch (fst (acquire name a)) < 2 ^ 64" using a by (simp_all add: u64_max_def)
  have check: "client_ask tag timeout (Some nonce) network OpCheck [] = Inr (au_epoch a)"
    by (rule asked [OF tag nonce _ _ time network _ small(1)]) (simp_all add: server_answer_def bound_socket_def time utf8_error.simps)
  have "client_ask tag timeout (Some nonce) network OpAcquire name = Inr (ls_epoch (fst (acquire name a)))"
    by (rule asked [OF tag nonce name time network _ small(2)]) (simp_all add: server_answer_def bound_socket_def time split: prod.splits)
  moreover have "ls_holder (fst (acquire name a)) = name" by (simp add: acquire_def Let_def)
  ultimately have "client_acquire tag timeout (Some nonce) network name = Inr (fst (acquire name a))"
    by (simp add: client_acquire_def acquire_def Let_def)
  then show ?thesis using check by (auto simp: tcp_admit_def lease_check_def)
qed

text \<open>A tag that repeats the length of the frame, to see the hypotheses hold.\<close>

definition toy_tag :: "bytes \<Rightarrow> bytes" where
  "toy_tag frame = replicate 32 (word_of_nat (length frame))"

lemma authority_new_epoch: "au_epoch authority_new = 0"
  by (simp add: authority_new_def)

theorem reply_authentic_witness: "decode_reply toy_tag (replicate 16 9) (encode_reply toy_tag (replicate 16 9) 5) = Inr 5"
  using reply_authentic [of toy_tag "replicate 16 9" "encode_reply toy_tag (replicate 16 9) 5" 5]
  by (simp add: toy_tag_def encode_reply_length)

theorem exchange_answers_witness:
  "client_ask toy_tag 5 (Some (replicate 16 9)) (\<lambda>frame. case server_answer toy_tag 5 \<lparr>sk_input = frame, sk_bounded = True, sk_writable = True\<rparr> authority_new of
     (Inr reply, _) \<Rightarrow> Some reply | (Inl _, _) \<Rightarrow> Some []) OpCheck [] = Inr 0"
  by (rule exchange_answers [of toy_tag "replicate 16 9" "[]" authority_new 5, THEN conjunct1, unfolded authority_new_epoch])
    (simp_all add: toy_tag_def utf8_error.simps authority_new_def u64_max_def)

end
