(* ===== verification/Keyed.thy ===== *)
theory Keyed
  imports Prelude
begin

text \<open>
  \<open>crates/lgwks-bot/src/keyed.rs\<close>: opening something at a receiver once, by its key. The receiver and
  the clock are the world: \<open>k\<close>-th reads, the create and sleeps take the time it says, and the state
  keeps the calls made of the receiver, in order and each with the time it was made.
\<close>

section \<open>The world\<close>

datatype create_failure = NothingLanded | MayHaveLanded

record ('h, 'e) receiver =
  rcv_find :: "nat \<Rightarrow> 'e + 'h option"
  rcv_find_takes :: "nat \<Rightarrow> duration"
  rcv_create :: "'e + 'h"
  rcv_create_takes :: duration
  rcv_create_failure :: "'e \<Rightarrow> create_failure"
  rcv_in_flight_bound :: duration
  rcv_oversleep :: "nat \<Rightarrow> duration"

datatype call = ReadAt nat | CreateAt nat

record world =
  w_time :: nat
  w_finds :: nat
  w_calls :: "call list"

definition clock_now :: "world \<Rightarrow> duration" where
  "clock_now w = min (w_time w) dur_max"

definition do_find :: "('h, 'e) receiver \<Rightarrow> world \<Rightarrow> ('e + 'h option) \<times> world" where
  "do_find r w = (rcv_find r (w_finds w), w\<lparr>w_time := w_time w + rcv_find_takes r (w_finds w), w_finds := w_finds w + 1, w_calls := w_calls w @ [ReadAt (w_time w)]\<rparr>)"

definition do_create :: "('h, 'e) receiver \<Rightarrow> world \<Rightarrow> ('e + 'h) \<times> world" where
  "do_create r w = (rcv_create r, w\<lparr>w_time := w_time w + rcv_create_takes r, w_calls := w_calls w @ [CreateAt (w_time w)]\<rparr>)"

definition do_sleep :: "('h, 'e) receiver \<Rightarrow> duration \<Rightarrow> world \<Rightarrow> world" where
  "do_sleep r d w = w\<lparr>w_time := w_time w + d + rcv_oversleep r (w_time w)\<rparr>"

section \<open>Code\<close>

definition settle_scans :: nat where "settle_scans = 8"
definition first_settle_delay :: duration where "first_settle_delay = dur_millis 250"
definition max_settle_delay :: duration where "max_settle_delay = dur_secs 4"

datatype settlement = Created | Found | Reconciled

datatype 'e keyed_error = Unread 'e | Refused 'e | Indeterminate 'e "'e option"

record read_back =
  rb_next :: duration
  rb_made :: nat
  rb_until :: duration

definition spent :: "read_back \<Rightarrow> duration \<Rightarrow> duration option \<times> read_back" where
  "spent rb now =
     (let rb = rb\<lparr>rb_made := min (rb_made rb + 1) 255\<rparr> in
      if rb_made rb \<ge> settle_scans \<and> now \<ge> rb_until rb then (None, rb)
      else (Some (rb_next rb), rb\<lparr>rb_next := min (min (rb_next rb * 2) dur_max) max_settle_delay\<rparr>))"

partial_function (option) read_back_loop ::
  "('h, 'e) receiver \<Rightarrow> 'e \<Rightarrow> read_back \<Rightarrow> 'e option \<Rightarrow> world \<Rightarrow> (('e keyed_error + 'h \<times> settlement) \<times> world) option" where
  "read_back_loop r lost rb unread w =
     (case do_find r w of
        (Inr (Some found), w) \<Rightarrow> Some (Inr (found, Reconciled), w)
      | (answer, w) \<Rightarrow>
          let unread = (case answer of Inl failure \<Rightarrow> Some failure | Inr _ \<Rightarrow> unread) in
          (case spent rb (clock_now w) of
             (Some wait, rb) \<Rightarrow> read_back_loop r lost rb unread (do_sleep r wait w)
           | (None, rb) \<Rightarrow> Some (Inl (Indeterminate lost unread), w)))"

text \<open>From the create on.\<close>

definition create_once :: "('h, 'e) receiver \<Rightarrow> world \<Rightarrow> (('e keyed_error + 'h \<times> settlement) \<times> world) option" where
  "create_once r w =
     (let sent = clock_now w in
      case do_create r w of
        (Inr created, w) \<Rightarrow> Some (Inr (created, Created), w)
      | (Inl failure, w) \<Rightarrow>
          (case rcv_create_failure r failure of
             NothingLanded \<Rightarrow> Some (Inl (Refused failure), w)
           | MayHaveLanded \<Rightarrow>
               read_back_loop r failure \<lparr>rb_next = first_settle_delay, rb_made = 0, rb_until = dur_add sent (rcv_in_flight_bound r)\<rparr> None w))"

definition open_once :: "('h, 'e) receiver \<Rightarrow> world \<Rightarrow> (('e keyed_error + 'h \<times> settlement) \<times> world) option" where
  "open_once r w =
     (let began = clock_now w; bound = rcv_in_flight_bound r in
      case do_find r w of
        (Inl failure, w) \<Rightarrow> Some (Inl (Unread failure), w)
      | (Inr (Some found), w) \<Rightarrow> Some (Inr (found, Found), w)
      | (Inr None, w) \<Rightarrow>
          let fence = dur_add began bound - clock_now w in
          if fence \<noteq> 0 then
            (case do_find r (do_sleep r fence w) of
               (Inl failure, w) \<Rightarrow> Some (Inl (Unread failure), w)
             | (Inr (Some found), w) \<Rightarrow> Some (Inr (found, Found), w)
             | (Inr None, w) \<Rightarrow> create_once r w)
          else create_once r w)"

section \<open>The read-back\<close>

definition finds_nothing :: "('h, 'e) receiver \<Rightarrow> nat \<Rightarrow> bool" where
  "finds_nothing r k \<longleftrightarrow> (\<forall>h. rcv_find r k \<noteq> Inr (Some h))"

text \<open>The failure a run of \<open>n\<close> reads from the \<open>k\<close>-th on leaves to report: the last one, if any failed.\<close>

fun last_unread :: "('h, 'e) receiver \<Rightarrow> nat \<Rightarrow> nat \<Rightarrow> 'e option \<Rightarrow> 'e option" where
  "last_unread r k 0 unread = unread"
| "last_unread r k (Suc n) unread = last_unread r (Suc k) n (case rcv_find r k of Inl failure \<Rightarrow> Some failure | Inr _ \<Rightarrow> unread)"

text \<open>
  What the loop ends with when \<open>made\<close> reads were made before it: it reads on, at the times \<open>ts\<close>, until a read finds the effect,
  and gives up only when it has read eight times and the clock is at \<open>until\<close>.
\<close>

definition read_back_post ::
  "('h, 'e) receiver \<Rightarrow> 'e \<Rightarrow> nat \<Rightarrow> duration \<Rightarrow> 'e option \<Rightarrow> world \<Rightarrow> ('e keyed_error + 'h \<times> settlement) \<times> world \<Rightarrow> bool" where
  "read_back_post r lost made until unread w0 = (\<lambda>(result, w).
     \<exists>ts t. w_calls w = w_calls w0 @ map ReadAt ts @ [ReadAt t] \<and> w_finds w = w_finds w0 + length ts + 1 \<and>
       (\<forall>i < length ts. finds_nothing r (w_finds w0 + i)) \<and>
       (case result of
          Inr (h, how) \<Rightarrow> how = Reconciled \<and> rcv_find r (w_finds w0 + length ts) = Inr (Some h)
        | Inl (Indeterminate e u) \<Rightarrow> e = lost \<and> finds_nothing r (w_finds w0 + length ts) \<and> settle_scans \<le> made + length ts + 1 \<and>
            until \<le> clock_now w \<and> u = last_unread r (w_finds w0) (length ts + 1) unread
        | Inl _ \<Rightarrow> False))"

lemma clock_now_mono: "w_time w \<le> w_time w' \<Longrightarrow> clock_now w \<le> clock_now w'"
  by (simp add: clock_now_def)

text \<open>Each round either uses up one of the eight scans or moves the clock towards \<open>until\<close>.\<close>

lemma spent_progress:
  assumes s: "spent rb (clock_now w) = (Some wait, rb')" and nx: "0 < rb_next rb" and until: "rb_until rb \<le> dur_max"
  shows "0 < rb_next rb'" "rb_until rb' = rb_until rb" "rb_made rb' \<le> rb_made rb + 1"
    and "(rb_until rb - clock_now (do_sleep r wait w)) + (settle_scans - rb_made rb') < (rb_until rb - clock_now w) + (settle_scans - rb_made rb)"
proof -
  have f: "wait = rb_next rb" "rb_made rb' = min (rb_made rb + 1) 255" "rb_until rb' = rb_until rb"
    "rb_next rb' = min (min (rb_next rb * 2) dur_max) max_settle_delay"
    and go: "min (rb_made rb + 1) 255 < settle_scans \<or> clock_now w < rb_until rb"
    using s by (auto simp: spent_def Let_def split: if_splits)
  show "rb_until rb' = rb_until rb" "rb_made rb' \<le> rb_made rb + 1" by (simp_all add: f)
  show "0 < rb_next rb'" using nx by (simp add: f dur_max_def max_settle_delay_def dur_secs_def)
  have later: "clock_now w \<le> clock_now (do_sleep r wait w)" by (rule clock_now_mono) (simp add: do_sleep_def)
  show "(rb_until rb - clock_now (do_sleep r wait w)) + (settle_scans - rb_made rb') < (rb_until rb - clock_now w) + (settle_scans - rb_made rb)"
  proof (cases "rb_made rb + 1 < settle_scans")
    case True
    then have "rb_made rb' = rb_made rb + 1" "rb_made rb < settle_scans" by (simp_all add: f settle_scans_def)
    then show ?thesis using later by linarith
  next
    case False
    then have now: "clock_now w < rb_until rb" using go by (auto simp: settle_scans_def)
    then have "w_time w < dur_max" using until by (simp add: clock_now_def split: if_splits)
    then have "clock_now w < clock_now (do_sleep r wait w)" using nx by (simp add: clock_now_def do_sleep_def f)
    moreover have "settle_scans - rb_made rb' \<le> settle_scans - rb_made rb" by (simp add: f settle_scans_def)
    ultimately show ?thesis using now by linarith
  qed
qed

text \<open>One more read in front of a run of the loop.\<close>

lemma read_back_post_earlier:
  assumes "read_back_post r lost made' until unread' w2 out" and "w_calls w2 = w_calls w @ [ReadAt t0]" and "w_finds w2 = w_finds w + 1"
    and "finds_nothing r (w_finds w)" and "made' \<le> made + 1"
    and "unread' = (case rcv_find r (w_finds w) of Inl failure \<Rightarrow> Some failure | Inr _ \<Rightarrow> unread)"
  shows "read_back_post r lost made until unread w out"
proof -
  obtain result w' where out: "out = (result, w')" by (cases out)
  obtain ts t where ts: "w_calls w' = w_calls w2 @ map ReadAt ts @ [ReadAt t]" "w_finds w' = w_finds w2 + length ts + 1"
      "\<forall>i < length ts. finds_nothing r (w_finds w2 + i)"
      "case result of
          Inr (h, how) \<Rightarrow> how = Reconciled \<and> rcv_find r (w_finds w2 + length ts) = Inr (Some h)
        | Inl (Indeterminate e u) \<Rightarrow> e = lost \<and> finds_nothing r (w_finds w2 + length ts) \<and> settle_scans \<le> made' + length ts + 1 \<and>
            until \<le> clock_now w' \<and> u = last_unread r (w_finds w2) (length ts + 1) unread'
        | Inl _ \<Rightarrow> False"
    using assms(1) unfolding out read_back_post_def by auto
  have "\<forall>i < length (t0 # ts). finds_nothing r (w_finds w + i)" using ts(3) assms(3,4) by (auto simp: less_Suc_eq_0_disj)
  then show ?thesis
    unfolding out read_back_post_def using ts(1,2,4) assms(2,3,5,6)
    by (auto intro!: exI [of _ "t0 # ts"] exI [of _ t] split: sum.splits keyed_error.splits)
qed

lemma read_back_loop_returns:
  assumes "0 < rb_next rb" and "rb_until rb \<le> dur_max"
  shows "\<exists>out. read_back_loop r lost rb unread w = Some out \<and> read_back_post r lost (rb_made rb) (rb_until rb) unread w out"
  using assms
proof (induction "(rb_until rb - clock_now w) + (settle_scans - rb_made rb)" arbitrary: rb unread w rule: less_induct)
  case less
  obtain w1 where find: "do_find r w = (rcv_find r (w_finds w), w1)"
    and w: "w_finds w1 = w_finds w + 1" "w_calls w1 = w_calls w @ [ReadAt (w_time w)]" "w_time w \<le> w_time w1"
    by (simp add: do_find_def)
  show ?case
  proof (cases "finds_nothing r (w_finds w)")
    case False
    then obtain h where h: "rcv_find r (w_finds w) = Inr (Some h)" by (auto simp: finds_nothing_def)
    then have "read_back_loop r lost rb unread w = Some (Inr (h, Reconciled), w1)"
      by (subst read_back_loop.simps) (simp add: find)
    moreover have "read_back_post r lost (rb_made rb) (rb_until rb) unread w (Inr (h, Reconciled), w1)"
      using h w by (auto simp: read_back_post_def intro!: exI [of _ "[] :: nat list"])
    ultimately show ?thesis by blast
  next
    case True
    define unread' where "unread' = (case rcv_find r (w_finds w) of Inl failure \<Rightarrow> Some failure | Inr _ \<Rightarrow> unread)"
    obtain verdict rb' where s: "spent rb (clock_now w1) = (verdict, rb')" by (metis surj_pair)
    have unfold: "read_back_loop r lost rb unread w = (case verdict of
        Some wait \<Rightarrow> read_back_loop r lost rb' unread' (do_sleep r wait w1)
      | None \<Rightarrow> Some (Inl (Indeterminate lost unread'), w1))"
      using True by (subst read_back_loop.simps) (auto simp: finds_nothing_def find s Let_def unread'_def split: sum.splits option.splits)
    show ?thesis
    proof (cases verdict)
      case None
      then have "settle_scans \<le> min (rb_made rb + 1) 255" "rb_until rb \<le> clock_now w1"
        using s by (auto simp: spent_def Let_def split: if_splits)
      then have "read_back_post r lost (rb_made rb) (rb_until rb) unread w (Inl (Indeterminate lost unread'), w1)"
        using True w by (auto simp: read_back_post_def unread'_def intro!: exI [of _ "[] :: nat list"])
      then show ?thesis using unfold None by simp
    next
      case (Some wait)
      define w2 where "w2 = do_sleep r wait w1"
      note p = spent_progress(1-3) [OF s [unfolded Some] less.prems(1,2)] spent_progress(4) [OF s [unfolded Some] less.prems(1,2), of r, folded w2_def]
      have w2: "w_finds w2 = w_finds w + 1" "w_calls w2 = w_calls w @ [ReadAt (w_time w)]" using w by (simp_all add: w2_def do_sleep_def)
      have "clock_now w \<le> clock_now w1" by (rule clock_now_mono [OF w(3)])
      then have "(rb_until rb' - clock_now w2) + (settle_scans - rb_made rb') < (rb_until rb - clock_now w) + (settle_scans - rb_made rb)"
        using p(2,4) by linarith
      from less.hyps [OF this p(1), of unread'] obtain out where out: "read_back_loop r lost rb' unread' w2 = Some out"
          "read_back_post r lost (rb_made rb') (rb_until rb) unread' w2 out"
        using p(2) less.prems(2) by auto
      have "read_back_post r lost (rb_made rb) (rb_until rb) unread w out"
        by (rule read_back_post_earlier [OF out(2) w2(2,1) True p(3) unread'_def])
      then show ?thesis using unfold Some out(1) by (simp add: w2_def)
    qed
  qed
qed

section \<open>What opening once promises\<close>

text \<open>
  The calls made before the create, all of them reads: one read that itself lasted until the bound was over, or one read before
  the bound was over, which found nothing, and one that was begun when it was. \<open>k\<close> is the number of the last read and \<open>over\<close> the
  time it ended at.
\<close>

definition reads_first :: "('h, 'e) receiver \<Rightarrow> world \<Rightarrow> call list \<Rightarrow> nat \<Rightarrow> nat \<Rightarrow> bool" where
  "reads_first r w0 calls k over \<longleftrightarrow>
     (let due = dur_add (clock_now w0) (rcv_in_flight_bound r); b = w_finds w0 in
      calls = [ReadAt (w_time w0)] \<and> k = b \<and> over = w_time w0 + rcv_find_takes r b \<or>
      (\<exists>t. calls = [ReadAt (w_time w0), ReadAt t] \<and> k = b + 1 \<and> over = t + rcv_find_takes r (b + 1) \<and> rcv_find r b = Inr None \<and> due \<le> t))"

definition open_once_post :: "('h, 'e) receiver \<Rightarrow> world \<Rightarrow> ('e keyed_error + 'h \<times> settlement) \<times> world \<Rightarrow> bool" where
  "open_once_post r w0 = (\<lambda>(result, w).
     \<exists>before k over. reads_first r w0 before k over \<and>
      (case result of
         Inr (h, Found) \<Rightarrow> w_calls w = w_calls w0 @ before \<and> rcv_find r k = Inr (Some h)
       | Inl (Unread e) \<Rightarrow> w_calls w = w_calls w0 @ before \<and> rcv_find r k = Inl e
       | _ \<Rightarrow> rcv_find r k = Inr None \<and> dur_add (clock_now w0) (rcv_in_flight_bound r) \<le> over \<and>
           (\<exists>after. w_calls w = w_calls w0 @ before @ CreateAt over # map ReadAt after \<and>
             (\<forall>i < length after - 1. finds_nothing r (k + 1 + i)) \<and>
             (case result of
                Inr (h, Created) \<Rightarrow> rcv_create r = Inr h \<and> after = []
              | Inr (h, _) \<Rightarrow> \<exists>e. rcv_create r = Inl e \<and> rcv_create_failure r e = MayHaveLanded \<and> after \<noteq> [] \<and> rcv_find r (k + length after) = Inr (Some h)
              | Inl (Refused e) \<Rightarrow> rcv_create r = Inl e \<and> rcv_create_failure r e = NothingLanded \<and> after = []
              | Inl (Indeterminate e unread) \<Rightarrow> rcv_create r = Inl e \<and> rcv_create_failure r e = MayHaveLanded \<and>
                  settle_scans \<le> length after \<and> finds_nothing r (k + length after) \<and> unread = last_unread r (k + 1) (length after) None \<and>
                  dur_add over (rcv_in_flight_bound r) \<le> clock_now w
              | Inl (Unread e) \<Rightarrow> False))))"

lemma create_once_post:
  assumes first: "reads_first r w0 before k (w_time w)" and none: "rcv_find r k = Inr None"
    and ready: "dur_add (clock_now w0) (rcv_in_flight_bound r) \<le> w_time w"
    and calls: "w_calls w = w_calls w0 @ before" and finds: "w_finds w = k + 1"
  shows "\<exists>out. create_once r w = Some out \<and> open_once_post r w0 out"
proof -
  obtain w1 where create: "do_create r w = (rcv_create r, w1)"
    and w1: "w_calls w1 = w_calls w0 @ before @ [CreateAt (w_time w)]" "w_finds w1 = k + 1"
    using calls finds by (simp add: do_create_def)
  show ?thesis
  proof (cases "rcv_create r")
    case (Inr h)
    have "open_once_post r w0 (Inr (h, Created), w1)"
      unfolding open_once_post_def prod.case
      by (rule exI [of _ before], rule exI [of _ k], rule exI [of _ "w_time w"]) (use first none ready w1 Inr in simp)
    then show ?thesis using create Inr by (simp add: create_once_def Let_def)
  next
    case (Inl e)
    show ?thesis
    proof (cases "rcv_create_failure r e")
      case NothingLanded
      have "open_once_post r w0 (Inl (Refused e), w1)"
        unfolding open_once_post_def prod.case
        by (rule exI [of _ before], rule exI [of _ k], rule exI [of _ "w_time w"]) (use first none ready w1 Inl NothingLanded in simp)
      then show ?thesis using create Inl NothingLanded by (simp add: create_once_def Let_def)
    next
      case MayHaveLanded
      let ?until = "dur_add (clock_now w) (rcv_in_flight_bound r)"
      let ?rb = "\<lparr>rb_next = first_settle_delay, rb_made = 0, rb_until = ?until\<rparr>"
      have "\<exists>out. read_back_loop r e ?rb None w1 = Some out \<and> read_back_post r e (rb_made ?rb) (rb_until ?rb) None w1 out"
        by (rule read_back_loop_returns) (simp_all add: first_settle_delay_def dur_millis_def dur_add_def)
      then obtain result w2 where out: "read_back_loop r e ?rb None w1 = Some (result, w2)" "read_back_post r e 0 ?until None w1 (result, w2)"
        by auto
      then obtain ts t where ts: "w_calls w2 = w_calls w1 @ map ReadAt ts @ [ReadAt t]" "\<forall>i < length ts. finds_nothing r (k + 1 + i)"
          "case result of
            Inr (h, how) \<Rightarrow> how = Reconciled \<and> rcv_find r (k + 1 + length ts) = Inr (Some h)
          | Inl (Indeterminate e' u) \<Rightarrow> e' = e \<and> finds_nothing r (k + 1 + length ts) \<and> settle_scans \<le> 0 + length ts + 1 \<and>
              ?until \<le> clock_now w2 \<and> u = last_unread r (k + 1) (length ts + 1) None
          | Inl _ \<Rightarrow> False"
        unfolding read_back_post_def prod.case w1(2) by blast
      have until: "?until = dur_add (w_time w) (rcv_in_flight_bound r)" by (simp add: dur_add_def clock_now_def)
      have "open_once_post r w0 (result, w2)"
        unfolding open_once_post_def prod.case
        by (rule exI [of _ before], rule exI [of _ k], rule exI [of _ "w_time w"])
          (use first none ready w1(1) Inl MayHaveLanded ts in
            \<open>auto simp: until intro!: exI [of _ "ts @ [t]"] split: sum.splits keyed_error.splits settlement.splits\<close>)
      then show ?thesis using Inl MayHaveLanded create out(1) by (simp add: create_once_def Let_def)
    qed
  qed
qed

text \<open>
  C34: Opening once always returns and creates at most once. It reads before it creates: the create is made the moment a read has found
  nothing, when the in-flight bound has passed since the opening began, and that read either lasted past the bound or was a second
  one, begun after the bound, behind a first that found nothing. A read that finds the effect or fails ends the opening
  there. A create that may have landed is followed by reads until one finds the effect, which is then answered as
  reconciled; it is indeterminate only after at least eight reads that all did not find it, with the bound passed since the
  create, and reports the last read that failed.
\<close>

theorem open_once_creates_once: "\<exists>out. open_once r w = Some out \<and> open_once_post r w out"
proof -
  let ?due = "dur_add (clock_now w) (rcv_in_flight_bound r)" and ?b = "w_finds w"
  obtain w1 where find: "do_find r w = (rcv_find r ?b, w1)"
    and w1: "w_finds w1 = ?b + 1" "w_calls w1 = w_calls w @ [ReadAt (w_time w)]" "w_time w1 = w_time w + rcv_find_takes r ?b"
    by (rule that [of "snd (do_find r w)"]) (simp_all add: do_find_def)
  have first: "reads_first r w [ReadAt (w_time w)] ?b (w_time w1)" by (simp add: reads_first_def w1)
  consider (failed) e where "rcv_find r ?b = Inl e" | (found) h where "rcv_find r ?b = Inr (Some h)" | (absent) "rcv_find r ?b = Inr None"
    by (metis not_None_eq sum.exhaust)
  then show ?thesis
  proof cases
    case (failed e)
    then have "open_once r w = Some (Inl (Unread e), w1)" using find by (simp add: open_once_def Let_def)
    moreover have "open_once_post r w (Inl (Unread e), w1)"
      unfolding open_once_post_def prod.case
      by (rule exI [of _ "[ReadAt (w_time w)]"], rule exI [of _ ?b], rule exI [of _ "w_time w1"]) (use first failed w1 in simp)
    ultimately show ?thesis by blast
  next
    case (found h)
    then have "open_once r w = Some (Inr (h, Found), w1)" using find by (simp add: open_once_def Let_def)
    moreover have "open_once_post r w (Inr (h, Found), w1)"
      unfolding open_once_post_def prod.case
      by (rule exI [of _ "[ReadAt (w_time w)]"], rule exI [of _ ?b], rule exI [of _ "w_time w1"]) (use first found w1 in simp)
    ultimately show ?thesis by blast
  next
    case absent
    let ?fence = "?due - clock_now w1"
    have now: "clock_now w1 \<le> w_time w1" by (simp add: clock_now_def)
    show ?thesis
    proof (cases "?fence = 0")
      case True
      then have "?due \<le> w_time w1" using now by simp
      moreover have "open_once r w = create_once r w1" using find absent True by (simp add: open_once_def Let_def)
      ultimately show ?thesis using create_once_post [OF first absent _ w1(2,1)] by simp
    next
      case False
      define w2 where "w2 = do_sleep r ?fence w1"
      have w2: "w_finds w2 = ?b + 1" "w_calls w2 = w_calls w @ [ReadAt (w_time w)]" "?due \<le> w_time w2"
        using w1 now by (simp_all add: w2_def do_sleep_def)
      obtain w3 where find3: "do_find r w2 = (rcv_find r (?b + 1), w3)"
        and w3: "w_finds w3 = ?b + 1 + 1" "w_calls w3 = w_calls w @ [ReadAt (w_time w), ReadAt (w_time w2)]" "w_time w3 = w_time w2 + rcv_find_takes r (?b + 1)"
        by (rule that [of "snd (do_find r w2)"]) (use w2 in \<open>simp_all add: do_find_def\<close>)
      have second: "reads_first r w [ReadAt (w_time w), ReadAt (w_time w2)] (?b + 1) (w_time w3)"
        using absent w2(3) w3(3) by (simp add: reads_first_def Let_def)
      have unfold: "open_once r w = (case rcv_find r (?b + 1) of Inl failure \<Rightarrow> Some (Inl (Unread failure), w3)
          | Inr (Some found) \<Rightarrow> Some (Inr (found, Found), w3) | Inr None \<Rightarrow> create_once r w3)"
        using find absent False find3 by (simp add: open_once_def Let_def w2_def split: sum.split option.split)
      consider (failed) e where "rcv_find r (?b + 1) = Inl e" | (found) h where "rcv_find r (?b + 1) = Inr (Some h)" | (absent) "rcv_find r (?b + 1) = Inr None"
        by (metis not_None_eq sum.exhaust)
      then show ?thesis
      proof cases
        case (failed e)
        have "open_once_post r w (Inl (Unread e), w3)"
          unfolding open_once_post_def prod.case
          by (rule exI [of _ "[ReadAt (w_time w), ReadAt (w_time w2)]"], rule exI [of _ "?b + 1"], rule exI [of _ "w_time w3"]) (use second failed w3 in simp)
        then show ?thesis using unfold failed by simp
      next
        case (found h)
        have "open_once_post r w (Inr (h, Found), w3)"
          unfolding open_once_post_def prod.case
          by (rule exI [of _ "[ReadAt (w_time w), ReadAt (w_time w2)]"], rule exI [of _ "?b + 1"], rule exI [of _ "w_time w3"]) (use second found w3 in simp)
        then show ?thesis using unfold found by simp
      next
        case absent
        have "?due \<le> w_time w3" using w2(3) w3(3) by simp
        then show ?thesis using unfold absent create_once_post [OF second absent _ w3(2,1)] by simp
      qed
    qed
  qed
qed

end
