(* ===== verification/Frontier.thy ===== *)
theory Frontier
  imports Prelude "HOL-Library.List_Lexorder" "HOL-Library.Product_Lexorder"
begin

text \<open>
  \<open>crates/lgwks-bot/src/frontier.rs\<close> with \<open>frontier/policy.rs\<close> and \<open>frontier/vocab.rs\<close>: which host may
  be asked now. Names are their UTF-8 bytes, a \<open>BTreeMap\<close> that is only looked up is a map, and the
  resolutions, which are also walked in order, are an association list sorted by name. The pointer that
  identifies a frontier is a number.
\<close>

section \<open>Vocabulary\<close>

datatype constraint_key = KeyHost bytes | KeyOrigin bytes | KeyEgress bytes

datatype resolved = ResolvedOrigin bytes | ResolvedFailed | ResolvedDoesNotExist

datatype rules_state = NotFetched | Allowed | Disallowed bytes | NoRules | Unreachable duration

definition rules_effective :: "rules_state \<Rightarrow> duration \<Rightarrow> duration \<Rightarrow> rules_state" where
  "rules_effective r at_time grace =
     (case r of Unreachable since \<Rightarrow> if at_time - since \<ge> grace then NoRules else r | _ \<Rightarrow> r)"

datatype deferral_kind = RetryAfter | RateLimited | OriginPolicyUnreachable | RulesNotFetched | OriginUnmapped | ResolutionFailed

definition needs_prerequisite :: "deferral_kind \<Rightarrow> bool" where
  "needs_prerequisite k \<longleftrightarrow> k \<in> {OriginUnmapped, ResolutionFailed, RulesNotFetched, OriginPolicyUnreachable}"

datatype reject_kind = RejectDisallowed bytes | RejectDoesNotExist | RejectExhausted

datatype fetch_outcome = FetchSuccess | CacheHit | FetchFailure

datatype completion_error = ForeignPermit | UnknownPermit

datatype politeness_error =
    ZeroWindow
  | InvertedWindow nat nat
  | InvalidEgressWindow nat nat
  | InvalidDecreasePercent nat

text \<open>The derived orders: by constructor in the order written, then by the field.\<close>

definition key_code :: "constraint_key \<Rightarrow> nat \<times> bytes" where
  "key_code k = (case k of KeyHost b \<Rightarrow> (0, b) | KeyOrigin b \<Rightarrow> (1, b) | KeyEgress b \<Rightarrow> (2, b))"

definition kind_code :: "deferral_kind \<Rightarrow> nat" where
  "kind_code k = (case k of RetryAfter \<Rightarrow> 0 | RateLimited \<Rightarrow> 1 | OriginPolicyUnreachable \<Rightarrow> 2 | RulesNotFetched \<Rightarrow> 3
     | OriginUnmapped \<Rightarrow> 4 | ResolutionFailed \<Rightarrow> 5)"

lemma key_code_inject: "key_code k = key_code k' \<Longrightarrow> k = k'"
  by (cases k; cases k') (simp_all add: key_code_def)

lemma kind_code_inject: "kind_code k = kind_code k' \<Longrightarrow> k = k'"
  by (cases k; cases k') (simp_all add: kind_code_def)

instantiation constraint_key :: linorder
begin

definition less_eq_constraint_key :: "constraint_key \<Rightarrow> constraint_key \<Rightarrow> bool" where
  "less_eq_constraint_key k k' \<longleftrightarrow> key_code k \<le> key_code k'"

definition less_constraint_key :: "constraint_key \<Rightarrow> constraint_key \<Rightarrow> bool" where
  "less_constraint_key k k' \<longleftrightarrow> key_code k < key_code k'"

instance
  by standard (auto simp: less_eq_constraint_key_def less_constraint_key_def intro: key_code_inject)

end

instantiation deferral_kind :: linorder
begin

definition less_eq_deferral_kind :: "deferral_kind \<Rightarrow> deferral_kind \<Rightarrow> bool" where
  "less_eq_deferral_kind k k' \<longleftrightarrow> kind_code k \<le> kind_code k'"

definition less_deferral_kind :: "deferral_kind \<Rightarrow> deferral_kind \<Rightarrow> bool" where
  "less_deferral_kind k k' \<longleftrightarrow> kind_code k < kind_code k'"

instance
  by standard (auto simp: less_eq_deferral_kind_def less_deferral_kind_def intro: kind_code_inject)

end

section \<open>Policy\<close>

record politeness =
  po_min_window :: nat
  po_max_window :: nat
  po_egress_window :: nat
  po_increase_after :: nat
  po_decrease_percent :: nat
  po_unreachable_grace :: duration
  po_retry_after_failure :: duration

definition politeness_default :: politeness where
  "politeness_default = \<lparr>po_min_window = 1, po_max_window = 4, po_egress_window = 4, po_increase_after = 8,
     po_decrease_percent = 70, po_unreachable_grace = dur_secs 2592000, po_retry_after_failure = dur_secs 60\<rparr>"

definition politeness_new :: "nat \<Rightarrow> nat \<Rightarrow> nat \<Rightarrow> nat \<Rightarrow> nat \<Rightarrow> politeness_error + politeness" where
  "politeness_new min_window max_window egress_window increase_after decrease_percent =
     (if min_window = 0 then Inl ZeroWindow
      else if min_window > max_window then Inl (InvertedWindow min_window max_window)
      else if egress_window = 0 \<or> egress_window > max_window then Inl (InvalidEgressWindow egress_window max_window)
      else if decrease_percent = 0 \<or> decrease_percent > 100 then Inl (InvalidDecreasePercent decrease_percent)
      else Inr (politeness_default\<lparr>po_min_window := min_window, po_max_window := max_window, po_egress_window := egress_window,
             po_increase_after := increase_after, po_decrease_percent := decrease_percent\<rparr>))"

definition clamp :: "nat \<Rightarrow> nat \<Rightarrow> nat \<Rightarrow> nat" where
  "clamp x lo hi = (if x < lo then lo else if x > hi then hi else x)"

definition window_decrease :: "politeness \<Rightarrow> nat \<Rightarrow> nat" where
  "window_decrease p window = clamp (sat_mul_u32 window (po_decrease_percent p) div 100) (po_min_window p) (po_max_window p)"

definition window_increase :: "politeness \<Rightarrow> nat \<Rightarrow> nat" where
  "window_increase p window = clamp (sat_add_u32 window 1) (po_min_window p) (po_max_window p)"

section \<open>The frontier\<close>

record permit =
  pm_issuer :: nat
  pm_ordinal :: nat
  pm_host :: bytes
  pm_origin :: "constraint_key option"
  pm_egress :: constraint_key

definition permit_keys :: "permit \<Rightarrow> constraint_key list" where
  "permit_keys p = [KeyHost (pm_host p)] @ (case pm_origin p of None \<Rightarrow> [] | Some k \<Rightarrow> [k]) @ [pm_egress p]"

definition server_keys :: "permit \<Rightarrow> constraint_key list" where
  "server_keys p = [KeyHost (pm_host p)] @ (case pm_origin p of None \<Rightarrow> [] | Some k \<Rightarrow> [k])"

datatype admit_verdict = VAdmit | VDefer duration deferral_kind constraint_key | VReject reject_kind

datatype admission = Admit permit | Defer duration deferral_kind constraint_key | Reject reject_kind

definition verdict_refusal :: "admit_verdict \<Rightarrow> admission option" where
  "verdict_refusal v = (case v of VAdmit \<Rightarrow> None | VDefer t k c \<Rightarrow> Some (Defer t k c) | VReject k \<Rightarrow> Some (Reject k))"

record key_state =
  ks_window :: nat
  ks_in_flight :: nat
  ks_successes :: nat
  ks_blocked_until :: duration
  ks_rules :: rules_state

definition deferral_order :: "admit_verdict \<Rightarrow> (duration \<times> deferral_kind \<times> constraint_key) option" where
  "deferral_order v = (case v of VDefer t k c \<Rightarrow> Some (t, k, c) | _ \<Rightarrow> None)"

definition later :: "admit_verdict option \<Rightarrow> admit_verdict \<Rightarrow> admit_verdict" where
  "later current candidate = (case current of None \<Rightarrow> candidate
     | Some current \<Rightarrow>
         let take_candidate = (case (deferral_order current, deferral_order candidate) of
               (Some held, Some offered) \<Rightarrow> offered > held
             | (None, Some _) \<Rightarrow> True
             | _ \<Rightarrow> False)
         in if take_candidate then candidate else current)"

record frontier =
  fr_policy :: politeness
  fr_egress :: constraint_key
  fr_resolutions :: "(bytes \<times> resolved) list"
  fr_constraints :: "bytes \<Rightarrow> constraint_key option"
  fr_state :: "constraint_key \<Rightarrow> key_state option"
  fr_abandons :: "bytes set"
  fr_issuer :: nat
  fr_reservations :: "nat set"
  fr_next_ordinal :: nat

definition fresh_entry :: "frontier \<Rightarrow> key_state" where
  "fresh_entry f = \<lparr>ks_window = po_min_window (fr_policy f), ks_in_flight = 0, ks_successes = 0, ks_blocked_until = 0, ks_rules = NotFetched\<rparr>"

text \<open>\<open>entry(key)\<close>, changed by \<open>g\<close>: the default is inserted first.\<close>

definition with_entry :: "constraint_key \<Rightarrow> (key_state \<Rightarrow> key_state) \<Rightarrow> frontier \<Rightarrow> frontier" where
  "with_entry key g f = f\<lparr>fr_state := (fr_state f)(key \<mapsto> g (case fr_state f key of Some e \<Rightarrow> e | None \<Rightarrow> fresh_entry f))\<rparr>"

definition frontier_new :: "nat \<Rightarrow> politeness \<Rightarrow> bytes \<Rightarrow> frontier" where
  "frontier_new issuer p egress =
     with_entry (KeyEgress egress) (\<lambda>e. e\<lparr>ks_window := po_egress_window p\<rparr>)
       \<lparr>fr_policy = p, fr_egress = KeyEgress egress, fr_resolutions = [], fr_constraints = (\<lambda>_. None), fr_state = (\<lambda>_. None),
        fr_abandons = {}, fr_issuer = issuer, fr_reservations = {}, fr_next_ordinal = 1\<rparr>"

definition in_flight :: "frontier \<Rightarrow> constraint_key \<Rightarrow> nat" where
  "in_flight f key = (case fr_state f key of Some e \<Rightarrow> ks_in_flight e | None \<Rightarrow> 0)"

definition frontier_window :: "frontier \<Rightarrow> constraint_key \<Rightarrow> nat" where
  "frontier_window f key = (case fr_state f key of Some e \<Rightarrow> ks_window e | None \<Rightarrow> po_min_window (fr_policy f))"

definition frontier_rules :: "frontier \<Rightarrow> constraint_key \<Rightarrow> rules_state" where
  "frontier_rules f key = (case fr_state f key of Some e \<Rightarrow> ks_rules e | None \<Rightarrow> NotFetched)"

definition outstanding_permits :: "frontier \<Rightarrow> nat" where
  "outstanding_permits f = card (fr_reservations f)"

fun resolution_insert :: "bytes \<Rightarrow> resolved \<Rightarrow> (bytes \<times> resolved) list \<Rightarrow> (bytes \<times> resolved) list" where
  "resolution_insert host r [] = [(host, r)]"
| "resolution_insert host r ((h, x) # rs) =
     (if host < h then (host, r) # (h, x) # rs else if host = h then (host, r) # rs else (h, x) # resolution_insert host r rs)"

definition observe_resolution :: "bytes \<Rightarrow> resolved \<Rightarrow> frontier \<Rightarrow> frontier" where
  "observe_resolution host r f =
     (let f = f\<lparr>fr_constraints := (case r of ResolvedOrigin origin \<Rightarrow> (fr_constraints f)(host \<mapsto> KeyOrigin origin)
                | _ \<Rightarrow> (fr_constraints f)(host := None))\<rparr>
      in f\<lparr>fr_resolutions := resolution_insert host r (fr_resolutions f)\<rparr>)"

definition observe_rules :: "constraint_key \<Rightarrow> rules_state \<Rightarrow> frontier \<Rightarrow> frontier" where
  "observe_rules key rules f = with_entry key (\<lambda>e. e\<lparr>ks_rules := rules\<rparr>) f"

definition frontier_verify :: "frontier \<Rightarrow> permit \<Rightarrow> completion_error + unit" where
  "frontier_verify f p =
     (if pm_issuer p \<noteq> fr_issuer f then Inl ForeignPermit
      else if pm_ordinal p \<notin> fr_reservations f then Inl UnknownPermit
      else Inr ())"

definition observe_retry_after :: "permit \<Rightarrow> duration \<Rightarrow> duration \<Rightarrow> frontier \<Rightarrow> (completion_error + unit) \<times> frontier" where
  "observe_retry_after p at_time delay f =
     (case frontier_verify f p of
        Inl e \<Rightarrow> (Inl e, f)
      | Inr _ \<Rightarrow>
          let until = dur_add at_time delay in
          (Inr (), fold (\<lambda>key. with_entry key (\<lambda>e. if ks_blocked_until e < until then e\<lparr>ks_blocked_until := until\<rparr> else e)) (server_keys p) f))"

definition keys_for :: "frontier \<Rightarrow> bytes \<Rightarrow> constraint_key list" where
  "keys_for f host = [KeyHost host] @ (case fr_constraints f host of None \<Rightarrow> [] | Some k \<Rightarrow> [k]) @ [fr_egress f]"

definition effective_rules :: "frontier \<Rightarrow> constraint_key \<Rightarrow> duration \<Rightarrow> rules_state" where
  "effective_rules f key at_time =
     (case fr_state f key of Some e \<Rightarrow> rules_effective (ks_rules e) at_time (po_unreachable_grace (fr_policy f)) | None \<Rightarrow> NotFetched)"

definition promote_rules :: "constraint_key \<Rightarrow> duration \<Rightarrow> frontier \<Rightarrow> frontier" where
  "promote_rules key at_time f =
     with_entry key (\<lambda>e. let promoted = rules_effective (ks_rules e) at_time (po_unreachable_grace (fr_policy f))
                        in if promoted \<noteq> ks_rules e then e\<lparr>ks_rules := promoted\<rparr> else e) f"

definition saturated :: "frontier \<Rightarrow> constraint_key \<Rightarrow> duration \<Rightarrow> admit_verdict option" where
  "saturated f key at_time =
     (case fr_state f key of
        None \<Rightarrow> None
      | Some e \<Rightarrow> if ks_blocked_until e > at_time then Some (VDefer (ks_blocked_until e) RateLimited key)
                  else if ks_in_flight e \<ge> ks_window e then Some (VDefer at_time RateLimited key)
                  else None)"

definition decide :: "frontier \<Rightarrow> bytes \<Rightarrow> duration \<Rightarrow> admit_verdict" where
  "decide f host at_time =
     (if host \<in> fr_abandons f then VReject RejectDoesNotExist
      else case map_of (fr_resolutions f) host of
        None \<Rightarrow> VDefer at_time OriginUnmapped (KeyHost host)
      | Some ResolvedFailed \<Rightarrow> VDefer (dur_add at_time (po_retry_after_failure (fr_policy f))) ResolutionFailed (KeyHost host)
      | Some ResolvedDoesNotExist \<Rightarrow> VReject RejectDoesNotExist
      | Some (ResolvedOrigin _) \<Rightarrow>
          (let binding = fold (\<lambda>key binding. case saturated f key at_time of Some wait \<Rightarrow> Some (later binding wait) | None \<Rightarrow> binding)
                 (keys_for f host) None;
               waits = (case binding of Some v \<Rightarrow> v | None \<Rightarrow> VAdmit)
           in case effective_rules f (KeyHost host) at_time of
                Allowed \<Rightarrow> waits
              | NoRules \<Rightarrow> waits
              | Disallowed rule \<Rightarrow> VReject (RejectDisallowed rule)
              | NotFetched \<Rightarrow> VDefer at_time RulesNotFetched (KeyHost host)
              | Unreachable _ \<Rightarrow> VDefer (dur_add at_time (po_retry_after_failure (fr_policy f))) OriginPolicyUnreachable (KeyHost host)))"

definition reserve :: "bytes \<Rightarrow> duration \<Rightarrow> frontier \<Rightarrow> admission \<times> frontier" where
  "reserve host at_time f =
     (let ordinal = fr_next_ordinal f in
      if ordinal + 1 > u64_max then (Reject RejectExhausted, f)
      else
        let f = promote_rules (KeyHost host) at_time f;
            f = fold (\<lambda>key. with_entry key (\<lambda>e. e\<lparr>ks_in_flight := sat_add_u32 (ks_in_flight e) 1\<rparr>)) (keys_for f host) f;
            f = f\<lparr>fr_next_ordinal := ordinal + 1, fr_reservations := insert ordinal (fr_reservations f)\<rparr>
        in (Admit \<lparr>pm_issuer = fr_issuer f, pm_ordinal = ordinal, pm_host = host, pm_origin = fr_constraints f host, pm_egress = fr_egress f\<rparr>, f))"

definition admit :: "bytes \<Rightarrow> duration \<Rightarrow> frontier \<Rightarrow> admission \<times> frontier" where
  "admit host at_time f = (case verdict_refusal (decide f host at_time) of Some refused \<Rightarrow> (refused, f) | None \<Rightarrow> reserve host at_time f)"

definition settle_outcome :: "politeness \<Rightarrow> fetch_outcome \<Rightarrow> key_state \<Rightarrow> key_state" where
  "settle_outcome p outcome e =
     (case outcome of
        FetchSuccess \<Rightarrow>
          (let e = e\<lparr>ks_successes := sat_add_u32 (ks_successes e) 1\<rparr> in
           if ks_successes e \<ge> po_increase_after p then e\<lparr>ks_successes := 0, ks_window := window_increase p (ks_window e)\<rparr> else e)
      | CacheHit \<Rightarrow> e
      | FetchFailure \<Rightarrow> e\<lparr>ks_successes := 0, ks_window := window_decrease p (ks_window e)\<rparr>)"

definition complete :: "permit \<Rightarrow> fetch_outcome \<Rightarrow> frontier \<Rightarrow> (completion_error + unit) \<times> frontier" where
  "complete p outcome f =
     (case frontier_verify f p of
        Inl e \<Rightarrow> (Inl e, f)
      | Inr _ \<Rightarrow>
          let f = f\<lparr>fr_reservations := fr_reservations f - {pm_ordinal p}\<rparr>;
              f = fold (\<lambda>key. with_entry key (\<lambda>e. e\<lparr>ks_in_flight := ks_in_flight e - 1\<rparr>)) (permit_keys p) f;
              f = fold (\<lambda>key. with_entry key (settle_outcome (fr_policy f) outcome)) (server_keys p) f
          in (Inr (), f))"

definition abandon_host :: "bytes \<Rightarrow> frontier \<Rightarrow> frontier" where
  "abandon_host host f = f\<lparr>fr_abandons := insert host (fr_abandons f)\<rparr>"

definition next_admissible :: "frontier \<Rightarrow> duration \<Rightarrow> bytes option" where
  "next_admissible f at_time = find (\<lambda>host. decide f host at_time = VAdmit) (map fst (fr_resolutions f))"

fun find_prerequisite :: "frontier \<Rightarrow> duration \<Rightarrow> bytes list \<Rightarrow> (bytes \<times> deferral_kind) option" where
  "find_prerequisite f at_time [] = None"
| "find_prerequisite f at_time (host # hosts) =
     (case decide f host at_time of
        VDefer _ kind _ \<Rightarrow> if needs_prerequisite kind then Some (host, kind) else find_prerequisite f at_time hosts
      | _ \<Rightarrow> find_prerequisite f at_time hosts)"

definition next_prerequisite :: "frontier \<Rightarrow> duration \<Rightarrow> (bytes \<times> deferral_kind) option" where
  "next_prerequisite f at_time = find_prerequisite f at_time (map fst (fr_resolutions f))"

section \<open>Entries\<close>

definition entry_of :: "frontier \<Rightarrow> constraint_key \<Rightarrow> key_state" where
  "entry_of f k = (case fr_state f k of Some e \<Rightarrow> e | None \<Rightarrow> fresh_entry f)"

text \<open>Everything but the entries.\<close>

definition same_rest :: "frontier \<Rightarrow> frontier \<Rightarrow> bool" where
  "same_rest f f' \<longleftrightarrow> fr_policy f' = fr_policy f \<and> fr_egress f' = fr_egress f \<and> fr_resolutions f' = fr_resolutions f \<and>
     fr_constraints f' = fr_constraints f \<and> fr_abandons f' = fr_abandons f \<and> fr_issuer f' = fr_issuer f \<and>
     fr_reservations f' = fr_reservations f \<and> fr_next_ordinal f' = fr_next_ordinal f"

lemma with_entry_rest [simp]: "same_rest f (with_entry key g f)"
  by (simp add: same_rest_def with_entry_def)

lemma entry_with_entry [simp]: "entry_of (with_entry key g f) k = (if k = key then g (entry_of f k) else entry_of f k)"
  by (simp add: entry_of_def with_entry_def fresh_entry_def split: option.split)

lemma same_rest_trans: "same_rest f g \<Longrightarrow> same_rest g h \<Longrightarrow> same_rest f h"
  by (simp add: same_rest_def)

lemma fold_entries:
  "distinct keys \<Longrightarrow> entry_of (fold (\<lambda>key. with_entry key g) keys f) k = (if k \<in> set keys then g (entry_of f k) else entry_of f k)"
  by (induction keys arbitrary: f) auto

lemma fold_entries_rest: "same_rest f (fold (\<lambda>key. with_entry key g) keys f)"
proof (induction keys arbitrary: f)
  case (Cons key keys)
  then show ?case using same_rest_trans [OF with_entry_rest [of f key g]] by simp
qed (simp add: same_rest_def)

lemma entry_of_upd [simp]:
  "entry_of (f\<lparr>fr_next_ordinal := n\<rparr>) k = entry_of f k" "entry_of (f\<lparr>fr_reservations := s\<rparr>) k = entry_of f k"
  "entry_of (f\<lparr>fr_abandons := b\<rparr>) k = entry_of f k" "entry_of (f\<lparr>fr_constraints := c\<rparr>) k = entry_of f k"
  "entry_of (f\<lparr>fr_resolutions := rs\<rparr>) k = entry_of f k"
  by (simp_all add: entry_of_def fresh_entry_def split: option.split)

lemma in_flight_entry: "in_flight f k = ks_in_flight (entry_of f k)"
  by (simp add: in_flight_def entry_of_def fresh_entry_def split: option.split)

lemma window_entry: "frontier_window f k = ks_window (entry_of f k)"
  by (simp add: frontier_window_def entry_of_def fresh_entry_def split: option.split)

section \<open>Deciding\<close>

definition is_defer :: "admit_verdict \<Rightarrow> bool" where
  "is_defer v = (case v of VDefer _ _ _ \<Rightarrow> True | _ \<Rightarrow> False)"

lemma later_defer: "is_defer w \<Longrightarrow> (\<forall>v. b = Some v \<longrightarrow> is_defer v) \<Longrightarrow> is_defer (later b w)"
  by (auto simp: later_def Let_def split: option.splits)

lemma saturated_defer: "saturated f k t = Some w \<Longrightarrow> is_defer w"
  by (auto simp: saturated_def is_defer_def split: option.splits if_splits)

lemma binding_fold:
  assumes "\<forall>v. b = Some v \<longrightarrow> is_defer v"
  shows "\<forall>v. fold (\<lambda>key binding. case saturated f key t of Some wait \<Rightarrow> Some (later binding wait) | None \<Rightarrow> binding) keys b = Some v \<longrightarrow> is_defer v"
    and "fold (\<lambda>key binding. case saturated f key t of Some wait \<Rightarrow> Some (later binding wait) | None \<Rightarrow> binding) keys b = None \<longleftrightarrow>
      b = None \<and> (\<forall>k \<in> set keys. saturated f k t = None)"
  using assms
proof (induction keys arbitrary: b)
  case (Cons key keys)
  {
    case 1
    have "\<forall>v. (case saturated f key t of Some wait \<Rightarrow> Some (later b wait) | None \<Rightarrow> b) = Some v \<longrightarrow> is_defer v"
      using 1 later_defer saturated_defer by (auto split: option.splits)
    then show ?case using Cons.IH(1) by simp
  next
    case 2
    have "\<forall>v. (case saturated f key t of Some wait \<Rightarrow> Some (later b wait) | None \<Rightarrow> b) = Some v \<longrightarrow> is_defer v"
      using 2 later_defer saturated_defer by (auto split: option.splits)
    then show ?case using Cons.IH(2) by (auto split: option.splits)
  }
qed auto

lemma decide_admit_iff:
  "decide f host t = VAdmit \<longleftrightarrow> host \<notin> fr_abandons f \<and> (\<exists>origin. map_of (fr_resolutions f) host = Some (ResolvedOrigin origin)) \<and>
     effective_rules f (KeyHost host) t \<in> {Allowed, NoRules} \<and> (\<forall>k \<in> set (keys_for f host). saturated f k t = None)"
proof -
  let ?b = "fold (\<lambda>key binding. case saturated f key t of Some wait \<Rightarrow> Some (later binding wait) | None \<Rightarrow> binding) (keys_for f host) None"
  have none: "?b = None \<longleftrightarrow> (\<forall>k \<in> set (keys_for f host). saturated f k t = None)" using binding_fold(2) [of None] by simp
  have waits: "(case ?b of Some v \<Rightarrow> v | None \<Rightarrow> VAdmit) = VAdmit \<longleftrightarrow> ?b = None"
    using binding_fold(1) [of None f t "keys_for f host"] by (auto simp: is_defer_def split: option.splits)
  show ?thesis
    unfolding decide_def Let_def waits [symmetric] none [symmetric]
    by (auto split: option.splits resolved.splits rules_state.splits)
qed

lemma refusal_None: "verdict_refusal v = None \<longleftrightarrow> v = VAdmit"
  by (cases v) (simp_all add: verdict_refusal_def)

lemma not_saturated:
  "0 < po_min_window (fr_policy f) \<Longrightarrow> saturated f k t = None \<Longrightarrow> ks_in_flight (entry_of f k) < ks_window (entry_of f k) \<and> ks_blocked_until (entry_of f k) \<le> t"
  by (auto simp: saturated_def entry_of_def fresh_entry_def split: option.splits if_splits)

section \<open>Permits and the windows\<close>

definition politeness_ok :: "politeness \<Rightarrow> bool" where
  "politeness_ok p \<longleftrightarrow> 0 < po_min_window p \<and> po_min_window p \<le> po_max_window p \<and> po_max_window p \<le> u32_max \<and>
     0 < po_egress_window p \<and> po_egress_window p \<le> po_max_window p"

definition held_by :: "permit list \<Rightarrow> constraint_key \<Rightarrow> nat" where
  "held_by live k = length (filter (\<lambda>p. k \<in> set (permit_keys p)) live)"

definition key_cap :: "frontier \<Rightarrow> constraint_key \<Rightarrow> nat" where
  "key_cap f k = (if k = fr_egress f then po_egress_window (fr_policy f) else po_max_window (fr_policy f))"

definition permit_ok :: "frontier \<Rightarrow> permit \<Rightarrow> bool" where
  "permit_ok f p \<longleftrightarrow> pm_issuer p = fr_issuer f \<and> pm_egress p = fr_egress f \<and> pm_ordinal p < fr_next_ordinal f \<and>
     (\<forall>k. pm_origin p = Some k \<longrightarrow> (\<exists>origin. k = KeyOrigin origin))"

definition frontier_inv :: "frontier \<Rightarrow> permit list \<Rightarrow> bool" where
  "frontier_inv f live \<longleftrightarrow> politeness_ok (fr_policy f) \<and> (\<exists>name. fr_egress f = KeyEgress name) \<and>
     (\<forall>host k. fr_constraints f host = Some k \<longrightarrow> (\<exists>origin. k = KeyOrigin origin)) \<and>
     (\<forall>p \<in> set live. permit_ok f p) \<and> distinct (map pm_ordinal live) \<and> fr_reservations f = set (map pm_ordinal live) \<and>
     (\<forall>k. ks_in_flight (entry_of f k) = held_by live k) \<and>
     (\<forall>k. ks_in_flight (entry_of f k) \<le> key_cap f k) \<and>
     (\<forall>k. ks_window (entry_of f k) \<le> key_cap f k)"

lemma frontier_invD:
  assumes "frontier_inv f live"
  shows "politeness_ok (fr_policy f)" "\<exists>name. fr_egress f = KeyEgress name"
    "fr_constraints f host = Some k \<Longrightarrow> \<exists>origin. k = KeyOrigin origin"
    "p \<in> set live \<Longrightarrow> permit_ok f p" "distinct (map pm_ordinal live)" "fr_reservations f = set (map pm_ordinal live)"
    "ks_in_flight (entry_of f k) = held_by live k" "ks_in_flight (entry_of f k) \<le> key_cap f k" "ks_window (entry_of f k) \<le> key_cap f k"
  using assms unfolding frontier_inv_def by blast+

text \<open>The keys of a permit are different.\<close>

lemma permit_keys_distinct: "frontier_inv f live \<Longrightarrow> permit_ok f p \<Longrightarrow> distinct (permit_keys p)"
  using frontier_invD(2) [of f live] by (auto simp: permit_keys_def permit_ok_def split: option.split)

lemma keys_for_distinct: "frontier_inv f live \<Longrightarrow> distinct (keys_for f host)"
  using frontier_invD(2,3) [of f live] by (fastforce simp: keys_for_def split: option.split)

lemma server_not_egress: "frontier_inv f live \<Longrightarrow> permit_ok f p \<Longrightarrow> k \<in> set (server_keys p) \<Longrightarrow> k \<noteq> fr_egress f"
  using frontier_invD(2) [of f live] by (cases "pm_origin p") (auto simp: server_keys_def permit_ok_def)

lemma server_distinct: "frontier_inv f live \<Longrightarrow> permit_ok f p \<Longrightarrow> distinct (server_keys p)"
  by (cases "pm_origin p") (auto simp: server_keys_def permit_ok_def)

text \<open>Changes that leave windows and counts alone.\<close>

lemma frontier_inv_quiet:
  assumes "frontier_inv f live" and "\<And>k. ks_in_flight (entry_of f' k) = ks_in_flight (entry_of f k)"
    and "\<And>k. ks_window (entry_of f' k) = ks_window (entry_of f k)"
    and "fr_policy f' = fr_policy f" "fr_egress f' = fr_egress f" "fr_issuer f' = fr_issuer f" "fr_reservations f' = fr_reservations f"
      "fr_next_ordinal f' = fr_next_ordinal f"
    and "\<And>host k. fr_constraints f' host = Some k \<Longrightarrow> \<exists>origin. k = KeyOrigin origin"
  shows "frontier_inv f' live"
  using assms(1,9) unfolding frontier_inv_def permit_ok_def key_cap_def assms(2-8) by blast

lemma clamp_le: "lo \<le> hi \<Longrightarrow> clamp x lo hi \<le> hi"
  by (simp add: clamp_def)

lemma settle_outcome_entry:
  "ks_in_flight (settle_outcome p outcome e) = ks_in_flight e"
  "politeness_ok p \<Longrightarrow> ks_window e \<le> po_max_window p \<Longrightarrow> ks_window (settle_outcome p outcome e) \<le> po_max_window p"
  by (auto simp: settle_outcome_def Let_def window_increase_def window_decrease_def politeness_ok_def clamp_le split: fetch_outcome.split)

lemma complete_inv:
  assumes inv: "frontier_inv f live" and c: "complete p outcome f = (Inr (), f')" and p: "p \<in> set live"
  shows "frontier_inv f' (filter (\<lambda>q. pm_ordinal q \<noteq> pm_ordinal p) live)"
proof -
  note d = frontier_invD [OF inv]
  have ok: "permit_ok f p" by (rule d(4) [OF p])
  let ?f1 = "f\<lparr>fr_reservations := fr_reservations f - {pm_ordinal p}\<rparr>"
  define f2 where "f2 = fold (\<lambda>key. with_entry key (\<lambda>e. e\<lparr>ks_in_flight := ks_in_flight e - 1\<rparr>)) (permit_keys p) ?f1"
  define f3 where "f3 = fold (\<lambda>key. with_entry key (settle_outcome (fr_policy f2) outcome)) (server_keys p) f2"
  have f': "f' = f3" using c by (auto simp: complete_def Let_def f2_def f3_def split: sum.splits)
  have rest: "same_rest ?f1 f3" unfolding f3_def by (rule same_rest_trans [OF _ fold_entries_rest]) (simp add: f2_def fold_entries_rest)
  have pol: "fr_policy f2 = fr_policy f" using fold_entries_rest [of ?f1] by (auto simp: same_rest_def f2_def)
  have e2: "entry_of f2 k = (if k \<in> set (permit_keys p) then (entry_of f k)\<lparr>ks_in_flight := ks_in_flight (entry_of f k) - 1\<rparr> else entry_of f k)" for k
    unfolding f2_def fold_entries [OF permit_keys_distinct [OF inv ok]] by simp
  have e3: "entry_of f3 k = (if k \<in> set (server_keys p) then settle_outcome (fr_policy f) outcome (entry_of f2 k) else entry_of f2 k)" for k
    unfolding f3_def fold_entries [OF server_distinct [OF inv ok]] pol by simp
  let ?live = "filter (\<lambda>q. pm_ordinal q \<noteq> pm_ordinal p) live"
  have flight: "ks_in_flight (entry_of f3 k) = ks_in_flight (entry_of f k) - (if k \<in> set (permit_keys p) then 1 else 0)" for k
    by (simp add: e3 e2 settle_outcome_entry)
  have one: "q = p" if "q \<in> set live" "pm_ordinal q = pm_ordinal p" for q
    using d(5) p that by (simp add: distinct_map inj_on_def)
  have held: "held_by ?live k = held_by live k - (if k \<in> set (permit_keys p) then 1 else 0)" for k
  proof -
    have "distinct live" using d(5) by (simp add: distinct_map)
    then have "length (filter (\<lambda>q. k \<in> set (permit_keys q)) live) =
        length (filter (\<lambda>q. k \<in> set (permit_keys q)) ?live) + (if k \<in> set (permit_keys p) then 1 else 0)"
      using p one
    proof (induction live)
      case (Cons q qs)
      show ?case
      proof (cases "q = p")
        case True
        then have "p \<notin> set qs" using Cons.prems(1) by simp
        then have "\<forall>x \<in> set qs. pm_ordinal x \<noteq> pm_ordinal p" using Cons.prems(3) True by auto
        then have "filter (\<lambda>q. pm_ordinal q \<noteq> pm_ordinal p) qs = qs" by (simp add: filter_id_conv)
        then show ?thesis using True by simp
      next
        case False
        then have "pm_ordinal q \<noteq> pm_ordinal p" using Cons.prems(3) [of q] by auto
        moreover have "p \<in> set qs" using Cons.prems(2) False by simp
        ultimately show ?thesis using Cons.IH Cons.prems by simp
      qed
    qed simp
    then show ?thesis by (simp add: held_by_def)
  qed
  have f3: "fr_policy f3 = fr_policy f" "fr_egress f3 = fr_egress f" "fr_constraints f3 = fr_constraints f" "fr_issuer f3 = fr_issuer f"
    "fr_reservations f3 = fr_reservations f - {pm_ordinal p}" "fr_next_ordinal f3 = fr_next_ordinal f"
    using rest by (simp_all add: same_rest_def)
  have cap: "key_cap f3 k = key_cap f k" for k by (simp add: key_cap_def f3)
  show ?thesis
    unfolding f' frontier_inv_def f3
  proof (intro conjI allI ballI impI)
    fix q assume "q \<in> set ?live"
    then show "permit_ok f3 q" using d(4) [of q] by (simp add: permit_ok_def f3)
  next
    show "distinct (map pm_ordinal ?live)" using d(5) by (simp add: distinct_map inj_on_def)
  next
    show "fr_reservations f - {pm_ordinal p} = set (map pm_ordinal ?live)" using d(6) by auto
  next
    fix k
    show "ks_in_flight (entry_of f3 k) = held_by ?live k" unfolding flight held d(7) ..
    show "ks_in_flight (entry_of f3 k) \<le> key_cap f3 k" unfolding flight cap using d(8) [of k] by simp
    show "ks_window (entry_of f3 k) \<le> key_cap f3 k"
    proof (cases "k \<in> set (server_keys p)")
      case True
      then have "key_cap f k = po_max_window (fr_policy f)" using server_not_egress [OF inv ok] by (simp add: key_cap_def)
      then show ?thesis using d(9) [of k] settle_outcome_entry(2) [OF d(1)] True by (simp add: cap e3 e2)
    next
      case False
      then show ?thesis using d(9) [of k] by (simp add: cap e3 e2)
    qed
  qed (use d in blast)+
qed

lemma admit_reserves:
  assumes inv: "frontier_inv f live" and a: "admit host t f = (Admit p, f')"
  shows "decide f host t = VAdmit" and "reserve host t f = (Admit p, f')"
proof -
  have "verdict_refusal (decide f host t) = None"
  proof (rule ccontr)
    assume "verdict_refusal (decide f host t) \<noteq> None"
    then obtain r where r: "verdict_refusal (decide f host t) = Some r" by blast
    then have "r = Admit p" using a by (simp add: admit_def)
    then show False using r by (auto simp: verdict_refusal_def split: admit_verdict.splits)
  qed
  then show v: "decide f host t = VAdmit" by (simp only: refusal_None)
  show "reserve host t f = (Admit p, f')" using a v by (simp add: admit_def verdict_refusal_def)
qed

lemma promote_entry:
  "ks_in_flight (entry_of (promote_rules key t f) k) = ks_in_flight (entry_of f k)"
  "ks_window (entry_of (promote_rules key t f) k) = ks_window (entry_of f k)"
  by (simp_all add: promote_rules_def Let_def)

lemma admit_inv:
  assumes inv: "frontier_inv f live" and a: "admit host t f = (Admit p, f')"
  shows "frontier_inv f' (p # live)" and "permit_keys p = keys_for f host" and "pm_host p = host"
proof -
  note d = frontier_invD [OF inv]
  note res = admit_reserves [OF inv a]
  let ?n = "fr_next_ordinal f"
  define f1 where "f1 = promote_rules (KeyHost host) t f"
  define f2 where "f2 = fold (\<lambda>key. with_entry key (\<lambda>e. e\<lparr>ks_in_flight := sat_add_u32 (ks_in_flight e) 1\<rparr>)) (keys_for f1 host) f1"
  have rest1: "same_rest f f1" by (simp add: f1_def promote_rules_def)
  then have keys1: "keys_for f1 host = keys_for f host" by (simp add: keys_for_def same_rest_def)
  have rest2: "same_rest f f2" unfolding f2_def by (rule same_rest_trans [OF rest1 fold_entries_rest])
  have r: "f' = f2\<lparr>fr_next_ordinal := ?n + 1, fr_reservations := insert ?n (fr_reservations f2)\<rparr>"
    "p = \<lparr>pm_issuer = fr_issuer f2, pm_ordinal = ?n, pm_host = host, pm_origin = fr_constraints f2 host, pm_egress = fr_egress f2\<rparr>"
    using res(2) [unfolded reserve_def Let_def, folded f1_def, folded f2_def] by (auto split: if_splits)
  have p: "p = \<lparr>pm_issuer = fr_issuer f, pm_ordinal = ?n, pm_host = host, pm_origin = fr_constraints f host, pm_egress = fr_egress f\<rparr>"
    using r(2) rest2 by (simp add: same_rest_def)
  then show keys: "permit_keys p = keys_for f host" and "pm_host p = host" by (simp_all add: permit_keys_def keys_for_def)
  have f': "fr_policy f' = fr_policy f" "fr_egress f' = fr_egress f" "fr_constraints f' = fr_constraints f" "fr_issuer f' = fr_issuer f"
    "fr_reservations f' = insert ?n (fr_reservations f)" "fr_next_ordinal f' = ?n + 1"
    using rest2 by (simp_all add: r(1) same_rest_def)
  have pos: "0 < po_min_window (fr_policy f)" using d(1) by (simp add: politeness_ok_def)
  have room: "ks_in_flight (entry_of f k) < ks_window (entry_of f k)" if "k \<in> set (keys_for f host)" for k
    using res(1) that not_saturated [OF pos] unfolding decide_admit_iff by blast
  have small: "key_cap f k \<le> u32_max" for k using d(1) by (simp add: key_cap_def politeness_ok_def)
  have flight: "ks_in_flight (entry_of f' k) = ks_in_flight (entry_of f k) + (if k \<in> set (keys_for f host) then 1 else 0)"
    and window: "ks_window (entry_of f' k) = ks_window (entry_of f k)" for k
  proof -
    have e: "entry_of f' k = (if k \<in> set (keys_for f host) then (entry_of f1 k)\<lparr>ks_in_flight := sat_add_u32 (ks_in_flight (entry_of f1 k)) 1\<rparr> else entry_of f1 k)"
      unfolding r(1) by (simp add: f2_def keys1 fold_entries [OF keys_for_distinct [OF inv]])
    show "ks_window (entry_of f' k) = ks_window (entry_of f k)" using e by (simp add: f1_def promote_entry)
    show "ks_in_flight (entry_of f' k) = ks_in_flight (entry_of f k) + (if k \<in> set (keys_for f host) then 1 else 0)"
    proof (cases "k \<in> set (keys_for f host)")
      case True
      then have "ks_in_flight (entry_of f k) + 1 \<le> u32_max" using room [OF True] d(9) [of k] small [of k] by linarith
      then show ?thesis using e True by (simp add: f1_def promote_entry sat_add_u32_def)
    qed (simp add: e f1_def promote_entry)
  qed
  have cap: "key_cap f' k = key_cap f k" for k by (simp add: key_cap_def f')
  have fresh: "?n \<notin> set (map pm_ordinal live)"
  proof
    assume "?n \<in> set (map pm_ordinal live)"
    then obtain q where "q \<in> set live" "pm_ordinal q = ?n" by auto
    then show False using d(4) [of q] by (simp add: permit_ok_def)
  qed
  show "frontier_inv f' (p # live)"
    unfolding frontier_inv_def f'
  proof (intro conjI allI ballI impI)
    fix q assume "q \<in> set (p # live)"
    then consider "q = p" | "q \<in> set live" by auto
    then show "permit_ok f' q"
    proof cases
      case 1
      then show ?thesis using d(3) [of host] by (simp add: permit_ok_def f' p)
    next
      case 2
      then show ?thesis using d(4) [of q] by (simp add: permit_ok_def f')
    qed
  next
    show "distinct (map pm_ordinal (p # live))" using fresh d(5) by (simp add: p)
    show "insert ?n (fr_reservations f) = set (map pm_ordinal (p # live))" using d(6) by (simp add: p)
  next
    fix k
    show "ks_in_flight (entry_of f' k) = held_by (p # live) k" using d(7) [of k] by (simp add: flight held_by_def keys)
    show "ks_in_flight (entry_of f' k) \<le> key_cap f' k"
    proof (cases "k \<in> set (keys_for f host)")
      case True
      then show ?thesis using room [OF True] d(9) [of k] by (simp add: flight cap)
    next
      case False
      then show ?thesis using d(8) [of k] by (simp add: flight cap)
    qed
    show "ks_window (entry_of f' k) \<le> key_cap f' k" using d(9) [of k] by (simp add: window cap)
  qed (use d in blast)+
qed

section \<open>Runs\<close>

text \<open>
  A frontier and the permits that are out. A permit is neither copied nor made outside \<open>admit\<close>, and
  \<open>complete\<close> consumes it.
\<close>

inductive frontier_run :: "frontier \<Rightarrow> permit list \<Rightarrow> bool" where
  new: "politeness_ok p \<Longrightarrow> frontier_run (frontier_new issuer p egress) []"
| resolution: "frontier_run f live \<Longrightarrow> frontier_run (observe_resolution host r f) live"
| rules: "frontier_run f live \<Longrightarrow> frontier_run (observe_rules key rs f) live"
| retry_after: "frontier_run f live \<Longrightarrow> observe_retry_after p t delay f = (result, f') \<Longrightarrow> frontier_run f' live"
| admitted: "frontier_run f live \<Longrightarrow> admit host t f = (Admit p, f') \<Longrightarrow> frontier_run f' (p # live)"
| completed: "frontier_run f live \<Longrightarrow> p \<in> set live \<Longrightarrow> complete p outcome f = (result, f') \<Longrightarrow>
    frontier_run f' (filter (\<lambda>q. pm_ordinal q \<noteq> pm_ordinal p) live)"
| abandoned: "frontier_run f live \<Longrightarrow> frontier_run (abandon_host host f) live"

lemma verify_live: "frontier_inv f live \<Longrightarrow> p \<in> set live \<Longrightarrow> frontier_verify f p = Inr ()"
  using frontier_invD(4,6) [of f live] by (auto simp: frontier_verify_def permit_ok_def)

lemma frontier_new_inv: "politeness_ok p \<Longrightarrow> frontier_inv (frontier_new issuer p egress) []"
  unfolding frontier_inv_def
  by (simp add: frontier_new_def with_entry_def entry_of_def fresh_entry_def held_by_def key_cap_def politeness_ok_def)

lemma observe_resolution_inv: "frontier_inv f live \<Longrightarrow> frontier_inv (observe_resolution host r f) live"
proof -
  assume inv: "frontier_inv f live"
  show ?thesis
    by (rule frontier_inv_quiet [OF inv])
      (auto simp: observe_resolution_def Let_def split: resolved.splits if_splits dest: frontier_invD(3) [OF inv])
qed

lemma same_rest_inv:
  assumes "frontier_inv f live" "same_rest f f'" "\<And>k. ks_in_flight (entry_of f' k) = ks_in_flight (entry_of f k)"
    "\<And>k. ks_window (entry_of f' k) = ks_window (entry_of f k)"
  shows "frontier_inv f' live"
  using assms(2) frontier_invD(3) [OF assms(1)]
  by (intro frontier_inv_quiet [OF assms(1,3,4)]) (simp_all add: same_rest_def)

lemma retry_after_inv:
  assumes inv: "frontier_inv f live" and r: "observe_retry_after p t delay f = (result, f')"
  shows "frontier_inv f' live"
proof (cases "frontier_verify f p")
  case (Inl e)
  then show ?thesis using r inv by (simp add: observe_retry_after_def)
next
  case (Inr u)
  let ?g = "\<lambda>e. if ks_blocked_until e < dur_add t delay then e\<lparr>ks_blocked_until := dur_add t delay\<rparr> else e"
  have f': "f' = fold (\<lambda>key. with_entry key ?g) (server_keys p) f" using r Inr by (simp add: observe_retry_after_def Let_def)
  have "ks_in_flight (entry_of (fold (\<lambda>key. with_entry key ?g) keys f) k) = ks_in_flight (entry_of f k) \<and>
      ks_window (entry_of (fold (\<lambda>key. with_entry key ?g) keys f) k) = ks_window (entry_of f k)" for keys k
    by (induction keys arbitrary: f) simp_all
  then show ?thesis unfolding f' by (intro same_rest_inv [OF inv fold_entries_rest]) blast+
qed

lemma frontier_run_inv: "frontier_run f live \<Longrightarrow> frontier_inv f live"
proof (induction rule: frontier_run.induct)
  case (rules f live key rs)
  then show ?case by (intro same_rest_inv [OF rules.IH]) (simp_all add: observe_rules_def)
next
  case (completed f live p outcome result f')
  have "result = Inr ()" using completed.hyps(3) verify_live [OF completed.IH completed.hyps(2)] by (simp add: complete_def Let_def)
  then show ?case using complete_inv [OF completed.IH _ completed.hyps(2)] completed.hyps(3) by simp
next
  case (abandoned f live host)
  show ?case by (rule frontier_inv_quiet [OF abandoned.IH]) (use frontier_invD(3) [OF abandoned.IH] in \<open>simp_all add: abandon_host_def\<close>)
qed (simp_all add: frontier_new_inv observe_resolution_inv retry_after_inv admit_inv)

section \<open>What the frontier promises\<close>

text \<open>C29: What a frontier counts is what is out: for every host, origin and the egress, the requests counted in flight are exactly the permits that hold it and were not completed, and they never exceed the policy's window, so never more requests are out than the egress window.\<close>

theorem frontier_accounting:
  assumes "frontier_run f live"
  shows "in_flight f k = length (filter (\<lambda>p. k \<in> set (permit_keys p)) live) \<and>
    in_flight f k \<le> (if k = fr_egress f then po_egress_window (fr_policy f) else po_max_window (fr_policy f)) \<and>
    outstanding_permits f = length live \<and> length live \<le> po_egress_window (fr_policy f)"
proof -
  note inv = frontier_run_inv [OF assms]
  note d = frontier_invD [OF inv]
  have "fr_egress f \<in> set (permit_keys p)" if "p \<in> set live" for p
    using d(4) [OF that] by (simp add: permit_keys_def permit_ok_def)
  then have "held_by live (fr_egress f) = length live" by (simp add: held_by_def)
  then have "length live \<le> po_egress_window (fr_policy f)" using d(7) [of "fr_egress f"] d(8) [of "fr_egress f"] by (simp add: key_cap_def)
  moreover have "outstanding_permits f = length live"
    unfolding outstanding_permits_def d(6) using distinct_card [OF d(5)] by simp
  ultimately show ?thesis using d(7,8) [of k] by (simp add: in_flight_entry held_by_def key_cap_def)
qed

text \<open>A request is admitted only when it is polite: its host is not abandoned and resolves to an origin, its rules allow it or there are none, and each of host, origin and egress is past its retry time and below its window. The permit holds exactly those keys, and the walk of resolved hosts offers a host just when it would be admitted.\<close>

theorem frontier_admits_politely:
  assumes "frontier_run f live" and "admit host t f = (Admit p, f')"
  shows "host \<notin> fr_abandons f \<and> (\<exists>origin. map_of (fr_resolutions f) host = Some (ResolvedOrigin origin)) \<and>
    rules_effective (frontier_rules f (KeyHost host)) t (po_unreachable_grace (fr_policy f)) \<in> {Allowed, NoRules} \<and>
    (\<forall>k \<in> set (permit_keys p). in_flight f k < frontier_window f k \<and> in_flight f' k = in_flight f k + 1 \<and>
       (\<forall>e. fr_state f k = Some e \<longrightarrow> ks_blocked_until e \<le> t)) \<and>
    next_admissible f t \<noteq> None"
proof -
  note inv = frontier_run_inv [OF assms(1)]
  note d = frontier_invD [OF inv]
  note r = admit_reserves(1) [OF inv assms(2)]
  note a = admit_inv [OF inv assms(2)]
  have pos: "0 < po_min_window (fr_policy f)" using d(1) by (simp add: politeness_ok_def)
  have dec: "host \<notin> fr_abandons f" "\<exists>origin. map_of (fr_resolutions f) host = Some (ResolvedOrigin origin)"
    "effective_rules f (KeyHost host) t \<in> {Allowed, NoRules}" "\<And>k. k \<in> set (keys_for f host) \<Longrightarrow> saturated f k t = None"
    using r unfolding decide_admit_iff by blast+
  have rules: "rules_effective (frontier_rules f (KeyHost host)) t (po_unreachable_grace (fr_policy f)) \<in> {Allowed, NoRules}"
    using dec(3) by (auto simp: effective_rules_def frontier_rules_def rules_effective_def split: option.splits)
  have keys: "in_flight f k < frontier_window f k \<and> in_flight f' k = in_flight f k + 1 \<and> (\<forall>e. fr_state f k = Some e \<longrightarrow> ks_blocked_until e \<le> t)"
    if "k \<in> set (permit_keys p)" for k
  proof -
    have "saturated f k t = None" using dec(4) that a(2) by simp
    note n = not_saturated [OF pos this]
    have "in_flight f' k = held_by (p # live) k" using frontier_invD(7) [OF a(1)] by (simp add: in_flight_entry)
    then have "in_flight f' k = in_flight f k + 1" using that d(7) [of k] by (simp add: held_by_def in_flight_entry)
    then show ?thesis using n by (auto simp: in_flight_entry window_entry entry_of_def)
  qed
  obtain origin where "(host, ResolvedOrigin origin) \<in> set (fr_resolutions f)" using dec(2) map_of_SomeD by fast
  then have "host \<in> set (map fst (fr_resolutions f))" by force
  then have "next_admissible f t \<noteq> None" using r by (auto simp: next_admissible_def find_None_iff)
  then show ?thesis using dec(1,2) rules keys by blast
qed

section \<open>A frontier with one permit out\<close>

definition frontier_example :: frontier where
  "frontier_example = observe_rules (KeyHost [1]) Allowed
     (observe_resolution [1] (ResolvedOrigin [2]) (frontier_new 7 politeness_default [3]))"

definition permit_example :: permit where
  "permit_example = \<lparr>pm_issuer = 7, pm_ordinal = 1, pm_host = [1], pm_origin = Some (KeyOrigin [2]), pm_egress = KeyEgress [3]\<rparr>"

lemma frontier_example_run: "frontier_run frontier_example []"
  unfolding frontier_example_def
  by (intro frontier_run.rules frontier_run.resolution frontier_run.new)
    (simp add: politeness_ok_def politeness_default_def u32_max_def)

lemma frontier_example_admits: "admit [1] 0 frontier_example = (Admit permit_example, snd (admit [1] 0 frontier_example))"
proof -
  have "decide frontier_example [1] 0 = VAdmit"
    by (simp add: decide_def frontier_example_def frontier_new_def observe_rules_def observe_resolution_def with_entry_def
        saturated_def keys_for_def effective_rules_def rules_effective_def fresh_entry_def politeness_default_def Let_def)
  then have "fst (admit [1] 0 frontier_example) = Admit permit_example"
    by (simp add: admit_def verdict_refusal_def reserve_def permit_example_def promote_rules_def rules_effective_def frontier_example_def frontier_new_def
        observe_rules_def observe_resolution_def with_entry_def keys_for_def fresh_entry_def u64_max_def Let_def)
  then show ?thesis by (metis prod.collapse)
qed

lemmas frontier_example_admitted = frontier_run.admitted [OF frontier_example_run frontier_example_admits]

theorem frontier_accounting_witness:
  "outstanding_permits (snd (admit [1] 0 frontier_example)) = 1 \<and> in_flight (snd (admit [1] 0 frontier_example)) (KeyOrigin [2]) = 1"
  using frontier_accounting [OF frontier_example_admitted, of "KeyOrigin [2]"] by (simp add: permit_keys_def permit_example_def)

theorem frontier_admits_politely_witness:
  "in_flight (snd (admit [1] 0 frontier_example)) (KeyEgress [3]) = in_flight frontier_example (KeyEgress [3]) + 1"
  using frontier_admits_politely [OF frontier_example_run frontier_example_admits] by (simp add: permit_keys_def permit_example_def)

end
