(* ===== verification/Frame.thy ===== *)
theory Frame
  imports Int_Bytes
begin

text \<open>
  \<open>crates/lgwks-bot/src/journal/frame.rs\<close>: the one frame grammar of every append-only file in the
  crate. A frame is a big-endian length, the payload, and the 32-byte head that chains it to the frame
  before. A file is its bytes with the position from which the device refuses reads, if there is one.
  The head of a payload (a hash of the archived record, from a dependency) is the argument
  \<open>head_of\<close>: the previous head and the payload give the head, or nothing for a payload that is no record.
  Offsets stay far below the end of \<open>u64\<close>, so their saturating additions are additions.
\<close>

section \<open>Files\<close>

datatype io_error = DeviceRefused | FileGrew

record disk =
  dk_bytes :: bytes
  dk_fault :: "nat option"

text \<open>What reading up to \<open>n\<close> bytes from \<open>pos\<close> gives: fewer at the end of the file, a refusal where the device fails.\<close>

definition device_read :: "disk \<Rightarrow> nat \<Rightarrow> nat \<Rightarrow> io_error + bytes" where
  "device_read d pos n =
     (let got = take n (drop pos (dk_bytes d)) in
      case dk_fault d of
        Some bad \<Rightarrow> if pos \<le> bad \<and> bad < pos + length got then Inl DeviceRefused else Inr got
      | None \<Rightarrow> Inr got)"

lemma device_read_within:
  assumes "device_read d pos n = Inr got" and "length got = n" and "0 < n"
  shows "pos + n \<le> length (dk_bytes d)"
proof -
  have "got = take n (drop pos (dk_bytes d))"
    using assms(1) by (auto simp: device_read_def Let_def split: option.splits if_splits)
  then have "length got = min (length (dk_bytes d) - pos) n" by simp
  then show ?thesis using assms(2,3) by linarith
qed

section \<open>Frames\<close>

definition length_bytes :: nat where "length_bytes = 4"
definition head_bytes :: nat where "head_bytes = 32"

datatype piece = Filled bytes | Interrupted

definition read_piece :: "disk \<Rightarrow> nat \<Rightarrow> nat \<Rightarrow> io_error + piece" where
  "read_piece d pos n = rbind (device_read d pos n) (\<lambda>got. Inr (if length got = n then Filled got else Interrupted))"

datatype prefix = Eof | Torn | Full bytes

definition read_prefix :: "disk \<Rightarrow> nat \<Rightarrow> io_error + prefix" where
  "read_prefix d pos =
     rbind (device_read d pos length_bytes) (\<lambda>got. Inr (if got = [] then Eof else if length got < length_bytes then Torn else Full got))"

definition declared_length :: "bytes \<Rightarrow> nat" where
  "declared_length prefix = from_be prefix"

definition is_possible_length :: "nat \<Rightarrow> nat \<Rightarrow> bool" where
  "is_possible_length payload_len max_frame_bytes \<longleftrightarrow> payload_len \<noteq> 0 \<and> payload_len \<le> max_frame_bytes"

definition writable_length :: "nat \<Rightarrow> nat \<Rightarrow> nat option" where
  "writable_length payload_len max_frame_bytes =
     (if payload_len \<le> u32_max \<and> is_possible_length payload_len max_frame_bytes then Some payload_len else None)"

definition framed_len :: "nat \<Rightarrow> nat" where
  "framed_len payload_len = sat_add_usize (sat_add_usize length_bytes payload_len) head_bytes"

definition encode_frame :: "nat \<Rightarrow> bytes \<Rightarrow> bytes \<Rightarrow> bytes" where
  "encode_frame payload_len payload head = be_bytes length_bytes payload_len @ payload @ head"

definition frame_record :: "('r \<Rightarrow> 'e + bytes) \<Rightarrow> ('r \<Rightarrow> bytes \<Rightarrow> bytes \<Rightarrow> bytes) \<Rightarrow> (nat \<Rightarrow> 'e) \<Rightarrow> nat \<Rightarrow> 'r \<Rightarrow> bytes \<Rightarrow> 'e + (bytes \<times> bytes)" where
  "frame_record archive head refuse max_frame_bytes rec previous =
     rbind (archive rec) (\<lambda>payload.
       case writable_length (length payload) max_frame_bytes of
         None \<Rightarrow> Inl (refuse (length payload))
       | Some payload_len \<Rightarrow> let h = head rec previous payload in Inr (encode_frame payload_len payload h, h))"

section \<open>Cut frames\<close>

text \<open>\<open>slice.get(a..b)\<close>.\<close>

definition get_range :: "bytes \<Rightarrow> nat \<Rightarrow> nat \<Rightarrow> bytes option" where
  "get_range s a b = (if a \<le> b \<and> b \<le> length s then Some (take (b - a) (drop a s)) else None)"

definition authenticates :: "(bytes \<Rightarrow> bytes \<Rightarrow> bytes option) \<Rightarrow> bytes \<Rightarrow> bytes \<Rightarrow> bytes \<Rightarrow> bool" where
  "authenticates head_of previous payload stored = (case head_of previous payload of None \<Rightarrow> False | Some head \<Rightarrow> head = stored)"

definition frame_chains_from :: "(bytes \<Rightarrow> bytes \<Rightarrow> bytes option) \<Rightarrow> nat \<Rightarrow> bytes \<Rightarrow> nat \<Rightarrow> bytes \<Rightarrow> bool" where
  "frame_chains_from head_of max_frame_bytes suffix start previous =
     (let payload_at = start + length_bytes in
      case get_range suffix start payload_at of
        None \<Rightarrow> False
      | Some prefix \<Rightarrow>
          let declared = declared_length prefix in
          if \<not> is_possible_length declared max_frame_bytes then False
          else
            let head_at = payload_at + declared in
            case (get_range suffix payload_at head_at, get_range suffix head_at (head_at + head_bytes)) of
              (Some payload, Some stored) \<Rightarrow> authenticates head_of previous payload stored
            | _ \<Rightarrow> False)"

text \<open>One candidate length of the first search.\<close>

definition candidate_holds :: "(bytes \<Rightarrow> bytes \<Rightarrow> bytes option) \<Rightarrow> nat \<Rightarrow> bytes \<Rightarrow> bytes \<Rightarrow> nat \<Rightarrow> bool" where
  "candidate_holds head_of max_frame_bytes suffix previous len =
     (case (get_range suffix 0 len, get_range suffix len (len + head_bytes)) of
        (Some payload, Some stored) \<Rightarrow>
          (case head_of previous payload of
             None \<Rightarrow> False
           | Some implied \<Rightarrow>
               if implied = stored then True
               else frame_chains_from head_of max_frame_bytes suffix (len + head_bytes) implied)
      | _ \<Rightarrow> False)"

text \<open>One offset of the second search.\<close>

definition offset_holds :: "(bytes \<Rightarrow> bytes \<Rightarrow> bytes option) \<Rightarrow> nat \<Rightarrow> bytes \<Rightarrow> nat \<Rightarrow> bool" where
  "offset_holds head_of max_frame_bytes suffix start =
     (case get_range suffix (start - head_bytes) start of
        None \<Rightarrow> False
      | Some prior \<Rightarrow> frame_chains_from head_of max_frame_bytes suffix start prior)"

definition holds_acknowledged_frame :: "(bytes \<Rightarrow> bytes \<Rightarrow> bytes option) \<Rightarrow> nat \<Rightarrow> bytes \<Rightarrow> bytes \<Rightarrow> bool" where
  "holds_acknowledged_frame head_of max_frame_bytes suffix previous \<longleftrightarrow>
     list_ex (candidate_holds head_of max_frame_bytes suffix previous) [1..<min (length suffix - head_bytes) max_frame_bytes + 1] \<or>
     list_ex (offset_holds head_of max_frame_bytes suffix)
       [head_bytes + 1..<length suffix + 1 - (length_bytes + 1 + head_bytes)]"

definition cut_holds_acknowledged ::
    "(bytes \<Rightarrow> bytes \<Rightarrow> bytes option) \<Rightarrow> (io_error \<Rightarrow> 'e) \<Rightarrow> nat \<Rightarrow> disk \<Rightarrow> nat \<Rightarrow> bytes \<Rightarrow> 'e + bool" where
  "cut_holds_acknowledged head_of storage max_frame_bytes d offset previous =
     (let start = offset + length_bytes; behind = length (dk_bytes d) - start in
      if behind > max_frame_bytes + head_bytes then Inl (storage FileGrew)
      else
        case device_read d start behind of
          Inl e \<Rightarrow> Inl (storage e)
        | Inr suffix \<Rightarrow> Inr (holds_acknowledged_frame head_of max_frame_bytes suffix previous))"

section \<open>Reading\<close>

record raw =
  rw_payload :: bytes
  rw_head :: bytes

record cursor =
  cu_at :: nat
  cu_offset :: nat
  cu_previous :: bytes

text \<open>
  \<open>read_raw\<close> reads from the position \<open>pos\<close> of the open file and gives the position it leaves the file at:
  behind the frame, or at the end of the file when there is no whole frame (resolving a cut reads up to
  the end). The two pieces are read in turn and the first that is cut short decides.
\<close>

definition read_raw ::
    "(bytes \<Rightarrow> bytes \<Rightarrow> bytes option) \<Rightarrow> (io_error \<Rightarrow> 'e) \<Rightarrow> 'e \<Rightarrow> nat \<Rightarrow> disk \<Rightarrow> nat \<Rightarrow> cursor \<Rightarrow> 'e + (raw option \<times> nat)" where
  "read_raw head_of storage corrupt max_frame_bytes d pos c =
     (let cut = (case cut_holds_acknowledged head_of storage max_frame_bytes d (cu_offset c) (cu_previous c) of
                   Inl e \<Rightarrow> Inl e
                 | Inr lies \<Rightarrow> if lies then Inl corrupt else Inr (None, max pos (length (dk_bytes d))))
      in
      case read_prefix d pos of
        Inl e \<Rightarrow> Inl (storage e)
      | Inr Eof \<Rightarrow> Inr (None, pos)
      | Inr Torn \<Rightarrow> Inr (None, length (dk_bytes d))
      | Inr (Full prefix) \<Rightarrow>
          let declared = declared_length prefix in
          if \<not> is_possible_length declared max_frame_bytes then Inl corrupt
          else
            case read_piece d (pos + length_bytes) declared of
              Inl e \<Rightarrow> Inl (storage e)
            | Inr Interrupted \<Rightarrow> cut
            | Inr (Filled payload) \<Rightarrow>
                (case read_piece d (pos + length_bytes + declared) head_bytes of
                   Inl e \<Rightarrow> Inl (storage e)
                 | Inr Interrupted \<Rightarrow> cut
                 | Inr (Filled head) \<Rightarrow>
                     Inr (Some \<lparr>rw_payload = payload, rw_head = head\<rparr>, pos + length_bytes + declared + head_bytes)))"

section \<open>Reading what was written\<close>

lemma device_read_sound [simp]: "dk_fault d = None \<Longrightarrow> device_read d pos n = Inr (take n (drop pos (dk_bytes d)))"
  by (simp add: device_read_def)

lemma encode_frame_length [simp]: "length head = head_bytes \<Longrightarrow> length (encode_frame n payload head) = 36 + length payload"
  by (simp add: encode_frame_def length_bytes_def head_bytes_def)

lemma framed_len_plain: "payload_len \<le> u32_max \<Longrightarrow> framed_len payload_len = 36 + payload_len"
  by (simp add: framed_len_def length_bytes_def head_bytes_def sat_add_usize_def u32_max_def usize_max_def)

lemma declared_length_written [simp]: "n \<le> u32_max \<Longrightarrow> declared_length (be_bytes length_bytes n) = n"
  by (simp add: declared_length_def length_bytes_def from_be_bytes u32_max_def)

lemma read_prefix_written:
  assumes "dk_fault d = None" and "dk_bytes d = pre @ be_bytes length_bytes n @ rest"
  shows "read_prefix d (length pre) = Inr (Full (be_bytes length_bytes n))"
proof -
  have "be_bytes 4 n \<noteq> []" using be_bytes_length [of 4 n] by (metis list.size(3) zero_neq_numeral)
  then show ?thesis using assms by (simp add: read_prefix_def length_bytes_def)
qed

lemma read_piece_written:
  "dk_fault d = None \<Longrightarrow> dk_bytes d = pre @ part @ rest \<Longrightarrow> length pre = pos \<Longrightarrow> length part = n \<Longrightarrow> read_piece d pos n = Inr (Filled part)"
  by (auto simp: read_piece_def)

lemma read_piece_short:
  "dk_fault d = None \<Longrightarrow> length (dk_bytes d) < pos + n \<Longrightarrow> 0 < n \<Longrightarrow> read_piece d pos n = Inr Interrupted"
  by (auto simp: read_piece_def)

text \<open>A frame that is all there is read.\<close>

lemma read_raw_whole:
  assumes "dk_fault d = None" and "dk_bytes d = pre @ encode_frame (length payload) payload head @ rest"
    and "is_possible_length (length payload) max_frame_bytes" and "max_frame_bytes \<le> u32_max" and "length head = head_bytes"
  shows "read_raw head_of storage corrupt max_frame_bytes d (length pre) c =
    Inr (Some \<lparr>rw_payload = payload, rw_head = head\<rparr>, length pre + 36 + length payload)"
proof -
  let ?p = "be_bytes length_bytes (length payload)"
  have small: "length payload \<le> u32_max" using assms(3,4) by (simp add: is_possible_length_def)
  have bytes: "dk_bytes d = pre @ ?p @ payload @ head @ rest" using assms(2) by (simp add: encode_frame_def)
  have pieces: "read_piece d (length pre + length_bytes) (length payload) = Inr (Filled payload)"
    "read_piece d (length pre + length_bytes + length payload) head_bytes = Inr (Filled head)"
    using bytes assms(5) by (auto intro: read_piece_written [OF assms(1), of "pre @ ?p"] read_piece_written [OF assms(1), of "pre @ ?p @ payload"])
  show ?thesis
    unfolding read_raw_def Let_def read_prefix_written [OF assms(1) bytes]
    using pieces assms(3) small by (simp add: head_bytes_def) (simp add: length_bytes_def)
qed

text \<open>A complete prefix with less behind it than it declares: the head decides.\<close>

lemma read_raw_cut:
  assumes "dk_fault d = None" and "dk_bytes d = pre @ be_bytes length_bytes declared @ suffix"
    and "is_possible_length declared max_frame_bytes" and "max_frame_bytes \<le> u32_max"
    and "length suffix < declared + head_bytes" and "cu_offset c = length pre"
  shows "read_raw head_of storage corrupt max_frame_bytes d (length pre) c =
    (if holds_acknowledged_frame head_of max_frame_bytes suffix (cu_previous c) then Inl corrupt else Inr (None, length (dk_bytes d)))"
proof -
  have small: "declared \<le> u32_max" and most: "declared \<le> max_frame_bytes" using assms(3,4) by (simp_all add: is_possible_length_def)
  have len: "length (dk_bytes d) = length pre + length_bytes + length suffix" using assms(2) by simp
  have cut: "cut_holds_acknowledged head_of storage max_frame_bytes d (cu_offset c) (cu_previous c) =
      Inr (holds_acknowledged_frame head_of max_frame_bytes suffix (cu_previous c))"
    using assms(1,2,5,6) most len by (simp add: cut_holds_acknowledged_def)
  have le: "max (length pre) (length (dk_bytes d)) = length (dk_bytes d)" using len by simp
  have second: "read_piece d (length pre + length_bytes + declared) head_bytes = Inr Interrupted"
    using assms(5) len by (intro read_piece_short [OF assms(1)]) (simp_all add: head_bytes_def)
  have first: "read_piece d (length pre + length_bytes) declared = Inr Interrupted \<or>
      read_piece d (length pre + length_bytes) declared = Inr (Filled (take declared suffix))"
    using assms(1,2) by (auto simp: read_piece_def)
  show ?thesis
    unfolding read_raw_def Let_def read_prefix_written [OF assms(1,2)] cut
    using first second assms(3) small le by auto
qed

lemma read_raw_torn:
  assumes "dk_fault d = None" and "pos \<le> length (dk_bytes d)" and "length (dk_bytes d) < pos + length_bytes"
  shows "read_raw head_of storage corrupt max_frame_bytes d pos c = Inr (None, length (dk_bytes d))"
  using assms by (auto simp: read_raw_def read_prefix_def Let_def)

lemma acknowledged_candidate:
  assumes "suffix = payload @ head @ rest" and "length head = head_bytes" and "is_possible_length (length payload) max_frame_bytes"
    and "head_of previous payload = Some head"
  shows "holds_acknowledged_frame head_of max_frame_bytes suffix previous"
proof -
  have "candidate_holds head_of max_frame_bytes suffix previous (length payload)"
    using assms(1,2,4) by (simp add: candidate_holds_def get_range_def)
  moreover have "length payload \<in> set [1..<min (length suffix - head_bytes) max_frame_bytes + 1]"
    using assms(1-3) by (cases payload) (auto simp: is_possible_length_def)
  ultimately show ?thesis unfolding holds_acknowledged_frame_def list_ex_iff by blast
qed

lemma read_raw_cut_frame:
  assumes "dk_fault d = None" and "dk_bytes d = pre @ take k framed" and "k < length framed"
    and "framed = encode_frame (length payload) payload head" and "length head = head_bytes"
    and "is_possible_length (length payload) max_frame_bytes" and "max_frame_bytes \<le> u32_max" and "cu_offset c = length pre"
  shows "read_raw head_of storage corrupt max_frame_bytes d (length pre) c =
    (if length_bytes \<le> k \<and> holds_acknowledged_frame head_of max_frame_bytes (drop length_bytes (take k framed)) (cu_previous c)
     then Inl corrupt else Inr (None, length (dk_bytes d)))"
proof (cases "length_bytes \<le> k")
  case True
  let ?s = "drop length_bytes (take k framed)"
  have "take length_bytes (take k framed) = be_bytes length_bytes (length payload)" using True by (simp add: assms(4) encode_frame_def)
  then have "dk_bytes d = pre @ be_bytes length_bytes (length payload) @ ?s"
    using assms(2) append_take_drop_id [of length_bytes "take k framed"] by simp
  moreover have "length ?s < length payload + head_bytes" using assms(3) True by (simp add: assms(4,5) length_bytes_def head_bytes_def)
  ultimately show ?thesis using True assms(8) by (subst read_raw_cut [OF assms(1) _ assms(6,7)]) simp_all
next
  case False
  then show ?thesis using assms(2,3) by (simp add: read_raw_torn [OF assms(1)])
qed

section \<open>What the frame grammar promises\<close>

text \<open>C18: A frame reads back: what frame_record writes is read, payload, head and end position, wherever it stands in a file and whatever follows; cut short by a crash it is never a record, only the end of the file, or a refusal when the bytes that are left authenticate as a frame.\<close>

theorem frame_reads_back:
  fixes archive :: "'r \<Rightarrow> 'e + bytes"
  assumes "frame_record archive head refuse max_frame_bytes rec previous = Inr (framed, h)"
    and "max_frame_bytes \<le> u32_max" and "\<And>rec previous payload. length (head rec previous payload) = head_bytes"
    and "dk_fault d = None" and "c = \<lparr>cu_at = n, cu_offset = length pre, cu_previous = previous\<rparr>"
  shows "\<exists>payload. archive rec = Inr payload \<and> h = head rec previous payload \<and>
    (dk_bytes d = pre @ framed @ rest \<longrightarrow>
       read_raw head_of storage corrupt max_frame_bytes d (length pre) c =
         Inr (Some \<lparr>rw_payload = payload, rw_head = h\<rparr>, length pre + length framed)) \<and>
    (k < length framed \<longrightarrow> dk_bytes d = pre @ take k framed \<longrightarrow>
       read_raw head_of storage corrupt max_frame_bytes d (length pre) c =
         (if length_bytes \<le> k \<and> holds_acknowledged_frame head_of max_frame_bytes (drop length_bytes (take k framed)) previous
          then Inl corrupt else Inr (None, length (dk_bytes d))))"
proof -
  obtain payload where p: "archive rec = Inr payload" "is_possible_length (length payload) max_frame_bytes"
      "h = head rec previous payload" "framed = encode_frame (length payload) payload h"
    using assms(1) by (auto simp: frame_record_def writable_length_def Let_def split: if_splits)
  have hlen: "length h = head_bytes" using p(3) assms(3) by simp
  have whole: "read_raw head_of storage corrupt max_frame_bytes d (length pre) c =
      Inr (Some \<lparr>rw_payload = payload, rw_head = h\<rparr>, length pre + length framed)" if "dk_bytes d = pre @ framed @ rest"
    using read_raw_whole [OF assms(4) that [unfolded p(4)] p(2) assms(2) hlen, of head_of storage corrupt c] by (simp add: p(4) hlen add.assoc)
  have cut: "read_raw head_of storage corrupt max_frame_bytes d (length pre) c =
      (if length_bytes \<le> k \<and> holds_acknowledged_frame head_of max_frame_bytes (drop length_bytes (take k framed)) previous
       then Inl corrupt else Inr (None, length (dk_bytes d)))" if "k < length framed" and "dk_bytes d = pre @ take k framed"
    using assms(5) by (subst read_raw_cut_frame [OF assms(4) that(2,1) p(4) hlen p(2) assms(2)]) simp_all
  show ?thesis using p(1,3) whole cut by blast
qed

text \<open>A lengthened frame is refused, never trimmed: when the length of an acknowledged frame was changed to one the file cannot hold, the reader finds the frame under its true length and refuses the file as corrupt, whatever stands behind it.\<close>

theorem lengthened_frame_refused:
  assumes "dk_bytes d = pre @ be_bytes length_bytes declared @ payload @ head @ rest" and "dk_fault d = None"
    and "head_of previous payload = Some head" and "length head = head_bytes"
    and "is_possible_length (length payload) max_frame_bytes" and "is_possible_length declared max_frame_bytes" and "max_frame_bytes \<le> u32_max"
    and "length (payload @ head @ rest) < declared + head_bytes"
  shows "read_raw head_of storage corrupt max_frame_bytes d (length pre) \<lparr>cu_at = n, cu_offset = length pre, cu_previous = previous\<rparr> = Inl corrupt"
  using acknowledged_candidate [of "payload @ head @ rest" payload head rest max_frame_bytes head_of previous] assms(3,4,5)
  by (subst read_raw_cut [OF assms(2,1,6,7,8)]) simp_all

text \<open>A frame with a one-byte payload, and the same frame with a longer length.\<close>

definition toy_head :: "bytes \<Rightarrow> bytes \<Rightarrow> bytes option" where
  "toy_head previous payload = Some (replicate 32 (word_of_nat (length payload)))"

theorem frame_reads_back_witness:
  "\<exists>payload. (Inr [5] :: nat + bytes) = Inr payload \<and>
     read_raw toy_head (\<lambda>_. 1 :: nat) 2 10 \<lparr>dk_bytes = encode_frame 1 [5] (replicate 32 1), dk_fault = None\<rparr> 0
       \<lparr>cu_at = 0, cu_offset = 0, cu_previous = []\<rparr> = Inr (Some \<lparr>rw_payload = payload, rw_head = replicate 32 1\<rparr>, 37)"
  using frame_reads_back [of "\<lambda>_. Inr [5] :: nat + bytes" "\<lambda>_ _ payload. replicate 32 (word_of_nat (length payload))" "\<lambda>_. 0" 10 "()" "[]"
      "encode_frame 1 [5] (replicate 32 1)" "replicate 32 1" "\<lparr>dk_bytes = encode_frame 1 [5] (replicate 32 1), dk_fault = None\<rparr>"
      "\<lparr>cu_at = 0, cu_offset = 0, cu_previous = []\<rparr>" 0 "[]" "[]" toy_head "\<lambda>_. 1 :: nat" 2 0]
  by (simp add: Let_def frame_record_def writable_length_def is_possible_length_def u32_max_def head_bytes_def)

theorem lengthened_frame_refused_witness:
  "read_raw toy_head (\<lambda>_. 1 :: nat) 2 10 \<lparr>dk_bytes = be_bytes length_bytes 9 @ [5] @ replicate 32 1, dk_fault = None\<rparr> 0
     \<lparr>cu_at = 0, cu_offset = 0, cu_previous = []\<rparr> = Inl 2"
  using lengthened_frame_refused [of "\<lparr>dk_bytes = be_bytes length_bytes 9 @ [5] @ replicate 32 1, dk_fault = None\<rparr>" "[]" 9 "[5]" "replicate 32 1" "[]"
      toy_head "[]" 10 "\<lambda>_. 1 :: nat" 2 0]
  by (simp add: toy_head_def is_possible_length_def u32_max_def head_bytes_def)

end
