(* ===== verification/Chain.thy ===== *)
theory Chain
  imports Frame
begin

text \<open>
  What every append-only file built from frames has in common: its records are framed one after the other,
  each with the head of the one before, and reading it back is a loop that steps over whole frames,
  stops at a cut one and refuses one record too many. The ledger and the run store keep this contract
  with their own records, heads and errors.
\<close>

text \<open>The frames of a list of records from a first head on, and the last head. \<open>mk\<close> frames one record.\<close>

primrec chain :: "('r \<Rightarrow> bytes \<Rightarrow> 'e + (bytes \<times> bytes)) \<Rightarrow> bytes \<Rightarrow> 'r list \<Rightarrow> (bytes \<times> bytes) option" where
  "chain mk previous [] = Some ([], previous)"
| "chain mk previous (e # es) =
     (case mk e previous of
        Inl _ \<Rightarrow> None
      | Inr (framed, head) \<Rightarrow> (case chain mk head es of None \<Rightarrow> None | Some (rest, tail) \<Rightarrow> Some (framed @ rest, tail)))"

lemma chain_append:
  "chain mk previous es = Some (body, tail) \<Longrightarrow> mk e tail = Inr (framed, head) \<Longrightarrow>
    chain mk previous (es @ [e]) = Some (body @ framed, head)"
proof (induction es arbitrary: previous body)
  case (Cons x es)
  then show ?case by (auto split: sum.splits option.splits)
qed simp

lemma chain_split:
  "chain mk previous (es @ fs) = Some (body, tail) \<Longrightarrow>
    \<exists>b1 t1 b2. chain mk previous es = Some (b1, t1) \<and> chain mk t1 fs = Some (b2, tail) \<and> body = b1 @ b2"
proof (induction es arbitrary: previous body)
  case (Cons x es)
  then show ?case by (fastforce split: sum.splits option.splits)
qed simp

lemma chain_join:
  "chain mk previous es = Some (b1, t1) \<Longrightarrow> chain mk t1 fs = Some (b2, tail) \<Longrightarrow> chain mk previous (es @ fs) = Some (b1 @ b2, tail)"
proof (induction es arbitrary: previous b1)
  case (Cons x es)
  then show ?case by (fastforce split: sum.splits option.splits)
qed simp

lemma chain_ConsE:
  assumes "chain mk previous (e # es) = Some (body, tail)"
  obtains framed head rest where "mk e previous = Inr (framed, head)" "chain mk head es = Some (rest, tail)" "body = framed @ rest"
  using assms by (auto split: sum.splits option.splits)

text \<open>The first bytes of a chain are the first records and a part of the next.\<close>

lemma chain_take:
  assumes "chain mk previous es = Some (body, tail)" and "n \<le> length body"
  obtains (all) "n = length body"
  | (cut) j b t framed head k where "j < length es" "chain mk previous (take j es) = Some (b, t)" "mk (es ! j) t = Inr (framed, head)"
      "k < length framed" "take n body = b @ take k framed" "n = length b + k"
  using assms
proof (induction es arbitrary: previous body n thesis)
  case (Cons e es)
  obtain framed head rest where f: "mk e previous = Inr (framed, head)" "chain mk head es = Some (rest, tail)" "body = framed @ rest"
    using Cons.prems(3) by (rule chain_ConsE)
  show ?case
  proof (cases "n < length framed")
    case True
    then show ?thesis using f by (intro Cons.prems(2) [of 0 "[]" previous framed head n]) simp_all
  next
    case False
    show ?thesis
    proof (rule Cons.IH [OF _ _ f(2), of "n - length framed"])
      assume "n - length framed = length rest"
      then show ?thesis using False f(3) by (intro Cons.prems(1)) simp
    next
      fix j b t framed' head' k
      assume "j < length es" "chain mk head (take j es) = Some (b, t)" "mk (es ! j) t = Inr (framed', head')" "k < length framed'"
        "take (n - length framed) rest = b @ take k framed'" "n - length framed = length b + k"
      then show ?thesis using False f by (intro Cons.prems(2) [of "Suc j" "framed @ b" t framed' head' k]) simp_all
    qed (use Cons.prems(4) f(3) in simp)
  qed
qed simp

text \<open>The reader's index after a chain, when a record moves it by \<open>step\<close>.\<close>

primrec index_after :: "('r \<Rightarrow> bytes \<Rightarrow> 'e + (bytes \<times> bytes)) \<Rightarrow> ('i \<Rightarrow> 'r \<Rightarrow> nat \<Rightarrow> bytes \<Rightarrow> 'i) \<Rightarrow> nat \<Rightarrow> bytes \<Rightarrow> 'i \<Rightarrow> 'r list \<Rightarrow> 'i" where
  "index_after mk step offset previous index [] = index"
| "index_after mk step offset previous index (e # es) =
     (case mk e previous of
        Inl _ \<Rightarrow> index
      | Inr (framed, head) \<Rightarrow>
          index_after mk step (offset + length framed) head (step index e (offset + length framed) head) es)"

text \<open>
  \<open>c\<close> holds the dependencies (hash, archive), and \<open>good\<close> says that they keep their promises. \<open>read\<close> is the loop from
  a position, record number and index on; \<open>lies\<close> is whether what is left of a cut frame authenticates.
\<close>

locale chained_replay =
  fixes good :: "'c \<Rightarrow> bool"
    and mk :: "'c \<Rightarrow> 'r \<Rightarrow> bytes \<Rightarrow> 'e + (bytes \<times> bytes)"
    and read :: "'c \<Rightarrow> disk \<Rightarrow> nat \<Rightarrow> nat \<Rightarrow> 'i \<Rightarrow> bytes \<Rightarrow> 'e + ('i \<times> nat)"
    and step :: "'c \<Rightarrow> 'i \<Rightarrow> 'r \<Rightarrow> nat \<Rightarrow> bytes \<Rightarrow> 'i"
    and committed :: "'i \<Rightarrow> nat"
    and most :: nat
    and too_many :: "nat \<Rightarrow> 'e"
    and corrupt :: "nat \<Rightarrow> 'e"
    and lies :: "'c \<Rightarrow> bytes \<Rightarrow> bytes \<Rightarrow> bool"
  assumes committed_step: "committed (step c index e n head) = n"
    and read_step: "good c \<Longrightarrow> mk c e previous = Inr (framed, head) \<Longrightarrow> dk_fault d = None \<Longrightarrow> dk_bytes d = pre @ framed @ rest \<Longrightarrow>
      length (dk_bytes d) \<le> u64_max \<Longrightarrow> committed index = length pre \<Longrightarrow>
      read c d (length pre) n index previous =
        (if n + 1 > most then Inl (too_many (n + 1))
         else read c d (length pre + length framed) (n + 1) (step c index e (length pre + length framed) head) head)"
    and read_cut: "good c \<Longrightarrow> mk c e previous = Inr (framed, head) \<Longrightarrow> dk_fault d = None \<Longrightarrow> dk_bytes d = pre @ take k framed \<Longrightarrow>
      k < length framed \<Longrightarrow> committed index = length pre \<Longrightarrow>
      read c d (length pre) n index previous =
        (if lies c (take k framed) previous then Inl (corrupt n) else Inr (index, length (dk_bytes d)))"
    and read_end: "dk_fault d = None \<Longrightarrow> dk_bytes d = pre \<Longrightarrow> read c d (length pre) n index previous = Inr (index, length pre)"
begin

lemma committed_after:
  "chain (mk c) previous es = Some (body, tail) \<Longrightarrow> committed index = offset \<Longrightarrow>
    committed (index_after (mk c) (step c) offset previous index es) = offset + length body"
proof (induction es arbitrary: previous body offset index)
  case (Cons e es)
  then show ?case by (elim chain_ConsE) (simp add: committed_step)
qed simp

lemma read_chain:
  assumes "good c" and "dk_fault d = None" and "length (dk_bytes d) \<le> u64_max"
    and "chain (mk c) previous es = Some (body, tail)" and "dk_bytes d = pre @ body @ torn" and "n + length es \<le> most"
    and "committed index = length pre"
  shows "read c d (length pre) n index previous =
    read c d (length (pre @ body)) (n + length es) (index_after (mk c) (step c) (length pre) previous index es) tail"
  using assms(4-7)
proof (induction es arbitrary: previous body pre n index)
  case (Cons e es)
  obtain framed head rest where f: "mk c e previous = Inr (framed, head)" "chain (mk c) head es = Some (rest, tail)" "body = framed @ rest"
    using Cons.prems(1) by (rule chain_ConsE)
  have bytes: "dk_bytes d = pre @ framed @ (rest @ torn)" "dk_bytes d = (pre @ framed) @ rest @ torn" using Cons.prems(2) f(3) by simp_all
  have few: "\<not> n + 1 > most" "n + 1 + length es \<le> most" using Cons.prems(3) by simp_all
  show ?case
    using read_step [OF assms(1) f(1) assms(2) bytes(1) assms(3) Cons.prems(4), of n]
      Cons.IH [OF f(2) bytes(2) few(2), of "step c index e (length pre + length framed) head"] few(1)
    by (simp add: f add.assoc committed_step)
qed simp

text \<open>A file of whole frames, one that ends in a cut frame, and one with a record too many.\<close>

lemma read_written:
  assumes "good c" and "dk_fault d = None" and "length (dk_bytes d) \<le> u64_max"
    and "chain (mk c) previous es = Some (body, tail)" and "dk_bytes d = pre @ body" and "length es \<le> most" and "committed index = length pre"
  shows "read c d (length pre) 0 index previous = Inr (index_after (mk c) (step c) (length pre) previous index es, length (dk_bytes d))"
  using read_chain [OF assms(1-4), of pre "[]" 0 index] read_end [OF assms(2,5)] assms(5-7) by simp

lemma read_torn:
  assumes "good c" and "dk_fault d = None" and "length (dk_bytes d) \<le> u64_max"
    and "chain (mk c) previous es = Some (body, tail)" and "mk c e tail = Inr (framed, head)"
    and "dk_bytes d = pre @ body @ take k framed" and "k < length framed" and "length es \<le> most" and "committed index = length pre"
  shows "read c d (length pre) 0 index previous =
    (if lies c (take k framed) tail then Inl (corrupt (length es))
     else Inr (index_after (mk c) (step c) (length pre) previous index es, length (dk_bytes d)))"
proof -
  have "dk_bytes d = (pre @ body) @ take k framed" using assms(6) by simp
  note cut = read_cut [OF assms(1,5,2) this assms(7), of "index_after (mk c) (step c) (length pre) previous index es" "length es"]
  show ?thesis using read_chain [OF assms(1-4,6), of 0 index] committed_after [OF assms(4,9)] cut assms(8,9) by simp
qed

lemma read_over:
  assumes "good c" and "dk_fault d = None" and "length (dk_bytes d) \<le> u64_max"
    and "chain (mk c) previous es = Some (body, tail)" and "dk_bytes d = pre @ body @ torn" and "most < length es" and "committed index = length pre"
  shows "read c d (length pre) 0 index previous = Inl (too_many (most + 1))"
proof -
  obtain e fs where es: "es = take most es @ e # fs"
    using assms(6) id_take_nth_drop by blast
  obtain b1 t1 b2 where s: "chain (mk c) previous (take most es) = Some (b1, t1)" "chain (mk c) t1 (e # fs) = Some (b2, tail)" "body = b1 @ b2"
    using chain_split assms(4) es by metis
  obtain framed head b3 where f: "mk c e t1 = Inr (framed, head)" "b2 = framed @ b3"
    using s(2) by (rule chain_ConsE)
  have d: "dk_bytes d = pre @ b1 @ (b2 @ torn)" "dk_bytes d = (pre @ b1) @ framed @ (b3 @ torn)"
    using assms(5) s(3) f(2) by simp_all
  have len: "length (take most es) = most" using assms(6) by simp
  show ?thesis
    using read_chain [OF assms(1-3) s(1) d(1), of 0 index] committed_after [OF s(1) assms(7)]
      read_step [OF assms(1) f(1) assms(2) d(2) assms(3), of _ most] len assms(7) by simp
qed

end

end
