(* ===== verification/Run_Ledger.thy ===== *)
theory Run_Ledger
  imports Chain Hex
begin

text \<open>
  \<open>crates/lgwks-bot/src/task/ledger.rs\<close>: the durable ledger of what every run has been charged. An open
  ledger is its file, the position of the file's cursor, the index in memory, and the poison latch of its
  storage owner. The archive of an entry (rkyv) and the hash (BLAKE3) are dependencies: the arguments of
  \<open>archive\<close>. The device answers through \<open>device\<close>: whether writing the header and trimming succeed, and
  how many bytes of a frame reach the file when writing or flushing it fails. Names are their UTF-8 bytes.
\<close>

section \<open>Entries\<close>

type_synonym run_id = nat

record entry =
  en_run :: run_id
  en_tenant :: bytes
  en_attempts :: nat
  en_spend :: nat
  en_epoch :: nat
  en_applied :: "bytes option"

record archive =
  ar_hash :: "bytes \<Rightarrow> bytes"
  ar_to :: "entry \<Rightarrow> bytes option"
  ar_from :: "bytes \<Rightarrow> entry option"

definition ledger_magic :: bytes where
  "ledger_magic = [108, 103, 119, 107, 115, 45, 114, 117, 110, 108, 101, 100, 103, 101, 114, 0, 1]"

definition max_ledger_record_bytes :: nat where "max_ledger_record_bytes = 16 * 1024"
definition max_ledger_records :: nat where "max_ledger_records = 65536"
definition max_store_bytes :: nat where "max_store_bytes = 64 * 1024 * 1024"

definition genesis_head :: "archive \<Rightarrow> bytes" where
  "genesis_head ar = ar_hash ar (write_framed
     [108, 103, 119, 107, 115, 45, 114, 117, 110, 108, 101, 100, 103, 101, 114, 47, 103, 101, 110, 101, 115, 105, 115])"

definition head_from :: "archive \<Rightarrow> entry \<Rightarrow> bytes \<Rightarrow> bytes" where
  "head_from ar e previous = ar_hash ar
     (write_framed previous @ write_framed (hex_encode (be_bytes 16 (en_run e))) @ write_framed (en_tenant e) @
      write_framed (le_bytes 8 (en_attempts e)) @ write_framed (le_bytes 8 (en_spend e)) @ write_framed (le_bytes 8 (en_epoch e)) @
      write_framed (case en_applied e of Some ticket \<Rightarrow> ticket | None \<Rightarrow> []))"

section \<open>State\<close>

record control =
  co_tenant :: bytes
  co_attempts :: nat
  co_spend :: nat
  co_epoch :: nat
  co_applied :: "bytes list"

definition control_fresh :: "bytes \<Rightarrow> control" where
  "control_fresh tenant = \<lparr>co_tenant = tenant, co_attempts = 0, co_spend = 0, co_epoch = 0, co_applied = []\<rparr>"

record ledger_index =
  ix_runs :: "run_id \<Rightarrow> control option"
  ix_committed :: nat
  ix_tail :: bytes

definition fold_entry :: "ledger_index \<Rightarrow> entry \<Rightarrow> ledger_index" where
  "fold_entry index e =
     (let run = (case ix_runs index (en_run e) of Some run \<Rightarrow> run | None \<Rightarrow> control_fresh (en_tenant e));
          run = run\<lparr>co_tenant := en_tenant e, co_attempts := en_attempts e, co_spend := en_spend e, co_epoch := en_epoch e\<rparr>;
          run = (case en_applied e of
                   Some ticket \<Rightarrow> if ticket \<in> set (co_applied run) then run else run\<lparr>co_applied := co_applied run @ [ticket]\<rparr>
                 | None \<Rightarrow> run)
      in index\<lparr>ix_runs := (ix_runs index)(en_run e \<mapsto> run)\<rparr>)"

record ticket_stamp =
  ts_identity :: bytes
  ts_epoch :: nat

datatype lease_refusal =
    LeaseForeignTenant bytes bytes
  | LeaseStaleEpoch nat nat
  | LeaseAlreadyApplied
  | LeaseBudgetSpent nat nat

datatype store_limit_kind = RecordBytes | Records | StoreBytes | PendingApprovals

text \<open>
  The variants of \<open>StoreError\<close> a ledger or a run store reaches. The device's refusal, the error of a job on the owner's
  thread and the poison refusal are all \<open>Storage\<close> in the code, told apart by the \<open>io::Error\<close> they carry.
\<close>

datatype store_error =
    StoreLimit store_limit_kind nat nat
  | StoreStorage io_error
  | StoreOwnerSaid store_error
  | StorePoisoned
  | NotAStore
  | FormatVersion u8 u8
  | ForeignTenant bytes bytes
  | StoreCorrupt nat
  | StoreEncoding

datatype commit_error = CommitStore store_error | CommitRefused lease_refusal

record charge =
  ch_tenant :: bytes
  ch_run :: run_id
  ch_ticket :: "ticket_stamp option"
  ch_cost :: nat

record ceilings =
  ce_attempts :: nat
  ce_spend :: nat

section \<open>Deciding\<close>

definition decide_under :: "ledger_index \<Rightarrow> charge \<Rightarrow> ceilings \<Rightarrow> lease_refusal + entry \<times> control" where
  "decide_under index charge ceilings =
     (let tenant = ch_tenant charge;
          upcoming = (case ix_runs index (ch_run charge) of Some control \<Rightarrow> control | None \<Rightarrow> control_fresh tenant) in
      if co_tenant upcoming \<noteq> tenant then Inl (LeaseForeignTenant (co_tenant upcoming) tenant)
      else
        let next_attempts = sat_add_u64 (co_attempts upcoming) 1; next_spend = sat_add_u64 (co_spend upcoming) (ch_cost charge) in
        if next_attempts > ce_attempts ceilings \<or> next_spend > ce_spend ceilings
        then Inl (LeaseBudgetSpent next_attempts (ce_attempts ceilings))
        else
          rbind (case ch_ticket charge of
                   None \<Rightarrow> Inr (None, upcoming)
                 | Some stamp \<Rightarrow>
                     if ts_epoch stamp \<noteq> co_epoch upcoming then Inl (LeaseStaleEpoch (co_epoch upcoming) (ts_epoch stamp))
                     else if ts_identity stamp \<in> set (co_applied upcoming) then Inl LeaseAlreadyApplied
                     else Inr (Some (ts_identity stamp),
                            upcoming\<lparr>co_epoch := sat_add_u64 (co_epoch upcoming) 1, co_applied := co_applied upcoming @ [ts_identity stamp]\<rparr>))
            (\<lambda>(applied, upcoming).
               let upcoming = upcoming\<lparr>co_attempts := next_attempts, co_spend := next_spend\<rparr> in
               Inr (\<lparr>en_run = ch_run charge, en_tenant = tenant, en_attempts = co_attempts upcoming, en_spend = co_spend upcoming,
                      en_epoch = co_epoch upcoming, en_applied = applied\<rparr>, upcoming)))"

section \<open>Writing\<close>

record device =
  dv_header :: bool
  dv_trim :: bool
  dv_wrote :: "nat option"

record ledger =
  lg_disk :: disk
  lg_pos :: nat
  lg_index :: ledger_index
  lg_poisoned :: bool

text \<open>Writing at the cursor: past the end of the file the gap reads as zeros.\<close>

definition write_at :: "nat \<Rightarrow> bytes \<Rightarrow> bytes \<Rightarrow> bytes" where
  "write_at pos bs file =
     (if bs = [] then file else take pos (file @ replicate (pos - length file) 0) @ bs @ drop (pos + length bs) file)"

definition write_all :: "bytes \<Rightarrow> ledger \<Rightarrow> ledger" where
  "write_all bs l = l\<lparr>lg_disk := (lg_disk l)\<lparr>dk_bytes := write_at (lg_pos l) bs (dk_bytes (lg_disk l))\<rparr>, lg_pos := lg_pos l + length bs\<rparr>"

definition ledger_frame :: "archive \<Rightarrow> entry \<Rightarrow> bytes \<Rightarrow> store_error + (bytes \<times> bytes)" where
  "ledger_frame ar = frame_record (\<lambda>e. case ar_to ar e of Some payload \<Rightarrow> Inr payload | None \<Rightarrow> Inl StoreEncoding)
     (\<lambda>e previous _. head_from ar e previous) (\<lambda>len. StoreLimit RecordBytes len max_ledger_record_bytes) max_ledger_record_bytes"

definition write_entry :: "archive \<Rightarrow> device \<Rightarrow> entry \<Rightarrow> ledger \<Rightarrow> (store_error + unit) \<times> ledger" where
  "write_entry ar dev e l =
     (let index = lg_index l; previous = ix_tail index in
      case ledger_frame ar e previous of
        Inl err \<Rightarrow> (Inl err, l)
      | Inr (framed, head) \<Rightarrow>
          let file_len = ix_committed index + length framed in
          if file_len > u64_max then (Inl (StoreLimit StoreBytes u64_max max_store_bytes), l)
          else if length (dk_bytes (lg_disk l)) \<noteq> ix_committed index then (Inl (StoreCorrupt 0), l)
          else
            case dv_wrote dev of
              Some n \<Rightarrow> (Inl (StoreStorage DeviceRefused), write_all (take n framed) l)
            | None \<Rightarrow>
                (Inr (), (write_all framed l)\<lparr>lg_index := fold_entry (index\<lparr>ix_committed := file_len, ix_tail := head\<rparr>) e\<rparr>))"

definition charge_on_owner :: "archive \<Rightarrow> device \<Rightarrow> charge \<Rightarrow> ceilings \<Rightarrow> ledger \<Rightarrow> (commit_error + control) \<times> ledger" where
  "charge_on_owner ar dev charge ceilings l =
     (case decide_under (lg_index l) charge ceilings of
        Inl refusal \<Rightarrow> (Inl (CommitRefused refusal), l)
      | Inr (e, upcoming) \<Rightarrow>
          (case write_entry ar dev e l of
             (Inl err, l) \<Rightarrow> (Inl (CommitStore (StoreOwnerSaid err)), l)
           | (Inr _, l) \<Rightarrow> (Inr upcoming, l)))"

text \<open>\<open>charge\<close>, alone in its batch: the owner refuses when it is poisoned, and every error it answers poisons it.\<close>

definition ledger_charge :: "archive \<Rightarrow> device \<Rightarrow> charge \<Rightarrow> ceilings \<Rightarrow> ledger \<Rightarrow> (commit_error + control) \<times> ledger" where
  "ledger_charge ar dev charge ceilings l =
     (if lg_poisoned l then (Inl (CommitStore StorePoisoned), l)
      else
        case charge_on_owner ar dev charge ceilings l of
          (Inl e, l) \<Rightarrow> (Inl e, l\<lparr>lg_poisoned := True\<rparr>)
        | (Inr control, l) \<Rightarrow> (Inr control, l))"

section \<open>Opening\<close>

definition entry_head :: "archive \<Rightarrow> bytes \<Rightarrow> bytes \<Rightarrow> bytes option" where
  "entry_head ar previous payload = (case ar_from ar payload of None \<Rightarrow> None | Some e \<Rightarrow> Some (head_from ar e previous))"

record framed =
  fd_entry :: entry
  fd_head :: bytes
  fd_declared :: nat

definition next_frame :: "archive \<Rightarrow> disk \<Rightarrow> nat \<Rightarrow> cursor \<Rightarrow> store_error + (framed option \<times> nat)" where
  "next_frame ar d pos c =
     rbind (read_raw (entry_head ar) StoreStorage (StoreCorrupt (cu_at c)) max_ledger_record_bytes d pos c) (\<lambda>(raw, pos).
       case raw of
         None \<Rightarrow> Inr (None, pos)
       | Some raw \<Rightarrow>
           (case ar_from ar (rw_payload raw) of
              None \<Rightarrow> Inl (StoreCorrupt (cu_at c))
            | Some e \<Rightarrow> Inr (Some \<lparr>fd_entry = e, fd_head = rw_head raw, fd_declared = length (rw_payload raw)\<rparr>, pos)))"

lemma read_raw_advances:
  assumes "read_raw head_of storage corrupt max_frame_bytes d pos c = Inr (Some raw, pos')"
  shows "pos < pos' \<and> pos' \<le> length (dk_bytes d)"
proof -
  obtain declared got where "pos' = pos + length_bytes + declared + head_bytes"
      "device_read d (pos + length_bytes + declared) head_bytes = Inr got" "length got = head_bytes"
    using assms by (auto simp: read_raw_def read_piece_def Let_def split: sum.splits prefix.splits piece.splits if_splits)
  then show ?thesis using device_read_within [of d "pos + length_bytes + declared" head_bytes got] by (simp add: head_bytes_def)
qed

lemma next_frame_advances:
  assumes "next_frame ar d pos c = Inr (Some f, pos')"
  shows "pos < pos' \<and> pos' \<le> length (dk_bytes d)"
  using assms read_raw_advances by (fastforce simp: next_frame_def split: option.splits)

function replay_loop :: "archive \<Rightarrow> disk \<Rightarrow> nat \<Rightarrow> nat \<Rightarrow> nat \<Rightarrow> ledger_index \<Rightarrow> bytes \<Rightarrow> store_error + (ledger_index \<times> nat)" where
  "replay_loop ar d file_len pos n index previous =
     (case next_frame ar d pos \<lparr>cu_at = n, cu_offset = ix_committed index, cu_previous = previous\<rparr> of
        Inl e \<Rightarrow> Inl e
      | Inr (None, pos) \<Rightarrow> Inr (index, pos)
      | Inr (Some f, pos) \<Rightarrow>
          if head_from ar (fd_entry f) previous \<noteq> fd_head f then Inl (StoreCorrupt n)
          else
            let frame_len = framed_len (fd_declared f) in
            if ix_committed index + frame_len > u64_max \<or> ix_committed index + frame_len > file_len then Inr (index, pos)
            else
              let index = index\<lparr>ix_committed := ix_committed index + frame_len, ix_tail := head_from ar (fd_entry f) previous\<rparr> in
              if n + 1 > max_ledger_records then Inl (StoreLimit Records (n + 1) max_ledger_records)
              else replay_loop ar d file_len pos (n + 1) (fold_entry index (fd_entry f)) (ix_tail index))"
  by pat_completeness auto
termination
  by (relation "measure (\<lambda>(ar, d, file_len, pos, n, index, previous). length (dk_bytes d) - pos)")
    (auto dest!: next_frame_advances)

declare replay_loop.simps [simp del]

definition replay :: "archive \<Rightarrow> disk \<Rightarrow> store_error + (ledger_index \<times> nat)" where
  "replay ar d =
     (case device_read d 0 (length ledger_magic) of
        Inl e \<Rightarrow> Inl (StoreStorage e)
      | Inr header \<Rightarrow>
          if header \<noteq> ledger_magic then Inl NotAStore
          else replay_loop ar d (length (dk_bytes d)) (length ledger_magic) 0
                 \<lparr>ix_runs = (\<lambda>_. None), ix_committed = length ledger_magic, ix_tail = genesis_head ar\<rparr> (genesis_head ar))"

definition ledger_open :: "archive \<Rightarrow> device \<Rightarrow> disk \<Rightarrow> store_error + ledger" where
  "ledger_open ar dev d =
     (if dk_bytes d = [] \<and> \<not> dv_header dev then Inl (StoreStorage DeviceRefused)
      else
        let d = (if dk_bytes d = [] then d\<lparr>dk_bytes := ledger_magic\<rparr> else d) in
        rbind (replay ar d) (\<lambda>(index, pos).
          if length (dk_bytes d) = ix_committed index
          then Inr \<lparr>lg_disk = d, lg_pos = pos, lg_index = index, lg_poisoned = False\<rparr>
          else if dv_trim dev
          then Inr \<lparr>lg_disk = d\<lparr>dk_bytes := take (ix_committed index) (dk_bytes d)\<rparr>, lg_pos = pos, lg_index = index, lg_poisoned = False\<rparr>
          else Inl (StoreStorage DeviceRefused)))"

section \<open>The chain\<close>

abbreviation frames :: "archive \<Rightarrow> bytes \<Rightarrow> entry list \<Rightarrow> (bytes \<times> bytes) option" where
  "frames ar \<equiv> chain (ledger_frame ar)"

text \<open>What an archive and a hash promise.\<close>

definition archive_ok :: "archive \<Rightarrow> bool" where
  "archive_ok ar \<longleftrightarrow> (\<forall>bs. length (ar_hash ar bs) = head_bytes) \<and> (\<forall>e payload. ar_to ar e = Some payload \<longrightarrow> ar_from ar payload = Some e)"

lemma ledger_frameE:
  assumes "archive_ok ar" and "ledger_frame ar e previous = Inr (framed, head)"
  obtains payload where "ar_from ar payload = Some e" "head = head_from ar e previous" "length head = head_bytes"
    "framed = encode_frame (length payload) payload head" "is_possible_length (length payload) max_ledger_record_bytes"
    "length framed = 36 + length payload"
proof -
  obtain payload where p: "ar_to ar e = Some payload" "is_possible_length (length payload) max_ledger_record_bytes"
      "head = head_from ar e previous" "framed = encode_frame (length payload) payload head"
    using assms(2) by (auto simp: ledger_frame_def frame_record_def writable_length_def Let_def split: option.splits if_splits)
  moreover have "length head = head_bytes" using p(3) assms(1) by (simp add: head_from_def archive_ok_def)
  moreover have "ar_from ar payload = Some e" using p(1) assms(1) by (simp add: archive_ok_def)
  ultimately show thesis using that [of payload] by simp
qed

lemma record_limit: "max_ledger_record_bytes \<le> u32_max"
  by (simp add: max_ledger_record_bytes_def u32_max_def)

lemma next_frame_written:
  assumes "archive_ok ar" and "ledger_frame ar e previous = Inr (framed, head)"
    and "dk_fault d = None" and "dk_bytes d = pre @ framed @ rest"
  shows "next_frame ar d (length pre) c = Inr (Some \<lparr>fd_entry = e, fd_head = head, fd_declared = length framed - 36\<rparr>, length pre + length framed)"
    and "framed_len (length framed - 36) = length framed"
proof -
  obtain payload where p: "ar_from ar payload = Some e" "length head = head_bytes" "framed = encode_frame (length payload) payload head"
      "is_possible_length (length payload) max_ledger_record_bytes" "length framed = 36 + length payload"
    using ledger_frameE [OF assms(1,2)] by metis
  show "next_frame ar d (length pre) c = Inr (Some \<lparr>fd_entry = e, fd_head = head, fd_declared = length framed - 36\<rparr>, length pre + length framed)"
    unfolding next_frame_def
    by (subst read_raw_whole [OF assms(3) assms(4) [unfolded p(3)] p(4) record_limit p(2)]) (simp add: p(1,5))
  have "length payload \<le> u32_max" using p(4) record_limit by (simp add: is_possible_length_def)
  then show "framed_len (length framed - 36) = length framed" using framed_len_plain by (simp add: p(5))
qed

text \<open>The runs a list of entries leaves; the fold touches nothing else.\<close>

definition run_step :: "(run_id \<Rightarrow> control option) \<Rightarrow> entry \<Rightarrow> run_id \<Rightarrow> control option" where
  "run_step runs e = ix_runs (fold_entry \<lparr>ix_runs = runs, ix_committed = 0, ix_tail = []\<rparr> e)"

definition runs_after :: "(run_id \<Rightarrow> control option) \<Rightarrow> entry list \<Rightarrow> run_id \<Rightarrow> control option" where
  "runs_after = foldl run_step"

lemma runs_after_simps [simp]:
  "runs_after runs [] = runs"
  "runs_after runs (e # es) = runs_after (run_step runs e) es"
  "runs_after runs (es @ fs) = runs_after (runs_after runs es) fs"
  by (simp_all add: runs_after_def)

lemma fold_entry_runs: "fold_entry index e = index\<lparr>ix_runs := run_step (ix_runs index) e\<rparr>"
  by (simp add: fold_entry_def run_step_def Let_def)

lemma index_updated:
  "(index :: ledger_index)\<lparr>ix_committed := n, ix_tail := t, ix_runs := runs\<rparr> = \<lparr>ix_runs = runs, ix_committed = n, ix_tail = t\<rparr>"
  by (cases index) simp

lemma replay_loop_step:
  assumes "archive_ok ar" and "ledger_frame ar e previous = Inr (framed, head)"
    and "dk_fault d = None" and "dk_bytes d = pre @ framed @ rest" and "length (dk_bytes d) \<le> u64_max"
    and "ix_committed index = length pre"
  shows "replay_loop ar d (length (dk_bytes d)) (length pre) n index previous =
    (if n + 1 > max_ledger_records then Inl (StoreLimit Records (n + 1) max_ledger_records)
     else replay_loop ar d (length (dk_bytes d)) (length pre + length framed) (n + 1)
       \<lparr>ix_runs = run_step (ix_runs index) e, ix_committed = length pre + length framed, ix_tail = head\<rparr> head)"
proof -
  note f = next_frame_written [OF assms(1-4)]
  have "head = head_from ar e previous" using ledger_frameE [OF assms(1,2)] by metis
  moreover have "length pre + length framed \<le> length (dk_bytes d)" using assms(4) by simp
  ultimately show ?thesis
    using assms(5,6) by (subst replay_loop.simps) (simp add: f Let_def fold_entry_runs index_updated)
qed

text \<open>The end of the scan: nothing, or a frame that was cut short.\<close>

lemma replay_loop_torn:
  assumes "archive_ok ar" and "dk_fault d = None" and "ledger_frame ar e previous = Inr (framed, head)" and "k < length framed"
    and "dk_bytes d = pre @ take k framed" and "ix_committed index = length pre"
  shows "replay_loop ar d file_len (length pre) n index previous =
    (if length_bytes \<le> k \<and> holds_acknowledged_frame (entry_head ar) max_ledger_record_bytes (drop length_bytes (take k framed)) previous
     then Inl (StoreCorrupt n) else Inr (index, length (dk_bytes d)))"
proof -
  obtain payload where p: "length head = head_bytes" "framed = encode_frame (length payload) payload head"
      "is_possible_length (length payload) max_ledger_record_bytes"
    using ledger_frameE [OF assms(1,3)] by metis
  show ?thesis
    using assms(6) by (subst replay_loop.simps) (simp add: next_frame_def read_raw_cut_frame [OF assms(2,5,4) p(2,1,3) record_limit])
qed

lemma replay_loop_end:
  assumes "dk_fault d = None" and "dk_bytes d = pre"
  shows "replay_loop ar d file_len (length pre) n index previous = Inr (index, length pre)"
  using assms by (subst replay_loop.simps) (simp add: next_frame_def read_raw_torn length_bytes_def)

section \<open>Opening what was written\<close>

definition cut_lies :: "archive \<Rightarrow> bytes \<Rightarrow> bytes \<Rightarrow> bool" where
  "cut_lies ar rest previous \<longleftrightarrow>
     length_bytes \<le> length rest \<and> holds_acknowledged_frame (entry_head ar) max_ledger_record_bytes (drop length_bytes rest) previous"

definition index_step :: "ledger_index \<Rightarrow> entry \<Rightarrow> nat \<Rightarrow> bytes \<Rightarrow> ledger_index" where
  "index_step index e n head = \<lparr>ix_runs = run_step (ix_runs index) e, ix_committed = n, ix_tail = head\<rparr>"

interpretation ledger_log: chained_replay archive_ok ledger_frame "\<lambda>ar d. replay_loop ar d (length (dk_bytes d))" "\<lambda>_. index_step" ix_committed
  max_ledger_records "\<lambda>n. StoreLimit Records n max_ledger_records" StoreCorrupt cut_lies
proof
  fix c e previous framed head pre k n and d :: disk and index :: ledger_index
  assume "archive_ok c" "ledger_frame c e previous = Inr (framed, head)" "dk_fault d = None" "dk_bytes d = pre @ take k framed" "k < length framed"
    "ix_committed index = length pre"
  then show "replay_loop c d (length (dk_bytes d)) (length pre) n index previous =
      (if cut_lies c (take k framed) previous then Inl (StoreCorrupt n) else Inr (index, length (dk_bytes d)))"
    using replay_loop_torn [of c d e previous framed head k pre index "length (dk_bytes d)" n] by (simp add: cut_lies_def)
next
  fix c e previous framed head pre rest n and d :: disk and index :: ledger_index
  assume "archive_ok c" "ledger_frame c e previous = Inr (framed, head)" "dk_fault d = None" "dk_bytes d = pre @ framed @ rest"
    "length (dk_bytes d) \<le> u64_max" "ix_committed index = length pre"
  then show "replay_loop c d (length (dk_bytes d)) (length pre) n index previous =
      (if n + 1 > max_ledger_records then Inl (StoreLimit Records (n + 1) max_ledger_records)
       else replay_loop c d (length (dk_bytes d)) (length pre + length framed) (n + 1) (index_step index e (length pre + length framed) head) head)"
    unfolding index_step_def by (rule replay_loop_step)
qed (simp_all add: index_step_def replay_loop_end)

lemma index_after_frames:
  "frames ar previous es = Some (body, tail) \<Longrightarrow>
    index_after (ledger_frame ar) index_step n previous \<lparr>ix_runs = runs, ix_committed = n, ix_tail = previous\<rparr> es =
      \<lparr>ix_runs = runs_after runs es, ix_committed = n + length body, ix_tail = tail\<rparr>"
proof (induction es arbitrary: previous body n runs)
  case (Cons e es)
  then show ?case by (elim chain_ConsE) (simp add: index_step_def)
qed simp

lemma magic_nonempty: "ledger_magic \<noteq> []"
  by (simp add: ledger_magic_def)

lemma replay_magic:
  assumes "dk_fault d = None" and "dk_bytes d = ledger_magic @ rest"
  shows "replay ar d = replay_loop ar d (length (dk_bytes d)) (length ledger_magic) 0
    \<lparr>ix_runs = (\<lambda>_. None), ix_committed = length ledger_magic, ix_tail = genesis_head ar\<rparr> (genesis_head ar)"
  using assms by (simp add: replay_def)

lemma replay_written:
  assumes "archive_ok ar" and "dk_fault d = None" and "length (dk_bytes d) \<le> u64_max"
    and "frames ar (genesis_head ar) es = Some (body, tail)" and "dk_bytes d = ledger_magic @ body @ torn"
    and "length es \<le> max_ledger_records"
  shows "replay ar d = replay_loop ar d (length (dk_bytes d)) (length (ledger_magic @ body)) (length es)
    \<lparr>ix_runs = runs_after (\<lambda>_. None) es, ix_committed = length (ledger_magic @ body), ix_tail = tail\<rparr> tail"
  using ledger_log.read_chain [OF assms(1-5), of 0 "\<lparr>ix_runs = (\<lambda>_. None), ix_committed = length ledger_magic, ix_tail = genesis_head ar\<rparr>"]
    replay_magic [OF assms(2,5), of ar] index_after_frames [OF assms(4)] assms(6)
  by simp

lemma open_written:
  assumes "archive_ok ar" and "dk_fault d = None" and "length (dk_bytes d) \<le> u64_max"
    and "frames ar (genesis_head ar) es = Some (body, tail)" and "dk_bytes d = ledger_magic @ body" and "length es \<le> max_ledger_records"
  shows "ledger_open ar dev d = Inr \<lparr>lg_disk = d, lg_pos = length (dk_bytes d),
    lg_index = \<lparr>ix_runs = runs_after (\<lambda>_. None) es, ix_committed = length (dk_bytes d), ix_tail = tail\<rparr>, lg_poisoned = False\<rparr>"
  using ledger_log.read_written [OF assms, of "\<lparr>ix_runs = (\<lambda>_. None), ix_committed = length ledger_magic, ix_tail = genesis_head ar\<rparr>"]
    replay_magic [OF assms(2,5), of ar] index_after_frames [OF assms(4)] assms(5) magic_nonempty
  by (simp add: ledger_open_def)

lemma open_torn:
  assumes "archive_ok ar" and "dk_fault d = None" and "length (dk_bytes d) \<le> u64_max"
    and "frames ar (genesis_head ar) es = Some (body, tail)" and "ledger_frame ar e tail = Inr (framed, head)"
    and "dk_bytes d = ledger_magic @ body @ take k framed" and "0 < k" and "k < length framed" and "length es \<le> max_ledger_records"
  shows "ledger_open ar dev d =
    (if length_bytes \<le> k \<and> holds_acknowledged_frame (entry_head ar) max_ledger_record_bytes (drop length_bytes (take k framed)) tail
     then Inl (StoreCorrupt (length es))
     else if dv_trim dev then Inr \<lparr>lg_disk = d\<lparr>dk_bytes := ledger_magic @ body\<rparr>, lg_pos = length (dk_bytes d),
       lg_index = \<lparr>ix_runs = runs_after (\<lambda>_. None) es, ix_committed = length (ledger_magic @ body), ix_tail = tail\<rparr>, lg_poisoned = False\<rparr>
     else Inl (StoreStorage DeviceRefused))"
proof -
  have bytes: "dk_bytes d = (ledger_magic @ body) @ take k framed" using assms(6) by simp
  have longer: "length (dk_bytes d) \<noteq> length (ledger_magic @ body)" and cut: "take (length (ledger_magic @ body)) (dk_bytes d) = ledger_magic @ body"
    using assms(7,8) unfolding bytes by simp_all
  show ?thesis
    unfolding ledger_open_def Let_def
    using ledger_log.read_torn [OF assms(1-6,8,9), of "\<lparr>ix_runs = (\<lambda>_. None), ix_committed = length ledger_magic, ix_tail = genesis_head ar\<rparr>"]
      replay_magic [OF assms(2,6), of ar] index_after_frames [OF assms(4)] magic_nonempty assms(6,7,8) longer cut
    by (auto simp: cut_lies_def)
qed

text \<open>One entry more than the reader takes: the file is refused.\<close>

lemma open_over:
  assumes "archive_ok ar" and "dk_fault d = None" and "length (dk_bytes d) \<le> u64_max"
    and "frames ar (genesis_head ar) es = Some (body, tail)" and "dk_bytes d = ledger_magic @ body @ torn" and "max_ledger_records < length es"
  shows "ledger_open ar dev d = Inl (StoreLimit Records (max_ledger_records + 1) max_ledger_records)"
  using ledger_log.read_over [OF assms, of "\<lparr>ix_runs = (\<lambda>_. None), ix_committed = length ledger_magic, ix_tail = genesis_head ar\<rparr>"]
    replay_magic [OF assms(2,5), of ar] assms(5) magic_nonempty
  by (simp add: ledger_open_def)

section \<open>Deciding and folding agree\<close>

lemma decide_fold:
  assumes "decide_under index c ceilings = Inr (e, control)"
  shows "run_step (ix_runs index) e = (ix_runs index)(ch_run c \<mapsto> control)" and "en_run e = ch_run c"
proof -
  define old where "old = (case ix_runs index (ch_run c) of Some control \<Rightarrow> control | None \<Rightarrow> control_fresh (ch_tenant c))"
  show "en_run e = ch_run c"
    using assms by (auto simp: decide_under_def Let_def split: if_splits option.splits)
  have "co_tenant old = ch_tenant c"
    using assms by (auto simp: decide_under_def Let_def old_def [symmetric] split: if_splits)
  then show "run_step (ix_runs index) e = (ix_runs index)(ch_run c \<mapsto> control)"
    using assms by (auto simp: decide_under_def Let_def run_step_def fold_entry_def old_def split: if_splits option.splits)
qed

section \<open>Runs\<close>

text \<open>
  The life of a ledger file under one host's ceilings: \<open>es\<close> are the entries acknowledged so far (and those
  a failed write had put into the file whole, once the file is read again), \<open>pending\<close> the entry of a
  write that failed part-way. A crash keeps at least what was acknowledged, because every acknowledged
  write was flushed. An opening that trims a torn tail leaves its cursor behind the end of the file;
  \<open>gap\<close> says that a charge was written, or begun, at such a cursor. The file then has a hole, and its life
  is followed only until it is opened again: what that opening makes of it is \<open>repaired_tail_loses_ledger\<close>.
\<close>

inductive ledger_run :: "archive \<Rightarrow> ceilings \<Rightarrow> bool \<Rightarrow> entry list \<Rightarrow> entry option \<Rightarrow> ledger \<Rightarrow> bool" for ar ceilings where
  fresh: "ledger_open ar dev \<lparr>dk_bytes = [], dk_fault = None\<rparr> = Inr l \<Longrightarrow> ledger_run ar ceilings False [] None l"
| charged: "ledger_run ar ceilings gap es pending l \<Longrightarrow> decide_under (lg_index l) c ceilings = Inr (e, control) \<Longrightarrow>
    charge_on_owner ar dev c ceilings l = (Inr control, l') \<Longrightarrow>
    ledger_run ar ceilings (gap \<or> lg_pos l \<noteq> length (dk_bytes (lg_disk l))) (es @ [e]) pending l'"
| refused: "ledger_run ar ceilings gap es pending l \<Longrightarrow> decide_under (lg_index l) c ceilings = Inl refusal \<Longrightarrow>
    charge_on_owner ar dev c ceilings l = (Inl err, l') \<Longrightarrow> ledger_run ar ceilings gap es pending l'"
| failed: "ledger_run ar ceilings gap es pending l \<Longrightarrow> decide_under (lg_index l) c ceilings = Inr (e, control) \<Longrightarrow>
    charge_on_owner ar dev c ceilings l = (Inl err, l') \<Longrightarrow> wrote = (dk_bytes (lg_disk l') \<noteq> dk_bytes (lg_disk l)) \<Longrightarrow>
    ledger_run ar ceilings (gap \<or> wrote \<and> lg_pos l \<noteq> length (dk_bytes (lg_disk l))) es (if wrote then Some e else pending) l'"
| poisoned: "ledger_run ar ceilings gap es pending l \<Longrightarrow> ledger_run ar ceilings gap es pending (l\<lparr>lg_poisoned := True\<rparr>)"
| reopened: "ledger_run ar ceilings False es pending l \<Longrightarrow> ix_committed (lg_index l) \<le> kept \<Longrightarrow>
    ledger_open ar dev \<lparr>dk_bytes = take kept (dk_bytes (lg_disk l)), dk_fault = None\<rparr> = Inr l' \<Longrightarrow>
    ledger_run ar ceilings False (if ix_committed (lg_index l') = ix_committed (lg_index l) then es else es @ [the pending]) None l'"

text \<open>Entries that were decided, each against the runs the earlier ones left.\<close>

inductive legal :: "ceilings \<Rightarrow> entry list \<Rightarrow> bool" for ceilings where
  none: "legal ceilings []"
| decided: "legal ceilings es \<Longrightarrow> ix_runs index = runs_after (\<lambda>_. None) es \<Longrightarrow> decide_under index c ceilings = Inr (e, control) \<Longrightarrow>
    legal ceilings (es @ [e])"

definition torn_tail :: "archive \<Rightarrow> bytes \<Rightarrow> entry option \<Rightarrow> bytes \<Rightarrow> bool" where
  "torn_tail ar tail pending torn \<longleftrightarrow>
     (\<exists>e framed head k. pending = Some e \<and> ledger_frame ar e tail = Inr (framed, head) \<and> 0 < k \<and> k \<le> length framed \<and> torn = take k framed)"

definition ledger_inv :: "archive \<Rightarrow> ceilings \<Rightarrow> entry list \<Rightarrow> entry option \<Rightarrow> ledger \<Rightarrow> bytes \<Rightarrow> bytes \<Rightarrow> bool" where
  "ledger_inv ar ceilings es pending l body torn \<longleftrightarrow>
     frames ar (genesis_head ar) es = Some (body, ix_tail (lg_index l)) \<and>
     dk_bytes (lg_disk l) = ledger_magic @ body @ torn \<and> dk_fault (lg_disk l) = None \<and> length (dk_bytes (lg_disk l)) \<le> u64_max \<and>
     ix_committed (lg_index l) = length (ledger_magic @ body) \<and> ix_runs (lg_index l) = runs_after (\<lambda>_. None) es \<and>
     legal ceilings es \<and> (\<forall>e. pending = Some e \<longrightarrow> legal ceilings (es @ [e])) \<and>
     (torn = [] \<longrightarrow> length (ledger_magic @ body) \<le> lg_pos l \<and> pending = None) \<and>
     (torn \<noteq> [] \<longrightarrow> torn_tail ar (ix_tail (lg_index l)) pending torn)"

lemma ledger_invD:
  assumes "ledger_inv ar ceilings es pending l body torn"
  shows "frames ar (genesis_head ar) es = Some (body, ix_tail (lg_index l))"
    and "dk_bytes (lg_disk l) = ledger_magic @ body @ torn" and "dk_fault (lg_disk l) = None" and "length (dk_bytes (lg_disk l)) \<le> u64_max"
    and "ix_committed (lg_index l) = length (ledger_magic @ body)" and "ix_runs (lg_index l) = runs_after (\<lambda>_. None) es"
    and "legal ceilings es" and "pending = Some e \<Longrightarrow> legal ceilings (es @ [e])"
    and "torn = [] \<Longrightarrow> length (ledger_magic @ body) \<le> lg_pos l" and "torn = [] \<Longrightarrow> pending = None"
    and "torn \<noteq> [] \<Longrightarrow> torn_tail ar (ix_tail (lg_index l)) pending torn"
  using assms unfolding ledger_inv_def by blast+

text \<open>
  Once a file has a gap its length is no longer the committed one, so nothing is charged any more; the
  state in memory is still that of the entries it acknowledged.
\<close>

definition ledger_gap :: "ceilings \<Rightarrow> entry list \<Rightarrow> ledger \<Rightarrow> bool" where
  "ledger_gap ceilings es l \<longleftrightarrow> ix_runs (lg_index l) = runs_after (\<lambda>_. None) es \<and> legal ceilings es \<and> length es < u64_max \<and>
     length (dk_bytes (lg_disk l)) \<noteq> ix_committed (lg_index l)"

lemma ledger_frame_long: "archive_ok ar \<Longrightarrow> ledger_frame ar e previous = Inr (framed, head) \<Longrightarrow> 36 \<le> length framed"
  by (erule (1) ledger_frameE) simp

lemma magic_length: "length ledger_magic = 17"
  by (simp add: ledger_magic_def)

lemma frames_length:
  assumes "archive_ok ar"
  shows "frames ar previous es = Some (body, tail) \<Longrightarrow> length es \<le> length body"
proof (induction es arbitrary: previous body)
  case (Cons e es)
  obtain framed head rest where f: "ledger_frame ar e previous = Inr (framed, head)" "frames ar head es = Some (rest, tail)" "body = framed @ rest"
    using Cons.prems by (rule chain_ConsE)
  then show ?case using Cons.IH [OF f(2)] ledger_frame_long [OF assms f(1)] by simp
qed simp

lemma charge_cases:
  assumes "charge_on_owner ar dev c ceilings l = (result, l')"
  obtains (refused) refusal where "decide_under (lg_index l) c ceilings = Inl refusal" "result = Inl (CommitRefused refusal)" "l' = l"
  | (unwritten) e control err where "decide_under (lg_index l) c ceilings = Inr (e, control)" "result = Inl err" "l' = l"
  | (failed) e control err framed head n where "decide_under (lg_index l) c ceilings = Inr (e, control)" "result = Inl err"
      "ledger_frame ar e (ix_tail (lg_index l)) = Inr (framed, head)" "length (dk_bytes (lg_disk l)) = ix_committed (lg_index l)"
      "ix_committed (lg_index l) + length framed \<le> u64_max" "l' = write_all (take n framed) l"
  | (written) e control framed head where "decide_under (lg_index l) c ceilings = Inr (e, control)" "result = Inr control"
      "ledger_frame ar e (ix_tail (lg_index l)) = Inr (framed, head)" "length (dk_bytes (lg_disk l)) = ix_committed (lg_index l)"
      "ix_committed (lg_index l) + length framed \<le> u64_max"
      "l' = (write_all framed l)\<lparr>lg_index := fold_entry ((lg_index l)\<lparr>ix_committed := ix_committed (lg_index l) + length framed, ix_tail := head\<rparr>) e\<rparr>"
proof (cases "decide_under (lg_index l) c ceilings")
  case (Inl refusal)
  then show thesis using assms by (intro refused [OF Inl]) (simp_all add: charge_on_owner_def)
next
  case (Inr d)
  obtain e control where d: "decide_under (lg_index l) c ceilings = Inr (e, control)" using Inr by (cases d) simp
  show thesis
  proof (cases "ledger_frame ar e (ix_tail (lg_index l))")
    case (Inl err)
    then show thesis using assms by (intro unwritten [OF d, of "CommitStore (StoreOwnerSaid err)"]) (auto simp: charge_on_owner_def write_entry_def d)
  next
    case (Inr f)
    obtain framed head where f: "ledger_frame ar e (ix_tail (lg_index l)) = Inr (framed, head)" using Inr by (cases f) simp
    show thesis
    proof (cases "ix_committed (lg_index l) + length framed > u64_max \<or> length (dk_bytes (lg_disk l)) \<noteq> ix_committed (lg_index l)")
      case True
      then obtain err where "result = Inl err" "l' = l"
        using assms by (auto simp: charge_on_owner_def write_entry_def d f Let_def split: if_splits)
      then show thesis by (rule unwritten [OF d])
    next
      case False
      then have fence: "length (dk_bytes (lg_disk l)) = ix_committed (lg_index l)" "ix_committed (lg_index l) + length framed \<le> u64_max"
        by simp_all
      show thesis
      proof (cases "dv_wrote dev")
        case None
        then show thesis using assms fence
          by (intro written [OF d _ f fence]) (auto simp: charge_on_owner_def write_entry_def d f Let_def)
      next
        case (Some n)
        then show thesis using assms fence
          by (intro failed [OF d _ f fence, of "CommitStore (StoreOwnerSaid (StoreStorage DeviceRefused))" n]) (auto simp: charge_on_owner_def write_entry_def d f Let_def)
      qed
    qed
  qed
qed

lemma write_at_end: "write_at (length file) bs file = file @ bs"
  by (simp add: write_at_def)

lemma write_all_fields [simp]:
  "lg_index (write_all bs l) = lg_index l" "dk_fault (lg_disk (write_all bs l)) = dk_fault (lg_disk l)"
  "lg_pos (write_all bs l) = lg_pos l + length bs"
  by (simp_all add: write_all_def)

lemma write_all_Nil [simp]: "write_all [] l = l"
  by (simp add: write_all_def write_at_def)

lemma write_all_end: "lg_pos l = length (dk_bytes (lg_disk l)) \<Longrightarrow> dk_bytes (lg_disk (write_all bs l)) = dk_bytes (lg_disk l) @ bs"
  by (simp add: write_all_def write_at_end)

lemma write_all_past:
  "length (dk_bytes (lg_disk l)) \<le> lg_pos l \<Longrightarrow> bs \<noteq> [] \<Longrightarrow> length (dk_bytes (lg_disk (write_all bs l))) = lg_pos l + length bs"
  by (simp add: write_all_def write_at_def)

lemma legal_decided:
  assumes "ledger_inv ar ceilings es pending l body torn" and "decide_under (lg_index l) c ceilings = Inr (e, control)"
  shows "legal ceilings (es @ [e])"
  by (rule legal.decided [OF ledger_invD(7) [OF assms(1)] ledger_invD(6) [OF assms(1)] assms(2)])

lemma charge_inv:
  assumes inv: "ledger_inv ar ceilings es pending l body torn" and d: "decide_under (lg_index l) c ceilings = Inr (e, control)"
    and c: "charge_on_owner ar dev c ceilings l = (Inr control, l')" and end_pos: "lg_pos l = length (dk_bytes (lg_disk l))"
  shows "\<exists>body'. ledger_inv ar ceilings (es @ [e]) pending l' body' [] \<and> torn = []"
  using c
proof (cases rule: charge_cases)
  case (written e' control' framed head)
  note i = ledger_invD [OF inv]
  have e: "e' = e" using written(1) d by simp
  have torn: "torn = []" using written(4) i(2,5) by simp
  have bytes: "dk_bytes (lg_disk l') = ledger_magic @ (body @ framed) @ []"
    using i(2) torn end_pos by (simp add: written(6) write_all_end)
  have "ledger_inv ar ceilings (es @ [e]) pending l' (body @ framed) []"
    unfolding ledger_inv_def bytes
  proof (intro conjI allI impI)
    show "frames ar (genesis_head ar) (es @ [e]) = Some (body @ framed, ix_tail (lg_index l'))"
      using chain_append [OF i(1)] written(3) e by (simp add: written(6) fold_entry_runs)
    show "legal ceilings (es @ [e])" by (rule legal_decided [OF inv d])
    show "ix_runs (lg_index l') = runs_after (\<lambda>_. None) (es @ [e])" using i(6) e by (simp add: written(6) fold_entry_runs)
    show "length (ledger_magic @ (body @ framed) @ []) \<le> u64_max" using written(5) i(5) by simp
  qed (use i(2,3,5,10) torn end_pos in \<open>simp_all add: written(6) fold_entry_runs\<close>)
  then show ?thesis using torn by blast
qed simp_all

lemma charge_leaves_gap:
  assumes inv: "ledger_inv ar ceilings es pending l body torn" and ok: "archive_ok ar" and d: "decide_under (lg_index l) c ceilings = Inr (e, control)"
    and c: "charge_on_owner ar dev c ceilings l = (Inr control, l')" and past: "lg_pos l \<noteq> length (dk_bytes (lg_disk l))"
  shows "ledger_gap ceilings (es @ [e]) l'"
  using c
proof (cases rule: charge_cases)
  case (written e' control' framed head)
  note i = ledger_invD [OF inv]
  have e: "e' = e" using written(1) d by simp
  have torn: "torn = []" using written(4) i(2,5) by simp
  have after: "length (dk_bytes (lg_disk l)) < lg_pos l" using i(2,9) torn past by simp
  have more: "36 \<le> length framed" by (rule ledger_frame_long [OF ok written(3)])
  then have "framed \<noteq> []" by auto
  with after have "length (dk_bytes (lg_disk l')) = lg_pos l + length framed"
    using write_all_past [of l framed] by (simp add: written(6))
  moreover have "length (es @ [e]) < u64_max" using frames_length [OF ok i(1)] i(5) written(5) more by simp
  ultimately show ?thesis
    using i(6) legal_decided [OF inv d] e written(4) after by (simp add: ledger_gap_def written(6) fold_entry_runs)
qed simp_all

lemma failure_leaves_gap:
  assumes inv: "ledger_inv ar ceilings es pending l body torn" and ok: "archive_ok ar"
    and c: "charge_on_owner ar dev c ceilings l = (Inl err, l')" and wrote: "dk_bytes (lg_disk l') \<noteq> dk_bytes (lg_disk l)"
    and past: "lg_pos l \<noteq> length (dk_bytes (lg_disk l))"
  shows "ledger_gap ceilings es l'"
  using c
proof (cases rule: charge_cases)
  case (failed e' control' err' framed head n)
  note i = ledger_invD [OF inv]
  have torn: "torn = []" using failed(4) i(2,5) by simp
  have after: "length (dk_bytes (lg_disk l)) < lg_pos l" using i(2,9) torn past by simp
  have some: "take n framed \<noteq> []" using wrote by (auto simp: failed(6) simp del: take_eq_Nil)
  have "length (dk_bytes (lg_disk l')) = lg_pos l + length (take n framed)"
    unfolding failed(6) by (rule write_all_past [OF less_imp_le [OF after] some])
  moreover have "length es < u64_max" using frames_length [OF ok i(1)] i(4,5) failed(4) magic_length by simp
  ultimately show ?thesis using i(6,7) failed(4) after by (simp add: ledger_gap_def failed(6))
qed (use wrote in simp_all)

lemma gap_stays:
  assumes "ledger_gap ceilings es l" and "charge_on_owner ar dev c ceilings l = (result, l')"
  shows "ledger_gap ceilings es l' \<and> \<not> is_ok result"
  using assms(2) by (cases rule: charge_cases) (use assms(1) in \<open>auto simp: ledger_gap_def\<close>)

lemma failed_inv:
  assumes inv: "ledger_inv ar ceilings es pending l body torn" and d: "decide_under (lg_index l) c ceilings = Inr (e, control)"
    and c: "charge_on_owner ar dev c ceilings l = (Inl err, l')" and wrote: "wrote = (dk_bytes (lg_disk l') \<noteq> dk_bytes (lg_disk l))"
    and end_pos: "wrote \<Longrightarrow> lg_pos l = length (dk_bytes (lg_disk l))"
  shows "\<exists>torn'. ledger_inv ar ceilings es (if wrote then Some e else pending) l' body torn'"
  using c
proof (cases rule: charge_cases)
  case (failed e' control' err' framed head n)
  note i = ledger_invD [OF inv]
  have e: "e' = e" using failed(1) d by simp
  have torn: "torn = []" using failed(4) i(2,5) by simp
  show ?thesis
  proof (cases "take n framed = []")
    case True
    then have "l' = l" by (simp add: failed(6) del: take_eq_Nil)
    then show ?thesis using inv wrote by auto
  next
    case False
    have wrote_it: wrote
    proof (rule ccontr)
      assume "\<not> wrote"
      then have same: "dk_bytes (lg_disk l') = dk_bytes (lg_disk l)" using wrote by simp
      have "length (dk_bytes (lg_disk l)) \<le> lg_pos l" using i(2,9) torn by simp
      from write_all_past [OF this False] have "length (dk_bytes (lg_disk l')) = lg_pos l + length (take n framed)" by (simp add: failed(6))
      moreover have "0 < length (take n framed)" using False unfolding length_greater_0_conv .
      moreover have "length (dk_bytes (lg_disk l')) = length (dk_bytes (lg_disk l))" by (simp only: same)
      ultimately show False using \<open>length (dk_bytes (lg_disk l)) \<le> lg_pos l\<close> by linarith
    qed
    have bytes: "dk_bytes (lg_disk l') = dk_bytes (lg_disk l) @ take n framed"
      using end_pos [OF wrote_it] by (simp add: failed(6) write_all_end)
    have legal: "legal ceilings (es @ [e])" by (rule legal_decided [OF inv d])
    have small: "length (dk_bytes (lg_disk l')) \<le> u64_max" using failed(4,5) bytes by simp
    have "torn_tail ar (ix_tail (lg_index l)) (Some e) (take n framed)"
    proof -
      have "take n framed = take (min n (length framed)) framed" by (simp add: min_def)
      moreover have "0 < min n (length framed)" "min n (length framed) \<le> length framed" using False by auto
      ultimately show ?thesis unfolding torn_tail_def using failed(3) e by blast
    qed
    then have "ledger_inv ar ceilings es (Some e) l' body (take n framed)"
      unfolding ledger_inv_def using i(1-7) torn bytes small legal False by (simp add: failed(6))
    then show ?thesis using wrote_it by auto
  qed
next
  case (unwritten e' control' err')
  then show ?thesis using inv wrote by auto
qed (use d in simp_all)

lemma fresh_inv:
  assumes "ledger_open ar dev \<lparr>dk_bytes = [], dk_fault = None\<rparr> = Inr l" and "archive_ok ar"
  shows "ledger_inv ar ceilings [] None l [] []"
proof -
  have "replay ar \<lparr>dk_bytes = ledger_magic, dk_fault = None\<rparr> =
      Inr (\<lparr>ix_runs = \<lambda>_. None, ix_committed = length ledger_magic, ix_tail = genesis_head ar\<rparr>, length ledger_magic)"
    using replay_written [OF assms(2), of "\<lparr>dk_bytes = ledger_magic, dk_fault = None\<rparr>" "[]" "[]" _ "[]"]
      replay_loop_end [of "\<lparr>dk_bytes = ledger_magic, dk_fault = None\<rparr>" ledger_magic ar]
    by (simp add: ledger_magic_def u64_max_def)
  then have "l = \<lparr>lg_disk = \<lparr>dk_bytes = ledger_magic, dk_fault = None\<rparr>, lg_pos = length ledger_magic,
      lg_index = \<lparr>ix_runs = \<lambda>_. None, ix_committed = length ledger_magic, ix_tail = genesis_head ar\<rparr>, lg_poisoned = False\<rparr>"
    using assms(1) by (auto simp: ledger_open_def split: if_splits)
  then show ?thesis by (simp add: ledger_inv_def legal.none ledger_magic_def u64_max_def)
qed

lemma reopen_inv:
  assumes inv: "ledger_inv ar ceilings es pending l body torn" and ok: "archive_ok ar"
    and kept: "ix_committed (lg_index l) \<le> kept"
    and o: "ledger_open ar dev \<lparr>dk_bytes = take kept (dk_bytes (lg_disk l)), dk_fault = None\<rparr> = Inr l'"
  shows "\<exists>body'. ledger_inv ar ceilings (if ix_committed (lg_index l') = ix_committed (lg_index l) then es else es @ [the pending]) None l' body' []"
proof -
  note i = ledger_invD [OF inv]
  define j where "j = kept - length (ledger_magic @ body)"
  let ?d = "\<lparr>dk_bytes = ledger_magic @ body @ take j torn, dk_fault = None\<rparr>"
  have "take kept (dk_bytes (lg_disk l)) = ledger_magic @ body @ take j torn" using kept i(5) by (simp add: i(2) j_def)
  then have o: "ledger_open ar dev ?d = Inr l'" using o by simp
  have small: "length (dk_bytes ?d) \<le> u64_max" using i(2,4) by simp
  show ?thesis
  proof (cases "take j torn = []")
    case True
    note o = o [unfolded True append_Nil2] and small = small [unfolded True append_Nil2]
    have few: "length es \<le> max_ledger_records"
      using open_over [OF ok _ small i(1), of "[]" dev] o by fastforce
    have "l' = \<lparr>lg_disk = \<lparr>dk_bytes = ledger_magic @ body, dk_fault = None\<rparr>, lg_pos = length (ledger_magic @ body),
        lg_index = \<lparr>ix_runs = runs_after (\<lambda>_. None) es, ix_committed = length (ledger_magic @ body), ix_tail = ix_tail (lg_index l)\<rparr>,
        lg_poisoned = False\<rparr>"
      using open_written [OF ok _ small i(1) _ few, of dev] o by simp
    then have "ledger_inv ar ceilings es None l' body []" "ix_committed (lg_index l') = ix_committed (lg_index l)"
      using i(1,5,7) small by (simp_all add: ledger_inv_def)
    then show ?thesis by auto
  next
    case False
    then obtain e framed head k where t: "pending = Some e" "ledger_frame ar e (ix_tail (lg_index l)) = Inr (framed, head)" "0 < k" "k \<le> length framed"
        "torn = take k framed"
      using i(11) by (auto simp: torn_tail_def)
    define m where "m = min j k"
    have m: "take j torn = take m framed" "0 < m" "m \<le> length framed" using t(3-5) False by (auto simp: m_def min.commute)
    show ?thesis
    proof (cases "m = length framed")
      case True
      let ?es = "es @ [e]"
      have fr: "frames ar (genesis_head ar) ?es = Some (body @ framed, head)" by (rule chain_append [OF i(1) t(2)])
      have few: "length ?es \<le> max_ledger_records"
        using open_over [OF ok _ small fr, of "[]" dev] o m(1) True by fastforce
      have "l' = \<lparr>lg_disk = ?d, lg_pos = length (dk_bytes ?d),
          lg_index = \<lparr>ix_runs = runs_after (\<lambda>_. None) ?es, ix_committed = length (dk_bytes ?d), ix_tail = head\<rparr>, lg_poisoned = False\<rparr>"
        using open_written [OF ok _ small fr _ few, of dev] True o m(1) by simp
      then have "ledger_inv ar ceilings ?es None l' (body @ framed) []" "ix_committed (lg_index l') \<noteq> ix_committed (lg_index l)"
        using fr i(5) i(8) [OF t(1)] small True m by (simp_all add: ledger_inv_def)
      then show ?thesis using t(1) by auto
    next
      case False
      then have short: "m < length framed" using m(3) by simp
      have few: "length es \<le> max_ledger_records"
        using open_over [OF ok _ small i(1), of "take j torn" dev] o by fastforce
      have "l' = \<lparr>lg_disk = \<lparr>dk_bytes = ledger_magic @ body, dk_fault = None\<rparr>, lg_pos = length (dk_bytes ?d),
          lg_index = \<lparr>ix_runs = runs_after (\<lambda>_. None) es, ix_committed = length (ledger_magic @ body), ix_tail = ix_tail (lg_index l)\<rparr>,
          lg_poisoned = False\<rparr>"
        using open_torn [OF ok _ small i(1) t(2) _ m(2) short few, of dev] o m(1) by (auto split: if_splits)
      then have "ledger_inv ar ceilings es None l' body []" "ix_committed (lg_index l') = ix_committed (lg_index l)"
        using i(1,5,7) small by (simp_all add: ledger_inv_def)
      then show ?thesis by auto
    qed
  qed
qed

lemma ledger_run_inv:
  assumes "ledger_run ar ceilings gap es pending l" and "archive_ok ar"
  shows "if gap then ledger_gap ceilings es l else \<exists>body torn. ledger_inv ar ceilings es pending l body torn"
  using assms(1)
proof (induction rule: ledger_run.induct)
  case (fresh dev l)
  then show ?case using fresh_inv [OF _ assms(2), of dev l ceilings] by auto
next
  case (charged gap es pending l c e control dev l')
  show ?case
  proof (cases gap)
    case True
    then show ?thesis using charged.IH gap_stays [OF _ charged.hyps(3)] by fastforce
  next
    case False
    then obtain body torn where inv: "ledger_inv ar ceilings es pending l body torn" using charged.IH by auto
    show ?thesis using charge_inv [OF inv charged.hyps(2,3)] charge_leaves_gap [OF inv assms(2) charged.hyps(2,3)] False by auto
  qed
next
  case (refused gap es pending l c refusal dev err l')
  have "l' = l" using refused.hyps(2,3) by (simp add: charge_on_owner_def)
  then show ?case using refused.IH by simp
next
  case (failed gap es pending l c e control dev err l' wrote)
  show ?case
  proof (cases gap)
    case True
    then show ?thesis using failed.IH gap_stays [OF _ failed.hyps(3)] by fastforce
  next
    case False
    then obtain body torn where inv: "ledger_inv ar ceilings es pending l body torn" using failed.IH by auto
    show ?thesis
    proof (cases "wrote \<and> lg_pos l \<noteq> length (dk_bytes (lg_disk l))")
      case True
      then show ?thesis using failure_leaves_gap [OF inv assms(2) failed.hyps(3)] failed.hyps(4) by simp
    next
      case end_pos: False
      then have "\<exists>body torn. ledger_inv ar ceilings es (if wrote then Some e else pending) l' body torn"
        using failed_inv [OF inv failed.hyps(2,3,4)] by blast
      then show ?thesis by (simp only: False end_pos simp_thms if_False)
    qed
  qed
next
  case (poisoned gap es pending l)
  then show ?case by (auto simp: ledger_inv_def ledger_gap_def)
next
  case (reopened es pending l kept dev l')
  then obtain body torn where inv: "ledger_inv ar ceilings es pending l body torn" by auto
  have "\<exists>body torn. ledger_inv ar ceilings (if ix_committed (lg_index l') = ix_committed (lg_index l) then es else es @ [the pending]) None l' body torn"
    using reopen_inv [OF inv assms(2) reopened.hyps(2,3)] by blast
  then show ?case by (simp only: if_False)
qed

lemma ledger_run_legal:
  assumes "ledger_run ar ceilings gap es pending l" and "archive_ok ar"
  shows "legal ceilings es" and "ix_runs (lg_index l) = runs_after (\<lambda>_. None) es" and "length es < u64_max"
proof -
  have "legal ceilings es \<and> ix_runs (lg_index l) = runs_after (\<lambda>_. None) es \<and> length es < u64_max"
  proof (cases gap)
    case True
    then show ?thesis using ledger_run_inv [OF assms] by (simp add: ledger_gap_def)
  next
    case False
    then obtain body torn where inv: "ledger_inv ar ceilings es pending l body torn" using ledger_run_inv [OF assms] by auto
    note i = ledger_invD [OF inv]
    have "length es < u64_max" using frames_length [OF assms(2) i(1)] i(2,4) magic_length by simp
    then show ?thesis using i(6,7) by simp
  qed
  then show "legal ceilings es" "ix_runs (lg_index l) = runs_after (\<lambda>_. None) es" "length es < u64_max" by simp_all
qed

section \<open>What was charged\<close>

definition entries_of :: "run_id \<Rightarrow> entry list \<Rightarrow> entry list" where
  "entries_of r es = filter (\<lambda>e. en_run e = r) es"

definition tickets :: "entry list \<Rightarrow> bytes list" where
  "tickets es = concat (map (\<lambda>e. case en_applied e of None \<Rightarrow> [] | Some t \<Rightarrow> [t]) es)"

definition control_ok :: "ceilings \<Rightarrow> entry list \<Rightarrow> control \<Rightarrow> bool" where
  "control_ok ceilings mine co \<longleftrightarrow>
     co_attempts co = length mine \<and> co_attempts co \<le> ce_attempts ceilings \<and> co_spend co \<le> ce_spend ceilings \<and>
     co_applied co = tickets mine \<and> distinct (co_applied co) \<and> co_epoch co = length (co_applied co) \<and>
     (\<forall>e \<in> set mine. en_tenant e = co_tenant co)"

lemma decide_control:
  assumes "decide_under index c ceilings = Inr (e, control)"
  defines "old \<equiv> (case ix_runs index (ch_run c) of Some control \<Rightarrow> control | None \<Rightarrow> control_fresh (ch_tenant c))"
  shows "co_attempts control = sat_add_u64 (co_attempts old) 1" and "co_attempts control \<le> ce_attempts ceilings" and "co_spend control \<le> ce_spend ceilings"
    and "co_tenant control = co_tenant old" and "en_tenant e = co_tenant old"
    and "en_applied e = None \<and> co_applied control = co_applied old \<and> co_epoch control = co_epoch old \<or>
      (\<exists>t. en_applied e = Some t \<and> t \<notin> set (co_applied old) \<and> co_applied control = co_applied old @ [t] \<and> co_epoch control = sat_add_u64 (co_epoch old) 1)"
  using assms(1) by (auto simp: decide_under_def Let_def old_def [symmetric] split: if_splits option.splits)

lemma tickets_length: "length (tickets es) \<le> length es"
  by (induction es) (auto simp: tickets_def split: option.split)

lemma control_ok_step:
  assumes "control_ok ceilings mine old" and "length mine < u64_max"
    and "co_attempts control = sat_add_u64 (co_attempts old) 1" "co_attempts control \<le> ce_attempts ceilings" "co_spend control \<le> ce_spend ceilings"
    and "co_tenant control = co_tenant old" "en_tenant e = co_tenant old"
    and "en_applied e = None \<and> co_applied control = co_applied old \<and> co_epoch control = co_epoch old \<or>
      (\<exists>t. en_applied e = Some t \<and> t \<notin> set (co_applied old) \<and> co_applied control = co_applied old @ [t] \<and> co_epoch control = sat_add_u64 (co_epoch old) 1)"
  shows "control_ok ceilings (mine @ [e]) control"
proof -
  have "length (co_applied old) < u64_max" using assms(1,2) tickets_length [of mine] by (simp add: control_ok_def)
  then show ?thesis using assms by (auto simp: control_ok_def sat_add_u64_def tickets_def)
qed

lemma legal_control:
  assumes "legal ceilings es" and "length es < u64_max"
  shows "case runs_after (\<lambda>_. None) es r of None \<Rightarrow> entries_of r es = [] | Some co \<Rightarrow> control_ok ceilings (entries_of r es) co"
  using assms
proof (induction rule: legal.induct)
  case (decided es index c e control)
  note fold = decide_fold [OF decided.hyps(3)] and d = decide_control [OF decided.hyps(3)]
  have after: "runs_after (\<lambda>_. None) (es @ [e]) = (runs_after (\<lambda>_. None) es)(ch_run c \<mapsto> control)"
    using fold(1) decided.hyps(2) by simp
  have IH: "case runs_after (\<lambda>_. None) es r of None \<Rightarrow> entries_of r es = [] | Some co \<Rightarrow> control_ok ceilings (entries_of r es) co"
    using decided.IH decided.prems by simp
  show ?case
  proof (cases "r = ch_run c")
    case True
    define old where "old = (case ix_runs index (ch_run c) of Some control \<Rightarrow> control | None \<Rightarrow> control_fresh (ch_tenant c))"
    have "length (entries_of r es) < u64_max"
      unfolding entries_of_def by (rule le_less_trans [OF length_filter_le]) (use decided.prems in simp)
    moreover have "control_ok ceilings (entries_of r es) old"
      using IH True decided.hyps(2) by (auto simp: old_def control_ok_def control_fresh_def tickets_def split: option.splits)
    ultimately have "control_ok ceilings (entries_of r es @ [e]) control"
      using d [folded old_def] control_ok_step by blast
    then show ?thesis using after True fold(2) by (simp add: entries_of_def)
  next
    case False
    then have "entries_of r (es @ [e]) = entries_of r es" using fold(2) by (simp add: entries_of_def)
    then show ?thesis using IH after False by (auto split: option.splits)
  qed
qed (simp add: entries_of_def)

section \<open>Reading the file back\<close>

lemma reopen_exact:
  assumes inv: "ledger_inv ar ceilings es pending l body torn" and ok: "archive_ok ar" and kept: "ix_committed (lg_index l) \<le> kept"
    and d: "d = \<lparr>dk_bytes = take kept (dk_bytes (lg_disk l)), dk_fault = None\<rparr>" and rest: "rest = drop (ix_committed (lg_index l)) (dk_bytes d)"
  shows "if max_ledger_records < length es then ledger_open ar dev d = Inl (StoreLimit Records (max_ledger_records + 1) max_ledger_records)
    else if rest = [] then \<exists>l'. ledger_open ar dev d = Inr l' \<and> lg_index l' = lg_index l
    else \<exists>e framed head. pending = Some e \<and> ledger_frame ar e (ix_tail (lg_index l)) = Inr (framed, head) \<and> rest = take (length rest) framed \<and>
      (if rest = framed then
         (if length es = max_ledger_records then ledger_open ar dev d = Inl (StoreLimit Records (max_ledger_records + 1) max_ledger_records)
          else \<exists>l'. ledger_open ar dev d = Inr l' \<and> ix_runs (lg_index l') = run_step (ix_runs (lg_index l)) e)
       else if cut_lies ar rest (ix_tail (lg_index l)) then ledger_open ar dev d = Inl (StoreCorrupt (length es))
       else if dv_trim dev then \<exists>l'. ledger_open ar dev d = Inr l' \<and> lg_index l' = lg_index l
       else ledger_open ar dev d = Inl (StoreStorage DeviceRefused))"
proof -
  note i = ledger_invD [OF inv]
  define j where "j = kept - length (ledger_magic @ body)"
  have bytes: "dk_bytes d = ledger_magic @ body @ take j torn" using kept i(5) by (simp add: i(2) j_def d)
  have fault: "dk_fault d = None" by (simp add: d)
  have tail: "rest = take j torn" using bytes i(5) by (simp add: rest)
  have small: "length (dk_bytes d) \<le> u64_max" using i(2,4) by (simp add: bytes)
  have index: "lg_index l = \<lparr>ix_runs = runs_after (\<lambda>_. None) es, ix_committed = length (ledger_magic @ body), ix_tail = ix_tail (lg_index l)\<rparr>"
    using i(5,6) by (cases "lg_index l") simp
  show ?thesis
  proof (cases "max_ledger_records < length es")
    case True
    then show ?thesis using open_over [OF ok fault small i(1) bytes True] by simp
  next
    case False
    then have few: "length es \<le> max_ledger_records" by simp
    show ?thesis
    proof (cases "rest = []")
      case True
      then have whole: "dk_bytes d = ledger_magic @ body" using bytes tail by simp
      from open_written [OF ok fault small i(1) this few, of dev] have "\<exists>l'. ledger_open ar dev d = Inr l' \<and> lg_index l' = lg_index l"
        using index whole by simp
      then show ?thesis using few True by simp
    next
      case some: False
      then have "torn \<noteq> []" using tail by auto
      then obtain e framed head k where t: "pending = Some e" "ledger_frame ar e (ix_tail (lg_index l)) = Inr (framed, head)" "0 < k" "k \<le> length framed"
          "torn = take k framed"
        using i(11) by (auto simp: torn_tail_def)
      define m where "m = min j k"
      have m: "rest = take m framed" "m \<le> length framed" using t(4,5) tail by (auto simp: m_def min.commute)
      then have len: "length rest = m" by simp
      then have pos: "0 < m" using some by auto
      have bytes_m: "dk_bytes d = ledger_magic @ body @ take m framed" using bytes tail m(1) by simp
      have "if rest = framed then
         (if length es = max_ledger_records then ledger_open ar dev d = Inl (StoreLimit Records (max_ledger_records + 1) max_ledger_records)
          else \<exists>l'. ledger_open ar dev d = Inr l' \<and> ix_runs (lg_index l') = run_step (ix_runs (lg_index l)) e)
       else if cut_lies ar rest (ix_tail (lg_index l)) then ledger_open ar dev d = Inl (StoreCorrupt (length es))
       else if dv_trim dev then \<exists>l'. ledger_open ar dev d = Inr l' \<and> lg_index l' = lg_index l
       else ledger_open ar dev d = Inl (StoreStorage DeviceRefused)"
      proof (cases "rest = framed")
        case True
        then have whole: "dk_bytes d = ledger_magic @ body @ framed" using bytes tail by simp
        note fr = chain_append [OF i(1) t(2)]
        show ?thesis
        proof (cases "length es = max_ledger_records")
          case full: True
          then have over: "max_ledger_records < length (es @ [e])" by simp
          show ?thesis using open_over [OF ok fault small fr _ over, of "[]" dev] whole True full by simp
        next
          case False
          then have "length (es @ [e]) \<le> max_ledger_records" using few by simp
          from open_written [OF ok fault small fr _ this, of dev] show ?thesis using whole True False i(6) by (simp del: length_append)
        qed
      next
        case False
        then have short: "m < length framed" using m by (cases "m = length framed") simp_all
        show ?thesis
          using open_torn [OF ok fault small i(1) t(2) bytes_m pos short few, of dev] False index short m(1) by (auto simp: cut_lies_def)
      qed
      moreover have "rest = take (length rest) framed" using m(1) len by simp
      ultimately show ?thesis using few some t(1,2) by auto
    qed
  qed
qed

section \<open>A repaired tail\<close>

lemma four: "(4 :: nat) = Suc (Suc (Suc (Suc 0)))"
  by simp

lemma be_bytes_small: "n < 65536 \<Longrightarrow> \<exists>rest. be_bytes 4 n = 0 # 0 # rest"
proof -
  assume "n < 65536"
  then have "n div 256 div 256 = 0" by (simp add: div_mult2_eq [symmetric])
  moreover have "le_bytes 4 n = [word_of_nat (n mod 256), word_of_nat (n div 256 mod 256), word_of_nat (n div 256 div 256 mod 256),
      word_of_nat (n div 256 div 256 div 256 mod 256)]"
    unfolding four by simp
  ultimately show ?thesis by (simp add: be_bytes_def)
qed

lemma zero_prefix_corrupt:
  assumes "dk_fault d = None" and "dk_bytes d = pre @ replicate 4 0 @ rest"
  shows "read_raw head_of storage corrupt max_frame_bytes d (length pre) c = Inl corrupt"
proof -
  have zero: "be_bytes length_bytes 0 = replicate 4 0" unfolding be_bytes_def length_bytes_def four by simp
  have "read_prefix d (length pre) = Inr (Full (replicate 4 0))"
    using read_prefix_written [OF assms(1), of pre 0 rest] assms(2) zero by simp
  moreover have "declared_length (replicate 4 0) = 0" using declared_length_written [of 0] zero by simp
  ultimately show ?thesis by (simp add: read_raw_def is_possible_length_def)
qed

text \<open>Two zeros before a frame are enough to hide its length.\<close>

lemma gap_hides_frame:
  assumes "archive_ok ar" and "ledger_frame ar e tail = Inr (framed, head)" and "1 < k"
  shows "\<exists>rest. replicate k 0 @ framed = replicate 4 0 @ rest"
proof -
  obtain payload where p: "framed = encode_frame (length payload) payload head" "is_possible_length (length payload) max_ledger_record_bytes"
    using ledger_frameE [OF assms(1,2)] by metis
  obtain rest where "be_bytes 4 (length payload) = 0 # 0 # rest"
    using be_bytes_small [of "length payload"] p(2) by (auto simp: is_possible_length_def max_ledger_record_bytes_def)
  then have framed: "framed = 0 # 0 # rest @ payload @ head" by (simp add: p(1) encode_frame_def length_bytes_def)
  define m where "m = k - 2"
  have "k = Suc (Suc m)" using assms(3) by (simp add: m_def)
  then have "replicate k 0 @ framed = replicate 4 0 @ replicate m 0 @ rest @ payload @ head"
    unfolding four by (simp add: framed replicate_app_Cons_same)
  then show ?thesis by blast
qed

section \<open>What the ledger promises\<close>

text \<open>
  C13: An acknowledged charge is read back. As long as no charge was written behind a tail its opening had
  trimmed, at every moment of a ledger's life, torn tails and reopenings included, a crash leaves at least
  the acknowledged bytes, and the opening of what it leaves is the following. A ledger of more records than
  the reader takes is refused. With nothing behind the acknowledged bytes the state in memory is read back.
  Otherwise the rest begins the frame of the charge whose write failed: whole, that charge is read as well, unless
  it is one record too many; cut, it is dropped and the state in memory is read back, unless the device does not
  trim, or what is left of the frame authenticates by itself and is refused as corrupt. A charge
  behind a trimmed tail loses the file (\<open>repaired_tail_loses_ledger\<close>).
\<close>

theorem ledger_durable:
  assumes "ledger_run ar ceilings False es pending l" and "archive_ok ar" and "ix_committed (lg_index l) \<le> kept"
    and "d = \<lparr>dk_bytes = take kept (dk_bytes (lg_disk l)), dk_fault = None\<rparr>" and "rest = drop (ix_committed (lg_index l)) (dk_bytes d)"
  shows "if max_ledger_records < length es then ledger_open ar dev d = Inl (StoreLimit Records (max_ledger_records + 1) max_ledger_records)
    else if rest = [] then \<exists>l'. ledger_open ar dev d = Inr l' \<and> lg_index l' = lg_index l
    else \<exists>e framed head. pending = Some e \<and> ledger_frame ar e (ix_tail (lg_index l)) = Inr (framed, head) \<and> rest = take (length rest) framed \<and>
      (if rest = framed then
         (if length es = max_ledger_records then ledger_open ar dev d = Inl (StoreLimit Records (max_ledger_records + 1) max_ledger_records)
          else \<exists>l'. ledger_open ar dev d = Inr l' \<and> ix_runs (lg_index l') = run_step (ix_runs (lg_index l)) e)
       else if cut_lies ar rest (ix_tail (lg_index l)) then ledger_open ar dev d = Inl (StoreCorrupt (length es))
       else if dv_trim dev then \<exists>l'. ledger_open ar dev d = Inr l' \<and> lg_index l' = lg_index l
       else ledger_open ar dev d = Inl (StoreStorage DeviceRefused))"
proof -
  obtain body torn where inv: "ledger_inv ar ceilings es pending l body torn" using ledger_run_inv [OF assms(1,2)] by auto
  show ?thesis by (rule reopen_exact [OF inv assms(2-5)])
qed

text \<open>
  C14: A run is never charged past its ceilings, and no ticket is applied to it twice, across failed writes,
  crashes, trimmed tails and reopened files: its attempts are the charges acknowledged for it and within the
  ceiling, its spend is within the ceiling, its applied tickets are those of its charges, without repetition
  and counted by the epoch, and all of them were charged by one tenant. The life of the file ends where a
  file with a charge behind a trimmed tail is opened again: that charge is not read back.
\<close>

theorem ledger_budget:
  assumes "ledger_run ar ceilings gap es pending l" and "archive_ok ar" and "ix_runs (lg_index l) run = Some co"
  shows "co_attempts co = length (entries_of run es) \<and> co_attempts co \<le> ce_attempts ceilings \<and> co_spend co \<le> ce_spend ceilings \<and>
    co_applied co = tickets (entries_of run es) \<and> distinct (co_applied co) \<and> co_epoch co = length (co_applied co) \<and>
    (\<forall>e \<in> set (entries_of run es). en_tenant e = co_tenant co)"
proof -
  note r = ledger_run_legal [OF assms(1,2)]
  have "control_ok ceilings (entries_of run es) co"
    using legal_control [OF r(1,3), of run] assms(3) r(2) by simp
  then show ?thesis unfolding control_ok_def by blast
qed

text \<open>A refused charge moves nothing and says why: the file and the state in memory are as they were, and the answer names the first of foreign tenant, spent budget, stale epoch and applied ticket; yet the storage owner is poisoned by it, and every later charge, of any run, is refused until the ledger is opened again.\<close>

theorem ledger_refusal:
  assumes "ledger_charge ar dev c ceilings l = (Inl (CommitRefused refusal), l')"
  shows "decide_under (lg_index l) c ceilings = Inl refusal \<and> lg_disk l' = lg_disk l \<and> lg_index l' = lg_index l \<and>
    ledger_charge ar dev' c' ceilings' l' = (Inl (CommitStore StorePoisoned), l')"
proof -
  have "\<not> lg_poisoned l" using assms by (auto simp: ledger_charge_def)
  moreover obtain result l1 where c: "charge_on_owner ar dev c ceilings l = (result, l1)" by fastforce
  ultimately have "result = Inl (CommitRefused refusal)" "l' = l1\<lparr>lg_poisoned := True\<rparr>"
    using assms by (auto simp: ledger_charge_def split: sum.splits)
  then have "decide_under (lg_index l) c ceilings = Inl refusal \<and> l' = l\<lparr>lg_poisoned := True\<rparr>"
    using c by (auto simp: charge_on_owner_def split: sum.splits prod.splits)
  then show ?thesis by (simp add: ledger_charge_def)
qed

text \<open>Opening a ledger whose last append was cut short (past its first byte) trims the file but leaves the cursor where the scan ended, so the next charge is written behind a gap of zeros: it is acknowledged, and from then on the file is refused as corrupt.\<close>

theorem repaired_tail_loses_ledger:
  assumes "archive_ok ar" and "frames ar (genesis_head ar) es = Some (body, tail)" and "ledger_frame ar e tail = Inr (framed, head)"
    and "1 < k" "k < length framed" and "length es \<le> max_ledger_records"
    and "ledger_open ar dev \<lparr>dk_bytes = ledger_magic @ body @ take k framed, dk_fault = None\<rparr> = Inr l"
    and "charge_on_owner ar dev' c ceilings l = (Inr control, l')"
    and "length (ledger_magic @ body @ take k framed) \<le> u64_max" and "length (dk_bytes (lg_disk l')) \<le> u64_max"
  shows "ledger_open ar dev'' (lg_disk l') = Inl (StoreCorrupt (length es))"
proof -
  have "0 < k" using assms(4) by simp
  then have l: "lg_disk l = \<lparr>dk_bytes = ledger_magic @ body, dk_fault = None\<rparr>" "lg_pos l = length (ledger_magic @ body) + k"
      "lg_index l = \<lparr>ix_runs = runs_after (\<lambda>_. None) es, ix_committed = length (ledger_magic @ body), ix_tail = tail\<rparr>"
    using open_torn [OF assms(1) _ _ assms(2,3) _ _ assms(5,6), of "\<lparr>dk_bytes = ledger_magic @ body @ take k framed, dk_fault = None\<rparr>" dev]
      assms(5,7,9) by (auto split: if_splits)
  obtain e' framed' head' where w: "ledger_frame ar e' tail = Inr (framed', head')" "lg_disk l' = lg_disk (write_all framed' l)"
    by (rule charge_cases [OF assms(8)]) (auto simp: l)
  obtain rest where gap: "replicate k 0 @ framed' = replicate 4 0 @ rest" using gap_hides_frame [OF assms(1) w(1) assms(4)] by blast
  have "framed' \<noteq> []" using ledger_frameE [OF assms(1) w(1)] by fastforce
  then have d: "lg_disk l' = \<lparr>dk_bytes = ledger_magic @ body @ replicate 4 0 @ rest, dk_fault = None\<rparr>"
    using gap l by (simp add: w(2) write_all_def write_at_def)
  have zero: "read_raw (entry_head ar) StoreStorage corrupt max_ledger_record_bytes (lg_disk l') (length ledger_magic + length body) cur = Inl corrupt" for corrupt cur
    using zero_prefix_corrupt [of "lg_disk l'" "ledger_magic @ body" rest "entry_head ar" StoreStorage corrupt max_ledger_record_bytes cur] d by simp
  have "replay_loop ar (lg_disk l') file_len (length (ledger_magic @ body)) n index tail = Inl (StoreCorrupt n)" for file_len n index
    by (subst replay_loop.simps) (simp add: next_frame_def zero)
  then show ?thesis
    using replay_written [OF assms(1) _ assms(10) assms(2) _ assms(6), of "replicate 4 0 @ rest"] magic_nonempty
    by (simp add: ledger_open_def d)
qed

text \<open>One entry more than the reader takes makes the file unreadable, although the writer accepts it.\<close>

lemma overfull_ledger_unreadable:
  assumes "ledger_run ar ceilings False es pending l" and "archive_ok ar" and "max_ledger_records < length es"
  shows "ledger_open ar dev (lg_disk l) = Inl (StoreLimit Records (max_ledger_records + 1) max_ledger_records)"
proof -
  obtain body torn where inv: "ledger_inv ar ceilings es pending l body torn" using ledger_run_inv [OF assms(1,2)] by auto
  show ?thesis using open_over [OF assms(2) _ _ _ _ assms(3)] ledger_invD [OF inv] by blast
qed

section \<open>One charge\<close>

definition toy_entry :: entry where
  "toy_entry = \<lparr>en_run = 1, en_tenant = [97], en_attempts = 1, en_spend = 2, en_epoch = 0, en_applied = None\<rparr>"

definition toy_archive :: archive where
  "toy_archive = \<lparr>ar_hash = (\<lambda>_. replicate 32 9), ar_to = (\<lambda>e. if e = toy_entry then Some [7] else None),
     ar_from = (\<lambda>payload. if payload = [7] then Some toy_entry else None)\<rparr>"

definition toy_charge :: charge where
  "toy_charge = \<lparr>ch_tenant = [97], ch_run = 1, ch_ticket = None, ch_cost = 2\<rparr>"

definition toy_ceilings :: ceilings where "toy_ceilings = \<lparr>ce_attempts = 1, ce_spend = 9\<rparr>"

definition toy_device :: device where "toy_device = \<lparr>dv_header = True, dv_trim = True, dv_wrote = None\<rparr>"

definition toy_frame :: bytes where "toy_frame = encode_frame 1 [7] (replicate 32 9)"

definition toy_control :: control where
  "toy_control = \<lparr>co_tenant = [97], co_attempts = 1, co_spend = 2, co_epoch = 0, co_applied = []\<rparr>"

definition toy_empty :: ledger where
  "toy_empty = \<lparr>lg_disk = \<lparr>dk_bytes = ledger_magic, dk_fault = None\<rparr>, lg_pos = length ledger_magic,
     lg_index = \<lparr>ix_runs = (\<lambda>_. None), ix_committed = length ledger_magic, ix_tail = replicate 32 9\<rparr>, lg_poisoned = False\<rparr>"

definition toy_charged :: ledger where
  "toy_charged = snd (charge_on_owner toy_archive toy_device toy_charge toy_ceilings toy_empty)"

lemma toy_archive_ok: "archive_ok toy_archive"
  by (simp add: archive_ok_def toy_archive_def head_bytes_def)

lemma toy_genesis: "genesis_head toy_archive = replicate 32 9"
  by (simp add: genesis_head_def toy_archive_def)

lemma toy_head_from: "head_from toy_archive e previous = replicate 32 9"
  by (simp add: head_from_def toy_archive_def)

lemma toy_ledger_frame: "ledger_frame toy_archive toy_entry previous = Inr (toy_frame, replicate 32 9)"
proof -
  have "ar_to toy_archive toy_entry = Some [7]" by (simp add: toy_archive_def)
  then show ?thesis
    by (simp add: ledger_frame_def frame_record_def toy_frame_def toy_head_from writable_length_def is_possible_length_def
        max_ledger_record_bytes_def u32_max_def Let_def)
qed

lemma toy_decide: "ix_runs index = (\<lambda>_. None) \<Longrightarrow> decide_under index toy_charge toy_ceilings = Inr (toy_entry, toy_control)"
  by (simp add: decide_under_def toy_charge_def toy_ceilings_def control_fresh_def sat_add_u64_def u64_max_def toy_entry_def toy_control_def Let_def)

lemma toy_open: "ledger_open toy_archive toy_device \<lparr>dk_bytes = [], dk_fault = None\<rparr> = Inr toy_empty"
proof -
  have "replay toy_archive \<lparr>dk_bytes = ledger_magic, dk_fault = None\<rparr> =
      Inr (\<lparr>ix_runs = \<lambda>_. None, ix_committed = length ledger_magic, ix_tail = replicate 32 9\<rparr>, length ledger_magic)"
    using replay_written [OF toy_archive_ok, of "\<lparr>dk_bytes = ledger_magic, dk_fault = None\<rparr>" "[]" "[]" _ "[]"]
      replay_loop_end [of "\<lparr>dk_bytes = ledger_magic, dk_fault = None\<rparr>" ledger_magic toy_archive]
    by (simp add: ledger_magic_def u64_max_def toy_genesis)
  then show ?thesis by (simp add: ledger_open_def toy_device_def toy_empty_def)
qed

lemma toy_frame_length [simp]: "length toy_frame = 37"
  by (simp add: toy_frame_def head_bytes_def)

lemma toy_frame_nonempty [simp]: "toy_frame \<noteq> []"
  using toy_frame_length by fastforce

lemma toy_charge_written: "charge_on_owner toy_archive toy_device toy_charge toy_ceilings toy_empty = (Inr toy_control, toy_charged)"
proof -
  have "fst (charge_on_owner toy_archive toy_device toy_charge toy_ceilings toy_empty) = Inr toy_control"
    using toy_decide [of "lg_index toy_empty"]
    by (simp add: charge_on_owner_def write_entry_def toy_ledger_frame toy_empty_def toy_device_def magic_length u64_max_def Let_def)
  then show ?thesis by (simp add: toy_charged_def prod_eq_iff)
qed

lemma toy_run: "ledger_run toy_archive toy_ceilings False [toy_entry] None toy_charged"
  using ledger_run.charged [OF ledger_run.fresh [OF toy_open] toy_decide toy_charge_written] by (simp add: toy_empty_def)

lemma toy_charged_index: "lg_index toy_charged = \<lparr>ix_runs = [1 \<mapsto> toy_control], ix_committed = 54, ix_tail = replicate 32 9\<rparr>"
proof -
  have "lg_index toy_charged = fold_entry \<lparr>ix_runs = \<lambda>_. None, ix_committed = 54, ix_tail = replicate 32 9\<rparr> toy_entry"
    using toy_decide [of "lg_index toy_empty"]
    by (simp add: toy_charged_def charge_on_owner_def write_entry_def toy_ledger_frame toy_empty_def toy_device_def magic_length u64_max_def Let_def)
  then show ?thesis by (simp add: fold_entry_def toy_entry_def toy_control_def control_fresh_def Let_def)
qed

theorem ledger_durable_witness:
  "\<exists>l'. ledger_open toy_archive toy_device \<lparr>dk_bytes = take 54 (dk_bytes (lg_disk toy_charged)), dk_fault = None\<rparr> = Inr l' \<and>
    lg_index l' = lg_index toy_charged"
  using ledger_durable [OF toy_run toy_archive_ok _ refl refl, of 54 toy_device]
  by (simp add: toy_charged_index toy_device_def max_ledger_records_def)

theorem ledger_budget_witness: "co_attempts toy_control = length (entries_of 1 [toy_entry])"
  using ledger_budget [OF toy_run toy_archive_ok, of 1 toy_control] by (simp add: toy_charged_index)

theorem ledger_refusal_witness:
  "ledger_charge toy_archive toy_device toy_charge toy_ceilings
     (snd (ledger_charge toy_archive toy_device toy_charge \<lparr>ce_attempts = 0, ce_spend = 0\<rparr> toy_empty)) =
   (Inl (CommitStore StorePoisoned), snd (ledger_charge toy_archive toy_device toy_charge \<lparr>ce_attempts = 0, ce_spend = 0\<rparr> toy_empty))"
  using ledger_refusal [of toy_archive toy_device toy_charge "\<lparr>ce_attempts = 0, ce_spend = 0\<rparr>" toy_empty "LeaseBudgetSpent 1 0"
      "snd (ledger_charge toy_archive toy_device toy_charge \<lparr>ce_attempts = 0, ce_spend = 0\<rparr> toy_empty)"]
  by (simp add: ledger_charge_def charge_on_owner_def decide_under_def toy_empty_def toy_charge_def control_fresh_def sat_add_u64_def u64_max_def Let_def)

lemma toy_torn:
  obtains l where "ledger_open toy_archive toy_device \<lparr>dk_bytes = ledger_magic @ [] @ take 2 toy_frame, dk_fault = None\<rparr> = Inr l"
    "lg_index l = lg_index toy_empty" "length (dk_bytes (lg_disk l)) = 17" "lg_pos l = 19" "\<not> lg_poisoned l"
  using open_torn [OF toy_archive_ok _ _ _ toy_ledger_frame, of "\<lparr>dk_bytes = ledger_magic @ [] @ take 2 toy_frame, dk_fault = None\<rparr>" "[]" "[]" "replicate 32 9" 2 toy_device]
  by (simp add: toy_genesis toy_device_def toy_empty_def magic_length u64_max_def length_bytes_def)

theorem repaired_tail_loses_ledger_witness:
  "\<exists>l l'. ledger_open toy_archive toy_device \<lparr>dk_bytes = ledger_magic @ [] @ take 2 toy_frame, dk_fault = None\<rparr> = Inr l \<and>
    charge_on_owner toy_archive toy_device toy_charge toy_ceilings l = (Inr toy_control, l') \<and>
    ledger_open toy_archive toy_device (lg_disk l') = Inl (StoreCorrupt 0)"
proof -
  obtain l where l: "ledger_open toy_archive toy_device \<lparr>dk_bytes = ledger_magic @ [] @ take 2 toy_frame, dk_fault = None\<rparr> = Inr l"
    "lg_index l = lg_index toy_empty" "length (dk_bytes (lg_disk l)) = 17" "lg_pos l = 19"
    by (rule toy_torn)
  obtain l' where c: "charge_on_owner toy_archive toy_device toy_charge toy_ceilings l = (Inr toy_control, l')" "length (dk_bytes (lg_disk l')) = 56"
    using toy_decide [of "lg_index l"] l(2-4)
    by (simp add: charge_on_owner_def write_entry_def toy_ledger_frame toy_empty_def toy_device_def magic_length u64_max_def write_all_def write_at_def Let_def)
  have "ledger_open toy_archive toy_device (lg_disk l') = Inl (StoreCorrupt (length ([] :: entry list)))"
    by (rule repaired_tail_loses_ledger [OF toy_archive_ok _ toy_ledger_frame _ _ _ l(1) c(1)])
      (simp_all add: toy_genesis c(2) magic_length u64_max_def)
  then show ?thesis using l(1) c(1) by auto
qed

end
