(* ===== verification/Storage_Owner.thy ===== *)
theory Storage_Owner
  imports Prelude "HOL-Library.Multiset"
begin

text \<open>
  \<open>crates/lgwks-bot/src/journal/owner/store.rs\<close>: the one thread that owns a store's file, with its two
  bounded rings, its group commit and its poison latch. A request is a number; its job is a function of
  the file and of the caller's state. One turn of the owner is what it does up to the next place
  another thread can act between its locks: submitters, callers that walk away, and the close step in between.
  Wakers and condition variables are the runtime's. The arming of the two fault injectors is test code.
\<close>

section \<open>Requests\<close>

definition default_queue_depth :: nat where "default_queue_depth = 64"
definition max_waiting_submitters :: nat where "max_waiting_submitters = 64"
definition max_batch_records :: nat where "max_batch_records = 64"
definition max_batch_bytes :: nat where "max_batch_bytes = 256 * 1024"

text \<open>\<open>std::io::Error\<close>: the error of a job, or one of the owner's own. Of a failed flush only its kind is kept.\<close>

datatype error_kind = OtherKind | DeviceKind nat

datatype 'x io_cause = JobError 'x | UnarmedRequest | InjectedRefusal | BatchFlushFailed error_kind

datatype ('a, 's, 'x) stage = Settled "'x io_cause + 'a" | Unsynced 'a nat "'s \<Rightarrow> 's" | Committed 'a

definition staged_bytes :: "('a, 's, 'x) stage \<Rightarrow> nat" where
  "staged_bytes st = (case st of Settled _ \<Rightarrow> 0 | Committed _ \<Rightarrow> 0 | Unsynced _ n _ \<Rightarrow> n)"

definition owes_flush :: "('a, 's, 'x) stage \<Rightarrow> bool" where
  "owes_flush st = (case st of Unsynced _ _ _ \<Rightarrow> True | _ \<Rightarrow> False)"

type_synonym ('f, 's, 'a, 'x) job = "'f \<Rightarrow> 's \<Rightarrow> ('x io_cause + ('a, 's, 'x) stage) \<times> 'f \<times> 's"

record ('f, 's, 'a, 'x) owner_request =
  rq_job :: "('f, 's, 'a, 'x) job option"
  rq_answer :: "('x io_cause + 'a) option"
  rq_abandoned :: bool

definition request_new :: "('f, 's, 'a, 'x) owner_request" where
  "request_new = \<lparr>rq_job = None, rq_answer = None, rq_abandoned = False\<rparr>"

section \<open>The slot\<close>

record slot =
  sl_pending :: "nat list"
  sl_waiting :: "nat list"
  sl_poisoned :: bool
  sl_closed :: bool
  sl_released :: bool
  sl_fail_next :: bool
  sl_fail_next_flush :: bool
  sl_flushes :: nat
  sl_staged_records :: nat

definition slot_new :: slot where
  "slot_new = \<lparr>sl_pending = [], sl_waiting = [], sl_poisoned = False, sl_closed = False, sl_released = False,
     sl_fail_next = False, sl_fail_next_flush = False, sl_flushes = 0, sl_staged_records = 0\<rparr>"

datatype slot_admits = Admitted | Waiting | Poisoned | Refused

definition slot_admission :: "slot \<Rightarrow> slot_admits" where
  "slot_admission sl =
     (if sl_poisoned sl then Poisoned
      else if length (sl_pending sl) < default_queue_depth then Admitted
      else if length (sl_waiting sl) < max_waiting_submitters then Waiting
      else Refused)"

fun promote_loop :: "nat list \<Rightarrow> nat list \<Rightarrow> nat list \<times> nat list" where
  "promote_loop pending [] = (pending, [])"
| "promote_loop pending (r # waiting) =
     (if length pending < default_queue_depth then promote_loop (pending @ [r]) waiting else (pending, r # waiting))"

definition promote :: "slot \<Rightarrow> slot" where
  "promote sl = (let (pending, waiting) = promote_loop (sl_pending sl) (sl_waiting sl) in sl\<lparr>sl_pending := pending, sl_waiting := waiting\<rparr>)"

section \<open>The owner\<close>

text \<open>
  Where the owner is in \<open>run_batch\<close>. \<open>Answering\<close> has the members still to be answered, the kind of
  the flush's failure and \<open>failed\<close>; \<open>Publishing\<close> has decided one answer and raised the latch.
\<close>

datatype ('a, 's, 'x) phase =
    Promoting
  | Staging "(nat \<times> ('a, 's, 'x) stage) list" nat
  | Syncing "(nat \<times> ('a, 's, 'x) stage) list"
  | Answering "(nat \<times> ('a, 's, 'x) stage) list" "error_kind option" bool
  | Publishing nat "'x io_cause + 'a" "(nat \<times> ('a, 's, 'x) stage) list" "error_kind option" bool
  | Released

record ('f, 's, 'a, 'x) owner =
  ow_slot :: slot
  ow_stalled :: bool
  ow_requests :: "nat \<Rightarrow> ('f, 's, 'a, 'x) owner_request"
  ow_file :: 'f
  ow_state :: 's
  ow_phase :: "('a, 's, 'x) phase"

text \<open>What can be told from outside, in the order it happens.\<close>

datatype ('a, 's, 'x) event =
    InRing nat
  | Parked nat
  | Promoted nat
  | Ran nat "('a, 's, 'x) stage"
  | Synced "error_kind option"
  | Folded nat
  | Latched
  | Published nat "'x io_cause + 'a"

definition owner_spawn :: "'f \<Rightarrow> 's \<Rightarrow> bool \<Rightarrow> ('f, 's, 'a, 'x) owner" where
  "owner_spawn file state stalled = \<lparr>ow_slot = slot_new, ow_stalled = stalled, ow_requests = (\<lambda>_. request_new),
     ow_file = file, ow_state = state, ow_phase = Promoting\<rparr>"

definition promoted_now :: "slot \<Rightarrow> ('a, 's, 'x) event list" where
  "promoted_now sl = map Promoted (take (length (sl_waiting sl) - length (sl_waiting (promote sl))) (sl_waiting sl))"

text \<open>One request from the front of the ring, its step run.\<close>

definition stage_next ::
  "(nat \<times> ('a, 's, 'x) stage) list \<Rightarrow> nat \<Rightarrow> nat \<Rightarrow> nat list \<Rightarrow> ('f, 's, 'a, 'x) owner \<Rightarrow> ('f, 's, 'a, 'x) owner \<times> ('a, 's, 'x) event list" where
  "stage_next batch bytes r rest w =
     (let sl = (ow_slot w)\<lparr>sl_pending := rest\<rparr>;
          job = rq_job (ow_requests w r);
          requests = (ow_requests w)(r := (ow_requests w r)\<lparr>rq_job := None\<rparr>);
          (outcome, file, state, sl) =
            (case job of
               None \<Rightarrow> (Inl UnarmedRequest, ow_file w, ow_state w, sl)
             | Some job \<Rightarrow>
                 if sl_fail_next sl then (Inl InjectedRefusal, ow_file w, ow_state w, sl\<lparr>sl_fail_next := False\<rparr>)
                 else (case job (ow_file w) (ow_state w) of (outcome, file, state) \<Rightarrow> (outcome, file, state, sl)));
          staged = (case outcome of Inl cause \<Rightarrow> Settled (Inl cause) | Inr staged \<Rightarrow> staged) in
      (w\<lparr>ow_slot := sl\<lparr>sl_staged_records := sat_add_u64 (sl_staged_records sl) 1\<rparr>, ow_requests := requests,
         ow_file := file, ow_state := state,
         ow_phase := Staging (batch @ [(r, staged)]) (sat_add_usize bytes (staged_bytes staged))\<rparr>,
       [Ran r staged]))"

text \<open>The flush that covers the batch.\<close>

definition sync_batch :: "('f \<Rightarrow> error_kind option \<times> 'f) \<Rightarrow> (nat \<times> ('a, 's, 'x) stage) list \<Rightarrow> ('f, 's, 'a, 'x) owner \<Rightarrow>
    ('f, 's, 'a, 'x) owner \<times> ('a, 's, 'x) event list" where
  "sync_batch sync_all batch w =
     (if list_ex (\<lambda>(_, staged). owes_flush staged) batch then
        if sl_fail_next_flush (ow_slot w)
        then (w\<lparr>ow_slot := (ow_slot w)\<lparr>sl_fail_next_flush := False\<rparr>, ow_phase := Answering batch (Some OtherKind) False\<rparr>, [])
        else
          (case sync_all (ow_file w) of (outcome, file) \<Rightarrow>
             (w\<lparr>ow_slot := (ow_slot w)\<lparr>sl_flushes := sat_add_u64 (sl_flushes (ow_slot w)) 1\<rparr>, ow_file := file,
                ow_phase := Answering batch outcome False\<rparr>, [Synced outcome]))
      else (w\<lparr>ow_phase := Answering batch None False\<rparr>, []))"

definition answer_next :: "nat \<Rightarrow> ('a, 's, 'x) stage \<Rightarrow> (nat \<times> ('a, 's, 'x) stage) list \<Rightarrow> error_kind option \<Rightarrow> bool \<Rightarrow>
    ('f, 's, 'a, 'x) owner \<Rightarrow> ('f, 's, 'a, 'x) owner \<times> ('a, 's, 'x) event list" where
  "answer_next r staged batch flush_failure failed w =
     (let (answer, state, folded) =
            (case staged of
               Settled answer \<Rightarrow> (answer, ow_state w, [])
             | Unsynced answer _ settle \<Rightarrow>
                 (case flush_failure of
                    None \<Rightarrow> (Inr answer, settle (ow_state w), [Folded r])
                  | Some kind \<Rightarrow> (Inl (BatchFlushFailed kind), ow_state w, []))
             | Committed answer \<Rightarrow> (Inr answer, ow_state w, []));
          failed = (failed \<or> \<not> is_ok answer \<or> rq_abandoned (ow_requests w r)) in
      (w\<lparr>ow_slot := (if failed then (ow_slot w)\<lparr>sl_poisoned := True\<rparr> else ow_slot w), ow_state := state,
         ow_phase := Publishing r answer batch flush_failure failed\<rparr>,
       folded @ (if failed then [Latched] else [])))"

definition publish :: "nat \<Rightarrow> 'x io_cause + 'a \<Rightarrow> ('f, 's, 'a, 'x) owner \<Rightarrow> ('f, 's, 'a, 'x) owner" where
  "publish r answer w = w\<lparr>ow_requests := (ow_requests w)(r := (ow_requests w r)\<lparr>rq_answer := Some answer\<rparr>)\<rparr>"

text \<open>\<open>serve\<close>, one turn. Waiting for work leaves the owner where it is.\<close>

definition owner_turn :: "('f \<Rightarrow> error_kind option \<times> 'f) \<Rightarrow> ('f, 's, 'a, 'x) owner \<Rightarrow> ('f, 's, 'a, 'x) owner \<times> ('a, 's, 'x) event list" where
  "owner_turn sync_all w =
     (let sl = ow_slot w in
      case ow_phase w of
        Promoting \<Rightarrow> (w\<lparr>ow_slot := promote sl, ow_phase := Staging [] 0\<rparr>, promoted_now sl)
      | Staging batch bytes \<Rightarrow>
          if batch = [] then
            if ow_stalled w \<and> \<not> sl_closed sl then (w, [])
            else
              (case sl_pending (promote sl) of
                 r # rest \<Rightarrow>
                   (case stage_next [] bytes r rest (w\<lparr>ow_slot := promote sl\<rparr>) of (w, new) \<Rightarrow> (w, promoted_now sl @ new))
               | [] \<Rightarrow>
                   if sl_closed sl then (w\<lparr>ow_slot := (promote sl)\<lparr>sl_released := True\<rparr>, ow_phase := Released\<rparr>, promoted_now sl)
                   else (w\<lparr>ow_slot := promote sl\<rparr>, promoted_now sl))
          else if length batch \<ge> max_batch_records \<or> bytes \<ge> max_batch_bytes then (w\<lparr>ow_phase := Syncing batch\<rparr>, [])
          else (case sl_pending sl of [] \<Rightarrow> (w\<lparr>ow_phase := Syncing batch\<rparr>, []) | r # rest \<Rightarrow> stage_next batch bytes r rest w)
      | Syncing batch \<Rightarrow> sync_batch sync_all batch w
      | Answering [] _ _ \<Rightarrow> (w\<lparr>ow_phase := Promoting\<rparr>, [])
      | Answering ((r, staged) # batch) flush_failure failed \<Rightarrow> answer_next r staged batch flush_failure failed w
      | Publishing r answer batch flush_failure failed \<Rightarrow>
          ((publish r answer w)\<lparr>ow_phase := Answering batch flush_failure failed\<rparr>, [Published r answer])
      | Released \<Rightarrow> (w, []))"

section \<open>Callers\<close>

datatype 'x submit_error = SubmitPoisoned | SubmitQueueFull | SubmitOutcomeUnknown | SubmitDevice "'x io_cause"

definition request_arm :: "nat \<Rightarrow> ('f, 's, 'a, 'x) job \<Rightarrow> ('f, 's, 'a, 'x) owner \<Rightarrow> ('f, 's, 'a, 'x) owner" where
  "request_arm r job w = w\<lparr>ow_requests := (ow_requests w)(r := (ow_requests w r)\<lparr>rq_job := Some job\<rparr>)\<rparr>"

definition owner_enqueue :: "nat \<Rightarrow> ('f, 's, 'a, 'x) job \<Rightarrow> ('f, 's, 'a, 'x) owner \<Rightarrow>
    ('x submit_error + unit) \<times> ('f, 's, 'a, 'x) owner \<times> ('a, 's, 'x) event list" where
  "owner_enqueue r job w =
     (let sl = ow_slot w in
      case slot_admission sl of
        Poisoned \<Rightarrow> (Inl SubmitPoisoned, w, [])
      | Refused \<Rightarrow> (Inl SubmitQueueFull, w, [])
      | Admitted \<Rightarrow> (Inr (), (request_arm r job w)\<lparr>ow_slot := sl\<lparr>sl_pending := sl_pending sl @ [r]\<rparr>\<rparr>, [InRing r])
      | Waiting \<Rightarrow> (Inr (), (request_arm r job w)\<lparr>ow_slot := sl\<lparr>sl_waiting := sl_waiting sl @ [r]\<rparr>\<rparr>, [Parked r]))"

text \<open>A poll of \<open>Awaiting\<close>: ready with the answer, which it takes, or pending.\<close>

definition awaiting_poll :: "nat \<Rightarrow> ('f, 's, 'a, 'x) owner \<Rightarrow> ('x submit_error + 'a) option \<times> ('f, 's, 'a, 'x) owner" where
  "awaiting_poll r w =
     (map_option (map_sum SubmitDevice id) (rq_answer (ow_requests w r)),
      w\<lparr>ow_requests := (ow_requests w)(r := (ow_requests w r)\<lparr>rq_answer := None\<rparr>)\<rparr>)"

definition awaiting_drop :: "nat \<Rightarrow> ('f, 's, 'a, 'x) owner \<Rightarrow> ('f, 's, 'a, 'x) owner" where
  "awaiting_drop r w =
     (let q = ow_requests w r in
      w\<lparr>ow_requests := (ow_requests w)(r := q\<lparr>rq_answer := None, rq_abandoned := rq_abandoned q \<or> rq_answer q = None\<rparr>)\<rparr>)"

definition owner_close :: "('f, 's, 'a, 'x) owner \<Rightarrow> ('f, 's, 'a, 'x) owner" where
  "owner_close w = w\<lparr>ow_slot := (ow_slot w)\<lparr>sl_closed := True\<rparr>\<rparr>"

definition gate_release :: "('f, 's, 'a, 'x) owner \<Rightarrow> ('f, 's, 'a, 'x) owner" where
  "gate_release w = w\<lparr>ow_stalled := False\<rparr>"

text \<open>The requests some events of a history name, in order.\<close>

definition picks :: "(('a, 's, 'x) event \<Rightarrow> nat option) \<Rightarrow> ('a, 's, 'x) event list \<Rightarrow> nat list" where
  "picks f es = List.map_filter f es"

fun to_submitted where "to_submitted (InRing r) = Some r" | "to_submitted (Parked r) = Some r" | "to_submitted _ = None"
fun to_ring where "to_ring (InRing r) = Some r" | "to_ring (Promoted r) = Some r" | "to_ring _ = None"
fun to_parked where "to_parked (Parked r) = Some r" | "to_parked _ = None"
fun to_promoted where "to_promoted (Promoted r) = Some r" | "to_promoted _ = None"
fun to_ran where "to_ran (Ran r st) = Some r" | "to_ran _ = None"
fun to_published where "to_published (Published r answer) = Some r" | "to_published _ = None"

abbreviation submitted :: "('a, 's, 'x) event list \<Rightarrow> nat list" where "submitted \<equiv> picks to_submitted"

text \<open>
  The runs of an owner spawned over a file and a state. Request \<open>r\<close> is submitted at most once, with the job
  \<open>job_of r\<close>, while the handle that submits is not yet dropped. A history is the events so far.
\<close>

inductive owner_reach :: "('f \<Rightarrow> error_kind option \<times> 'f) \<Rightarrow> (nat \<Rightarrow> ('f, 's, 'a, 'x) job) \<Rightarrow> 'f \<Rightarrow> 's \<Rightarrow>
    ('f, 's, 'a, 'x) owner \<Rightarrow> ('a, 's, 'x) event list \<Rightarrow> bool"
  for sync_all job_of device state where
  spawn: "owner_reach sync_all job_of device state (owner_spawn device state stalled) []"
| turn: "owner_reach sync_all job_of device state w es \<Longrightarrow> owner_turn sync_all w = (w', new) \<Longrightarrow>
    owner_reach sync_all job_of device state w' (es @ new)"
| enqueue: "owner_reach sync_all job_of device state w es \<Longrightarrow> \<not> sl_closed (ow_slot w) \<Longrightarrow> r \<notin> set (submitted es) \<Longrightarrow>
    ow_requests w r = request_new \<Longrightarrow> owner_enqueue r (job_of r) w = (res, w', new) \<Longrightarrow>
    owner_reach sync_all job_of device state w' (es @ new)"
| poll: "owner_reach sync_all job_of device state w es \<Longrightarrow> awaiting_poll r w = (res, w') \<Longrightarrow> owner_reach sync_all job_of device state w' es"
| walk_away: "owner_reach sync_all job_of device state w es \<Longrightarrow> owner_reach sync_all job_of device state (awaiting_drop r w) es"
| close: "owner_reach sync_all job_of device state w es \<Longrightarrow> owner_reach sync_all job_of device state (owner_close w) es"
| release: "owner_reach sync_all job_of device state w es \<Longrightarrow> owner_reach sync_all job_of device state (gate_release w) es"

section \<open>The two lines\<close>

lemma picks_simps [simp]:
  "picks f [] = []"
  "picks f (e # es) = (case f e of None \<Rightarrow> picks f es | Some r \<Rightarrow> r # picks f es)"
  "picks f (es @ es') = picks f es @ picks f es'"
  by (simp_all add: picks_def map_filter_def split: option.splits)

lemma picks_promoted [simp]:
  "picks to_submitted (map Promoted rs) = []" "picks to_ring (map Promoted rs) = rs" "picks to_parked (map Promoted rs) = []"
  "picks to_promoted (map Promoted rs) = rs" "picks to_ran (map Promoted rs) = []" "picks to_published (map Promoted rs) = []"
  by (induction rs) simp_all

lemma promote_loop_eq:
  "promote_loop pending waiting =
     (pending @ take (default_queue_depth - length pending) waiting, drop (default_queue_depth - length pending) waiting)"
proof (induction pending waiting rule: promote_loop.induct)
  case (2 pending r waiting)
  show ?case
  proof (cases "length pending < default_queue_depth")
    case True
    then have "default_queue_depth - length pending = Suc (default_queue_depth - length (pending @ [r]))" by simp
    then show ?thesis using 2 True by simp
  qed simp
qed simp

definition room :: "slot \<Rightarrow> nat" where
  "room sl = default_queue_depth - length (sl_pending sl)"

lemma promote_simps [simp]:
  "sl_pending (promote sl) = sl_pending sl @ take (room sl) (sl_waiting sl)"
  "sl_waiting (promote sl) = drop (room sl) (sl_waiting sl)"
  "sl_poisoned (promote sl) = sl_poisoned sl" "sl_closed (promote sl) = sl_closed sl"
  "sl_fail_next (promote sl) = sl_fail_next sl" "sl_fail_next_flush (promote sl) = sl_fail_next_flush sl"
  by (simp_all add: promote_def promote_loop_eq room_def)

lemma promoted_now_eq: "promoted_now sl = map Promoted (take (room sl) (sl_waiting sl))"
proof -
  have "take (n - (n - m)) xs = take m xs" if "n = length xs" for n m and xs :: "nat list"
    using that by (cases "m \<le> n") simp_all
  then show ?thesis by (simp add: promoted_now_def)
qed

primrec in_batch :: "('a, 's, 'x) phase \<Rightarrow> nat list" where
  "in_batch Promoting = []"
| "in_batch (Staging batch bytes) = map fst batch"
| "in_batch (Syncing batch) = map fst batch"
| "in_batch (Answering batch flush_failure failed) = map fst batch"
| "in_batch (Publishing r answer batch flush_failure failed) = r # map fst batch"
| "in_batch Released = []"

definition lines_inv :: "('f, 's, 'a, 'x) owner \<Rightarrow> ('a, 's, 'x) event list \<Rightarrow> bool" where
  "lines_inv w es \<longleftrightarrow>
     length (sl_pending (ow_slot w)) \<le> default_queue_depth \<and> length (sl_waiting (ow_slot w)) \<le> max_waiting_submitters \<and>
     picks to_ring es = picks to_ran es @ sl_pending (ow_slot w) \<and>
     picks to_ran es = picks to_published es @ in_batch (ow_phase w) \<and>
     picks to_parked es = picks to_promoted es @ sl_waiting (ow_slot w) \<and>
     distinct (submitted es) \<and>
     mset (submitted es) = mset (picks to_ring es) + mset (sl_waiting (ow_slot w))"

lemma lines_invD:
  assumes "lines_inv w es"
  shows "length (sl_pending (ow_slot w)) \<le> default_queue_depth" "length (sl_waiting (ow_slot w)) \<le> max_waiting_submitters"
    "picks to_ring es = picks to_ran es @ sl_pending (ow_slot w)" "picks to_ran es = picks to_published es @ in_batch (ow_phase w)"
    "picks to_parked es = picks to_promoted es @ sl_waiting (ow_slot w)" "distinct (submitted es)"
    "mset (submitted es) = mset (picks to_ring es) + mset (sl_waiting (ow_slot w))"
  using assms unfolding lines_inv_def by blast+

text \<open>What one turn does, case by case.\<close>

lemma owner_turn_cases:
  assumes "owner_turn sync_all w = (w', new)"
  obtains
    (promoting) "ow_phase w = Promoting" "w' = w\<lparr>ow_slot := promote (ow_slot w), ow_phase := Staging [] 0\<rparr>" "new = promoted_now (ow_slot w)"
  | (idle) "ow_phase w = Released \<or> ow_stalled w \<and> \<not> sl_closed (ow_slot w)" "w' = w" "new = []"
  | (stage_first) r rest bytes stage_new where "ow_phase w = Staging [] bytes" "sl_pending (promote (ow_slot w)) = r # rest"
      "stage_next [] bytes r rest (w\<lparr>ow_slot := promote (ow_slot w)\<rparr>) = (w', stage_new)" "new = promoted_now (ow_slot w) @ stage_new"
  | (release) bytes where "ow_phase w = Staging [] bytes" "sl_pending (promote (ow_slot w)) = []" "sl_closed (ow_slot w)"
      "w' = w\<lparr>ow_slot := (promote (ow_slot w))\<lparr>sl_released := True\<rparr>, ow_phase := Released\<rparr>" "new = promoted_now (ow_slot w)"
  | (waits) bytes where "ow_phase w = Staging [] bytes" "sl_pending (promote (ow_slot w)) = []"
      "w' = w\<lparr>ow_slot := promote (ow_slot w)\<rparr>" "new = promoted_now (ow_slot w)"
  | (stop) batch bytes where "ow_phase w = Staging batch bytes" "batch \<noteq> []" "w' = w\<lparr>ow_phase := Syncing batch\<rparr>" "new = []"
  | (stage_more) batch bytes r rest where "ow_phase w = Staging batch bytes" "batch \<noteq> []" "length batch < max_batch_records"
      "bytes < max_batch_bytes" "sl_pending (ow_slot w) = r # rest" "stage_next batch bytes r rest w = (w', new)"
  | (sync) batch where "ow_phase w = Syncing batch" "sync_batch sync_all batch w = (w', new)"
  | (answered) flush_failure failed where "ow_phase w = Answering [] flush_failure failed" "w' = w\<lparr>ow_phase := Promoting\<rparr>" "new = []"
  | (answer) r staged batch flush_failure failed where "ow_phase w = Answering ((r, staged) # batch) flush_failure failed"
      "answer_next r staged batch flush_failure failed w = (w', new)"
  | (publish) r answer batch flush_failure failed where "ow_phase w = Publishing r answer batch flush_failure failed"
      "w' = (publish r answer w)\<lparr>ow_phase := Answering batch flush_failure failed\<rparr>" "new = [Published r answer]"
proof (cases "ow_phase w")
  case Promoting
  show thesis by (rule promoting) (use assms Promoting in \<open>simp_all add: owner_turn_def Let_def del: promote_simps(1)\<close>)
next
  case (Staging batch bytes)
  show thesis
  proof (cases "batch = []")
    case True
    show thesis
    proof (cases "ow_stalled w \<and> \<not> sl_closed (ow_slot w)")
      case stalled: True
      show thesis by (rule idle) (use assms Staging True stalled in \<open>simp_all add: owner_turn_def Let_def del: promote_simps(1)\<close>)
    next
      case going: False
      show thesis
      proof (cases "sl_pending (promote (ow_slot w))")
        case Nil
        show thesis
        proof (cases "sl_closed (ow_slot w)")
          case closed: True
          show thesis by (rule release) (use assms Staging True going Nil closed in \<open>simp_all add: owner_turn_def Let_def del: promote_simps(1)\<close>)
        next
          case opened: False
          show thesis by (rule waits) (use assms Staging True going Nil opened in \<open>simp_all add: owner_turn_def Let_def del: promote_simps(1)\<close>)
        qed
      next
        case (Cons r rest)
        obtain w1 new1 where st: "stage_next [] bytes r rest (w\<lparr>ow_slot := promote (ow_slot w)\<rparr>) = (w1, new1)" by fastforce
        have "w' = w1 \<and> new = promoted_now (ow_slot w) @ new1"
          using assms Staging True going Cons st by (auto simp add: owner_turn_def Let_def simp del: promote_simps(1))
        then show thesis using stage_first [of bytes r rest new1] Staging True Cons st by blast
      qed
    qed
  next
    case False
    show thesis
    proof (cases "length batch \<ge> max_batch_records \<or> bytes \<ge> max_batch_bytes")
      case True
      show thesis by (rule stop) (use assms Staging True False in \<open>auto simp: owner_turn_def Let_def\<close>)
    next
      case more: False
      show thesis
      proof (cases "sl_pending (ow_slot w)")
        case Nil
        show thesis by (rule stop) (use assms Staging more False Nil in \<open>auto simp: owner_turn_def Let_def\<close>)
      next
        case (Cons r rest)
        show thesis by (rule stage_more) (use assms Staging more False Cons in \<open>simp_all add: owner_turn_def Let_def del: promote_simps(1)\<close>)
      qed
    qed
  qed
next
  case (Syncing batch)
  show thesis by (rule sync) (use assms Syncing in \<open>simp_all add: owner_turn_def Let_def del: promote_simps(1)\<close>)
next
  case (Answering batch flush_failure failed)
  show thesis
  proof (cases batch)
    case Nil
    show thesis by (rule answered) (use assms Answering Nil in \<open>simp_all add: owner_turn_def Let_def del: promote_simps(1)\<close>)
  next
    case (Cons m ms)
    obtain r staged where m: "m = (r, staged)" by (cases m)
    show thesis by (rule answer [of r staged ms]) (use assms Answering Cons m in \<open>simp_all add: owner_turn_def Let_def del: promote_simps(1)\<close>)
  qed
next
  case (Publishing r answer batch flush_failure failed)
  show thesis by (rule publish) (use assms Publishing in \<open>auto simp: owner_turn_def Let_def\<close>)
next
  case Released
  show thesis by (rule idle) (use assms Released in \<open>simp_all add: owner_turn_def Let_def del: promote_simps(1)\<close>)
qed

lemma stage_next_simps:
  assumes "stage_next batch bytes r rest w = (w', new)"
  obtains staged where
    "ow_phase w' = Staging (batch @ [(r, staged)]) (sat_add_usize bytes (staged_bytes staged))" "new = [Ran r staged]"
    "sl_pending (ow_slot w') = rest" "sl_waiting (ow_slot w') = sl_waiting (ow_slot w)" "sl_poisoned (ow_slot w') = sl_poisoned (ow_slot w)"
    "sl_closed (ow_slot w') = sl_closed (ow_slot w)" "ow_stalled w' = ow_stalled w"
    "sl_fail_next (ow_slot w') \<longrightarrow> sl_fail_next (ow_slot w)" "sl_fail_next_flush (ow_slot w') = sl_fail_next_flush (ow_slot w)"
    "ow_requests w' = (ow_requests w)(r := (ow_requests w r)\<lparr>rq_job := None\<rparr>)"
    "\<And>job. rq_job (ow_requests w r) = Some job \<Longrightarrow> \<not> sl_fail_next (ow_slot w) \<Longrightarrow>
       \<exists>outcome. job (ow_file w) (ow_state w) = (outcome, ow_file w', ow_state w') \<and>
         staged = (case outcome of Inl cause \<Rightarrow> Settled (Inl cause) | Inr staged \<Rightarrow> staged)"
proof -
  define staged where "staged = (case hd new of Ran _ st \<Rightarrow> st | _ \<Rightarrow> Settled (Inl UnarmedRequest))"
  show thesis
    by (rule that [of staged])
      (insert assms, auto simp: staged_def stage_next_def Let_def split: option.splits prod.splits if_splits)
qed

lemma stage_next_lines:
  assumes "stage_next batch bytes r rest w = (w', new)"
    and "lines_inv (w\<lparr>ow_phase := Staging batch bytes\<rparr>) es" and "sl_pending (ow_slot w) = r # rest"
  shows "lines_inv w' (es @ new)"
  using lines_invD [OF assms(2)] assms(3)
  by (rule_tac stage_next_simps [OF assms(1)]) (simp add: lines_inv_def)

lemma promote_lines:
  assumes "lines_inv w es"
  shows "lines_inv (w\<lparr>ow_slot := promote (ow_slot w)\<rparr>) (es @ promoted_now (ow_slot w))"
proof -
  have "mset (sl_waiting (ow_slot w)) = mset (take (room (ow_slot w)) (sl_waiting (ow_slot w))) + mset (drop (room (ow_slot w)) (sl_waiting (ow_slot w)))"
    by (metis append_take_drop_id mset_append)
  then show ?thesis
    using lines_invD [OF assms] by (simp add: lines_inv_def promoted_now_eq) (auto simp: room_def)
qed


lemma sync_batch_cases:
  assumes "sync_batch sync_all batch w = (w', new)" and "\<not> sl_fail_next_flush (ow_slot w)"
  obtains
    (unowed) "\<forall>m \<in> set batch. \<not> owes_flush (snd m)" "w' = w\<lparr>ow_phase := Answering batch None False\<rparr>" "new = []"
  | (flush) outcome file' where "sync_all (ow_file w) = (outcome, file')" "new = [Synced outcome]"
      "w' = w\<lparr>ow_slot := (ow_slot w)\<lparr>sl_flushes := sat_add_u64 (sl_flushes (ow_slot w)) 1\<rparr>, ow_file := file', ow_phase := Answering batch outcome False\<rparr>"
proof (cases "list_ex (\<lambda>(_, staged). owes_flush staged) batch")
  case True
  obtain outcome file' where "sync_all (ow_file w) = (outcome, file')" by fastforce
  then show thesis using assms True by (intro flush [of outcome file']) (auto simp: sync_batch_def)
next
  case False
  show thesis by (rule unowed) (use assms False in \<open>auto simp: sync_batch_def list_ex_iff\<close>)
qed

lemma answer_next_effect:
  assumes "answer_next r staged batch flush_failure failed w = (w', new)"
  obtains answer failed' where
    "ow_phase w' = Publishing r answer batch flush_failure failed'" "failed' \<longleftrightarrow> failed \<or> \<not> is_ok answer \<or> rq_abandoned (ow_requests w r)"
    "ow_slot w' = (if failed' then (ow_slot w)\<lparr>sl_poisoned := True\<rparr> else ow_slot w)" "ow_requests w' = ow_requests w"
    "ow_file w' = ow_file w" "ow_stalled w' = ow_stalled w"
    "(\<exists>answer'. staged = Settled answer' \<and> answer = answer' \<and> ow_state w' = ow_state w \<and> new = (if failed' then [Latched] else [])) \<or>
     (\<exists>x. staged = Committed x \<and> answer = Inr x \<and> ow_state w' = ow_state w \<and> new = (if failed' then [Latched] else [])) \<or>
     (\<exists>x n settle. staged = Unsynced x n settle \<and> flush_failure = None \<and> answer = Inr x \<and> ow_state w' = settle (ow_state w) \<and>
        new = Folded r # (if failed' then [Latched] else [])) \<or>
     (\<exists>x n settle kind. staged = Unsynced x n settle \<and> flush_failure = Some kind \<and> answer = Inl (BatchFlushFailed kind) \<and>
        ow_state w' = ow_state w \<and> new = [Latched])"
proof -
  define answer where "answer = (case ow_phase w' of Publishing _ a _ _ _ \<Rightarrow> a | _ \<Rightarrow> Inl UnarmedRequest)"
  define failed' where "failed' = (failed \<or> \<not> is_ok answer \<or> rq_abandoned (ow_requests w r))"
  show thesis
    by (rule that [of answer failed'])
      (insert assms, cases staged; auto simp: answer_def failed'_def answer_next_def Let_def split: option.splits)+
qed

lemma answer_next_picks:
  assumes "answer_next r staged batch flush_failure failed w = (w', new)"
  shows "picks to_submitted new = []" "picks to_ring new = []" "picks to_ran new = []" "picks to_parked new = []"
    "picks to_promoted new = []" "picks to_published new = []"
  by (rule_tac [!] answer_next_effect [OF assms]) auto

lemma lines_inv_same:
  assumes "lines_inv w es" and "sl_pending (ow_slot w') = sl_pending (ow_slot w)" and "sl_waiting (ow_slot w') = sl_waiting (ow_slot w)"
    and "in_batch (ow_phase w') = in_batch (ow_phase w)"
    and "picks to_submitted new = []" "picks to_ring new = []" "picks to_ran new = []" "picks to_parked new = []"
    "picks to_promoted new = []" "picks to_published new = []"
  shows "lines_inv w' (es @ new)"
  using assms by (simp add: lines_inv_def)

lemma owner_turn_lines:
  assumes "owner_turn sync_all w = (w', new)" and "lines_inv w es" and "\<not> sl_fail_next_flush (ow_slot w)"
  shows "lines_inv w' (es @ new)"
  using assms(1)
proof (cases rule: owner_turn_cases)
  case promoting
  have "lines_inv w' (es @ promoted_now (ow_slot w) @ [])"
    using lines_inv_same [OF promote_lines [OF assms(2)], of w' "[]"] promoting by simp
  then show ?thesis using promoting by simp
next
  case idle
  then show ?thesis using assms(2) by simp
next
  case (stage_first r rest bytes stage_new)
  have "lines_inv ((w\<lparr>ow_slot := promote (ow_slot w)\<rparr>)\<lparr>ow_phase := Staging [] bytes\<rparr>) (es @ promoted_now (ow_slot w))"
    using lines_inv_same [OF promote_lines [OF assms(2)], of "(w\<lparr>ow_slot := promote (ow_slot w)\<rparr>)\<lparr>ow_phase := Staging [] bytes\<rparr>" "[]"]
      stage_first(1) by simp
  from stage_next_lines [OF stage_first(3) this] stage_first(2,4) show ?thesis by simp
next
  case (release bytes)
  then show ?thesis
    using lines_inv_same [OF promote_lines [OF assms(2)], of w' "[]"] by simp
next
  case (waits bytes)
  then show ?thesis using promote_lines [OF assms(2)] by simp
next
  case (stop batch bytes)
  then show ?thesis using lines_inv_same [OF assms(2), of w' "[]"] by simp
next
  case (stage_more batch bytes r rest)
  have "w\<lparr>ow_phase := Staging batch bytes\<rparr> = w" using stage_more(1) by simp
  then show ?thesis using stage_next_lines [OF stage_more(6), of es] assms(2) stage_more(5) by simp
next
  case (sync batch)
  show ?thesis using sync(2) assms(3)
    by (cases rule: sync_batch_cases) (use lines_inv_same [OF assms(2), of w' new] sync(1) in simp_all)
next
  case (answered flush_failure failed)
  then show ?thesis using lines_inv_same [OF assms(2), of w' "[]"] by simp
next
  case (answer r staged batch flush_failure failed)
  show ?thesis
    by (rule answer_next_effect [OF answer(2)])
      (rule lines_inv_same [OF assms(2)], simp_all add: answer(1) answer_next_picks [OF answer(2)])
next
  case (publish r answer batch flush_failure failed)
  then show ?thesis using assms(2) by (simp add: lines_inv_def Storage_Owner.publish_def)
qed


lemma enqueue_cases:
  assumes "owner_enqueue r job w = (res, w', new)"
  obtains
    (refused) error where "res = Inl error" "w' = w" "new = []"
  | (admitted) "\<not> sl_poisoned (ow_slot w)" "length (sl_pending (ow_slot w)) < default_queue_depth" "res = Inr ()" "new = [InRing r]"
      "w' = (request_arm r job w)\<lparr>ow_slot := (ow_slot w)\<lparr>sl_pending := sl_pending (ow_slot w) @ [r]\<rparr>\<rparr>"
  | (parked) "\<not> sl_poisoned (ow_slot w)" "length (sl_waiting (ow_slot w)) < max_waiting_submitters" "res = Inr ()" "new = [Parked r]"
      "w' = (request_arm r job w)\<lparr>ow_slot := (ow_slot w)\<lparr>sl_waiting := sl_waiting (ow_slot w) @ [r]\<rparr>\<rparr>"
proof (cases "slot_admission (ow_slot w)")
  case Admitted
  show thesis by (rule admitted) (use assms Admitted in \<open>auto simp: owner_enqueue_def slot_admission_def Let_def split: if_splits\<close>)
next
  case Waiting
  show thesis by (rule parked) (use assms Waiting in \<open>auto simp: owner_enqueue_def slot_admission_def Let_def split: if_splits\<close>)
next
  case Poisoned
  show thesis by (rule refused [of SubmitPoisoned]) (use assms Poisoned in \<open>auto simp: owner_enqueue_def Let_def\<close>)
next
  case Refused
  show thesis by (rule refused [of SubmitQueueFull]) (use assms Refused in \<open>auto simp: owner_enqueue_def Let_def\<close>)
qed

lemma request_arm_simps [simp]:
  "ow_phase (request_arm r job w) = ow_phase w" "ow_file (request_arm r job w) = ow_file w" "ow_state (request_arm r job w) = ow_state w"
  "ow_slot (request_arm r job w) = ow_slot w" "ow_stalled (request_arm r job w) = ow_stalled w"
  by (simp_all add: request_arm_def)

lemma awaiting_simps [simp]:
  "ow_phase (awaiting_drop r w) = ow_phase w" "ow_slot (awaiting_drop r w) = ow_slot w" "ow_stalled (awaiting_drop r w) = ow_stalled w"
  "ow_phase (snd (awaiting_poll r w)) = ow_phase w" "ow_slot (snd (awaiting_poll r w)) = ow_slot w"
  by (simp_all add: awaiting_drop_def awaiting_poll_def Let_def)

lemma closing_simps [simp]:
  "ow_phase (owner_close w) = ow_phase w" "ow_phase (gate_release w) = ow_phase w" "ow_slot (gate_release w) = ow_slot w"
  "ow_slot (owner_close w) = (ow_slot w)\<lparr>sl_closed := True\<rparr>" "ow_requests (owner_close w) = ow_requests w" "ow_requests (gate_release w) = ow_requests w"
  by (simp_all add: owner_close_def gate_release_def)

section \<open>Answers\<close>

primrec batch_left :: "('a, 's, 'x) phase \<Rightarrow> (nat \<times> ('a, 's, 'x) stage) list" where
  "batch_left Promoting = []"
| "batch_left (Staging batch bytes) = batch"
| "batch_left (Syncing batch) = batch"
| "batch_left (Answering batch flush_failure failed) = batch"
| "batch_left (Publishing r answer batch flush_failure failed) = batch"
| "batch_left Released = []"

text \<open>The flush of the batch has been attempted, or was not owed.\<close>

primrec flush_known :: "('a, 's, 'x) phase \<Rightarrow> error_kind option option" where
  "flush_known Promoting = None"
| "flush_known (Staging batch bytes) = None"
| "flush_known (Syncing batch) = None"
| "flush_known (Answering batch flush_failure failed) = Some flush_failure"
| "flush_known (Publishing r answer batch flush_failure failed) = Some flush_failure"
| "flush_known Released = None"

text \<open>
  What justifies an answer after a history: the step ran; an answer that owed a flush comes after a \<open>sync_all\<close>
  that followed the step, and is a success only if that returned, with the record folded after it; and an
  error comes after the latch was raised.
\<close>

definition earned :: "('a, 's, 'x) event list \<Rightarrow> nat \<Rightarrow> ('a, 's, 'x) stage \<Rightarrow> 'x io_cause + 'a \<Rightarrow> bool" where
  "earned later r staged answer =
     (case staged of
        Settled answer' \<Rightarrow> answer = answer'
      | Committed x \<Rightarrow> answer = Inr x
      | Unsynced x _ _ \<Rightarrow>
          \<exists>p outcome q. later = p @ Synced outcome # q \<and>
            (case outcome of None \<Rightarrow> answer = Inr x \<and> Folded r \<in> set q | Some kind \<Rightarrow> answer = Inl (BatchFlushFailed kind)))"

definition justified :: "('a, 's, 'x) event list \<Rightarrow> nat \<Rightarrow> 'x io_cause + 'a \<Rightarrow> bool" where
  "justified es r answer \<longleftrightarrow>
     (\<exists>staged p q. es = p @ Ran r staged # q \<and> earned q r staged answer) \<and> (\<not> is_ok answer \<longrightarrow> Latched \<in> set es)"

definition all_justified :: "('a, 's, 'x) event list \<Rightarrow> bool" where
  "all_justified es \<longleftrightarrow> (\<forall>p r answer q. es = p @ Published r answer # q \<longrightarrow> justified p r answer)"

definition ran_before_flush :: "('a, 's, 'x) event list \<Rightarrow> error_kind option option \<Rightarrow> nat \<Rightarrow> ('a, 's, 'x) stage \<Rightarrow> bool" where
  "ran_before_flush es flush r staged \<longleftrightarrow>
     (\<exists>p q. es = p @ Ran r staged # q \<and> (\<forall>outcome. flush = Some outcome \<and> owes_flush staged \<longrightarrow> Synced outcome \<in> set q))"

definition answer_inv :: "('f, 's, 'a, 'x) owner \<Rightarrow> ('a, 's, 'x) event list \<Rightarrow> bool" where
  "answer_inv w es \<longleftrightarrow>
     \<not> sl_fail_next (ow_slot w) \<and> \<not> sl_fail_next_flush (ow_slot w) \<and>
     (sl_poisoned (ow_slot w) \<longleftrightarrow> Latched \<in> set es) \<and>
     (\<forall>r staged. (r, staged) \<in> set (batch_left (ow_phase w)) \<longrightarrow> ran_before_flush es (flush_known (ow_phase w)) r staged) \<and>
     (\<forall>r answer batch flush_failure failed. ow_phase w = Publishing r answer batch flush_failure failed \<longrightarrow> justified es r answer) \<and>
     all_justified es"

lemma answer_invD:
  assumes "answer_inv w es"
  shows "\<not> sl_fail_next (ow_slot w)" "\<not> sl_fail_next_flush (ow_slot w)" "sl_poisoned (ow_slot w) \<longleftrightarrow> Latched \<in> set es"
    "\<And>r staged. (r, staged) \<in> set (batch_left (ow_phase w)) \<Longrightarrow> ran_before_flush es (flush_known (ow_phase w)) r staged"
    "\<And>r answer batch flush_failure failed. ow_phase w = Publishing r answer batch flush_failure failed \<Longrightarrow> justified es r answer"
    "all_justified es"
  using assms unfolding answer_inv_def by blast+

lemma earned_append: "earned q r staged answer \<Longrightarrow> earned (q @ new) r staged answer"
  by (cases staged) (fastforce simp: earned_def split: option.splits)+

lemma justified_append:
  assumes "justified es r answer"
  shows "justified (es @ new) r answer"
proof -
  obtain staged p q where "es = p @ Ran r staged # q" "earned q r staged answer" using assms by (auto simp: justified_def)
  then have "es @ new = p @ Ran r staged # (q @ new) \<and> earned (q @ new) r staged answer" using earned_append by simp
  then show ?thesis using assms unfolding justified_def by auto
qed

lemma ran_before_flush_append:
  assumes "ran_before_flush es flush r staged"
  shows "ran_before_flush (es @ new) flush r staged"
proof -
  obtain p q where "es = p @ Ran r staged # q" "\<forall>outcome. flush = Some outcome \<and> owes_flush staged \<longrightarrow> Synced outcome \<in> set q"
    using assms by (auto simp: ran_before_flush_def)
  then have "es @ new = p @ Ran r staged # (q @ new) \<and> (\<forall>outcome. flush = Some outcome \<and> owes_flush staged \<longrightarrow> Synced outcome \<in> set (q @ new))"
    by simp
  then show ?thesis unfolding ran_before_flush_def by blast
qed

lemma all_justified_append:
  assumes "all_justified es" and "\<And>r answer. Published r answer \<notin> set new"
  shows "all_justified (es @ new)"
  unfolding all_justified_def
proof (intro allI impI)
  fix p r answer q
  assume "es @ new = p @ Published r answer # q"
  then obtain q' where "es = p @ Published r answer # q'"
    using assms(2) [of r answer] by (auto simp: append_eq_append_conv2 Cons_eq_append_conv append_eq_Cons_conv)
  then show "justified p r answer" using assms(1) by (simp add: all_justified_def)
qed

lemma all_justified_publish:
  assumes "all_justified es" and "justified es r answer"
  shows "all_justified (es @ [Published r answer])"
  unfolding all_justified_def
proof (intro allI impI)
  fix p r' answer' q
  assume split: "es @ [Published r answer] = p @ Published r' answer' # q"
  show "justified p r' answer'"
  proof (cases q rule: rev_cases)
    case Nil
    then show ?thesis using split assms(2) by simp
  next
    case (snoc q' e)
    then have "es = p @ Published r' answer' # q'" using split by simp
    then show ?thesis using assms(1) by (simp add: all_justified_def)
  qed
qed

text \<open>A turn that neither answers nor flushes.\<close>

lemma answer_inv_append:
  assumes "answer_inv w es"
    and "\<not> sl_fail_next (ow_slot w')" "\<not> sl_fail_next_flush (ow_slot w')" "sl_poisoned (ow_slot w') = sl_poisoned (ow_slot w)"
    and "\<And>r answer. Published r answer \<notin> set new" and "Latched \<notin> set new"
    and "flush_known (ow_phase w') = None"
    and "\<And>r staged. (r, staged) \<in> set (batch_left (ow_phase w')) \<Longrightarrow>
      flush_known (ow_phase w) = None \<and> (r, staged) \<in> set (batch_left (ow_phase w)) \<or> Ran r staged \<in> set new"
  shows "answer_inv w' (es @ new)"
  unfolding answer_inv_def
proof (intro conjI allI impI)
  fix r staged
  assume "(r, staged) \<in> set (batch_left (ow_phase w'))"
  from assms(8) [OF this] show "ran_before_flush (es @ new) (flush_known (ow_phase w')) r staged"
  proof
    assume "flush_known (ow_phase w) = None \<and> (r, staged) \<in> set (batch_left (ow_phase w))"
    then show ?thesis using answer_invD(4) [OF assms(1)] ran_before_flush_append assms(7) by fastforce
  next
    assume "Ran r staged \<in> set new"
    then obtain a b where "es @ new = (es @ a) @ Ran r staged # b" by (auto simp: in_set_conv_decomp)
    then show ?thesis unfolding ran_before_flush_def assms(7) by blast
  qed
next
  fix r answer batch flush_failure failed
  assume "ow_phase w' = Publishing r answer batch flush_failure failed"
  then show "justified (es @ new) r answer" using assms(7) by simp
next
  show "all_justified (es @ new)" using all_justified_append answer_invD(6) [OF assms(1)] assms(5) by blast
qed (use assms(2-4,6) answer_invD(3) [OF assms(1)] in simp_all)


text \<open>A step of another thread.\<close>

lemma answer_inv_same:
  assumes "answer_inv w es" and "ow_phase w' = ow_phase w"
    and "sl_fail_next (ow_slot w') = sl_fail_next (ow_slot w)" "sl_fail_next_flush (ow_slot w') = sl_fail_next_flush (ow_slot w)"
    "sl_poisoned (ow_slot w') = sl_poisoned (ow_slot w)" "\<And>r answer. Published r answer \<notin> set new" "Latched \<notin> set new"
  shows "answer_inv w' (es @ new)"
proof -
  have "\<And>r staged. (r, staged) \<in> set (batch_left (ow_phase w)) \<Longrightarrow> ran_before_flush (es @ new) (flush_known (ow_phase w)) r staged"
    using answer_invD(4) [OF assms(1)] by (rule ran_before_flush_append)
  moreover have "\<And>r answer batch flush_failure failed. ow_phase w = Publishing r answer batch flush_failure failed \<Longrightarrow> justified (es @ new) r answer"
    using answer_invD(5) [OF assms(1)] by (rule justified_append)
  moreover have "all_justified (es @ new)" using all_justified_append [OF answer_invD(6) [OF assms(1)]] assms(6) by blast
  ultimately show ?thesis unfolding answer_inv_def assms(2-5) using answer_invD(1-3) [OF assms(1)] assms(7) by auto
qed

lemma promoted_now_events [simp]: "Published r answer \<notin> set (promoted_now sl)" "Latched \<notin> set (promoted_now sl)"
  by (auto simp: promoted_now_eq)

lemma owner_turn_answers:
  assumes "owner_turn sync_all w = (w', new)" and "answer_inv w es"
  shows "answer_inv w' (es @ new)"
  using assms(1)
proof (cases rule: owner_turn_cases)
  case promoting
  then show ?thesis by (intro answer_inv_append [OF assms(2)]) (use answer_invD [OF assms(2)] in simp_all)
next
  case idle
  then show ?thesis using assms(2) by simp
next
  case (stage_first r rest bytes stage_new)
  show ?thesis
    by (rule stage_next_simps [OF stage_first(3)], rule answer_inv_append [OF assms(2)])
      (use answer_invD [OF assms(2)] stage_first(4) in auto)
next
  case (release bytes)
  then show ?thesis by (intro answer_inv_append [OF assms(2)]) (use answer_invD [OF assms(2)] in simp_all)
next
  case (waits bytes)
  then show ?thesis by (intro answer_inv_append [OF assms(2)]) (use answer_invD [OF assms(2)] in simp_all)
next
  case (stop batch bytes)
  then show ?thesis by (intro answer_inv_append [OF assms(2)]) (use answer_invD [OF assms(2)] in simp_all)
next
  case (stage_more batch bytes r rest)
  show ?thesis
    by (rule stage_next_simps [OF stage_more(6)], rule answer_inv_append [OF assms(2)])
      (use answer_invD [OF assms(2)] stage_more(1) in auto)
next
  case (sync batch)
  have ran: "\<And>r staged. (r, staged) \<in> set batch \<Longrightarrow> ran_before_flush es None r staged"
    using answer_invD(4) [OF assms(2)] sync(1) by simp
  show ?thesis
  proof (rule sync_batch_cases [OF sync(2) answer_invD(2) [OF assms(2)]])
    assume unowed: "\<forall>m \<in> set batch. \<not> owes_flush (snd m)" "w' = w\<lparr>ow_phase := Answering batch None False\<rparr>" "new = []"
    have "ran_before_flush es (Some None) r staged" if "(r, staged) \<in> set batch" for r staged
      using ran [OF that] unowed(1) that by (force simp: ran_before_flush_def)
    then show "answer_inv w' (es @ new)" using assms(2) unowed(2,3) by (simp add: answer_inv_def)
  next
    fix outcome file'
    assume flush: "sync_all (ow_file w) = (outcome, file')" "new = [Synced outcome]"
      "w' = w\<lparr>ow_slot := (ow_slot w)\<lparr>sl_flushes := sat_add_u64 (sl_flushes (ow_slot w)) 1\<rparr>, ow_file := file', ow_phase := Answering batch outcome False\<rparr>"
    have "ran_before_flush (es @ new) (Some outcome) r staged" if member: "(r, staged) \<in> set batch" for r staged
    proof -
      obtain p q where "es = p @ Ran r staged # q" using ran [OF member] by (auto simp: ran_before_flush_def)
      then have "es @ new = p @ Ran r staged # (q @ [Synced outcome])" using flush(2) by simp
      then show ?thesis unfolding ran_before_flush_def by fastforce
    qed
    moreover have "all_justified (es @ new)" using all_justified_append [OF answer_invD(6) [OF assms(2)], of new] flush(2) by simp
    ultimately show "answer_inv w' (es @ new)" using answer_invD(1-3) [OF assms(2)] flush(2,3) by (simp add: answer_inv_def)
  qed
next
  case (answered flush_failure failed)
  then show ?thesis by (intro answer_inv_append [OF assms(2)]) (use answer_invD [OF assms(2)] in simp_all)
next
  case (answer r staged batch flush_failure failed)
  have members: "ran_before_flush (es @ new) (Some flush_failure) r' staged'" if "(r', staged') \<in> set batch" for r' staged'
    by (rule ran_before_flush_append) (use answer_invD(4) [OF assms(2), of r' staged'] answer(1) that in simp)
  have "ran_before_flush es (Some flush_failure) r staged" using answer_invD(4) [OF assms(2)] answer(1) by simp
  then obtain p q where pq: "es = p @ Ran r staged # q" "owes_flush staged \<longrightarrow> Synced flush_failure \<in> set q"
    by (auto simp: ran_before_flush_def)
  show ?thesis
  proof (rule answer_next_effect [OF answer(2)])
    fix answer failed'
    assume eff: "ow_phase w' = Publishing r answer batch flush_failure failed'" "failed' \<longleftrightarrow> failed \<or> \<not> is_ok answer \<or> rq_abandoned (ow_requests w r)"
        "ow_slot w' = (if failed' then (ow_slot w)\<lparr>sl_poisoned := True\<rparr> else ow_slot w)"
      and new: "(\<exists>answer'. staged = Settled answer' \<and> answer = answer' \<and> ow_state w' = ow_state w \<and> new = (if failed' then [Latched] else [])) \<or>
     (\<exists>x. staged = Committed x \<and> answer = Inr x \<and> ow_state w' = ow_state w \<and> new = (if failed' then [Latched] else [])) \<or>
     (\<exists>x n settle. staged = Unsynced x n settle \<and> flush_failure = None \<and> answer = Inr x \<and> ow_state w' = settle (ow_state w) \<and>
        new = Folded r # (if failed' then [Latched] else [])) \<or>
     (\<exists>x n settle kind. staged = Unsynced x n settle \<and> flush_failure = Some kind \<and> answer = Inl (BatchFlushFailed kind) \<and>
        ow_state w' = ow_state w \<and> new = [Latched])"
    have "earned (q @ new) r staged answer"
    proof (cases staged)
      case (Unsynced x n settle)
      then obtain q1 q2 where "q = q1 @ Synced flush_failure # q2" using pq(2) by (auto simp: owes_flush_def in_set_conv_decomp)
      then have "q @ new = q1 @ Synced flush_failure # (q2 @ new)" by simp
      moreover have "case flush_failure of None \<Rightarrow> answer = Inr x \<and> Folded r \<in> set (q2 @ new) | Some kind \<Rightarrow> answer = Inl (BatchFlushFailed kind)"
        using new Unsynced by auto
      ultimately show ?thesis unfolding earned_def Unsynced by (simp only: stage.case) blast
    qed (use new in \<open>auto simp: earned_def\<close>)
    moreover have latched: "failed' \<longrightarrow> Latched \<in> set new" "Latched \<in> set new \<longrightarrow> failed'"
      using new eff(2) by (auto split: if_splits)
    moreover have "es @ new = p @ Ran r staged # (q @ new)" using pq(1) by simp
    ultimately have "justified (es @ new) r answer" unfolding justified_def using eff(2) by auto
    moreover have "all_justified (es @ new)"
      by (rule all_justified_append) (use answer_invD(6) [OF assms(2)] new in \<open>auto split: if_splits\<close>)
    moreover have "sl_poisoned (ow_slot w') \<longleftrightarrow> Latched \<in> set (es @ new)" using latched eff(3) answer_invD(3) [OF assms(2)] by auto
    ultimately show "answer_inv w' (es @ new)"
      using answer_invD(1,2) [OF assms(2)] eff(1,3) members by (simp add: answer_inv_def)
  qed
next
  case (publish r answer batch flush_failure failed)
  have "all_justified (es @ new)"
    using all_justified_publish answer_invD(6) [OF assms(2)] answer_invD(5) [OF assms(2) publish(1)] publish(3) by simp
  moreover have "ran_before_flush (es @ new) (Some flush_failure) r' staged'" if "(r', staged') \<in> set batch" for r' staged'
    by (rule ran_before_flush_append) (use answer_invD(4) [OF assms(2), of r' staged'] publish(1) that in simp)
  ultimately show ?thesis
    using answer_invD(1-3) [OF assms(2)] publish by (simp add: answer_inv_def Storage_Owner.publish_def)
qed

section \<open>The reachable owners\<close>

definition batch_ok :: "(nat \<times> ('a, 's, 'x) stage) list \<Rightarrow> bool" where
  "batch_ok batch \<longleftrightarrow> length batch \<le> max_batch_records \<and>
     (batch \<noteq> [] \<longrightarrow> sum_list (map (staged_bytes \<circ> snd) (butlast batch)) < max_batch_bytes)"

definition batch_inv :: "('f, 's, 'a, 'x) owner \<Rightarrow> bool" where
  "batch_inv w \<longleftrightarrow> (case ow_phase w of
     Staging batch bytes \<Rightarrow> batch_ok batch \<and> bytes = min (sum_list (map (staged_bytes \<circ> snd) batch)) usize_max
   | Syncing batch \<Rightarrow> batch_ok batch
   | Answering batch _ _ \<Rightarrow> length batch \<le> max_batch_records
   | Publishing _ _ batch _ _ \<Rightarrow> length batch < max_batch_records
   | _ \<Rightarrow> True)"

lemma stage_next_batch:
  assumes "stage_next batch bytes r rest w = (w', new)" and "batch_ok batch" and "length batch < max_batch_records"
    and "bytes = min (sum_list (map (staged_bytes \<circ> snd) batch)) usize_max" and "bytes < max_batch_bytes"
  shows "batch_inv w'"
proof (rule stage_next_simps [OF assms(1)])
  fix staged
  assume "ow_phase w' = Staging (batch @ [(r, staged)]) (sat_add_usize bytes (staged_bytes staged))"
  moreover have "sum_list (map (staged_bytes \<circ> snd) batch) < max_batch_bytes"
    using assms(4,5) by (auto simp: max_batch_bytes_def usize_max_def)
  ultimately show ?thesis using assms(2-4) by (auto simp: batch_inv_def batch_ok_def sat_add_usize_def)
qed

lemma owner_turn_batch:
  assumes "owner_turn sync_all w = (w', new)" and "batch_inv w" and "\<not> sl_fail_next_flush (ow_slot w)"
  shows "batch_inv w'"
  using assms(1)
proof (cases rule: owner_turn_cases)
  case promoting
  then show ?thesis by (simp add: batch_inv_def batch_ok_def)
next
  case (stage_first r rest bytes stage_new)
  then show ?thesis
    using stage_next_batch [OF stage_first(3)] assms(2) by (simp add: batch_inv_def batch_ok_def max_batch_records_def max_batch_bytes_def)
next
  case (stage_more batch bytes r rest)
  then show ?thesis using stage_next_batch [OF stage_more(6)] assms(2) by (simp add: batch_inv_def)
next
  case (sync batch)
  show ?thesis
    by (rule sync_batch_cases [OF sync(2) assms(3)]) (use assms(2) sync(1) in \<open>auto simp: batch_inv_def batch_ok_def\<close>)
next
  case (answer r staged batch flush_failure failed)
  show ?thesis
    by (rule answer_next_effect [OF answer(2)]) (use assms(2) answer(1) in \<open>auto simp: batch_inv_def\<close>)
qed (use assms(2) in \<open>simp_all add: batch_inv_def Storage_Owner.publish_def\<close>)

lemma owner_reach_lines:
  assumes "owner_reach sync_all job_of device state w es"
  shows "lines_inv w es \<and> answer_inv w es"
  using assms
proof induction
  case spawn
  show ?case by (simp add: lines_inv_def answer_inv_def all_justified_def owner_spawn_def slot_new_def)
next
  case (turn w es w' new)
  then show ?case using owner_turn_lines [OF turn.hyps(2)] owner_turn_answers [OF turn.hyps(2)] answer_invD(2) by blast
next
  case (enqueue w es r res w' new)
  show ?case using enqueue.hyps(5)
  proof (cases rule: enqueue_cases)
    case (refused error)
    then show ?thesis using enqueue.IH by simp
  next
    case admitted
    then show ?thesis using enqueue.IH enqueue.hyps(3) answer_inv_same [of w es w' new] by (simp add: lines_inv_def)
  next
    case parked
    then show ?thesis using enqueue.IH enqueue.hyps(3) answer_inv_same [of w es w' new] by (simp add: lines_inv_def)
  qed
next
  case (poll w es r res w')
  then have "ow_phase w' = ow_phase w \<and> ow_slot w' = ow_slot w" using awaiting_simps(4,5) [of r w] by (simp only: snd_conv)
  then show ?case using poll.IH by (simp add: lines_inv_def answer_inv_def)
qed (simp_all add: lines_inv_def answer_inv_def)


lemma owner_reach_batch:
  assumes "owner_reach sync_all job_of device state w es"
  shows "batch_inv w"
  using assms
proof induction
  case spawn
  show ?case by (simp add: batch_inv_def owner_spawn_def)
next
  case (turn w es w' new)
  have "\<not> sl_fail_next_flush (ow_slot w)" using answer_invD(2) [OF conjunct2 [OF owner_reach_lines [OF turn.hyps(1)]]] .
  then show ?case by (rule owner_turn_batch [OF turn.hyps(2) turn.IH])
next
  case (enqueue w es r res w' new)
  show ?case using enqueue.hyps(5)
    by (cases rule: enqueue_cases) (use enqueue.IH in \<open>simp_all add: batch_inv_def\<close>)
next
  case (poll w es r res w')
  then have "ow_phase w' = ow_phase w" using awaiting_simps(4) [of r w] by (simp only: snd_conv)
  then show ?case using poll.IH by (simp add: batch_inv_def)
qed (simp_all add: batch_inv_def)

section \<open>The owner alone\<close>

text \<open>What is left to do, in turns.\<close>

definition owner_left :: "('f, 's, 'a, 'x) owner \<Rightarrow> nat" where
  "owner_left w =
     8 * (length (sl_pending (ow_slot w)) + length (sl_waiting (ow_slot w))) +
     (case ow_phase w of
        Promoting \<Rightarrow> 1
      | Staging batch _ \<Rightarrow> if batch = [] then 0 else 2 * length batch + 4
      | Syncing batch \<Rightarrow> 2 * length batch + 3
      | Answering batch _ _ \<Rightarrow> 2 * length batch + 2
      | Publishing _ _ batch _ _ \<Rightarrow> 2 * length batch + 3
      | Released \<Rightarrow> 0)"

definition at_rest :: "('f, 's, 'a, 'x) owner \<Rightarrow> bool" where
  "at_rest w \<longleftrightarrow> sl_pending (ow_slot w) = [] \<and> sl_waiting (ow_slot w) = [] \<and> (\<exists>bytes. ow_phase w = Staging [] bytes)"

definition can_go :: "('f, 's, 'a, 'x) owner \<Rightarrow> bool" where
  "can_go w \<longleftrightarrow> (ow_stalled w \<longrightarrow> sl_closed (ow_slot w)) \<and> ow_phase w \<noteq> Released"

lemma promote_size: "length (sl_pending (promote sl)) + length (sl_waiting (promote sl)) = length (sl_pending sl) + length (sl_waiting sl)"
  by simp

lemma promote_empty: "sl_pending (promote sl) = [] \<longleftrightarrow> sl_pending sl = [] \<and> sl_waiting sl = []"
  by (auto simp: room_def default_queue_depth_def)

lemma owner_turn_left:
  assumes "owner_turn sync_all w = (w', new)" and "can_go w" and "\<not> at_rest w" and "\<not> sl_fail_next_flush (ow_slot w)"
  shows "owner_left w' < owner_left w \<and> can_go w'"
  using assms(1)
proof (cases rule: owner_turn_cases)
  case promoting
  then show ?thesis using assms(2) promote_size [of "ow_slot w"] by (simp add: owner_left_def can_go_def del: promote_simps(1,2))
next
  case idle
  then show ?thesis using assms(2) by (auto simp: can_go_def)
next
  case (stage_first r rest bytes stage_new)
  show ?thesis
    by (rule stage_next_simps [OF stage_first(3)])
      (use assms(2) stage_first(1,2) promote_size [of "ow_slot w"] in \<open>simp add: owner_left_def can_go_def del: promote_simps(1,2)\<close>)
next
  case (release bytes)
  then show ?thesis using assms(3) by (simp add: at_rest_def promote_empty del: promote_simps(1))
next
  case (waits bytes)
  then show ?thesis using assms(3) by (simp add: at_rest_def promote_empty del: promote_simps(1))
next
  case (stop batch bytes)
  then show ?thesis using assms(2) by (simp add: owner_left_def can_go_def)
next
  case (stage_more batch bytes r rest)
  show ?thesis
    by (rule stage_next_simps [OF stage_more(6)]) (use assms(2) stage_more(1,2,5) in \<open>simp add: owner_left_def can_go_def\<close>)
next
  case (sync batch)
  show ?thesis
    by (rule sync_batch_cases [OF sync(2) assms(4)]) (use assms(2) sync(1) in \<open>simp_all add: owner_left_def can_go_def\<close>)
next
  case (answered flush_failure failed)
  then show ?thesis using assms(2) by (simp add: owner_left_def can_go_def)
next
  case (answer r staged batch flush_failure failed)
  show ?thesis
    by (rule answer_next_effect [OF answer(2)]) (use assms(2) answer(1) in \<open>simp add: owner_left_def can_go_def\<close>)
next
  case (publish r answer batch flush_failure failed)
  then show ?thesis using assms(2) by (simp add: owner_left_def can_go_def Storage_Owner.publish_def)
qed

fun owner_turns :: "('f \<Rightarrow> error_kind option \<times> 'f) \<Rightarrow> nat \<Rightarrow> ('f, 's, 'a, 'x) owner \<Rightarrow> ('f, 's, 'a, 'x) owner \<times> ('a, 's, 'x) event list" where
  "owner_turns sync_all 0 w = (w, [])"
| "owner_turns sync_all (Suc n) w =
     (case owner_turn sync_all w of (w, new) \<Rightarrow> case owner_turns sync_all n w of (w, later) \<Rightarrow> (w, new @ later))"

lemma owner_turns_reach:
  "owner_reach sync_all job_of device state w es \<Longrightarrow> owner_turns sync_all n w = (w', new) \<Longrightarrow> owner_reach sync_all job_of device state w' (es @ new)"
proof (induction n arbitrary: w es new)
  case (Suc n)
  obtain w1 new1 where t: "owner_turn sync_all w = (w1, new1)" by fastforce
  obtain new2 where "owner_turns sync_all n w1 = (w', new2)" "new = new1 @ new2"
    using Suc.prems(2) t by (auto split: prod.splits)
  then show ?case using Suc.IH [OF owner_reach.turn [OF Suc.prems(1) t]] by simp
qed simp

lemma owner_comes_to_rest:
  assumes "owner_reach sync_all job_of device state w es" and "can_go w"
  shows "\<exists>n w' new. owner_turns sync_all n w = (w', new) \<and> at_rest w'"
  using assms
proof (induction "owner_left w" arbitrary: w es rule: less_induct)
  case less
  show ?case
  proof (cases "at_rest w")
    case True
    then have "owner_turns sync_all 0 w = (w, []) \<and> at_rest w" by simp
    then show ?thesis by blast
  next
    case False
    obtain w1 new1 where t: "owner_turn sync_all w = (w1, new1)" by fastforce
    have "\<not> sl_fail_next_flush (ow_slot w)" using answer_invD(2) [OF conjunct2 [OF owner_reach_lines [OF less.prems(1)]]] .
    from owner_turn_left [OF t less.prems(2) False this] obtain n w' new where "owner_turns sync_all n w1 = (w', new)" "at_rest w'"
      using less.hyps owner_reach.turn [OF less.prems(1) t] by blast
    then have "owner_turns sync_all (Suc n) w = (w', new1 @ new) \<and> at_rest w'" using t by simp
    then show ?thesis by blast
  qed
qed


section \<open>What the owner promises\<close>

text \<open>C15: Nothing is acknowledged early: an answer is given only after the request's step ran; if the step's bytes owed the batch a flush, only after a sync_all that came later than the step, as a success only when that flush returned and the record was folded after it, and otherwise as that flush's failure; and no error is answered before the latch is raised.\<close>

theorem owner_answers_earned:
  assumes "owner_reach sync_all job_of device state w (p @ Published r answer # q)"
  shows "justified p r answer"
  using owner_reach_lines [OF assms] answer_invD(6) unfolding all_justified_def by blast

text \<open>C16: Every admitted request has one place: answered, in the batch, in the ring or in the waiting line, each exactly once and in that order of progress; answers go out in the order the ring admitted, promotions in the order of the waiting line; neither line nor a batch is ever longer than its bound, and only the last record of a batch may take it past its bytes.\<close>

theorem owner_lines_bounded:
  assumes "owner_reach sync_all job_of device state w es"
  shows "picks to_ring es = picks to_published es @ in_batch (ow_phase w) @ sl_pending (ow_slot w) \<and>
    picks to_parked es = picks to_promoted es @ sl_waiting (ow_slot w) \<and>
    distinct (submitted es) \<and>
    mset (submitted es) = mset (picks to_published es @ in_batch (ow_phase w) @ sl_pending (ow_slot w) @ sl_waiting (ow_slot w)) \<and>
    length (sl_pending (ow_slot w)) \<le> 64 \<and> length (sl_waiting (ow_slot w)) \<le> 64 \<and> length (in_batch (ow_phase w)) \<le> 64 \<and>
    (\<forall>batch bytes. ow_phase w = Staging batch bytes \<longrightarrow> batch \<noteq> [] \<longrightarrow> sum_list (map (staged_bytes \<circ> snd) (butlast batch)) < max_batch_bytes)"
proof -
  note lines = lines_invD [OF conjunct1 [OF owner_reach_lines [OF assms]]]
  have "length (in_batch (ow_phase w)) \<le> 64" and
    "\<forall>batch bytes. ow_phase w = Staging batch bytes \<longrightarrow> batch \<noteq> [] \<longrightarrow> sum_list (map (staged_bytes \<circ> snd) (butlast batch)) < max_batch_bytes"
    using owner_reach_batch [OF assms] by (cases "ow_phase w"; simp add: batch_inv_def batch_ok_def max_batch_records_def)+
  then show ?thesis using lines by (simp add: default_queue_depth_def max_waiting_submitters_def)
qed

lemma owner_turns_submit:
  "owner_turns sync_all n w = (w', new) \<Longrightarrow> submitted new = []"
proof (induction n arbitrary: w new)
  case (Suc n)
  obtain w1 new1 where t: "owner_turn sync_all w = (w1, new1)" by fastforce
  obtain new2 where "owner_turns sync_all n w1 = (w', new2)" "new = new1 @ new2" using Suc.prems t by (auto split: prod.splits)
  moreover have "submitted new1 = []" using t
  proof (cases rule: owner_turn_cases)
    case (stage_first r rest bytes stage_new)
    show ?thesis by (rule stage_next_simps [OF stage_first(3)]) (simp add: stage_first(4) promoted_now_eq)
  next
    case (stage_more batch bytes r rest)
    show ?thesis by (rule stage_next_simps [OF stage_more(6)]) simp
  next
    case (sync batch)
    then show ?thesis by (auto simp: sync_batch_def split: if_splits prod.splits)
  next
    case (answer r staged batch flush_failure failed)
    then show ?thesis by (simp add: answer_next_picks)
  qed (simp_all add: promoted_now_eq)
  ultimately show ?case using Suc.IH by simp
qed simp

lemma at_rest_published:
  assumes "owner_reach sync_all job_of device state w es" and "at_rest w"
  shows "set (picks to_published es) = set (submitted es)"
proof -
  note lines = lines_invD [OF conjunct1 [OF owner_reach_lines [OF assms(1)]]]
  have rest: "sl_pending (ow_slot w) = []" "sl_waiting (ow_slot w) = []" "in_batch (ow_phase w) = []"
    using assms(2) by (auto simp: at_rest_def)
  have "mset (submitted es) = mset (picks to_published es)" unfolding lines(7,3,4) rest by simp
  then show ?thesis by (metis set_mset_mset)
qed

text \<open>C17: Every request is answered: whatever the state, an owner whose gate is open (or whose handle is closed) comes to rest after finitely many turns of its own, and then every request ever admitted has been answered.\<close>

theorem owner_answers_all:
  assumes "owner_reach sync_all job_of device state w es" and "can_go w"
  shows "\<exists>n w' new. owner_turns sync_all n w = (w', new) \<and> at_rest w' \<and> set (picks to_published (es @ new)) = set (submitted es)"
proof -
  obtain n w' new where run: "owner_turns sync_all n w = (w', new)" "at_rest w'" using owner_comes_to_rest [OF assms] by blast
  have "set (picks to_published (es @ new)) = set (submitted (es @ new))"
    by (rule at_rest_published [OF owner_turns_reach [OF assms(1) run(1)] run(2)])
  then show ?thesis using run owner_turns_submit [OF run(1)] by (intro exI conjI) simp_all
qed

text \<open>A latched owner refuses: once an answer was an error, or its caller had gone, every later submission is refused as poisoned and changes nothing.\<close>

theorem owner_latched_refuses:
  assumes "owner_reach sync_all job_of device state w es" and "Latched \<in> set es"
  shows "owner_enqueue r job w = (Inl SubmitPoisoned, w, [])"
  using answer_invD(3) [OF conjunct2 [OF owner_reach_lines [OF assms(1)]]] assms(2)
  by (simp add: owner_enqueue_def slot_admission_def)

section \<open>Small runs\<close>

text \<open>Requests that append their number to the file, and fold it; the flush of a file holding only \<open>0\<close> fails.\<close>

definition demo_job :: "nat \<Rightarrow> nat \<Rightarrow> (nat list, nat list, nat, nat) job" where
  "demo_job r bytes device state = (Inr (Unsynced r bytes (\<lambda>state. state @ [r])), device @ [r], state)"

definition demo_sync :: "nat list \<Rightarrow> error_kind option \<times> nat list" where
  "demo_sync device = (if device = [0] then Some OtherKind else None, device)"

abbreviation demo_spawn :: "(nat list, nat list, nat, nat) owner" where
  "demo_spawn \<equiv> owner_spawn [] [] False"

definition demo_jobs :: "nat \<Rightarrow> (nat list, nat list, nat, nat) job" where
  "demo_jobs r = demo_job r (if r = 0 then max_batch_bytes else 1)"

definition demo_enqueue :: "nat \<Rightarrow> (nat list, nat list, nat, nat) owner \<Rightarrow> (nat list, nat list, nat, nat) owner" where
  "demo_enqueue r w = fst (snd (owner_enqueue r (demo_jobs r) w))"

lemma demo_enqueue_ring:
  assumes "owner_reach demo_sync demo_jobs [] [] w es" and "\<not> sl_closed (ow_slot w)" and "r \<notin> set (submitted es)" and "ow_requests w r = request_new"
    and "\<not> sl_poisoned (ow_slot w)" and "length (sl_pending (ow_slot w)) < default_queue_depth"
  shows "owner_reach demo_sync demo_jobs [] [] (demo_enqueue r w) (es @ [InRing r])"
    and "demo_enqueue r w = (request_arm r (demo_jobs r) w)\<lparr>ow_slot := (ow_slot w)\<lparr>sl_pending := sl_pending (ow_slot w) @ [r]\<rparr>\<rparr>"
proof -
  have "owner_enqueue r (demo_jobs r) w = (Inr (), demo_enqueue r w, [InRing r])"
    using assms(5,6) by (simp add: demo_enqueue_def owner_enqueue_def slot_admission_def Let_def)
  then show "owner_reach demo_sync demo_jobs [] [] (demo_enqueue r w) (es @ [InRing r])" by (rule owner_reach.enqueue [OF assms(1-4)])
  show "demo_enqueue r w = (request_arm r (demo_jobs r) w)\<lparr>ow_slot := (ow_slot w)\<lparr>sl_pending := sl_pending (ow_slot w) @ [r]\<rparr>\<rparr>"
    using assms(5,6) by (simp add: demo_enqueue_def owner_enqueue_def slot_admission_def Let_def)
qed

text \<open>Two requests, the first filling its batch: its flush fails, the second runs in a batch of its own.\<close>

definition demo_two :: "(nat list, nat list, nat, nat) owner" where
  "demo_two = demo_enqueue 1 (demo_enqueue 0 demo_spawn)"

lemma demo_two_eq:
  "demo_two = \<lparr>ow_slot = slot_new\<lparr>sl_pending := [0, 1]\<rparr>, ow_stalled = False,
     ow_requests = (\<lambda>_. request_new)(0 := request_new\<lparr>rq_job := Some (demo_job 0 max_batch_bytes)\<rparr>, 1 := request_new\<lparr>rq_job := Some (demo_job 1 1)\<rparr>),
     ow_file = [], ow_state = [], ow_phase = Promoting\<rparr>"
  by (simp add: demo_two_def demo_jobs_def demo_enqueue_def owner_enqueue_def slot_admission_def owner_spawn_def slot_new_def default_queue_depth_def request_arm_def)

lemma demo_two_reach: "owner_reach demo_sync demo_jobs [] [] demo_two [InRing 0, InRing 1]"
proof -
  have "owner_reach demo_sync demo_jobs [] [] (demo_enqueue 0 demo_spawn) ([] @ [InRing 0])"
    by (rule demo_enqueue_ring(1) [OF owner_reach.spawn]) (simp_all add: owner_spawn_def slot_new_def default_queue_depth_def)
  then have "owner_reach demo_sync demo_jobs [] [] demo_two (([] @ [InRing 0]) @ [InRing 1])" unfolding demo_two_def
    by (rule demo_enqueue_ring(1))
      (simp_all add: demo_enqueue_def owner_enqueue_def slot_admission_def owner_spawn_def slot_new_def default_queue_depth_def request_arm_def)
  then show ?thesis by simp
qed

lemmas turn_defs = owner_turn_def promoted_now_def promote_def stage_next_def sync_batch_def answer_next_def publish_def Let_def
  slot_new_def request_new_def staged_bytes_def owes_flush_def demo_job_def demo_sync_def
  default_queue_depth_def max_batch_bytes_def max_batch_records_def sat_add_usize_def usize_max_def

lemma demo_two_turns:
  "\<exists>w w'. owner_turns demo_sync (Suc (Suc (Suc (Suc (Suc (Suc (Suc 0))))))) demo_two =
     (w, [Ran 0 (Unsynced 0 max_batch_bytes (\<lambda>state. state @ [0])), Synced (Some OtherKind), Latched, Published 0 (Inl (BatchFlushFailed OtherKind))]) \<and>
     owner_turns demo_sync (Suc (Suc (Suc (Suc (Suc (Suc 0)))))) w =
     (w', [Ran 1 (Unsynced 1 1 (\<lambda>state. state @ [1])), Synced None, Folded 1, Published 1 (Inr 1)])"
  by (simp add: demo_two_eq turn_defs)

text \<open>A request that was queued when the latch went up still runs, writes and is acknowledged.\<close>

definition demo_failed :: "(nat, nat list, nat) event list" where
  "demo_failed = [InRing 0, InRing 1, Ran 0 (Unsynced 0 max_batch_bytes (\<lambda>state. state @ [0])), Synced (Some OtherKind), Latched,
     Published 0 (Inl (BatchFlushFailed OtherKind))]"

lemma owner_runs_past_latch:
  obtains w w' where "owner_reach demo_sync demo_jobs [] [] w demo_failed"
    "owner_reach demo_sync demo_jobs [] [] w' ((demo_failed @ [Ran 1 (Unsynced 1 1 (\<lambda>state. state @ [1])), Synced None, Folded 1]) @ Published 1 (Inr 1) # [])"
proof -
  obtain w w' where first: "owner_turns demo_sync (Suc (Suc (Suc (Suc (Suc (Suc (Suc 0))))))) demo_two =
     (w, [Ran 0 (Unsynced 0 max_batch_bytes (\<lambda>state. state @ [0])), Synced (Some OtherKind), Latched, Published 0 (Inl (BatchFlushFailed OtherKind))])"
    and second: "owner_turns demo_sync (Suc (Suc (Suc (Suc (Suc (Suc 0)))))) w =
     (w', [Ran 1 (Unsynced 1 1 (\<lambda>state. state @ [1])), Synced None, Folded 1, Published 1 (Inr 1)])"
    using demo_two_turns by blast
  have "owner_reach demo_sync demo_jobs [] [] w demo_failed" using owner_turns_reach [OF demo_two_reach first] by (simp add: demo_failed_def)
  from that [OF this] owner_turns_reach [OF this second] show thesis by simp
qed

theorem owner_answers_earned_witness:
  "justified (demo_failed @ [Ran 1 (Unsynced 1 1 (\<lambda>state. state @ [1])), Synced None, Folded 1]) 1 (Inr 1)"
proof (rule owner_runs_past_latch)
  fix w'
  assume "owner_reach demo_sync demo_jobs [] [] w' ((demo_failed @ [Ran 1 (Unsynced 1 1 (\<lambda>state. state @ [1])), Synced None, Folded 1]) @ Published 1 (Inr 1) # [])"
  from owner_answers_earned [OF this] show ?thesis .
qed

theorem owner_lines_bounded_witness:
  "mset (submitted demo_failed) = mset (picks to_published demo_failed) + {#1#}"
proof (rule owner_runs_past_latch)
  fix w
  assume reach: "owner_reach demo_sync demo_jobs [] [] w demo_failed"
  from owner_lines_bounded [OF this] show ?thesis by (simp add: demo_failed_def)
qed

theorem owner_answers_all_witness:
  "\<exists>n w' new. owner_turns demo_sync n demo_two = (w', new) \<and> at_rest w' \<and> set (picks to_published ([InRing 0, InRing 1] @ new)) = {0, 1}"
  using owner_answers_all [OF demo_two_reach] by (simp add: can_go_def demo_two_eq slot_new_def)

theorem owner_latched_refuses_witness:
  "\<exists>w. owner_reach demo_sync demo_jobs [] [] w demo_failed \<and> owner_enqueue 2 (demo_jobs 2) w = (Inl SubmitPoisoned, w, [])"
proof (rule owner_runs_past_latch)
  fix w
  assume reach: "owner_reach demo_sync demo_jobs [] [] w demo_failed"
  have "Latched \<in> set demo_failed" by (simp add: demo_failed_def)
  from owner_latched_refuses [OF reach this] reach show ?thesis by blast
qed

text \<open>A full ring: request 64 waits, and request 65 enters the ring before it as soon as one place is free.\<close>

primrec demo_fill :: "nat \<Rightarrow> (nat list, nat list, nat, nat) owner" where
  "demo_fill 0 = demo_spawn"
| "demo_fill (Suc n) = demo_enqueue n (demo_fill n)"

lemma submitted_ring [simp]: "submitted (map InRing rs) = rs"
  by (induction rs) simp_all

lemma demo_fill:
  assumes "n \<le> default_queue_depth"
  shows "owner_reach demo_sync demo_jobs [] [] (demo_fill n) (map InRing [0..<n]) \<and> ow_slot (demo_fill n) = slot_new\<lparr>sl_pending := [0..<n]\<rparr> \<and>
    ow_phase (demo_fill n) = Promoting \<and> \<not> ow_stalled (demo_fill n) \<and>
    (\<forall>r. ow_requests (demo_fill n) r = (if r < n then request_new\<lparr>rq_job := Some (demo_jobs r)\<rparr> else request_new))"
  using assms
proof (induction n)
  case 0
  have "owner_reach demo_sync demo_jobs [] [] demo_spawn []" by (rule owner_reach.spawn)
  then show ?case by (simp add: owner_spawn_def slot_new_def)
next
  case (Suc n)
  then have IH: "owner_reach demo_sync demo_jobs [] [] (demo_fill n) (map InRing [0..<n])" "ow_slot (demo_fill n) = slot_new\<lparr>sl_pending := [0..<n]\<rparr>"
    "ow_phase (demo_fill n) = Promoting" "\<not> ow_stalled (demo_fill n)"
    "\<And>r. ow_requests (demo_fill n) r = (if r < n then request_new\<lparr>rq_job := Some (demo_jobs r)\<rparr> else request_new)"
    by simp_all
  note enq = demo_enqueue_ring [OF IH(1), of n]
  have "owner_reach demo_sync demo_jobs [] [] (demo_fill (Suc n)) (map InRing [0..<n] @ [InRing n])"
    using enq(1) IH(2,5) Suc.prems by (simp add: slot_new_def)
  moreover have "demo_fill (Suc n) = (request_arm n (demo_jobs n) (demo_fill n))\<lparr>ow_slot := (ow_slot (demo_fill n))\<lparr>sl_pending := sl_pending (ow_slot (demo_fill n)) @ [n]\<rparr>\<rparr>"
    using enq(2) IH(2,5) Suc.prems by (simp add: slot_new_def)
  ultimately show ?case using IH(2-5) by (simp add: request_arm_def slot_new_def request_new_def)
qed

lemma owner_overtakes:
  obtains w :: "(nat list, nat list, nat, nat) owner" and es where "owner_reach demo_sync demo_jobs [] [] w es" "submitted es = [0..<66]" "sl_pending (ow_slot w) = [1..<64] @ [65]" "sl_waiting (ow_slot w) = [64]"
proof -
  have depth: "default_queue_depth = 64" by (simp add: default_queue_depth_def)
  note full = demo_fill [of 64, unfolded depth, simplified]
  let ?w1 = "(request_arm 64 (demo_jobs 64) (demo_fill 64))\<lparr>ow_slot := slot_new\<lparr>sl_pending := [0..<64], sl_waiting := [64]\<rparr>\<rparr>"
  have "owner_enqueue 64 (demo_jobs 64) (demo_fill 64) = (Inr (), ?w1, [Parked 64])"
    using full by (simp add: owner_enqueue_def slot_admission_def slot_new_def depth max_waiting_submitters_def Let_def)
  then have r1: "owner_reach demo_sync demo_jobs [] [] ?w1 (map InRing [0..<64] @ [Parked 64])"
    by (intro owner_reach.enqueue [of demo_sync demo_jobs "[]" "[]" "demo_fill 64" _ 64]) (use full in \<open>simp_all add: slot_new_def\<close>)
  obtain w2 where w2: "w2 = ?w1\<lparr>ow_phase := Staging [] 0\<rparr>" by simp
  have ring: "[0..<64] = 0 # [1..<64]" by (simp add: upt_conv_Cons)
  have slot2: "promote (ow_slot w2) = ow_slot w2" "promoted_now (ow_slot w2) = []" "sl_pending (ow_slot w2) = 0 # [1..<64]"
    "sl_waiting (ow_slot w2) = [64]" "\<not> sl_poisoned (ow_slot w2)" "\<not> sl_closed (ow_slot w2)" "\<not> sl_fail_next (ow_slot w2)"
    by (simp_all add: w2 promote_def promote_loop_eq promoted_now_def depth slot_new_def ring)
  have "owner_turn demo_sync ?w1 = (w2, [])"
    using full slot2(1,2) unfolding w2 by (simp add: owner_turn_def Let_def)
  then have r2: "owner_reach demo_sync demo_jobs [] [] w2 (map InRing [0..<64] @ [Parked 64])" using owner_reach.turn [OF r1] by fastforce
  have job: "rq_job (ow_requests w2 0) = Some (demo_jobs 0)" "ow_requests w2 65 = request_new" "\<not> ow_stalled w2" "ow_phase w2 = Staging [] 0"
    using full by (simp_all add: w2 request_arm_def)
  obtain w3 ran where st: "stage_next [] 0 0 [1..<64] w2 = (w3, ran)" by fastforce
  have w3: "ran = [Ran 0 (Unsynced 0 max_batch_bytes (\<lambda>state. state @ [0]))]" "sl_pending (ow_slot w3) = [1..<64]" "sl_waiting (ow_slot w3) = [64]"
      "\<not> sl_poisoned (ow_slot w3)" "\<not> sl_closed (ow_slot w3)" "ow_requests w3 65 = request_new"
    using slot2 job by (auto simp: demo_jobs_def demo_job_def intro: stage_next_simps [OF st])
  have t: "owner_turn demo_sync w2 = (w3, [Ran 0 (Unsynced 0 max_batch_bytes (\<lambda>state. state @ [0]))])"
    using slot2 job st w3(1) by (simp add: owner_turn_def Let_def del: promote_simps(1))
  have reach: "owner_reach demo_sync demo_jobs [] [] (demo_enqueue 65 w3) (((map InRing [0..<64] @ [Parked 64]) @ [Ran 0 (Unsynced 0 max_batch_bytes (\<lambda>state. state @ [0]))]) @ [InRing 65])"
    using demo_enqueue_ring(1) [OF owner_reach.turn [OF r2 t], of 65] w3 by (simp add: depth)
  have slot: "ow_slot (demo_enqueue 65 w3) = (ow_slot w3)\<lparr>sl_pending := [1..<64] @ [65]\<rparr>"
    using demo_enqueue_ring(2) [OF owner_reach.turn [OF r2 t], of 65] w3 by (simp add: depth)
  have order: "[0..<66] = [0..<64] @ [64, 65]" using upt_add_eq_append [of 0 64 2] by (simp add: upt_conv_Cons)
  show thesis by (rule that [OF reach]) (use w3 slot order in simp_all)
qed

end
