(* ===== verification/Owner_Client.thy ===== *)
theory Owner_Client
  imports Storage_Owner
begin

text \<open>
  The contract between the storage owner and a store that runs its jobs on it. A store states one
  invariant over the file, its own state, the batch being staged or answered, and the answers given so
  far; if its jobs, its flush and its folds keep it, it holds in every state the owner reaches.
\<close>

text \<open>What one member of a batch is answered, and the state after its fold.\<close>

definition stage_answer :: "('a, 's, 'x) stage \<Rightarrow> error_kind option \<Rightarrow> 's \<Rightarrow> ('x io_cause + 'a) \<times> 's" where
  "stage_answer staged flush_failure state =
     (case staged of
        Settled answer \<Rightarrow> (answer, state)
      | Unsynced answer _ settle \<Rightarrow>
          (case flush_failure of None \<Rightarrow> (Inr answer, settle state) | Some kind \<Rightarrow> (Inl (BatchFlushFailed kind), state))
      | Committed answer \<Rightarrow> (Inr answer, state))"

definition staged_of :: "'x io_cause + ('a, 's, 'x) stage \<Rightarrow> ('a, 's, 'x) stage" where
  "staged_of outcome = (case outcome of Inl cause \<Rightarrow> Settled (Inl cause) | Inr staged \<Rightarrow> staged)"

lemma answer_next_stage:
  assumes "answer_next r staged batch flush_failure failed w = (w', new)"
  obtains answer failed' where "stage_answer staged flush_failure (ow_state w) = (answer, ow_state w')"
    "ow_phase w' = Publishing r answer batch flush_failure failed'" "ow_file w' = ow_file w" "ow_requests w' = ow_requests w"
    "sl_pending (ow_slot w') = sl_pending (ow_slot w)" "sl_waiting (ow_slot w') = sl_waiting (ow_slot w)"
    "\<And>r' a. Published r' a \<notin> set new"
  by (rule answer_next_effect [OF assms])
    (rule that; auto simp: stage_answer_def split: if_splits)+

section \<open>Answers of a history\<close>

fun to_answer :: "('a, 's, 'x) event \<Rightarrow> (nat \<times> ('x io_cause + 'a)) option" where
  "to_answer (Published r answer) = Some (r, answer)"
| "to_answer _ = None"

definition answers :: "('a, 's, 'x) event list \<Rightarrow> (nat \<times> ('x io_cause + 'a)) list" where
  "answers es = List.map_filter to_answer es"

lemma answers_simps [simp]:
  "answers [] = []"
  "answers (e # es) = (case to_answer e of None \<Rightarrow> answers es | Some x \<Rightarrow> x # answers es)"
  "answers (es @ es') = answers es @ answers es'"
  by (simp_all add: answers_def map_filter_def split: option.splits)

lemma answers_none: "(\<And>r a. Published r a \<notin> set es) \<Longrightarrow> answers es = []"
proof (induction es)
  case (Cons e es)
  then have "answers es = []" by simp
  moreover have "to_answer e = None" using Cons.prems by (cases e) force+
  ultimately show ?case by simp
qed simp

lemma answers_published: "(r, a) \<in> set (answers es) \<longleftrightarrow> Published r a \<in> set es"
proof (induction es)
  case (Cons e es)
  then show ?case by (cases e) auto
qed simp

fun answer_due :: "('a, 's, 'x) phase \<Rightarrow> (nat \<times> ('x io_cause + 'a)) list" where
  "answer_due (Publishing r answer batch flush_failure failed) = [(r, answer)]"
| "answer_due _ = []"

section \<open>Jobs are the submitted ones\<close>

definition armed :: "(nat \<Rightarrow> ('f, 's, 'a, 'x) job) \<Rightarrow> ('f, 's, 'a, 'x) owner \<Rightarrow> bool" where
  "armed job_of w \<longleftrightarrow>
     (\<forall>r \<in> set (sl_pending (ow_slot w)) \<union> set (sl_waiting (ow_slot w)). rq_job (ow_requests w r) = Some (job_of r))"

lemma promote_set: "set (sl_pending (promote sl)) \<union> set (sl_waiting (promote sl)) = set (sl_pending sl) \<union> set (sl_waiting sl)"
proof -
  have "set (take n ws) \<union> set (drop n ws) = set ws" for n and ws :: "nat list" by (metis append_take_drop_id set_append)
  then show ?thesis by (simp add: Un_assoc)
qed

lemma owner_reach_armed:
  assumes "owner_reach sync_all job_of device state w es"
  shows "armed job_of w"
  using assms
proof induction
  case spawn
  show ?case by (simp add: armed_def owner_spawn_def slot_new_def)
next
  case (turn w es w' new)
  have distinct: "distinct (sl_pending (ow_slot w) @ sl_waiting (ow_slot w))"
  proof -
    note lines = lines_invD [OF conjunct1 [OF owner_reach_lines [OF turn.hyps(1)]]]
    have "distinct (picks to_ring es @ sl_waiting (ow_slot w))"
      using lines(6,7) by (metis mset_append mset_eq_imp_distinct_iff)
    then show ?thesis by (simp add: lines(3))
  qed
  show ?case using turn.hyps(2)
  proof (cases rule: owner_turn_cases)
    case promoting
    then show ?thesis using turn.IH by (simp add: armed_def promote_set del: promote_simps(1,2))
  next
    case (stage_first r rest bytes stage_new)
    have "distinct (sl_pending (promote (ow_slot w)) @ sl_waiting (promote (ow_slot w)))" using distinct by simp
    then have "r \<notin> set rest \<union> set (sl_waiting (promote (ow_slot w)))" using stage_first(2) by (simp del: promote_simps(1,2))
    moreover have "set rest \<union> set (sl_waiting (promote (ow_slot w))) \<subseteq> set (sl_pending (ow_slot w)) \<union> set (sl_waiting (ow_slot w))"
      using promote_set [of "ow_slot w"] stage_first(2) by (auto simp del: promote_simps(1,2))
    ultimately show ?thesis
      by - (rule stage_next_simps [OF stage_first(3)], use turn.IH in \<open>auto simp: armed_def simp del: promote_simps(1,2)\<close>)
  next
    case (release bytes)
    then show ?thesis using turn.IH by (auto simp: armed_def promote_set dest: in_set_dropD)
  next
    case (waits bytes)
    then show ?thesis using turn.IH by (auto simp: armed_def dest: in_set_dropD)
  next
    case (stage_more batch bytes r rest)
    have "r \<notin> set rest \<union> set (sl_waiting (ow_slot w))" using distinct stage_more(5) by simp
    then show ?thesis
      by - (rule stage_next_simps [OF stage_more(6)], use turn.IH stage_more(5) in \<open>auto simp: armed_def\<close>)
  next
    case (sync batch)
    show ?thesis
      by (rule sync_batch_cases [OF sync(2) answer_invD(2) [OF conjunct2 [OF owner_reach_lines [OF turn.hyps(1)]]]])
        (use turn.IH in \<open>simp_all add: armed_def\<close>)
  next
    case (answer r staged batch flush_failure failed)
    show ?thesis by (rule answer_next_stage [OF answer(2)]) (use turn.IH in \<open>simp add: armed_def\<close>)
  qed (use turn.IH in \<open>auto simp: armed_def Storage_Owner.publish_def\<close>)
next
  case (enqueue w es r res w' new)
  show ?case using enqueue.hyps(5)
    by (cases rule: enqueue_cases) (use enqueue.IH in \<open>auto simp: armed_def request_arm_def\<close>)
next
  case (poll w es r res w')
  then show ?case by (auto simp: armed_def awaiting_poll_def)
next
  case (walk_away w es r)
  then show ?case by (auto simp: armed_def awaiting_drop_def Let_def)
qed (simp_all add: armed_def)

section \<open>The contract\<close>

text \<open>\<open>c\<close> is what a store is built over (its dependencies and what its requests ask); \<open>good\<close> says it keeps its promises.\<close>

locale owner_client =
  fixes good :: "'c \<Rightarrow> bool"
    and flush :: "'c \<Rightarrow> 'f \<Rightarrow> error_kind option \<times> 'f"
    and job_of :: "'c \<Rightarrow> nat \<Rightarrow> ('f, 's, 'a, 'x) job"
    and inv :: "'c \<Rightarrow> error_kind option option \<Rightarrow> 'f \<Rightarrow> 's \<Rightarrow> (nat \<times> ('a, 's, 'x) stage) list \<Rightarrow> (nat \<times> ('x io_cause + 'a)) list \<Rightarrow> bool"
  assumes job_keeps: "good c \<Longrightarrow> inv c None f s batch given \<Longrightarrow> job_of c r f s = (outcome, f', s') \<Longrightarrow>
      inv c None f' s' (batch @ [(r, staged_of outcome)]) given"
    and flush_keeps: "good c \<Longrightarrow> inv c None f s batch given \<Longrightarrow> flush c f = (failure, f') \<Longrightarrow> inv c (Some failure) f' s batch given"
    and no_flush_keeps: "good c \<Longrightarrow> inv c None f s batch given \<Longrightarrow> \<forall>m \<in> set batch. \<not> owes_flush (snd m) \<Longrightarrow> inv c (Some None) f s batch given"
    and answer_keeps: "good c \<Longrightarrow> inv c (Some failure) f s ((r, staged) # batch) given \<Longrightarrow>
      stage_answer staged failure s = (answer, s') \<Longrightarrow> inv c (Some failure) f s' batch (given @ [(r, answer)])"
    and batch_ends: "good c \<Longrightarrow> inv c (Some failure) f s [] given \<Longrightarrow> inv c None f s [] given"
begin

lemma client_turn:
  assumes "good c" and "owner_reach (flush c) (job_of c) device state w es" and "owner_turn (flush c) w = (w', new)"
    and "inv c (flush_known (ow_phase w)) (ow_file w) (ow_state w) (batch_left (ow_phase w)) (answers es @ answer_due (ow_phase w))"
  shows "inv c (flush_known (ow_phase w')) (ow_file w') (ow_state w') (batch_left (ow_phase w')) (answers (es @ new) @ answer_due (ow_phase w'))"
proof -
  note answer_inv = conjunct2 [OF owner_reach_lines [OF assms(2)]]
  have job: "rq_job (ow_requests w r) = Some (job_of c r)" if "r \<in> set (sl_pending (ow_slot w)) \<union> set (sl_waiting (ow_slot w))" for r
    using owner_reach_armed [OF assms(2)] that by (auto simp: armed_def)
  have staged: "inv c None (ow_file w1) (ow_state w1) (batch @ [(r, staged)]) (answers es)"
    if "stage_next batch bytes r rest w0 = (w1, new1)" "ow_phase w1 = Staging (batch @ [(r, staged)]) total" "inv c None (ow_file w) (ow_state w) batch (answers es)"
      "ow_requests w0 = ow_requests w" "ow_file w0 = ow_file w" "ow_state w0 = ow_state w" "sl_fail_next (ow_slot w0) = sl_fail_next (ow_slot w)"
      "r \<in> set (sl_pending (ow_slot w)) \<union> set (sl_waiting (ow_slot w))" for batch bytes r rest w0 w1 new1 staged total
    by (rule stage_next_simps [OF that(1)])
      (use that(2) answer_invD(1) [OF answer_inv] job [OF that(8)] that(4-7) in
        \<open>auto simp: staged_of_def [symmetric] intro: job_keeps [OF assms(1) that(3)]\<close>)
  show ?thesis using assms(3)
  proof (cases rule: owner_turn_cases)
    case (stage_first r rest bytes stage_new)
    have "r \<in> set (sl_pending (ow_slot w)) \<union> set (sl_waiting (ow_slot w))"
      using promote_set [of "ow_slot w"] stage_first(2) by (auto simp del: promote_simps(1,2))
    then show ?thesis
      by - (rule stage_next_simps [OF stage_first(3)], use stage_first assms(4) staged [OF stage_first(3)] in \<open>simp add: answers_none\<close>)
  next
    case (stage_more batch bytes r rest)
    show ?thesis
      by (rule stage_next_simps [OF stage_more(6)]) (use stage_more assms(4) staged [OF stage_more(6)] in simp)
  next
    case (sync batch)
    show ?thesis
      by (rule sync_batch_cases [OF sync(2) answer_invD(2) [OF answer_inv]])
        (use sync(1) assms(4) no_flush_keeps [OF assms(1)] flush_keeps [OF assms(1)] in simp_all)
  next
    case (answered outcome failed)
    then show ?thesis using assms(4) batch_ends [OF assms(1)] by simp
  next
    case (answer r staged batch outcome failed)
    show ?thesis
      by (rule answer_next_stage [OF answer(2)]) (use answer(1) assms(4) answer_keeps [OF assms(1)] in \<open>simp add: answers_none\<close>)
  qed (use assms(4) in \<open>simp_all add: answers_none Storage_Owner.publish_def\<close>)
qed

theorem client_inv:
  assumes "owner_reach (flush c) (job_of c) device state w es" and "good c" and "inv c None device state [] []"
  shows "inv c (flush_known (ow_phase w)) (ow_file w) (ow_state w) (batch_left (ow_phase w)) (answers es @ answer_due (ow_phase w))"
  using assms(1)
proof induction
  case spawn
  show ?case using assms(3) by (simp add: owner_spawn_def)
next
  case (turn w es w' new)
  then show ?case using client_turn [OF assms(2)] by blast
next
  case (enqueue w es r res w' new)
  show ?case using enqueue.hyps(5)
    by (cases rule: enqueue_cases) (use enqueue.IH in simp_all)
next
  case (poll w es r res w')
  then show ?case by (auto simp: awaiting_poll_def)
next
  case (walk_away w es r)
  then show ?case by (simp add: awaiting_drop_def Let_def)
qed (simp_all add: owner_close_def gate_release_def)

end

end
