(* ===== verification/Run_Store.thy ===== *)
theory Run_Store
  imports Run_Ledger Owner_Client "HOL-Library.Sublist"
begin

text \<open>
  \<open>crates/lgwks-bot/src/task/store.rs\<close> with \<open>store/append.rs\<close>, \<open>store/record.rs\<close>, \<open>store/records.rs\<close> and
  \<open>task/definition.rs\<close>: the durable records of the steps of a run, as built without the feature \<open>sealed\<close>. An
  append is a job of the storage owner: it decides against the index, writes its frame, and is folded into
  the index only after the flush of its batch. The archive (rkyv), the hash and the decoding of an approval are
  dependencies: the fields of \<open>store_archive\<close>. Names are their UTF-8 bytes.
\<close>

section \<open>The definition a run was recorded under\<close>

record definition_identity =
  di_name :: bytes
  di_revision :: nat
  di_input :: bytes
  di_steps :: nat
  di_codec :: bytes

datatype drift = DriftDefinition nat nat | DriftInput bytes bytes | DriftOrder nat nat | DriftSchema bytes bytes

definition unversioned_codec :: bytes where
  "unversioned_codec = [108, 103, 119, 107, 115, 46, 98, 111, 116, 46, 115, 99, 104, 101, 109, 97, 46, 117, 110, 118, 101, 114, 115, 105, 111, 110, 101, 100]"

definition definition_new :: "bytes \<Rightarrow> nat \<Rightarrow> bytes \<Rightarrow> nat \<Rightarrow> definition_identity" where
  "definition_new name revision input steps =
     \<lparr>di_name = name, di_revision = revision, di_input = input, di_steps = steps, di_codec = unversioned_codec\<rparr>"

definition with_codec :: "bytes \<Rightarrow> definition_identity \<Rightarrow> definition_identity" where
  "with_codec codec d = d\<lparr>di_codec := codec\<rparr>"

definition definition_digest :: "(bytes \<Rightarrow> bytes) \<Rightarrow> definition_identity \<Rightarrow> bytes" where
  "definition_digest hash d = hash
     (write_framed [108, 103, 119, 107, 115, 46, 98, 111, 116, 46, 100, 101, 102, 105, 110, 105, 116, 105, 111, 110, 46, 118, 49] @
      write_framed (di_name d) @ write_framed (le_bytes 8 (di_revision d)) @ write_framed (di_input d) @
      write_framed (le_bytes 8 (min (di_steps d) u64_max)) @ write_framed (di_codec d))"

definition drift_from :: "definition_identity \<Rightarrow> definition_identity \<Rightarrow> drift option" where
  "drift_from d recorded =
     (if di_revision d \<noteq> di_revision recorded then Some (DriftDefinition (di_revision d) (di_revision recorded))
      else if di_input d \<noteq> di_input recorded then Some (DriftInput (di_input d) (di_input recorded))
      else if di_steps d \<noteq> di_steps recorded then Some (DriftOrder (di_steps d) (di_steps recorded))
      else if di_codec d \<noteq> di_codec recorded then Some (DriftSchema (di_codec d) (di_codec recorded))
      else None)"

section \<open>Records\<close>

record stored_definition =
  sd_name :: bytes
  sd_revision :: nat
  sd_input :: bytes
  sd_steps :: nat
  sd_codec :: bytes

definition digest_from_record :: "bytes \<Rightarrow> bytes" where
  "digest_from_record bytes = take 32 bytes @ replicate (32 - length bytes) 0"

definition stored_definition_of :: "definition_identity \<Rightarrow> stored_definition" where
  "stored_definition_of d = \<lparr>sd_name = di_name d, sd_revision = di_revision d, sd_input = di_input d,
     sd_steps = min (di_steps d) u64_max, sd_codec = di_codec d\<rparr>"

definition to_identity :: "stored_definition \<Rightarrow> definition_identity" where
  "to_identity d = with_codec (sd_codec d)
     (definition_new (sd_name d) (sd_revision d) (digest_from_record (sd_input d)) (min (sd_steps d) usize_max))"

record stored =
  so_run :: run_id
  so_key :: bytes
  so_tenant :: bytes
  so_path :: bytes
  so_definition :: stored_definition
  so_value :: bytes

text \<open>What the archive reads an approval as, without its payload, and \<open>classify_record\<close> of \<open>script/approval_records.rs\<close>.\<close>

datatype approval_record = ApprovalPending | ApprovalDecision

datatype record_class = ClassPending | ClassDecision | ClassOther

record store_archive =
  sa_hash :: "bytes \<Rightarrow> bytes"
  sa_to :: "stored \<Rightarrow> bytes option"
  sa_from :: "bytes \<Rightarrow> stored option"
  sa_approval :: "bytes \<Rightarrow> approval_record option"

definition classify_record :: "store_archive \<Rightarrow> bytes \<Rightarrow> record_class" where
  "classify_record ar bytes =
     (case sa_approval ar bytes of Some ApprovalPending \<Rightarrow> ClassPending | Some ApprovalDecision \<Rightarrow> ClassDecision | None \<Rightarrow> ClassOther)"

definition max_record_bytes :: nat where "max_record_bytes = 256 * 1024"
definition max_records_per_run :: nat where "max_records_per_run = 65536"
definition store_format :: u8 where "store_format = 2"
definition version_byte :: nat where "version_byte = 15"

definition store_magic :: bytes where
  "store_magic = [108, 103, 119, 107, 115, 45, 114, 117, 110, 115, 116, 111, 114, 101, 0, 0]"

definition store_header :: bytes where
  "store_header = store_magic[version_byte := store_format]"

definition check_format_version :: "bytes \<Rightarrow> store_error + unit" where
  "check_format_version header =
     (if take version_byte header \<noteq> take version_byte store_magic then Inl NotAStore
      else if header ! version_byte = store_format then Inr ()
      else Inl (FormatVersion (header ! version_byte) store_format))"

definition store_genesis :: "store_archive \<Rightarrow> bytes" where
  "store_genesis ar = sa_hash ar (write_framed [108, 103, 119, 107, 115, 45, 114, 117, 110, 115, 116, 111, 114, 101, 47, 103, 101, 110, 101, 115, 105, 115])"

definition hex_of :: "bytes \<Rightarrow> bytes" where
  "hex_of bytes = concat (map (\<lambda>byte. [hex_lower ! unat (drop_bit 4 byte), hex_lower ! unat (and byte 0x0f)]) bytes)"

definition stored_head :: "store_archive \<Rightarrow> stored \<Rightarrow> bytes \<Rightarrow> bytes" where
  "stored_head ar r previous = sa_hash ar
     (write_framed previous @ write_framed (hex_encode (be_bytes 16 (so_run r))) @ write_framed (so_key r) @ write_framed (so_tenant r) @
      write_framed (so_path r) @ write_framed (sd_name (so_definition r)) @ write_framed (le_bytes 8 (sd_revision (so_definition r))) @
      write_framed (sd_input (so_definition r)) @ write_framed (le_bytes 8 (sd_steps (so_definition r))) @
      write_framed (sd_codec (so_definition r)) @ write_framed (so_value r))"

definition record_too_large :: "nat \<Rightarrow> store_error" where
  "record_too_large len = StoreLimit RecordBytes len max_record_bytes"

definition stored_frame :: "store_archive \<Rightarrow> stored \<Rightarrow> bytes \<Rightarrow> store_error + (bytes \<times> bytes)" where
  "stored_frame ar = frame_record (\<lambda>r. case sa_to ar r of Some payload \<Rightarrow> Inr payload | None \<Rightarrow> Inl StoreEncoding)
     (\<lambda>r previous _. stored_head ar r previous) record_too_large max_record_bytes"

section \<open>The index\<close>

record held =
  hd_path :: bytes
  hd_bytes :: bytes

record run_index =
  ri_tenant :: bytes
  ri_definition :: definition_identity
  ri_steps :: "bytes \<Rightarrow> held option"

record store_index =
  si_runs :: "run_id \<Rightarrow> run_index option"
  si_committed :: nat
  si_tail :: bytes
  si_pending :: "bytes \<Rightarrow> nat option"
  si_staged :: "run_id \<times> bytes \<Rightarrow> bytes option"

definition empty_index :: "store_archive \<Rightarrow> store_index" where
  "empty_index ar = \<lparr>si_runs = (\<lambda>_. None), si_committed = length store_header, si_tail = store_genesis ar,
     si_pending = (\<lambda>_. None), si_staged = (\<lambda>_. None)\<rparr>"

definition count_approval :: "store_archive \<Rightarrow> bytes \<Rightarrow> bytes \<Rightarrow> (bytes \<Rightarrow> nat option) \<Rightarrow> bytes \<Rightarrow> nat option" where
  "count_approval ar tenant bytes pending =
     (case classify_record ar bytes of
        ClassPending \<Rightarrow> pending(tenant \<mapsto> sat_add_u64 (case pending tenant of Some n \<Rightarrow> n | None \<Rightarrow> 0) 1)
      | ClassDecision \<Rightarrow> (case pending tenant of Some n \<Rightarrow> pending(tenant \<mapsto> n - 1) | None \<Rightarrow> pending)
      | ClassOther \<Rightarrow> pending)"

definition insert_step :: "stored \<Rightarrow> (run_id \<Rightarrow> run_index option) \<Rightarrow> run_id \<Rightarrow> run_index option" where
  "insert_step r runs =
     (let run = (case runs (so_run r) of
                   Some run \<Rightarrow> run
                 | None \<Rightarrow> \<lparr>ri_tenant = so_tenant r, ri_definition = to_identity (so_definition r), ri_steps = (\<lambda>_. None)\<rparr>) in
      runs(so_run r \<mapsto> run\<lparr>ri_steps := (ri_steps run)(hex_of (so_key r) \<mapsto> \<lparr>hd_path = so_path r, hd_bytes = so_value r\<rparr>)\<rparr>))"

text \<open>The closure \<open>settle\<close> of an append.\<close>

definition settle_record :: "store_archive \<Rightarrow> stored \<Rightarrow> store_index \<Rightarrow> store_index" where
  "settle_record ar r index =
     index\<lparr>si_staged := (si_staged index)((so_run r, hex_of (so_key r)) := None),
       si_pending := count_approval ar (so_tenant r) (so_value r) (si_pending index),
       si_runs := insert_step r (si_runs index)\<rparr>"

section \<open>Appending\<close>

datatype appended = Recorded | AlreadyRecorded | Conflicting

text \<open>The file: its bytes, its cursor, and how many of its bytes a returned flush has covered.\<close>

record store_file =
  sf_disk :: disk
  sf_pos :: nat
  sf_kept :: nat

text \<open>What the device does to one append: whether it gives its metadata, and how much of a refused write reaches the file.\<close>

record store_device =
  sv_metadata :: bool
  sv_wrote :: "nat option"

record staged_append =
  st_record :: stored
  st_key :: bytes

definition store_owned :: "bytes \<Rightarrow> run_id \<Rightarrow> bytes \<Rightarrow> bytes \<Rightarrow> definition_identity \<Rightarrow> bytes \<Rightarrow> staged_append" where
  "store_owned tenant run key path d bytes =
     \<lparr>st_record = \<lparr>so_run = run, so_key = key, so_tenant = tenant, so_path = path, so_definition = stored_definition_of d, so_value = bytes\<rparr>,
       st_key = key\<rparr>"

definition store_full :: "nat \<Rightarrow> store_error" where
  "store_full requested = StoreLimit StoreBytes requested max_store_bytes"

definition file_write :: "bytes \<Rightarrow> store_file \<Rightarrow> store_file" where
  "file_write bs f = f\<lparr>sf_disk := (sf_disk f)\<lparr>dk_bytes := write_at (sf_pos f) bs (dk_bytes (sf_disk f))\<rparr>, sf_pos := sf_pos f + length bs\<rparr>"

text \<open>\<open>write_all\<close> reports an error only when bytes are left to write.\<close>

definition file_write_all :: "nat option \<Rightarrow> bytes \<Rightarrow> store_file \<Rightarrow> bool \<times> store_file" where
  "file_write_all wrote bs f = (case wrote of None \<Rightarrow> (True, file_write bs f) | Some n \<Rightarrow> (False, file_write (take (min n (length bs - 1)) bs) f))"

definition same_value :: "stored \<Rightarrow> bytes \<Rightarrow> appended" where
  "same_value r bytes = (if bytes = so_value r then AlreadyRecorded else Conflicting)"

text \<open>From the check of the batch being flushed on: the frame, the ceilings, the length fence and the write.\<close>

definition write_staged ::
  "store_archive \<Rightarrow> store_device \<Rightarrow> stored \<Rightarrow> bytes \<Rightarrow> nat \<Rightarrow> (store_file, store_index, appended, store_error) job" where
  "write_staged ar dev r key steps file index =
     (let refuse = (\<lambda>error. (Inl (JobError error), file, index)) in
      case si_staged index (so_run r, key) of
        Some bytes \<Rightarrow> (Inr (Settled (Inr (same_value r bytes))), file, index)
      | None \<Rightarrow>
          (case stored_frame ar r (si_tail index) of
             Inl error \<Rightarrow> refuse error
           | Inr (framed, head) \<Rightarrow>
               let file_len = si_committed index + length framed in
               if file_len > u64_max then refuse (store_full u64_max)
               else if file_len > max_store_bytes then refuse (store_full file_len)
               else if \<not> sv_metadata dev then refuse (StoreStorage DeviceRefused)
               else if length (dk_bytes (sf_disk file)) \<noteq> si_committed index then refuse (StoreCorrupt steps)
               else
                 let index = index\<lparr>si_committed := file_len, si_tail := head, si_staged := (si_staged index)((so_run r, key) \<mapsto> so_value r)\<rparr> in
                 case file_write_all (sv_wrote dev) framed file of
                   (False, file) \<Rightarrow> (Inl (JobError (StoreStorage DeviceRefused)), file, index)
                 | (True, file) \<Rightarrow> (Inr (Unsynced Recorded (length framed) (settle_record ar r)), file, index)))"

definition decide_and_write ::
  "store_archive \<Rightarrow> store_device \<Rightarrow> staged_append \<Rightarrow> (store_file, store_index, appended, store_error) job" where
  "decide_and_write ar dev staged file index =
     (let r = st_record staged; key = hex_encode (st_key staged);
          refuse = (\<lambda>error. (Inl (JobError error), file, index)) in
      case si_runs index (so_run r) of
        None \<Rightarrow> write_staged ar dev r key 0 file index
      | Some owned \<Rightarrow>
          let steps = card (dom (ri_steps owned)) in
          if ri_tenant owned \<noteq> so_tenant r then refuse (ForeignTenant (ri_tenant owned) (so_tenant r))
          else
            (case ri_steps owned key of
               Some step \<Rightarrow> (Inr (Settled (Inr (same_value r (hd_bytes step)))), file, index)
             | None \<Rightarrow>
                 if steps \<ge> max_records_per_run then refuse (StoreLimit Records (steps + 1) max_records_per_run)
                 else write_staged ar dev r key steps file index))"

text \<open>The flush of the owner: it covers everything written so far, or is refused.\<close>

definition file_sync :: "(bytes \<Rightarrow> error_kind option) \<Rightarrow> store_file \<Rightarrow> error_kind option \<times> store_file" where
  "file_sync refuses f =
     (case refuses (dk_bytes (sf_disk f)) of
        Some kind \<Rightarrow> (Some kind, f)
      | None \<Rightarrow> (None, f\<lparr>sf_kept := length (dk_bytes (sf_disk f))\<rparr>))"

section \<open>Opening\<close>

definition stored_entry_head :: "store_archive \<Rightarrow> bytes \<Rightarrow> bytes \<Rightarrow> bytes option" where
  "stored_entry_head ar previous payload = map_option (\<lambda>r. stored_head ar r previous) (sa_from ar payload)"

record store_framed =
  sfd_stored :: stored
  sfd_head :: bytes
  sfd_declared :: nat

definition store_next_frame :: "store_archive \<Rightarrow> disk \<Rightarrow> nat \<Rightarrow> cursor \<Rightarrow> store_error + (store_framed option \<times> nat)" where
  "store_next_frame ar d pos c =
     rbind (read_raw (stored_entry_head ar) StoreStorage (StoreCorrupt (cu_at c)) max_record_bytes d pos c) (\<lambda>(raw, pos).
       case raw of
         None \<Rightarrow> Inr (None, pos)
       | Some raw \<Rightarrow>
           (case sa_from ar (rw_payload raw) of
              None \<Rightarrow> Inl (StoreCorrupt (cu_at c))
            | Some r \<Rightarrow> Inr (Some \<lparr>sfd_stored = r, sfd_head = rw_head raw, sfd_declared = length (rw_payload raw)\<rparr>, pos)))"

lemma store_next_frame_advances:
  assumes "store_next_frame ar d pos c = Inr (Some f, pos')"
  shows "pos < pos' \<and> pos' \<le> length (dk_bytes d)"
  using assms read_raw_advances by (fastforce simp: store_next_frame_def split: option.splits)

definition bump_frame_count :: "nat \<Rightarrow> store_error + nat" where
  "bump_frame_count n =
     (let n = sat_add_u64 n 1 in if n > max_records_per_run then Inl (StoreLimit Records n max_records_per_run) else Inr n)"

function store_replay_loop :: "store_archive \<Rightarrow> disk \<Rightarrow> nat \<Rightarrow> nat \<Rightarrow> nat \<Rightarrow> store_index \<Rightarrow> bytes \<Rightarrow> store_error + (store_index \<times> nat)" where
  "store_replay_loop ar d file_len pos n index previous =
     (case store_next_frame ar d pos \<lparr>cu_at = n, cu_offset = si_committed index, cu_previous = previous\<rparr> of
        Inl e \<Rightarrow> Inl e
      | Inr (None, pos) \<Rightarrow> Inr (index, pos)
      | Inr (Some f, pos) \<Rightarrow>
          let r = sfd_stored f; head = stored_head ar r previous; frame_len = framed_len (sfd_declared f) in
          if head \<noteq> sfd_head f then Inl (StoreCorrupt n)
          else if si_committed index + frame_len > u64_max \<or> si_committed index + frame_len > file_len then Inr (index, pos)
          else
            let index = index\<lparr>si_committed := si_committed index + frame_len, si_tail := head\<rparr> in
            case bump_frame_count n of
              Inl e \<Rightarrow> Inl e
            | Inr n \<Rightarrow>
                store_replay_loop ar d file_len pos n
                  (index\<lparr>si_runs := insert_step r (si_runs index), si_pending := count_approval ar (so_tenant r) (so_value r) (si_pending index)\<rparr>) head)"
  by pat_completeness auto
termination
  by (relation "measure (\<lambda>(ar, d, file_len, pos, n, index, previous). length (dk_bytes d) - pos)")
    (auto dest!: store_next_frame_advances)

declare store_replay_loop.simps [simp del]

definition store_replay :: "store_archive \<Rightarrow> disk \<Rightarrow> store_error + (store_index \<times> nat)" where
  "store_replay ar d =
     (case device_read d 0 (length store_header) of
        Inl e \<Rightarrow> Inl (StoreStorage e)
      | Inr header \<Rightarrow>
          if length header < length store_header then Inl NotAStore
          else
            rbind (check_format_version header) (\<lambda>_.
              store_replay_loop ar d (length (dk_bytes d)) (length store_header) 0 (empty_index ar) (store_genesis ar)))"

definition store_open :: "store_archive \<Rightarrow> device \<Rightarrow> disk \<Rightarrow> store_error + (store_file \<times> store_index)" where
  "store_open ar dev d =
     (if dk_bytes d = [] \<and> \<not> dv_header dev then Inl (StoreStorage DeviceRefused)
      else
        let d = (if dk_bytes d = [] then d\<lparr>dk_bytes := store_header\<rparr> else d) in
        rbind (store_replay ar d) (\<lambda>(index, pos).
          if length (dk_bytes d) = si_committed index
          then Inr (\<lparr>sf_disk = d, sf_pos = pos, sf_kept = length (dk_bytes d)\<rparr>, index)
          else if dv_trim dev
          then Inr (\<lparr>sf_disk = d\<lparr>dk_bytes := take (si_committed index) (dk_bytes d)\<rparr>, sf_pos = pos, sf_kept = si_committed index\<rparr>, index)
          else Inl (StoreStorage DeviceRefused)))"

section \<open>Reading the index\<close>

definition store_lookup :: "bytes \<Rightarrow> run_id \<Rightarrow> bytes \<Rightarrow> store_index \<Rightarrow> store_error + held option" where
  "store_lookup tenant run key index =
     (case si_runs index run of
        None \<Rightarrow> Inr None
      | Some owned \<Rightarrow>
          if ri_tenant owned \<noteq> tenant then Inl (ForeignTenant (ri_tenant owned) tenant)
          else Inr (ri_steps owned (hex_encode key)))"

definition record_count :: "run_id \<Rightarrow> store_index \<Rightarrow> nat" where
  "record_count run index = (case si_runs index run of Some owned \<Rightarrow> card (dom (ri_steps owned)) | None \<Rightarrow> 0)"

definition knows_run :: "run_id \<Rightarrow> store_index \<Rightarrow> bool" where
  "knows_run run index \<longleftrightarrow> si_runs index run \<noteq> None"

definition pending_for :: "bytes \<Rightarrow> store_index \<Rightarrow> nat" where
  "pending_for tenant index = (case si_pending index tenant of Some n \<Rightarrow> n | None \<Rightarrow> 0)"

definition tenant_of :: "run_id \<Rightarrow> store_index \<Rightarrow> bytes option" where
  "tenant_of run index = map_option ri_tenant (si_runs index run)"

definition definition_of :: "run_id \<Rightarrow> store_index \<Rightarrow> definition_identity option" where
  "definition_of run index = map_option ri_definition (si_runs index run)"

text \<open>The error is \<open>StoreError::Incompatible\<close>: the run and what drifted.\<close>

definition check_definition :: "run_id \<Rightarrow> definition_identity \<Rightarrow> store_index \<Rightarrow> (bytes \<times> drift) + unit" where
  "check_definition run d index =
     (case definition_of run index of
        None \<Rightarrow> Inr ()
      | Some recorded \<Rightarrow>
          (case drift_from d recorded of None \<Rightarrow> Inr () | Some drift \<Rightarrow> Inl (hex_encode (be_bytes 16 run), drift)))"

section \<open>What a list of records leaves\<close>

lemma hex_of_encode [simp]: "hex_of bytes = hex_encode bytes"
  unfolding hex_of_def by (induction bytes) simp_all

definition step_of :: "stored \<Rightarrow> run_id \<times> bytes" where
  "step_of r = (so_run r, hex_encode (so_key r))"

definition held_of :: "stored \<Rightarrow> held" where
  "held_of r = \<lparr>hd_path = so_path r, hd_bytes = so_value r\<rparr>"

text \<open>The step a run holds under a key.\<close>

definition step_at :: "(run_id \<Rightarrow> run_index option) \<Rightarrow> run_id \<times> bytes \<Rightarrow> held option" where
  "step_at runs s = (case runs (fst s) of None \<Rightarrow> None | Some run \<Rightarrow> ri_steps run (snd s))"

definition runs_of :: "stored list \<Rightarrow> run_id \<Rightarrow> run_index option" where
  "runs_of rs = foldl (\<lambda>runs r. insert_step r runs) (\<lambda>_. None) rs"

definition pending_of :: "store_archive \<Rightarrow> stored list \<Rightarrow> bytes \<Rightarrow> nat option" where
  "pending_of ar rs = foldl (\<lambda>pending r. count_approval ar (so_tenant r) (so_value r) pending) (\<lambda>_. None) rs"

lemma runs_of_simps [simp]: "runs_of [] = (\<lambda>_. None)" "runs_of (rs @ [r]) = insert_step r (runs_of rs)"
  by (simp_all add: runs_of_def)

lemma pending_of_simps [simp]:
  "pending_of ar [] = (\<lambda>_. None)" "pending_of ar (rs @ [r]) = count_approval ar (so_tenant r) (so_value r) (pending_of ar rs)"
  by (simp_all add: pending_of_def)

lemma step_at_insert: "step_at (insert_step r runs) s = (if s = step_of r then Some (held_of r) else step_at runs s)"
  by (cases s) (auto simp: step_at_def insert_step_def step_of_def held_of_def split: option.splits)

lemma step_at_runs: "step_at (runs_of rs) s = map_of (rev (map (\<lambda>r. (step_of r, held_of r)) rs)) s"
proof (induction rs rule: rev_induct)
  case Nil
  show ?case by (simp add: step_at_def)
next
  case (snoc r rs)
  then show ?case by (simp add: step_at_insert)
qed

lemma step_at_known: "step_at (runs_of rs) s = None \<longleftrightarrow> s \<notin> step_of ` set rs"
  by (simp add: step_at_runs map_of_eq_None_iff image_image)

lemma step_at_held: "distinct (map step_of rs) \<Longrightarrow> r \<in> set rs \<Longrightarrow> step_at (runs_of rs) (step_of r) = Some (held_of r)"
  by (simp add: step_at_runs rev_map [symmetric] distinct_rev o_def)

lemma step_atD: "step_at (runs_of rs) s = Some h \<Longrightarrow> \<exists>r \<in> set rs. s = step_of r \<and> h = held_of r"
  by (auto simp: step_at_runs dest!: map_of_SomeD)

section \<open>The file\<close>

text \<open>What an archive and a hash promise.\<close>

definition store_archive_ok :: "store_archive \<Rightarrow> bool" where
  "store_archive_ok ar \<longleftrightarrow> (\<forall>bs. length (sa_hash ar bs) = head_bytes) \<and> (\<forall>r payload. sa_to ar r = Some payload \<longrightarrow> sa_from ar payload = Some r)"

lemma stored_frameE:
  assumes "store_archive_ok ar" and "stored_frame ar r previous = Inr (framed, head)"
  obtains payload where "sa_from ar payload = Some r" "head = stored_head ar r previous" "length head = head_bytes"
    "framed = encode_frame (length payload) payload head" "is_possible_length (length payload) max_record_bytes"
    "length framed = 36 + length payload"
proof -
  obtain payload where p: "sa_to ar r = Some payload" "is_possible_length (length payload) max_record_bytes"
      "head = stored_head ar r previous" "framed = encode_frame (length payload) payload head"
    using assms(2) by (auto simp: stored_frame_def frame_record_def writable_length_def Let_def split: option.splits if_splits)
  moreover have "length head = head_bytes" using p(3) assms(1) by (simp add: stored_head_def store_archive_ok_def)
  moreover have "sa_from ar payload = Some r" using p(1) assms(1) by (simp add: store_archive_ok_def)
  ultimately show thesis using that [of payload] by simp
qed

lemma store_record_limit: "max_record_bytes \<le> u32_max"
  by (simp add: max_record_bytes_def u32_max_def)

definition store_step :: "store_archive \<Rightarrow> store_index \<Rightarrow> stored \<Rightarrow> nat \<Rightarrow> bytes \<Rightarrow> store_index" where
  "store_step ar index r n head = index\<lparr>si_committed := n, si_tail := head, si_runs := insert_step r (si_runs index),
     si_pending := count_approval ar (so_tenant r) (so_value r) (si_pending index)\<rparr>"

definition store_cut_lies :: "store_archive \<Rightarrow> bytes \<Rightarrow> bytes \<Rightarrow> bool" where
  "store_cut_lies ar rest previous \<longleftrightarrow>
     length_bytes \<le> length rest \<and> holds_acknowledged_frame (stored_entry_head ar) max_record_bytes (drop length_bytes rest) previous"

lemma store_next_frame_written:
  assumes "store_archive_ok ar" and "stored_frame ar r previous = Inr (framed, head)"
    and "dk_fault d = None" and "dk_bytes d = pre @ framed @ rest"
  shows "store_next_frame ar d (length pre) c = Inr (Some \<lparr>sfd_stored = r, sfd_head = head, sfd_declared = length framed - 36\<rparr>, length pre + length framed)"
    and "framed_len (length framed - 36) = length framed"
proof -
  obtain payload where p: "sa_from ar payload = Some r" "length head = head_bytes" "framed = encode_frame (length payload) payload head"
      "is_possible_length (length payload) max_record_bytes" "length framed = 36 + length payload"
    using stored_frameE [OF assms(1,2)] by metis
  show "store_next_frame ar d (length pre) c = Inr (Some \<lparr>sfd_stored = r, sfd_head = head, sfd_declared = length framed - 36\<rparr>, length pre + length framed)"
    unfolding store_next_frame_def
    by (subst read_raw_whole [OF assms(3) assms(4) [unfolded p(3)] p(4) store_record_limit p(2)]) (simp add: p(1,5))
  have "length payload \<le> u32_max" using p(4) store_record_limit by (simp add: is_possible_length_def)
  then show "framed_len (length framed - 36) = length framed" using framed_len_plain by (simp add: p(5))
qed

definition store_too_many :: "nat \<Rightarrow> store_error" where
  "store_too_many n = StoreLimit Records (min n u64_max) max_records_per_run"

lemma store_replay_loop_step:
  assumes "store_archive_ok ar" and "stored_frame ar r previous = Inr (framed, head)"
    and "dk_fault d = None" and "dk_bytes d = pre @ framed @ rest" and "length (dk_bytes d) \<le> u64_max"
    and "si_committed index = length pre"
  shows "store_replay_loop ar d (length (dk_bytes d)) (length pre) n index previous =
    (if n + 1 > max_records_per_run then Inl (store_too_many (n + 1))
     else store_replay_loop ar d (length (dk_bytes d)) (length pre + length framed) (n + 1)
       (store_step ar index r (length pre + length framed) head) head)"
proof -
  note f = store_next_frame_written [OF assms(1-4)]
  have "head = stored_head ar r previous" using stored_frameE [OF assms(1,2)] by metis
  moreover have "length pre + length framed \<le> length (dk_bytes d)" using assms(4) by simp
  moreover have "bump_frame_count n = (if n + 1 > max_records_per_run then Inl (store_too_many (n + 1)) else Inr (n + 1))"
    by (simp add: bump_frame_count_def store_too_many_def sat_add_u64_def u64_max_def max_records_per_run_def)
  ultimately show ?thesis
    using assms(5,6) by (subst store_replay_loop.simps) (simp add: f Let_def store_step_def)
qed

interpretation store_log: chained_replay store_archive_ok stored_frame "\<lambda>ar d. store_replay_loop ar d (length (dk_bytes d))" store_step si_committed
  max_records_per_run store_too_many StoreCorrupt store_cut_lies
proof
  fix c e previous framed head pre k n and d :: disk and index :: store_index
  assume a: "store_archive_ok c" "stored_frame c e previous = Inr (framed, head)" "dk_fault d = None" "dk_bytes d = pre @ take k framed" "k < length framed"
    "si_committed index = length pre"
  obtain payload where p: "length head = head_bytes" "framed = encode_frame (length payload) payload head"
      "is_possible_length (length payload) max_record_bytes"
    using stored_frameE [OF a(1,2)] by metis
  show "store_replay_loop c d (length (dk_bytes d)) (length pre) n index previous =
      (if store_cut_lies c (take k framed) previous then Inl (StoreCorrupt n) else Inr (index, length (dk_bytes d)))"
    using a(5,6) by (subst store_replay_loop.simps)
      (simp add: store_cut_lies_def store_next_frame_def read_raw_cut_frame [OF a(3,4,5) p(2,1,3) store_record_limit])
next
  fix c previous pre n and d :: disk and index :: store_index
  assume "dk_fault d = None" "dk_bytes d = pre"
  then show "store_replay_loop c d (length (dk_bytes d)) (length pre) n index previous = Inr (index, length pre)"
    by (subst store_replay_loop.simps) (simp add: store_next_frame_def read_raw_torn length_bytes_def)
qed (simp add: store_step_def, rule store_replay_loop_step)

text \<open>The index of a file that holds exactly \<open>rs\<close>.\<close>

definition index_of :: "store_archive \<Rightarrow> stored list \<Rightarrow> nat \<Rightarrow> bytes \<Rightarrow> store_index" where
  "index_of ar rs committed tail = \<lparr>si_runs = runs_of rs, si_committed = committed, si_tail = tail, si_pending = pending_of ar rs, si_staged = (\<lambda>_. None)\<rparr>"

lemma store_index_after:
  "chain (stored_frame ar) previous rs = Some (body, tail) \<Longrightarrow>
    index_after (stored_frame ar) (store_step ar) n previous (index_of ar before n previous) rs = index_of ar (before @ rs) (n + length body) tail"
proof (induction rs arbitrary: before previous body n)
  case (Cons r rs)
  obtain framed head rest where f: "stored_frame ar r previous = Inr (framed, head)" "chain (stored_frame ar) head rs = Some (rest, tail)" "body = framed @ rest"
    using Cons.prems by (rule chain_ConsE)
  have "store_step ar (index_of ar before n previous) r (n + length framed) head = index_of ar (before @ [r]) (n + length framed) head"
    by (simp add: store_step_def index_of_def)
  then show ?case using Cons.IH [OF f(2), of "n + length framed" "before @ [r]"] f by (simp add: add.assoc)
qed simp

lemma store_header_length [simp]: "length store_header = 16" "store_header \<noteq> []"
  by (simp_all add: store_header_def store_magic_def version_byte_def)

lemma empty_index_of: "empty_index ar = index_of ar [] (length store_header) (store_genesis ar)"
  by (simp add: empty_index_def index_of_def)

lemma store_replay_header:
  assumes "dk_fault d = None" and "dk_bytes d = store_header @ rest"
  shows "store_replay ar d = store_replay_loop ar d (length (dk_bytes d)) (length store_header) 0
    (index_of ar [] (length store_header) (store_genesis ar)) (store_genesis ar)"
proof -
  have "check_format_version store_header = Inr ()"
    by (simp add: check_format_version_def store_header_def store_magic_def version_byte_def store_format_def)
  then show ?thesis using assms by (simp add: store_replay_def empty_index_of)
qed

lemma open_replayed:
  assumes "store_replay ar d = Inr (index, pos)" and "dk_bytes d = store_header @ rest"
  shows "store_open ar dev d =
    (if length (dk_bytes d) = si_committed index then Inr (\<lparr>sf_disk = d, sf_pos = pos, sf_kept = length (dk_bytes d)\<rparr>, index)
     else if dv_trim dev
     then Inr (\<lparr>sf_disk = d\<lparr>dk_bytes := take (si_committed index) (dk_bytes d)\<rparr>, sf_pos = pos, sf_kept = si_committed index\<rparr>, index)
     else Inl (StoreStorage DeviceRefused))"
  using assms by (simp add: store_open_def)

lemma store_open_whole:
  assumes "store_archive_ok ar" and "dk_fault d = None" and "length (dk_bytes d) \<le> u64_max"
    and "chain (stored_frame ar) (store_genesis ar) rs = Some (body, tail)" and "dk_bytes d = store_header @ body" and "length rs \<le> max_records_per_run"
  shows "store_open ar dev d = Inr (\<lparr>sf_disk = d, sf_pos = length (dk_bytes d), sf_kept = length (dk_bytes d)\<rparr>, index_of ar rs (length (dk_bytes d)) tail)"
proof -
  have "store_replay ar d = Inr (index_of ar rs (length (dk_bytes d)) tail, length (dk_bytes d))"
    using store_log.read_written [OF assms, of "index_of ar [] (length store_header) (store_genesis ar)"] store_replay_header [OF assms(2,5), of ar]
      store_index_after [OF assms(4), of "length store_header" "[]"] assms(5) by (simp add: index_of_def)
  from open_replayed [OF this assms(5), of dev] show ?thesis by (simp add: index_of_def)
qed

lemma store_open_over:
  assumes "store_archive_ok ar" and "dk_fault d = None" and "length (dk_bytes d) \<le> u64_max"
    and "chain (stored_frame ar) (store_genesis ar) rs = Some (body, tail)" and "dk_bytes d = store_header @ body @ torn" and "max_records_per_run < length rs"
  shows "store_open ar dev d = Inl (StoreLimit Records (max_records_per_run + 1) max_records_per_run)"
proof -
  have "min (max_records_per_run + 1) u64_max = max_records_per_run + 1" by (simp add: max_records_per_run_def u64_max_def)
  then show ?thesis
    using store_log.read_over [OF assms, of "index_of ar [] (length store_header) (store_genesis ar)"] store_replay_header [OF assms(2,5), of ar] assms(5)
    by (simp add: store_open_def store_too_many_def index_of_def)
qed

lemma store_open_torn:
  assumes "store_archive_ok ar" and "dk_fault d = None" and "length (dk_bytes d) \<le> u64_max"
    and "chain (stored_frame ar) (store_genesis ar) rs = Some (body, tail)" and "stored_frame ar r tail = Inr (framed, head)"
    and "dk_bytes d = store_header @ body @ take k framed" and "0 < k" and "k < length framed" and "length rs \<le> max_records_per_run"
  shows "store_open ar dev d =
    (if store_cut_lies ar (take k framed) tail then Inl (StoreCorrupt (length rs))
     else if dv_trim dev
     then Inr (\<lparr>sf_disk = d\<lparr>dk_bytes := store_header @ body\<rparr>, sf_pos = length (dk_bytes d), sf_kept = length (store_header @ body)\<rparr>,
       index_of ar rs (length (store_header @ body)) tail)
     else Inl (StoreStorage DeviceRefused))"
proof -
  let ?index = "index_of ar rs (length (store_header @ body)) tail"
  have replay: "store_replay ar d = (if store_cut_lies ar (take k framed) tail then Inl (StoreCorrupt (length rs)) else Inr (?index, length (dk_bytes d)))"
    using store_log.read_torn [OF assms(1-6,8,9), of "index_of ar [] (length store_header) (store_genesis ar)"] store_replay_header [OF assms(2,6), of ar]
      store_index_after [OF assms(4), of "length store_header" "[]"] by (simp add: index_of_def)
  show ?thesis
  proof (cases "store_cut_lies ar (take k framed) tail")
    case True
    then show ?thesis using replay assms(6) by (simp add: store_open_def)
  next
    case False
    have bytes: "dk_bytes d = (store_header @ body) @ take k framed" using assms(6) by simp
    have "length (dk_bytes d) \<noteq> length (store_header @ body)" "take (length (store_header @ body)) (dk_bytes d) = store_header @ body"
      using assms(7,8) unfolding bytes by simp_all
    then show ?thesis using open_replayed [OF _ assms(6), of ar ?index "length (dk_bytes d)" dev] replay False by (simp add: index_of_def)
  qed
qed

text \<open>
  What a file of whole records \<open>survived\<close> (their frames \<open>b\<close>, the chain then at \<open>tail\<close>) and \<open>k\<close> bytes of the
  next frame opens to.
\<close>

definition opens_exactly :: "store_archive \<Rightarrow> device \<Rightarrow> disk \<Rightarrow> stored list \<Rightarrow> bytes \<Rightarrow> bytes \<Rightarrow> nat \<Rightarrow> bytes \<Rightarrow> bool" where
  "opens_exactly ar dev d survived b tail k framed \<longleftrightarrow>
     chain (stored_frame ar) (store_genesis ar) survived = Some (b, tail) \<and> dk_bytes d = store_header @ b @ take k framed \<and>
     (k \<noteq> 0 \<longrightarrow> k < length framed \<and> (\<exists>r head. stored_frame ar r tail = Inr (framed, head))) \<and>
     (if max_records_per_run < length survived then store_open ar dev d = Inl (StoreLimit Records (max_records_per_run + 1) max_records_per_run)
      else if k \<noteq> 0 \<and> store_cut_lies ar (take k framed) tail then store_open ar dev d = Inl (StoreCorrupt (length survived))
      else if k \<noteq> 0 \<and> \<not> dv_trim dev then store_open ar dev d = Inl (StoreStorage DeviceRefused)
      else \<exists>f. store_open ar dev d = Inr (f, index_of ar survived (length (store_header @ b)) tail) \<and> sf_disk f = \<lparr>dk_bytes = store_header @ b, dk_fault = None\<rparr>)"

lemma open_crashed:
  assumes "store_archive_ok ar" and "chain (stored_frame ar) (store_genesis ar) rs = Some (body, tail)" and "n \<le> length body"
    and "length (store_header @ body) \<le> u64_max"
    and "m \<le> length rs" and "chain (stored_frame ar) (store_genesis ar) (take m rs) = Some (kept, t)" and "length kept \<le> n"
  obtains j b t' k framed where "m \<le> j" "opens_exactly ar dev \<lparr>dk_bytes = store_header @ take n body, dk_fault = None\<rparr> (take j rs) b t' k framed"
proof -
  let ?d = "\<lparr>dk_bytes = store_header @ take n body, dk_fault = None\<rparr>"
  have small: "length (dk_bytes ?d) \<le> u64_max" using assms(4) by simp
  show thesis
  proof (rule chain_take [OF assms(2,3)])
    assume all: "n = length body"
    have "opens_exactly ar dev ?d (take (length rs) rs) body tail 0 []"
    proof (cases "length rs \<le> max_records_per_run")
      case True
      then show ?thesis
        using store_open_whole [OF assms(1) _ small assms(2) _ True, of dev] all assms(2) by (simp add: opens_exactly_def)
    next
      case False
      then show ?thesis using store_open_over [OF assms(1) _ small assms(2), of "[]" dev] all assms(2) by (simp add: opens_exactly_def)
    qed
    then show thesis by (rule that [OF assms(5)])
  next
    fix j b t' framed head k
    assume c: "j < length rs" "chain (stored_frame ar) (store_genesis ar) (take j rs) = Some (b, t')" "stored_frame ar (rs ! j) t' = Inr (framed, head)"
      "k < length framed" "take n body = b @ take k framed" "n = length b + k"
    have "m \<le> j"
    proof (rule ccontr)
      assume "\<not> m \<le> j"
      then have split: "take m rs = take j rs @ rs ! j # drop (Suc j) (take m rs)"
        using c(1) assms(5) id_take_nth_drop [of j "take m rs"] by (simp add: min_def)
      obtain b2 where b: "chain (stored_frame ar) t' (rs ! j # drop (Suc j) (take m rs)) = Some (b2, t)" "kept = b @ b2"
        using chain_split [of "stored_frame ar" "store_genesis ar" "take j rs"] assms(6) split c(2) by (metis (no_types, lifting) option.inject prod.inject)
      obtain rest where "b2 = framed @ rest" using b(1) by (rule chain_ConsE) (use c(3) in simp)
      then show False using b(2) assms(7) c(4,6) by simp
    qed
    have bytes: "dk_bytes ?d = store_header @ b @ take k framed" using c(5) by simp
    have "opens_exactly ar dev ?d (take j rs) b t' k framed"
    proof (cases "length (take j rs) \<le> max_records_per_run")
      case over: False
      have "store_open ar dev ?d = Inl (StoreLimit Records (max_records_per_run + 1) max_records_per_run)"
        by (rule store_open_over [OF assms(1) _ small c(2) bytes]) (use over in \<open>simp_all add: not_le\<close>)
      then show ?thesis using over c(2-4) bytes unfolding opens_exactly_def by auto
    next
      case True
      show ?thesis
      proof (cases "k = 0")
        case none: True
        then show ?thesis
          using store_open_whole [OF assms(1) _ small c(2) _ True, of dev] c(2,5) True by (auto simp: opens_exactly_def min_le_iff_disj)
      next
        case False
        then have pos: "0 < k" by simp
        have "store_open ar dev ?d = (if store_cut_lies ar (take k framed) t' then Inl (StoreCorrupt (length (take j rs)))
            else if dv_trim dev
            then Inr (\<lparr>sf_disk = \<lparr>dk_bytes = store_header @ b, dk_fault = None\<rparr>, sf_pos = length (dk_bytes ?d), sf_kept = length (store_header @ b)\<rparr>,
              index_of ar (take j rs) (length (store_header @ b)) t')
            else Inl (StoreStorage DeviceRefused))"
          using store_open_torn [OF assms(1) _ small c(2,3) bytes pos c(4) True, of dev] by simp
        then show ?thesis using True False c(2-4) bytes unfolding opens_exactly_def by auto
      qed
    qed
    then show thesis by (rule that [OF \<open>m \<le> j\<close>])
  qed
qed

section \<open>A store on its owner\<close>

text \<open>A life of an open store: what it was opened with, what its requests ask, and what its device does.\<close>

record store_life =
  li_archive :: store_archive
  li_before :: "stored list"
  li_requests :: "nat \<Rightarrow> staged_append"
  li_device :: "nat \<Rightarrow> store_device"
  li_sync :: "bytes \<Rightarrow> error_kind option"

definition life_job :: "store_life \<Rightarrow> nat \<Rightarrow> (store_file, store_index, appended, store_error) job" where
  "life_job c r = decide_and_write (li_archive c) (li_device c r) (li_requests c r)"

definition life_sync :: "store_life \<Rightarrow> store_file \<Rightarrow> error_kind option \<times> store_file" where
  "life_sync c = file_sync (li_sync c)"

definition life_ok :: "store_life \<Rightarrow> bool" where
  "life_ok c \<longleftrightarrow> store_archive_ok (li_archive c) \<and> (\<forall>r. st_key (li_requests c r) = so_key (st_record (li_requests c r)))"

abbreviation asked :: "store_life \<Rightarrow> nat \<Rightarrow> stored" where
  "asked c r \<equiv> st_record (li_requests c r)"

type_synonym store_answer = "store_error io_cause + appended"
type_synonym store_stage = "(appended, store_index, store_error) stage"

text \<open>The records acknowledged so far, in order, and those of a batch that its flush will cover.\<close>

definition acknowledged :: "store_life \<Rightarrow> (nat \<times> store_answer) list \<Rightarrow> stored list" where
  "acknowledged c given = li_before c @ map (\<lambda>(r, _). asked c r) (filter (\<lambda>(_, answer). answer = Inr Recorded) given)"

definition unsynced :: "store_life \<Rightarrow> (nat \<times> store_stage) list \<Rightarrow> stored list" where
  "unsynced c batch = map (\<lambda>(r, _). asked c r) (filter (\<lambda>(_, staged). owes_flush staged) batch)"

text \<open>\<open>rs\<close> are the records whole in the file, \<open>lost\<close> those a refused write left cut.\<close>

definition file_holds :: "store_archive \<Rightarrow> store_file \<Rightarrow> store_index \<Rightarrow> stored list \<Rightarrow> stored list \<Rightarrow> bool" where
  "file_holds ar f index rs lost \<longleftrightarrow>
     (\<exists>body tail rest last q. chain (stored_frame ar) (store_genesis ar) rs = Some (body, tail) \<and> chain (stored_frame ar) tail lost = Some (rest, last) \<and>
        q \<le> length rest \<and> sf_disk f = \<lparr>dk_bytes = store_header @ body @ take q rest, dk_fault = None\<rparr> \<and>
        length (store_header @ body @ rest) \<le> max_store_bytes \<and> sf_kept f \<le> length (dk_bytes (sf_disk f)) \<and>
        (if lost = [] then si_committed index = length (store_header @ body) \<and> si_tail index = tail \<and> sf_pos f = length (store_header @ body)
         else length (dk_bytes (sf_disk f)) < si_committed index))"

definition covers :: "store_archive \<Rightarrow> store_file \<Rightarrow> stored list \<Rightarrow> stored list \<Rightarrow> bool" where
  "covers ar f rs covered \<longleftrightarrow>
     (\<exists>m body tail. m \<le> length rs \<and> chain (stored_frame ar) (store_genesis ar) (take m rs) = Some (body, tail) \<and>
        length (store_header @ body) \<le> sf_kept f \<and> set covered \<subseteq> set (take m rs))"

definition index_holds :: "store_archive \<Rightarrow> store_index \<Rightarrow> stored list \<Rightarrow> stored list \<Rightarrow> bool" where
  "index_holds ar index acked written \<longleftrightarrow>
     si_runs index = runs_of acked \<and> si_pending index = pending_of ar acked \<and> distinct (map step_of written) \<and>
     si_staged index = map_of (map (\<lambda>e. (step_of e, so_value e)) (filter (\<lambda>e. e \<notin> set acked) written))"

definition same_step :: "stored list \<Rightarrow> stored \<Rightarrow> appended \<Rightarrow> bool" where
  "same_step written r a \<longleftrightarrow> (\<exists>e \<in> set written. step_of e = step_of r \<and> a = same_value r (so_value e))"

definition staged_right :: "store_life \<Rightarrow> stored list \<Rightarrow> nat \<Rightarrow> store_stage \<Rightarrow> bool" where
  "staged_right c written r staged \<longleftrightarrow>
     (case staged of
        Settled (Inl _) \<Rightarrow> True
      | Settled (Inr a) \<Rightarrow> same_step written (asked c r) a
      | Unsynced a _ settle \<Rightarrow> a = Recorded \<and> settle = settle_record (li_archive c) (asked c r)
      | Committed _ \<Rightarrow> False)"

text \<open>No answer so far is an error, and none of the batch will be.\<close>

definition stage_well :: "error_kind option option \<Rightarrow> store_stage \<Rightarrow> bool" where
  "stage_well phase staged \<longleftrightarrow>
     (case staged of Settled answer \<Rightarrow> is_ok answer | Unsynced _ _ _ \<Rightarrow> (\<forall>kind. phase \<noteq> Some (Some kind)) | Committed _ \<Rightarrow> True)"

definition all_well :: "error_kind option option \<Rightarrow> (nat \<times> store_stage) list \<Rightarrow> (nat \<times> store_answer) list \<Rightarrow> bool" where
  "all_well phase batch given \<longleftrightarrow>
     (\<forall>(r, answer) \<in> set given. is_ok answer) \<and>
     (\<forall>(r, staged) \<in> set batch. stage_well phase staged)"

definition store_holds_with :: "store_life \<Rightarrow> error_kind option option \<Rightarrow> store_file \<Rightarrow> store_index \<Rightarrow> (nat \<times> store_stage) list \<Rightarrow>
    (nat \<times> store_answer) list \<Rightarrow> stored list \<Rightarrow> stored list \<Rightarrow> bool" where
  "store_holds_with c phase f index batch given rs lost \<longleftrightarrow>
     file_holds (li_archive c) f index rs lost \<and> index_holds (li_archive c) index (acknowledged c given) (rs @ lost) \<and>
     subseq (acknowledged c given @ unsynced c batch) rs \<and>
     covers (li_archive c) f rs (acknowledged c given @ (if phase = Some None then unsynced c batch else [])) \<and>
     (\<forall>(r, staged) \<in> set batch. staged_right c (rs @ lost) r staged) \<and>
     (\<forall>(r, answer) \<in> set given. \<forall>a. answer = Inr a \<longrightarrow> a \<noteq> Recorded \<longrightarrow> same_step (rs @ lost) (asked c r) a) \<and>
     (all_well phase batch given \<longrightarrow> lost = [] \<and> rs = acknowledged c given @ unsynced c batch)"

definition store_holds :: "store_life \<Rightarrow> error_kind option option \<Rightarrow> store_file \<Rightarrow> store_index \<Rightarrow> (nat \<times> store_stage) list \<Rightarrow> (nat \<times> store_answer) list \<Rightarrow> bool" where
  "store_holds c phase f index batch given \<longleftrightarrow> (\<exists>rs lost. store_holds_with c phase f index batch given rs lost)"

lemma store_holdsD:
  assumes "store_holds_with c phase f index batch given rs lost"
  shows "file_holds (li_archive c) f index rs lost" "index_holds (li_archive c) index (acknowledged c given) (rs @ lost)"
    "subseq (acknowledged c given @ unsynced c batch) rs"
    "covers (li_archive c) f rs (acknowledged c given @ (if phase = Some None then unsynced c batch else []))"
    "\<And>r staged. (r, staged) \<in> set batch \<Longrightarrow> staged_right c (rs @ lost) r staged"
    "\<And>r a. (r, Inr a) \<in> set given \<Longrightarrow> a \<noteq> Recorded \<Longrightarrow> same_step (rs @ lost) (asked c r) a"
    "all_well phase batch given \<Longrightarrow> lost = []" "all_well phase batch given \<Longrightarrow> rs = acknowledged c given @ unsynced c batch"
  using assms unfolding store_holds_with_def by blast+

lemma index_holdsD:
  assumes "index_holds ar index acked written"
  shows "si_runs index = runs_of acked" "si_pending index = pending_of ar acked" "distinct (map step_of written)"
    "si_staged index = map_of (map (\<lambda>e. (step_of e, so_value e)) (filter (\<lambda>e. e \<notin> set acked) written))"
  using assms unfolding index_holds_def by blast+

text \<open>A step is known in the index or staged exactly when it is written.\<close>

lemma staged_written:
  assumes "index_holds ar index acked written"
  shows "si_staged index s = Some v \<longleftrightarrow> (\<exists>e \<in> set written. e \<notin> set acked \<and> s = step_of e \<and> v = so_value e)"
proof -
  have "distinct (map fst (map (\<lambda>e. (step_of e, so_value e)) (filter (\<lambda>e. e \<notin> set acked) written)))"
    using index_holdsD(3) [OF assms] by (simp add: o_def distinct_map_filter)
  then show ?thesis unfolding index_holdsD(4) [OF assms] by (auto simp: map_of_eq_Some_iff)
qed

lemma unknown_fresh:
  assumes "index_holds ar index acked written" and "step_at (si_runs index) s = None" and "si_staged index s = None"
  shows "s \<notin> step_of ` set written"
proof
  assume "s \<in> step_of ` set written"
  then obtain e where e: "e \<in> set written" "s = step_of e" by blast
  then show False
  proof (cases "e \<in> set acked")
    case True
    then show False using assms(2) e(2) by (simp add: index_holdsD(1) [OF assms(1)] step_at_known)
  next
    case False
    then show False using staged_written [OF assms(1)] assms(3) e by (metis option.distinct(1))
  qed
qed

lemma write_staged_cases:
  assumes "write_staged ar dev r key steps f index = (outcome, f', index')" and "key = hex_encode (so_key r)"
  obtains (refused) cause where "outcome = Inl cause" "f' = f" "index' = index"
  | (staged) v where "si_staged index (step_of r) = Some v" "outcome = Inr (Settled (Inr (same_value r v)))" "f' = f" "index' = index"
  | (failed) framed head n cause where "si_staged index (step_of r) = None" "stored_frame ar r (si_tail index) = Inr (framed, head)"
      "length (dk_bytes (sf_disk f)) = si_committed index" "si_committed index + length framed \<le> max_store_bytes" "outcome = Inl cause"
      "index' = index\<lparr>si_committed := si_committed index + length framed, si_tail := head, si_staged := (si_staged index)(step_of r \<mapsto> so_value r)\<rparr>"
      "f' = file_write (take (min n (length framed - 1)) framed) f"
  | (written) framed head where "si_staged index (step_of r) = None" "stored_frame ar r (si_tail index) = Inr (framed, head)"
      "length (dk_bytes (sf_disk f)) = si_committed index" "si_committed index + length framed \<le> max_store_bytes"
      "outcome = Inr (Unsynced Recorded (length framed) (settle_record ar r))"
      "index' = index\<lparr>si_committed := si_committed index + length framed, si_tail := head, si_staged := (si_staged index)(step_of r \<mapsto> so_value r)\<rparr>"
      "f' = file_write framed f"
proof (cases "si_staged index (step_of r)")
  case (Some v)
  then show thesis using assms by (intro staged [OF Some]) (simp_all add: write_staged_def step_of_def)
next
  case None
  note unstaged = None
  show thesis
  proof (cases "stored_frame ar r (si_tail index)")
    case (Inl e)
    then show thesis using assms None by (intro refused [of "JobError e"]) (simp_all add: write_staged_def step_of_def)
  next
    case (Inr fh)
    obtain framed head where fh: "stored_frame ar r (si_tail index) = Inr (framed, head)" using Inr by (cases fh) simp
    show thesis
    proof (cases "si_committed index + length framed \<le> u64_max \<and> si_committed index + length framed \<le> max_store_bytes \<and> sv_metadata dev \<and>
        length (dk_bytes (sf_disk f)) = si_committed index")
      case False
      then obtain cause where "outcome = Inl cause" "f' = f" "index' = index"
        using assms None by (auto simp: write_staged_def step_of_def fh Let_def split: if_splits)
      then show thesis by (rule refused)
    next
      case True
      note fence = conjunct2 [OF conjunct2 [OF conjunct2 [OF True]]] conjunct1 [OF conjunct2 [OF True]]
      show thesis
      proof (cases "sv_wrote dev")
        case wrote: None
        then show thesis using assms True
          by (intro written [OF unstaged fh fence]) (use unstaged in \<open>auto simp: write_staged_def step_of_def fh file_write_all_def Let_def\<close>)
      next
        case (Some n)
        then show thesis using assms True
          by (intro failed [OF unstaged fh fence, of "JobError (StoreStorage DeviceRefused)" n])
            (use unstaged in \<open>auto simp: write_staged_def step_of_def fh file_write_all_def Let_def\<close>)
      qed
    qed
  qed
qed

lemma decide_and_write_cases:
  assumes "decide_and_write ar dev staged f index = (outcome, f', index')" and "st_record staged = r" and "st_key staged = so_key r"
  obtains (refused) cause where "outcome = Inl cause" "f' = f" "index' = index"
  | (held) h where "step_at (si_runs index) (step_of r) = Some h" "outcome = Inr (Settled (Inr (same_value r (hd_bytes h))))" "f' = f" "index' = index"
  | (staged) v where "si_staged index (step_of r) = Some v" "outcome = Inr (Settled (Inr (same_value r v)))" "f' = f" "index' = index"
  | (writes) steps where "step_at (si_runs index) (step_of r) = None" "write_staged ar dev r (hex_encode (so_key r)) steps f index = (outcome, f', index')"
proof (cases "si_runs index (so_run r)")
  case None
  then show thesis using assms by (intro writes [of 0]) (simp_all add: decide_and_write_def step_at_def step_of_def Let_def)
next
  case (Some owned)
  show thesis
  proof (cases "ri_steps owned (hex_encode (so_key r))")
    case (Some h)
    show thesis
    proof (cases "ri_tenant owned = so_tenant r")
      case True
      then show thesis using assms Some \<open>si_runs index (so_run r) = Some owned\<close>
        by (intro held [of h]) (simp_all add: decide_and_write_def step_at_def step_of_def Let_def)
    next
      case False
      then show thesis using assms \<open>si_runs index (so_run r) = Some owned\<close>
        by (intro refused [of "JobError (ForeignTenant (ri_tenant owned) (so_tenant r))"]) (simp_all add: decide_and_write_def Let_def)
    qed
  next
    case None
    show thesis
    proof (cases "ri_tenant owned = so_tenant r \<and> card (dom (ri_steps owned)) < max_records_per_run")
      case True
      then show thesis using assms None \<open>si_runs index (so_run r) = Some owned\<close>
        by (intro writes [of "card (dom (ri_steps owned))"]) (simp_all add: decide_and_write_def step_at_def step_of_def Let_def)
    next
      case False
      then obtain cause where "outcome = Inl cause" "f' = f" "index' = index"
        using assms None \<open>si_runs index (so_run r) = Some owned\<close> by (auto simp: decide_and_write_def Let_def not_less split: if_splits)
      then show thesis by (rule refused)
    qed
  qed
qed

section \<open>A tail that was trimmed\<close>

text \<open>The first byte of a length is zero, and three more before it hide it.\<close>

lemma be_bytes_first: "n < 16777216 \<Longrightarrow> \<exists>rest. be_bytes 4 n = 0 # rest"
proof -
  assume "n < 16777216"
  then have "n div 256 div 256 div 256 = 0" by (simp add: div_mult2_eq [symmetric])
  moreover have "le_bytes 4 n = [word_of_nat (n mod 256), word_of_nat (n div 256 mod 256), word_of_nat (n div 256 div 256 mod 256),
      word_of_nat (n div 256 div 256 div 256 mod 256)]"
    unfolding four by simp
  ultimately show ?thesis by (simp add: be_bytes_def)
qed

lemma gap_hides_record:
  assumes "store_archive_ok ar" and "stored_frame ar r tail = Inr (framed, head)" and "2 < k"
  shows "\<exists>rest. replicate k 0 @ framed = replicate 4 0 @ rest"
proof -
  obtain payload where p: "framed = encode_frame (length payload) payload head" "is_possible_length (length payload) max_record_bytes"
    using stored_frameE [OF assms(1,2)] by metis
  obtain rest where "be_bytes 4 (length payload) = 0 # rest"
    using be_bytes_first [of "length payload"] p(2) by (auto simp: is_possible_length_def max_record_bytes_def)
  then have framed: "framed = 0 # rest @ payload @ head" by (simp add: p(1) encode_frame_def length_bytes_def)
  define m where "m = k - 3"
  have "k = Suc (Suc (Suc m))" using assms(3) by (simp add: m_def)
  then have "replicate k 0 @ framed = replicate 4 0 @ replicate m 0 @ rest @ payload @ head"
    unfolding four by (simp add: framed replicate_app_Cons_same)
  then show ?thesis by blast
qed

text \<open>
  Opening a store whose last record was cut short past its second byte trims the file but leaves the cursor
  where the scan ended: the next record is written behind a gap of zeros, staged to be answered Recorded
  once it is flushed, and from then on the file is refused as corrupt.
\<close>

theorem trimmed_tail_loses_records:
  assumes "store_archive_ok ar" and "chain (stored_frame ar) (store_genesis ar) rs = Some (body, tail)" and "stored_frame ar r tail = Inr (framed, head)"
    and "2 < k" "k < length framed" and "length rs \<le> max_records_per_run" and "length (store_header @ body @ take k framed) \<le> max_store_bytes"
    and "store_open ar dev \<lparr>dk_bytes = store_header @ body @ take k framed, dk_fault = None\<rparr> = Inr (f, index)"
    and "write_staged ar dev' r' (hex_encode (so_key r')) steps f index = (Inr (Unsynced Recorded n settle), f', index')"
  shows "store_open ar dev'' (sf_disk f') = Inl (StoreCorrupt (length rs))"
proof -
  have pos: "0 < k" using assms(4) by simp
  have small: "length (store_header @ body @ take k framed) \<le> u64_max" using assms(7) by (simp add: max_store_bytes_def u64_max_def)
  have f: "f = \<lparr>sf_disk = \<lparr>dk_bytes = store_header @ body, dk_fault = None\<rparr>, sf_pos = length (store_header @ body) + k, sf_kept = length (store_header @ body)\<rparr>"
      "index = index_of ar rs (length (store_header @ body)) tail"
    using store_open_torn [OF assms(1) _ _ assms(2,3) _ pos assms(5,6), of "\<lparr>dk_bytes = store_header @ body @ take k framed, dk_fault = None\<rparr>" dev]
      assms(5,8) small by (auto split: if_splits)
  obtain framed' head' where w: "stored_frame ar r' tail = Inr (framed', head')" "length (store_header @ body) + length framed' \<le> max_store_bytes"
      "f' = file_write framed' f"
    using assms(9) by (rule write_staged_cases) (simp_all add: f(2) index_of_def)
  obtain rest where gap: "replicate k 0 @ framed' = replicate 4 0 @ rest" using gap_hides_record [OF assms(1) w(1) assms(4)] by blast
  have "framed' \<noteq> []" using stored_frameE [OF assms(1) w(1)] by fastforce
  then have d: "sf_disk f' = \<lparr>dk_bytes = store_header @ body @ replicate 4 0 @ rest, dk_fault = None\<rparr>"
    using gap by (simp add: w(3) f(1) file_write_def write_at_def)
  have "length (replicate k 0 @ framed') = length (replicate 4 (0 :: u8) @ rest)" by (simp only: gap)
  then have fits: "length (dk_bytes (sf_disk f')) \<le> u64_max"
    using w(2) assms(5,7) by (simp add: d max_store_bytes_def u64_max_def)
  have zero: "read_raw (stored_entry_head ar) StoreStorage corrupt max_record_bytes (sf_disk f') (16 + length body) cur = Inl corrupt" for corrupt cur
    using zero_prefix_corrupt [of "sf_disk f'" "store_header @ body" rest "stored_entry_head ar" StoreStorage corrupt max_record_bytes cur] d by simp
  have stuck: "store_replay_loop ar (sf_disk f') file_len (length store_header + length body) n index tail = Inl (StoreCorrupt n)" for file_len n index
    by (subst store_replay_loop.simps) (simp add: store_next_frame_def zero)
  have "si_committed (index_of ar [] 16 (store_genesis ar)) = 16" by (simp add: index_of_def)
  then have "store_replay ar (sf_disk f') = Inl (StoreCorrupt (length rs))"
    using store_log.read_chain [OF assms(1) _ fits assms(2), of "store_header" "replicate 4 0 @ rest" 0 "index_of ar [] (length store_header) (store_genesis ar)"]
      store_replay_header [of "sf_disk f'" "body @ replicate 4 0 @ rest" ar] assms(6) stuck d by simp
  then show ?thesis by (simp add: store_open_def d)
qed

section \<open>What a job keeps\<close>

lemma file_holds_same:
  assumes "file_holds ar f index rs lost" and "sf_disk f' = sf_disk f" and "sf_pos f' = sf_pos f" and "sf_kept f' \<le> length (dk_bytes (sf_disk f))"
    and "si_committed index' = si_committed index" and "si_tail index' = si_tail index"
  shows "file_holds ar f' index' rs lost"
  using assms(1,4) unfolding file_holds_def assms(2,3,5,6) by blast

lemma file_kept: "file_holds ar f index rs lost \<Longrightarrow> sf_kept f \<le> length (dk_bytes (sf_disk f))"
  unfolding file_holds_def by blast

lemma file_intact:
  assumes "file_holds ar f index rs lost" and "length (dk_bytes (sf_disk f)) = si_committed index"
  obtains body where "lost = []" "chain (stored_frame ar) (store_genesis ar) rs = Some (body, si_tail index)"
    "sf_disk f = \<lparr>dk_bytes = store_header @ body, dk_fault = None\<rparr>" "sf_pos f = length (store_header @ body)"
    "si_committed index = length (store_header @ body)" "sf_kept f \<le> length (store_header @ body)"
proof -
  obtain body tail rest last q where f: "chain (stored_frame ar) (store_genesis ar) rs = Some (body, tail)"
      "chain (stored_frame ar) tail lost = Some (rest, last)" "sf_disk f = \<lparr>dk_bytes = store_header @ body @ take q rest, dk_fault = None\<rparr>"
      "sf_kept f \<le> length (dk_bytes (sf_disk f))"
      "if lost = [] then si_committed index = length (store_header @ body) \<and> si_tail index = tail \<and> sf_pos f = length (store_header @ body)
       else length (dk_bytes (sf_disk f)) < si_committed index"
    using assms(1) unfolding file_holds_def by blast
  have "lost = []" using f(5) assms(2) by (metis less_irrefl)
  then show thesis using f by (intro that [of body]) simp_all
qed

lemma file_write_end:
  assumes "sf_disk f = \<lparr>dk_bytes = bytes, dk_fault = None\<rparr>" and "sf_pos f = length bytes"
  shows "sf_disk (file_write bs f) = \<lparr>dk_bytes = bytes @ bs, dk_fault = None\<rparr>" "sf_pos (file_write bs f) = length (bytes @ bs)"
    "sf_kept (file_write bs f) = sf_kept f"
  using assms by (simp_all add: file_write_def write_at_end)

lemma file_written:
  assumes "file_holds ar f index rs lost" and "length (dk_bytes (sf_disk f)) = si_committed index" and "stored_frame ar r (si_tail index) = Inr (framed, head)"
    and "si_committed index + length framed \<le> max_store_bytes"
    and "si_committed index' = si_committed index + length framed" and "si_tail index' = head"
  shows "file_holds ar (file_write framed f) index' (rs @ [r]) []"
proof (rule file_intact [OF assms(1,2)])
  fix body
  assume f: "chain (stored_frame ar) (store_genesis ar) rs = Some (body, si_tail index)" "sf_disk f = \<lparr>dk_bytes = store_header @ body, dk_fault = None\<rparr>"
    "sf_pos f = length (store_header @ body)" "si_committed index = length (store_header @ body)" "sf_kept f \<le> length (store_header @ body)"
  have "chain (stored_frame ar) (store_genesis ar) (rs @ [r]) = Some (body @ framed, head)" by (rule chain_append [OF f(1) assms(3)])
  moreover note file_write_end [OF f(2,3), of framed]
  ultimately show ?thesis
    unfolding file_holds_def using assms(4-6) f(4,5)
    by (intro exI [of _ "body @ framed"] exI [of _ head] exI [of _ "[]"] exI [of _ 0]) simp
qed

lemma file_failed:
  assumes "file_holds ar f index rs lost" and "length (dk_bytes (sf_disk f)) = si_committed index" and "stored_frame ar r (si_tail index) = Inr (framed, head)"
    and "si_committed index + length framed \<le> max_store_bytes" and "si_committed index' = si_committed index + length framed" and "store_archive_ok ar"
  shows "file_holds ar (file_write (take (min n (length framed - 1)) framed) f) index' rs [r]"
proof (rule file_intact [OF assms(1,2)])
  fix body
  assume f: "chain (stored_frame ar) (store_genesis ar) rs = Some (body, si_tail index)" "sf_disk f = \<lparr>dk_bytes = store_header @ body, dk_fault = None\<rparr>"
    "sf_pos f = length (store_header @ body)" "si_committed index = length (store_header @ body)" "sf_kept f \<le> length (store_header @ body)"
  have pos: "0 < length framed" using stored_frameE [OF assms(6,3)] by (metis add_gr_0 zero_less_numeral)
  note w = file_write_end [OF f(2,3), of "take (min n (length framed - 1)) framed"]
  let ?k = "min n (length framed - 1)"
  have one: "chain (stored_frame ar) (si_tail index) [r] = Some (framed, head)" using assms(3) by simp
  have short: "?k < length framed" using pos by linarith
  then have k: "?k \<le> length framed" "length (store_header @ body @ take ?k framed) < si_committed index'"
    using f(4) assms(5) by (simp_all del: min_less_iff_conj)
  have disk: "sf_disk (file_write (take ?k framed) f) = \<lparr>dk_bytes = store_header @ body @ take ?k framed, dk_fault = None\<rparr>" using w(1) by simp
  show ?thesis
    unfolding file_holds_def disk
    by (rule exI [of _ body], rule exI [of _ "si_tail index"], rule exI [of _ framed], rule exI [of _ head], rule exI [of _ ?k], intro conjI)
      (use f(1,4,5) one k assms(4) w(3) in simp_all)
qed

lemma covers_more: "covers ar f rs covered \<Longrightarrow> sf_kept f' = sf_kept f \<Longrightarrow> covers ar f' (rs @ later) covered"
proof -
  assume c: "covers ar f rs covered" "sf_kept f' = sf_kept f"
  then obtain m body tail where m: "m \<le> length rs" "chain (stored_frame ar) (store_genesis ar) (take m rs) = Some (body, tail)"
    "length (store_header @ body) \<le> sf_kept f" "set covered \<subseteq> set (take m rs)" unfolding covers_def by blast
  then have "take m (rs @ later) = take m rs" by simp
  then show ?thesis unfolding covers_def using m c(2)
    by (intro exI [of _ m] exI [of _ body] exI [of _ tail]) simp
qed

lemma index_written:
  assumes "index_holds ar index acked written" and "step_at (si_runs index) (step_of r) = None" and "si_staged index (step_of r) = None"
    and "set acked \<subseteq> set written"
    and "index' = index\<lparr>si_committed := committed, si_tail := head, si_staged := (si_staged index)(step_of r \<mapsto> so_value r)\<rparr>"
  shows "index_holds ar index' acked (written @ [r])"
proof -
  note i = index_holdsD [OF assms(1)]
  have fresh: "step_of r \<notin> step_of ` set written" by (rule unknown_fresh [OF assms(1-3)])
  then have new: "r \<notin> set acked" using assms(4) by blast
  let ?m = "map_of (map (\<lambda>e. (step_of e, so_value e)) (filter (\<lambda>e. e \<notin> set acked) written))"
  have "?m (step_of r) = None" using fresh by (auto simp: map_of_eq_None_iff)
  then have "[step_of r \<mapsto> so_value r] ++ ?m = ?m(step_of r \<mapsto> so_value r)" by (auto simp: map_add_def fun_eq_iff split: option.splits)
  then have "si_staged index' = map_of (map (\<lambda>e. (step_of e, so_value e)) (filter (\<lambda>e. e \<notin> set acked) (written @ [r])))"
    using new i(4) assms(5) by simp
  then show ?thesis unfolding index_holds_def using i(1-3) fresh assms(5) by simp
qed

lemma unsynced_simps [simp]:
  "unsynced c [] = []" "unsynced c ((r, staged) # batch) = (if owes_flush staged then asked c r # unsynced c batch else unsynced c batch)"
  "unsynced c (batch @ batch') = unsynced c batch @ unsynced c batch'"
  by (simp_all add: unsynced_def)

lemma acknowledged_simps [simp]:
  "acknowledged c [] = li_before c"
  "acknowledged c (given @ [(r, answer)]) = (if answer = Inr Recorded then acknowledged c given @ [asked c r] else acknowledged c given)"
  by (simp_all add: acknowledged_def)

lemma same_step_more: "same_step written r a \<Longrightarrow> set written \<subseteq> set written' \<Longrightarrow> same_step written' r a"
  unfolding same_step_def by blast

lemma staged_right_more: "staged_right c written r staged \<Longrightarrow> set written \<subseteq> set written' \<Longrightarrow> staged_right c written' r staged"
  by (auto simp: staged_right_def intro: same_step_more split: stage.splits sum.splits)

lemma subseq_set: "subseq xs ys \<Longrightarrow> set xs \<subseteq> set ys"
  by (auto elim: list_emb_set)

lemma acked_written: "store_holds_with c phase f index batch given rs lost \<Longrightarrow> set (acknowledged c given) \<subseteq> set (rs @ lost)"
  using subseq_set [OF store_holdsD(3)] by fastforce

text \<open>A job that changes neither the file nor the index.\<close>

lemma holds_settled:
  assumes "store_holds_with c None f index batch given rs lost" and "\<And>a. answer = Inr a \<Longrightarrow> same_step (rs @ lost) (asked c r) a"
  shows "store_holds_with c None f index (batch @ [(r, Settled answer)]) given rs lost"
proof -
  note h = store_holdsD [OF assms(1)]
  have same: "unsynced c (batch @ [(r, Settled answer)]) = unsynced c batch" by (simp add: owes_flush_def)
  have "staged_right c (rs @ lost) r (Settled answer)" using assms(2) by (auto simp: staged_right_def split: sum.splits)
  moreover have "all_well None (batch @ [(r, Settled answer)]) given \<Longrightarrow> all_well None batch given" by (simp add: all_well_def)
  ultimately show ?thesis
    unfolding store_holds_with_def same using h by auto
qed

lemma holds_written:
  assumes "store_holds_with c None f index batch given rs []" and "file_holds (li_archive c) f' index' (rs @ [asked c r]) []"
    and "sf_kept f' = sf_kept f" and "index_holds (li_archive c) index' (acknowledged c given) (rs @ [asked c r])"
  shows "store_holds_with c None f' index' (batch @ [(r, Unsynced Recorded n (settle_record (li_archive c) (asked c r)))]) given (rs @ [asked c r]) []"
proof -
  note h = store_holdsD [OF assms(1)]
  let ?batch = "batch @ [(r, Unsynced Recorded n (settle_record (li_archive c) (asked c r)))]"
  have us: "unsynced c ?batch = unsynced c batch @ [asked c r]" by (simp add: owes_flush_def)
  have "subseq ((acknowledged c given @ unsynced c batch) @ [asked c r]) (rs @ [asked c r])"
    using h(3) by (rule list_emb_append_mono) simp
  moreover have "all_well None ?batch given \<Longrightarrow> all_well None batch given" by (simp add: all_well_def)
  moreover have "staged_right c (rs @ [asked c r]) r (Unsynced Recorded n (settle_record (li_archive c) (asked c r)))" by (simp add: staged_right_def)
  moreover have "covers (li_archive c) f' (rs @ [asked c r]) (acknowledged c given)" using covers_more [OF _ assms(3)] h(4) by simp
  moreover have "\<And>r' staged. (r', staged) \<in> set batch \<Longrightarrow> staged_right c (rs @ [asked c r]) r' staged"
    using h(5) by (rule staged_right_more) auto
  moreover have "\<And>r' a. (r', Inr a) \<in> set given \<Longrightarrow> a \<noteq> Recorded \<Longrightarrow> same_step (rs @ [asked c r]) (asked c r') a"
    using h(6) by (rule same_step_more) auto
  ultimately show ?thesis
    unfolding store_holds_with_def us using assms(2,4) h(8) by auto
qed

lemma holds_failed:
  assumes "store_holds_with c None f index batch given rs []" and "file_holds (li_archive c) f' index' rs [asked c r]"
    and "sf_kept f' = sf_kept f" and "index_holds (li_archive c) index' (acknowledged c given) (rs @ [asked c r])"
  shows "store_holds_with c None f' index' (batch @ [(r, Settled (Inl cause))]) given rs [asked c r]"
proof -
  note h = store_holdsD [OF assms(1)]
  have same: "unsynced c (batch @ [(r, Settled (Inl cause))]) = unsynced c batch" by (simp add: owes_flush_def)
  have "\<not> all_well None (batch @ [(r, Settled (Inl cause))]) given" by (simp add: all_well_def stage_well_def)
  moreover have "staged_right c (rs @ [asked c r]) r (Settled (Inl cause))" by (simp add: staged_right_def)
  moreover have "covers (li_archive c) f' rs (acknowledged c given)" using covers_more [OF _ assms(3), of "li_archive c" rs _ "[]"] h(4) by simp
  moreover have "\<And>r' staged. (r', staged) \<in> set batch \<Longrightarrow> staged_right c (rs @ [asked c r]) r' staged"
    using h(5) by (rule staged_right_more) auto
  moreover have "\<And>r' a. (r', Inr a) \<in> set given \<Longrightarrow> a \<noteq> Recorded \<Longrightarrow> same_step (rs @ [asked c r]) (asked c r') a"
    using h(6) by (rule same_step_more) auto
  ultimately show ?thesis
    unfolding store_holds_with_def same using assms(2,4) h(3) by auto
qed

lemma store_job_keeps:
  assumes ok: "life_ok c" and "store_holds c None f index batch given" and job: "life_job c r f index = (outcome, f', index')"
  shows "store_holds c None f' index' (batch @ [(r, staged_of outcome)]) given"
proof -
  obtain rs lost where inv: "store_holds_with c None f index batch given rs lost" using assms(2) unfolding store_holds_def by blast
  note h = store_holdsD [OF inv]
  have archive: "store_archive_ok (li_archive c)" and key: "st_key (li_requests c r) = so_key (asked c r)" using ok by (simp_all add: life_ok_def)
  note acked = acked_written [OF inv]
  show ?thesis
    using job unfolding life_job_def
  proof (rule decide_and_write_cases [OF _ refl key])
    fix cause
    assume "outcome = Inl cause" "f' = f" "index' = index"
    then show ?thesis using holds_settled [OF inv, of "Inl cause" r] by (auto simp: store_holds_def staged_of_def)
  next
    fix known
    assume a: "step_at (si_runs index) (step_of (asked c r)) = Some known" "outcome = Inr (Settled (Inr (same_value (asked c r) (hd_bytes known))))" "f' = f" "index' = index"
    obtain e where "e \<in> set (acknowledged c given)" "step_of (asked c r) = step_of e" "known = held_of e"
      using step_atD a(1) unfolding index_holdsD(1) [OF h(2)] by blast
    then have "same_step (rs @ lost) (asked c r) (same_value (asked c r) (hd_bytes known))"
      using acked by (auto simp: same_step_def held_of_def)
    then show ?thesis using holds_settled [OF inv, of "Inr (same_value (asked c r) (hd_bytes known))" r] a by (auto simp: store_holds_def staged_of_def)
  next
    fix v
    assume a: "si_staged index (step_of (asked c r)) = Some v" "outcome = Inr (Settled (Inr (same_value (asked c r) v)))" "f' = f" "index' = index"
    have "same_step (rs @ lost) (asked c r) (same_value (asked c r) v)"
      using a(1) unfolding staged_written [OF h(2)] same_step_def by metis
    then show ?thesis using holds_settled [OF inv, of "Inr (same_value (asked c r) v)" r] a by (auto simp: store_holds_def staged_of_def)
  next
    fix steps
    assume fresh: "step_at (si_runs index) (step_of (asked c r)) = None"
      and w: "write_staged (li_archive c) (li_device c r) (asked c r) (hex_encode (so_key (asked c r))) steps f index = (outcome, f', index')"
    show ?thesis
    proof (rule write_staged_cases [OF w refl])
      fix cause
      assume "outcome = Inl cause" "f' = f" "index' = index"
      then show ?thesis using holds_settled [OF inv, of "Inl cause" r] by (auto simp: store_holds_def staged_of_def)
    next
      fix v
      assume a: "si_staged index (step_of (asked c r)) = Some v" "outcome = Inr (Settled (Inr (same_value (asked c r) v)))" "f' = f" "index' = index"
      have "same_step (rs @ lost) (asked c r) (same_value (asked c r) v)"
        using a(1) unfolding staged_written [OF h(2)] same_step_def by metis
      then show ?thesis using holds_settled [OF inv, of "Inr (same_value (asked c r) v)" r] a by (auto simp: store_holds_def staged_of_def)
    next
      fix framed head n cause
      assume a: "si_staged index (step_of (asked c r)) = None" "stored_frame (li_archive c) (asked c r) (si_tail index) = Inr (framed, head)"
        "length (dk_bytes (sf_disk f)) = si_committed index" "si_committed index + length framed \<le> max_store_bytes" "outcome = Inl cause"
        "index' = index\<lparr>si_committed := si_committed index + length framed, si_tail := head, si_staged := (si_staged index)(step_of (asked c r) \<mapsto> so_value (asked c r))\<rparr>"
        "f' = file_write (take (min n (length framed - 1)) framed) f"
      have lost: "lost = []" by (rule file_intact [OF h(1) a(3)])
      have "index_holds (li_archive c) index' (acknowledged c given) (rs @ [asked c r])"
        using index_written [OF h(2) fresh a(1) acked a(6)] lost by simp
      moreover have "file_holds (li_archive c) f' index' rs [asked c r]"
        unfolding a(7) by (rule file_failed [OF h(1) a(3,2,4) _ archive]) (simp add: a(6))
      moreover have "sf_kept f' = sf_kept f" by (simp add: a(7) file_write_def)
      ultimately show ?thesis unfolding store_holds_def a(5) staged_of_def sum.case using holds_failed [OF inv [unfolded lost]] by blast
    next
      fix framed head
      assume a: "si_staged index (step_of (asked c r)) = None" "stored_frame (li_archive c) (asked c r) (si_tail index) = Inr (framed, head)"
        "length (dk_bytes (sf_disk f)) = si_committed index" "si_committed index + length framed \<le> max_store_bytes"
        "outcome = Inr (Unsynced Recorded (length framed) (settle_record (li_archive c) (asked c r)))"
        "index' = index\<lparr>si_committed := si_committed index + length framed, si_tail := head, si_staged := (si_staged index)(step_of (asked c r) \<mapsto> so_value (asked c r))\<rparr>"
        "f' = file_write framed f"
      have lost: "lost = []" by (rule file_intact [OF h(1) a(3)])
      have "index_holds (li_archive c) index' (acknowledged c given) (rs @ [asked c r])"
        using index_written [OF h(2) fresh a(1) acked a(6)] lost by simp
      moreover have "file_holds (li_archive c) f' index' (rs @ [asked c r]) []"
        unfolding a(7) by (rule file_written [OF h(1) a(3,2,4)]) (simp_all add: a(6))
      moreover have "sf_kept f' = sf_kept f" by (simp add: a(7) file_write_def)
      ultimately show ?thesis unfolding store_holds_def a(5) staged_of_def sum.case using holds_written [OF inv [unfolded lost]] by blast
    qed
  qed
qed

section \<open>What a flush and an answer keep\<close>

lemma all_well_known: "all_well (Some failure) batch given \<Longrightarrow> all_well None batch given"
  by (auto simp: all_well_def stage_well_def split: stage.splits)

lemma store_flush_keeps:
  assumes "store_holds c None f index batch given" and "life_sync c f = (failure, f')"
  shows "store_holds c (Some failure) f' index batch given"
proof -
  obtain rs lost where inv: "store_holds_with c None f index batch given rs lost" using assms(1) unfolding store_holds_def by blast
  note h = store_holdsD [OF inv]
  have f': "f' = (if failure = None then f\<lparr>sf_kept := length (dk_bytes (sf_disk f))\<rparr> else f)"
    using assms(2) by (auto simp: life_sync_def file_sync_def split: option.splits)
  have "file_holds (li_archive c) f' index rs lost" by (rule file_holds_same [OF h(1)]) (simp_all add: f' file_kept [OF h(1)])
  moreover have "covers (li_archive c) f' rs (acknowledged c given @ (if Some failure = Some None then unsynced c batch else []))"
  proof (cases failure)
    case None
    obtain body tail rest q where b: "chain (stored_frame (li_archive c)) (store_genesis (li_archive c)) rs = Some (body, tail)"
        "sf_disk f = \<lparr>dk_bytes = store_header @ body @ take q rest, dk_fault = None\<rparr>" using h(1) unfolding file_holds_def by blast
    show ?thesis unfolding covers_def f'
      by (rule exI [of _ "length rs"], rule exI [of _ body], rule exI [of _ tail])
        (use None b subseq_set [OF h(3)] in simp)
  next
    case (Some kind)
    then show ?thesis using h(4) f' by simp
  qed
  ultimately have "store_holds_with c (Some failure) f' index batch given rs lost"
    unfolding store_holds_with_def using h(2,3,5-8) all_well_known [of failure batch given] by auto
  then show ?thesis unfolding store_holds_def by blast
qed

lemma store_no_flush_keeps:
  assumes "store_holds c None f index batch given" and "\<forall>m \<in> set batch. \<not> owes_flush (snd m)"
  shows "store_holds c (Some None) f index batch given"
proof -
  obtain rs lost where inv: "store_holds_with c None f index batch given rs lost" using assms(1) unfolding store_holds_def by blast
  have "filter (\<lambda>(_, staged). owes_flush staged) batch = []" using assms(2) by (auto simp: filter_empty_conv)
  then have "unsynced c batch = []" by (simp add: unsynced_def)
  then have "store_holds_with c (Some None) f index batch given rs lost"
    using store_holdsD [OF inv] all_well_known [of None batch given] unfolding store_holds_with_def by auto
  then show ?thesis unfolding store_holds_def by blast
qed

lemma index_settled:
  assumes "index_holds ar index acked written" and "r \<in> set written" and "r \<notin> set acked"
  shows "index_holds ar (settle_record ar r index) (acked @ [r]) written"
proof -
  note i = index_holdsD [OF assms(1)]
  have known: "map_of (map (\<lambda>e. (step_of e, so_value e)) (filter P written)) s = Some v \<longleftrightarrow> (\<exists>e \<in> set written. P e \<and> s = step_of e \<and> v = so_value e)"
    for P s v
  proof -
    have "distinct (map fst (map (\<lambda>e. (step_of e, so_value e)) (filter P written)))" using i(3) by (simp add: o_def distinct_map_filter)
    then show ?thesis by (auto simp: map_of_eq_Some_iff)
  qed
  have one: "step_of e = step_of r \<longleftrightarrow> e = r" if "e \<in> set written" for e
    using i(3) that assms(2) by (auto simp: distinct_map dest: inj_onD)
  have staged: "(si_staged index)(step_of r := None) = map_of (map (\<lambda>e. (step_of e, so_value e)) (filter (\<lambda>e. e \<notin> set (acked @ [r])) written))"
  proof (rule ext)
    fix s
    let ?l = "((si_staged index)(step_of r := None)) s" and ?r = "map_of (map (\<lambda>e. (step_of e, so_value e)) (filter (\<lambda>e. e \<notin> set (acked @ [r])) written)) s"
    have rhs: "?r = Some v \<longleftrightarrow> (\<exists>e \<in> set written. e \<notin> set (acked @ [r]) \<and> s = step_of e \<and> v = so_value e)" for v
      by (rule known)
    have lhs: "?l = Some v \<longleftrightarrow> s \<noteq> step_of r \<and> (\<exists>e \<in> set written. e \<notin> set acked \<and> s = step_of e \<and> v = so_value e)" for v
      using known [of "\<lambda>e. e \<notin> set acked" s v] by (simp add: i(4))
    have eq: "?l = Some v \<longleftrightarrow> ?r = Some v" for v
    proof
      assume "?l = Some v"
      then obtain e where "e \<in> set written" "e \<notin> set acked" "s = step_of e" "v = so_value e" "s \<noteq> step_of r" unfolding lhs by blast
      then have "e \<notin> set (acked @ [r])" by auto
      then show "?r = Some v" unfolding rhs using \<open>e \<in> set written\<close> \<open>s = step_of e\<close> \<open>v = so_value e\<close> by blast
    next
      assume "?r = Some v"
      then obtain e where e: "e \<in> set written" "e \<notin> set (acked @ [r])" "s = step_of e" "v = so_value e" unfolding rhs by blast
      then have "s \<noteq> step_of r" "e \<notin> set acked" using one [OF e(1)] by auto
      then show "?l = Some v" unfolding lhs using e by blast
    qed
    show "?l = ?r"
    proof (cases "?l")
      case None
      then show ?thesis using eq by (cases "?r") force+
    next
      case (Some v)
      then show ?thesis using eq [of v] by (simp del: fun_upd_apply)
    qed
  qed
  have fields: "si_runs (settle_record ar r index) = insert_step r (si_runs index)" "si_staged (settle_record ar r index) = (si_staged index)(step_of r := None)"
    "si_pending (settle_record ar r index) = count_approval ar (so_tenant r) (so_value r) (si_pending index)"
    by (simp_all add: settle_record_def step_of_def)
  show ?thesis unfolding index_holds_def fields staged using i(1-3) by simp
qed

lemma store_answer_keeps:
  assumes "store_holds c (Some failure) f index ((r, staged) # batch) given" and "stage_answer staged failure index = (answer, index')"
  shows "store_holds c (Some failure) f index' batch (given @ [(r, answer)])"
proof -
  obtain rs lost where inv: "store_holds_with c (Some failure) f index ((r, staged) # batch) given rs lost" using assms(1) unfolding store_holds_def by blast
  note h = store_holdsD [OF inv]
  have right: "staged_right c (rs @ lost) r staged" using h(5) by simp
  have rest: "\<And>r' staged'. (r', staged') \<in> set batch \<Longrightarrow> staged_right c (rs @ lost) r' staged'" using h(5) by simp
  have "store_holds_with c (Some failure) f index' batch (given @ [(r, answer)]) rs lost"
  proof (cases staged)
    case (Settled settled)
    have a: "answer = settled" "index' = index" using assms(2) Settled by (simp_all add: stage_answer_def)
    have same: "same_step (rs @ lost) (asked c r) a" if "answer = Inr a" for a using right Settled that a by (simp add: staged_right_def)
    then have "answer \<noteq> Inr Recorded" by (auto simp: same_step_def same_value_def split: if_splits)
    moreover have "all_well (Some failure) batch (given @ [(r, answer)]) \<Longrightarrow> all_well (Some failure) ((r, staged) # batch) given"
      using a by (auto simp: all_well_def stage_well_def Settled)
    ultimately show ?thesis unfolding store_holds_with_def using h a rest same by (auto simp: Settled owes_flush_def)
  next
    case (Unsynced a n settle)
    have u: "a = Recorded" "settle = settle_record (li_archive c) (asked c r)" using right Unsynced by (simp_all add: staged_right_def)
    have us: "unsynced c ((r, staged) # batch) = asked c r # unsynced c batch" by (simp add: Unsynced owes_flush_def)
    have sub: "subseq (acknowledged c given @ asked c r # unsynced c batch) rs" using h(3) unfolding us .
    show ?thesis
    proof (cases failure)
      case None
      have ans: "answer = Inr Recorded" "index' = settle_record (li_archive c) (asked c r) index"
        using assms(2) Unsynced u None by (simp_all add: stage_answer_def)
      have "distinct (acknowledged c given @ asked c r # unsynced c batch)"
        using index_holdsD(3) [OF h(2)] sub by (metis distinct_append distinct_map map_append subseq_conv_nths distinct_nthsI)
      then have "asked c r \<notin> set (acknowledged c given)" by simp
      moreover have "asked c r \<in> set (rs @ lost)" using subseq_set [OF sub] by simp
      ultimately have "index_holds (li_archive c) index' (acknowledged c given @ [asked c r]) (rs @ lost)"
        unfolding ans(2) by (intro index_settled [OF h(2)])
      moreover have "all_well (Some failure) batch (given @ [(r, answer)]) \<Longrightarrow> all_well (Some failure) ((r, staged) # batch) given"
        using None by (auto simp: all_well_def stage_well_def Unsynced)
      moreover have "file_holds (li_archive c) f index' rs lost"
        by (rule file_holds_same [OF h(1)]) (simp_all add: ans(2) settle_record_def file_kept [OF h(1)])
      ultimately show ?thesis unfolding store_holds_with_def using h(4,6-8) rest ans(1) None sub us by auto
    next
      case (Some kind)
      have ans: "answer = Inl (BatchFlushFailed kind)" "index' = index" using assms(2) Unsynced Some by (simp_all add: stage_answer_def)
      have "subseq (acknowledged c given @ unsynced c batch) (acknowledged c given @ asked c r # unsynced c batch)"
        by (rule list_emb_append_mono [OF subseq_order.order_refl list_emb_Cons [OF subseq_order.order_refl]])
      then have "subseq (acknowledged c given @ unsynced c batch) rs" using sub by (rule subseq_order.trans)
      moreover have "\<not> all_well (Some failure) batch (given @ [(r, answer)])" using ans(1) by (simp add: all_well_def)
      ultimately show ?thesis unfolding store_holds_with_def using h(1,2,4,6) rest ans Some by auto
    qed
  next
    case (Committed a)
    then show ?thesis using right by (simp add: staged_right_def)
  qed
  then show ?thesis unfolding store_holds_def by blast
qed

lemma store_batch_ends:
  assumes "store_holds c (Some failure) f index [] given"
  shows "store_holds c None f index [] given"
proof -
  obtain rs lost where inv: "store_holds_with c (Some failure) f index [] given rs lost" using assms unfolding store_holds_def by blast
  have "all_well (Some failure) [] given \<longleftrightarrow> all_well None [] given" by (simp add: all_well_def)
  then have "store_holds_with c None f index [] given rs lost"
    using store_holdsD [OF inv] unfolding store_holds_with_def by (auto split: if_splits)
  then show ?thesis unfolding store_holds_def by blast
qed

interpretation store_client: owner_client life_ok life_sync life_job store_holds
  by unfold_locales (rule store_job_keeps store_flush_keeps store_no_flush_keeps store_answer_keeps store_batch_ends; assumption)+

section \<open>What the store promises\<close>

text \<open>The file of a closed store: empty, or whole frames, one for each step.\<close>

definition store_file_of :: "store_archive \<Rightarrow> disk \<Rightarrow> stored list \<Rightarrow> bool" where
  "store_file_of ar d rs \<longleftrightarrow>
     dk_fault d = None \<and> length (dk_bytes d) \<le> max_store_bytes \<and> distinct (map step_of rs) \<and> length rs \<le> max_records_per_run \<and>
     (dk_bytes d = [] \<and> rs = [] \<or> (\<exists>body tail. chain (stored_frame ar) (store_genesis ar) rs = Some (body, tail) \<and> dk_bytes d = store_header @ body))"

text \<open>
  A life of a store: opened on such a file, and run by its owner. A store opened on a file whose last record
  was cut is not one of them.
\<close>

definition store_lives :: "store_life \<Rightarrow> device \<Rightarrow> disk \<Rightarrow> (store_file, store_index, appended, store_error) owner \<Rightarrow>
    (appended, store_index, store_error) event list \<Rightarrow> bool" where
  "store_lives c dev d w es \<longleftrightarrow>
     life_ok c \<and> store_file_of (li_archive c) d (li_before c) \<and>
     (\<exists>f index. store_open (li_archive c) dev d = Inr (f, index) \<and> owner_reach (life_sync c) (life_job c) f index w es)"

lemma store_bytes_limit: "max_store_bytes \<le> u64_max" "length store_header \<le> max_store_bytes"
  by (simp_all add: max_store_bytes_def u64_max_def)

lemma open_whole_file:
  assumes "store_file_of ar d rs" and "store_open ar dev d = Inr (f, index)" and "store_archive_ok ar"
  obtains body tail where "chain (stored_frame ar) (store_genesis ar) rs = Some (body, tail)" "index = index_of ar rs (length (store_header @ body)) tail"
    "f = \<lparr>sf_disk = \<lparr>dk_bytes = store_header @ body, dk_fault = None\<rparr>, sf_pos = length (store_header @ body), sf_kept = length (store_header @ body)\<rparr>"
    "length (store_header @ body) \<le> max_store_bytes" "distinct (map step_of rs)"
proof -
  have whole: "dk_fault d = None" "length (dk_bytes d) \<le> max_store_bytes" "distinct (map step_of rs)" "length rs \<le> max_records_per_run"
    using assms(1) by (simp_all add: store_file_of_def)
  obtain body tail where b: "chain (stored_frame ar) (store_genesis ar) rs = Some (body, tail)" "length (store_header @ body) \<le> max_store_bytes"
      "store_open ar dev d = store_open ar dev \<lparr>dk_bytes = store_header @ body, dk_fault = None\<rparr>"
  proof (cases "dk_bytes d = []")
    case True
    then have rs: "rs = []" using assms(1) by (auto simp: store_file_of_def)
    have "store_open ar dev d = store_open ar dev \<lparr>dk_bytes = store_header @ [], dk_fault = None\<rparr>"
      using assms(2) True whole(1) by (cases d) (auto simp: store_open_def split: if_splits)
    then show thesis using store_bytes_limit(2) by (intro that [of "[]" "store_genesis ar"]) (simp_all add: rs)
  next
    case False
    then obtain body tail where "chain (stored_frame ar) (store_genesis ar) rs = Some (body, tail)" "dk_bytes d = store_header @ body"
      using assms(1) by (auto simp: store_file_of_def)
    then show thesis using whole(1,2) by (intro that [of body tail]) (cases d, simp)+
  qed
  have small: "length (dk_bytes \<lparr>dk_bytes = store_header @ body, dk_fault = None\<rparr>) \<le> u64_max" using b(2) store_bytes_limit(1) by simp
  have "store_open ar dev d = Inr (\<lparr>sf_disk = \<lparr>dk_bytes = store_header @ body, dk_fault = None\<rparr>, sf_pos = length (store_header @ body),
      sf_kept = length (store_header @ body)\<rparr>, index_of ar rs (length (store_header @ body)) tail)"
    unfolding b(3) using store_open_whole [OF assms(3) _ small b(1) _ whole(4), of dev] by simp
  then show thesis using assms(2) by (intro that [OF b(1) _ _ b(2) whole(3)]) simp_all
qed

lemma store_lives_holds:
  assumes "store_lives c dev d w es"
  obtains rs lost where "store_archive_ok (li_archive c)"
    "store_holds_with c (flush_known (ow_phase w)) (ow_file w) (ow_state w) (batch_left (ow_phase w)) (answers es @ answer_due (ow_phase w)) rs lost"
proof -
  obtain f index where l: "life_ok c" "store_file_of (li_archive c) d (li_before c)" "store_open (li_archive c) dev d = Inr (f, index)"
      "owner_reach (life_sync c) (life_job c) f index w es"
    using assms unfolding store_lives_def by blast
  have archive: "store_archive_ok (li_archive c)" using l(1) by (simp add: life_ok_def)
  have "store_holds c None f index [] []"
  proof (rule open_whole_file [OF l(2,3) archive])
    fix body tail
    assume o: "chain (stored_frame (li_archive c)) (store_genesis (li_archive c)) (li_before c) = Some (body, tail)"
      "index = index_of (li_archive c) (li_before c) (length (store_header @ body)) tail"
      "f = \<lparr>sf_disk = \<lparr>dk_bytes = store_header @ body, dk_fault = None\<rparr>, sf_pos = length (store_header @ body), sf_kept = length (store_header @ body)\<rparr>"
      "length (store_header @ body) \<le> max_store_bytes" "distinct (map step_of (li_before c))"
    have "file_holds (li_archive c) f index (li_before c) []"
      unfolding file_holds_def
      by (rule exI [of _ body], rule exI [of _ tail], rule exI [of _ "[]"], rule exI [of _ tail], rule exI [of _ 0])
        (use o in \<open>simp add: index_of_def\<close>)
    moreover have "index_holds (li_archive c) index (li_before c) (li_before c)"
      using o(2,5) by (simp add: index_holds_def index_of_def filter_False)
    moreover have "covers (li_archive c) f (li_before c) (li_before c)"
      unfolding covers_def
      by (rule exI [of _ "length (li_before c)"], rule exI [of _ body], rule exI [of _ tail]) (use o(1,3) in simp)
    ultimately have "store_holds_with c None f index [] [] (li_before c) []" by (simp add: store_holds_with_def)
    then show ?thesis unfolding store_holds_def by blast
  qed
  from store_client.client_inv [OF l(4,1) this] show thesis unfolding store_holds_def using that archive by blast
qed

lemma acknowledged_published: "Published r (Inr Recorded) \<in> set es \<Longrightarrow> asked c r \<in> set (acknowledged c (answers es))"
  unfolding answers_published [symmetric] acknowledged_def by force

lemma acknowledged_append: "acknowledged c (given @ given') = acknowledged c given @ map (\<lambda>(r, _). asked c r) (filter (\<lambda>(_, answer). answer = Inr Recorded) given')"
  by (simp add: acknowledged_def)

lemma answers_acknowledged: "set (acknowledged c (answers es)) \<subseteq> set (acknowledged c (answers es @ due))"
  by (auto simp: acknowledged_append)

text \<open>
  C1: A recorded step survives a crash. Of a store that was opened on a file of whole records (an empty file
  included), however many of the bytes behind the last flush are lost, and whatever batches, failed writes
  and failed flushes came since: the file left holds whole records and perhaps a cut of one more; among the whole
  ones are all that the store was opened with and all it has answered Recorded for. Opening that file gives back
  exactly its whole records, each step with its value, but in three cases: they are more than a run may have, the
  cut authenticates by itself and is refused as corrupt, or there is a cut and the device refuses to trim it.
  A store opened on a file with a cut record is not covered: its opening trims the cut and leaves the cursor behind
  it, and then a record it answers for is lost (\<open>trimmed_tail_loses_records\<close>).
\<close>

theorem run_store_durable:
  assumes "store_lives c dev d w es" and "sf_kept (ow_file w) \<le> kept"
    and "crashed = \<lparr>dk_bytes = take kept (dk_bytes (sf_disk (ow_file w))), dk_fault = None\<rparr>"
  shows "\<exists>survived b tail k framed. opens_exactly (li_archive c) dev' crashed survived b tail k framed \<and>
    set (li_before c) \<subseteq> set survived \<and> (\<forall>r. Published r (Inr Recorded) \<in> set es \<longrightarrow> asked c r \<in> set survived) \<and>
    (\<forall>f' index'. store_open (li_archive c) dev' crashed = Inr (f', index') \<longrightarrow>
       si_runs index' = runs_of survived \<and> (\<forall>e \<in> set survived. step_at (si_runs index') (step_of e) = Some (held_of e)))"
proof -
  let ?ar = "li_archive c"
  obtain rs lost where ok: "store_archive_ok ?ar" and inv: "store_holds_with c (flush_known (ow_phase w)) (ow_file w) (ow_state w) (batch_left (ow_phase w)) (answers es @ answer_due (ow_phase w)) rs lost"
    using store_lives_holds [OF assms(1)] by blast
  note h = store_holdsD [OF inv]
  obtain body tail rest last q where f: "chain (stored_frame ?ar) (store_genesis ?ar) rs = Some (body, tail)" "chain (stored_frame ?ar) tail lost = Some (rest, last)"
      "q \<le> length rest" "sf_disk (ow_file w) = \<lparr>dk_bytes = store_header @ body @ take q rest, dk_fault = None\<rparr>"
      "length (store_header @ body @ rest) \<le> max_store_bytes"
    using h(1) unfolding file_holds_def by blast
  obtain m kept' t where m: "m \<le> length rs" "chain (stored_frame ?ar) (store_genesis ?ar) (take m rs) = Some (kept', t)" "length (store_header @ kept') \<le> sf_kept (ow_file w)"
      "set (acknowledged c (answers es @ answer_due (ow_phase w))) \<subseteq> set (take m rs)"
    using h(4) unfolding covers_def by auto
  have all: "chain (stored_frame ?ar) (store_genesis ?ar) (rs @ lost) = Some (body @ rest, last)" using chain_join [OF f(1,2)] .
  define n where "n = min (kept - length store_header) (length body + q)"
  have long: "length (store_header @ kept') \<le> kept" using m(3) assms(2) by simp
  have take: "take m (rs @ lost) = take m rs" "m \<le> length (rs @ lost)" using m(1) by simp_all
  obtain b2 where "body = kept' @ b2"
    using chain_split [of "stored_frame ?ar" "store_genesis ?ar" "take m rs" "drop m rs"] f(1) m(2) by auto
  then have n: "n \<le> length (body @ rest)" "length kept' \<le> n" using f(3) long by (auto simp: n_def)
  have crashed: "crashed = \<lparr>dk_bytes = store_header @ take n (body @ rest), dk_fault = None\<rparr>"
    using long f(3) unfolding assms(3) f(4) n_def by (auto simp: min_def)
  have small: "length (store_header @ body @ rest) \<le> u64_max" using f(5) store_bytes_limit(1) by simp
  have distinct: "distinct (map step_of (rs @ lost))" by (rule index_holdsD(3) [OF h(2)])
  obtain j b t' k framed where j: "m \<le> j" and o: "opens_exactly ?ar dev' crashed (take j (rs @ lost)) b t' k framed"
    by (rule open_crashed [OF ok all n(1) small take(2) m(2) [folded take(1)] n(2), of dev', folded crashed])
  let ?survived = "take j (rs @ lost)"
  have "set (take m rs) \<subseteq> set ?survived" using set_take_subset_set_take [OF j, of "rs @ lost"] take(1) by simp
  then have known: "set (acknowledged c (answers es)) \<subseteq> set ?survived" using m(4) answers_acknowledged by blast
  have once: "distinct (map step_of ?survived)" using distinct by (simp only: take_map [symmetric] distinct_take)
  have restored: "si_runs index' = runs_of ?survived \<and> (\<forall>e \<in> set ?survived. step_at (si_runs index') (step_of e) = Some (held_of e))"
    if "store_open ?ar dev' crashed = Inr (f', index')" for f' index'
  proof -
    have "si_runs index' = runs_of ?survived"
      using o that unfolding opens_exactly_def index_of_def by (auto split: if_splits)
    then show ?thesis using step_at_held [OF once] by simp
  qed
  have before: "set (li_before c) \<subseteq> set (acknowledged c (answers es))" by (auto simp: acknowledged_def)
  show ?thesis
    by (rule exI [of _ ?survived], rule exI [of _ b], rule exI [of _ t'], rule exI [of _ k], rule exI [of _ framed])
      (use o known before acknowledged_published [of _ es c] restored in \<open>(intro conjI allI impI; blast)\<close>)
qed

text \<open>C3: The file is the index: while nothing was answered with an error, at any moment between batches reopening the file gives exactly the index in memory, and it is refused only when the runs together hold more records than one run may.\<close>

theorem run_store_reopens_same:
  assumes "store_lives c dev d w es" and "batch_left (ow_phase w) = []" and "answer_due (ow_phase w) = []"
    and "\<And>r answer. Published r answer \<in> set es \<Longrightarrow> is_ok answer"
  shows "store_open (li_archive c) dev' (sf_disk (ow_file w)) =
    (if max_records_per_run < card {s. step_at (si_runs (ow_state w)) s \<noteq> None} then Inl (StoreLimit Records (max_records_per_run + 1) max_records_per_run)
     else Inr ((ow_file w)\<lparr>sf_kept := length (dk_bytes (sf_disk (ow_file w)))\<rparr>, ow_state w))"
proof -
  let ?ar = "li_archive c" and ?d = "sf_disk (ow_file w)"
  obtain rs lost where ok: "store_archive_ok ?ar" and inv: "store_holds_with c (flush_known (ow_phase w)) (ow_file w) (ow_state w) [] (answers es) rs lost"
    using store_lives_holds [OF assms(1)] assms(2,3) by (metis append_Nil2)
  note h = store_holdsD [OF inv]
  have "all_well (flush_known (ow_phase w)) [] (answers es)" using assms(4) by (auto simp: all_well_def answers_published)
  then have rs: "lost = []" "rs = acknowledged c (answers es)" using h(7,8) by simp_all
  obtain body tail where f: "chain (stored_frame ?ar) (store_genesis ?ar) rs = Some (body, tail)" "?d = \<lparr>dk_bytes = store_header @ body, dk_fault = None\<rparr>"
      "length (store_header @ body) \<le> max_store_bytes" "si_committed (ow_state w) = length (store_header @ body)" "si_tail (ow_state w) = tail"
      "sf_pos (ow_file w) = length (store_header @ body)"
    using h(1) rs(1) unfolding file_holds_def by auto
  note i = index_holdsD [OF h(2)]
  have "filter (\<lambda>e. e \<notin> set (acknowledged c (answers es))) (rs @ lost) = []" by (simp add: rs)
  then have "si_staged (ow_state w) = (\<lambda>_. None)" using i(4) by simp
  then have index: "ow_state w = index_of ?ar rs (length (store_header @ body)) tail"
    using i(1,2) f(4,5) rs(2) by (simp add: index_of_def)
  have "{s. step_at (si_runs (ow_state w)) s \<noteq> None} = set (map step_of rs)"
    unfolding i(1) rs(2) [symmetric] by (auto simp: step_at_known)
  then have card: "card {s. step_at (si_runs (ow_state w)) s \<noteq> None} = length rs"
    using i(3) rs(1) distinct_card [of "map step_of rs"] by simp
  have small: "length (dk_bytes ?d) \<le> u64_max" using f(2,3) store_bytes_limit(1) by simp
  show ?thesis
  proof (cases "length rs \<le> max_records_per_run")
    case True
    have "(ow_file w)\<lparr>sf_kept := length (dk_bytes ?d)\<rparr> = \<lparr>sf_disk = ?d, sf_pos = length (dk_bytes ?d), sf_kept = length (dk_bytes ?d)\<rparr>"
      using f(2,6) by (cases "ow_file w") simp
    then show ?thesis using store_open_whole [OF ok _ small f(1) _ True, of dev'] f(2) index card True by simp
  next
    case False
    then show ?thesis using store_open_over [OF ok _ small f(1), of "[]" dev'] f(2) card by simp
  qed
qed

text \<open>C4: The index is what was acknowledged: at every moment the runs a reader sees, and the count of undecided approvals, are the fold of the records the store was opened with and those it has acknowledged (one of them perhaps just about to be), in the order it acknowledged them, and of nothing else.\<close>

theorem run_store_index_refines:
  assumes "store_lives c dev d w es"
  shows "si_runs (ow_state w) = runs_of (acknowledged c (answers es @ answer_due (ow_phase w))) \<and>
    si_pending (ow_state w) = pending_of (li_archive c) (acknowledged c (answers es @ answer_due (ow_phase w)))"
  by (rule store_lives_holds [OF assms]) (use index_holdsD [OF store_holdsD(2)] in blast)

text \<open>C2: A step has one value: when one request for a step was answered Recorded, every other request for that step that is answered without an error is told AlreadyRecorded when it asks to record the same value, and Conflicting when it asks for another.\<close>

theorem run_store_one_value:
  assumes "store_lives c dev d w es" and "Published r (Inr Recorded) \<in> set es" and "Published r' (Inr a) \<in> set es" and "r \<noteq> r'"
    and "step_of (asked c r') = step_of (asked c r)"
  shows "a = (if so_value (asked c r) = so_value (asked c r') then AlreadyRecorded else Conflicting)"
proof -
  obtain rs lost where inv: "store_holds_with c (flush_known (ow_phase w)) (ow_file w) (ow_state w) (batch_left (ow_phase w)) (answers es @ answer_due (ow_phase w)) rs lost"
    using store_lives_holds [OF assms(1)] by blast
  note h = store_holdsD [OF inv]
  have distinct: "distinct (map step_of (rs @ lost))" by (rule index_holdsD(3) [OF h(2)])
  have written: "asked c r \<in> set (rs @ lost)"
    using acknowledged_published [OF assms(2), of c] answers_acknowledged [of c es] acked_written [OF inv] by blast
  have "a \<noteq> Recorded"
  proof
    assume "a = Recorded"
    let ?xs = "filter (\<lambda>(_, answer). answer = Inr Recorded) (answers es)"
    have "(r, Inr Recorded) \<in> set ?xs" "(r', Inr Recorded) \<in> set ?xs" using assms(2,3) \<open>a = Recorded\<close> by (auto simp: answers_published)
    moreover have "distinct (map step_of rs)" using distinct by simp
    then have "distinct (map step_of (acknowledged c (answers es @ answer_due (ow_phase w)) @ unsynced c (batch_left (ow_phase w))))"
      using h(3) by (metis subseq_conv_nths distinct_nthsI nths_map)
    then have "distinct (map (\<lambda>x. step_of (asked c (fst x))) ?xs)" by (simp add: acknowledged_def case_prod_beta o_def)
    then have "inj_on (\<lambda>x. step_of (asked c (fst x))) (set ?xs)" unfolding distinct_map by blast
    ultimately have "(r, Inr Recorded :: store_answer) = (r', Inr Recorded)" using assms(5) by (intro inj_onD [of "\<lambda>x. step_of (asked c (fst x))" "set ?xs"]) simp_all
    then show False using assms(4) by simp
  qed
  then obtain e where e: "e \<in> set (rs @ lost)" "step_of e = step_of (asked c r')" "a = same_value (asked c r') (so_value e)"
    using h(6) [of r' a] assms(3) by (auto simp: same_step_def answers_published)
  then have "e = asked c r" using distinct written assms(5) by (auto simp: distinct_map dest: inj_onD)
  then show ?thesis using e(3) by (simp add: same_value_def)
qed

section \<open>A small run\<close>

text \<open>
  The requests \<open>0\<close> and \<open>1\<close> are for one step, \<open>2\<close> is for another of the same run, under another tenant. The device's
  flush answers \<open>flush\<close>, and the archive knows these two records.
\<close>

definition step_one :: stored where
  "step_one = \<lparr>so_run = 1, so_key = [7], so_tenant = [97], so_path = [], so_definition = \<lparr>sd_name = [], sd_revision = 0, sd_input = [], sd_steps = 0, sd_codec = []\<rparr>, so_value = [5]\<rparr>"

definition step_two :: stored where
  "step_two = step_one\<lparr>so_key := [8], so_tenant := [98], so_value := [6]\<rparr>"

definition demo_archive :: store_archive where
  "demo_archive = \<lparr>sa_hash = (\<lambda>_. replicate 32 0), sa_to = (\<lambda>r. if r = step_one then Some [1] else if r = step_two then Some [2] else None),
     sa_from = (\<lambda>bs. if bs = [1] then Some step_one else if bs = [2] then Some step_two else None), sa_approval = (\<lambda>_. None)\<rparr>"

definition demo_life :: "error_kind option \<Rightarrow> store_life" where
  "demo_life flush = \<lparr>li_archive = demo_archive, li_before = [], li_requests = (\<lambda>r. if r = 2 then \<lparr>st_record = step_two, st_key = [8]\<rparr> else \<lparr>st_record = step_one, st_key = [7]\<rparr>),
     li_device = (\<lambda>_. \<lparr>sv_metadata = True, sv_wrote = None\<rparr>), li_sync = (\<lambda>_. flush)\<rparr>"

definition demo_device :: device where "demo_device = \<lparr>dv_header = True, dv_trim = True, dv_wrote = None\<rparr>"

definition demo_disk :: disk where "demo_disk = \<lparr>dk_bytes = [], dk_fault = None\<rparr>"

lemma steps_differ: "step_two \<noteq> step_one" "step_one \<noteq> step_two"
  by (simp_all add: step_one_def step_two_def)

lemma step_fields [simp]:
  "so_run step_one = 1" "so_key step_one = [7]" "so_tenant step_one = [97]" "so_value step_one = [5]"
  "so_run step_two = 1" "so_key step_two = [8]" "so_tenant step_two = [98]" "so_value step_two = [6]"
  by (simp_all add: step_one_def step_two_def)

lemma demo_keys: "hex_encode [7] = [48, 55]" "hex_encode [8] = [48, 56]"
  by (simp_all add: hex_lower_def drop_bit_Suc)

lemma step_keys [simp]: "step_of step_one = (1, [48, 55])" "step_of step_two = (1, [48, 56])"
  by (simp_all only: step_of_def step_fields demo_keys)

lemma demo_archive_ok: "store_archive_ok demo_archive"
  by (auto simp: store_archive_ok_def demo_archive_def head_bytes_def steps_differ split: if_splits)

lemma demo_life_ok: "life_ok (demo_life flush)"
  using demo_archive_ok by (simp add: life_ok_def demo_life_def)

lemma demo_file: "store_file_of demo_archive demo_disk []"
  by (simp add: store_file_of_def demo_disk_def max_store_bytes_def max_records_per_run_def)

abbreviation demo_head :: bytes where "demo_head \<equiv> replicate 32 0"

definition demo_start :: store_file where
  "demo_start = \<lparr>sf_disk = \<lparr>dk_bytes = store_header, dk_fault = None\<rparr>, sf_pos = 16, sf_kept = 16\<rparr>"

lemma demo_open: "store_open demo_archive demo_device demo_disk = Inr (demo_start, index_of demo_archive [] 16 demo_head)"
proof -
  have "store_open demo_archive demo_device demo_disk = store_open demo_archive demo_device \<lparr>dk_bytes = store_header, dk_fault = None\<rparr>"
    by (simp add: store_open_def demo_device_def demo_disk_def)
  then show ?thesis
    using store_open_whole [OF demo_archive_ok, of "\<lparr>dk_bytes = store_header, dk_fault = None\<rparr>" "[]" "[]" "store_genesis demo_archive" demo_device]
    by (simp add: demo_start_def u64_max_def store_genesis_def demo_archive_def max_records_per_run_def)
qed

definition demo_frame :: "u8 \<Rightarrow> bytes" where "demo_frame b = encode_frame 1 [b] demo_head"

lemma demo_frame_length [simp]: "length (demo_frame b) = 37"
  by (simp add: demo_frame_def head_bytes_def)

lemma demo_frames:
  "stored_frame demo_archive step_one previous = Inr (demo_frame 1, demo_head)"
  "stored_frame demo_archive step_two previous = Inr (demo_frame 2, demo_head)"
  by (simp_all add: stored_frame_def frame_record_def demo_archive_def writable_length_def is_possible_length_def max_record_bytes_def u32_max_def
      stored_head_def demo_frame_def steps_differ Let_def)

definition demo_written :: store_file where
  "demo_written = \<lparr>sf_disk = \<lparr>dk_bytes = store_header @ demo_frame 1, dk_fault = None\<rparr>, sf_pos = 53, sf_kept = 16\<rparr>"

definition demo_index :: store_index where
  "demo_index = (index_of demo_archive [] 53 demo_head)\<lparr>si_staged := [step_of step_one \<mapsto> [5]]\<rparr>"

lemma demo_first:
  "life_job (demo_life flush) 0 demo_start (index_of demo_archive [] 16 demo_head) =
     (Inr (Unsynced Recorded 37 (settle_record demo_archive step_one)), demo_written, demo_index)"
  by (simp add: life_job_def decide_and_write_def write_staged_def demo_life_def demo_frames index_of_def demo_start_def Let_def max_store_bytes_def u64_max_def
      file_write_all_def file_write_def write_at_def demo_written_def demo_index_def demo_keys del: hex_encode.simps)

lemma demo_second:
  "life_job (demo_life flush) (Suc 0) demo_written demo_index = (Inr (Settled (Inr AlreadyRecorded)), demo_written, demo_index)"
  by (simp add: life_job_def decide_and_write_def write_staged_def demo_life_def index_of_def demo_index_def demo_keys same_value_def Let_def del: hex_encode.simps)

definition demo_queued :: "error_kind option \<Rightarrow> (store_file, store_index, appended, store_error) owner" where
  "demo_queued flush = \<lparr>ow_slot = slot_new\<lparr>sl_pending := [0, Suc 0]\<rparr>, ow_stalled = False,
     ow_requests = (\<lambda>_. request_new)(0 := request_new\<lparr>rq_job := Some (life_job (demo_life flush) 0)\<rparr>,
       Suc 0 := request_new\<lparr>rq_job := Some (life_job (demo_life flush) (Suc 0))\<rparr>),
     ow_file = demo_start, ow_state = index_of demo_archive [] 16 demo_head, ow_phase = Promoting\<rparr>"

lemma demo_queued_reach:
  "owner_reach (life_sync (demo_life flush)) (life_job (demo_life flush)) demo_start (index_of demo_archive [] 16 demo_head) (demo_queued flush) [InRing 0, InRing (Suc 0)]"
proof -
  let ?reach = "owner_reach (life_sync (demo_life flush)) (life_job (demo_life flush)) demo_start (index_of demo_archive [] 16 demo_head)"
  let ?w0 = "owner_spawn demo_start (index_of demo_archive [] 16 demo_head) False"
  let ?w1 = "(request_arm 0 (life_job (demo_life flush) 0) ?w0)\<lparr>ow_slot := slot_new\<lparr>sl_pending := [0]\<rparr>\<rparr>"
  have enq: "owner_enqueue 0 (life_job (demo_life flush) 0) ?w0 = (Inr (), ?w1, [InRing 0])"
    "owner_enqueue (Suc 0) (life_job (demo_life flush) (Suc 0)) ?w1 = (Inr (), demo_queued flush, [InRing (Suc 0)])"
    by (simp_all add: owner_enqueue_def slot_admission_def owner_spawn_def slot_new_def default_queue_depth_def request_arm_def demo_queued_def)
  have "?reach ?w1 ([] @ [InRing 0])"
    by (rule owner_reach.enqueue [where job_of = "life_job (demo_life flush)", OF owner_reach.spawn [where stalled = False] _ _ _ enq(1)]) (simp_all add: owner_spawn_def slot_new_def)
  then have "?reach (demo_queued flush) (([] @ [InRing 0]) @ [InRing (Suc 0)])"
    by (rule owner_reach.enqueue [where job_of = "life_job (demo_life flush)", OF _ _ _ _ enq(2)]) (simp_all add: owner_spawn_def slot_new_def request_arm_def)
  then show ?thesis by simp
qed

definition demo_folded :: store_index where
  "demo_folded = settle_record demo_archive step_one demo_index"

lemma demo_written_fields [simp]: "sf_disk demo_written = \<lparr>dk_bytes = store_header @ demo_frame 1, dk_fault = None\<rparr>" "sf_kept demo_written = 16"
  by (simp_all add: demo_written_def)

lemma demo_life_sync: "li_sync (demo_life flush) = (\<lambda>_. flush)"
  by (simp add: demo_life_def)

lemma demo_turns:
  "\<exists>w. owner_turns (life_sync (demo_life flush)) (Suc (Suc (Suc (Suc (Suc (Suc (Suc (Suc (Suc 0))))))))) (demo_queued flush) =
     (w, [Ran 0 (Unsynced Recorded 37 (settle_record demo_archive step_one)), Ran (Suc 0) (Settled (Inr AlreadyRecorded)), Synced flush] @
        (case flush of
           None \<Rightarrow> [Folded 0, Published 0 (Inr Recorded), Published (Suc 0) (Inr AlreadyRecorded)]
         | Some kind \<Rightarrow> [Latched, Published 0 (Inl (BatchFlushFailed kind)), Latched, Published (Suc 0) (Inr AlreadyRecorded)])) \<and>
     batch_left (ow_phase w) = [] \<and> answer_due (ow_phase w) = [] \<and> ow_state w = (if flush = None then demo_folded else demo_index) \<and>
     ow_file w = (if flush = None then demo_written\<lparr>sf_kept := 53\<rparr> else demo_written)"
proof (cases flush)
  case None
  then show ?thesis
    by (simp add: demo_queued_def turn_defs demo_first demo_second life_sync_def file_sync_def demo_life_sync demo_folded_def)
next
  case (Some kind)
  then show ?thesis
    by (simp add: demo_queued_def turn_defs demo_first demo_second life_sync_def file_sync_def demo_life_sync)
qed

definition demo_events :: "error_kind option \<Rightarrow> (appended, store_index, store_error) event list" where
  "demo_events flush =
     [InRing 0, InRing (Suc 0), Ran 0 (Unsynced Recorded 37 (settle_record demo_archive step_one)), Ran (Suc 0) (Settled (Inr AlreadyRecorded)), Synced flush] @
       (case flush of
          None \<Rightarrow> [Folded 0, Published 0 (Inr Recorded), Published (Suc 0) (Inr AlreadyRecorded)]
        | Some kind \<Rightarrow> [Latched, Published 0 (Inl (BatchFlushFailed kind)), Latched, Published (Suc 0) (Inr AlreadyRecorded)])"

lemma demo_lives:
  obtains w where "store_lives (demo_life flush) demo_device demo_disk w (demo_events flush)" "batch_left (ow_phase w) = []" "answer_due (ow_phase w) = []"
    "ow_state w = (if flush = None then demo_folded else demo_index)" "ow_file w = (if flush = None then demo_written\<lparr>sf_kept := 53\<rparr> else demo_written)"
proof -
  obtain w new where w: "owner_turns (life_sync (demo_life flush)) (Suc (Suc (Suc (Suc (Suc (Suc (Suc (Suc (Suc 0))))))))) (demo_queued flush) = (w, new)"
      "[InRing 0, InRing (Suc 0)] @ new = demo_events flush" "batch_left (ow_phase w) = []" "answer_due (ow_phase w) = []"
      "ow_state w = (if flush = None then demo_folded else demo_index)" "ow_file w = (if flush = None then demo_written\<lparr>sf_kept := 53\<rparr> else demo_written)"
    using demo_turns [of flush] by (auto simp: demo_events_def split: option.splits)
  have "owner_reach (life_sync (demo_life flush)) (life_job (demo_life flush)) demo_start (index_of demo_archive [] 16 demo_head) w (demo_events flush)"
    using owner_turns_reach [OF demo_queued_reach w(1)] w(2) by simp
  then have "store_lives (demo_life flush) demo_device demo_disk w (demo_events flush)"
    unfolding store_lives_def using demo_life_ok demo_open demo_file by (auto simp: demo_life_def)
  then show thesis using w(3-6) by (rule that)
qed

lemma demo_life_fields [simp]:
  "li_archive (demo_life flush) = demo_archive" "li_before (demo_life flush) = []"
  "asked (demo_life flush) 0 = step_one" "asked (demo_life flush) (Suc 0) = step_one"
  by (simp_all add: demo_life_def)

lemma demo_folded_runs: "si_runs demo_folded = runs_of [step_one]"
  using runs_of_simps(2) [of "[]" step_one] by (simp add: demo_folded_def settle_record_def demo_index_def index_of_def)

lemma held_one: "held_of step_one = \<lparr>hd_path = [], hd_bytes = [5]\<rparr>"
  by (simp add: held_of_def step_one_def)

lemma demo_answers: "answers (demo_events None) = [(0, Inr Recorded), (Suc 0, Inr AlreadyRecorded)]"
  by (simp add: demo_events_def)

theorem run_store_durable_witness:
  "\<exists>survived b tail k framed. opens_exactly demo_archive demo_device \<lparr>dk_bytes = store_header @ demo_frame 1, dk_fault = None\<rparr> survived b tail k framed \<and>
    step_one \<in> set survived"
proof (rule demo_lives [of None])
  fix w
  assume w: "store_lives (demo_life None) demo_device demo_disk w (demo_events None)"
    "ow_file w = (if None = None then demo_written\<lparr>sf_kept := 53\<rparr> else demo_written)"
  let ?crashed = "\<lparr>dk_bytes = store_header @ demo_frame 1, dk_fault = None\<rparr>"
  have published: "Published 0 (Inr Recorded) \<in> set (demo_events None)" by (simp add: demo_events_def)
  have "\<exists>survived b tail k framed. opens_exactly (li_archive (demo_life None)) demo_device ?crashed survived b tail k framed \<and>
    set (li_before (demo_life None)) \<subseteq> set survived \<and> (\<forall>r. Published r (Inr Recorded) \<in> set (demo_events None) \<longrightarrow> asked (demo_life None) r \<in> set survived) \<and>
    (\<forall>f' index'. store_open (li_archive (demo_life None)) demo_device ?crashed = Inr (f', index') \<longrightarrow>
       si_runs index' = runs_of survived \<and> (\<forall>e \<in> set survived. step_at (si_runs index') (step_of e) = Some (held_of e)))"
    by (rule run_store_durable [OF w(1), of 53]) (simp_all add: w(2))
  then show ?thesis using published by fastforce
qed

theorem trimmed_tail_loses_records_witness:
  "\<exists>f index f' index' settle. store_open demo_archive demo_device \<lparr>dk_bytes = store_header @ [] @ take 3 (demo_frame 1), dk_fault = None\<rparr> = Inr (f, index) \<and>
    write_staged demo_archive \<lparr>sv_metadata = True, sv_wrote = None\<rparr> step_one (hex_encode (so_key step_one)) 0 f index =
      (Inr (Unsynced Recorded 37 settle), f', index') \<and>
    store_open demo_archive demo_device (sf_disk f') = Inl (StoreCorrupt 0)"
proof -
  let ?d = "\<lparr>dk_bytes = store_header @ [] @ take 3 (demo_frame 1), dk_fault = None\<rparr>"
  let ?f = "\<lparr>sf_disk = \<lparr>dk_bytes = store_header, dk_fault = None\<rparr>, sf_pos = 19, sf_kept = 16\<rparr>"
  let ?index = "index_of demo_archive [] 16 (store_genesis demo_archive)"
  have opened: "store_open demo_archive demo_device ?d = Inr (?f, ?index)"
    using store_open_torn [OF demo_archive_ok _ _ _ demo_frames(1), of ?d "[]" "[]" "store_genesis demo_archive" 3 demo_device]
    by (simp add: store_cut_lies_def length_bytes_def demo_device_def u64_max_def max_records_per_run_def)
  obtain f' index' settle where written: "write_staged demo_archive \<lparr>sv_metadata = True, sv_wrote = None\<rparr> step_one (hex_encode (so_key step_one)) 0 ?f ?index =
      (Inr (Unsynced Recorded 37 settle), f', index')"
    by (simp add: write_staged_def demo_frames index_of_def Let_def max_store_bytes_def u64_max_def file_write_all_def)
  have "store_open demo_archive demo_device (sf_disk f') = Inl (StoreCorrupt (length ([] :: stored list)))"
    by (rule trimmed_tail_loses_records [OF demo_archive_ok _ demo_frames(1) _ _ _ _ opened written])
      (simp_all add: max_store_bytes_def max_records_per_run_def)
  then show ?thesis using opened written by auto
qed

theorem run_store_reopens_same_witness:
  "store_open demo_archive demo_device \<lparr>dk_bytes = store_header @ demo_frame 1, dk_fault = None\<rparr> = Inr (demo_written\<lparr>sf_kept := 53\<rparr>, demo_folded)"
proof (rule demo_lives [of None])
  fix w
  assume w: "store_lives (demo_life None) demo_device demo_disk w (demo_events None)" "batch_left (ow_phase w) = []" "answer_due (ow_phase w) = []"
    "ow_state w = (if None = None then demo_folded else demo_index)" "ow_file w = (if None = None then demo_written\<lparr>sf_kept := 53\<rparr> else demo_written)"
  have "Published r answer \<in> set (demo_events None) \<Longrightarrow> is_ok answer" for r answer by (auto simp: demo_events_def)
  note same = run_store_reopens_same [OF w(1-3) this, where dev' = demo_device]
  have "{s. step_at (si_runs demo_folded) s \<noteq> None} = {step_of step_one}" by (auto simp: demo_folded_runs step_at_known)
  then show ?thesis using same w(4,5) by (simp add: max_records_per_run_def)
qed

theorem run_store_index_refines_witness:
  "\<exists>w. store_lives (demo_life None) demo_device demo_disk w (demo_events None) \<and> si_runs (ow_state w) = runs_of [step_one] \<and> si_pending (ow_state w) = pending_of demo_archive [step_one]"
proof (rule demo_lives [of None])
  fix w
  assume w: "store_lives (demo_life None) demo_device demo_disk w (demo_events None)" "answer_due (ow_phase w) = []"
  have "acknowledged (demo_life None) (answers (demo_events None)) = [step_one]" by (simp add: acknowledged_def demo_answers)
  then show ?thesis using run_store_index_refines [OF w(1)] w by auto
qed

theorem run_store_one_value_witness:
  "Published (Suc 0) (Inr AlreadyRecorded) \<in> set (demo_events None) \<and>
    AlreadyRecorded = (if so_value (asked (demo_life None) 0) = so_value (asked (demo_life None) (Suc 0)) then AlreadyRecorded else Conflicting)"
proof (rule demo_lives [of None])
  fix w
  assume w: "store_lives (demo_life None) demo_device demo_disk w (demo_events None)"
  have e: "Published 0 (Inr Recorded) \<in> set (demo_events None)" "Published (Suc 0) (Inr AlreadyRecorded) \<in> set (demo_events None)"
    by (simp_all add: demo_events_def)
  show ?thesis using run_store_one_value [OF w e] e(2) by simp
qed

text \<open>AlreadyRecorded does not mean durable: on a device whose flush fails, of two requests for one step in one batch the first is told that the flush failed and the second is answered AlreadyRecorded, and the file that a crash leaves reopens as an empty store.\<close>

theorem already_recorded_lost:
  "\<exists>w. store_lives (demo_life (Some kind)) demo_device demo_disk w (demo_events (Some kind)) \<and>
     Published 0 (Inl (BatchFlushFailed kind)) \<in> set (demo_events (Some kind)) \<and> Published (Suc 0) (Inr AlreadyRecorded) \<in> set (demo_events (Some kind)) \<and>
     store_open demo_archive demo_device \<lparr>dk_bytes = take (sf_kept (ow_file w)) (dk_bytes (sf_disk (ow_file w))), dk_fault = None\<rparr> =
       Inr (demo_start, index_of demo_archive [] 16 demo_head)"
proof (rule demo_lives [of "Some kind"])
  fix w
  assume w: "store_lives (demo_life (Some kind)) demo_device demo_disk w (demo_events (Some kind))"
    "ow_file w = (if Some kind = None then demo_written\<lparr>sf_kept := 53\<rparr> else demo_written)"
  have "store_open demo_archive demo_device demo_disk = store_open demo_archive demo_device \<lparr>dk_bytes = store_header, dk_fault = None\<rparr>"
    by (simp add: store_open_def demo_device_def demo_disk_def)
  then show ?thesis using w demo_open by (auto simp: demo_events_def)
qed

text \<open>A record of another tenant, in the batch that first records the run: it is written, and the run's own tenant reads it.\<close>

lemma batch_mixes_tenants:
  "\<exists>file' index'. life_job (demo_life flush) 2 demo_written demo_index = (Inr (Unsynced Recorded 37 (settle_record demo_archive step_two)), file', index') \<and>
     store_lookup [97] 1 [8] (settle_record demo_archive step_two (settle_record demo_archive step_one index')) = Inr (Some \<lparr>hd_path = [], hd_bytes = [6]\<rparr>)"
proof -
  have job: "\<exists>file' index'. life_job (demo_life flush) 2 demo_written demo_index = (Inr (Unsynced Recorded 37 (settle_record demo_archive step_two)), file', index') \<and>
      si_runs index' = (\<lambda>_. None)"
    by (simp add: life_job_def decide_and_write_def write_staged_def demo_life_def demo_frames index_of_def demo_index_def Let_def max_store_bytes_def u64_max_def
        file_write_all_def demo_keys del: hex_encode.simps)
  have "store_lookup [97] 1 [8] (settle_record demo_archive step_two (settle_record demo_archive step_one index')) = Inr (Some \<lparr>hd_path = [], hd_bytes = [6]\<rparr>)"
    if "si_runs index' = (\<lambda>_. None)" for index'
    using that by (simp add: store_lookup_def settle_record_def insert_step_def demo_keys del: hex_encode.simps) (simp add: step_two_def step_one_def)
  then show ?thesis using job by blast
qed

text \<open>The name of a task is not among what drift compares.\<close>

lemma drift_ignores_name: "drift_from (d\<lparr>di_name := name\<rparr>) d = None"
  by (simp add: drift_from_def)

end
