(* ===== verification/Cap_Token.thy ===== *)
theory Cap_Token
  imports Hex Int_Bytes "HOL-Library.Sublist"
begin

text \<open>
  \<open>crates/lgwks-bot/src/cap_token.rs\<close> and \<open>cap_token/policy.rs\<close>: bearer tokens whose caveats are chained by a
  keyed hash, their attenuation, verification and revocation, and the evaluator with its trace. The keyed hash and
  the plain hash (BLAKE3), the source of entropy and the JSON codec are dependencies and arguments here;
  comparing digests in constant time is comparing them. Texts are their UTF-8 bytes.
\<close>

section \<open>Requests and caveats\<close>

definition policy_version :: nat where "policy_version = 1"
definition max_caveats :: nat where "max_caveats = 16"
definition max_text_len :: nat where "max_text_len = 128"
definition max_token_bytes :: nat where "max_token_bytes = 4096"
definition max_revoked :: nat where "max_revoked = 1024"
definition max_trace :: nat where "max_trace = 8"

definition workload_action :: bytes where
  "workload_action = [119, 111, 114, 107, 108, 111, 97, 100, 46, 105, 110, 118, 111, 107, 101]"

datatype token_field = AudienceField | ActionField | ResourceField

datatype 'e token_error =
    EmptyCaveats
  | TooManyCaveats nat nat
  | TextTooLong token_field nat nat
  | BadText token_field
  | WidensAuthority
  | Tampered
  | TokenExpired duration duration
  | TokenRevoked
  | RevocationFull
  | TokenMalformed
  | TokenEntropy 'e

definition valid_text :: "bytes \<Rightarrow> token_field \<Rightarrow> 'e token_error + unit" where
  "valid_text txt field =
     (let len = length txt in
      if len = 0 \<or> len > max_text_len then Inl (TextTooLong field len max_text_len)
      else if \<not> list_all (\<lambda>byte. 0x21 \<le> byte \<and> byte \<le> 0x7E) txt then Inl (BadText field)
      else Inr ())"

definition valid_resource :: "bytes \<Rightarrow> 'e token_error + unit" where
  "valid_resource resource =
     rbind (valid_text resource ResourceField) (\<lambda>_.
       let rooted = prefix [0x2F] resource; no_empty = \<not> sublist [0x2F, 0x2F] resource;
           no_trailing = length resource = 1 \<or> \<not> suffix [0x2F] resource in
       if rooted \<and> no_empty \<and> no_trailing then Inr () else Inl (BadText ResourceField))"

definition under_scope :: "bytes \<Rightarrow> bytes \<Rightarrow> bool" where
  "under_scope candidate scope \<longleftrightarrow>
     (if candidate = scope then True
      else if scope = [0x2F] then prefix [0x2F] candidate
      else length candidate > length scope \<and> prefix scope candidate \<and> candidate ! length scope = 0x2F)"

record access_request =
  ac_audience :: bytes
  ac_action :: bytes
  ac_resource :: bytes

definition request_checked :: "bytes \<Rightarrow> bytes \<Rightarrow> bytes \<Rightarrow> 'e token_error + access_request" where
  "request_checked audience action resource =
     rbind (valid_text audience AudienceField) (\<lambda>_.
       rbind (valid_text action ActionField) (\<lambda>_.
         rbind (valid_resource resource) (\<lambda>_.
           Inr \<lparr>ac_audience = audience, ac_action = action, ac_resource = resource\<rparr>)))"

record caveat =
  cv_request :: access_request
  cv_expires :: duration

definition caveat_new :: "bytes \<Rightarrow> bytes \<Rightarrow> bytes \<Rightarrow> duration \<Rightarrow> 'e token_error + caveat" where
  "caveat_new audience action resource expires =
     rbind (request_checked audience action resource) (\<lambda>request. Inr \<lparr>cv_request = request, cv_expires = expires\<rparr>)"

abbreviation "cv_audience c \<equiv> ac_audience (cv_request c)"
abbreviation "cv_action c \<equiv> ac_action (cv_request c)"
abbreviation "cv_resource c \<equiv> ac_resource (cv_request c)"

text \<open>The length of a text always fits the \<open>u64\<close>, so this never fails.\<close>

definition canonical_caveat :: "caveat \<Rightarrow> bytes" where
  "canonical_caveat c =
     concat (map (\<lambda>part. le_bytes 8 (length part) @ part) [cv_audience c, cv_action c, cv_resource c]) @
     le_bytes 8 (cv_expires c div 1000000000) @ le_bytes 4 (cv_expires c mod 1000000000)"

definition fold_step :: "(bytes \<Rightarrow> bytes \<Rightarrow> bytes) \<Rightarrow> bytes \<Rightarrow> caveat \<Rightarrow> bytes" where
  "fold_step keyed key c = keyed key (canonical_caveat c)"

definition chain_over :: "(bytes \<Rightarrow> bytes \<Rightarrow> bytes) \<Rightarrow> bytes \<Rightarrow> bytes \<Rightarrow> caveat list \<Rightarrow> bytes" where
  "chain_over keyed root ident caveats = foldl (fold_step keyed) (keyed root ident) caveats"

section \<open>Tokens\<close>

record bearer_token =
  bt_id :: bytes
  bt_caveats :: "caveat list"
  bt_tag :: bytes

fun check_each :: "caveat list \<Rightarrow> 'e token_error + unit" where
  "check_each [] = Inr ()"
| "check_each (c # cs) = rbind (caveat_new (cv_audience c) (cv_action c) (cv_resource c) (cv_expires c)) (\<lambda>_. check_each cs)"

definition token_check :: "caveat list \<Rightarrow> 'e token_error + unit" where
  "token_check caveats =
     (if caveats = [] then Inl EmptyCaveats
      else if length caveats > max_caveats then Inl (TooManyCaveats (length caveats) max_caveats)
      else check_each caveats)"

definition narrows :: "caveat \<Rightarrow> caveat \<Rightarrow> bool" where
  "narrows grant c \<longleftrightarrow> cv_audience c = cv_audience grant \<and> cv_action c = cv_action grant \<and>
     under_scope (cv_resource c) (cv_resource grant) \<and> cv_expires c \<le> cv_expires grant"

fun attenuate_each :: "caveat \<Rightarrow> caveat list \<Rightarrow> 'e token_error + unit" where
  "attenuate_each grant [] = Inr ()"
| "attenuate_each grant (c # cs) =
     rbind (caveat_new (cv_audience c) (cv_action c) (cv_resource c) (cv_expires c)) (\<lambda>_.
       if \<not> narrows grant c then Inl WidensAuthority else attenuate_each grant cs)"

definition attenuate :: "(bytes \<Rightarrow> bytes \<Rightarrow> bytes) \<Rightarrow> bearer_token \<Rightarrow> caveat list \<Rightarrow> 'e token_error + bearer_token" where
  "attenuate keyed token extra =
     (if extra = [] then Inl EmptyCaveats
      else
        let total = sat_add_usize (length (bt_caveats token)) (length extra) in
        if total > max_caveats then Inl (TooManyCaveats total max_caveats)
        else
          (case bt_caveats token of
             [] \<Rightarrow> Inl EmptyCaveats
           | grant # _ \<Rightarrow>
               rbind (attenuate_each grant extra) (\<lambda>_.
                 Inr \<lparr>bt_id = bt_id token, bt_caveats = bt_caveats token @ extra, bt_tag = foldl (fold_step keyed) (bt_tag token) extra\<rparr>)))"

definition token_to_bytes :: "(bearer_token \<Rightarrow> bytes option) \<Rightarrow> bearer_token \<Rightarrow> 'e token_error + bytes" where
  "token_to_bytes to_vec token = (case to_vec token of Some bytes \<Rightarrow> Inr bytes | None \<Rightarrow> Inl TokenMalformed)"

definition token_from_bytes :: "(bytes \<Rightarrow> bearer_token option) \<Rightarrow> bytes \<Rightarrow> 'e token_error + bearer_token" where
  "token_from_bytes from_slice bytes =
     (if length bytes > max_token_bytes then Inl TokenMalformed
      else
        (case from_slice bytes of
           None \<Rightarrow> Inl TokenMalformed
         | Some token \<Rightarrow> rbind (token_check (bt_caveats token)) (\<lambda>_. Inr token)))"

text \<open>\<open>drawn\<close> is what the entropy source answers.\<close>

definition authority_generate :: "'e + bytes \<Rightarrow> 'e token_error + bytes" where
  "authority_generate drawn = (case drawn of Inr root \<Rightarrow> Inr root | Inl cause \<Rightarrow> Inl (TokenEntropy cause))"

definition mint :: "(bytes \<Rightarrow> bytes \<Rightarrow> bytes) \<Rightarrow> bytes \<Rightarrow> bytes \<Rightarrow> bytes \<Rightarrow> bytes \<Rightarrow> duration \<Rightarrow> duration \<Rightarrow> 'e + bytes \<Rightarrow> 'e token_error + bearer_token" where
  "mint keyed root audience action resource ttl now drawn =
     rbind (caveat_new audience action resource (dur_add now ttl)) (\<lambda>c.
       case drawn of
         Inl cause \<Rightarrow> Inl (TokenEntropy cause)
       | Inr ident \<Rightarrow> Inr \<lparr>bt_id = ident, bt_caveats = [c], bt_tag = chain_over keyed root ident [c]\<rparr>)"

definition issue_workload :: "(bytes \<Rightarrow> bytes \<Rightarrow> bytes) \<Rightarrow> bytes \<Rightarrow> bytes \<Rightarrow> bytes \<Rightarrow> duration \<Rightarrow> duration \<Rightarrow> 'e + bytes \<Rightarrow> 'e token_error + bearer_token" where
  "issue_workload keyed root audience resource ttl now drawn = mint keyed root audience workload_action resource ttl now drawn"

section \<open>Revocation and verification\<close>

type_synonym revocation_list = "bytes list"

definition revoke_id :: "bytes \<Rightarrow> revocation_list \<Rightarrow> ('e token_error + unit) \<times> revocation_list" where
  "revoke_id ident ids =
     (if list_ex (\<lambda>held. held = ident) ids then (Inr (), ids)
      else if length ids \<ge> max_revoked then (Inl RevocationFull, ids)
      else (Inr (), ids @ [ident]))"

definition revoked :: "bytes \<Rightarrow> revocation_list \<Rightarrow> bool" where
  "revoked ident ids = list_ex (\<lambda>held. held = ident) ids"

fun first_lapsed :: "duration \<Rightarrow> caveat list \<Rightarrow> duration option" where
  "first_lapsed now [] = None"
| "first_lapsed now (c # cs) = (if now \<ge> cv_expires c then Some (cv_expires c) else first_lapsed now cs)"

definition token_verify :: "(bytes \<Rightarrow> bytes \<Rightarrow> bytes) \<Rightarrow> bytes \<Rightarrow> bearer_token \<Rightarrow> revocation_list \<Rightarrow> duration \<Rightarrow> 'e token_error + unit" where
  "token_verify keyed root token ids now =
     rbind (token_check (bt_caveats token)) (\<lambda>_.
       if chain_over keyed root (bt_id token) (bt_caveats token) \<noteq> bt_tag token then Inl Tampered
       else
         (case first_lapsed now (bt_caveats token) of
            Some expired_at \<Rightarrow> Inl (TokenExpired expired_at now)
          | None \<Rightarrow> if revoked (bt_id token) ids then Inl TokenRevoked else Inr ()))"

section \<open>Deciding\<close>

datatype trace_rule = SignatureRule | ExpiryRule | RevocationRule | AudienceRule | ActionRule | ResourceRule

fun rule_text :: "trace_rule \<Rightarrow> bytes" where
  "rule_text SignatureRule = [115, 105, 103, 110, 97, 116, 117, 114, 101]"
| "rule_text ExpiryRule = [101, 120, 112, 105, 114, 121]"
| "rule_text RevocationRule = [114, 101, 118, 111, 99, 97, 116, 105, 111, 110]"
| "rule_text AudienceRule = [97, 117, 100, 105, 101, 110, 99, 101]"
| "rule_text ActionRule = [97, 99, 116, 105, 111, 110]"
| "rule_text ResourceRule = [114, 101, 115, 111, 117, 114, 99, 101]"

record trace_step =
  tr_rule :: trace_rule
  tr_version :: nat
  tr_inputs :: bytes

record policy_decision =
  dc_allowed :: bool
  dc_trace :: "trace_step list"
  dc_inputs_hash :: bytes

definition trace_hash :: "(bytes \<Rightarrow> bytes) \<Rightarrow> policy_decision \<Rightarrow> bytes" where
  "trace_hash hash d = hash
     (write_framed [if dc_allowed d then 1 else 0] @
      concat (map (\<lambda>step. write_framed (rule_text (tr_rule step)) @ write_framed (le_bytes 4 (tr_version step)) @ write_framed (tr_inputs step)) (dc_trace d)))"

text \<open>The decimal text of a number.\<close>

fun decimal :: "nat \<Rightarrow> bytes" where
  "decimal n = (if n < 10 then [word_of_nat (48 + n)] else decimal (n div 10) @ [word_of_nat (48 + n mod 10)])"

declare decimal.simps [simp del]

text \<open>
  \<open>String::truncate\<close> panics when it would cut inside a character. The texts are UTF-8, so it does when
  the byte at the cut continues one. The whole text of a stamp is \<open>stamp_text\<close>; \<open>None\<close> is the panic.
\<close>

definition char_boundary :: "bytes \<Rightarrow> nat \<Rightarrow> bool" where
  "char_boundary txt i \<longleftrightarrow> i = 0 \<or> i = length txt \<or> i < length txt \<and> \<not> (0x80 \<le> txt ! i \<and> txt ! i < 0xC0)"

definition stamp_text :: "bytes \<Rightarrow> access_request \<Rightarrow> duration \<Rightarrow> bytes" where
  "stamp_text ident request now =
     [97, 117, 100, 61] @ ac_audience request @ [32, 97, 99, 116, 61] @ ac_action request @ [32, 114, 101, 115, 61] @ ac_resource request @
      [32, 110, 111, 119, 61] @ decimal now @ [32, 105, 100, 61] @ hex_encode (take 8 ident)"

definition request_stamp :: "bytes \<Rightarrow> access_request \<Rightarrow> duration \<Rightarrow> bytes option" where
  "request_stamp ident request now =
     (let detail = stamp_text ident request now in
      if length detail > max_text_len
      then (if char_boundary detail max_text_len then Some (take max_text_len detail) else None)
      else Some detail)"

definition push_step :: "trace_rule \<Rightarrow> bytes \<Rightarrow> trace_step list \<Rightarrow> trace_step list" where
  "push_step rule inputs trace =
     (if length trace < max_trace then trace @ [\<lparr>tr_rule = rule, tr_version = policy_version, tr_inputs = inputs\<rparr>] else trace)"

text \<open>
  The seal of a verdict. \<open>decode_policy_fields\<close> is asked about an empty map and a null value, which it always accepts, so
  the text \<open>dummy\<close> is always hashed.
\<close>

definition finish_decision :: "(bytes \<Rightarrow> bytes) \<Rightarrow> bool \<Rightarrow> trace_step list \<Rightarrow> bearer_token \<Rightarrow> access_request \<Rightarrow> duration \<Rightarrow> policy_decision" where
  "finish_decision hash allowed trace token request now =
     \<lparr>dc_allowed = allowed, dc_trace = trace, dc_inputs_hash = hash
        (write_framed (bt_id token) @ write_framed (ac_audience request) @ write_framed (ac_action request) @ write_framed (ac_resource request) @
         write_framed (le_bytes 16 now) @ write_framed [if allowed then 1 else 0] @ write_framed [100, 117, 109, 109, 121])\<rparr>"

definition covers_request :: "caveat \<Rightarrow> access_request \<Rightarrow> bool" where
  "covers_request c request \<longleftrightarrow>
     (cv_audience c = ac_audience request \<and> cv_action c = ac_action request) \<and> under_scope (ac_resource request) (cv_resource c)"

text \<open>\<open>None\<close>: the stamp of the first step panicked, so no decision is made.\<close>

definition policy_decide ::
  "(bytes \<Rightarrow> bytes \<Rightarrow> bytes) \<Rightarrow> (bytes \<Rightarrow> bytes) \<Rightarrow> bytes \<Rightarrow> bearer_token \<Rightarrow> access_request \<Rightarrow> revocation_list \<Rightarrow> duration \<Rightarrow>
   ('e token_error + policy_decision) option" where
  "(policy_decide keyed hash root token request ids now :: ('e token_error + policy_decision) option) =
     (case token_check (bt_caveats token) of
        Inl error \<Rightarrow> Some (Inl error)
      | Inr _ \<Rightarrow>
          let authentic = chain_over keyed root (bt_id token) (bt_caveats token) = bt_tag token in
          (case request_stamp (bt_id token) request now of
             None \<Rightarrow> None
           | Some stamp \<Rightarrow>
               let trace = push_step SignatureRule stamp [];
                   allowed = authentic in
               if \<not> authentic then Some (Inr (finish_decision hash False trace token request now))
               else
                 let live = list_all (\<lambda>c. \<not> now \<ge> cv_expires c) (bt_caveats token);
                     trace = push_step ExpiryRule stamp trace;
                     allowed = (allowed \<and> live) in
                 if \<not> live then Some (Inr (finish_decision hash False trace token request now))
                 else
                   let trace = push_step RevocationRule stamp trace in
                   if revoked (bt_id token) ids then Some (Inr (finish_decision hash False trace token request now))
                   else
                     let covered = list_all (\<lambda>c. covers_request c request) (bt_caveats token);
                         trace = push_step ResourceRule stamp (push_step ActionRule stamp (push_step AudienceRule stamp trace)) in
                     Some (Inr (finish_decision hash (allowed \<and> covered) trace token request now))))"

section \<open>Well-formed tokens\<close>

definition text_ok :: "bytes \<Rightarrow> bool" where
  "text_ok txt \<longleftrightarrow> txt \<noteq> [] \<and> length txt \<le> max_text_len \<and> (\<forall>byte \<in> set txt. 0x21 \<le> byte \<and> byte \<le> 0x7E)"

definition resource_ok :: "bytes \<Rightarrow> bool" where
  "resource_ok resource \<longleftrightarrow> text_ok resource \<and> prefix [0x2F] resource \<and> \<not> sublist [0x2F, 0x2F] resource \<and>
     (length resource = 1 \<or> \<not> suffix [0x2F] resource)"

definition caveat_valid :: "caveat \<Rightarrow> bool" where
  "caveat_valid c \<longleftrightarrow> text_ok (cv_audience c) \<and> text_ok (cv_action c) \<and> resource_ok (cv_resource c)"

lemma valid_text_ok: "valid_text txt field = Inr () \<longleftrightarrow> text_ok txt"
  by (auto simp: valid_text_def text_ok_def Let_def list_all_iff)

lemma valid_resource_ok: "valid_resource resource = Inr () \<longleftrightarrow> resource_ok resource"
  by (auto simp: valid_resource_def valid_text_ok resource_ok_def Let_def split: if_splits)

lemma request_checked_ok:
  "request_checked audience action resource = Inr request \<longleftrightarrow> text_ok audience \<and> text_ok action \<and> resource_ok resource \<and>
     request = \<lparr>ac_audience = audience, ac_action = action, ac_resource = resource\<rparr>"
  by (auto simp: request_checked_def valid_text_ok valid_resource_ok)

lemma caveat_new_ok:
  "caveat_new audience action resource expires = Inr c \<longleftrightarrow> caveat_valid c \<and>
     c = \<lparr>cv_request = \<lparr>ac_audience = audience, ac_action = action, ac_resource = resource\<rparr>, cv_expires = expires\<rparr>"
  by (auto simp: caveat_new_def request_checked_ok caveat_valid_def)

lemma caveat_new_valid: "caveat_new (cv_audience c) (cv_action c) (cv_resource c) (cv_expires c) = Inr c' \<longleftrightarrow> caveat_valid c \<and> c' = c"
  by (cases c; cases "cv_request c") (auto simp: caveat_new_ok)

lemma check_each_ok: "check_each caveats = Inr () \<longleftrightarrow> (\<forall>c \<in> set caveats. caveat_valid c)"
  by (induction caveats) (auto simp: caveat_new_valid)

lemma token_check_ok: "token_check caveats = Inr () \<longleftrightarrow> caveats \<noteq> [] \<and> length caveats \<le> max_caveats \<and> (\<forall>c \<in> set caveats. caveat_valid c)"
  by (auto simp: token_check_def check_each_ok)

lemma caveat_validD:
  assumes "caveat_valid c"
  shows "length (cv_audience c) \<le> max_text_len" "length (cv_action c) \<le> max_text_len" "length (cv_resource c) \<le> max_text_len"
  using assms by (simp_all add: caveat_valid_def text_ok_def resource_ok_def)

lemma attenuate_each_ok: "attenuate_each grant extra = Inr () \<longleftrightarrow> (\<forall>c \<in> set extra. caveat_valid c \<and> narrows grant c)"
  by (induction extra) (auto simp: caveat_new_valid)

lemma attenuate_ok:
  "attenuate keyed token extra = Inr token' \<longleftrightarrow>
     (\<exists>grant rest. bt_caveats token = grant # rest \<and> extra \<noteq> [] \<and> length (bt_caveats token @ extra) \<le> max_caveats \<and>
        (\<forall>c \<in> set extra. caveat_valid c \<and> narrows grant c) \<and>
        token' = \<lparr>bt_id = bt_id token, bt_caveats = bt_caveats token @ extra, bt_tag = foldl (fold_step keyed) (bt_tag token) extra\<rparr>)"
proof -
  have "sat_add_usize (length (bt_caveats token)) (length extra) > max_caveats \<longleftrightarrow> \<not> length (bt_caveats token @ extra) \<le> max_caveats"
    by (auto simp: sat_add_usize_def max_caveats_def usize_max_def)
  then show ?thesis by (cases "bt_caveats token") (auto simp: attenuate_def attenuate_each_ok Let_def)
qed

lemma chain_over_append: "chain_over keyed root ident (cs @ ds) = foldl (fold_step keyed) (chain_over keyed root ident cs) ds"
  by (simp add: chain_over_def)

section \<open>The resource hierarchy\<close>

text \<open>A resource as the names between its slashes.\<close>

definition path_of :: "bytes list \<Rightarrow> bytes" where
  "path_of names = concat (map (\<lambda>name. 0x2F # name) names)"

definition resource_of :: "bytes list \<Rightarrow> bytes" where
  "resource_of names = (if names = [] then [0x2F] else path_of names)"

definition names_ok :: "bytes list \<Rightarrow> bool" where
  "names_ok names \<longleftrightarrow> (\<forall>name \<in> set names. name \<noteq> [] \<and> 0x2F \<notin> set name)"

lemma path_of_simps [simp]: "path_of [] = []" "path_of (name # names) = 0x2F # name @ path_of names"
  by (simp_all add: path_of_def)

lemma same_name:
  assumes "c @ x = s @ y" and "0x2F \<notin> set c" and "0x2F \<notin> set (s :: bytes)" and "x = [] \<or> hd x = 0x2F" and "y = [] \<or> hd y = 0x2F"
  shows "c = s \<and> x = y"
proof -
  have front: "takeWhile (\<lambda>b. b \<noteq> 0x2F) (c @ x) = c" if "0x2F \<notin> set c" "x = [] \<or> hd x = 0x2F" for c x :: bytes
    using that by (induction c) (auto simp: takeWhile_eq_Nil_iff)
  have "c = s" using front [OF assms(2,4)] front [OF assms(3,5)] assms(1) by simp
  then show ?thesis using assms(1) by simp
qed

lemma path_slash: "path_of names = [] \<or> hd (path_of names) = 0x2F"
  by (cases names) simp_all

lemma path_prefix:
  assumes "names_ok cs" and "names_ok ss" and "z = [] \<or> hd z = 0x2F"
  shows "path_of cs = path_of ss @ z \<Longrightarrow> prefix ss cs"
  using assms
proof (induction ss arbitrary: cs)
  case (Cons s ss)
  obtain c cs' where cs: "cs = c # cs'" using Cons.prems(1) by (cases cs) simp_all
  have eq: "c @ path_of cs' = s @ (path_of ss @ z)" using Cons.prems(1) cs by simp
  have slash: "path_of ss @ z = [] \<or> hd (path_of ss @ z) = 0x2F" using path_slash [of ss] Cons.prems(4) by (cases "path_of ss") auto
  have "c = s \<and> path_of cs' = path_of ss @ z"
    by (rule same_name [OF eq _ _ path_slash slash]) (use Cons.prems(2,3) cs in \<open>auto simp: names_ok_def\<close>)
  moreover have "names_ok cs'" "names_ok ss" using Cons.prems(2,3) cs by (simp_all add: names_ok_def)
  ultimately show ?case using Cons.IH [of cs'] Cons.prems(4) cs by simp
qed simp

lemma under_scope_path:
  assumes "names_ok cs" and "names_ok ss"
  shows "under_scope (resource_of cs) (resource_of ss) \<longleftrightarrow> prefix ss cs"
proof (cases "ss = []")
  case True
  then show ?thesis by (cases cs) (simp_all add: under_scope_def resource_of_def)
next
  case False
  then obtain s ss' where ss: "ss = s # ss'" and "s \<noteq> []" using assms(2) by (cases ss) (auto simp: names_ok_def)
  have long: "1 < length (path_of ss)" "path_of ss \<noteq> [0x2F]" using ss \<open>s \<noteq> []\<close> by (auto simp: neq_Nil_conv)
  show ?thesis
  proof (cases "cs = []")
    case True
    then show ?thesis using ss long by (auto simp: under_scope_def resource_of_def)
  next
    case cs: False
    have "under_scope (path_of cs) (path_of ss) \<longleftrightarrow> (\<exists>z. path_of cs = path_of ss @ z \<and> (z = [] \<or> hd z = 0x2F))"
    proof
      assume u: "under_scope (path_of cs) (path_of ss)"
      show "\<exists>z. path_of cs = path_of ss @ z \<and> (z = [] \<or> hd z = 0x2F)"
      proof (cases "path_of cs = path_of ss")
        case False
        then have p: "prefix (path_of ss) (path_of cs)" "path_of cs ! length (path_of ss) = 0x2F" "length (path_of cs) > length (path_of ss)"
          using u long by (auto simp: under_scope_def)
        obtain z where z: "path_of cs = path_of ss @ z" using p(1) by (auto simp: prefix_def)
        then have "z \<noteq> []" "z ! 0 = 0x2F" using p(2,3) by (auto simp: nth_append)
        then show ?thesis using z by (auto simp: hd_conv_nth)
      qed simp
    next
      assume "\<exists>z. path_of cs = path_of ss @ z \<and> (z = [] \<or> hd z = 0x2F)"
      then obtain z where z: "path_of cs = path_of ss @ z" "z = [] \<or> hd z = 0x2F" by blast
      then show "under_scope (path_of cs) (path_of ss)"
        using long by (cases z) (auto simp: under_scope_def nth_append)
    qed
    also have "\<dots> \<longleftrightarrow> prefix ss cs"
    proof
      assume "\<exists>z. path_of cs = path_of ss @ z \<and> (z = [] \<or> hd z = 0x2F)"
      then show "prefix ss cs" using path_prefix [OF assms] by blast
    next
      assume "prefix ss cs"
      then obtain rest where "cs = ss @ rest" by (auto simp: prefix_def)
      then show "\<exists>z. path_of cs = path_of ss @ z \<and> (z = [] \<or> hd z = 0x2F)"
        using path_slash [of rest] by (auto simp: path_of_def)
    qed
    finally show ?thesis using cs False by (simp add: resource_of_def)
  qed
qed

lemma path_names:
  "prefix [0x2F] r \<Longrightarrow> \<not> sublist [0x2F, 0x2F] r \<Longrightarrow> \<not> suffix [0x2F] (r :: bytes) \<Longrightarrow> \<exists>names. names_ok names \<and> names \<noteq> [] \<and> r = path_of names"
proof (induction "length r" arbitrary: r rule: less_induct)
  case less
  obtain t where r: "r = 0x2F # t" using less.prems(1) by (auto simp: prefix_def)
  define name where "name = takeWhile (\<lambda>b. b \<noteq> 0x2F) t"
  define rest where "rest = dropWhile (\<lambda>b. b \<noteq> 0x2F) t"
  have t: "t = name @ rest" by (simp add: name_def rest_def)
  have clean: "0x2F \<notin> set name" unfolding name_def by (metis (mono_tags, lifting) set_takeWhileD)
  have "t \<noteq> []" using less.prems(3) r by auto
  have "\<not> prefix [0x2F] t" using less.prems(2) r by (auto simp: prefix_def sublist_Cons_right)
  then have name: "name \<noteq> []" using \<open>t \<noteq> []\<close> unfolding name_def by (cases t) (auto split: if_splits)
  show ?case
  proof (cases "rest = []")
    case True
    then show ?thesis using r t clean name by (intro exI [of _ "[name]"]) (simp add: names_ok_def)
  next
    case False
    then have "hd rest = 0x2F" unfolding rest_def using hd_dropWhile by blast
    then have p: "prefix [0x2F] rest" using False by (cases rest) simp_all
    have tail: "r = (0x2F # name) @ rest" using r t by simp
    have "\<not> sublist [0x2F, 0x2F] rest" using less.prems(2) tail by (metis append_assoc sublist_def)
    moreover have "\<not> suffix [0x2F] rest" using less.prems(3) tail by (metis suffix_appendI)
    ultimately obtain names where "names_ok names" "rest = path_of names"
      using less.hyps [of rest] p tail by auto
    then show ?thesis using r t clean name by (intro exI [of _ "name # names"]) (simp add: names_ok_def)
  qed
qed

lemma resource_names:
  assumes "resource_ok r"
  obtains names where "names_ok names" "r = resource_of names"
proof (cases "length r = 1")
  case True
  then have "r = resource_of []" using assms by (cases r) (auto simp: resource_ok_def resource_of_def)
  then show thesis using that [of "[]"] by (simp add: names_ok_def)
next
  case False
  then obtain names where "names_ok names" "names \<noteq> []" "r = path_of names" using path_names assms unfolding resource_ok_def by blast
  then show thesis using that [of names] by (simp add: resource_of_def)
qed

text \<open>Scopes are a hierarchy: every resource that passes validation is a path of names, and one resource is under another exactly when the names of the second begin the names of the first; so a scope covers itself and what is below it, and never a name that only starts like one of its own.\<close>

theorem under_scope_hierarchy:
  assumes "valid_resource candidate = (Inr () :: 'e token_error + unit)" and "valid_resource scope = (Inr () :: 'e token_error + unit)"
  shows "\<exists>cs ss. names_ok cs \<and> names_ok ss \<and> candidate = resource_of cs \<and> scope = resource_of ss \<and> (under_scope candidate scope \<longleftrightarrow> prefix ss cs)"
proof -
  obtain cs ss where "names_ok cs" "candidate = resource_of cs" "names_ok ss" "scope = resource_of ss"
    using assms unfolding valid_resource_ok by (metis resource_names)
  then show ?thesis using under_scope_path by blast
qed

section \<open>Deciding\<close>

lemma push_step_rules: "length trace < max_trace \<Longrightarrow> map tr_rule (push_step rule inputs trace) = map tr_rule trace @ [rule]"
  "length trace < max_trace \<Longrightarrow> length (push_step rule inputs trace) = Suc (length trace)"
  by (simp_all add: push_step_def)

lemma revoked_set: "revoked ident ids \<longleftrightarrow> ident \<in> set ids"
  by (auto simp: revoked_def list_ex_iff)

lemma first_lapsed_None: "first_lapsed now cs = None \<longleftrightarrow> (\<forall>c \<in> set cs. now < cv_expires c)"
  by (induction cs) auto

definition six_rules :: "trace_rule list" where
  "six_rules = [SignatureRule, ExpiryRule, RevocationRule, AudienceRule, ActionRule, ResourceRule]"

lemma decimal_ascii: "byte \<in> set (decimal n) \<Longrightarrow> byte < 0x80"
proof (induction n rule: decimal.induct)
  case (1 n)
  have digit: "word_of_nat (48 + d) < (0x80 :: 8 word)" if "d < 10" for d :: nat
    using that by (simp add: word_less_nat_alt unat_of_nat take_bit_nat_eq_self del: of_nat_add)
  show ?case
  proof (cases "n < 10")
    case True
    then show ?thesis using "1.prems" digit [OF True] by (simp add: decimal.simps [of n] del: of_nat_add)
  next
    case False
    then show ?thesis using "1.prems" "1.IH" digit [of "n mod 10"] by (auto simp: decimal.simps [of n] simp del: of_nat_add)
  qed
qed

lemma hex_encode_ascii: "byte \<in> set (hex_encode bytes) \<Longrightarrow> byte < 0x80"
proof (induction bytes)
  case (Cons b bytes)
  have "hex_lower ! i < 0x80" if "i < 16" for i
  proof -
    have "\<forall>byte \<in> set hex_lower. byte < 0x80" "length hex_lower = 16" by (simp_all add: hex_lower_def)
    then show ?thesis using that by simp
  qed
  then show ?case using Cons by (auto simp: nibble_bounds)
qed simp

text \<open>A request that its constructor accepted is plain ASCII, so its stamp is never cut inside a character.\<close>

lemma checked_stamp:
  assumes "text_ok (ac_audience request)" and "text_ok (ac_action request)" and "text_ok (ac_resource request)"
  shows "\<exists>stamp. request_stamp ident request now = Some stamp"
proof -
  have plain: "byte < 0x80" if "text_ok s" "byte \<in> set s" for byte s
    using that by (auto simp: text_ok_def intro: le_less_trans)
  have "byte < 0x80" if "byte \<in> set (stamp_text ident request now)" for byte
    using that plain [OF assms(1)] plain [OF assms(2)] plain [OF assms(3)] decimal_ascii [of byte now] hex_encode_ascii [of byte]
    by (auto simp: stamp_text_def)
  then have "char_boundary (stamp_text ident request now) i" if "i < length (stamp_text ident request now)" for i
    using that nth_mem [of i "stamp_text ident request now"] by (auto simp: char_boundary_def not_le)
  then show ?thesis by (simp add: request_stamp_def Let_def)
qed

text \<open>
  C22: The evaluator answers as follows. A token that fails its check is refused with that error. For
  any other token a request whose stamp would be cut inside a character panics; a request its
  constructor accepted never does. Otherwise there is a decision: it allows exactly when the chain
  recomputes, every caveat is live and covers the request, and the token is not revoked. The trace ends
  with the signature, expiry or revocation rule when that rule denied; once those three passed it names
  all six rules, whether the request is allowed or not, and every step carries the same text, so a denial
  for the audience, the action or the resource names neither the rule that denied nor the missing grant.
\<close>

theorem policy_decide_exact:
  "(policy_decide keyed hash root token request ids now :: ('e token_error + policy_decision) option) =
     (case token_check (bt_caveats token) of
        Inl error \<Rightarrow> Some (Inl error)
      | Inr _ \<Rightarrow> map_option (\<lambda>stamp. Inr (finish_decision hash
       (chain_over keyed root (bt_id token) (bt_caveats token) = bt_tag token \<and> (\<forall>c \<in> set (bt_caveats token). now < cv_expires c) \<and>
        bt_id token \<notin> set ids \<and> (\<forall>c \<in> set (bt_caveats token). covers_request c request))
       (map (\<lambda>rule. \<lparr>tr_rule = rule, tr_version = policy_version, tr_inputs = stamp\<rparr>)
         (case token_verify keyed root token ids now :: 'e token_error + unit of
            Inr _ \<Rightarrow> six_rules
          | Inl TokenRevoked \<Rightarrow> take 3 six_rules
          | Inl (TokenExpired _ _) \<Rightarrow> take 2 six_rules
          | Inl _ \<Rightarrow> take 1 six_rules))
       token request now)) (request_stamp (bt_id token) request now)) \<and>
   (token_verify keyed root token ids now = (Inr () :: 'e token_error + unit) \<longleftrightarrow>
      token_check (bt_caveats token) = (Inr () :: 'e token_error + unit) \<and> chain_over keyed root (bt_id token) (bt_caveats token) = bt_tag token \<and>
      (\<forall>c \<in> set (bt_caveats token). now < cv_expires c) \<and> bt_id token \<notin> set ids) \<and>
   (request_stamp (bt_id token) request now = None \<longleftrightarrow>
      length (stamp_text (bt_id token) request now) > 128 \<and>
      0x80 \<le> stamp_text (bt_id token) request now ! 128 \<and> stamp_text (bt_id token) request now ! 128 < 0xC0) \<and>
   (request_checked (ac_audience request) (ac_action request) (ac_resource request) = (Inr request :: 'e token_error + access_request) \<longrightarrow>
      request_stamp (bt_id token) request now \<noteq> None)"
proof -
  have panics: "request_stamp (bt_id token) request now = None \<longleftrightarrow>
      length (stamp_text (bt_id token) request now) > 128 \<and>
      0x80 \<le> stamp_text (bt_id token) request now ! 128 \<and> stamp_text (bt_id token) request now ! 128 < 0xC0"
    by (auto simp: request_stamp_def Let_def char_boundary_def max_text_len_def)
  have checked: "request_stamp (bt_id token) request now \<noteq> None"
    if "request_checked (ac_audience request) (ac_action request) (ac_resource request) = (Inr request :: 'e token_error + access_request)"
    using that checked_stamp [of request] by (auto simp: request_checked_ok resource_ok_def)
  show ?thesis
  proof (cases "token_check (bt_caveats token) :: 'e token_error + unit")
    case (Inl e)
    then show ?thesis using panics checked by (simp add: policy_decide_def token_verify_def)
  next
    case (Inr u)
    have steps: "push_step SignatureRule stamp [] = map (\<lambda>rule. \<lparr>tr_rule = rule, tr_version = policy_version, tr_inputs = stamp\<rparr>) (take 1 six_rules)"
      "push_step ExpiryRule stamp (map (\<lambda>rule. \<lparr>tr_rule = rule, tr_version = policy_version, tr_inputs = stamp\<rparr>) (take 1 six_rules)) =
         map (\<lambda>rule. \<lparr>tr_rule = rule, tr_version = policy_version, tr_inputs = stamp\<rparr>) (take 2 six_rules)"
      "push_step RevocationRule stamp (map (\<lambda>rule. \<lparr>tr_rule = rule, tr_version = policy_version, tr_inputs = stamp\<rparr>) (take 2 six_rules)) =
         map (\<lambda>rule. \<lparr>tr_rule = rule, tr_version = policy_version, tr_inputs = stamp\<rparr>) (take 3 six_rules)"
      "push_step ResourceRule stamp (push_step ActionRule stamp (push_step AudienceRule stamp
         (map (\<lambda>rule. \<lparr>tr_rule = rule, tr_version = policy_version, tr_inputs = stamp\<rparr>) (take 3 six_rules)))) =
         map (\<lambda>rule. \<lparr>tr_rule = rule, tr_version = policy_version, tr_inputs = stamp\<rparr>) six_rules" for stamp
      by (simp_all add: push_step_def six_rules_def max_trace_def)
    have live: "list_all (\<lambda>c. \<not> now \<ge> cv_expires c) (bt_caveats token) \<longleftrightarrow> first_lapsed now (bt_caveats token) = None"
      by (auto simp: first_lapsed_None list_all_iff not_le)
    have covered: "list_all (\<lambda>c. covers_request c request) (bt_caveats token) \<longleftrightarrow> (\<forall>c \<in> set (bt_caveats token). covers_request c request)"
      by (simp add: list_all_iff)
    show ?thesis
      unfolding policy_decide_def token_verify_def Let_def steps live covered revoked_set first_lapsed_None [symmetric] Inr
      using panics checked by (cases "request_stamp (bt_id token) request now") (auto split: option.splits)
  qed
qed

lemma policy_allows:
  "policy_decide keyed hash root token request ids now = Some (Inr d) \<Longrightarrow> dc_allowed d \<longleftrightarrow>
     chain_over keyed root (bt_id token) (bt_caveats token) = bt_tag token \<and> (\<forall>c \<in> set (bt_caveats token). now < cv_expires c) \<and>
     bt_id token \<notin> set ids \<and> (\<forall>c \<in> set (bt_caveats token). covers_request c request)"
  by (auto simp: policy_decide_def finish_decision_def revoked_set list_all_iff not_le Let_def split: if_splits sum.splits option.splits)

lemma policy_decides:
  assumes "token_check (bt_caveats token) = (Inr () :: 'e token_error + unit)" and "request_stamp (bt_id token) request now = Some stamp"
  shows "\<exists>d. policy_decide keyed hash root token request ids now = (Some (Inr d) :: ('e token_error + policy_decision) option)"
  by (auto simp: policy_decide_def assms Let_def)

lemma policy_panics:
  assumes "token_check (bt_caveats token) = (Inr () :: 'e token_error + unit)"
  shows "policy_decide keyed hash root token request ids now = (None :: ('e token_error + policy_decision) option) \<longleftrightarrow>
    request_stamp (bt_id token) request now = None"
  by (auto simp: policy_decide_def assms Let_def split: option.splits)

section \<open>What holders can do\<close>

text \<open>The tokens that come from one minted by the authority: \<open>grant\<close> is the caveat it was minted with.\<close>

inductive issued :: "(bytes \<Rightarrow> bytes \<Rightarrow> bytes) \<Rightarrow> bytes \<Rightarrow> caveat \<Rightarrow> bearer_token \<Rightarrow> bool" for keyed root grant where
  minted: "mint keyed root (cv_audience grant) (cv_action grant) (cv_resource grant) ttl now drawn = (Inr token :: nat token_error + bearer_token) \<Longrightarrow>
    cv_expires grant = dur_add now ttl \<Longrightarrow> issued keyed root grant token"
| attenuated: "issued keyed root grant token \<Longrightarrow> attenuate keyed token extra = (Inr token' :: nat token_error + bearer_token) \<Longrightarrow>
    issued keyed root grant token'"

definition token_sound :: "(bytes \<Rightarrow> bytes \<Rightarrow> bytes) \<Rightarrow> bytes \<Rightarrow> caveat \<Rightarrow> bearer_token \<Rightarrow> bool" where
  "token_sound keyed root grant token \<longleftrightarrow>
     token_check (bt_caveats token) = (Inr () :: unit token_error + unit) \<and> chain_over keyed root (bt_id token) (bt_caveats token) = bt_tag token \<and>
     (\<exists>rest. bt_caveats token = grant # rest) \<and> (\<forall>c \<in> set (bt_caveats token). narrows grant c)"

lemma narrows_refl [simp]: "narrows c c"
  by (simp add: narrows_def under_scope_def)

lemma issued_sound: "issued keyed root grant token \<Longrightarrow> token_sound keyed root grant token"
proof (induction rule: issued.induct)
  case (minted ttl now drawn token)
  obtain c ident where c: "caveat_new (cv_audience grant) (cv_action grant) (cv_resource grant) (dur_add now ttl) = (Inr c :: nat token_error + caveat)"
      "token = \<lparr>bt_id = ident, bt_caveats = [c], bt_tag = chain_over keyed root ident [c]\<rparr>"
    using minted(1) by (cases drawn) (auto simp: mint_def)
  have "caveat_new (cv_audience grant) (cv_action grant) (cv_resource grant) (cv_expires grant) = (Inr c :: nat token_error + caveat)"
    using c(1) minted(2) by simp
  then have "c = grant" "caveat_valid grant" unfolding caveat_new_valid by simp_all
  then show ?case using c(2) by (simp add: token_sound_def token_check_ok max_caveats_def)
next
  case (attenuated token extra token')
  obtain rest where t: "bt_caveats token = grant # rest" "chain_over keyed root (bt_id token) (bt_caveats token) = bt_tag token"
      "\<forall>c \<in> set (bt_caveats token). caveat_valid c \<and> narrows grant c"
    using attenuated.IH by (auto simp: token_sound_def token_check_ok)
  have x: "\<forall>c \<in> set extra. caveat_valid c \<and> narrows grant c" "length (bt_caveats token @ extra) \<le> max_caveats"
      "token' = \<lparr>bt_id = bt_id token, bt_caveats = bt_caveats token @ extra, bt_tag = foldl (fold_step keyed) (bt_tag token) extra\<rparr>"
    using attenuated.hyps(2) t(1) unfolding attenuate_ok by simp_all
  have "chain_over keyed root (bt_id token) (bt_caveats token @ extra) = foldl (fold_step keyed) (bt_tag token) extra"
    using t(2) by (simp add: chain_over_append)
  then show ?case unfolding token_sound_def token_check_ok x(3) using t(1,3) x(1,2) by auto
qed

text \<open>
  C19: A token never leaves its grant: any token obtained from one the authority minted, by attenuations
  in any number and order, verifies until it lapses or is revoked, and allows a request only for the
  audience and the action it was minted for, on a resource under the minted one, before the minted time.
  Every request is decided but one whose stamp is cut inside a character, on which the evaluator panics.
\<close>

theorem token_confined:
  assumes "issued keyed root grant token"
  shows "(token_verify keyed root token ids now = (Inr () :: 'e token_error + unit) \<longleftrightarrow> (\<forall>c \<in> set (bt_caveats token). now < cv_expires c) \<and> bt_id token \<notin> set ids) \<and>
    (if request_stamp (bt_id token) request now = None
     then policy_decide keyed hash root token request ids now = (None :: ('e token_error + policy_decision) option)
     else \<exists>d. policy_decide keyed hash root token request ids now = (Some (Inr d) :: ('e token_error + policy_decision) option) \<and>
       (dc_allowed d \<longrightarrow> covers_request grant request \<and> now < cv_expires grant \<and> bt_id token \<notin> set ids))"
proof -
  note sound = issued_sound [OF assms, unfolded token_sound_def token_check_ok]
  have check: "token_check (bt_caveats token) = (Inr () :: 'e token_error + unit)" using sound by (simp add: token_check_ok)
  have "token_verify keyed root token ids now = (Inr () :: 'e token_error + unit) \<longleftrightarrow> (\<forall>c \<in> set (bt_caveats token). now < cv_expires c) \<and> bt_id token \<notin> set ids"
    using check sound by (auto simp: token_verify_def revoked_set first_lapsed_None [symmetric] split: option.splits if_splits)
  moreover have "dc_allowed d \<longrightarrow> covers_request grant request \<and> now < cv_expires grant \<and> bt_id token \<notin> set ids"
    if "policy_decide keyed hash root token request ids now = (Some (Inr d) :: ('e token_error + policy_decision) option)" for d
    using policy_allows [OF that] sound by auto
  moreover note policy_decides [OF check, of request now] policy_panics [OF check, of keyed hash root request ids now]
  ultimately show ?thesis by (cases "request_stamp (bt_id token) request now") (simp_all, blast)
qed

text \<open>Attenuating succeeds exactly for further caveats that are valid, fit the bound, and lie within the first one.\<close>

lemma attenuate_accepts:
  assumes "issued keyed root grant token" and "extra \<noteq> []"
  shows "(\<exists>token'. attenuate keyed token extra = Inr token') \<longleftrightarrow>
    length (bt_caveats token @ extra) \<le> max_caveats \<and> (\<forall>c \<in> set extra. caveat_valid c \<and> narrows grant c)"
  using issued_sound [OF assms(1), unfolded token_sound_def] assms(2) by (auto simp: attenuate_ok)

text \<open>C21: Attenuation only restricts: whatever an attenuated token allows, the token it was made from allows as well, for the same request, at the same time and under the same revocations.\<close>

theorem attenuation_restricts:
  assumes "issued keyed root grant token" and "attenuate keyed token extra = (Inr token' :: nat token_error + bearer_token)"
    and "policy_decide keyed hash root token' request ids now = (Some (Inr d') :: (nat token_error + policy_decision) option)" and "dc_allowed d'"
  shows "\<exists>d. policy_decide keyed hash root token request ids now = (Some (Inr d) :: (nat token_error + policy_decision) option) \<and> dc_allowed d"
proof -
  note sound = issued_sound [OF assms(1), unfolded token_sound_def]
  have check: "token_check (bt_caveats token) = (Inr () :: nat token_error + unit)" using sound by (simp add: token_check_ok)
  have same: "bt_id token' = bt_id token" using assms(2) sound by (auto simp: attenuate_ok)
  obtain stamp where "request_stamp (bt_id token) request now = Some stamp"
    using assms(3) by (auto simp: policy_decide_def same Let_def split: sum.splits option.splits)
  from policy_decides [OF check this] obtain d
    where d: "policy_decide keyed hash root token request ids now = (Some (Inr d) :: (nat token_error + policy_decision) option)" by blast
  have "dc_allowed d" using policy_allows [OF assms(3)] policy_allows [OF d] assms(2,4) sound by (auto simp: attenuate_ok)
  then show ?thesis using d by blast
qed

section \<open>Forging\<close>

lemma canonical_framed: "canonical_caveat c = write_framed (cv_audience c) @ write_framed (cv_action c) @ write_framed (cv_resource c) @
    le_bytes 8 (cv_expires c div 1000000000) @ le_bytes 4 (cv_expires c mod 1000000000)"
  by (simp add: canonical_caveat_def write_framed_def)

lemma canonical_inject:
  assumes "canonical_caveat a = canonical_caveat b" and "caveat_valid a" and "caveat_valid b" and "cv_expires a \<le> dur_max" and "cv_expires b \<le> dur_max"
  shows "a = b"
proof -
  have small: "length (cv_audience c) \<le> u64_max" "length (cv_action c) \<le> u64_max" "length (cv_resource c) \<le> u64_max" if "caveat_valid c" for c
    using caveat_validD [OF that] by (simp_all add: max_text_len_def u64_max_def)
  note s = small [OF assms(2)] small [OF assms(3)]
  have eq: "write_framed (cv_audience a) @ (write_framed (cv_action a) @ (write_framed (cv_resource a) @
        le_bytes 8 (cv_expires a div 1000000000) @ le_bytes 4 (cv_expires a mod 1000000000))) =
      write_framed (cv_audience b) @ (write_framed (cv_action b) @ (write_framed (cv_resource b) @
        le_bytes 8 (cv_expires b div 1000000000) @ le_bytes 4 (cv_expires b mod 1000000000)))"
    using assms(1) unfolding canonical_framed .
  note one = write_framed_inject [OF s(1,4) eq]
  note two = write_framed_inject [OF s(2,5) one(2)]
  note three = write_framed_inject [OF s(3,6) two(2)]
  have "le_bytes 8 (cv_expires a div 1000000000) = le_bytes 8 (cv_expires b div 1000000000)" "le_bytes 4 (cv_expires a mod 1000000000) = le_bytes 4 (cv_expires b mod 1000000000)"
    using three(2) by (simp_all add: append_eq_append_conv)
  moreover have "d div 1000000000 < 256 ^ 8" "d mod 1000000000 < 256 ^ 4" if "d \<le> dur_max" for d :: nat
    using div_le_mono [OF that, of 1000000000] by (simp_all add: dur_max_def)
  ultimately have "cv_expires a div 1000000000 = cv_expires b div 1000000000" "cv_expires a mod 1000000000 = cv_expires b mod 1000000000"
    using assms(4,5) le_bytes_inject by blast+
  then have "cv_expires a = cv_expires b" by (metis div_mult_mod_eq)
  then show ?thesis using one(1) two(1) three(1) by (cases a; cases b; cases "cv_request a"; cases "cv_request b") simp
qed

text \<open>What a chain hashes: the identity under the root key, then each caveat under the tag so far.\<close>

definition chain_inputs :: "(bytes \<Rightarrow> bytes \<Rightarrow> bytes) \<Rightarrow> bytes \<Rightarrow> bytes \<Rightarrow> caveat list \<Rightarrow> (bytes \<times> bytes) set" where
  "chain_inputs keyed root ident cs =
     insert (root, ident) ((\<lambda>i. (chain_over keyed root ident (take i cs), canonical_caveat (cs ! i))) ` {..<length cs})"

lemma chain_inputs_snoc: "chain_inputs keyed root ident (cs @ [c]) = insert (chain_over keyed root ident cs, canonical_caveat c) (chain_inputs keyed root ident cs)"
proof -
  have "(\<lambda>i. (chain_over keyed root ident (take i (cs @ [c])), canonical_caveat ((cs @ [c]) ! i))) ` {..<length cs} =
      (\<lambda>i. (chain_over keyed root ident (take i cs), canonical_caveat (cs ! i))) ` {..<length cs}"
    by (intro image_cong) (auto simp: nth_append)
  then show ?thesis unfolding chain_inputs_def by (auto simp: lessThan_Suc)
qed

lemma chain_over_snoc: "chain_over keyed root ident (cs @ [c]) = keyed (chain_over keyed root ident cs) (canonical_caveat c)"
  by (simp add: chain_over_def fold_step_def)

lemma chain_over_Nil [simp]: "chain_over keyed root ident [] = keyed root ident"
  by (simp add: chain_over_def)

lemma canonical_length: "36 \<le> length (canonical_caveat c)"
  by (simp add: canonical_caveat_def)

definition collides :: "(bytes \<Rightarrow> bytes \<Rightarrow> bytes) \<Rightarrow> (bytes \<times> bytes) set \<Rightarrow> bool" where
  "collides keyed hashed \<longleftrightarrow> (\<exists>(k, d) \<in> hashed. \<exists>(k', d') \<in> hashed. (k, d) \<noteq> (k', d') \<and> keyed k d = keyed k' d')"

lemma collidesI: "(k, d) \<in> hashed \<Longrightarrow> (k', d') \<in> hashed \<Longrightarrow> (k, d) \<noteq> (k', d') \<Longrightarrow> keyed k d = keyed k' d' \<Longrightarrow> collides keyed hashed"
  unfolding collides_def by blast

lemma collides_mono: "collides keyed hashed \<Longrightarrow> hashed \<subseteq> hashed' \<Longrightarrow> collides keyed hashed'"
  unfolding collides_def by blast

lemma chain_collides:
  assumes "length ident = 32" and "length ident' = 32"
  shows "\<forall>c \<in> set cs \<union> set cs'. caveat_valid c \<and> cv_expires c \<le> dur_max \<Longrightarrow> chain_over keyed root ident cs = chain_over keyed root ident' cs' \<Longrightarrow>
    (ident, cs) \<noteq> (ident', cs') \<Longrightarrow> collides keyed (chain_inputs keyed root ident cs \<union> chain_inputs keyed root ident' cs')"
proof (induction cs arbitrary: cs' rule: rev_induct)
  case Nil
  show ?case
  proof (cases cs' rule: rev_cases)
    case Nil': Nil
    then show ?thesis using Nil.prems by (intro collidesI [of root ident _ root ident']) (auto simp: chain_inputs_def)
  next
    case (snoc ys c')
    have "ident \<noteq> canonical_caveat c'" using canonical_length [of c'] assms(1) by auto
    then show ?thesis using Nil.prems(2) snoc
      by (intro collidesI [of root ident _ "chain_over keyed root ident' ys" "canonical_caveat c'"])
        (simp_all add: chain_inputs_snoc chain_over_snoc, simp_all add: chain_inputs_def)
  qed
next
  case (snoc c xs)
  show ?case
  proof (cases cs' rule: rev_cases)
    case Nil
    have "canonical_caveat c \<noteq> ident'" using canonical_length [of c] assms(2) by auto
    then show ?thesis using snoc.prems(2) Nil
      by (intro collidesI [of "chain_over keyed root ident xs" "canonical_caveat c" _ root ident'])
        (simp_all add: chain_inputs_snoc chain_over_snoc, simp_all add: chain_inputs_def)
  next
    case cs': (snoc ys c')
    have eq: "keyed (chain_over keyed root ident xs) (canonical_caveat c) = keyed (chain_over keyed root ident' ys) (canonical_caveat c')"
      using snoc.prems(2) cs' by (simp add: chain_over_snoc)
    show ?thesis
    proof (cases "(chain_over keyed root ident xs, canonical_caveat c) = (chain_over keyed root ident' ys, canonical_caveat c')")
      case True
      then have "c = c'" using canonical_inject [of c c'] snoc.prems(1) cs' by auto
      then have "collides keyed (chain_inputs keyed root ident xs \<union> chain_inputs keyed root ident' ys)"
        using True snoc.prems(1,3) cs' by (intro snoc.IH) auto
      then show ?thesis by (rule collides_mono) (auto simp: chain_inputs_snoc cs')
    next
      case False
      show ?thesis by (rule collidesI [OF _ _ False eq]) (simp_all add: chain_inputs_snoc cs')
    qed
  qed
qed

text \<open>C20: A tag fits one token: a token that verifies under the tag of an issued one is that token, with its identity and every caveat in its place, unless two different things that the two chains hash collide under the keyed hash. So no caveat can be dropped, reordered, edited or added without a collision.\<close>

theorem token_unforgeable:
  assumes "issued keyed root grant token" and "token_verify keyed root forged ids now = (Inr () :: 'e token_error + unit)" and "bt_tag forged = bt_tag token"
    and "length (bt_id token) = 32" and "length (bt_id forged) = 32"
    and "\<forall>c \<in> set (bt_caveats token) \<union> set (bt_caveats forged). cv_expires c \<le> dur_max"
  shows "forged = token \<or>
    collides keyed (chain_inputs keyed root (bt_id forged) (bt_caveats forged) \<union> chain_inputs keyed root (bt_id token) (bt_caveats token))"
proof (cases "(bt_id forged, bt_caveats forged) = (bt_id token, bt_caveats token)")
  case True
  then show ?thesis using assms(3) by (cases forged; cases token) simp
next
  case False
  have forged: "token_check (bt_caveats forged) = (Inr () :: 'e token_error + unit)" "chain_over keyed root (bt_id forged) (bt_caveats forged) = bt_tag forged"
    using assms(2) by (auto simp: token_verify_def split: if_splits)
  note sound = issued_sound [OF assms(1), unfolded token_sound_def]
  have "collides keyed (chain_inputs keyed root (bt_id forged) (bt_caveats forged) \<union> chain_inputs keyed root (bt_id token) (bt_caveats token))"
    by (rule chain_collides [OF assms(5,4) _ _ False]) (use forged sound assms(3,6) in \<open>auto simp: token_check_ok\<close>)
  then show ?thesis ..
qed

section \<open>Revoking\<close>

lemma revoke_id_set: "revoke_id ident ids = (Inr (), ids') \<Longrightarrow> ident \<in> set ids' \<and> set ids \<subseteq> set ids'"
  by (auto simp: revoke_id_def list_ex_iff split: if_splits)

lemma revoke_id_keeps:
  "set ids \<subseteq> set (snd (revoke_id ident ids :: ('e token_error + unit) \<times> revocation_list))"
  "length ids \<le> max_revoked \<Longrightarrow> length (snd (revoke_id ident ids :: ('e token_error + unit) \<times> revocation_list)) \<le> max_revoked"
  by (auto simp: revoke_id_def)

text \<open>Further revocations, one after the other, whether accepted or not.\<close>

definition revoke_all :: "bytes list \<Rightarrow> revocation_list \<Rightarrow> revocation_list" where
  "revoke_all idents ids = foldl (\<lambda>ids ident. snd (revoke_id ident ids :: (unit token_error + unit) \<times> revocation_list)) ids idents"

lemma revoke_all_step: "revoke_all (ident # idents) ids = revoke_all idents (snd (revoke_id ident ids :: (unit token_error + unit) \<times> revocation_list))"
  by (simp add: revoke_all_def)

lemma revoke_all_set: "set ids \<subseteq> set (revoke_all idents ids)"
proof (induction idents arbitrary: ids)
  case (Cons ident idents)
  show ?case unfolding revoke_all_step using Cons.IH revoke_id_keeps(1) by (rule subset_trans [rotated])
qed (simp add: revoke_all_def)

lemma revoke_all_bound: "length ids \<le> max_revoked \<Longrightarrow> length (revoke_all idents ids) \<le> max_revoked"
proof (induction idents arbitrary: ids)
  case (Cons ident idents)
  then show ?case unfolding revoke_all_step by (intro Cons.IH revoke_id_keeps(2))
qed (simp add: revoke_all_def)

text \<open>Revocation is final: once a revocation was accepted, no token of that identity verifies or is allowed again, at any time and whatever is revoked later, and the list never outgrows its bound.\<close>

theorem revoked_stays_denied:
  assumes "revoke_id (bt_id token) ids = (Inr () :: 'e token_error + unit, ids')" and "length ids \<le> max_revoked"
    and "later = revoke_all idents ids'"
  shows "token_verify keyed root token later now \<noteq> (Inr () :: 'e token_error + unit) \<and>
    (\<forall>d. policy_decide keyed hash root token request later now = (Some (Inr d) :: ('e token_error + policy_decision) option) \<longrightarrow> \<not> dc_allowed d) \<and>
    length later \<le> max_revoked"
proof -
  have listed: "bt_id token \<in> set later" and bound: "length later \<le> max_revoked"
    using revoke_id_set [OF assms(1)] revoke_id_keeps(2) [OF assms(2), of "bt_id token", where 'e = 'e] revoke_all_set [of ids' idents] revoke_all_bound [of ids' idents]
    by (auto simp: assms(1,3))
  have "token_verify keyed root token later now \<noteq> (Inr () :: 'e token_error + unit)"
    using listed by (auto simp: token_verify_def revoked_set split: option.splits if_splits)
  moreover have "\<not> dc_allowed d" if "policy_decide keyed hash root token request later now = (Some (Inr d) :: ('e token_error + policy_decision) option)" for d
    using policy_allows [OF that] listed by blast
  ultimately show ?thesis using bound by blast
qed

section \<open>Small tokens\<close>

text \<open>A keyed hash that always collides, a grant of \<open>r\<close> on \<open>/n\<close> to \<open>n\<close>, and a narrower caveat on \<open>/n/a\<close>.\<close>

definition flat_keyed :: "bytes \<Rightarrow> bytes \<Rightarrow> bytes" where "flat_keyed key data = [0]"

definition demo_request :: access_request where
  "demo_request = \<lparr>ac_audience = [110], ac_action = [114], ac_resource = [47, 110, 47, 97]\<rparr>"

definition demo_grant :: caveat where
  "demo_grant = \<lparr>cv_request = \<lparr>ac_audience = [110], ac_action = [114], ac_resource = [47, 110]\<rparr>, cv_expires = 60\<rparr>"

definition demo_narrow :: caveat where "demo_narrow = \<lparr>cv_request = demo_request, cv_expires = 30\<rparr>"

definition demo_token :: bearer_token where
  "demo_token = \<lparr>bt_id = replicate 32 7, bt_caveats = [demo_grant], bt_tag = [0]\<rparr>"

definition demo_narrowed :: bearer_token where
  "demo_narrowed = \<lparr>bt_id = replicate 32 7, bt_caveats = [demo_grant, demo_narrow], bt_tag = [0]\<rparr>"

lemma flat_chain [simp]: "chain_over flat_keyed root ident cs = [0]"
  by (cases cs rule: rev_cases) (simp_all add: chain_over_snoc flat_keyed_def)

lemma demo_valid: "caveat_valid demo_grant" "caveat_valid demo_narrow"
  by (simp_all add: caveat_valid_def text_ok_def resource_ok_def demo_grant_def demo_narrow_def demo_request_def max_text_len_def sublist_Cons_right suffix_def)

lemma demo_issued: "issued flat_keyed [] demo_grant demo_token"
proof (rule issued.minted)
  show "mint flat_keyed [] (cv_audience demo_grant) (cv_action demo_grant) (cv_resource demo_grant) 60 0 (Inr (replicate 32 7) :: nat + bytes) = Inr demo_token"
  proof -
    have "caveat_new (cv_audience demo_grant) (cv_action demo_grant) (cv_resource demo_grant) (dur_add 0 60) = (Inr demo_grant :: nat token_error + caveat)"
      using demo_valid(1) by (simp add: caveat_new_ok dur_add_def dur_max_def) (simp add: demo_grant_def)
    then show ?thesis by (simp add: mint_def demo_token_def)
  qed
  show "cv_expires demo_grant = dur_add 0 60" by (simp add: demo_grant_def dur_add_def dur_max_def)
qed

lemma demo_narrows: "narrows demo_grant demo_narrow" "covers_request demo_grant demo_request" "covers_request demo_narrow demo_request"
  by (simp_all add: narrows_def covers_request_def under_scope_def demo_grant_def demo_narrow_def demo_request_def)

lemma demo_attenuated: "attenuate flat_keyed demo_token [demo_narrow] = Inr demo_narrowed"
  using demo_valid(2) demo_narrows(1)
  by (simp add: attenuate_ok demo_token_def demo_narrowed_def max_caveats_def fold_step_def flat_keyed_def)

lemma demo_check: "token_check (bt_caveats demo_token) = Inr ()" "token_check (bt_caveats demo_narrowed) = Inr ()"
  using demo_valid by (simp_all add: token_check_ok demo_token_def demo_narrowed_def max_caveats_def)

lemma demo_verifies: "token_verify flat_keyed [] demo_narrowed [] 0 = Inr ()" "token_verify flat_keyed [] demo_token [] 0 = Inr ()"
  by (simp_all add: token_verify_def demo_check revoked_def) (simp_all add: demo_narrowed_def demo_token_def demo_grant_def demo_narrow_def)

theorem under_scope_hierarchy_witness:
  "\<exists>cs ss. names_ok cs \<and> names_ok ss \<and> [47, 110, 47, 97] = resource_of cs \<and> [47, 110] = resource_of ss \<and> (under_scope [47, 110, 47, 97] [47, 110] \<longleftrightarrow> prefix ss cs)"
  using under_scope_hierarchy [of "[47, 110, 47, 97]" "[47, 110]"] demo_valid
  by (simp add: valid_resource_ok caveat_valid_def demo_grant_def demo_narrow_def demo_request_def)

lemma demo_stamp: "\<exists>stamp. request_stamp ident demo_request now = Some stamp"
  by (rule checked_stamp) (simp_all add: demo_request_def text_ok_def max_text_len_def)

theorem policy_decide_exact_witness:
  "\<exists>d. policy_decide flat_keyed (\<lambda>_. []) [] demo_narrowed demo_request [] 0 = (Some (Inr d) :: (nat token_error + policy_decision) option) \<and> dc_allowed d \<and> map tr_rule (dc_trace d) = six_rules"
  using policy_decide_exact [of flat_keyed "\<lambda>_. []" "[]" demo_narrowed demo_request "[]" 0, where 'e = nat] demo_verifies(1) demo_check(2) demo_narrows(2,3)
    demo_stamp [of "bt_id demo_narrowed" 0]
  by (auto simp: finish_decision_def demo_narrowed_def o_def)

theorem token_confined_witness:
  "token_verify flat_keyed [] demo_token [] 0 = (Inr () :: nat token_error + unit) \<and>
    (\<exists>d. policy_decide flat_keyed (\<lambda>_. []) [] demo_token demo_request [] 0 = (Some (Inr d) :: (nat token_error + policy_decision) option))"
  using token_confined [OF demo_issued, of "[]" 0 demo_request "\<lambda>_. []", where 'e = nat] demo_stamp [of "bt_id demo_token" 0]
  by (auto simp: demo_token_def demo_grant_def)

theorem attenuation_restricts_witness:
  "\<exists>d. policy_decide flat_keyed (\<lambda>_. []) [] demo_token demo_request [] 0 = (Some (Inr d) :: (nat token_error + policy_decision) option) \<and> dc_allowed d"
proof -
  obtain stamp where "request_stamp (bt_id demo_narrowed) demo_request 0 = Some stamp" using demo_stamp by blast
  from policy_decides [OF demo_check(2) this]
  obtain d where d: "policy_decide flat_keyed (\<lambda>_. []) [] demo_narrowed demo_request [] 0 = (Some (Inr d) :: (nat token_error + policy_decision) option)" by blast
  have "dc_allowed d" unfolding policy_allows [OF d] using demo_narrows(2,3) by (simp add: demo_narrowed_def) (simp add: demo_grant_def demo_narrow_def)
  from attenuation_restricts [OF demo_issued demo_attenuated d this] show ?thesis .
qed

theorem token_unforgeable_witness:
  "collides flat_keyed (chain_inputs flat_keyed [] (bt_id demo_narrowed) (bt_caveats demo_narrowed) \<union> chain_inputs flat_keyed [] (bt_id demo_token) (bt_caveats demo_token))"
proof -
  have "demo_narrowed \<noteq> demo_token" by (simp add: demo_narrowed_def demo_token_def)
  moreover have "demo_narrowed = demo_token \<or>
      collides flat_keyed (chain_inputs flat_keyed [] (bt_id demo_narrowed) (bt_caveats demo_narrowed) \<union> chain_inputs flat_keyed [] (bt_id demo_token) (bt_caveats demo_token))"
    by (rule token_unforgeable [OF demo_issued demo_verifies(1) [where 'a = nat]])
      (simp_all add: demo_narrowed_def demo_token_def demo_grant_def demo_narrow_def dur_max_def)
  ultimately show ?thesis by blast
qed

theorem revoked_stays_denied_witness:
  "token_verify flat_keyed [] demo_token [bt_id demo_token] 0 \<noteq> (Inr () :: nat token_error + unit)"
proof -
  have "revoke_id (bt_id demo_token) [] = (Inr () :: nat token_error + unit, [bt_id demo_token])"
    by (simp add: revoke_id_def max_revoked_def)
  from revoked_stays_denied [OF this _ refl, where idents = "[]" and keyed = flat_keyed and root = "[]" and now = 0] show ?thesis by (simp add: revoke_all_def)
qed

end
