(* ===== verification/Cap.thy ===== *)
theory Cap
  imports Prelude "HOL-Library.List_Lexorder"
begin

text \<open>
  \<open>crates/lgwks-bot/src/cap.rs\<close>, \<open>gate.rs\<close> and \<open>skew.rs\<close>: capability names, what a check finds missing, the set of
  grants a host holds, the sealed proofs it issues, their expiry on the granting clock and their judgement on a foreign one. A
  name is its UTF-8 bytes, so names are ordered as lists of bytes. A clock is known by its identity; \<open>reading\<close> is
  what each clock answers at the time of the call.
\<close>

section \<open>Names and shortfalls\<close>

type_synonym cap = bytes

definition cap_net :: cap where "cap_net = [98, 111, 116, 46, 110, 101, 116]"
definition cap_fs :: cap where "cap_fs = [98, 111, 116, 46, 102, 115]"
definition cap_sys :: cap where "cap_sys = [98, 111, 116, 46, 115, 121, 115]"
definition cap_notify :: cap where "cap_notify = [98, 111, 116, 46, 110, 111, 116, 105, 102, 121]"

record demand =
  dm_domain :: bytes

record shortage =
  sh_required :: cap
  sh_demand :: "demand option"

record cap_deficit =
  df_first :: shortage
  df_rest :: "shortage list"

definition deficit_from_shortages :: "shortage list \<Rightarrow> cap_deficit option" where
  "deficit_from_shortages shortages =
     (case shortages of [] \<Rightarrow> None | first # remaining \<Rightarrow> Some \<lparr>df_first = first, df_rest = remaining\<rparr>)"

definition deficit_shortages :: "cap_deficit \<Rightarrow> shortage list" where
  "deficit_shortages d = df_first d # df_rest d"

definition deficit_len :: "cap_deficit \<Rightarrow> nat" where
  "deficit_len d = sat_add_usize (length (df_rest d)) 1"

text \<open>The walk both checks share: \<open>satisfied\<close> is how the caller answers for one name.\<close>

fun uncovered_loop :: "(cap \<Rightarrow> bool) \<Rightarrow> demand option \<Rightarrow> shortage list \<Rightarrow> cap list \<Rightarrow> shortage list" where
  "uncovered_loop satisfied dem shortages [] = shortages"
| "uncovered_loop satisfied dem shortages (c # cs) =
     (if satisfied c then uncovered_loop satisfied dem shortages cs
      else if list_ex (\<lambda>s. sh_required s = c) shortages then uncovered_loop satisfied dem shortages cs
      else uncovered_loop satisfied dem (shortages @ [\<lparr>sh_required = c, sh_demand = dem\<rparr>]) cs)"

definition uncovered :: "cap list \<Rightarrow> (cap \<Rightarrow> bool) \<Rightarrow> demand option \<Rightarrow> shortage list" where
  "uncovered required satisfied dem = uncovered_loop satisfied dem [] required"

section \<open>Clocks that disagree\<close>

definition is_due_on :: "duration \<Rightarrow> duration \<Rightarrow> bool" where
  "is_due_on deadline now \<longleftrightarrow> now \<ge> deadline"

definition lease_holds :: "duration \<Rightarrow> duration \<Rightarrow> duration \<Rightarrow> bool" where
  "lease_holds expires_at observer_now max_skew \<longleftrightarrow> observer_now < dur_add expires_at max_skew"

definition epoch_holds :: "nat \<Rightarrow> nat \<Rightarrow> bool" where
  "epoch_holds warrant_epoch current_epoch \<longleftrightarrow> warrant_epoch = current_epoch"

definition warrant_holds :: "nat \<Rightarrow> nat \<Rightarrow> duration \<Rightarrow> duration \<Rightarrow> duration \<Rightarrow> bool" where
  "warrant_holds warrant_epoch current_epoch expires_at observer_now max_skew \<longleftrightarrow>
     epoch_holds warrant_epoch current_epoch \<and> lease_holds expires_at observer_now max_skew"

section \<open>Sealed proofs\<close>

record 'c cap_lease =
  ls_clock :: 'c
  ls_expires :: duration
  ls_skew :: duration

record 'c auth =
  pf_covers :: "cap list"
  pf_lease :: "'c cap_lease option"

datatype cap_error =
    CapabilityDenied cap_deficit
  | CredentialExpired "cap list" duration duration

definition auth_new :: "cap list \<Rightarrow> 'c auth" where
  "auth_new caps = \<lparr>pf_covers = remdups_adj (sort caps), pf_lease = None\<rparr>"

definition with_skewed_lease :: "('c \<Rightarrow> duration) \<Rightarrow> 'c \<Rightarrow> duration \<Rightarrow> duration \<Rightarrow> 'c auth \<Rightarrow> 'c auth" where
  "with_skewed_lease reading clock ttl max_skew pf =
     pf\<lparr>pf_lease := Some \<lparr>ls_clock = clock, ls_expires = dur_add (reading clock) ttl, ls_skew = max_skew\<rparr>\<rparr>"

definition with_lease :: "('c \<Rightarrow> duration) \<Rightarrow> 'c \<Rightarrow> duration \<Rightarrow> 'c auth \<Rightarrow> 'c auth" where
  "with_lease reading clock ttl pf =
     pf\<lparr>pf_lease := Some \<lparr>ls_clock = clock, ls_expires = dur_add (reading clock) ttl, ls_skew = 0\<rparr>\<rparr>"

definition auth_expires_at :: "'c auth \<Rightarrow> duration option" where
  "auth_expires_at pf = map_option ls_expires (pf_lease pf)"

definition auth_remaining :: "('c \<Rightarrow> duration) \<Rightarrow> 'c auth \<Rightarrow> duration option" where
  "auth_remaining reading pf = map_option (\<lambda>l. ls_expires l - reading (ls_clock l)) (pf_lease pf)"

definition auth_is_expired :: "('c \<Rightarrow> duration) \<Rightarrow> 'c auth \<Rightarrow> bool" where
  "auth_is_expired reading pf = (case pf_lease pf of None \<Rightarrow> False | Some l \<Rightarrow> reading (ls_clock l) \<ge> ls_expires l)"

definition auth_max_skew :: "'c auth \<Rightarrow> duration option" where
  "auth_max_skew pf = map_option ls_skew (pf_lease pf)"

text \<open>\<open>slice::binary_search\<close> halves the part it still looks at; \<open>base\<close> is where that part starts.\<close>

function search_base :: "cap list \<Rightarrow> cap \<Rightarrow> nat \<Rightarrow> nat \<Rightarrow> nat" where
  "search_base caps c base len =
     (if len \<le> 1 then base
      else let half = len div 2; mid = base + half in search_base caps c (if caps ! mid > c then base else mid) (len - half))"
  by pat_completeness auto
termination by (relation "measure (\<lambda>(caps, c, base, len). len)") auto

declare search_base.simps [simp del]

definition binary_search :: "cap list \<Rightarrow> cap \<Rightarrow> nat option" where
  "binary_search caps c =
     (if caps = [] then None
      else let base = search_base caps c 0 (length caps) in if caps ! base = c then Some base else None)"

definition covers_cap :: "'c auth \<Rightarrow> cap \<Rightarrow> bool" where
  "covers_cap pf c \<longleftrightarrow> binary_search (pf_covers pf) c \<noteq> None"

definition auth_uncovered :: "'c auth \<Rightarrow> cap list \<Rightarrow> shortage list" where
  "auth_uncovered pf required = uncovered required (covers_cap pf) None"

definition deny_shortfall :: "shortage list \<Rightarrow> cap_error + unit" where
  "deny_shortfall shortages = (case deficit_from_shortages shortages of Some d \<Rightarrow> Inl (CapabilityDenied d) | None \<Rightarrow> Inr ())"

definition check_expiry :: "('c \<Rightarrow> duration) \<Rightarrow> 'c auth \<Rightarrow> cap_error + unit" where
  "check_expiry reading pf =
     (case pf_lease pf of
        None \<Rightarrow> Inr ()
      | Some l \<Rightarrow>
          let now = reading (ls_clock l) in
          if \<not> is_due_on (ls_expires l) now then Inr () else Inl (CredentialExpired (pf_covers pf) (ls_expires l) now))"

definition auth_check :: "('c \<Rightarrow> duration) \<Rightarrow> 'c auth \<Rightarrow> cap list \<Rightarrow> cap_error + unit" where
  "auth_check reading pf required = rbind (check_expiry reading pf) (\<lambda>_. deny_shortfall (auth_uncovered pf required))"

definition check_remote :: "('c \<Rightarrow> duration) \<Rightarrow> 'c auth \<Rightarrow> cap list \<Rightarrow> 'c \<Rightarrow> cap_error + unit" where
  "check_remote reading pf required observer =
     rbind (deny_shortfall (auth_uncovered pf required)) (\<lambda>_.
       case pf_lease pf of
         None \<Rightarrow> Inr ()
       | Some l \<Rightarrow>
           let observer_now = reading observer in
           if lease_holds (ls_expires l) observer_now (ls_skew l) then Inr ()
           else Inl (CredentialExpired (pf_covers pf) (ls_expires l) observer_now))"

section \<open>Grants\<close>

record grant_set =
  gs_granted :: "cap set"
  gs_expiries :: "cap \<rightharpoonup> duration"

definition grant_none :: grant_set where
  "grant_none = \<lparr>gs_granted = {}, gs_expiries = Map.empty\<rparr>"

definition all_shipped :: grant_set where
  "all_shipped = \<lparr>gs_granted = insert cap_notify (insert cap_sys (insert cap_fs (insert cap_net {}))), gs_expiries = Map.empty\<rparr>"

definition grant_cap :: "cap \<Rightarrow> grant_set \<Rightarrow> grant_set" where
  "grant_cap c gs = gs\<lparr>gs_granted := insert c (gs_granted gs)\<rparr>"

definition grant_expiring :: "cap \<Rightarrow> duration \<Rightarrow> grant_set \<Rightarrow> grant_set" where
  "grant_expiring c ttl gs = gs\<lparr>gs_granted := insert c (gs_granted gs),
     gs_expiries := (gs_expiries gs)(c \<mapsto> (case gs_expiries gs c of Some held \<Rightarrow> min held ttl | None \<Rightarrow> ttl))\<rparr>"

definition expiry_of :: "grant_set \<Rightarrow> cap \<Rightarrow> duration option" where
  "expiry_of gs c = gs_expiries gs c"

definition grants :: "grant_set \<Rightarrow> cap \<Rightarrow> bool" where
  "grants gs c \<longleftrightarrow> c \<in> gs_granted gs"

definition gate_uncovered :: "grant_set \<Rightarrow> cap list \<Rightarrow> demand \<Rightarrow> shortage list" where
  "gate_uncovered gs required dem = uncovered required (grants gs) (Some dem)"

definition gate_admit :: "grant_set \<Rightarrow> cap list \<Rightarrow> cap_error + unit" where
  "gate_admit gs required = deny_shortfall (uncovered required (grants gs) None)"

text \<open>\<open>Iterator::min\<close>.\<close>

definition min_of :: "duration list \<Rightarrow> duration option" where
  "min_of xs = (case xs of [] \<Rightarrow> None | x # ys \<Rightarrow> Some (fold min ys x))"

definition shortest_lifetime :: "grant_set \<Rightarrow> cap list \<Rightarrow> duration option" where
  "shortest_lifetime gs required = min_of (List.map_filter (gs_expiries gs) required)"

definition issue_at :: "('c \<Rightarrow> duration) \<Rightarrow> grant_set \<Rightarrow> cap list \<Rightarrow> 'c \<Rightarrow> cap_error + 'c auth" where
  "issue_at reading gs required clock =
     rbind (gate_admit gs required) (\<lambda>_.
       let pf = auth_new required in
       case shortest_lifetime gs required of
         None \<Rightarrow> Inr pf
       | Some ttl \<Rightarrow> Inr (with_lease reading clock ttl pf))"

definition issue_skewed :: "('c \<Rightarrow> duration) \<Rightarrow> grant_set \<Rightarrow> cap list \<Rightarrow> 'c \<Rightarrow> duration \<Rightarrow> cap_error + 'c auth" where
  "issue_skewed reading gs required clock max_skew =
     rbind (gate_admit gs required) (\<lambda>_.
       let pf = auth_new required in
       case shortest_lifetime gs required of
         None \<Rightarrow> Inr pf
       | Some ttl \<Rightarrow> Inr (with_skewed_lease reading clock ttl max_skew pf))"

text \<open>\<open>wall\<close> is the wall clock.\<close>

definition issue :: "('c \<Rightarrow> duration) \<Rightarrow> 'c \<Rightarrow> grant_set \<Rightarrow> cap list \<Rightarrow> cap_error + 'c auth" where
  "issue reading wall gs required = issue_at reading gs required wall"

definition to_grant_set :: "cap_deficit \<Rightarrow> grant_set" where
  "to_grant_set d = fold (\<lambda>s gs. grant_cap (sh_required s) gs) (deficit_shortages d) grant_none"

record grant_replacement =
  gr_withdrawn :: "cap list"
  gr_added :: "cap list"

definition grant_difference :: "grant_set \<Rightarrow> grant_set \<Rightarrow> grant_replacement" where
  "grant_difference gs upcoming =
     \<lparr>gr_withdrawn = sorted_list_of_set {c \<in> gs_granted gs. \<not> grants upcoming c},
      gr_added = sorted_list_of_set {c \<in> gs_granted upcoming. \<not> grants gs c}\<rparr>"

section \<open>Sorted names\<close>

lemma distinct_remdups_adj_sorted: "sorted xs \<Longrightarrow> distinct (remdups_adj (xs :: 'a::linorder list))"
  by (induction xs rule: remdups_adj.induct) (auto simp: order.antisym)

lemma covers_sorted: "sorted_wrt (<) (remdups_adj (sort (caps :: cap list)))"
  unfolding strict_sorted_iff by (simp add: distinct_remdups_adj_sorted)

lemma search_base_finds:
  assumes "sorted_wrt (<) caps" and "0 < len" and "base + len \<le> length caps" and "i < base + len" and "base \<le> i"
  shows "caps ! search_base caps (caps ! i) base len = caps ! i"
  using assms
proof (induction caps "caps ! i" base len rule: search_base.induct)
  case (1 caps base len)
  show ?case
  proof (cases "len \<le> 1")
    case True
    then have "i = base" using 1 by linarith
    with True show ?thesis by (subst search_base.simps) simp
  next
    case False
    let ?half = "len div 2" and ?mid = "base + len div 2"
    have order: "caps ! a < caps ! b" if "a < b" "b < length caps" for a b
      using sorted_wrt_nth_less [OF \<open>sorted_wrt (<) caps\<close>] that by simp
    show ?thesis
    proof (cases "caps ! ?mid > caps ! i")
      case True
      have "i < ?mid" using order [of ?mid i] True 1 by (cases "i = ?mid") (auto simp: not_less dest: less_asym)
      then show ?thesis using 1 False True by (subst search_base.simps) (auto simp: Let_def)
    next
      case upper: False
      have "?mid < length caps" using 1 False by linarith
      then have "?mid \<le> i" using order [of i ?mid] upper by (auto simp: not_less [symmetric])
      then show ?thesis using 1 False upper by (subst search_base.simps) (auto simp: Let_def)
    qed
  qed
qed

lemma binary_search_iff:
  assumes "sorted_wrt (<) caps"
  shows "binary_search caps c \<noteq> None \<longleftrightarrow> c \<in> set caps"
proof
  assume "c \<in> set caps"
  then obtain i where i: "i < length caps" "c = caps ! i" by (auto simp: in_set_conv_nth)
  have "caps ! search_base caps c 0 (length caps) = c"
    unfolding i(2) by (rule search_base_finds [OF assms]) (use i(1) in auto)
  then show "binary_search caps c \<noteq> None" using i(1) by (auto simp: binary_search_def Let_def)
next
  have bound: "search_base caps c base len < length caps" if "0 < len" "base + len \<le> length caps" for base len
    using that
  proof (induction caps c base len rule: search_base.induct)
    case (1 caps c base len)
    then show ?case by (subst search_base.simps) (auto simp: Let_def)
  qed
  assume "binary_search caps c \<noteq> None"
  then show "c \<in> set caps" using bound [of "length caps" 0]
    by (auto simp: binary_search_def Let_def in_set_conv_nth split: if_splits)
qed

section \<open>The walk over what is required\<close>

text \<open>The names of a list in the order in which they first occur.\<close>

fun named_once :: "cap set \<Rightarrow> cap list \<Rightarrow> cap list" where
  "named_once seen [] = []"
| "named_once seen (c # cs) = (if c \<in> seen then named_once seen cs else c # named_once (insert c seen) cs)"

lemma set_named_once [simp]: "set (named_once seen cs) = set cs - seen"
  by (induction cs arbitrary: seen) auto

lemma distinct_named_once: "distinct (named_once seen cs)"
  by (induction cs arbitrary: seen) auto

lemma named_once_Nil_iff [simp]: "named_once {} cs = [] \<longleftrightarrow> cs = []"
  by (cases cs) auto

lemma uncovered_loop_eq:
  "uncovered_loop satisfied dem ss cs =
    ss @ map (\<lambda>c. \<lparr>sh_required = c, sh_demand = dem\<rparr>) (named_once (sh_required ` set ss) (filter (\<lambda>c. \<not> satisfied c) cs))"
  by (induction cs arbitrary: ss) (auto simp: list_ex_iff image_iff)

lemma deny_shortfall_Nil [simp]: "deny_shortfall [] = Inr ()"
  by (simp add: deny_shortfall_def deficit_from_shortages_def)

lemma deny_shortfall_ok [simp]: "deny_shortfall ss = Inr () \<longleftrightarrow> ss = []"
  by (auto simp: deny_shortfall_def deficit_from_shortages_def split: list.splits)

lemma deny_shortfall_denied: "deny_shortfall ss = Inl e \<longleftrightarrow> (\<exists>d. e = CapabilityDenied d \<and> deficit_shortages d = ss)"
  by (cases ss) (auto simp: deny_shortfall_def deficit_from_shortages_def deficit_shortages_def)

text \<open>Whoever answers for the names, the walk reports the names not held, once each and in the order they were required.\<close>

locale coverage =
  fixes satisfied :: "cap \<Rightarrow> bool" and held :: "cap set"
  assumes satisfied_iff: "satisfied c \<longleftrightarrow> c \<in> held"
begin

lemma walk: "uncovered required satisfied dem =
    map (\<lambda>c. \<lparr>sh_required = c, sh_demand = dem\<rparr>) (named_once {} (filter (\<lambda>c. c \<notin> held) required))"
  unfolding uncovered_def uncovered_loop_eq by (simp add: satisfied_iff)

lemma admits: "deny_shortfall (uncovered required satisfied dem) = Inr () \<longleftrightarrow> set required \<subseteq> held"
  by (auto simp: walk filter_empty_conv)

lemma denies: "deny_shortfall (uncovered required satisfied dem) = Inl e \<longleftrightarrow>
    \<not> set required \<subseteq> held \<and> (\<exists>d. e = CapabilityDenied d \<and> deficit_shortages d = uncovered required satisfied dem)"
  using admits [of required dem] by (cases "deny_shortfall (uncovered required satisfied dem)") (auto simp: deny_shortfall_denied)

end

lemma covers_cap_built: "covers_cap \<lparr>pf_covers = remdups_adj (sort caps), pf_lease = lease\<rparr> c \<longleftrightarrow> c \<in> set caps"
  using binary_search_iff [OF covers_sorted [of caps], of c] by (simp add: covers_cap_def)

interpretation gate: coverage "grants gs" "gs_granted gs" for gs
  by unfold_locales (simp add: grants_def)

interpretation seal: coverage "covers_cap \<lparr>pf_covers = remdups_adj (sort caps), pf_lease = lease\<rparr>" "set caps" for caps and lease :: "'c cap_lease option"
  by unfold_locales (rule covers_cap_built)

section \<open>What is issued\<close>

definition lifetimes :: "grant_set \<Rightarrow> cap list \<Rightarrow> duration set" where
  "lifetimes gs required = {ttl. \<exists>c \<in> set required. gs_expiries gs c = Some ttl}"

lemma set_map_filter_expiries: "set (List.map_filter (gs_expiries gs) required) = lifetimes gs required"
  by (force simp: lifetimes_def List.map_filter_def)

lemma shortest_lifetime_eq:
  "shortest_lifetime gs required = (if lifetimes gs required = {} then None else Some (Min (lifetimes gs required)))"
proof (cases "List.map_filter (gs_expiries gs) required")
  case Nil
  then show ?thesis by (simp add: shortest_lifetime_def min_of_def flip: set_map_filter_expiries)
next
  case (Cons t ts)
  then show ?thesis using Min.set_eq_fold [of t ts] by (simp add: shortest_lifetime_def min_of_def flip: set_map_filter_expiries)
qed

lemma finite_lifetimes: "finite (lifetimes gs required)"
  unfolding set_map_filter_expiries [symmetric] by simp

text \<open>The lease of a proof for \<open>required\<close>, issued when \<open>clock\<close> read \<open>now\<close>.\<close>

definition lease_for :: "grant_set \<Rightarrow> cap list \<Rightarrow> 'c \<Rightarrow> duration \<Rightarrow> duration \<Rightarrow> 'c cap_lease option" where
  "lease_for gs required clock now max_skew =
     (if lifetimes gs required = {} then None
      else Some \<lparr>ls_clock = clock, ls_expires = dur_add now (Min (lifetimes gs required)), ls_skew = max_skew\<rparr>)"

lemma issue_skewed_eq:
  "issue_skewed reading gs required clock max_skew =
    rbind (gate_admit gs required) (\<lambda>_. Inr \<lparr>pf_covers = remdups_adj (sort required), pf_lease = lease_for gs required clock (reading clock) max_skew\<rparr>)"
  by (simp add: issue_skewed_def shortest_lifetime_eq lease_for_def auth_new_def with_skewed_lease_def Let_def)

lemma with_lease_eq: "with_lease reading clock ttl pf = with_skewed_lease reading clock ttl 0 pf"
  by (simp add: with_lease_def with_skewed_lease_def)

lemma issue_at_eq: "issue_at reading gs required clock = issue_skewed reading gs required clock 0"
  unfolding issue_at_def issue_skewed_def with_lease_eq ..

lemma gate_admit_ok: "gate_admit gs required = Inr () \<longleftrightarrow> set required \<subseteq> gs_granted gs"
  unfolding gate_admit_def by (rule gate.admits)

lemma issue_ok_iff: "(\<exists>p. issue_at reading gs required clock = Inr p) \<longleftrightarrow> set required \<subseteq> gs_granted gs"
  by (auto simp: issue_at_eq issue_skewed_eq gate_admit_ok)

lemma issuedD:
  assumes "issue_skewed reading gs required clock max_skew = Inr p"
  shows "set required \<subseteq> gs_granted gs" and "p = \<lparr>pf_covers = remdups_adj (sort required), pf_lease = lease_for gs required clock (reading clock) max_skew\<rparr>"
  using assms by (auto simp: issue_skewed_eq gate_admit_ok)

lemma fold_grants: "fold (\<lambda>s. grant_cap (sh_required s)) ss gs = gs\<lparr>gs_granted := sh_required ` set ss \<union> gs_granted gs\<rparr>"
  by (induction ss arbitrary: gs) (auto simp: grant_cap_def)

lemma issue_denied:
  assumes "\<not> set required \<subseteq> gs_granted gs"
  obtains d where "issue_at reading gs required clock = Inl (CapabilityDenied d)"
proof (cases "gate_admit gs required")
  case (Inl e)
  then obtain d where "e = CapabilityDenied d" using gate.denies [of required gs None e] by (auto simp: gate_admit_def)
  then show ?thesis using that [of d] Inl by (simp add: issue_at_eq issue_skewed_eq)
next
  case (Inr u)
  then show ?thesis using assms gate_admit_ok [of gs required] by simp
qed

lemma to_grant_set_eq: "to_grant_set d = \<lparr>gs_granted = sh_required ` set (deficit_shortages d), gs_expiries = Map.empty\<rparr>"
  by (simp add: to_grant_set_def grant_none_def fold_grants)

text \<open>C27: Admission is exact: a proof is issued precisely when every required name is granted; it then covers those names, sorted and once each, and expires the shortest of their lifetimes after the reading of the clock it was issued on, or never when none has one.\<close>

theorem issue_exact:
  "(case issue_at reading gs required clock of
      Inr p \<Rightarrow> set required \<subseteq> gs_granted gs \<and> sorted_wrt (<) (pf_covers p) \<and> set (pf_covers p) = set required \<and>
        auth_expires_at p = (if lifetimes gs required = {} then None else Some (dur_add (reading clock) (Min (lifetimes gs required))))
    | Inl e \<Rightarrow> \<not> set required \<subseteq> gs_granted gs \<and> (\<exists>d. e = CapabilityDenied d))"
proof (cases "gate_admit gs required")
  case (Inr u)
  then show ?thesis using gate_admit_ok [of gs required]
    by (simp add: issue_at_eq issue_skewed_eq covers_sorted lease_for_def auth_expires_at_def)
next
  case (Inl e)
  then show ?thesis using gate.denies [of required gs None e]
    by (auto simp: issue_at_eq issue_skewed_eq gate_admit_def)
qed

text \<open>A denial carries its repair: it names the ungranted names of the requirement in the order they are first required, each once, so granting what the deficit derives closes the requirement, and no set of grants that closes it grants less.\<close>

theorem denial_repairs:
  assumes "issue_at reading gs required clock = (Inl (CapabilityDenied d) :: cap_error + 'c auth)"
  shows "map sh_required (deficit_shortages d) = named_once {} (filter (\<lambda>c. \<not> grants gs c) required) \<and>
    gs_granted (to_grant_set d) = set required - gs_granted gs \<and>
    (\<exists>p. issue_at reading (fold (\<lambda>s. grant_cap (sh_required s)) (deficit_shortages d) gs) required clock = (Inr p :: cap_error + 'c auth)) \<and>
    (\<forall>gs'. gs_granted gs \<subseteq> gs_granted gs' \<longrightarrow> (\<exists>p. issue_at reading gs' required clock = (Inr p :: cap_error + 'c auth)) \<longrightarrow> gs_granted (to_grant_set d) \<subseteq> gs_granted gs')"
proof -
  have "gate_admit gs required = Inl (CapabilityDenied d)" using assms
    by (cases "gate_admit gs required") (auto simp: issue_at_eq issue_skewed_eq)
  then have d: "deficit_shortages d = uncovered required (grants gs) None" by (simp add: gate_admit_def gate.denies)
  have named: "map sh_required (deficit_shortages d) = named_once {} (filter (\<lambda>c. \<not> grants gs c) required)"
    by (simp add: d gate.walk grants_def o_def)
  then have "set (map sh_required (deficit_shortages d)) = set required - gs_granted gs" by (auto simp: grants_def)
  then have missing: "sh_required ` set (deficit_shortages d) = set required - gs_granted gs" by simp
  show ?thesis using named missing by (auto simp: issue_ok_iff to_grant_set_eq fold_grants)
qed

section \<open>What a proof is worth\<close>

lemma check_issued:
  assumes "issue_skewed reading gs required clock max_skew = Inr p"
  shows "deny_shortfall (auth_uncovered p wanted) = Inr () \<longleftrightarrow> set wanted \<subseteq> set required"
    and "pf_lease p = lease_for gs required clock (reading clock) max_skew"
  using issuedD(2) [OF assms] seal.admits [of wanted required "lease_for gs required clock (reading clock) max_skew" None]
  by (simp_all add: auth_uncovered_def)

lemma lease_for_cases:
  "lease_for gs required clock now max_skew = None \<longleftrightarrow> lifetimes gs required = {}"
  "lease_for gs required clock now max_skew = Some l \<longleftrightarrow>
    lifetimes gs required \<noteq> {} \<and> l = \<lparr>ls_clock = clock, ls_expires = dur_add now (Min (lifetimes gs required)), ls_skew = max_skew\<rparr>"
  by (auto simp: lease_for_def)

lemma dur_add_Min:
  assumes "lifetimes gs required \<noteq> {}"
  shows "t < dur_add now (Min (lifetimes gs required)) \<longleftrightarrow> (\<forall>ttl \<in> lifetimes gs required. t < dur_add now ttl)"
proof -
  have "Min (lifetimes gs required) \<in> lifetimes gs required" using finite_lifetimes assms by (rule Min_in)
  moreover have "dur_add now (Min (lifetimes gs required)) \<le> dur_add now ttl" if "ttl \<in> lifetimes gs required" for ttl
    using Min_le [OF finite_lifetimes that] by (simp add: dur_add_def)
  ultimately show ?thesis by fastforce
qed

text \<open>A proof is worth exactly what it was issued for: on the granting clock it passes a check precisely when every name checked was required of it and none of the lifetimes of its grants has run out since.\<close>

theorem proof_worth:
  assumes "issue_at reading gs required clock = Inr p"
  shows "auth_check later p wanted = Inr () \<longleftrightarrow>
    set wanted \<subseteq> set required \<and> (\<forall>ttl \<in> lifetimes gs required. later clock < dur_add (reading clock) ttl)"
proof -
  note issued = check_issued [OF assms [unfolded issue_at_eq]]
  have "check_expiry later p = Inr () \<longleftrightarrow> (\<forall>ttl \<in> lifetimes gs required. later clock < dur_add (reading clock) ttl)"
    using dur_add_Min [of gs required "later clock" "reading clock"]
    by (auto simp: check_expiry_def issued(2) lease_for_def is_due_on_def Let_def not_le)
  then show ?thesis by (auto simp: auth_check_def issued(1) simp del: deny_shortfall_ok)
qed

text \<open>Skew is bounded both ways: a proof judged on a clock that disagrees with the granting one by at most the bound passes whenever the granting clock would pass it, and when it passes, the granting clock is less than twice the bound past the expiry.\<close>

theorem skew_bounded:
  assumes "issue_skewed reading gs required clock max_skew = Inr p"
    and "later observer \<le> later clock + max_skew" and "later clock \<le> later observer + max_skew" and "later observer < dur_max"
  shows "(auth_check later p wanted = Inr () \<longrightarrow> check_remote later p wanted observer = Inr ()) \<and>
    (check_remote later p wanted observer = Inr () \<longrightarrow> set wanted \<subseteq> set required \<and>
      (\<forall>expires. auth_expires_at p = Some expires \<longrightarrow> later clock < expires + 2 * max_skew))"
proof -
  note issued = check_issued [OF assms(1)]
  show ?thesis using assms(2-4)
    by (auto simp: auth_check_def check_remote_def check_expiry_def auth_expires_at_def lease_holds_def is_due_on_def dur_add_def issued(1) Let_def
        simp del: deny_shortfall_ok split: option.splits if_splits) (auto simp: issued(2) lease_for_cases dur_add_def)
qed

lemma auth_is_expired_iff: "auth_is_expired later p \<longleftrightarrow> check_expiry later p \<noteq> Inr ()"
  by (auto simp: auth_is_expired_def check_expiry_def is_due_on_def Let_def split: option.splits)

lemma auth_remaining_0: "auth_remaining later p = Some 0 \<longleftrightarrow> auth_is_expired later p"
  by (auto simp: auth_is_expired_def auth_remaining_def split: option.splits)

lemma warrant_fenced: "warrant_holds warrant_epoch current_epoch expires_at now max_skew \<Longrightarrow> warrant_epoch = current_epoch \<and> now < expires_at + max_skew"
  by (simp add: warrant_holds_def epoch_holds_def lease_holds_def dur_add_def)

section \<open>Grants over time\<close>

datatype grant_op = Granted cap | GrantedFor cap duration

fun apply_grant :: "grant_op \<Rightarrow> grant_set \<Rightarrow> grant_set" where
  "apply_grant (Granted c) gs = grant_cap c gs"
| "apply_grant (GrantedFor c ttl) gs = grant_expiring c ttl gs"

definition asked_for :: "cap \<Rightarrow> grant_op list \<Rightarrow> duration set" where
  "asked_for c ops = {ttl. GrantedFor c ttl \<in> set ops}"

lemma asked_for_simps [simp]:
  "asked_for c [] = {}"
  "asked_for c (Granted c' # ops) = asked_for c ops"
  "asked_for c (GrantedFor c' ttl # ops) = (if c' = c then insert ttl (asked_for c ops) else asked_for c ops)"
  by (auto simp: asked_for_def)

lemma finite_asked_for [simp]: "finite (asked_for c ops)"
proof (induction ops)
  case (Cons op ops)
  then show ?case by (cases op) simp_all
qed simp

text \<open>Granting again never extends: after any sequence of grants, with and without a lifetime, a name keeps the shortest lifetime it was ever granted for, and every name that was granted stays granted.\<close>

theorem regrant_never_extends:
  "expiry_of (fold apply_grant ops gs) c =
    (let held = set_option (gs_expiries gs c) \<union> asked_for c ops in if held = {} then None else Some (Min held)) \<and>
   gs_granted gs \<subseteq> gs_granted (fold apply_grant ops gs)"
proof (induction ops arbitrary: gs)
  case Nil
  show ?case by (cases "gs_expiries gs c") (simp_all add: expiry_of_def)
next
  case (Cons op ops)
  show ?case
  proof (cases op)
    case (Granted c')
    then show ?thesis using Cons.IH [of "grant_cap c' gs"] by (auto simp: grant_cap_def)
  next
    case (GrantedFor c' ttl)
    have "gs_granted gs \<subseteq> gs_granted (fold apply_grant (op # ops) gs)"
      using Cons.IH [of "grant_expiring c' ttl gs"] GrantedFor by (auto simp: grant_expiring_def)
    moreover have "expiry_of (fold apply_grant (op # ops) gs) c =
        (let held = set_option (gs_expiries gs c) \<union> asked_for c (op # ops) in if held = {} then None else Some (Min held))"
      using conjunct1 [OF Cons.IH [of "grant_expiring c' ttl gs"]] GrantedFor
      by (cases "gs_expiries gs c"; cases "asked_for c ops = {}") (auto simp: grant_expiring_def Let_def min.assoc)
    ultimately show ?thesis by blast
  qed
qed

lemma grant_difference_exact:
  assumes "finite (gs_granted gs)" and "finite (gs_granted upcoming)"
  shows "set (gr_withdrawn (grant_difference gs upcoming)) = gs_granted gs - gs_granted upcoming"
    and "set (gr_added (grant_difference gs upcoming)) = gs_granted upcoming - gs_granted gs"
    and "sorted_wrt (<) (gr_withdrawn (grant_difference gs upcoming))" and "sorted_wrt (<) (gr_added (grant_difference gs upcoming))"
  using assms by (auto simp: grant_difference_def grants_def)

lemma all_shipped_grants: "grants all_shipped c \<longleftrightarrow> c \<in> {cap_net, cap_fs, cap_sys, cap_notify}"
  by (auto simp: grants_def all_shipped_def)

section \<open>Small grants\<close>

text \<open>The network for a minute and files without an end, on clock 0; clock 1 is another host's.\<close>

definition demo_grants :: grant_set where
  "demo_grants = grant_cap cap_fs (grant_expiring cap_net 60 grant_none)"

lemma demo_grants_fields: "gs_granted demo_grants = {cap_net, cap_fs}" "lifetimes demo_grants [cap_net] = {60}"
  by (auto simp: demo_grants_def grant_cap_def grant_expiring_def grant_none_def lifetimes_def)

lemma shipped_differ: "cap_sys \<noteq> cap_net" "cap_sys \<noteq> cap_fs"
  by (simp_all add: cap_sys_def cap_net_def cap_fs_def)

lemma demo_proof_issued: "\<exists>p. issue_at (\<lambda>_. 5) demo_grants [cap_net] (0 :: nat) = Inr p"
  unfolding issue_ok_iff by (simp add: demo_grants_fields)

theorem denial_repairs_witness:
  "\<exists>d. issue_at (\<lambda>_. 5) demo_grants [cap_sys, cap_net, cap_sys] (0 :: nat) = Inl (CapabilityDenied d) \<and>
    map sh_required (deficit_shortages d) = [cap_sys] \<and> gs_granted (to_grant_set d) = {cap_sys}"
proof -
  have "\<not> set [cap_sys, cap_net, cap_sys] \<subseteq> gs_granted demo_grants" by (simp add: demo_grants_fields shipped_differ)
  then obtain d where d: "issue_at (\<lambda>_. 5) demo_grants [cap_sys, cap_net, cap_sys] (0 :: nat) = Inl (CapabilityDenied d)"
    by (rule issue_denied)
  note repair = denial_repairs [OF d]
  have "map sh_required (deficit_shortages d) = [cap_sys]"
    using conjunct1 [OF repair] by (simp add: grants_def demo_grants_fields shipped_differ)
  then have "map sh_required (deficit_shortages d) = [cap_sys] \<and> gs_granted (to_grant_set d) = {cap_sys}"
    unfolding conjunct1 [OF conjunct2 [OF repair]]
    using shipped_differ by (simp add: demo_grants_fields insert_Diff_if)
  with d show ?thesis by (rule exI [of _ d, OF conjI])
qed

theorem proof_worth_witness:
  "\<exists>p. issue_at (\<lambda>_. 5) demo_grants [cap_net] (0 :: nat) = Inr p \<and> auth_check (\<lambda>_. 64) p [cap_net] = Inr () \<and> auth_check (\<lambda>_. 65) p [cap_net] \<noteq> Inr ()"
proof -
  obtain p where p: "issue_at (\<lambda>_. 5) demo_grants [cap_net] (0 :: nat) = Inr p" using demo_proof_issued ..
  show ?thesis using p proof_worth [OF p, of "\<lambda>_. 64" "[cap_net]"] proof_worth [OF p, of "\<lambda>_. 65" "[cap_net]"]
    by (simp add: demo_grants_fields dur_add_def dur_max_def)
qed

theorem skew_bounded_witness:
  "\<exists>p. issue_skewed (\<lambda>_. 5) demo_grants [cap_net] (0 :: nat) 10 = Inr p \<and>
    (auth_check (\<lambda>c. if c = 0 then 64 else 70) p [cap_net] = Inr () \<longrightarrow> check_remote (\<lambda>c. if c = 0 then 64 else 70) p [cap_net] 1 = Inr ())"
proof -
  obtain p where p: "issue_skewed (\<lambda>_. 5) demo_grants [cap_net] (0 :: nat) 10 = Inr p"
    by (auto simp: issue_skewed_eq gate_admit_ok demo_grants_fields)
  show ?thesis using p skew_bounded [OF p, of "\<lambda>c. if c = 0 then 64 else 70" 1 "[cap_net]"] by (simp add: dur_max_def)
qed

end
