(* ===== verification/Compensate.thy ===== *)
theory Compensate
  imports Flow
begin

text \<open>
  \<open>crates/lgwks-bot/src/script/compensate.rs\<close>: sagas. A body registers the undo of each finished step; when it fails, the
  undos run in reverse. An undo is its step's name and what it does to the world \<open>'s\<close> in the scope it is
  given; a body also hands back the stack it registered. \<open>stopped\<close> reads the cancellation token of the saga's scope
  from the world. The trail is not modelled.
\<close>

definition max_compensations :: nat where
  "max_compensations = 4096"

record ('p, 's) undo =
  un_step :: string
  un_run :: "scope \<Rightarrow> 's \<Rightarrow> ('p flow_error + unit) \<times> 's"

definition compensation_add ::
  "string \<Rightarrow> (scope \<Rightarrow> 's \<Rightarrow> ('p flow_error + unit) \<times> 's) \<Rightarrow> ('p, 's) undo list \<Rightarrow> ('p flow_error + unit) \<times> ('p, 's) undo list" where
  "compensation_add step run stack =
     (if length stack \<ge> max_compensations
      then (Inl (InvalidBound ''saga: compensations registered'' (sat_add_usize (length stack) 1) max_compensations), stack)
      else (Inr (), stack @ [\<lparr>un_step = step, un_run = run\<rparr>]))"

text \<open>What one undo comes to: entering its scope, running it there, and placing its failure.\<close>

definition undo_outcome :: "('s \<Rightarrow> bool) \<Rightarrow> scope \<Rightarrow> ('p, 's) undo \<Rightarrow> 's \<Rightarrow> ('p flow_error + unit) \<times> 's" where
  "undo_outcome stopped sc u s =
     (case scope_enter (stopped s) sc (''undo:'' @ un_step u) of
        Inl error \<Rightarrow> (Inl error, s)
      | Inr undo_scope \<Rightarrow>
          (case un_run u undo_scope s of
             (Inl error, s) \<Rightarrow> (Inl (located_at (sc_path undo_scope) error), s)
           | (Inr _, s) \<Rightarrow> (Inr (), s)))"

fun run_undos :: "('s \<Rightarrow> bool) \<Rightarrow> scope \<Rightarrow> ('p, 's) undo list \<Rightarrow> 'p flow_error option \<Rightarrow> 's \<Rightarrow> 'p flow_error option \<times> 's" where
  "run_undos stopped sc [] first s = (first, s)"
| "run_undos stopped sc (u # us) first s =
     (case undo_outcome stopped sc u s of
        (Inl failure, s) \<Rightarrow> run_undos stopped sc us (if first = None then Some failure else first) s
      | (Inr _, s) \<Rightarrow> run_undos stopped sc us first s)"

definition run_all :: "('s \<Rightarrow> bool) \<Rightarrow> scope \<Rightarrow> ('p, 's) undo list \<Rightarrow> 's \<Rightarrow> 'p flow_error option \<times> 's" where
  "run_all stopped sc stack s = run_undos stopped sc (rev stack) None s"

type_synonym ('p, 's, 'a) saga_body =
  "scope \<Rightarrow> ('p, 's) undo list \<Rightarrow> 's \<Rightarrow> ('p flow_error + 'a) \<times> ('p, 's) undo list \<times> 's"

definition saga_from :: "('s \<Rightarrow> bool) \<Rightarrow> scope \<Rightarrow> string \<Rightarrow> ('p, 's, 'a) saga_body \<Rightarrow> 's \<Rightarrow> ('p flow_error + 'a) \<times> 's" where
  "saga_from stopped sc step body s =
     (case scope_enter (stopped s) sc step of
        Inl error \<Rightarrow> (Inl error, s)
      | Inr here \<Rightarrow>
          (case body here [] s of
             (Inr value, stack, s) \<Rightarrow> (Inr value, s)
           | (Inl failure, stack, s) \<Rightarrow>
               let located = located_at (sc_path here) failure in
               (case run_all stopped here stack s of
                  (Some undo_failed, s) \<Rightarrow> (Inl undo_failed, s)
                | (None, s) \<Rightarrow> (Inl located, s))))"

section \<open>What the undos do\<close>

text \<open>The scope an undo runs in when it may be entered.\<close>

definition undo_scope :: "scope \<Rightarrow> ('p, 's) undo \<Rightarrow> scope" where
  "undo_scope sc u = \<lparr>sc_path = scope_join sc (''undo:'' @ un_step u), sc_depth = sc_depth sc + 1\<rparr>"

text \<open>The undos of a stack, the last registered first, each run once in its own scope: what each answers, and the world after them.\<close>

fun undo_all :: "scope \<Rightarrow> ('p, 's) undo list \<Rightarrow> 's \<Rightarrow> ('p flow_error + unit) list \<times> 's" where
  "undo_all sc [] s = ([], s)"
| "undo_all sc (u # us) s =
     (let (answer, s) = un_run u (undo_scope sc u) s; (answers, s) = undo_all sc us s in
      ((case answer of Inl e \<Rightarrow> Inl (located_at (sc_path (undo_scope sc u)) e) | Inr unit \<Rightarrow> Inr unit) # answers, s))"

fun first_failure :: "('e + 'a) list \<Rightarrow> 'e option" where
  "first_failure [] = None"
| "first_failure (Inl e # rs) = Some e"
| "first_failure (Inr _ # rs) = first_failure rs"

lemma first_failure_None: "first_failure rs = None \<longleftrightarrow> (\<forall>r \<in> set rs. is_ok r)"
  by (induction rs rule: first_failure.induct) auto

lemma scope_enter_ok:
  "\<not> stopped \<Longrightarrow> sc_depth sc < max_depth \<Longrightarrow> scope_enter stopped sc step = Inr \<lparr>sc_path = scope_join sc step, sc_depth = sc_depth sc + 1\<rparr>"
  by (simp add: scope_enter_def descend_ok)

lemma undo_outcome_entered:
  assumes "\<not> stopped s" and "sc_depth sc < max_depth"
  shows "undo_outcome stopped sc u s =
    (case un_run u (undo_scope sc u) s of
       (Inl error, s) \<Rightarrow> (Inl (located_at (sc_path (undo_scope sc u)) error), s)
     | (Inr _, s) \<Rightarrow> (Inr (), s))"
  unfolding undo_outcome_def scope_enter_ok [OF assms] undo_scope_def by (simp only: sum.case)

lemma run_undos_all:
  assumes "\<And>s. \<not> stopped s" and "sc_depth sc < max_depth"
  shows "run_undos stopped sc us first s =
    (case undo_all sc us s of (answers, s') \<Rightarrow> (if first = None then first_failure answers else first, s'))"
proof (induction us arbitrary: first s)
  case (Cons u us)
  obtain answer s1 where run: "un_run u (undo_scope sc u) s = (answer, s1)" by fastforce
  obtain answers s2 where rest: "undo_all sc us s1 = (answers, s2)" by fastforce
  note outcome = undo_outcome_entered [of stopped s, OF assms, of u]
  show ?case using Cons.IH [of _ s1] by (cases answer) (simp_all add: outcome run rest)
qed simp

lemma run_undos_stopped: "stopped s \<Longrightarrow> run_undos stopped sc us first s = (if first = None \<and> us \<noteq> [] then Some (Cancelled (sc_path sc)) else first, s)"
  by (induction us arbitrary: first) (simp_all add: undo_outcome_def scope_enter_def descend_def checkpoint_def)

lemma scope_enter_deep:
  "\<not> stopped \<Longrightarrow> max_depth \<le> sc_depth sc \<Longrightarrow> scope_enter stopped sc step = Inl (TooDeep (sc_path sc) max_depth)"
  by (simp add: scope_enter_def descend_def checkpoint_def)

text \<open>At the depth limit no undo can be given its scope: each is refused, and none runs.\<close>

lemma run_undos_deep:
  assumes "\<And>s. \<not> stopped s" and "max_depth \<le> sc_depth sc"
  shows "run_undos stopped sc us first s =
    (if first = None \<and> us \<noteq> [] then Some (TooDeep (sc_path sc) max_depth) else first, s)"
  by (induction us arbitrary: first) (simp_all add: undo_outcome_def scope_enter_deep assms)

text \<open>
  C28: A saga that is not stopped does one of four things. Past the depth limit it is refused before
  its body runs. A body that succeeds is answered with its value, and no undo runs. When the body fails,
  every registered undo runs exactly once, the last registered first, each in the scope of its own step,
  whatever the others answer, and the caller is told the first undo that failed, or the failure of the
  body when none did. The exception is a saga whose own scope is at the depth limit: its body runs, but
  every undo it registered is refused its scope, so none runs, and the caller is told of the depth.
\<close>

theorem saga_undoes:
  assumes running: "\<And>s. \<not> stopped s" and here_def: "here = \<lparr>sc_path = scope_join sc step, sc_depth = sc_depth sc + 1\<rparr>"
  shows "saga_from stopped sc step body s =
    (if max_depth \<le> sc_depth sc then (Inl (TooDeep (sc_path sc) max_depth), s)
     else case body here [] s of
       (Inr value, stack, s') \<Rightarrow> (Inr value, s')
     | (Inl failure, stack, s') \<Rightarrow>
         if sc_depth sc + 1 = max_depth \<and> stack \<noteq> [] then (Inl (TooDeep (sc_path here) max_depth), s')
         else (case undo_all here (rev stack) s' of (answers, s'') \<Rightarrow>
            (Inl (case first_failure answers of Some e \<Rightarrow> e | None \<Rightarrow> located_at (sc_path here) failure), s'')))"
proof (cases "max_depth \<le> sc_depth sc")
  case True
  then show ?thesis by (simp add: saga_from_def scope_enter_deep running)
next
  case False
  then have enter: "scope_enter (stopped s) sc step = Inr here"
    by (simp add: scope_enter_ok running here_def)
  obtain answer stack s' where body: "body here [] s = (answer, stack, s')" by (cases "body here [] s")
  show ?thesis
  proof (cases "sc_depth sc + 1 = max_depth")
    case True
    then have deep: "max_depth \<le> sc_depth here" by (simp add: here_def)
    show ?thesis using False True
      unfolding saga_from_def enter run_all_def run_undos_deep [of stopped here, OF running deep] sum.case body prod.case
      by (cases answer; cases "stack = []") (simp_all add: Let_def)
  next
    case other: False
    then have depth: "sc_depth here < max_depth" using False by (simp add: here_def)
    obtain answers s'' where undone: "undo_all here (rev stack) s' = (answers, s'')" by fastforce
    show ?thesis using False other
      unfolding saga_from_def enter run_all_def run_undos_all [of stopped here, OF running depth] sum.case body prod.case undone
      by (cases answer; cases "first_failure answers") (simp_all add: Let_def)
  qed
qed

text \<open>
  The registrar promises that every undo runs even when an earlier one failed. One level below the depth
  limit a body that fails leaves all it did in place, and its own failure is not reported.
\<close>

theorem deepest_saga_undoes_nothing:
  fixes body :: "('p, 's, 'a) saga_body"
  assumes "scope_enter (stopped s) sc step = (Inr here :: 'p flow_error + scope)" and "sc_depth here = max_depth"
    and "body here [] s = (Inl failure, stack, s')" and "stack \<noteq> []" and "\<And>s. \<not> stopped s"
  shows "saga_from stopped sc step body s = (Inl (TooDeep (sc_path here) max_depth), s')"
proof -
  have deep: "max_depth \<le> sc_depth here" using assms(2) by simp
  show ?thesis
    unfolding saga_from_def assms(1,3) run_all_def run_undos_deep [of stopped here, OF assms(5) deep] sum.case prod.case
    using assms(4) by (simp add: Let_def)
qed

text \<open>A stopped saga undoes nothing: when the run was stopped by the time the body failed, as it is when the stop is what made it fail, none of the registered undos runs, and the caller is told of the cancellation.\<close>

theorem stopped_saga_undoes_nothing:
  fixes body :: "('p, 's, 'a) saga_body"
  assumes "scope_enter (stopped s) sc step = (Inr here :: 'p flow_error + scope)" and "body here [] s = (Inl failure, stack, s')" and "stopped s'" and "stack \<noteq> []"
  shows "saga_from stopped sc step body s = (Inl (Cancelled (sc_path here)), s')"
  using assms by (simp add: saga_from_def run_all_def run_undos_stopped)

lemma compensation_bounded:
  "length stack \<le> max_compensations \<Longrightarrow> length (snd (compensation_add step run stack)) \<le> max_compensations"
  by (simp add: compensation_add_def)

section \<open>A small saga\<close>

text \<open>The world is the token and what was done. Two charges, then a failure; each undo notes its step.\<close>

type_synonym demo_world = "bool \<times> string list"

definition demo_undo :: "string \<Rightarrow> (unit, demo_world) undo" where
  "demo_undo step = \<lparr>un_step = step, un_run = (\<lambda>sc (stop, log). (Inr (), (stop, log @ [sc_path sc])))\<rparr>"

definition demo_body :: "bool \<Rightarrow> (unit, demo_world, nat) saga_body" where
  "demo_body stop sc stack s = (Inl (failed ''lost''), stack @ [demo_undo ''a'', demo_undo ''b''], (stop, snd s))"

theorem saga_undoes_witness:
  "saga_from (\<lambda>_. False) scope_root ''s'' (demo_body False) (False, []) =
    (Inl (located_at ''s'' (failed ''lost'')), (False, [''s/undo:b'', ''s/undo:a'']))"
  by (subst saga_undoes [OF _ refl])
    (simp_all add: scope_root_def max_depth_def demo_body_def demo_undo_def undo_scope_def scope_join_def)

theorem deepest_saga_undoes_nothing_witness:
  "saga_from (\<lambda>_. False) \<lparr>sc_path = ''d'', sc_depth = max_depth - 1\<rparr> ''s'' (demo_body False) (False, []) =
    (Inl (TooDeep ''d/s'' max_depth), (False, []))"
proof -
  have enter: "scope_enter False \<lparr>sc_path = ''d'', sc_depth = max_depth - 1\<rparr> ''s'' =
      (Inr \<lparr>sc_path = ''d/s'', sc_depth = max_depth\<rparr> :: unit flow_error + scope)"
    by (simp add: scope_enter_ok max_depth_def scope_join_def)
  show ?thesis using deepest_saga_undoes_nothing [where stopped = "\<lambda>_. False" and body = "demo_body False", OF enter]
    by (simp add: demo_body_def)
qed

theorem stopped_saga_undoes_nothing_witness:
  "saga_from fst scope_root ''s'' (demo_body True) (False, []) = (Inl (Cancelled ''s''), (True, []))"
proof -
  have enter: "scope_enter (fst (False, [] :: string list)) scope_root ''s'' = (Inr \<lparr>sc_path = ''s'', sc_depth = 1\<rparr> :: unit flow_error + scope)"
    by (simp add: scope_enter_ok scope_root_def max_depth_def scope_join_def)
  show ?thesis using stopped_saga_undoes_nothing [where stopped = fst and body = "demo_body True", OF enter] by (simp add: demo_body_def)
qed

end
