(* ===== verification/Effect.thy ===== *)
theory Effect
  imports Hex Int_Bytes
begin

text \<open>
  \<open>crates/lgwks-bot/src/effect.rs\<close> and the digest of \<open>crates/lgwks-std/src/hash.rs\<close>: the identifiers an effect is named by, their
  texts, and the effect key. An \<open>Id128\<close> is a natural number, neither zero nor above 128 bits; a counter is one that is
  neither zero nor above 64 bits; a digest is its 32 bytes. Texts are their UTF-8 bytes.
\<close>

section \<open>Identifiers\<close>

type_synonym id128 = nat

datatype id_error = IdWrongLength nat | IdNotHex nat | IdZero

text \<open>\<open>Iterator::position\<close>.\<close>

fun first_index :: "('a \<Rightarrow> bool) \<Rightarrow> nat \<Rightarrow> 'a list \<Rightarrow> nat option" where
  "first_index P n [] = None"
| "first_index P n (x # xs) = (if P x then Some n else first_index P (Suc n) xs)"

text \<open>\<open>u128::from_str_radix(_, 16)\<close> on digits: a digit that is none, or a value that does not fit, is refused.\<close>

fun radix16 :: "nat \<Rightarrow> bytes \<Rightarrow> nat option" where
  "radix16 acc [] = Some acc"
| "radix16 acc (b # bs) =
     (case decode_nibble b of
        None \<Rightarrow> None
      | Some digit \<Rightarrow> let acc = acc * 16 + unat digit in if acc > u128_max then None else radix16 acc bs)"

definition lower_hex_byte :: "u8 \<Rightarrow> bool" where
  "lower_hex_byte b \<longleftrightarrow> 0x30 \<le> b \<and> b \<le> 0x39 \<or> 0x61 \<le> b \<and> b \<le> 0x66"

definition id_from_hex :: "bytes \<Rightarrow> id_error + id128" where
  "id_from_hex txt =
     (if length txt \<noteq> 32 then Inl (IdWrongLength (length txt))
      else
        (case first_index (\<lambda>b. \<not> lower_hex_byte b) 0 txt of
           Some at \<Rightarrow> Inl (IdNotHex at)
         | None \<Rightarrow>
             (case radix16 0 txt of
                None \<Rightarrow> Inl (IdWrongLength 32)
              | Some raw \<Rightarrow> if raw = 0 then Inl IdZero else Inr raw)))"

definition id_to_hex :: "id128 \<Rightarrow> bytes" where
  "id_to_hex v = hex_encode (be_bytes 16 v)"

datatype 'e mint_error = MintEntropy 'e | MintZero

text \<open>\<open>drawn\<close> is what the entropy source answers: sixteen bytes, or its error.\<close>

definition id_mint :: "'e + bytes \<Rightarrow> 'e mint_error + id128" where
  "id_mint drawn =
     (case drawn of
        Inl cause \<Rightarrow> Inl (MintEntropy cause)
      | Inr raw \<Rightarrow> if from_be raw = 0 then Inl MintZero else Inr (from_be raw))"

section \<open>Counters\<close>

datatype counter_error = CounterNotDecimal | CounterZero | CounterOverflow

text \<open>\<open>u64::from_str\<close> on digits.\<close>

fun radix10 :: "nat \<Rightarrow> bytes \<Rightarrow> nat option" where
  "radix10 acc [] = Some acc"
| "radix10 acc (b # bs) = (let acc = acc * 10 + (unat b - 48) in if acc > u64_max then None else radix10 acc bs)"

definition counter_from_decimal :: "bytes \<Rightarrow> counter_error + nat" where
  "counter_from_decimal txt =
     (if txt = [] \<or> \<not> list_all (\<lambda>b. 0x30 \<le> b \<and> b \<le> 0x39) txt then Inl CounterNotDecimal
      else
        (case radix10 0 txt of
           None \<Rightarrow> Inl CounterOverflow
         | Some raw \<Rightarrow> if raw = 0 then Inl CounterZero else Inr raw))"

definition checked_next :: "nat \<Rightarrow> nat option" where
  "checked_next value = (if value + 1 > u64_max then None else Some (value + 1))"

definition counter_exhausted :: "nat \<Rightarrow> bool" where
  "counter_exhausted value \<longleftrightarrow> value = u64_max"

section \<open>Digests\<close>

datatype digest_parse_error = DigestWrongLength nat | DigestHex hex_error

definition digest_to_hex :: "bytes \<Rightarrow> bytes" where
  "digest_to_hex d = hex_encode d"

definition digest_from_hex :: "bytes \<Rightarrow> digest_parse_error + bytes" where
  "digest_from_hex txt =
     (if length txt \<noteq> 64 then Inl (DigestWrongLength (length txt))
      else
        (case hex_decode_into txt (replicate 32 0) of
           (Inl e, raw) \<Rightarrow> Inl (DigestHex e)
         | (Inr _, raw) \<Rightarrow> Inr raw))"

datatype digest_algorithm = Blake3_256 | Sha256

datatype digest_error = UnknownAlgorithm | UnsupportedAlgorithm digest_algorithm | MalformedDigest digest_parse_error

fun algorithm_text :: "digest_algorithm \<Rightarrow> bytes" where
  "algorithm_text Blake3_256 = [98, 108, 97, 107, 101, 51, 95, 50, 53, 54]"
| "algorithm_text Sha256 = [115, 104, 97, 50, 53, 54]"

definition algorithm_from_wire :: "bytes \<Rightarrow> digest_algorithm option" where
  "algorithm_from_wire txt =
     (if txt = [98, 108, 97, 107, 101, 51, 95, 50, 53, 54] then Some Blake3_256
      else if txt = [115, 104, 97, 50, 53, 54] then Some Sha256
      else None)"

definition digest_from_tagged :: "bytes \<Rightarrow> bytes \<Rightarrow> digest_error + bytes" where
  "digest_from_tagged algorithm hex =
     rbind (ok_or UnknownAlgorithm (algorithm_from_wire algorithm)) (\<lambda>tag.
       if tag \<noteq> Blake3_256 then Inl (UnsupportedAlgorithm tag)
       else (case digest_from_hex hex of Inl e \<Rightarrow> Inl (MalformedDigest e) | Inr d \<Rightarrow> Inr d))"

section \<open>Keys\<close>

record effect_key =
  ek_run :: id128
  ek_action :: id128
  ek_attempt :: nat
  ek_flow :: bytes
  ek_digest :: bytes
  ek_environment :: id128
  ek_epoch :: nat

definition with_attempt :: "nat \<Rightarrow> effect_key \<Rightarrow> effect_key" where
  "with_attempt attempt key = key\<lparr>ek_attempt := attempt\<rparr>"

definition same_attempt_earlier_epoch :: "effect_key \<Rightarrow> effect_key \<Rightarrow> bool" where
  "same_attempt_earlier_epoch key other \<longleftrightarrow>
     ek_run key = ek_run other \<and> ek_action key = ek_action other \<and> ek_attempt key = ek_attempt other \<and>
     ek_flow key = ek_flow other \<and> ek_digest key = ek_digest other \<and> ek_environment key = ek_environment other \<and>
     ek_epoch key < ek_epoch other"

record effect_identity =
  ei_run :: id128
  ei_environment :: id128
  ei_flow :: bytes

definition identity_key :: "effect_identity \<Rightarrow> id128 \<Rightarrow> nat \<Rightarrow> bytes \<Rightarrow> nat \<Rightarrow> effect_key" where
  "identity_key ident action attempt digest epoch =
     \<lparr>ek_run = ei_run ident, ek_action = action, ek_attempt = attempt, ek_flow = ei_flow ident, ek_digest = digest,
      ek_environment = ei_environment ident, ek_epoch = epoch\<rparr>"

definition at_epoch :: "effect_identity \<Rightarrow> effect_key \<Rightarrow> nat \<Rightarrow> effect_key" where
  "at_epoch ident key epoch =
     identity_key \<lparr>ei_run = ek_run key, ei_environment = ei_environment ident, ei_flow = ek_flow key\<rparr>
       (ek_action key) (ek_attempt key) (ek_digest key) epoch"

text \<open>What a caller established about an effect (\<open>ecs/work.rs\<close>).\<close>

datatype effect_evidence = Applied | NotApplied

section \<open>Texts of identifiers\<close>

lemma first_index_None: "first_index P n xs = None \<longleftrightarrow> (\<forall>x \<in> set xs. \<not> P x)"
  by (induction xs arbitrary: n) auto

lemma first_index_Some: "first_index P n xs = Some i \<Longrightarrow> n \<le> i \<and> i < n + length xs \<and> P (xs ! (i - n)) \<and> (\<forall>x \<in> set (take (i - n) xs). \<not> P x)"
proof (induction xs arbitrary: n)
  case (Cons x xs)
  show ?case
  proof (cases "P x")
    case False
    then have "first_index P (Suc n) xs = Some i" using Cons.prems by simp
    from Cons.IH [OF this] have "Suc n \<le> i" "i < Suc n + length xs" "P (xs ! (i - Suc n))" "\<forall>x \<in> set (take (i - Suc n) xs). \<not> P x" by simp_all
    moreover from this have "i - n = Suc (i - Suc n)" by simp
    ultimately show ?thesis using False by simp
  qed (use Cons.prems in simp)
qed simp

lemma lower_hex_reading: "lower_hex_byte b \<Longrightarrow> decode_nibble b \<noteq> None \<and> hex_letter_lower b = b"
proof -
  have "lower_hex_byte b \<longrightarrow> decode_nibble b \<noteq> None \<and> hex_letter_lower b = b"
    by (rule u8_all [of "\<lambda>b. lower_hex_byte b \<longrightarrow> decode_nibble b \<noteq> None \<and> hex_letter_lower b = b"]) code_simp
  then show "lower_hex_byte b \<Longrightarrow> decode_nibble b \<noteq> None \<and> hex_letter_lower b = b" by blast
qed

lemma encode_lower_hex: "list_all lower_hex_byte (hex_encode bytes)"
proof -
  have "list_all lower_hex_byte (hex_encode [b])" for b
    by (rule u8_all [of "\<lambda>b. list_all lower_hex_byte (hex_encode [b])"]) code_simp
  then show ?thesis by (induction bytes) simp_all
qed

lemma lower_hex_encoded: "list_all lower_hex_byte s \<Longrightarrow> even (length s) \<Longrightarrow> s = hex_encode (nibbles s)"
  using hex_decode_lower [of s "nibbles s"] hex_decode_ok [of s "nibbles s"] lower_hex_reading
  by (simp add: first_bad_None list_all_iff map_idI)

lemma from_le_append: "from_le (xs @ ys) = from_le xs + 256 ^ length xs * from_le ys"
  by (induction xs) (simp_all add: algebra_simps)

lemma from_be_Cons: "from_be (b # bs) = unat b * 256 ^ length bs + from_be bs"
  by (simp add: from_be_def from_le_append)

lemma from_be_bound: "from_be bs < 256 ^ length bs"
proof (induction bs)
  case (Cons b bs)
  have "unat b * 256 ^ length bs \<le> 255 * 256 ^ length bs" using byte_lt_256 [of b] by (intro mult_right_mono) linarith+
  then show ?case using Cons unfolding from_be_Cons length_Cons power_Suc by linarith
qed (simp add: from_be_def)

lemma be_bytes_from: "be_bytes (length bs) (from_be bs) = bs"
  using le_bytes_from [of "rev bs"] by (simp add: be_bytes_def from_be_def)

lemma byte_nibbles: "unat (drop_bit 4 (b :: u8)) * 16 + unat (b AND 0x0f) = unat b"
  by (rule u8_all [of "\<lambda>b. unat (drop_bit 4 b) * 16 + unat (b AND 0x0f) = unat b"]) code_simp

lemma radix16_two:
  assumes "decode_nibble x = Some hi" and "decode_nibble y = Some lo" and "(acc * 16 + unat hi) * 16 + unat lo = n" and "n \<le> u128_max"
  shows "radix16 acc (x # y # bs) = radix16 n bs"
  using assms by (auto simp: Let_def)

lemma radix16_encode:
  "acc * 256 ^ length bs + from_be bs \<le> u128_max \<Longrightarrow> radix16 acc (hex_encode bs) = Some (acc * 256 ^ length bs + from_be bs)"
proof (induction bs arbitrary: acc)
  case (Cons b bs)
  let ?acc = "acc * 256 + unat b"
  have whole: "?acc * 256 ^ length bs + from_be bs = acc * 256 ^ length (b # bs) + from_be (b # bs)"
    by (simp add: from_be_Cons algebra_simps)
  have digits: "decode_nibble (hex_lower ! unat (drop_bit 4 b)) = Some (drop_bit 4 b)" "decode_nibble (hex_lower ! unat (b AND 0x0f)) = Some (b AND 0x0f)"
    by (rule nibble_lower [OF nibble_bounds(1)], rule nibble_lower [OF nibble_bounds(2)])
  have acc: "(acc * 16 + unat (drop_bit 4 b)) * 16 + unat (b AND 0x0f) = ?acc" using byte_nibbles [of b] by simp
  have "?acc * 1 \<le> ?acc * 256 ^ length bs" by (intro mult_le_mono) simp_all
  also have "\<dots> \<le> ?acc * 256 ^ length bs + from_be bs" by (rule le_add1)
  also have "\<dots> \<le> u128_max" unfolding whole by (rule Cons.prems)
  finally have small: "?acc \<le> u128_max" by simp
  have "radix16 acc (hex_encode (b # bs)) = radix16 ?acc (hex_encode bs)"
    unfolding hex_encode.simps by (rule radix16_two [OF digits acc small])
  then show ?case using Cons.IH [of ?acc] Cons.prems unfolding whole by simp
qed (simp add: from_be_def)

text \<open>An identifier has one text: the parser accepts a text exactly when it is the text the value is written with, thirty-two lowercase digits, and the value is neither zero nor above 128 bits.\<close>

theorem id_text_canonical:
  "id_from_hex txt = Inr v \<longleftrightarrow> 0 < v \<and> v \<le> u128_max \<and> txt = id_to_hex v"
proof -
  have big: "(256 :: nat) ^ 16 = u128_max + 1" by (simp add: u128_max_def)
  show ?thesis
  proof
    assume parsed: "id_from_hex txt = Inr v"
    then have len: "length txt = 32" and lower: "list_all lower_hex_byte txt" and raw: "radix16 0 txt = Some v" and "v \<noteq> 0"
      by (auto simp: id_from_hex_def first_index_None list_all_iff split: if_splits option.splits)
    have written: "txt = hex_encode (nibbles txt)" using lower_hex_encoded [OF lower] len by simp
    then have sixteen: "length (nibbles txt) = 16" using len hex_encode_length [of "nibbles txt"] by simp
    have bound: "from_be (nibbles txt) \<le> u128_max" using from_be_bound [of "nibbles txt"] sixteen big by simp
    have "v = from_be (nibbles txt)" using radix16_encode [of 0 "nibbles txt"] bound raw written by simp
    then show "0 < v \<and> v \<le> u128_max \<and> txt = id_to_hex v"
      using \<open>v \<noteq> 0\<close> bound written be_bytes_from [of "nibbles txt"] sixteen by (simp add: id_to_hex_def)
  next
    assume v: "0 < v \<and> v \<le> u128_max \<and> txt = id_to_hex v"
    then have "from_be (be_bytes 16 v) = v" by (intro from_be_bytes) (simp add: u128_max_def)
    then have "radix16 0 (id_to_hex v) = Some v" using v radix16_encode [of 0 "be_bytes 16 v"] by (simp add: id_to_hex_def)
    moreover have "first_index (\<lambda>b. \<not> lower_hex_byte b) 0 (id_to_hex v) = None"
      using encode_lower_hex [of "be_bytes 16 v"] by (simp add: first_index_None id_to_hex_def list_all_iff)
    moreover have "length (id_to_hex v) = 32" by (simp add: id_to_hex_def)
    ultimately show "id_from_hex txt = Inr v" using v by (simp add: id_from_hex_def)
  qed
qed

lemma id_not_hex:
  "id_from_hex txt = Inl (IdNotHex at) \<Longrightarrow> at < length txt \<and> \<not> lower_hex_byte (txt ! at) \<and> (\<forall>b \<in> set (take at txt). lower_hex_byte b)"
  using first_index_Some [of "\<lambda>b. \<not> lower_hex_byte b" 0 "txt" "at"]
  by (auto simp: id_from_hex_def split: if_splits option.splits)

lemma id_never_overflows: "id_from_hex txt = Inl (IdWrongLength n) \<Longrightarrow> n = length txt \<and> n \<noteq> 32"
proof -
  assume refused: "id_from_hex txt = Inl (IdWrongLength n)"
  show "n = length txt \<and> n \<noteq> 32"
  proof (cases "length txt = 32")
    case True
    then have lower: "list_all lower_hex_byte txt" and raw: "radix16 0 txt = None"
      using refused by (auto simp: id_from_hex_def first_index_None list_all_iff split: if_splits option.splits)
    have written: "txt = hex_encode (nibbles txt)" using lower_hex_encoded [OF lower] True by simp
    then have "length (nibbles txt) = 16" using True hex_encode_length [of "nibbles txt"] by simp
    then have "from_be (nibbles txt) \<le> u128_max" using from_be_bound [of "nibbles txt"] by (simp add: u128_max_def)
    then show ?thesis using radix16_encode [of 0 "nibbles txt"] raw written by simp
  qed (use refused in \<open>simp add: id_from_hex_def\<close>)
qed

lemma digest_text: "length d = 32 \<Longrightarrow> digest_from_hex (digest_to_hex d) = Inr d"
  using hex_decode_into_refines [of "hex_encode d" "replicate 32 0"] hex_decode_ok [of "hex_encode d" d]
  by (simp add: digest_from_hex_def digest_to_hex_def check_even_length_def)

lemma counter_positive: "counter_from_decimal txt = Inr v \<Longrightarrow> 0 < v \<and> v \<le> u64_max"
proof -
  have "radix10 acc bs = Some v \<Longrightarrow> acc \<le> u64_max \<Longrightarrow> v \<le> u64_max" for acc bs
    by (induction bs arbitrary: acc) (auto simp: Let_def split: if_splits)
  from this [of 0 "txt"] show "counter_from_decimal txt = Inr v \<Longrightarrow> 0 < v \<and> v \<le> u64_max"
    by (auto simp: counter_from_decimal_def split: if_splits option.splits)
qed

lemma checked_next_exhausted: "v \<le> u64_max \<Longrightarrow> checked_next v = None \<longleftrightarrow> counter_exhausted v"
  by (auto simp: checked_next_def counter_exhausted_def)

section \<open>Epochs of an attempt\<close>

lemma earlier_epoch_irrefl: "\<not> same_attempt_earlier_epoch key key"
  by (simp add: same_attempt_earlier_epoch_def)

lemma earlier_epoch_trans: "same_attempt_earlier_epoch a b \<Longrightarrow> same_attempt_earlier_epoch b c \<Longrightarrow> same_attempt_earlier_epoch a c"
  by (simp add: same_attempt_earlier_epoch_def)

lemma earlier_epoch_at: "same_attempt_earlier_epoch key (at_epoch ident key epoch) \<longleftrightarrow> ek_environment key = ei_environment ident \<and> ek_epoch key < epoch"
  by (auto simp: same_attempt_earlier_epoch_def at_epoch_def identity_key_def)

end
