(* ===== verification/Retry.thy ===== *)
theory Retry
  imports Effect
begin

text \<open>
  \<open>crates/lgwks-std/src/retry.rs\<close>: the retry policy of a networked caller, its backoff and its budget; and
  \<open>crates/lgwks-bot/src/retry.rs\<close>: whether an effect whose fate is uncertain may be sent again. Nanosecond counts are \<open>u128\<close>; a
  duration in nanoseconds is at most \<open>dur_max\<close>, far below.
\<close>

section \<open>The policy\<close>

record retry_policy =
  rp_max_attempts :: nat
  rp_base_delay :: duration
  rp_max_delay :: duration
  rp_deadline :: duration

definition retry_policy_new :: "nat \<Rightarrow> duration \<Rightarrow> duration \<Rightarrow> retry_policy" where
  "retry_policy_new max_attempts base_delay deadline =
     \<lparr>rp_max_attempts = max max_attempts 1, rp_base_delay = base_delay, rp_max_delay = dur_secs 30, rp_deadline = deadline\<rparr>"

definition with_max_delay :: "duration \<Rightarrow> retry_policy \<Rightarrow> retry_policy" where
  "with_max_delay max_delay p = p\<lparr>rp_max_delay := max_delay\<rparr>"

text \<open>Shifts on \<open>u128\<close>: right divides, left multiplies and drops what does not fit.\<close>

definition capped_backoff_nanos :: "nat \<Rightarrow> nat \<Rightarrow> nat \<Rightarrow> nat" where
  "capped_backoff_nanos base_nanos cap_nanos attempt =
     (let base_nanos = min base_nanos cap_nanos in
      if base_nanos = 0 \<or> base_nanos = cap_nanos then base_nanos
      else if attempt \<ge> 128 then cap_nanos
      else if base_nanos > cap_nanos div 2 ^ attempt then cap_nanos
      else base_nanos * 2 ^ attempt mod (u128_max + 1))"

definition duration_from_nanos :: "nat \<Rightarrow> duration" where
  "duration_from_nanos nanos =
     (let whole_seconds = nanos div 1000000000 in
      if whole_seconds > u64_max then dur_max
      else whole_seconds * 1000000000 + nanos mod 1000000000)"

definition policy_delay :: "retry_policy \<Rightarrow> nat \<Rightarrow> nat \<Rightarrow> duration" where
  "policy_delay p attempt jitter_entropy =
     (let backoff_nanos = capped_backoff_nanos (rp_base_delay p) (rp_max_delay p) attempt in
      if backoff_nanos = 0 then 0
      else
        let jitter_window = min (backoff_nanos + 1) u128_max in
        duration_from_nanos (backoff_nanos - jitter_entropy mod jitter_window))"

definition deadline_exceeded :: "retry_policy \<Rightarrow> duration \<Rightarrow> bool" where
  "deadline_exceeded p elapsed \<longleftrightarrow> elapsed \<ge> rp_deadline p"

definition should_retry :: "retry_policy \<Rightarrow> nat \<Rightarrow> duration \<Rightarrow> bool" where
  "should_retry p failures elapsed \<longleftrightarrow> failures < max (rp_max_attempts p) 1 \<and> \<not> deadline_exceeded p elapsed"

section \<open>Sending again\<close>

definition max_scope_bytes :: nat where
  "max_scope_bytes = 256"

text \<open>A label within the bound, or the length that was refused.\<close>

definition dedup_scope_new :: "bytes \<Rightarrow> nat + bytes" where
  "dedup_scope_new txt = (if length txt > max_scope_bytes then Inl (length txt) else Inr txt)"

datatype late_arrival = LateRefused | LateApplied | LateUnspecified

record dedup_contract =
  dd_action :: id128
  dd_payload :: bytes
  dd_scope :: bytes
  dd_retention :: duration
  dd_late :: late_arrival

definition rules_out_duplicate :: "dedup_contract \<Rightarrow> id128 \<Rightarrow> bytes \<Rightarrow> duration \<Rightarrow> bool" where
  "rules_out_duplicate contract action payload elapsed =
     (if dd_action contract \<noteq> action \<or> dd_payload contract \<noteq> payload then False
      else if elapsed < dd_retention contract then True
      else dd_late contract = LateRefused)"

datatype retry_class = NeverRetry | SafeRetry | RequiresEvidence

datatype retry_refusal =
    PermanentFailure
  | BudgetExhausted nat nat
  | DeadlineExhausted duration duration
  | AuthorityNotLive
  | IntentChanged
  | NotProvenUndone

datatype retry_decision = RetrySafe | UnderContract | RetryRefused "retry_refusal list"

fun permits_retry :: "retry_decision \<Rightarrow> bool" where
  "permits_retry (RetryRefused _) = False"
| "permits_retry _ = True"

fun decision_refusals :: "retry_decision \<Rightarrow> retry_refusal list" where
  "decision_refusals (RetryRefused reasons) = reasons"
| "decision_refusals _ = []"

record retry_facts =
  rf_policy :: retry_policy
  rf_attempts_used :: nat
  rf_class :: retry_class
  rf_dispatched :: effect_key
  rf_proposed :: bytes
  rf_authority_live :: bool
  rf_evidence :: "effect_evidence option"
  rf_contract :: "dedup_contract option"
  rf_elapsed :: duration

definition retry_facts_new :: "retry_policy \<Rightarrow> nat \<Rightarrow> retry_class \<Rightarrow> effect_key \<Rightarrow> bytes \<Rightarrow> retry_facts" where
  "retry_facts_new p attempts_used cls dispatched proposed =
     \<lparr>rf_policy = p, rf_attempts_used = attempts_used, rf_class = cls, rf_dispatched = dispatched, rf_proposed = proposed,
      rf_authority_live = False, rf_evidence = None, rf_contract = None, rf_elapsed = 0\<rparr>"

definition with_live_authority :: "retry_facts \<Rightarrow> retry_facts" where
  "with_live_authority facts = facts\<lparr>rf_authority_live := True\<rparr>"

definition with_evidence :: "effect_evidence \<Rightarrow> retry_facts \<Rightarrow> retry_facts" where
  "with_evidence evidence facts = facts\<lparr>rf_evidence := Some evidence\<rparr>"

definition with_contract :: "dedup_contract \<Rightarrow> retry_facts \<Rightarrow> retry_facts" where
  "with_contract contract facts = facts\<lparr>rf_contract := Some contract\<rparr>"

definition with_elapsed :: "duration \<Rightarrow> retry_facts \<Rightarrow> retry_facts" where
  "with_elapsed elapsed facts = facts\<lparr>rf_elapsed := elapsed\<rparr>"

definition proven_undone :: "retry_facts \<Rightarrow> bool" where
  "proven_undone facts \<longleftrightarrow> rf_evidence facts = Some NotApplied"

definition covered_by_contract :: "retry_facts \<Rightarrow> bool" where
  "covered_by_contract facts =
     (case rf_contract facts of
        Some contract \<Rightarrow> rules_out_duplicate contract (ek_action (rf_dispatched facts)) (ek_digest (rf_dispatched facts)) (rf_elapsed facts)
      | None \<Rightarrow> False)"

definition retry_admissible :: "retry_facts \<Rightarrow> retry_decision" where
  "retry_admissible facts =
     (if rf_class facts = NeverRetry then RetryRefused [PermanentFailure]
      else
        let max_attempts = max (rp_max_attempts (rf_policy facts)) 1;
            reasons = (if rf_attempts_used facts \<ge> max_attempts then [BudgetExhausted (rf_attempts_used facts) max_attempts] else []);
            reasons = (if deadline_exceeded (rf_policy facts) (rf_elapsed facts)
                       then reasons @ [DeadlineExhausted (rf_elapsed facts) (rp_deadline (rf_policy facts))] else reasons);
            reasons = (if \<not> rf_authority_live facts then reasons @ [AuthorityNotLive] else reasons);
            reasons = (if rf_proposed facts \<noteq> ek_digest (rf_dispatched facts) then reasons @ [IntentChanged] else reasons);
            covered = covered_by_contract facts;
            reasons = (if \<not> proven_undone facts \<and> \<not> covered then reasons @ [NotProvenUndone] else reasons) in
        if reasons \<noteq> [] then RetryRefused reasons
        else if proven_undone facts then RetrySafe
        else UnderContract)"

section \<open>Backoff\<close>

lemma dur_max_below_u128: "dur_max < u128_max"
  by (simp add: dur_max_def u128_max_def)

lemma duration_from_nanos_eq: "n \<le> dur_max \<Longrightarrow> duration_from_nanos n = n"
  by (auto simp: duration_from_nanos_def Let_def dur_max_def u64_max_def)

lemma capped_backoff_eq:
  assumes "cap_nanos \<le> u128_max"
  shows "capped_backoff_nanos base_nanos cap_nanos attempt = min cap_nanos (base_nanos * 2 ^ attempt)"
proof -
  let ?base = "min base_nanos cap_nanos"
  have pow: "1 \<le> (2::nat) ^ attempt" by simp
  have capped: "min cap_nanos (base_nanos * 2 ^ attempt) = min cap_nanos (?base * 2 ^ attempt)"
  proof (cases "base_nanos \<le> cap_nanos")
    case False
    then have "cap_nanos * 1 \<le> base_nanos * 2 ^ attempt" "cap_nanos * 1 \<le> cap_nanos * 2 ^ attempt" using pow by (intro mult_le_mono; simp)+
    then show ?thesis using False by (simp add: min_def)
  qed simp
  consider "?base = 0 \<or> ?base = cap_nanos" | (large) "0 < ?base" "?base < cap_nanos" "128 \<le> attempt"
    | (shifted) "0 < ?base" "?base < cap_nanos" "attempt < 128" by linarith
  then show ?thesis
  proof cases
    case 1
    moreover have "cap_nanos * 1 \<le> cap_nanos * 2 ^ attempt" using pow by (intro mult_le_mono) simp_all
    ultimately show ?thesis unfolding capped by (auto simp: capped_backoff_nanos_def)
  next
    case large
    have "(2::nat) ^ 128 \<le> 2 ^ attempt" using large(3) by (intro power_increasing) simp_all
    then have "u128_max < 2 ^ attempt" by (simp add: u128_max_def)
    moreover have "1 * 2 ^ attempt \<le> ?base * 2 ^ attempt" using large(1) by (intro mult_le_mono) simp_all
    ultimately have "cap_nanos \<le> ?base * 2 ^ attempt" using assms by linarith
    then show ?thesis unfolding capped using large by (simp add: capped_backoff_nanos_def)
  next
    case shifted
    have "cap_nanos div 2 ^ attempt < b \<longleftrightarrow> cap_nanos < b * 2 ^ attempt" for b by (simp add: div_less_iff_less_mult)
    note reach = this [of ?base]
    show ?thesis
    proof (cases "cap_nanos < ?base * 2 ^ attempt")
      case True
      then show ?thesis unfolding capped using shifted reach by (simp add: capped_backoff_nanos_def Let_def)
    next
      case False
      then have "?base * 2 ^ attempt mod (u128_max + 1) = ?base * 2 ^ attempt" using assms by simp
      moreover have "base_nanos < cap_nanos" using shifted by linarith
      ultimately show ?thesis unfolding capped using shifted reach False by (simp add: capped_backoff_nanos_def Let_def)
    qed
  qed
qed

text \<open>The backoff is exact for every retry index: the wait is the base doubled once per earlier retry and capped, less the entropy modulo one more than that. So it never exceeds the cap, full jitter only shortens it, entropy zero waits it out whole, and every shorter wait is reached by some entropy.\<close>

theorem policy_delay_exact:
  assumes "rp_max_delay p \<le> dur_max"
  shows "policy_delay p attempt entropy =
      (let backoff = min (rp_max_delay p) (rp_base_delay p * 2 ^ attempt) in backoff - entropy mod (backoff + 1)) \<and>
    (\<forall>wait \<le> min (rp_max_delay p) (rp_base_delay p * 2 ^ attempt). \<exists>entropy \<le> rp_max_delay p. policy_delay p attempt entropy = wait)"
proof -
  let ?backoff = "min (rp_max_delay p) (rp_base_delay p * 2 ^ attempt)"
  have capped: "capped_backoff_nanos (rp_base_delay p) (rp_max_delay p) attempt = ?backoff"
    by (rule capped_backoff_eq) (use assms dur_max_below_u128 in linarith)
  have window: "min (?backoff + 1) u128_max = ?backoff + 1" using assms dur_max_below_u128 by linarith
  have small: "?backoff - e \<le> dur_max" for e using assms by linarith
  have exact: "policy_delay p attempt e = ?backoff - e mod (?backoff + 1)" for e
    unfolding policy_delay_def capped Let_def window duration_from_nanos_eq [OF small] by (cases "?backoff = 0") simp_all
  have "\<exists>entropy \<le> rp_max_delay p. policy_delay p attempt entropy = wait" if "wait \<le> ?backoff" for wait
  proof (intro exI conjI)
    show "?backoff - wait \<le> rp_max_delay p" by simp
    have "(?backoff - wait) mod (?backoff + 1) = ?backoff - wait" by (intro mod_less) linarith
    then show "policy_delay p attempt (?backoff - wait) = wait" unfolding exact using that by simp
  qed
  then show ?thesis by (simp add: exact Let_def)
qed

lemma retry_ends: "should_retry p failures elapsed \<Longrightarrow> failures < max (rp_max_attempts p) 1 \<and> elapsed < rp_deadline p"
  by (simp add: should_retry_def deadline_exceeded_def)

section \<open>Whether an effect may be sent again\<close>

text \<open>What the rule asks for, one condition each.\<close>

definition retry_condition :: "retry_facts \<Rightarrow> retry_refusal \<Rightarrow> bool" where
  "retry_condition facts r = (case r of
     PermanentFailure \<Rightarrow> rf_class facts \<noteq> NeverRetry
   | BudgetExhausted used most \<Rightarrow> used = rf_attempts_used facts \<and> most = max (rp_max_attempts (rf_policy facts)) 1 \<longrightarrow> used < most
   | DeadlineExhausted elapsed deadline \<Rightarrow> elapsed = rf_elapsed facts \<and> deadline = rp_deadline (rf_policy facts) \<longrightarrow> elapsed < deadline
   | AuthorityNotLive \<Rightarrow> rf_authority_live facts
   | IntentChanged \<Rightarrow> rf_proposed facts = ek_digest (rf_dispatched facts)
   | NotProvenUndone \<Rightarrow> rf_evidence facts = Some NotApplied \<or> covered_by_contract facts)"

text \<open>An effect is sent again only when that is right: a decision permits a retry exactly when every condition of the rule holds, calls it safe exactly when the effect is known not to have happened, and a refusal of a failure that is not permanent names exactly the conditions that do not hold.\<close>

theorem retry_admissible_exact:
  "(permits_retry (retry_admissible facts) \<longleftrightarrow> (\<forall>r. retry_condition facts r)) \<and>
   (retry_admissible facts = RetrySafe \<longleftrightarrow> (\<forall>r. retry_condition facts r) \<and> rf_evidence facts = Some NotApplied) \<and>
   (rf_class facts \<noteq> NeverRetry \<longrightarrow> set (decision_refusals (retry_admissible facts)) = {r. \<not> retry_condition facts r} \<and>
      distinct (decision_refusals (retry_admissible facts)))"
proof -
  have all: "(\<forall>r. retry_condition facts r) \<longleftrightarrow> {r. \<not> retry_condition facts r} = {}" by blast
  have missing: "{r. \<not> retry_condition facts r} =
      (if rf_class facts = NeverRetry then {PermanentFailure} else {}) \<union>
      (if rf_attempts_used facts \<ge> max (rp_max_attempts (rf_policy facts)) 1 then {BudgetExhausted (rf_attempts_used facts) (max (rp_max_attempts (rf_policy facts)) 1)} else {}) \<union>
      (if deadline_exceeded (rf_policy facts) (rf_elapsed facts) then {DeadlineExhausted (rf_elapsed facts) (rp_deadline (rf_policy facts))} else {}) \<union>
      (if \<not> rf_authority_live facts then {AuthorityNotLive} else {}) \<union>
      (if rf_proposed facts \<noteq> ek_digest (rf_dispatched facts) then {IntentChanged} else {}) \<union>
      (if \<not> proven_undone facts \<and> \<not> covered_by_contract facts then {NotProvenUndone} else {})"
    by (rule set_eqI) (auto simp: retry_condition_def deadline_exceeded_def proven_undone_def split: retry_refusal.splits)
  show ?thesis unfolding all missing
    by (auto simp: retry_admissible_def Let_def proven_undone_def)
qed

lemma applied_resent_only_under_contract:
  "rf_evidence facts = Some Applied \<Longrightarrow> permits_retry (retry_admissible facts) \<Longrightarrow> retry_admissible facts = UnderContract \<and> covered_by_contract facts"
  using retry_admissible_def [of facts] by (auto simp: Let_def proven_undone_def split: if_splits)

lemma late_resend_refused: "rules_out_duplicate contract action payload elapsed \<Longrightarrow> dd_retention contract \<le> elapsed \<Longrightarrow> dd_late contract = LateRefused"
  by (simp add: rules_out_duplicate_def split: if_splits)

section \<open>Small policies\<close>

theorem policy_delay_exact_witness:
  "policy_delay (retry_policy_new 3 (dur_millis 100) (dur_secs 5)) 1 0 = dur_millis 200"
proof -
  have "rp_max_delay (retry_policy_new 3 (dur_millis 100) (dur_secs 5)) \<le> dur_max" by (simp add: retry_policy_new_def dur_secs_def dur_max_def)
  from conjunct1 [OF policy_delay_exact [OF this, of 1 0]] show ?thesis
    by (simp add: retry_policy_new_def dur_secs_def dur_millis_def)
qed

definition demo_facts :: retry_facts where
  "demo_facts = retry_facts_new (retry_policy_new 3 0 10) 1 RequiresEvidence
     \<lparr>ek_run = 1, ek_action = 2, ek_attempt = 1, ek_flow = [], ek_digest = [7], ek_environment = 3, ek_epoch = 1\<rparr> [7]"

theorem retry_admissible_exact_witness:
  "set (decision_refusals (retry_admissible demo_facts)) = {r. \<not> retry_condition demo_facts r} \<and>
   decision_refusals (retry_admissible demo_facts) = [AuthorityNotLive, NotProvenUndone]"
  using retry_admissible_exact [of demo_facts]
  by (simp add: demo_facts_def retry_facts_new_def retry_admissible_def retry_policy_new_def deadline_exceeded_def proven_undone_def covered_by_contract_def)

end
