(* ===== verification/Journal.thy ===== *)
theory Journal
  imports Effect
begin

text \<open>
  \<open>crates/lgwks-bot/src/journal.rs\<close>, \<open>journal/wire_form.rs\<close>, \<open>adapters.rs\<close>, \<open>error.rs\<close>, \<open>memory.rs\<close>: what an effect journal
  records, the ladder every effect climbs, the chain of heads, and the journal in memory. The hash is the argument
  \<open>hash\<close>, the archived bytes of an event are \<open>enc\<close>, which may refuse; their error, like that of storage, is \<open>'x\<close>. A
  path is the list of its components.
\<close>

section \<open>Events\<close>

record journal_position =
  jp_sequence :: nat
  jp_head :: bytes

definition genesis_domain :: bytes where
  "genesis_domain = map of_char ''lgwks.journal.v1.genesis''"

definition genesis_position :: "(bytes \<Rightarrow> bytes) \<Rightarrow> journal_position" where
  "genesis_position hash = \<lparr>jp_sequence = 0, jp_head = hash genesis_domain\<rparr>"

definition max_journal_events :: nat where "max_journal_events = 100000"
definition max_journal_bytes :: nat where "max_journal_bytes = 64 * 1024 * 1024"

datatype durability = Ephemeral | ProcessCrash | PowerLoss

fun survives_process_crash :: "durability \<Rightarrow> bool" where
  "survives_process_crash Ephemeral = False"
| "survives_process_crash _ = True"

fun durability_meets :: "durability \<Rightarrow> durability \<Rightarrow> bool" where
  "durability_meets _ Ephemeral = True"
| "durability_meets ProcessCrash ProcessCrash = True"
| "durability_meets PowerLoss ProcessCrash = True"
| "durability_meets PowerLoss PowerLoss = True"
| "durability_meets Ephemeral _ = False"
| "durability_meets ProcessCrash PowerLoss = False"

datatype event_kind = IntentKind | DispatchKind | OutcomeKind | VerifiedKind

fun kind_next :: "event_kind \<Rightarrow> event_kind option" where
  "kind_next IntentKind = Some DispatchKind"
| "kind_next DispatchKind = Some OutcomeKind"
| "kind_next OutcomeKind = Some VerifiedKind"
| "kind_next VerifiedKind = Some VerifiedKind"

datatype verification_result = Satisfied | NotSatisfied

record verification =
  vf_predicate :: id128
  vf_version :: nat
  vf_observations :: bytes
  vf_result :: verification_result

datatype effect_event =
    IntentAdmitted effect_key
  | DispatchPrepared effect_key
  | OutcomeObserved effect_key effect_evidence
  | VerifiedEvent effect_key verification

fun event_key :: "effect_event \<Rightarrow> effect_key" where
  "event_key (IntentAdmitted key) = key"
| "event_key (DispatchPrepared key) = key"
| "event_key (OutcomeObserved key _) = key"
| "event_key (VerifiedEvent key _) = key"

fun kind_of :: "effect_event \<Rightarrow> event_kind" where
  "kind_of (IntentAdmitted _) = IntentKind"
| "kind_of (DispatchPrepared _) = DispatchKind"
| "kind_of (OutcomeObserved _ _) = OutcomeKind"
| "kind_of (VerifiedEvent _ _) = VerifiedKind"

record journal_entry =
  je_position :: journal_position
  je_event :: effect_event

record durable_ack =
  da_position :: journal_position
  da_promise :: durability

datatype journal_limit = LimitEvents | LimitBytes | LimitWatermark | LimitGeneration | LimitCheckpointActions | LimitCheckpointUnresolved

datatype seal_pause = AfterSealWrite | AfterSuccessorWrite | AfterSuccessorSync | AfterDirectorySync

datatype chain_break =
    Disagreement nat journal_position journal_position
  | Unencodable nat

datatype corruption_kind = Undecodable | Framed | ChainBroken chain_break | SecondSeal

datatype 'x journal_error =
    TailMismatch journal_position journal_position
  | SnapshotStale nat nat
  | PromiseUnmet durability durability
  | ReceiptUnavailable durability
  | ReceiptMismatch journal_position journal_position
  | EntryMismatch journal_position effect_event effect_event
  | OutOfOrder effect_key "event_kind option" event_kind
  | JournalExhausted
  | Superseded "bytes list"
  | AttemptAlreadyWalked effect_key nat
  | ContinuationPaused seal_pause
  | CapacityExceeded journal_limit nat nat
  | JournalLocked "bytes list"
  | JournalStorage 'x
  | OutcomeUnknownIo 'x
  | Encoding 'x
  | Corrupt nat corruption_kind

section \<open>The chain and the ladder\<close>

definition chain_over_bytes :: "(bytes \<Rightarrow> bytes) \<Rightarrow> bytes \<Rightarrow> bytes \<Rightarrow> bytes" where
  "chain_over_bytes hash previous payload = hash (previous @ payload)"

definition chain_event :: "(bytes \<Rightarrow> bytes) \<Rightarrow> (effect_event \<Rightarrow> 'x + bytes) \<Rightarrow> journal_position \<Rightarrow> effect_event \<Rightarrow> 'x journal_error + bytes" where
  "chain_event hash enc previous ev = (case enc ev of Inl cause \<Rightarrow> Inl (Encoding cause) | Inr bytes \<Rightarrow> Inr (hash (jp_head previous @ bytes)))"

definition next_allowed_of :: "event_kind option \<Rightarrow> event_kind option" where
  "next_allowed_of last_kind = (case last_kind of Some kind \<Rightarrow> kind_next kind | None \<Rightarrow> Some IntentKind)"

definition check_append_order ::
  "journal_position \<Rightarrow> journal_position \<Rightarrow> effect_event \<Rightarrow> event_kind option \<Rightarrow> 'x journal_error + unit" where
  "check_append_order expected_tail actual ev last_kind =
     (if expected_tail \<noteq> actual then Inl (TailMismatch expected_tail actual)
      else
        let attempted = kind_of ev; expected = next_allowed_of last_kind in
        if expected \<noteq> Some attempted then Inl (OutOfOrder (event_key ev) expected attempted) else Inr ())"

definition bound_events :: "nat \<Rightarrow> nat \<Rightarrow> 'x journal_error + unit" where
  "bound_events held additional =
     (let requested = sat_add_u64 held additional in
      if requested > max_journal_events then Inl (CapacityExceeded LimitEvents max_journal_events requested) else Inr ())"

fun verify_chain_from ::
  "(bytes \<Rightarrow> bytes) \<Rightarrow> (effect_event \<Rightarrow> 'x + bytes) \<Rightarrow> journal_position \<Rightarrow> journal_entry list \<Rightarrow> chain_break + journal_position" where
  "verify_chain_from hash enc position [] = Inr position"
| "verify_chain_from hash enc position (entry # entries) =
     (let sequence = sat_add_u64 (jp_sequence position) 1 in
      case chain_event hash enc position (je_event entry) of
        Inl _ \<Rightarrow> Inl (Unencodable sequence)
      | Inr head \<Rightarrow>
          let recomputed = \<lparr>jp_sequence = sequence, jp_head = head\<rparr>; recorded = je_position entry in
          if jp_sequence recorded \<noteq> sequence \<or> jp_head recorded \<noteq> head then Inl (Disagreement sequence recorded recomputed)
          else verify_chain_from hash enc recomputed entries)"

definition verify_chain :: "(bytes \<Rightarrow> bytes) \<Rightarrow> (effect_event \<Rightarrow> 'x + bytes) \<Rightarrow> journal_entry list \<Rightarrow> chain_break + journal_position" where
  "verify_chain hash enc entries = verify_chain_from hash enc (genesis_position hash) entries"

section \<open>The journal in memory\<close>

record memory_journal =
  mj_committed :: "journal_entry list"
  mj_ladder :: "effect_key \<rightharpoonup> event_kind"
  mj_outcomes :: "effect_key \<rightharpoonup> journal_position \<times> effect_evidence"
  mj_bytes :: nat

definition memory_new :: memory_journal where
  "memory_new = \<lparr>mj_committed = [], mj_ladder = Map.empty, mj_outcomes = Map.empty, mj_bytes = 0\<rparr>"

definition memory_events :: "memory_journal \<Rightarrow> effect_event list" where
  "memory_events j = map je_event (mj_committed j)"

definition memory_tail :: "(bytes \<Rightarrow> bytes) \<Rightarrow> memory_journal \<Rightarrow> journal_position" where
  "memory_tail hash j = (if mj_committed j = [] then genesis_position hash else je_position (last (mj_committed j)))"

definition chain_base :: "journal_entry list \<Rightarrow> nat" where
  "chain_base entries = (case entries of entry # _ \<Rightarrow> jp_sequence (je_position entry) - 1 | [] \<Rightarrow> 0)"

text \<open>The indexed read of \<open>committed_reads!\<close>, and the walk of the trait it stands for.\<close>

definition committed_entry :: "nat \<Rightarrow> journal_entry list \<Rightarrow> journal_position \<Rightarrow> journal_entry option" where
  "committed_entry base entries position =
     (if jp_sequence position < base then None
      else
        let offset = jp_sequence position - base in
        if offset < 1 then None
        else
          let n = offset - 1 in
          if n < length entries \<and> je_position (entries ! n) = position then Some (entries ! n) else None)"

definition committed_entry_walk :: "journal_entry list \<Rightarrow> journal_position \<Rightarrow> journal_entry option" where
  "committed_entry_walk entries position = find (\<lambda>entry. je_position entry = position) entries"

definition outcome_of :: "journal_entry \<Rightarrow> (effect_key \<times> journal_position \<times> effect_evidence) option" where
  "outcome_of entry = (case je_event entry of OutcomeObserved key evidence \<Rightarrow> Some (key, je_position entry, evidence) | _ \<Rightarrow> None)"

fun outcome_walk :: "effect_key \<Rightarrow> journal_entry list \<Rightarrow> (journal_position \<times> effect_evidence) option" where
  "outcome_walk key [] = None"
| "outcome_walk key (entry # entries) =
     (case outcome_of entry of
        Some (held, position, evidence) \<Rightarrow> if held = key then Some (position, evidence) else outcome_walk key entries
      | None \<Rightarrow> outcome_walk key entries)"

definition memory_append ::
  "(bytes \<Rightarrow> bytes) \<Rightarrow> (effect_event \<Rightarrow> 'x + bytes) \<Rightarrow> journal_position \<Rightarrow> effect_event \<Rightarrow> memory_journal \<Rightarrow> 'x journal_error + (durable_ack \<times> memory_journal)" where
  "memory_append hash enc expected_tail ev j =
     (let actual = memory_tail hash j; key = event_key ev in
      rbind (check_append_order expected_tail actual ev (mj_ladder j key)) (\<lambda>_.
        rbind (bound_events (length (mj_committed j)) 1) (\<lambda>_.
          case enc ev of
            Inl cause \<Rightarrow> Inl (Encoding cause)
          | Inr payload \<Rightarrow>
              let requested_bytes = sat_add_u64 (sat_add_u64 (mj_bytes j) (length payload)) 36 in
              if requested_bytes > max_journal_bytes then Inl (CapacityExceeded LimitBytes max_journal_bytes requested_bytes)
              else if jp_sequence actual + 1 > u64_max then Inl JournalExhausted
              else
                rbind (chain_event hash enc actual ev) (\<lambda>head.
                  let position = \<lparr>jp_sequence = jp_sequence actual + 1, jp_head = head\<rparr> in
                  Inr (\<lparr>da_position = position, da_promise = Ephemeral\<rparr>,
                       \<lparr>mj_committed = mj_committed j @ [\<lparr>je_position = position, je_event = ev\<rparr>],
                        mj_ladder = (mj_ladder j)(key \<mapsto> kind_of ev),
                        mj_outcomes = (case ev of OutcomeObserved _ evidence \<Rightarrow> (mj_outcomes j)(key \<mapsto> (position, evidence)) | _ \<Rightarrow> mj_outcomes j),
                        mj_bytes = requested_bytes\<rparr>)))))"

text \<open>\<open>append_batch\<close> of the trait: one append after the other, up to the first refusal; what was appended before it stays.\<close>

fun append_batch ::
  "(bytes \<Rightarrow> bytes) \<Rightarrow> (effect_event \<Rightarrow> 'x + bytes) \<Rightarrow> effect_event list \<Rightarrow> durable_ack list \<Rightarrow> memory_journal \<Rightarrow>
   ('x journal_error + durable_ack list) \<times> memory_journal" where
  "append_batch hash enc [] acks j = (Inr acks, j)"
| "append_batch hash enc (ev # evs) acks j =
     (case memory_append hash enc (memory_tail hash j) ev j of
        Inl e \<Rightarrow> (Inl e, j)
      | Inr (ack, j) \<Rightarrow> append_batch hash enc evs (acks @ [ack]) j)"

text \<open>A journal whose promise does not survive the process takes no effect that leaves it.\<close>

definition admit_external_handoff :: "durability \<Rightarrow> 'x journal_error + durability" where
  "admit_external_handoff offered = (if survives_process_crash offered then Inr offered else Inl (PromiseUnmet ProcessCrash offered))"

section \<open>What a journal in memory keeps\<close>

definition ladder_of :: "effect_event list \<Rightarrow> effect_key \<rightharpoonup> event_kind" where
  "ladder_of evs = map_of (rev (map (\<lambda>ev. (event_key ev, kind_of ev)) evs))"

definition outcomes_of :: "journal_entry list \<Rightarrow> effect_key \<rightharpoonup> journal_position \<times> effect_evidence" where
  "outcomes_of entries = map_of (rev (List.map_filter outcome_of entries))"

text \<open>The kinds of the events of one key, and what it is to climb the ladder from a rung on.\<close>

definition kinds_of :: "effect_key \<Rightarrow> effect_event list \<Rightarrow> event_kind list" where
  "kinds_of key evs = map kind_of (filter (\<lambda>ev. event_key ev = key) evs)"

fun climbs :: "event_kind option \<Rightarrow> event_kind list \<Rightarrow> bool" where
  "climbs rung [] = True"
| "climbs rung (kind # kinds) \<longleftrightarrow> next_allowed_of rung = Some kind \<and> climbs (Some kind) kinds"

lemma climbs_snoc: "climbs rung (kinds @ [kind]) \<longleftrightarrow> climbs rung kinds \<and> next_allowed_of (if kinds = [] then rung else Some (last kinds)) = Some kind"
  by (induction rung kinds rule: climbs.induct) auto

lemma climbs_shape: "climbs None kinds \<Longrightarrow> \<exists>n m. kinds = take n [IntentKind, DispatchKind, OutcomeKind] @ replicate m VerifiedKind \<and> n \<le> 3 \<and> (m > 0 \<longrightarrow> n = 3)"
proof (induction kinds rule: rev_induct)
  case Nil
  show ?case by (intro exI [of _ 0]) simp
next
  case (snoc kind kinds)
  then obtain n m where shape: "kinds = take n [IntentKind, DispatchKind, OutcomeKind] @ replicate m VerifiedKind" "n \<le> 3" "m > 0 \<longrightarrow> n = 3"
    and rung: "next_allowed_of (if kinds = [] then None else Some (last kinds)) = Some kind"
    unfolding climbs_snoc by blast
  consider "n = 0" "m = 0" | "n = 1" "m = 0" | "n = 2" "m = 0" | "n = 3" using shape(2,3) by (cases "m = 0") force+
  then show ?case
  proof cases
    case 1
    then show ?thesis using shape rung by (intro exI [of _ 1] exI [of _ 0]) (simp add: next_allowed_of_def)
  next
    case 2
    then show ?thesis using shape rung by (intro exI [of _ 2] exI [of _ 0]) (simp add: next_allowed_of_def)
  next
    case 3
    then have "kinds = [IntentKind, DispatchKind]" using shape(1) by (simp add: numeral_2_eq_2)
    then show ?thesis using rung by (intro exI [of _ 3] exI [of _ 0]) (simp add: next_allowed_of_def)
  next
    case 4
    then have "kind = VerifiedKind" using shape(1) rung by (cases m) (simp_all add: next_allowed_of_def split: if_splits)
    then show ?thesis using shape(1) 4 by (intro exI [of _ 3] exI [of _ "Suc m"]) (simp flip: replicate_append_same)
  qed
qed

lemma kinds_of_snoc: "kinds_of key (evs @ [ev]) = kinds_of key evs @ (if event_key ev = key then [kind_of ev] else [])"
  by (simp add: kinds_of_def)

lemma ladder_of_snoc: "ladder_of (evs @ [ev]) = (ladder_of evs)(event_key ev \<mapsto> kind_of ev)"
  by (auto simp: ladder_of_def)

lemma ladder_of_last: "ladder_of evs key = (if kinds_of key evs = [] then None else Some (last (kinds_of key evs)))"
proof (induction evs rule: rev_induct)
  case Nil
  show ?case by (simp add: ladder_of_def kinds_of_def)
next
  case (snoc ev evs)
  then show ?case by (simp add: ladder_of_snoc kinds_of_snoc)
qed

lemma map_filter_snoc: "List.map_filter f (xs @ [x]) = List.map_filter f xs @ (case f x of None \<Rightarrow> [] | Some y \<Rightarrow> [y])"
  by (simp add: List.map_filter_def split: option.splits)

lemma outcomes_of_snoc:
  "outcomes_of (entries @ [entry]) = (case outcome_of entry of None \<Rightarrow> outcomes_of entries | Some (key, outcome) \<Rightarrow> (outcomes_of entries)(key \<mapsto> outcome))"
  by (auto simp: outcomes_of_def map_filter_snoc split: option.splits)

lemma outcome_walk_eq: "outcome_walk key entries = map_of (List.map_filter outcome_of entries) key"
  by (induction entries) (auto simp: List.map_filter_def split: option.splits)

lemma outcomes_of_walk: "outcomes_of entries key = outcome_walk key (rev entries)"
  unfolding outcomes_of_def outcome_walk_eq by (simp add: List.map_filter_def rev_map rev_filter)

section \<open>Chains that verify\<close>

lemma verify_chain_from_append:
  "verify_chain_from hash enc position (es @ fs) = rbind (verify_chain_from hash enc position es) (\<lambda>p. verify_chain_from hash enc p fs)"
  by (induction es arbitrary: position) (auto simp: Let_def split: sum.splits)

lemma verify_chain_from_one:
  "verify_chain_from hash enc position [entry] = Inr p \<longleftrightarrow>
    (\<exists>payload. enc (je_event entry) = Inr payload \<and> p = je_position entry \<and>
      je_position entry = \<lparr>jp_sequence = sat_add_u64 (jp_sequence position) 1, jp_head = hash (jp_head position @ payload)\<rparr>)"
  by (cases entry; cases "je_position entry") (auto simp: chain_event_def Let_def split: sum.splits)

lemma verify_chain_snoc:
  "verify_chain hash enc (es @ [entry]) = Inr p \<longleftrightarrow>
    (\<exists>q payload. verify_chain hash enc es = Inr q \<and> enc (je_event entry) = Inr payload \<and> p = je_position entry \<and>
      je_position entry = \<lparr>jp_sequence = sat_add_u64 (jp_sequence q) 1, jp_head = hash (jp_head q @ payload)\<rparr>)"
  unfolding verify_chain_def verify_chain_from_append rbind_eq_Inr verify_chain_from_one by blast

lemma verify_chain_Nil: "verify_chain hash enc [] = Inr p \<longleftrightarrow> p = genesis_position hash"
  by (auto simp: verify_chain_def)

lemma verify_chain_tail:
  "verify_chain hash enc es = Inr p \<Longrightarrow> p = (if es = [] then genesis_position hash else je_position (last es))"
  by (cases es rule: rev_cases) (auto simp: verify_chain_Nil verify_chain_snoc)

lemma verify_chain_sequence: "verify_chain hash enc es = Inr p \<Longrightarrow> length es \<le> u64_max \<Longrightarrow> jp_sequence p = length es"
proof (induction es arbitrary: p rule: rev_induct)
  case Nil
  then show ?case by (simp add: verify_chain_Nil genesis_position_def)
next
  case (snoc entry es)
  then obtain q where "verify_chain hash enc es = Inr q" "jp_sequence p = sat_add_u64 (jp_sequence q) 1" by (auto simp: verify_chain_snoc)
  then show ?case using snoc.IH [of q] snoc.prems(2) by (simp add: sat_add_u64_def)
qed

lemma verify_chain_positions:
  "verify_chain hash enc es = Inr p \<Longrightarrow> length es \<le> u64_max \<Longrightarrow> i < length es \<Longrightarrow> jp_sequence (je_position (es ! i)) = Suc i"
proof (induction es arbitrary: p rule: rev_induct)
  case (snoc entry es)
  then obtain q where q: "verify_chain hash enc es = Inr q" by (auto simp: verify_chain_snoc)
  show ?case
  proof (cases "i < length es")
    case True
    then show ?thesis using snoc.IH [OF q] snoc.prems(2) by (simp add: nth_append)
  next
    case False
    then show ?thesis using verify_chain_sequence [OF snoc.prems(1,2)] verify_chain_tail [OF snoc.prems(1)] snoc.prems(3)
      by (simp add: nth_append le_less_Suc_eq)
  qed
qed simp

text \<open>The bytes a chain hashes.\<close>

fun event_chain_inputs :: "(effect_event \<Rightarrow> 'x + bytes) \<Rightarrow> journal_position \<Rightarrow> journal_entry list \<Rightarrow> bytes set" where
  "event_chain_inputs enc position [] = {}"
| "event_chain_inputs enc position (entry # entries) =
     (case enc (je_event entry) of Inl _ \<Rightarrow> {} | Inr payload \<Rightarrow> insert (jp_head position @ payload) (event_chain_inputs enc (je_position entry) entries))"

definition hash_collides :: "(bytes \<Rightarrow> bytes) \<Rightarrow> bytes set \<Rightarrow> bool" where
  "hash_collides hash hashed \<longleftrightarrow> (\<exists>a \<in> hashed. \<exists>b \<in> hashed. a \<noteq> b \<and> hash a = hash b)"

lemma hash_collidesI: "a \<in> hashed \<Longrightarrow> b \<in> hashed \<Longrightarrow> a \<noteq> b \<Longrightarrow> hash a = hash b \<Longrightarrow> hash_collides hash hashed"
  unfolding hash_collides_def by blast

lemma hash_collides_mono: "hash_collides hash hashed \<Longrightarrow> hashed \<subseteq> hashed' \<Longrightarrow> hash_collides hash hashed'"
  unfolding hash_collides_def by blast

lemma event_chain_inputs_from_snoc:
  "verify_chain_from hash enc position es = Inr q \<Longrightarrow> enc (je_event entry) = Inr payload \<Longrightarrow>
    event_chain_inputs enc position (es @ [entry]) = insert (jp_head q @ payload) (event_chain_inputs enc position es)"
proof (induction es arbitrary: position)
  case (Cons e es)
  from Cons.prems(1) obtain b where b: "enc (je_event e) = Inr b" "verify_chain_from hash enc (je_position e) es = Inr q"
    by (cases e; cases "je_position e") (auto simp: chain_event_def Let_def split: sum.splits if_splits)
  show ?case using Cons.IH [OF b(2) Cons.prems(2)] b(1) by (simp add: insert_commute)
qed simp

lemma event_chain_inputs_snoc:
  "verify_chain hash enc es = Inr q \<Longrightarrow> enc (je_event entry) = Inr payload \<Longrightarrow>
    event_chain_inputs enc (genesis_position hash) (es @ [entry]) = insert (jp_head q @ payload) (event_chain_inputs enc (genesis_position hash) es)"
  unfolding verify_chain_def by (rule event_chain_inputs_from_snoc)

lemma verify_chain_head: "verify_chain hash enc es = Inr p \<Longrightarrow> (\<And>b. length (hash b) = 32) \<Longrightarrow> length (jp_head p) = 32"
  by (cases es rule: rev_cases) (auto simp: verify_chain_Nil verify_chain_snoc genesis_position_def)

text \<open>C25: A position commits to all that lies before it: two chains of entries that verify to the same position are the same entries, every fact in its place, unless two of the byte strings they hash collide. So no entry can be dropped, reordered or altered under a position someone kept.\<close>

theorem position_commits:
  assumes "verify_chain hash enc es = Inr p" and "verify_chain hash enc es' = Inr p"
    and "length es \<le> max_journal_events" and "length es' \<le> max_journal_events"
    and "\<And>b. length (hash b) = 32" and "\<And>ev ev' b. enc ev = Inr b \<Longrightarrow> enc ev' = Inr b \<Longrightarrow> ev = ev'"
  shows "es = es' \<or> hash_collides hash (event_chain_inputs enc (genesis_position hash) es \<union> event_chain_inputs enc (genesis_position hash) es')"
  using assms(1-4)
proof (induction es arbitrary: es' p rule: rev_induct)
  case Nil
  then have "length es' = 0" using verify_chain_sequence [of hash enc "[]" p] verify_chain_sequence [of hash enc es' p]
    by (simp add: max_journal_events_def u64_max_def)
  then show ?case by simp
next
  case (snoc x xs)
  have small: "length (xs @ [x]) \<le> u64_max" "length es' \<le> u64_max" using snoc.prems(3,4) by (simp_all add: max_journal_events_def u64_max_def)
  have same: "length es' = length (xs @ [x])"
    using verify_chain_sequence [OF snoc.prems(1) small(1)] verify_chain_sequence [OF snoc.prems(2) small(2)] by simp
  then obtain ys y where es': "es' = ys @ [y]" by (cases es' rule: rev_cases) auto
  obtain q b where x: "verify_chain hash enc xs = Inr q" "enc (je_event x) = Inr b" "p = je_position x"
    "je_position x = \<lparr>jp_sequence = sat_add_u64 (jp_sequence q) 1, jp_head = hash (jp_head q @ b)\<rparr>" using snoc.prems(1) unfolding verify_chain_snoc by blast
  obtain q' b' where y: "verify_chain hash enc ys = Inr q'" "enc (je_event y) = Inr b'" "p = je_position y"
    "je_position y = \<lparr>jp_sequence = sat_add_u64 (jp_sequence q') 1, jp_head = hash (jp_head q' @ b')\<rparr>" using snoc.prems(2) unfolding es' verify_chain_snoc by blast
  let ?all = "event_chain_inputs enc (genesis_position hash) (xs @ [x]) \<union> event_chain_inputs enc (genesis_position hash) es'"
  have inputs: "?all = {jp_head q @ b, jp_head q' @ b'} \<union> (event_chain_inputs enc (genesis_position hash) xs \<union> event_chain_inputs enc (genesis_position hash) ys)"
    unfolding es' event_chain_inputs_snoc [OF x(1,2)] event_chain_inputs_snoc [OF y(1,2)] by auto
  have heads: "hash (jp_head q @ b) = hash (jp_head q' @ b')" using x(3,4) y(3,4) by simp
  show ?case
  proof (cases "jp_head q @ b = jp_head q' @ b'")
    case False
    then have "hash_collides hash ?all" using heads unfolding inputs by (intro hash_collidesI [of "jp_head q @ b" _ "jp_head q' @ b'"]) simp_all
    then show ?thesis ..
  next
    case True
    then have b: "jp_head q = jp_head q'" "b = b'"
      using verify_chain_head [OF x(1) assms(5)] verify_chain_head [OF y(1) assms(5)] by simp_all
    have "jp_sequence q = jp_sequence q'"
      using verify_chain_sequence [OF x(1)] verify_chain_sequence [OF y(1)] small same es' by simp
    then have "q = q'" using b(1) by simp
    then have "xs = ys \<or> hash_collides hash (event_chain_inputs enc (genesis_position hash) xs \<union> event_chain_inputs enc (genesis_position hash) ys)"
      using snoc.IH [OF x(1), of ys] y(1) snoc.prems(3,4) es' by simp
    then show ?thesis
    proof
      assume "xs = ys"
      moreover have "x = y" using x(2,3) y(2,3) b(2) assms(6) by (cases x; cases y) simp
      ultimately show ?thesis using es' by simp
    next
      assume "hash_collides hash (event_chain_inputs enc (genesis_position hash) xs \<union> event_chain_inputs enc (genesis_position hash) ys)"
      then have "hash_collides hash ?all" by (rule hash_collides_mono) (auto simp: inputs)
      then show ?thesis ..
    qed
  qed
qed

section \<open>The states a journal in memory reaches\<close>

lemma memory_tail_snoc [simp]:
  "memory_tail hash \<lparr>mj_committed = es @ [entry], mj_ladder = l, mj_outcomes = outcomes, mj_bytes = n\<rparr> = je_position entry"
  by (simp add: memory_tail_def)

inductive memory_reach :: "(bytes \<Rightarrow> bytes) \<Rightarrow> (effect_event \<Rightarrow> 'x + bytes) \<Rightarrow> memory_journal \<Rightarrow> bool" for hash enc where
  fresh: "memory_reach hash enc memory_new"
| append: "memory_reach hash enc j \<Longrightarrow> memory_append hash enc expected ev j = (Inr (ack, j') :: 'x journal_error + _) \<Longrightarrow> memory_reach hash enc j'"

definition memory_ok :: "(bytes \<Rightarrow> bytes) \<Rightarrow> (effect_event \<Rightarrow> 'x + bytes) \<Rightarrow> memory_journal \<Rightarrow> bool" where
  "memory_ok hash enc j \<longleftrightarrow>
     verify_chain hash enc (mj_committed j) = Inr (memory_tail hash j) \<and>
     mj_ladder j = ladder_of (memory_events j) \<and> mj_outcomes j = outcomes_of (mj_committed j) \<and>
     (\<forall>key. climbs None (kinds_of key (memory_events j))) \<and>
     length (mj_committed j) \<le> max_journal_events \<and> mj_bytes j \<le> max_journal_bytes"

lemma memory_okD:
  assumes "memory_ok hash enc j"
  shows "verify_chain hash enc (mj_committed j) = Inr (memory_tail hash j)" and "mj_ladder j = ladder_of (memory_events j)"
    and "mj_outcomes j = outcomes_of (mj_committed j)" and "climbs None (kinds_of key (memory_events j))"
    and "length (mj_committed j) \<le> max_journal_events" and "mj_bytes j \<le> max_journal_bytes" and "length (mj_committed j) \<le> u64_max"
  using assms unfolding memory_ok_def by (simp_all add: max_journal_events_def u64_max_def)

lemma check_append_order_ok:
  "check_append_order expected actual ev rung = Inr () \<longleftrightarrow> expected = actual \<and> next_allowed_of rung = Some (kind_of ev)"
  by (simp add: check_append_order_def Let_def)

lemma memory_append_ok:
  "memory_append hash enc expected ev j = (Inr (ack, j') :: 'x journal_error + _) \<longleftrightarrow>
    (\<exists>payload position. expected = memory_tail hash j \<and> next_allowed_of (mj_ladder j (event_key ev)) = Some (kind_of ev) \<and>
      sat_add_u64 (length (mj_committed j)) 1 \<le> max_journal_events \<and> enc ev = Inr payload \<and>
      sat_add_u64 (sat_add_u64 (mj_bytes j) (length payload)) 36 \<le> max_journal_bytes \<and> jp_sequence (memory_tail hash j) + 1 \<le> u64_max \<and>
      position = \<lparr>jp_sequence = jp_sequence (memory_tail hash j) + 1, jp_head = hash (jp_head (memory_tail hash j) @ payload)\<rparr> \<and>
      ack = \<lparr>da_position = position, da_promise = Ephemeral\<rparr> \<and>
      j' = \<lparr>mj_committed = mj_committed j @ [\<lparr>je_position = position, je_event = ev\<rparr>],
            mj_ladder = (mj_ladder j)(event_key ev \<mapsto> kind_of ev),
            mj_outcomes = (case ev of OutcomeObserved _ evidence \<Rightarrow> (mj_outcomes j)(event_key ev \<mapsto> (position, evidence)) | _ \<Rightarrow> mj_outcomes j),
            mj_bytes = sat_add_u64 (sat_add_u64 (mj_bytes j) (length payload)) 36\<rparr>)"
  unfolding memory_append_def
  by (cases "enc ev")
    (auto simp: Let_def check_append_order_ok bound_events_def chain_event_def)

lemma memory_reach_ok: "memory_reach hash enc j \<Longrightarrow> memory_ok hash enc j"
proof (induction rule: memory_reach.induct)
  case fresh
  show ?case
    by (simp add: memory_ok_def memory_new_def memory_tail_def memory_events_def verify_chain_Nil ladder_of_def outcomes_of_def kinds_of_def List.map_filter_def fun_eq_iff)
next
  case (append j expected ev ack j')
  note ok = memory_okD [OF append.IH]
  obtain payload position where app: "next_allowed_of (mj_ladder j (event_key ev)) = Some (kind_of ev)"
      "sat_add_u64 (length (mj_committed j)) 1 \<le> max_journal_events" "enc ev = Inr payload"
      "sat_add_u64 (sat_add_u64 (mj_bytes j) (length payload)) 36 \<le> max_journal_bytes" "jp_sequence (memory_tail hash j) + 1 \<le> u64_max"
      "position = \<lparr>jp_sequence = jp_sequence (memory_tail hash j) + 1, jp_head = hash (jp_head (memory_tail hash j) @ payload)\<rparr>"
      "j' = \<lparr>mj_committed = mj_committed j @ [\<lparr>je_position = position, je_event = ev\<rparr>], mj_ladder = (mj_ladder j)(event_key ev \<mapsto> kind_of ev),
         mj_outcomes = (case ev of OutcomeObserved _ evidence \<Rightarrow> (mj_outcomes j)(event_key ev \<mapsto> (position, evidence)) | _ \<Rightarrow> mj_outcomes j),
         mj_bytes = sat_add_u64 (sat_add_u64 (mj_bytes j) (length payload)) 36\<rparr>"
    using append.hyps(2) unfolding memory_append_ok by blast
  have tail: "memory_tail hash j' = position" by (simp add: app(7) memory_tail_def)
  have events: "memory_events j' = memory_events j @ [ev]" by (simp add: app(7) memory_events_def)
  have "verify_chain hash enc (mj_committed j') = Inr (memory_tail hash j')"
    using ok(1) app(3,5,6) tail by (simp add: app(7) verify_chain_snoc sat_add_u64_def)
  moreover have "mj_ladder j' = (mj_ladder j)(event_key ev \<mapsto> kind_of ev)" by (simp add: app(7))
  then have "mj_ladder j' = ladder_of (memory_events j')" by (simp add: events ladder_of_snoc ok(2))
  moreover have "mj_outcomes j' = outcomes_of (mj_committed j')"
    using ok(3) by (cases ev) (simp_all add: app(7) outcomes_of_snoc outcome_of_def)
  moreover have "climbs None (kinds_of key (memory_events j'))" for key
    using ok(4) [of key] app(1) by (auto simp: events kinds_of_snoc climbs_snoc ok(2) ladder_of_last)
  moreover have "length (mj_committed j') \<le> max_journal_events" using app(2) ok(7) by (simp add: app(7) sat_add_u64_def max_journal_events_def u64_max_def)
  moreover have "mj_bytes j' \<le> max_journal_bytes" using app(4) by (simp add: app(7))
  ultimately show ?case unfolding memory_ok_def by blast
qed

text \<open>C26: Every effect climbs one ladder: in every state a journal reaches, the facts recorded for a key are an intent, a dispatch and an outcome in this order, as far as it got, and verifications only after them; the entries verify as one chain that ends at the tail, numbered from one on, within both limits.\<close>

theorem journal_climbs:
  assumes "memory_reach hash enc j"
  shows "(\<exists>n m. kinds_of key (memory_events j) = take n [IntentKind, DispatchKind, OutcomeKind] @ replicate m VerifiedKind \<and> n \<le> 3 \<and> (m > 0 \<longrightarrow> n = 3)) \<and>
    verify_chain hash enc (mj_committed j) = Inr (memory_tail hash j) \<and>
    (\<forall>i < length (mj_committed j). jp_sequence (je_position (mj_committed j ! i)) = Suc i) \<and>
    length (mj_committed j) \<le> max_journal_events \<and> mj_bytes j \<le> max_journal_bytes"
proof -
  note ok = memory_okD [OF memory_reach_ok [OF assms]]
  show ?thesis using climbs_shape [OF ok(4)] ok(1,5,6) verify_chain_positions [OF ok(1,7)] by blast
qed

text \<open>An append is exact: it is acknowledged precisely when it names the tail, is the next fact of its effect, encodes, and fits both limits; it is then the one new entry, chained to the tail, and the new tail is what the caller was handed.\<close>

theorem journal_append_exact:
  assumes "memory_reach hash enc j"
  shows "((\<exists>ack j'. memory_append hash enc expected ev j = (Inr (ack, j') :: 'x journal_error + _)) \<longleftrightarrow>
      expected = memory_tail hash j \<and> climbs None (kinds_of (event_key ev) (memory_events j @ [ev])) \<and> length (mj_committed j) < max_journal_events \<and>
      (\<exists>payload. enc ev = Inr payload \<and> mj_bytes j + length payload + 36 \<le> max_journal_bytes)) \<and>
    (\<forall>ack j'. memory_append hash enc expected ev j = (Inr (ack, j') :: 'x journal_error + _) \<longrightarrow>
      memory_events j' = memory_events j @ [ev] \<and> memory_tail hash j' = da_position ack \<and> jp_sequence (da_position ack) = length (memory_events j'))"
proof -
  note ok = memory_okD [OF memory_reach_ok [OF assms]]
  have seq: "jp_sequence (memory_tail hash j) = length (mj_committed j)" by (rule verify_chain_sequence [OF ok(1,7)])
  have rung: "next_allowed_of (mj_ladder j (event_key ev)) = Some (kind_of ev) \<longleftrightarrow> climbs None (kinds_of (event_key ev) (memory_events j @ [ev]))"
    using ok(4) [of "event_key ev"] by (simp add: kinds_of_snoc climbs_snoc ok(2) ladder_of_last)
  have events: "sat_add_u64 (length (mj_committed j)) 1 \<le> max_journal_events \<longleftrightarrow> length (mj_committed j) < max_journal_events"
    using ok(5) by (simp add: sat_add_u64_def max_journal_events_def u64_max_def Suc_le_eq)
  have room: "sat_add_u64 (sat_add_u64 (mj_bytes j) n) 36 \<le> max_journal_bytes \<longleftrightarrow> mj_bytes j + n + 36 \<le> max_journal_bytes" for n
    by (auto simp: sat_add_u64_def max_journal_bytes_def u64_max_def)
  have count: "length (mj_committed j) < max_journal_events \<Longrightarrow> Suc (length (mj_committed j)) \<le> u64_max" by (simp add: max_journal_events_def u64_max_def)
  have "(\<exists>ack j'. memory_append hash enc expected ev j = (Inr (ack, j') :: 'x journal_error + _)) \<longleftrightarrow>
      expected = memory_tail hash j \<and> climbs None (kinds_of (event_key ev) (memory_events j @ [ev])) \<and> length (mj_committed j) < max_journal_events \<and>
      (\<exists>payload. enc ev = Inr payload \<and> mj_bytes j + length payload + 36 \<le> max_journal_bytes)"
    unfolding memory_append_ok rung events room seq using count by auto
  moreover have "memory_events j' = memory_events j @ [ev] \<and> memory_tail hash j' = da_position ack \<and> jp_sequence (da_position ack) = length (memory_events j')"
    if "memory_append hash enc expected ev j = (Inr (ack, j') :: 'x journal_error + _)" for ack j'
    using that unfolding memory_append_ok by (auto simp: memory_events_def seq)
  ultimately show ?thesis by blast
qed

text \<open>The indexed reads are the walks they stand for: an entry looked up by its position, and the last outcome of a key, are what a walk over all committed entries finds.\<close>

theorem indexed_reads:
  assumes "memory_reach hash enc j"
  shows "committed_entry (chain_base (mj_committed j)) (mj_committed j) position = committed_entry_walk (mj_committed j) position \<and>
    mj_outcomes j key = outcome_walk key (rev (mj_committed j))"
proof -
  note ok = memory_okD [OF memory_reach_ok [OF assms]]
  note positions = verify_chain_positions [OF ok(1,7)]
  have base: "chain_base (mj_committed j) = 0"
    using positions [of 0] by (cases "mj_committed j") (simp_all add: chain_base_def)
  have "committed_entry 0 (mj_committed j) position = committed_entry_walk (mj_committed j) position"
  proof (cases "committed_entry_walk (mj_committed j) position")
    case None
    then have "\<forall>entry \<in> set (mj_committed j). je_position entry \<noteq> position" by (simp add: committed_entry_walk_def find_None_iff)
    then show ?thesis using None by (auto simp: committed_entry_def Let_def)
  next
    case (Some entry)
    then obtain i where i: "i < length (mj_committed j)" "je_position (mj_committed j ! i) = position" "entry = mj_committed j ! i"
      by (auto simp: committed_entry_walk_def find_Some_iff)
    then have "jp_sequence position = Suc i" using positions [OF i(1)] by simp
    then show ?thesis using Some i by (simp add: committed_entry_def)
  qed
  then show ?thesis unfolding base ok(3) outcomes_of_walk by simp
qed

section \<open>A small journal\<close>

definition demo_key :: effect_key where
  "demo_key = \<lparr>ek_run = 1, ek_action = 2, ek_attempt = 1, ek_flow = [], ek_digest = [], ek_environment = 3, ek_epoch = 1\<rparr>"

definition demo_hash :: "bytes \<Rightarrow> bytes" where
  "demo_hash data = replicate 32 (of_nat (length data))"

definition demo_enc :: "effect_event \<Rightarrow> nat + bytes" where
  "demo_enc ev = Inr [case kind_of ev of IntentKind \<Rightarrow> 1 | DispatchKind \<Rightarrow> 2 | OutcomeKind \<Rightarrow> 3 | VerifiedKind \<Rightarrow> 4]"

definition demo_position :: journal_position where
  "demo_position = \<lparr>jp_sequence = 1, jp_head = demo_hash (jp_head (genesis_position demo_hash) @ [1])\<rparr>"

definition demo_journal :: memory_journal where
  "demo_journal = \<lparr>mj_committed = [\<lparr>je_position = demo_position, je_event = IntentAdmitted demo_key\<rparr>],
     mj_ladder = Map.empty(demo_key \<mapsto> IntentKind), mj_outcomes = Map.empty, mj_bytes = 37\<rparr>"

lemma demo_journal_reached: "memory_reach demo_hash demo_enc demo_journal"
proof (rule memory_reach.append [OF memory_reach.fresh])
  show "memory_append demo_hash demo_enc (genesis_position demo_hash) (IntentAdmitted demo_key) memory_new =
      (Inr (\<lparr>da_position = demo_position, da_promise = Ephemeral\<rparr>, demo_journal) :: nat journal_error + _)"
    unfolding memory_append_ok
    by (auto simp: memory_new_def memory_tail_def demo_enc_def demo_journal_def demo_position_def next_allowed_of_def sat_add_u64_def
        max_journal_events_def max_journal_bytes_def u64_max_def genesis_position_def)
qed

theorem journal_climbs_witness: "\<exists>n m. kinds_of demo_key (memory_events demo_journal) = take n [IntentKind, DispatchKind, OutcomeKind] @ replicate m VerifiedKind"
  using journal_climbs [OF demo_journal_reached, of demo_key] by blast

theorem journal_append_exact_witness:
  "\<not> (\<exists>ack j'. memory_append demo_hash demo_enc (memory_tail demo_hash demo_journal) (IntentAdmitted demo_key) demo_journal = (Inr (ack, j') :: nat journal_error + _))"
  using journal_append_exact [OF demo_journal_reached, of "memory_tail demo_hash demo_journal" "IntentAdmitted demo_key"]
  by (simp add: memory_events_def demo_journal_def kinds_of_def next_allowed_of_def)

theorem indexed_reads_witness:
  "committed_entry 0 (mj_committed demo_journal) demo_position = committed_entry_walk (mj_committed demo_journal) demo_position"
  using indexed_reads [OF demo_journal_reached, of demo_position] by (simp add: demo_journal_def chain_base_def demo_position_def)

text \<open>A hash that always collides, and an encoding of two events: their chains end at one position.\<close>

definition flat_hash :: "bytes \<Rightarrow> bytes" where "flat_hash data = replicate 32 0"

definition other_key :: effect_key where "other_key = demo_key\<lparr>ek_attempt := 2\<rparr>"

definition two_enc :: "effect_event \<Rightarrow> nat + bytes" where
  "two_enc ev = (if ev = IntentAdmitted demo_key then Inr [1] else if ev = IntentAdmitted other_key then Inr [2] else Inl 0)"

definition flat_entry :: "effect_key \<Rightarrow> journal_entry" where
  "flat_entry key = \<lparr>je_position = \<lparr>jp_sequence = 1, jp_head = replicate 32 0\<rparr>, je_event = IntentAdmitted key\<rparr>"

lemma other_key_differs: "other_key \<noteq> demo_key"
  by (simp add: other_key_def demo_key_def)

lemma flat_entry_verifies: "key = demo_key \<or> key = other_key \<Longrightarrow> verify_chain flat_hash two_enc [flat_entry key] = Inr \<lparr>jp_sequence = 1, jp_head = replicate 32 0\<rparr>"
  using verify_chain_snoc [of flat_hash two_enc "[]" "flat_entry key"]
  by (auto simp: verify_chain_Nil flat_entry_def flat_hash_def genesis_position_def two_enc_def sat_add_u64_def u64_max_def)

theorem position_commits_witness:
  "hash_collides flat_hash (event_chain_inputs two_enc (genesis_position flat_hash) [flat_entry demo_key] \<union> event_chain_inputs two_enc (genesis_position flat_hash) [flat_entry other_key])"
proof -
  have "[flat_entry demo_key] = [flat_entry other_key] \<or>
      hash_collides flat_hash (event_chain_inputs two_enc (genesis_position flat_hash) [flat_entry demo_key] \<union> event_chain_inputs two_enc (genesis_position flat_hash) [flat_entry other_key])"
    by (rule position_commits [OF flat_entry_verifies flat_entry_verifies])
      (auto simp: max_journal_events_def flat_hash_def two_enc_def split: if_splits)
  moreover have "[flat_entry demo_key] \<noteq> [flat_entry other_key]" using other_key_differs by (simp add: flat_entry_def)
  ultimately show ?thesis by blast
qed

end
