(* ===== verification/Recover.thy ===== *)
theory Recover
  imports Journal
begin

text \<open>
  \<open>crates/lgwks-bot/src/journal/recover.rs\<close>, \<open>continuation.rs\<close> and the \<open>carried\<close> of \<open>file/write.rs\<close>: what a recovery reads out of the
  events of a journal, the checkpoint a sealed journal hands to its successor, and the recovery that continues
  from it. The indices a checkpoint stores a rung and a status as are bytes; a stored index may name none.
\<close>

section \<open>Attempts\<close>

datatype attempt_status = StPrepared | StOutcomeUnknown | StApplied | StNotApplied | StVerified | StVerificationFailed

fun is_uncertain :: "attempt_status \<Rightarrow> bool" where
  "is_uncertain StOutcomeUnknown = True"
| "is_uncertain _ = False"

record attempt =
  at_key :: effect_key
  at_status :: attempt_status
  at_verification :: "verification option"

definition attempt_new :: "effect_key \<Rightarrow> attempt_status \<Rightarrow> attempt" where
  "attempt_new key status = \<lparr>at_key = key, at_status = status, at_verification = None\<rparr>"

record transition =
  tn_from :: "attempt_status option"
  tn_to :: attempt_status
  tn_position :: nat

record recovered =
  rv_attempts :: "attempt list"
  rv_index :: "effect_key \<rightharpoonup> nat"
  rv_transitions :: "transition list list"

definition recovered_none :: recovered where
  "recovered_none = \<lparr>rv_attempts = [], rv_index = Map.empty, rv_transitions = []\<rparr>"

text \<open>\<open>slice.get\<close>.\<close>

definition list_get :: "'a list \<Rightarrow> nat \<Rightarrow> 'a option" where
  "list_get xs i = (if i < length xs then Some (xs ! i) else None)"

definition held_attempt :: "recovered \<Rightarrow> effect_key \<Rightarrow> attempt option" where
  "held_attempt r key = (case rv_index r key of Some i \<Rightarrow> list_get (rv_attempts r) i | None \<Rightarrow> None)"

definition recovered_status :: "recovered \<Rightarrow> effect_key \<Rightarrow> attempt_status option" where
  "recovered_status r key = map_option at_status (held_attempt r key)"

definition recovered_verification :: "recovered \<Rightarrow> effect_key \<Rightarrow> verification option" where
  "recovered_verification r key = (case held_attempt r key of Some a \<Rightarrow> at_verification a | None \<Rightarrow> None)"

definition recovered_history :: "recovered \<Rightarrow> effect_key \<Rightarrow> transition list" where
  "recovered_history r key =
     (case rv_index r key of
        Some i \<Rightarrow> (case list_get (rv_transitions r) i of Some ts \<Rightarrow> ts | None \<Rightarrow> [])
      | None \<Rightarrow> [])"

definition uncertain_keys :: "recovered \<Rightarrow> effect_key list" where
  "uncertain_keys r = map at_key (filter (\<lambda>a. is_uncertain (at_status a)) (rv_attempts r))"

section \<open>Checkpoints\<close>

definition continuation_numerator :: nat where "continuation_numerator = 8"
definition continuation_denominator :: nat where "continuation_denominator = 10"
definition max_checkpoint_unresolved :: nat where "max_checkpoint_unresolved = 128"
definition max_checkpoint_settled :: nat where "max_checkpoint_settled = 160"
definition shipped_event_ceiling :: nat where "shipped_event_ceiling = 100000"
definition shipped_byte_ceiling :: nat where "shipped_byte_ceiling = 64 * 1024 * 1024"

definition watermark_of :: "nat \<Rightarrow> nat" where
  "watermark_of limit = min (limit * continuation_numerator) u64_max div continuation_denominator"

record continuation_policy =
  cy_events_at :: nat
  cy_bytes_at :: nat

definition policy_declared :: continuation_policy where
  "policy_declared = \<lparr>cy_events_at = watermark_of shipped_event_ceiling, cy_bytes_at = watermark_of shipped_byte_ceiling\<rparr>"

definition continuation_policy_new :: "nat \<Rightarrow> nat \<Rightarrow> 'x journal_error + continuation_policy" where
  "continuation_policy_new events_at bytes_at =
     (if events_at \<ge> shipped_event_ceiling \<or> bytes_at \<ge> shipped_byte_ceiling
      then Inl (CapacityExceeded LimitWatermark shipped_event_ceiling (max events_at bytes_at))
      else Inr \<lparr>cy_events_at = events_at, cy_bytes_at = bytes_at\<rparr>)"

record watermark =
  wm_continuing :: bool
  wm_events :: nat
  wm_events_limit :: nat
  wm_bytes :: nat
  wm_bytes_limit :: nat
  wm_events_at :: nat
  wm_bytes_at :: nat

definition watermark_inert :: "nat \<Rightarrow> nat \<Rightarrow> nat \<Rightarrow> nat \<Rightarrow> watermark" where
  "watermark_inert events events_limit bytes bytes_limit =
     \<lparr>wm_continuing = False, wm_events = events, wm_events_limit = events_limit, wm_bytes = bytes, wm_bytes_limit = bytes_limit,
      wm_events_at = 0, wm_bytes_at = 0\<rparr>"

definition watermark_measured :: "nat \<Rightarrow> nat \<Rightarrow> nat \<Rightarrow> nat \<Rightarrow> continuation_policy \<Rightarrow> watermark" where
  "watermark_measured events events_limit bytes bytes_limit policy =
     \<lparr>wm_continuing = True, wm_events = events, wm_events_limit = events_limit, wm_bytes = bytes, wm_bytes_limit = bytes_limit,
      wm_events_at = cy_events_at policy, wm_bytes_at = cy_bytes_at policy\<rparr>"

definition watermark_due :: "watermark \<Rightarrow> bool" where
  "watermark_due w \<longleftrightarrow> wm_continuing w \<and> (wm_events w \<ge> wm_events_at w \<or> wm_bytes w \<ge> wm_bytes_at w)"

definition event_headroom :: "watermark \<Rightarrow> nat" where "event_headroom w = wm_events_limit w - wm_events w"
definition byte_headroom :: "watermark \<Rightarrow> nat" where "byte_headroom w = wm_bytes_limit w - wm_bytes w"

fun rung_index :: "event_kind \<Rightarrow> nat" where
  "rung_index IntentKind = 0"
| "rung_index DispatchKind = 1"
| "rung_index OutcomeKind = 2"
| "rung_index VerifiedKind = 3"

fun status_index :: "attempt_status \<Rightarrow> nat" where
  "status_index StPrepared = 0"
| "status_index StOutcomeUnknown = 1"
| "status_index StApplied = 2"
| "status_index StNotApplied = 3"
| "status_index StVerified = 4"
| "status_index StVerificationFailed = 5"

definition rung_of :: "nat \<Rightarrow> event_kind option" where
  "rung_of index = list_get [IntentKind, DispatchKind, OutcomeKind, VerifiedKind] index"

definition status_of :: "nat \<Rightarrow> attempt_status option" where
  "status_of index = list_get [StPrepared, StOutcomeUnknown, StApplied, StNotApplied, StVerified, StVerificationFailed] index"

record settled_attempt =
  se_key :: effect_key
  se_rung :: nat
  se_status :: nat
  se_verification :: "verification option"

definition settled_new :: "effect_key \<Rightarrow> event_kind \<Rightarrow> attempt_status \<Rightarrow> verification option \<Rightarrow> settled_attempt" where
  "settled_new key rung status verification =
     \<lparr>se_key = key, se_rung = rung_index rung, se_status = status_index status, se_verification = verification\<rparr>"

definition already_walked :: "settled_attempt \<Rightarrow> effect_key \<Rightarrow> bool" where
  "already_walked held key \<longleftrightarrow> ek_action key = ek_action (se_key held) \<and> ek_attempt key \<le> ek_attempt (se_key held)"

record unresolved_attempt =
  ur_key :: effect_key
  ur_rung :: nat

definition unresolved_new :: "effect_key \<Rightarrow> event_kind \<Rightarrow> unresolved_attempt" where
  "unresolved_new key rung = \<lparr>ur_key = key, ur_rung = rung_index rung\<rparr>"

definition unresolved_status :: "unresolved_attempt \<Rightarrow> attempt_status option" where
  "unresolved_status u =
     (case rung_of (ur_rung u) of
        Some IntentKind \<Rightarrow> Some StPrepared
      | Some DispatchKind \<Rightarrow> Some StOutcomeUnknown
      | _ \<Rightarrow> None)"

record checkpoint_record =
  cn_generation :: nat
  cn_predecessor :: journal_position
  cn_settled :: "settled_attempt list"
  cn_unresolved :: "unresolved_attempt list"

definition continuation_new ::
  "nat \<Rightarrow> journal_position \<Rightarrow> settled_attempt list \<Rightarrow> unresolved_attempt list \<Rightarrow> 'x journal_error + checkpoint_record" where
  "continuation_new generation predecessor settled unresolved =
     (if length settled > max_checkpoint_settled then Inl (CapacityExceeded LimitCheckpointActions max_checkpoint_settled (length settled))
      else if length unresolved > max_checkpoint_unresolved then Inl (CapacityExceeded LimitCheckpointUnresolved max_checkpoint_unresolved (length unresolved))
      else Inr \<lparr>cn_generation = generation, cn_predecessor = predecessor, cn_settled = settled, cn_unresolved = unresolved\<rparr>)"

definition settled_for :: "id128 \<Rightarrow> checkpoint_record \<Rightarrow> settled_attempt option" where
  "settled_for action c = find (\<lambda>held. ek_action (se_key held) = action) (cn_settled c)"

section \<open>Recovering\<close>

fun event_status :: "effect_event \<Rightarrow> attempt_status" where
  "event_status (IntentAdmitted _) = StPrepared"
| "event_status (DispatchPrepared _) = StOutcomeUnknown"
| "event_status (OutcomeObserved _ evidence) = (case evidence of Applied \<Rightarrow> StApplied | NotApplied \<Rightarrow> StNotApplied)"
| "event_status (VerifiedEvent _ verification) = (case vf_result verification of Satisfied \<Rightarrow> StVerified | NotSatisfied \<Rightarrow> StVerificationFailed)"

fun event_verification :: "effect_event \<Rightarrow> verification option" where
  "event_verification (VerifiedEvent _ verification) = Some verification"
| "event_verification _ = None"

definition seed_attempt :: "effect_key \<Rightarrow> attempt_status \<Rightarrow> verification option \<Rightarrow> nat \<Rightarrow> recovered \<Rightarrow> recovered" where
  "seed_attempt key status verification position r =
     \<lparr>rv_attempts = rv_attempts r @ [\<lparr>at_key = key, at_status = status, at_verification = verification\<rparr>],
      rv_index = (rv_index r)(key \<mapsto> length (rv_attempts r)),
      rv_transitions = rv_transitions r @ [[\<lparr>tn_from = None, tn_to = status, tn_position = position\<rparr>]]\<rparr>"

definition advance_attempt :: "nat \<Rightarrow> attempt_status \<Rightarrow> verification option \<Rightarrow> nat \<Rightarrow> recovered \<Rightarrow> recovered" where
  "advance_attempt i status verification position r =
     (case list_get (rv_attempts r) i of
        None \<Rightarrow> r
      | Some a \<Rightarrow> r\<lparr>
          rv_attempts := (rv_attempts r)[i := a\<lparr>at_status := status, at_verification := (if verification \<noteq> None then verification else at_verification a)\<rparr>],
          rv_transitions := (case list_get (rv_transitions r) i of
             None \<Rightarrow> rv_transitions r
           | Some trail \<Rightarrow> (rv_transitions r)[i := trail @ [\<lparr>tn_from = Some (at_status a), tn_to = status, tn_position = position\<rparr>]])\<rparr>)"

definition fold_event :: "nat \<Rightarrow> effect_event \<Rightarrow> recovered \<Rightarrow> recovered" where
  "fold_event position ev r =
     (case rv_index r (event_key ev) of
        Some i \<Rightarrow> advance_attempt i (event_status ev) (event_verification ev) position r
      | None \<Rightarrow> seed_attempt (event_key ev) (event_status ev) (event_verification ev) position r)"

fun fold_events :: "nat \<Rightarrow> effect_event list \<Rightarrow> recovered \<Rightarrow> recovered" where
  "fold_events position [] r = r"
| "fold_events position (ev # evs) r = fold_events (Suc position) evs (fold_event position ev r)"

fun seed_settled :: "settled_attempt list \<Rightarrow> recovered \<Rightarrow> recovered" where
  "seed_settled [] r = r"
| "seed_settled (held # rest) r =
     (case (status_of (se_status held), rung_of (se_rung held)) of
        (Some status, Some _) \<Rightarrow> seed_settled rest (seed_attempt (se_key held) status (se_verification held) (length (rv_attempts r)) r)
      | _ \<Rightarrow> seed_settled rest r)"

fun seed_unresolved :: "unresolved_attempt list \<Rightarrow> recovered \<Rightarrow> recovered" where
  "seed_unresolved [] r = r"
| "seed_unresolved (held # rest) r =
     (case unresolved_status held of
        Some status \<Rightarrow> seed_unresolved rest (seed_attempt (ur_key held) status None (length (rv_attempts r)) r)
      | None \<Rightarrow> seed_unresolved rest r)"

definition recover_continued :: "checkpoint_record option \<Rightarrow> effect_event list \<Rightarrow> recovered" where
  "recover_continued base evs =
     fold_events 0 evs
       (case base of
          None \<Rightarrow> recovered_none
        | Some checkpoint \<Rightarrow> seed_unresolved (cn_unresolved checkpoint) (seed_settled (cn_settled checkpoint) recovered_none))"

definition recover_events :: "effect_event list \<Rightarrow> recovered" where
  "recover_events evs = recover_continued None evs"

section \<open>What a seal carries\<close>

text \<open>The record of a settled attempt replaces the one its action had, at its place.\<close>

fun fold_settled :: "settled_attempt \<Rightarrow> settled_attempt list \<Rightarrow> settled_attempt list" where
  "fold_settled held [] = [held]"
| "fold_settled held (x # xs) = (if ek_action (se_key x) = ek_action (se_key held) then held # xs else x # fold_settled held xs)"

fun carry_attempts :: "recovered \<Rightarrow> attempt list \<Rightarrow> settled_attempt list \<Rightarrow> unresolved_attempt list \<Rightarrow> settled_attempt list \<times> unresolved_attempt list" where
  "carry_attempts r [] settled unresolved = (settled, unresolved)"
| "carry_attempts r (a # rest) settled unresolved =
     (case at_status a of
        StPrepared \<Rightarrow> carry_attempts r rest settled (unresolved @ [unresolved_new (at_key a) IntentKind])
      | StOutcomeUnknown \<Rightarrow> carry_attempts r rest settled (unresolved @ [unresolved_new (at_key a) DispatchKind])
      | status \<Rightarrow>
          let changes = recovered_history r (at_key a);
              rung = (if changes \<noteq> [] \<and> (tn_to (last changes) = StVerified \<or> tn_to (last changes) = StVerificationFailed) then VerifiedKind else OutcomeKind) in
          carry_attempts r rest (fold_settled (settled_new (at_key a) rung status (at_verification a)) settled) unresolved)"

definition carried_of :: "recovered \<Rightarrow> settled_attempt list \<times> unresolved_attempt list" where
  "carried_of r = carry_attempts r (rv_attempts r) [] []"

section \<open>Recoveries that are well formed\<close>

definition recovered_wf :: "recovered \<Rightarrow> bool" where
  "recovered_wf r \<longleftrightarrow> length (rv_transitions r) = length (rv_attempts r) \<and> distinct (map at_key (rv_attempts r)) \<and>
     (\<forall>key i. rv_index r key = Some i \<longleftrightarrow> i < length (rv_attempts r) \<and> at_key (rv_attempts r ! i) = key)"

lemma recovered_wfD:
  assumes "recovered_wf r"
  shows "length (rv_transitions r) = length (rv_attempts r)" and "distinct (map at_key (rv_attempts r))"
    and "rv_index r key = Some i \<longleftrightarrow> i < length (rv_attempts r) \<and> at_key (rv_attempts r ! i) = key"
  using assms unfolding recovered_wf_def by blast+

lemma recovered_wf_none [simp]: "recovered_wf recovered_none"
  by (simp add: recovered_wf_def recovered_none_def)

lemma index_at:
  assumes "recovered_wf r" and "i < length (rv_attempts r)"
  shows "rv_index r (at_key (rv_attempts r ! i)) = Some i"
  using recovered_wfD(3) [OF assms(1)] assms(2) by simp

lemma index_bound:
  assumes "recovered_wf r" and "rv_index r key = Some i"
  shows "i < length (rv_attempts r)" and "i < length (rv_transitions r)" and "at_key (rv_attempts r ! i) = key"
  using recovered_wfD(1) [OF assms(1)] recovered_wfD(3) [OF assms(1), of key i] assms(2) by simp_all

lemma index_None_iff:
  assumes "recovered_wf r"
  shows "rv_index r key = None \<longleftrightarrow> key \<notin> at_key ` set (rv_attempts r)"
proof
  assume "rv_index r key = None"
  then show "key \<notin> at_key ` set (rv_attempts r)" using index_at [OF assms] by (auto simp: in_set_conv_nth)
next
  assume fresh: "key \<notin> at_key ` set (rv_attempts r)"
  show "rv_index r key = None"
  proof (cases "rv_index r key")
    case (Some i)
    from nth_mem [OF index_bound(1) [OF assms Some]] have "at_key (rv_attempts r ! i) \<in> at_key ` set (rv_attempts r)" by (rule imageI)
    with fresh index_bound(3) [OF assms Some] show ?thesis by simp
  qed
qed

lemma held_attempt_iff:
  assumes "recovered_wf r"
  shows "held_attempt r key = Some a \<longleftrightarrow> a \<in> set (rv_attempts r) \<and> at_key a = key"
proof
  assume "held_attempt r key = Some a"
  then obtain i where i: "rv_index r key = Some i" "list_get (rv_attempts r) i = Some a"
    by (cases "rv_index r key") (simp_all add: held_attempt_def)
  have a: "rv_attempts r ! i = a" using i(2) index_bound(1) [OF assms i(1)] by (simp add: list_get_def)
  show "a \<in> set (rv_attempts r) \<and> at_key a = key"
    using nth_mem [OF index_bound(1) [OF assms i(1)]] index_bound(3) [OF assms i(1)] unfolding a by (rule conjI)
next
  assume a: "a \<in> set (rv_attempts r) \<and> at_key a = key"
  then obtain i where i: "i < length (rv_attempts r)" "rv_attempts r ! i = a" unfolding in_set_conv_nth by blast
  have "rv_index r key = Some i" using index_at [OF assms i(1)] unfolding i(2) conjunct2 [OF a] .
  with i show "held_attempt r key = Some a" by (simp add: held_attempt_def list_get_def)
qed

lemma held_None_iff:
  assumes "recovered_wf r"
  shows "held_attempt r key = None \<longleftrightarrow> rv_index r key = None"
  using index_bound [OF assms, of key] by (cases "rv_index r key") (simp_all add: held_attempt_def list_get_def)

lemma seed_wf:
  assumes "recovered_wf r" and "rv_index r key = None"
  shows "recovered_wf (seed_attempt key status verification position r)"
proof -
  note wf = recovered_wfD [OF assms(1)]
  have fresh: "key \<notin> at_key ` set (rv_attempts r)" using assms by (simp add: index_None_iff)
  have at: "at_key (rv_attempts r ! i) \<noteq> key" if "i < length (rv_attempts r)" for i using that fresh nth_mem by fastforce
  have "(rv_index (seed_attempt key status verification position r) key' = Some i) \<longleftrightarrow>
      i < Suc (length (rv_attempts r)) \<and> at_key ((rv_attempts r @ [\<lparr>at_key = key, at_status = status, at_verification = verification\<rparr>]) ! i) = key'" for key' i
    using wf(3) [of key' i] at [of i]
    by (cases "i < length (rv_attempts r)"; cases "key' = key") (auto simp: seed_attempt_def nth_append less_Suc_eq)
  then show ?thesis unfolding recovered_wf_def using wf(1,2) fresh by (simp add: seed_attempt_def)
qed

lemma seed_held:
  assumes "recovered_wf r"
  shows "held_attempt (seed_attempt key status verification position r) key' =
    (if key' = key then Some \<lparr>at_key = key, at_status = status, at_verification = verification\<rparr> else held_attempt r key')"
  using index_bound(1) [OF assms, of key']
  by (cases "rv_index r key'") (simp_all add: held_attempt_def seed_attempt_def list_get_def nth_append)

lemma wf_update:
  assumes "recovered_wf r" and "rv_attempts s = (rv_attempts r)[i := a]" and "at_key a = at_key (rv_attempts r ! i)"
    and "rv_index s = rv_index r" and "length (rv_transitions s) = length (rv_transitions r)"
  shows "recovered_wf s"
proof -
  note wf = recovered_wfD [OF assms(1)]
  have key: "at_key (rv_attempts s ! k) = at_key (rv_attempts r ! k)" if "k < length (rv_attempts r)" for k
    using that assms(2,3) by (cases "k = i") simp_all
  have len: "length (rv_attempts s) = length (rv_attempts r)" using assms(2) by simp
  have keys: "map at_key (rv_attempts s) = map at_key (rv_attempts r)" by (rule nth_equalityI) (simp_all add: len key)
  have index: "rv_index s k = Some j \<longleftrightarrow> j < length (rv_attempts s) \<and> at_key (rv_attempts s ! j) = k" for k j
    unfolding assms(4) wf(3) len using key by auto
  show ?thesis unfolding recovered_wf_def using wf(1,2) len keys index assms(5) by simp
qed

lemma advance_wf:
  assumes "recovered_wf r"
  shows "recovered_wf (advance_attempt i status verification position r)"
proof (cases "i < length (rv_attempts r)")
  case True
  then have "i < length (rv_transitions r)" using recovered_wfD(1) [OF assms] by simp
  then show ?thesis using True
    by (intro wf_update [OF assms, where i = i and a = "(rv_attempts r ! i)\<lparr>at_status := status, at_verification := (if verification \<noteq> None then verification else at_verification (rv_attempts r ! i))\<rparr>"])
       (simp_all add: advance_attempt_def list_get_def)
qed (simp add: advance_attempt_def list_get_def assms)

lemma fold_event_wf: "recovered_wf r \<Longrightarrow> recovered_wf (fold_event position ev r)"
  by (simp add: fold_event_def seed_wf advance_wf split: option.splits)

lemma fold_events_wf: "recovered_wf r \<Longrightarrow> recovered_wf (fold_events position evs r)"
  by (induction evs arbitrary: position r) (simp_all add: fold_event_wf)

lemma fold_events_snoc: "fold_events position (evs @ [ev]) r = fold_event (position + length evs) ev (fold_events position evs r)"
  by (induction evs arbitrary: position r) simp_all

lemma fold_events_append: "fold_events position (evs @ evs') r = fold_events (position + length evs) evs' (fold_events position evs r)"
  by (induction evs arbitrary: position r) simp_all

text \<open>What one event does to each key.\<close>

lemma fold_event_held:
  assumes "recovered_wf r"
  shows "held_attempt (fold_event position ev r) key =
    (if key = event_key ev
     then Some \<lparr>at_key = key, at_status = event_status ev,
       at_verification = (if event_verification ev \<noteq> None then event_verification ev else recovered_verification r key)\<rparr>
     else held_attempt r key)"
proof (cases "rv_index r (event_key ev)")
  case None
  then have "recovered_verification r (event_key ev) = None" by (simp add: recovered_verification_def held_attempt_def)
  then show ?thesis using None assms by (auto simp: fold_event_def seed_held)
next
  case (Some i)
  note wf = recovered_wfD [OF assms]
  have i: "i < length (rv_attempts r)" "at_key (rv_attempts r ! i) = event_key ev" using Some wf(3) by simp_all
  have other: "rv_index r key = Some j \<Longrightarrow> key \<noteq> event_key ev \<Longrightarrow> j \<noteq> i" for j using wf(3) [of key j] i by auto
  have verified: "recovered_verification r (event_key ev) = at_verification (rv_attempts r ! i)"
    using Some i by (simp add: recovered_verification_def held_attempt_def list_get_def)
  show ?thesis
  proof (cases "key = event_key ev")
    case True
    then show ?thesis using Some i by (cases "rv_attempts r ! i") (simp add: fold_event_def held_attempt_def advance_attempt_def list_get_def verified)
  next
    case False
    then show ?thesis using Some i other
      by (auto simp: fold_event_def held_attempt_def advance_attempt_def list_get_def split: option.splits)
  qed
qed

lemma fold_event_history:
  assumes "recovered_wf r"
  shows "recovered_history (fold_event position ev r) key =
    recovered_history r key @ (if key = event_key ev then [\<lparr>tn_from = recovered_status r key, tn_to = event_status ev, tn_position = position\<rparr>] else [])"
proof (cases "rv_index r (event_key ev)")
  case None
  note wf = recovered_wfD [OF assms]
  have "rv_index r key = Some j \<Longrightarrow> j < length (rv_transitions r)" for j using wf(1) wf(3) [of key j] by simp
  then show ?thesis using None wf(1)
    by (auto simp: fold_event_def recovered_history_def seed_attempt_def recovered_status_def held_attempt_def list_get_def nth_append split: option.splits)
next
  case (Some i)
  note wf = recovered_wfD [OF assms]
  have i: "i < length (rv_attempts r)" "i < length (rv_transitions r)" "at_key (rv_attempts r ! i) = event_key ev" using Some wf(1,3) by simp_all
  have other: "rv_index r key = Some j \<Longrightarrow> key \<noteq> event_key ev \<Longrightarrow> j \<noteq> i" for j using wf(3) [of key j] i by auto
  show ?thesis
  proof (cases "key = event_key ev")
    case True
    then show ?thesis using Some i by (simp add: fold_event_def recovered_history_def advance_attempt_def recovered_status_def held_attempt_def list_get_def)
  next
    case False
    then show ?thesis using Some i other
      by (auto simp: fold_event_def recovered_history_def advance_attempt_def list_get_def split: option.splits)
  qed
qed

lemma fold_event_status:
  assumes "recovered_wf r"
  shows "recovered_status (fold_event position ev r) key = (if key = event_key ev then Some (event_status ev) else recovered_status r key)"
    and "recovered_verification (fold_event position ev r) key =
      (if key = event_key ev \<and> event_verification ev \<noteq> None then event_verification ev else recovered_verification r key)"
  by (simp_all add: recovered_status_def fold_event_held [OF assms] recovered_verification_def)

section \<open>What a recovery says of its events\<close>

text \<open>The events of one key with their positions, the transitions they make and the verification they leave.\<close>

fun key_events :: "nat \<Rightarrow> effect_event list \<Rightarrow> effect_key \<Rightarrow> (nat \<times> effect_event) list" where
  "key_events n [] key = []"
| "key_events n (ev # evs) key = (if event_key ev = key then [(n, ev)] else []) @ key_events (Suc n) evs key"

fun trail_of :: "attempt_status option \<Rightarrow> (nat \<times> effect_event) list \<Rightarrow> transition list" where
  "trail_of from [] = []"
| "trail_of from ((n, ev) # rest) = \<lparr>tn_from = from, tn_to = event_status ev, tn_position = n\<rparr> # trail_of (Some (event_status ev)) rest"

fun status_after :: "attempt_status option \<Rightarrow> (nat \<times> effect_event) list \<Rightarrow> attempt_status option" where
  "status_after status [] = status"
| "status_after status ((n, ev) # rest) = status_after (Some (event_status ev)) rest"

fun verification_after :: "verification option \<Rightarrow> (nat \<times> effect_event) list \<Rightarrow> verification option" where
  "verification_after v [] = v"
| "verification_after v ((n, ev) # rest) = verification_after (if event_verification ev \<noteq> None then event_verification ev else v) rest"

lemma fold_events_all:
  "recovered_wf r \<Longrightarrow>
     recovered_status (fold_events n evs r) key = status_after (recovered_status r key) (key_events n evs key) \<and>
     recovered_verification (fold_events n evs r) key = verification_after (recovered_verification r key) (key_events n evs key) \<and>
     recovered_history (fold_events n evs r) key = recovered_history r key @ trail_of (recovered_status r key) (key_events n evs key)"
proof (induction evs arbitrary: n r)
  case (Cons ev evs)
  show ?case using Cons.IH [OF fold_event_wf [OF Cons.prems], of "Suc n" n ev]
    by (simp add: fold_event_status [OF Cons.prems] fold_event_history [OF Cons.prems])
qed simp

lemma fold_events_exact:
  assumes "recovered_wf r"
  shows "recovered_status (fold_events n evs r) key = status_after (recovered_status r key) (key_events n evs key)"
    and "recovered_verification (fold_events n evs r) key = verification_after (recovered_verification r key) (key_events n evs key)"
    and "recovered_history (fold_events n evs r) key = recovered_history r key @ trail_of (recovered_status r key) (key_events n evs key)"
  using fold_events_all [OF assms] by simp_all

lemma status_after_last: "status_after status evs = (if evs = [] then status else Some (event_status (snd (last evs))))"
  by (induction status evs rule: status_after.induct) auto

lemma uncertain_keys_iff:
  assumes "recovered_wf r"
  shows "key \<in> set (uncertain_keys r) \<longleftrightarrow> recovered_status r key = Some StOutcomeUnknown"
proof -
  have "is_uncertain status \<longleftrightarrow> status = StOutcomeUnknown" for status by (cases status) simp_all
  then have "key \<in> set (uncertain_keys r) \<longleftrightarrow> (\<exists>a. (a \<in> set (rv_attempts r) \<and> at_key a = key) \<and> at_status a = StOutcomeUnknown)"
    by (auto simp: uncertain_keys_def)
  also have "\<dots> \<longleftrightarrow> (\<exists>a. held_attempt r key = Some a \<and> at_status a = StOutcomeUnknown)" by (simp only: held_attempt_iff [OF assms])
  finally show ?thesis by (auto simp: recovered_status_def)
qed

lemma uncertain_keys_distinct: "recovered_wf r \<Longrightarrow> distinct (uncertain_keys r)"
  using recovered_wfD(2) [of r] by (simp add: uncertain_keys_def distinct_map_filter)

lemma recovered_none_empty [simp]:
  "recovered_status recovered_none key = None" "recovered_verification recovered_none key = None" "recovered_history recovered_none key = []"
  "held_attempt recovered_none key = None"
  by (simp_all add: recovered_status_def recovered_verification_def recovered_history_def held_attempt_def recovered_none_def)

lemma recover_fold: "recover_events evs = fold_events 0 evs recovered_none"
  by (simp add: recover_events_def recover_continued_def)

text \<open>C24: What a journal recovers to is exactly what its events say. The status of a key is the one of its last event, and a key
  without events has none; its verification is the last one that was recorded; its history is one transition per event, with the
  position of the event and the status before it; and the keys listed as uncertain are, each once, those whose last event is a
  dispatch that no outcome followed.\<close>

theorem recover_exact:
  "recovered_status (recover_events evs) key = (let own = key_events 0 evs key in if own = [] then None else Some (event_status (snd (last own)))) \<and>
   recovered_verification (recover_events evs) key = verification_after None (key_events 0 evs key) \<and>
   recovered_history (recover_events evs) key = trail_of None (key_events 0 evs key) \<and>
   distinct (uncertain_keys (recover_events evs)) \<and>
   set (uncertain_keys (recover_events evs)) = {k. recovered_status (recover_events evs) k = Some StOutcomeUnknown}"
proof -
  have wf: "recovered_wf (recover_events evs)" by (simp add: recover_fold fold_events_wf)
  show ?thesis
    using uncertain_keys_distinct [OF wf] uncertain_keys_iff [OF wf] fold_events_exact [OF recovered_wf_none, where n = 0 and evs = evs and key = key]
    by (auto simp: recover_fold Let_def status_after_last)
qed

section \<open>What a continuation carries\<close>

definition settled_status :: "attempt_status \<Rightarrow> bool" where
  "settled_status status \<longleftrightarrow> status \<noteq> StPrepared \<and> status \<noteq> StOutcomeUnknown"

definition settled_of :: "recovered \<Rightarrow> attempt list" where
  "settled_of r = filter (\<lambda>a. settled_status (at_status a)) (rv_attempts r)"

definition record_rung :: "recovered \<Rightarrow> attempt \<Rightarrow> event_kind" where
  "record_rung r a = (let changes = recovered_history r (at_key a) in
     if changes \<noteq> [] \<and> (tn_to (last changes) = StVerified \<or> tn_to (last changes) = StVerificationFailed) then VerifiedKind else OutcomeKind)"

definition record_of :: "recovered \<Rightarrow> attempt \<Rightarrow> settled_attempt" where
  "record_of r a = settled_new (at_key a) (record_rung r a) (at_status a) (at_verification a)"

definition unresolved_of :: "attempt \<Rightarrow> unresolved_attempt" where
  "unresolved_of a = unresolved_new (at_key a) (if at_status a = StPrepared then IntentKind else DispatchKind)"

lemma carry_attempts_eq:
  "carry_attempts r as s u =
     (foldl (\<lambda>s a. fold_settled (record_of r a) s) s (filter (\<lambda>a. settled_status (at_status a)) as),
      u @ map unresolved_of (filter (\<lambda>a. \<not> settled_status (at_status a)) as))"
proof (induction as arbitrary: s u)
  case (Cons a as)
  show ?case
    by (cases "at_status a") (simp_all add: Cons.IH settled_status_def record_of_def record_rung_def unresolved_of_def Let_def)
qed simp

lemma carried_of_eq:
  "fst (carried_of r) = foldl (\<lambda>s a. fold_settled (record_of r a) s) [] (settled_of r)"
  "snd (carried_of r) = map unresolved_of (filter (\<lambda>a. \<not> settled_status (at_status a)) (rv_attempts r))"
  by (simp_all add: carried_of_def carry_attempts_eq settled_of_def)

text \<open>The record of an action, and how one more settled attempt changes it.\<close>

definition record_for :: "settled_attempt list \<Rightarrow> id128 \<Rightarrow> settled_attempt option" where
  "record_for xs action = find (\<lambda>held. ek_action (se_key held) = action) xs"

lemma settled_for_record: "settled_for action c = record_for (cn_settled c) action"
  by (simp add: settled_for_def record_for_def)

lemma record_for_fold: "record_for (fold_settled h xs) action = (if action = ek_action (se_key h) then Some h else record_for xs action)"
  by (induction xs) (auto simp: record_for_def)

lemma fold_settled_actions:
  "set (map (ek_action \<circ> se_key) (fold_settled h xs)) = insert (ek_action (se_key h)) (set (map (ek_action \<circ> se_key) xs))"
  by (induction xs) auto

lemma fold_settled_distinct: "distinct (map (ek_action \<circ> se_key) xs) \<Longrightarrow> distinct (map (ek_action \<circ> se_key) (fold_settled h xs))"
proof (induction xs)
  case (Cons x xs)
  then show ?case using fold_settled_actions [of h xs] by auto
qed simp

lemma fold_settled_set: "set (fold_settled h xs) \<subseteq> insert h (set xs)"
  by (induction xs) auto

lemma record_for_mem: "record_for xs action = Some h \<Longrightarrow> h \<in> set xs \<and> ek_action (se_key h) = action"
  by (auto simp: record_for_def find_Some_iff)

lemma record_for_iff: "distinct (map (ek_action \<circ> se_key) xs) \<Longrightarrow> h \<in> set xs \<longleftrightarrow> record_for xs (ek_action (se_key h)) = Some h"
proof (induction xs)
  case (Cons x xs)
  then show ?case by (cases "x = h") (auto simp: record_for_def rev_image_eqI)
qed (simp add: record_for_def)

lemma folded_records:
  "distinct (map (ek_action \<circ> se_key) xs) \<Longrightarrow>
     distinct (map (ek_action \<circ> se_key) (foldl (\<lambda>s a. fold_settled (f a) s) xs as)) \<and>
     set (foldl (\<lambda>s a. fold_settled (f a) s) xs as) \<subseteq> set xs \<union> f ` set as"
proof (induction as arbitrary: xs)
  case (Cons a as)
  show ?case using Cons.IH [OF fold_settled_distinct [OF Cons.prems], of "f a"] fold_settled_set [of "f a" xs] by auto
qed simp

lemma folded_record_for:
  "record_for (foldl (\<lambda>s a. fold_settled (f a) s) xs as) action =
     (let own = filter (\<lambda>a. ek_action (se_key (f a)) = action) as in if own = [] then record_for xs action else Some (f (last own)))"
  by (induction as rule: rev_induct) (auto simp: record_for_fold Let_def)

text \<open>The indices of a record name what was written.\<close>

lemma index_round_trip [simp]: "status_of (status_index status) = Some status" "rung_of (rung_index kind) = Some kind"
  by (cases status; simp add: status_of_def list_get_def) (cases kind; simp add: rung_of_def list_get_def)

lemma record_of_simps [simp]:
  "se_key (record_of r a) = at_key a" "status_of (se_status (record_of r a)) = Some (at_status a)"
  "rung_of (se_rung (record_of r a)) = Some (record_rung r a)" "se_verification (record_of r a) = at_verification a"
  by (simp_all add: record_of_def settled_new_def)

lemma unresolved_of_simps:
  "ur_key (unresolved_of a) = at_key a"
  "\<not> settled_status (at_status a) \<Longrightarrow> unresolved_status (unresolved_of a) = Some (at_status a)"
  by (auto simp: unresolved_of_def unresolved_new_def unresolved_status_def settled_status_def)

text \<open>Seeding from lists of distinct keys.\<close>

lemma seed_settled_held:
  assumes "recovered_wf r" and "distinct (map se_key xs)" and "\<forall>h\<in>set xs. held_attempt r (se_key h) = None"
    and "\<forall>h\<in>set xs. \<exists>s k. status_of (se_status h) = Some s \<and> rung_of (se_rung h) = Some k"
  shows "recovered_wf (seed_settled xs r) \<and> (\<forall>key. held_attempt (seed_settled xs r) key =
     (case find (\<lambda>h. se_key h = key) xs of
        Some h \<Rightarrow> Some \<lparr>at_key = key, at_status = the (status_of (se_status h)), at_verification = se_verification h\<rparr>
      | None \<Rightarrow> held_attempt r key))"
  using assms
proof (induction xs arbitrary: r)
  case (Cons h xs)
  obtain s k where sk: "status_of (se_status h) = Some s" "rung_of (se_rung h) = Some k" using Cons.prems(4) by auto
  let ?r = "seed_attempt (se_key h) s (se_verification h) (length (rv_attempts r)) r"
  have fresh: "rv_index r (se_key h) = None" using Cons.prems(1,3) by (simp add: held_None_iff)
  have wf: "recovered_wf ?r" by (rule seed_wf [OF Cons.prems(1) fresh])
  have other: "\<forall>g\<in>set xs. held_attempt ?r (se_key g) = None"
  proof
    fix g assume g: "g \<in> set xs"
    have "se_key g \<noteq> se_key h" using imageI [OF g, of se_key] Cons.prems(2) by (metis distinct.simps(2) list.simps(9) set_map)
    with g Cons.prems(3) show "held_attempt ?r (se_key g) = None" by (simp add: seed_held [OF Cons.prems(1)])
  qed
  have absent: "find (\<lambda>g. se_key g = se_key h) xs = None" unfolding find_None_iff
    using Cons.prems(2) by (metis distinct.simps(2) image_eqI list.simps(9) set_map)
  have ih: "recovered_wf (seed_settled xs ?r) \<and> (\<forall>key. held_attempt (seed_settled xs ?r) key =
     (case find (\<lambda>h. se_key h = key) xs of
        Some h \<Rightarrow> Some \<lparr>at_key = key, at_status = the (status_of (se_status h)), at_verification = se_verification h\<rparr>
      | None \<Rightarrow> held_attempt ?r key))"
    by (rule Cons.IH [OF wf _ other]) (use Cons.prems(2,4) in simp_all)
  then show ?case using absent by (auto simp: sk seed_held [OF Cons.prems(1)] split: option.splits)
qed simp

lemma seed_unresolved_held:
  assumes "recovered_wf r" and "distinct (map ur_key us)" and "\<forall>u\<in>set us. held_attempt r (ur_key u) = None"
    and "\<forall>u\<in>set us. unresolved_status u \<noteq> None"
  shows "recovered_wf (seed_unresolved us r) \<and> (\<forall>key. held_attempt (seed_unresolved us r) key =
     (case find (\<lambda>u. ur_key u = key) us of
        Some u \<Rightarrow> Some \<lparr>at_key = key, at_status = the (unresolved_status u), at_verification = None\<rparr>
      | None \<Rightarrow> held_attempt r key))"
  using assms
proof (induction us arbitrary: r)
  case (Cons u us)
  obtain s where s: "unresolved_status u = Some s" using Cons.prems(4) by auto
  let ?r = "seed_attempt (ur_key u) s None (length (rv_attempts r)) r"
  have fresh: "rv_index r (ur_key u) = None" using Cons.prems(1,3) by (simp add: held_None_iff)
  have wf: "recovered_wf ?r" by (rule seed_wf [OF Cons.prems(1) fresh])
  have other: "\<forall>g\<in>set us. held_attempt ?r (ur_key g) = None"
  proof
    fix g assume g: "g \<in> set us"
    have "ur_key g \<noteq> ur_key u" using imageI [OF g, of ur_key] Cons.prems(2) by (metis distinct.simps(2) list.simps(9) set_map)
    with g Cons.prems(3) show "held_attempt ?r (ur_key g) = None" by (simp add: seed_held [OF Cons.prems(1)])
  qed
  have absent: "find (\<lambda>g. ur_key g = ur_key u) us = None" unfolding find_None_iff
    using Cons.prems(2) by (metis distinct.simps(2) image_eqI list.simps(9) set_map)
  have ih: "recovered_wf (seed_unresolved us ?r) \<and> (\<forall>key. held_attempt (seed_unresolved us ?r) key =
     (case find (\<lambda>u. ur_key u = key) us of
        Some u \<Rightarrow> Some \<lparr>at_key = key, at_status = the (unresolved_status u), at_verification = None\<rparr>
      | None \<Rightarrow> held_attempt ?r key))"
    by (rule Cons.IH [OF wf _ other]) (use Cons.prems(2,4) in simp_all)
  then show ?case using absent by (auto simp: s seed_held [OF Cons.prems(1)] split: option.splits)
qed simp

text \<open>The journals a first generation and its continuations recover to.\<close>

inductive lineage :: "recovered \<Rightarrow> bool" where
  first_generation: "lineage (recover_events evs)"
| next_generation: "lineage r \<Longrightarrow> cn_settled c = fst (carried_of r) \<Longrightarrow> cn_unresolved c = snd (carried_of r) \<Longrightarrow>
    lineage (recover_continued (Some c) evs)"

lemma settled_of_mem: "a \<in> set (settled_of r) \<longleftrightarrow> a \<in> set (rv_attempts r) \<and> settled_status (at_status a)"
  by (auto simp: settled_of_def)

lemma find_distinct:
  assumes "distinct (map f xs)" and "x \<in> set xs" and "f x = key"
  shows "find (\<lambda>h. f h = key) xs = Some x"
  using assms by (induction xs) (auto simp: rev_image_eqI)

text \<open>What a recovery that continues from a carried checkpoint holds before its own events.\<close>

lemma carried_settled:
  assumes "recovered_wf r"
  shows "distinct (map se_key (fst (carried_of r)))" and "h \<in> set (fst (carried_of r)) \<Longrightarrow> \<exists>a\<in>set (settled_of r). h = record_of r a"
    and "h \<in> set (fst (carried_of r)) \<longleftrightarrow> record_for (fst (carried_of r)) (ek_action (se_key h)) = Some h"
proof -
  have folded: "distinct (map (ek_action \<circ> se_key) (fst (carried_of r)))" "set (fst (carried_of r)) \<subseteq> record_of r ` set (settled_of r)"
    using folded_records [of "[]" "record_of r" "settled_of r"] by (simp_all add: carried_of_eq)
  show "distinct (map se_key (fst (carried_of r)))" using folded(1) by (auto simp: distinct_map inj_on_def)
  show "h \<in> set (fst (carried_of r)) \<Longrightarrow> \<exists>a\<in>set (settled_of r). h = record_of r a" using folded(2) by auto
  show "h \<in> set (fst (carried_of r)) \<longleftrightarrow> record_for (fst (carried_of r)) (ek_action (se_key h)) = Some h"
    by (rule record_for_iff [OF folded(1)])
qed

lemma carried_unresolved:
  assumes "recovered_wf r"
  shows "distinct (map ur_key (snd (carried_of r)))"
    and "u \<in> set (snd (carried_of r)) \<longleftrightarrow> (\<exists>a\<in>set (rv_attempts r). \<not> settled_status (at_status a) \<and> u = unresolved_of a)"
  using recovered_wfD(2) [OF assms] by (auto simp: carried_of_eq unresolved_of_simps comp_def distinct_map_filter)

text \<open>A key stands for one attempt.\<close>

lemma attempt_unique: "recovered_wf r \<Longrightarrow> a \<in> set (rv_attempts r) \<Longrightarrow> b \<in> set (rv_attempts r) \<Longrightarrow> at_key a = at_key b \<Longrightarrow> a = b"
  using recovered_wfD(2) [of r] by (auto simp: distinct_map inj_on_def)

text \<open>What a recovery that continues from a carried checkpoint holds before its own events.\<close>

lemma seeded_all:
  assumes wf: "recovered_wf r" and s: "cn_settled c = fst (carried_of r)" and u: "cn_unresolved c = snd (carried_of r)"
  shows "recovered_wf (recover_continued (Some c) []) \<and> (\<forall>key. held_attempt (recover_continued (Some c) []) key =
    (case find (\<lambda>u. ur_key u = key) (cn_unresolved c) of
       Some u \<Rightarrow> Some \<lparr>at_key = key, at_status = the (unresolved_status u), at_verification = None\<rparr>
     | None \<Rightarrow> (case find (\<lambda>h. se_key h = key) (cn_settled c) of
         Some h \<Rightarrow> Some \<lparr>at_key = key, at_status = the (status_of (se_status h)), at_verification = se_verification h\<rparr>
       | None \<Rightarrow> None)))"
proof -
  have named: "\<forall>h\<in>set (cn_settled c). \<exists>st k. status_of (se_status h) = Some st \<and> rung_of (se_rung h) = Some k"
  proof
    fix h assume "h \<in> set (cn_settled c)"
    then obtain a where "h = record_of r a" using carried_settled(2) [OF wf] unfolding s by blast
    then show "\<exists>st k. status_of (se_status h) = Some st \<and> rung_of (se_rung h) = Some k" by simp
  qed
  have held: "recovered_wf (seed_settled (cn_settled c) recovered_none) \<and>
    (\<forall>key. held_attempt (seed_settled (cn_settled c) recovered_none) key =
      (case find (\<lambda>h. se_key h = key) (cn_settled c) of
         Some h \<Rightarrow> Some \<lparr>at_key = key, at_status = the (status_of (se_status h)), at_verification = se_verification h\<rparr>
       | None \<Rightarrow> held_attempt recovered_none key))"
    by (rule seed_settled_held [OF recovered_wf_none _ _ named]) (simp_all add: s carried_settled(1) [OF wf])
  have fresh: "held_attempt (seed_settled (cn_settled c) recovered_none) (ur_key u) = None"
    and unsettled: "unresolved_status u \<noteq> None" if mem: "u \<in> set (cn_unresolved c)" for u
  proof -
    obtain a where a: "a \<in> set (rv_attempts r)" "\<not> settled_status (at_status a)" "u = unresolved_of a"
      using mem unfolding u carried_unresolved(2) [OF wf] by blast
    have "find (\<lambda>h. se_key h = at_key a) (cn_settled c) = None"
      unfolding find_None_iff
    proof
      assume "\<exists>h. h \<in> set (cn_settled c) \<and> se_key h = at_key a"
      then obtain h where h: "h \<in> set (fst (carried_of r))" "se_key h = at_key a" unfolding s by blast
      obtain b where b: "b \<in> set (settled_of r)" "h = record_of r b" using carried_settled(2) [OF wf h(1)] by blast
      have "a = b" by (rule attempt_unique [OF wf a(1)]) (use b h(2) in \<open>simp_all add: settled_of_mem\<close>)
      then show False using a(2) b(1) by (simp add: settled_of_mem)
    qed
    then show "held_attempt (seed_settled (cn_settled c) recovered_none) (ur_key u) = None" and "unresolved_status u \<noteq> None"
      using held a by (simp_all add: unresolved_of_simps)
  qed
  have "recovered_wf (seed_unresolved (cn_unresolved c) (seed_settled (cn_settled c) recovered_none)) \<and>
    (\<forall>key. held_attempt (seed_unresolved (cn_unresolved c) (seed_settled (cn_settled c) recovered_none)) key =
      (case find (\<lambda>u. ur_key u = key) (cn_unresolved c) of
         Some u \<Rightarrow> Some \<lparr>at_key = key, at_status = the (unresolved_status u), at_verification = None\<rparr>
       | None \<Rightarrow> held_attempt (seed_settled (cn_settled c) recovered_none) key))"
    by (rule seed_unresolved_held) (use held fresh unsettled carried_unresolved(1) [OF wf] in \<open>simp_all add: u\<close>)
  then show ?thesis using held by (simp add: recover_continued_def cong: option.case_cong)
qed

lemma seeded_held:
  assumes wf: "recovered_wf r" and s: "cn_settled c = fst (carried_of r)" and u: "cn_unresolved c = snd (carried_of r)"
  shows "recovered_wf (recover_continued (Some c) [])"
    and "held_attempt r key = Some a \<Longrightarrow> \<not> settled_status (at_status a) \<Longrightarrow>
      held_attempt (recover_continued (Some c) []) key = Some \<lparr>at_key = key, at_status = at_status a, at_verification = None\<rparr>"
    and "held_attempt r key = Some a \<Longrightarrow> settled_status (at_status a) \<Longrightarrow>
      held_attempt (recover_continued (Some c) []) key = (if settled_for (ek_action key) c = Some (record_of r a) then Some a else None)"
    and "held_attempt r key = None \<Longrightarrow> held_attempt (recover_continued (Some c) []) key = None"
proof -
  note all = seeded_all [OF assms]
  show "recovered_wf (recover_continued (Some c) [])" using all by blast
  have keys: "find (\<lambda>u. ur_key u = key) (cn_unresolved c) = None" if "\<And>a. a \<in> set (rv_attempts r) \<Longrightarrow> \<not> settled_status (at_status a) \<Longrightarrow> at_key a \<noteq> key"
    unfolding find_None_iff u carried_unresolved(2) [OF wf] using that by (metis unresolved_of_simps(1))
  { assume "held_attempt r key = Some a" and a2: "\<not> settled_status (at_status a)"
    then have a: "a \<in> set (rv_attempts r)" "at_key a = key" unfolding held_attempt_iff [OF wf] by simp_all
    have "find (\<lambda>u. ur_key u = key) (cn_unresolved c) = Some (unresolved_of a)"
      by (rule find_distinct) (use a a2 carried_unresolved [OF wf] in \<open>auto simp: u unresolved_of_simps\<close>)
    then show "held_attempt (recover_continued (Some c) []) key = Some \<lparr>at_key = key, at_status = at_status a, at_verification = None\<rparr>"
      using all a2 by (simp add: unresolved_of_simps) }
  { assume "held_attempt r key = Some a" and a2: "settled_status (at_status a)"
    then have a: "a \<in> set (rv_attempts r)" "at_key a = key" unfolding held_attempt_iff [OF wf] by simp_all
    have none: "find (\<lambda>u. ur_key u = key) (cn_unresolved c) = None"
      by (rule keys) (use attempt_unique [OF wf a(1)] a a2 in blast)
    show "held_attempt (recover_continued (Some c) []) key = (if settled_for (ek_action key) c = Some (record_of r a) then Some a else None)"
    proof (cases "settled_for (ek_action key) c = Some (record_of r a)")
      case True
      then have "record_of r a \<in> set (cn_settled c)" using carried_settled(3) [OF wf, of "record_of r a"] a by (simp add: settled_for_record s)
      then have "find (\<lambda>h. se_key h = key) (cn_settled c) = Some (record_of r a)"
        by (intro find_distinct) (use a carried_settled(1) [OF wf] in \<open>simp_all add: s\<close>)
      then show ?thesis using all none True a by simp
    next
      case False
      have "find (\<lambda>h. se_key h = key) (cn_settled c) = None"
        unfolding find_None_iff
      proof
        assume "\<exists>h. h \<in> set (cn_settled c) \<and> se_key h = key"
        then obtain h where h: "h \<in> set (fst (carried_of r))" "se_key h = key" unfolding s by blast
        obtain b where b: "b \<in> set (settled_of r)" "h = record_of r b" using carried_settled(2) [OF wf h(1)] by blast
        then have "b = a" using attempt_unique [OF wf, of b a] a h(2) by (simp add: settled_of_mem)
        then show False using False carried_settled(3) [OF wf, of h] h b by (simp add: settled_for_record s)
      qed
      then show ?thesis using all none False by simp
    qed }
  { assume "held_attempt r key = None"
    then have absent: "at_key a \<noteq> key" if "a \<in> set (rv_attempts r)" for a using that held_attempt_iff [OF wf, of key a] by auto
    have "find (\<lambda>h. se_key h = key) (cn_settled c) = None"
      unfolding find_None_iff s using carried_settled(2) [OF wf] absent by (force simp: settled_of_mem)
    then show "held_attempt (recover_continued (Some c) []) key = None" using all keys absent by simp }
qed

lemma recover_continued_fold: "recover_continued base evs = fold_events 0 evs (recover_continued base [])"
  by (simp add: recover_continued_def)

lemma lineage_wf: "lineage r \<Longrightarrow> recovered_wf r"
proof (induction rule: lineage.induct)
  case (next_generation r c evs)
  from seeded_held(1) [OF next_generation.IH next_generation.hyps(2,3)] show ?case
    unfolding recover_continued_fold [of _ evs] by (rule fold_events_wf)
qed (simp add: recover_fold fold_events_wf)

lemma recovered_status_None: "recovered_status r key = None \<longleftrightarrow> held_attempt r key = None"
  by (simp add: recovered_status_def)

text \<open>What a key starts the next generation with: an attempt that settled stays only as the record of its action.\<close>

lemma seeded_status:
  assumes wf: "recovered_wf r" and s: "cn_settled c = fst (carried_of r)" and u: "cn_unresolved c = snd (carried_of r)"
  shows "recovered_status (recover_continued (Some c) []) key =
    (if (\<exists>st. recovered_status r key = Some st \<and> settled_status st) \<and> map_option se_key (settled_for (ek_action key) c) \<noteq> Some key
     then None else recovered_status r key)"
proof (cases "held_attempt r key")
  case None
  then show ?thesis using seeded_held(4) [OF assms None] by (simp add: recovered_status_def)
next
  case (Some a)
  then have a: "a \<in> set (rv_attempts r)" "at_key a = key" unfolding held_attempt_iff [OF wf] by simp_all
  have status: "recovered_status r key = Some (at_status a)" using Some by (simp add: recovered_status_def)
  show ?thesis
  proof (cases "settled_status (at_status a)")
    case False
    then show ?thesis using seeded_held(2) [OF assms Some False] by (simp add: recovered_status_def Some)
  next
    case True
    have "settled_for (ek_action key) c = Some (record_of r a) \<longleftrightarrow> map_option se_key (settled_for (ek_action key) c) = Some key"
    proof
      assume "map_option se_key (settled_for (ek_action key) c) = Some key"
      then obtain h where h: "settled_for (ek_action key) c = Some h" "se_key h = key" by auto
      have "h \<in> set (fst (carried_of r))" using h by (simp add: settled_for_record s carried_settled(3) [OF wf])
      then obtain b where b: "b \<in> set (settled_of r)" "h = record_of r b" using carried_settled(2) [OF wf] by blast
      have "a = b" by (rule attempt_unique [OF wf a(1)]) (use a b h(2) in \<open>simp_all add: settled_of_mem\<close>)
      then show "settled_for (ek_action key) c = Some (record_of r a)" using h b by simp
    qed (simp add: a)
    then show ?thesis using seeded_held(3) [OF assms Some True] True Some
      by (cases "map_option se_key (settled_for (ek_action key) c) = Some key") (simp_all add: recovered_status_def)
  qed
qed

lemma settled_attempt_mem:
  assumes "recovered_wf r" and "recovered_status r key = Some st" and "settled_status st"
  obtains a where "a \<in> set (settled_of r)" and "at_key a = key" and "at_status a = st"
  using assms(2,3) held_attempt_iff [OF assms(1)] by (auto simp: recovered_status_def settled_of_mem)

lemma action_record:
  assumes "cn_settled c = fst (carried_of r)" and "a \<in> set (settled_of r)"
  shows "settled_for (ek_action (at_key a)) c = Some (record_of r (last (filter (\<lambda>b. ek_action (at_key b) = ek_action (at_key a)) (settled_of r))))"
proof -
  have "filter (\<lambda>b. ek_action (at_key b) = ek_action (at_key a)) (settled_of r) \<noteq> []" using assms(2) by (auto simp: filter_empty_conv)
  then show ?thesis by (simp add: settled_for_record assms(1) carried_of_eq folded_record_for)
qed

lemma last_filter_greatest:
  assumes "sorted_wrt R xs" and "reflp R" and "a \<in> set xs" and "P a"
  shows "R a (last (filter P xs))"
proof -
  have "sorted_wrt R (filter P xs)" using assms(1) by (rule sorted_wrt_filter)
  moreover have "a \<in> set (filter P xs)" using assms(3,4) by simp
  ultimately show ?thesis
  proof (induction "filter P xs" arbitrary: xs rule: rev_induct)
    case (snoc y ys)
    then show ?case using assms(2) by (auto simp: sorted_wrt_append reflp_def simp flip: snoc.hyps(2))
  qed simp
qed

text \<open>Every settled attempt is walked by the record of its action, when the attempts of each action settled in order.\<close>

definition attempts_in_order :: "recovered \<Rightarrow> bool" where
  "attempts_in_order r \<longleftrightarrow>
     sorted_wrt (\<lambda>a b. ek_action (at_key a) = ek_action (at_key b) \<longrightarrow> ek_attempt (at_key a) \<le> ek_attempt (at_key b)) (settled_of r)"

lemma settled_walked:
  assumes s: "cn_settled c = fst (carried_of r)" and order: "attempts_in_order r" and a: "a \<in> set (settled_of r)"
  shows "\<exists>held. settled_for (ek_action (at_key a)) c = Some held \<and> already_walked held (at_key a)"
proof -
  let ?b = "last (filter (\<lambda>b. ek_action (at_key b) = ek_action (at_key a)) (settled_of r))"
  have "?b \<in> set (filter (\<lambda>b. ek_action (at_key b) = ek_action (at_key a)) (settled_of r))" using a by (intro last_in_set) (auto simp: filter_empty_conv)
  then have action: "ek_action (at_key ?b) = ek_action (at_key a)" by simp
  have "ek_action (at_key a) = ek_action (at_key ?b) \<longrightarrow> ek_attempt (at_key a) \<le> ek_attempt (at_key ?b)"
    by (rule last_filter_greatest [OF order [unfolded attempts_in_order_def] _ a]) (simp_all add: reflp_def)
  with action show ?thesis by (simp add: action_record [OF s a] already_walked_def)
qed

lemma status_after_shift: "status_after status (key_events n evs key) = status_after status (key_events m evs key)"
  by (induction evs arbitrary: status n m) simp_all

text \<open>C23: A continued journal answers as the whole history would. After any events of the next generation, a key has the status
  it would have had with nothing compacted, except that an attempt which had settled and is not the record of its action is known
  by the new events alone. Every action that settled has a record; and where the attempts of each action settled in the order of
  their numbers, that record refuses every settled attempt again.\<close>

theorem continuation_carries:
  assumes "lineage r" and "cn_settled c = fst (carried_of r)" and "cn_unresolved c = snd (carried_of r)"
  shows "recovered_status (recover_continued (Some c) evs) key =
      (if (\<exists>st. recovered_status r key = Some st \<and> settled_status st) \<and> map_option se_key (settled_for (ek_action key) c) \<noteq> Some key
       then recovered_status (recover_events evs) key else recovered_status (fold_events n evs r) key) \<and>
    (\<forall>st. recovered_status r key = Some st \<and> settled_status st \<longrightarrow>
      settled_for (ek_action key) c \<noteq> None \<and>
      (attempts_in_order r \<longrightarrow> (\<exists>held. settled_for (ek_action key) c = Some held \<and> already_walked held key)))"
    (is "?status \<and> ?walked")
proof
  note wf = lineage_wf [OF assms(1)]
  note seed = seeded_held(1) [OF wf assms(2,3)]
  show ?status
    unfolding recover_continued_fold [of _ evs] fold_events_exact(1) [OF seed] seeded_status [OF wf assms(2,3)]
      fold_events_exact(1) [OF wf] recover_fold fold_events_exact(1) [OF recovered_wf_none] status_after_shift [of _ n evs key 0] recovered_none_empty(1)
    by (rule if_distrib)
  show ?walked
  proof (intro allI impI)
    fix st assume "recovered_status r key = Some st \<and> settled_status st"
    then obtain a where a: "a \<in> set (settled_of r)" "at_key a = key" using settled_attempt_mem [OF wf] by blast
    show "settled_for (ek_action key) c \<noteq> None \<and>
      (attempts_in_order r \<longrightarrow> (\<exists>held. settled_for (ek_action key) c = Some held \<and> already_walked held key))"
      using action_record [OF assms(2) a(1)] settled_walked [OF assms(2) _ a(1)] by (simp add: a(2))
  qed
qed

section \<open>An attempt that settles late\<close>

definition handed_over :: "nat \<Rightarrow> journal_position \<Rightarrow> recovered \<Rightarrow> checkpoint_record" where
  "handed_over generation predecessor r =
     \<lparr>cn_generation = generation, cn_predecessor = predecessor, cn_settled = fst (carried_of r), cn_unresolved = snd (carried_of r)\<rparr>"

lemma handed_over_simps [simp]:
  "cn_settled (handed_over g p r) = fst (carried_of r)" "cn_unresolved (handed_over g p r) = snd (carried_of r)"
  by (simp_all add: handed_over_def)

definition crossed_events :: "effect_key \<Rightarrow> effect_key \<Rightarrow> effect_event list" where
  "crossed_events early late =
     [IntentAdmitted early, DispatchPrepared early, IntentAdmitted late, DispatchPrepared late, OutcomeObserved late Applied]"

text \<open>An attempt that settles late makes its action forget a newer one. An action's first attempt is dispatched and has no
  outcome, its second is applied, and the journal is sealed; the first attempt's outcome comes in the next generation, and that is
  sealed too. The generation after it holds the record of the first attempt only: it knows nothing of the applied second attempt
  but what its own events say, and the record does not refuse that attempt.\<close>

theorem late_settlement_forgets:
  assumes "ek_action early = ek_action late" and "ek_attempt early < ek_attempt late"
    and "c1 = handed_over 1 p (recover_events (crossed_events early late))"
    and "r2 = recover_continued (Some c1) [OutcomeObserved early NotApplied]" and "c2 = handed_over 2 q r2"
  shows "recovered_status r2 late = Some StApplied \<and>
    recovered_status (recover_continued (Some c2) evs) late = recovered_status (recover_events evs) late \<and>
    (\<exists>held. settled_for (ek_action late) c2 = Some held \<and> se_key held = early \<and> \<not> already_walked held late)"
proof -
  have differ: "early \<noteq> late" "late \<noteq> early" using assms(2) by auto
  have first: "lineage (recover_events (crossed_events early late))" by (rule first_generation)
  have second: "lineage r2" unfolding assms(4) by (rule next_generation [OF first]) (simp_all add: assms(3))
  have r1: "carried_of (recover_events (crossed_events early late)) =
      ([settled_new late OutcomeKind StApplied None], [unresolved_new early DispatchKind])"
    using differ by (simp add: recover_fold crossed_events_def recovered_none_def fold_event_def seed_attempt_def advance_attempt_def list_get_def
      carried_of_def recovered_history_def Let_def)
  have r2: "rv_attempts r2 = [attempt_new late StApplied, attempt_new early StNotApplied]"
    "rv_index r2 = [late \<mapsto> 0, early \<mapsto> 1]"
    "map (map tn_to) (rv_transitions r2) = [[StApplied], [StOutcomeUnknown, StNotApplied]]"
    using differ unfolding assms(3,4) recover_continued_def handed_over_simps option.case r1
    by (simp_all add: settled_new_def unresolved_new_def attempt_new_def recovered_none_def seed_attempt_def unresolved_status_def
      fold_event_def advance_attempt_def list_get_def status_of_def rung_of_def)
  have status: "recovered_status r2 late = Some StApplied" "recovered_status r2 early = Some StNotApplied"
    using differ by (simp_all add: recovered_status_def held_attempt_def list_get_def r2 attempt_new_def)
  have settled: "settled_of r2 = [attempt_new late StApplied, attempt_new early StNotApplied]"
    by (simp add: settled_of_def r2 attempt_new_def settled_status_def)
  have c2: "cn_settled c2 = fst (carried_of r2)" "cn_unresolved c2 = snd (carried_of r2)" by (simp_all add: assms(5))
  have held: "settled_for (ek_action late) c2 = Some (record_of r2 (attempt_new early StNotApplied))"
    using action_record [OF c2(1), of "attempt_new late StApplied"] by (simp add: settled attempt_new_def assms(1))
  have "recovered_status (recover_continued (Some c2) evs) late = recovered_status (recover_events evs) late"
    unfolding recover_continued_fold [of "Some c2" evs] fold_events_exact(1) [OF seeded_held(1) [OF lineage_wf [OF second] c2]]
      seeded_status [OF lineage_wf [OF second] c2]
    using differ by (simp add: held status settled_status_def recover_fold fold_events_exact(1) [OF recovered_wf_none] attempt_new_def)
  with status held show ?thesis using assms(2) by (simp add: already_walked_def attempt_new_def)
qed

section \<open>Witnesses\<close>

theorem continuation_carries_witness:
  "recovered_status (recover_continued (Some (handed_over 1 (genesis_position flat_hash) (recover_events (crossed_events demo_key other_key))))
     [OutcomeObserved demo_key Applied]) demo_key = Some StApplied"
proof -
  let ?r = "recover_events (crossed_events demo_key other_key)"
  have wf: "recovered_wf ?r" by (rule lineage_wf [OF first_generation])
  have status: "recovered_status ?r demo_key = Some StOutcomeUnknown"
    unfolding recover_fold fold_events_exact(1) [OF recovered_wf_none] crossed_events_def using other_key_differs by simp
  show ?thesis
    using continuation_carries [OF first_generation [of "crossed_events demo_key other_key"], of "handed_over 1 (genesis_position flat_hash) ?r"
        "[OutcomeObserved demo_key Applied]" demo_key 0]
    by (simp add: status settled_status_def fold_event_status(1) [OF wf])
qed

theorem late_settlement_forgets_witness:
  "\<exists>c held. settled_for (ek_action demo_key) c = Some held \<and> \<not> already_walked held other_key"
  using late_settlement_forgets [of demo_key other_key _ "genesis_position flat_hash" _ _ "genesis_position flat_hash" "[]", OF _ _ refl refl refl]
  by (auto simp: other_key_def demo_key_def)

end
