(* ===== verification/File_Journal.thy ===== *)
theory File_Journal
  imports Recover Chain "HOL-Library.Sublist"
begin

text \<open>
  \<open>crates/lgwks-bot/src/journal/file.rs\<close> with \<open>file/scan.rs\<close>, \<open>open.rs\<close>, \<open>write.rs\<close>, \<open>seal.rs\<close> and \<open>adapter.rs\<close>, as built without the
  feature \<open>sealed\<close>, and the names of generations of \<open>continuation.rs\<close>: the effect journal in a file. A file system is a map from paths (lists of
  components) to files. The hash (BLAKE3) and the wire encoding (rkyv) are dependencies, the arguments of \<open>file_codec\<close>. What the
  device does to each call is an argument: a handle submits one write at a time and waits for it, so the storage owner is its
  answer and its poison latch. Sequence numbers of positions, file offsets and frame counts stay below the end of \<open>u64\<close>.
\<close>

section \<open>Files and codecs\<close>

type_synonym path = "bytes list"
type_synonym file_system = "path \<Rightarrow> disk option"

datatype file_cause = WireRefused nat | StorageIo io_error | FrameOverBound | FileMoved | WritePoisoned | NotOpened | AnswerMissing

record file_codec =
  fc_hash :: "bytes \<Rightarrow> bytes"
  fc_event :: "effect_event \<Rightarrow> file_cause + bytes"
  fc_read_event :: "bytes \<Rightarrow> effect_event option"
  fc_checkpoint :: "checkpoint_record \<Rightarrow> file_cause + bytes"
  fc_read_checkpoint :: "bytes \<Rightarrow> file_cause + checkpoint_record"

type_synonym file_error = "file_cause journal_error"

definition max_frame_bytes :: nat where "max_frame_bytes = 64 * 1024"
definition max_generation_walk :: nat where "max_generation_walk = 4096"

text \<open>\<open>lgwks.journal.checkpoint.v1\<close>, padded to 32 bytes.\<close>

definition checkpoint_magic :: bytes where
  "checkpoint_magic = [108, 103, 119, 107, 115, 46, 106, 111, 117, 114, 110, 97, 108, 46, 99, 104, 101, 99, 107, 112, 111, 105, 110, 116, 46, 118, 49, 0, 0, 0, 0, 0]"

definition to_payload :: "file_codec \<Rightarrow> checkpoint_record \<Rightarrow> file_error + bytes" where
  "to_payload c checkpoint =
     (case fc_checkpoint c checkpoint of Inl cause \<Rightarrow> Inl (Encoding cause) | Inr archived \<Rightarrow> Inr (checkpoint_magic @ archived))"

definition is_payload :: "bytes \<Rightarrow> bool" where
  "is_payload payload \<longleftrightarrow> take (length checkpoint_magic) payload = checkpoint_magic"

definition from_payload :: "file_codec \<Rightarrow> bytes \<Rightarrow> (file_error + checkpoint_record) option" where
  "from_payload c payload =
     (if is_payload payload
      then Some (case fc_read_checkpoint c (drop (length checkpoint_magic) payload) of Inl cause \<Rightarrow> Inl (Encoding cause) | Inr checkpoint \<Rightarrow> Inr checkpoint)
      else None)"

section \<open>Names of generations\<close>

definition generation_suffix :: bytes where "generation_suffix = [46, 99, 111, 110, 116]"
definition generation_digits :: nat where "generation_digits = 6"
definition max_generation_name :: nat where "max_generation_name = 999999"

definition file_name :: "path \<Rightarrow> bytes option" where
  "file_name p = (if p = [] then None else Some (last p))"

definition parent :: "path \<Rightarrow> path option" where
  "parent p = (if p = [] then None else Some (butlast p))"

definition ascii_digit :: "u8 \<Rightarrow> bool" where
  "ascii_digit byte \<longleftrightarrow> 48 \<le> byte \<and> byte \<le> 57"

definition is_generation_name :: "bytes \<Rightarrow> bool" where
  "is_generation_name name \<longleftrightarrow> length name = generation_digits \<and> list_all ascii_digit name"

definition name_number :: "bytes \<Rightarrow> nat option" where
  "name_number name =
     (if \<not> is_generation_name name then None
      else Some (foldl (\<lambda>number digit. sat_add_u64 (min (number * 10) u64_max) (unat digit - 48)) 0 name))"

text \<open>A number in six decimal digits, as \<open>format!("{n:06}")\<close> writes one below a million.\<close>

definition six_digits :: "nat \<Rightarrow> bytes" where
  "six_digits n = map (\<lambda>i. word_of_nat (48 + n div 10 ^ i mod 10)) (rev [0..<generation_digits])"

definition successor_path :: "path \<Rightarrow> path" where
  "successor_path p =
     (case (file_name p, parent p) of
        (Some name, Some dir) \<Rightarrow>
          (case name_number name of
             Some number \<Rightarrow> let next = min (sat_add_u64 number 1) max_generation_name in dir @ [six_digits next]
           | None \<Rightarrow> dir @ [name @ generation_suffix, six_digits 1])
      | _ \<Rightarrow> p)"

definition is_generation_path :: "path \<Rightarrow> bool" where
  "is_generation_path p =
     (let named = (case file_name p of Some name \<Rightarrow> is_generation_name name | None \<Rightarrow> False);
          in_directory =
            (case parent p of
               Some dir \<Rightarrow>
                 (case file_name dir of
                    Some name \<Rightarrow> drop (length name - length generation_suffix) name = generation_suffix
                  | None \<Rightarrow> False)
             | None \<Rightarrow> False) in
      named \<and> in_directory)"

definition generation_of :: "path \<Rightarrow> nat" where
  "generation_of p =
     (case Option.bind (file_name p) name_number of
        Some number \<Rightarrow> if is_generation_path p then sat_add_u64 number 1 else 1
      | None \<Rightarrow> 1)"

definition refuse_ambiguous_base :: "path \<Rightarrow> file_error + unit" where
  "refuse_ambiguous_base p =
     (case Option.bind (file_name p) name_number of
        None \<Rightarrow> Inr ()
      | Some number \<Rightarrow>
          if is_generation_path p then Inr () else Inl (CapacityExceeded LimitGeneration max_generation_name number))"

section \<open>Frames\<close>

definition journal_frame :: "file_codec \<Rightarrow> effect_event \<Rightarrow> bytes \<Rightarrow> file_error + (bytes \<times> bytes)" where
  "journal_frame c ev previous =
     frame_record (\<lambda>ev. case fc_event c ev of Inl cause \<Rightarrow> Inl (Encoding cause) | Inr archived \<Rightarrow> Inr archived)
       (\<lambda>_ previous archived. chain_over_bytes (fc_hash c) previous archived)
       (\<lambda>_. JournalStorage FrameOverBound) max_frame_bytes ev previous"

definition event_frame :: "file_codec \<Rightarrow> effect_event \<Rightarrow> journal_position \<Rightarrow> file_error + (journal_position \<times> bytes)" where
  "event_frame c ev from =
     (if jp_sequence from + 1 > u64_max then Inl JournalExhausted
      else
        case journal_frame c ev (jp_head from) of
          Inl e \<Rightarrow> Inl e
        | Inr (framed, head) \<Rightarrow> Inr (\<lparr>jp_sequence = jp_sequence from + 1, jp_head = head\<rparr>, framed))"

definition seal_frame :: "file_codec \<Rightarrow> bytes \<Rightarrow> bytes \<Rightarrow> file_error + (bytes \<times> bytes)" where
  "seal_frame c payload previous =
     frame_record (\<lambda>archived. Inr archived) (\<lambda>_ previous archived. chain_over_bytes (fc_hash c) previous archived)
       (\<lambda>_. JournalStorage FrameOverBound) max_frame_bytes payload previous"

section \<open>Scanning\<close>

datatype halt = HaltComplete | HaltTorn | HaltAmbiguous

record scan_frame =
  sf_payload :: bytes
  sf_head :: bytes
  sf_length :: nat

definition scan_next_frame :: "disk \<Rightarrow> nat \<Rightarrow> nat \<Rightarrow> nat \<Rightarrow> nat \<Rightarrow> file_error + (halt + scan_frame)" where
  "scan_next_frame d pos held max_events index =
     (let storage = \<lambda>e. Inl (JournalStorage (StorageIo e)) in
      case read_prefix d pos of
        Inl e \<Rightarrow> storage e
      | Inr Eof \<Rightarrow> Inr (Inl HaltComplete)
      | Inr Torn \<Rightarrow> Inr (Inl HaltTorn)
      | Inr (Full lead) \<Rightarrow>
          let requested = sat_add_u64 held 1; payload_len = declared_length lead in
          if requested > max_events then Inl (CapacityExceeded LimitEvents max_events requested)
          else if \<not> is_possible_length payload_len max_frame_bytes then Inl (Corrupt index Framed)
          else
            case read_piece d (pos + length_bytes) payload_len of
              Inl e \<Rightarrow> storage e
            | Inr Interrupted \<Rightarrow> Inr (Inl HaltAmbiguous)
            | Inr (Filled payload) \<Rightarrow>
                (case read_piece d (pos + length_bytes + payload_len) head_bytes of
                   Inl e \<Rightarrow> storage e
                 | Inr Interrupted \<Rightarrow> Inr (Inl HaltAmbiguous)
                 | Inr (Filled head) \<Rightarrow> Inr (Inr \<lparr>sf_payload = payload, sf_head = head, sf_length = payload_len\<rparr>)))"

definition verify_frame :: "file_codec \<Rightarrow> bytes \<Rightarrow> bytes \<Rightarrow> journal_position \<Rightarrow> nat \<Rightarrow> file_error + journal_position" where
  "verify_frame c payload head position index =
     (let sequence = sat_add_u64 (jp_sequence position) 1;
          recomputed = \<lparr>jp_sequence = sequence, jp_head = chain_over_bytes (fc_hash c) (jp_head position) payload\<rparr>;
          recorded = \<lparr>jp_sequence = sequence, jp_head = head\<rparr> in
      if recorded \<noteq> recomputed then Inl (Corrupt index (ChainBroken (Disagreement (jp_sequence recorded) recorded recomputed)))
      else Inr recorded)"

record scan_state =
  sn_entries :: "journal_entry list"
  sn_carried :: "checkpoint_record option"
  sn_seal :: "checkpoint_record option"
  sn_chain_from :: journal_position
  sn_position :: journal_position
  sn_offset :: nat
  sn_index :: nat

definition scan_start :: "file_codec \<Rightarrow> scan_state" where
  "scan_start c =
     \<lparr>sn_entries = [], sn_carried = None, sn_seal = None, sn_chain_from = genesis_position (fc_hash c),
      sn_position = genesis_position (fc_hash c), sn_offset = 0, sn_index = 0\<rparr>"

text \<open>What one whole frame does to the scan, the step over it included.\<close>

definition scan_one :: "file_codec \<Rightarrow> scan_frame \<Rightarrow> scan_state \<Rightarrow> file_error + scan_state" where
  "scan_one c f s =
     rbind
       (case from_payload c (sf_payload f) of
          Some decoded \<Rightarrow>
            if sn_seal s \<noteq> None then Inl (Corrupt (sn_index s) SecondSeal)
            else
              rbind decoded (\<lambda>checkpoint.
                rbind (verify_frame c (sf_payload f) (sf_head f) (cn_predecessor checkpoint) (sn_index s)) (\<lambda>position.
                  if sn_index s = 0 then Inr (s\<lparr>sn_position := position, sn_carried := Some checkpoint, sn_chain_from := position\<rparr>)
                  else Inr (s\<lparr>sn_position := position, sn_seal := Some checkpoint\<rparr>)))
        | None \<Rightarrow>
            if sn_seal s \<noteq> None then Inl (Corrupt (sn_index s) SecondSeal)
            else
              case fc_read_event c (sf_payload f) of
                None \<Rightarrow> Inl (Corrupt (sn_index s) Undecodable)
              | Some ev \<Rightarrow>
                  rbind (verify_frame c (sf_payload f) (sf_head f) (sn_position s) (sn_index s)) (\<lambda>position.
                    Inr (s\<lparr>sn_position := position, sn_entries := sn_entries s @ [\<lparr>je_position = position, je_event = ev\<rparr>]\<rparr>)))
       (\<lambda>s. Inr (s\<lparr>sn_offset := sn_offset s + framed_len (sf_length f), sn_index := sn_index s + 1\<rparr>))"

lemma scan_one_offset: "scan_one c f s = Inr s' \<Longrightarrow> sn_offset s' = sn_offset s + framed_len (sf_length f)"
  by (auto simp: scan_one_def rbind_eq_Inr split: option.splits if_splits)

lemma scan_next_frame_within:
  assumes "scan_next_frame d pos held max_events index = Inr (Inr f)"
  shows "pos + framed_len (sf_length f) \<le> length (dk_bytes d) \<and> 0 < framed_len (sf_length f)"
proof -
  obtain declared got where l: "sf_length f = declared" "is_possible_length declared max_frame_bytes"
      and read: "device_read d (pos + length_bytes + declared) head_bytes = Inr got" "length got = head_bytes"
    using assms by (auto simp: scan_next_frame_def read_piece_def rbind_eq_Inr Let_def split: sum.splits prefix.splits piece.splits if_splits)
  have "framed_len declared = 36 + declared"
    using l(2) by (intro framed_len_plain) (simp add: is_possible_length_def max_frame_bytes_def u32_max_def)
  with device_read_within [OF read] l(1) show ?thesis by (simp add: head_bytes_def length_bytes_def)
qed

function scan_loop :: "file_codec \<Rightarrow> nat \<Rightarrow> disk \<Rightarrow> scan_state \<Rightarrow> file_error + (scan_state \<times> halt)" where
  "scan_loop c max_events d s =
     (case scan_next_frame d (sn_offset s) (length (sn_entries s)) max_events (sn_index s) of
        Inl e \<Rightarrow> Inl e
      | Inr (Inl halt) \<Rightarrow> Inr (s, halt)
      | Inr (Inr f) \<Rightarrow> (case scan_one c f s of Inl e \<Rightarrow> Inl e | Inr s' \<Rightarrow> scan_loop c max_events d s'))"
  by pat_completeness auto
termination
proof (relation "measure (\<lambda>(c, max_events, d, s). length (dk_bytes d) - sn_offset s)", simp)
  fix c max_events d s x f s'
  assume "scan_next_frame d (sn_offset s) (length (sn_entries s)) max_events (sn_index s) = Inr x" "x = Inr f" "scan_one c f s = Inr s'"
  then show "((c, max_events, d, s'), c, max_events, d, s) \<in> measure (\<lambda>(c, max_events, d, s). length (dk_bytes d) - sn_offset s)"
    using scan_next_frame_within [of d "sn_offset s" "length (sn_entries s)" max_events "sn_index s" f] scan_one_offset [of c f s s']
    by (auto intro!: diff_less_mono2)
qed

declare scan_loop.simps [simp del]

definition scan :: "file_codec \<Rightarrow> nat \<Rightarrow> disk \<Rightarrow> file_error + (scan_state \<times> halt)" where
  "scan c max_events d = scan_loop c max_events d (scan_start c)"

definition is_framed_record :: "file_codec \<Rightarrow> bytes \<Rightarrow> bool" where
  "is_framed_record c payload =
     (case from_payload c payload of
        Some decoded \<Rightarrow> is_ok decoded
      | None \<Rightarrow> fc_read_event c payload \<noteq> None)"

definition journal_head :: "file_codec \<Rightarrow> bytes \<Rightarrow> bytes \<Rightarrow> bytes option" where
  "journal_head c previous payload = (if is_framed_record c payload then Some (chain_over_bytes (fc_hash c) previous payload) else None)"

definition resolve_ambiguous_tail :: "file_codec \<Rightarrow> disk \<Rightarrow> nat \<Rightarrow> journal_position \<Rightarrow> nat \<Rightarrow> file_error + nat" where
  "resolve_ambiguous_tail c d offset position index =
     rbind (cut_holds_acknowledged (journal_head c) (\<lambda>e. JournalStorage (StorageIo e)) max_frame_bytes d offset (jp_head position)) (\<lambda>acknowledged.
       if acknowledged then Inl (Corrupt index Framed) else Inr offset)"

section \<open>Opening\<close>

datatype open_kind = PlainKind | StalledKind | ContinuingKind continuation_policy

definition kind_continues :: "open_kind \<Rightarrow> bool" where
  "kind_continues kind = (case kind of ContinuingKind _ \<Rightarrow> True | _ \<Rightarrow> False)"

definition kind_policy :: "open_kind \<Rightarrow> continuation_policy" where
  "kind_policy kind = (case kind of ContinuingKind policy \<Rightarrow> policy | _ \<Rightarrow> policy_declared)"

record file_journal =
  fj_path :: path
  fj_committed :: "journal_entry list"
  fj_ladder :: "effect_key \<rightharpoonup> event_kind"
  fj_outcomes :: "effect_key \<rightharpoonup> journal_position \<times> effect_evidence"
  fj_disk_len :: nat
  fj_position :: journal_position
  fj_repaired :: bool
  fj_continuing :: bool
  fj_policy :: continuation_policy
  fj_carried :: "checkpoint_record option"
  fj_seal :: "checkpoint_record option"
  fj_chain_from :: journal_position
  fj_base :: journal_position
  fj_folded :: "settled_attempt list"
  fj_sealed_by :: "path option"
  fj_pause :: "seal_pause option"
  fj_poisoned :: bool

definition ladder_hold :: "effect_key \<Rightarrow> event_kind \<Rightarrow> (effect_key \<rightharpoonup> event_kind) \<Rightarrow> effect_key \<rightharpoonup> event_kind" where
  "ladder_hold key rung ladder = ladder(key \<mapsto> rung)"

fun hold_unresolved :: "unresolved_attempt list \<Rightarrow> (effect_key \<rightharpoonup> event_kind) \<Rightarrow> effect_key \<rightharpoonup> event_kind" where
  "hold_unresolved [] ladder = ladder"
| "hold_unresolved (held # rest) ladder =
     hold_unresolved rest (case rung_of (ur_rung held) of Some rung \<Rightarrow> ladder_hold (ur_key held) rung ladder | None \<Rightarrow> ladder)"

fun hold_settled :: "settled_attempt list \<Rightarrow> (effect_key \<rightharpoonup> event_kind) \<Rightarrow> effect_key \<rightharpoonup> event_kind" where
  "hold_settled [] ladder = ladder"
| "hold_settled (held # rest) ladder =
     hold_settled rest (case rung_of (se_rung held) of Some rung \<Rightarrow> ladder_hold (se_key held) rung ladder | None \<Rightarrow> ladder)"

text \<open>A piece that is cut short leaves what it read in front of the zeros of the buffer; only an error ends the look.\<close>

definition read_padded :: "disk \<Rightarrow> nat \<Rightarrow> nat \<Rightarrow> io_error + bytes" where
  "read_padded d pos n = rbind (device_read d pos n) (\<lambda>got. Inr (got @ replicate (n - length got) 0))"

definition successor_is_complete :: "file_codec \<Rightarrow> file_system \<Rightarrow> path \<Rightarrow> checkpoint_record \<Rightarrow> bool" where
  "successor_is_complete c fs successor seal =
     (case fs successor of
        None \<Rightarrow> False
      | Some d \<Rightarrow>
          (case read_prefix d 0 of
             Inr (Full lead) \<Rightarrow>
               let declared = declared_length lead in
               if \<not> is_possible_length declared max_frame_bytes then False
               else
                 (case (read_padded d length_bytes declared, read_padded d (min (length_bytes + declared) (length (dk_bytes d))) head_bytes) of
                    (Inr payload, Inr head) \<Rightarrow>
                      (case from_payload c payload of
                         Some (Inr carried) \<Rightarrow>
                           cn_predecessor carried = cn_predecessor seal \<and>
                           chain_over_bytes (fc_hash c) (jp_head (cn_predecessor seal)) payload = head
                       | _ \<Rightarrow> False)
                  | _ \<Rightarrow> False)
           | _ \<Rightarrow> False))"

text \<open>What the system answers to each call of an opening.\<close>

datatype lock_fate = LockFree | LockHeld | LockRefused

record open_device =
  od_opens :: bool
  od_lock :: lock_fate
  od_trims :: bool
  od_syncs :: bool
  od_spawns :: bool

definition set_file :: "path \<Rightarrow> bytes \<Rightarrow> file_system \<Rightarrow> file_system" where
  "set_file p bytes fs = fs(p \<mapsto> \<lparr>dk_bytes = bytes, dk_fault = (case fs p of Some d \<Rightarrow> dk_fault d | None \<Rightarrow> None)\<rparr>)"

text \<open>Trimming a torn tail: \<open>set_len\<close>, then \<open>sync_all\<close>.\<close>

definition trim_tail :: "open_device \<Rightarrow> path \<Rightarrow> nat \<Rightarrow> file_system \<Rightarrow> (file_error + nat) \<times> file_system" where
  "trim_tail dev p offset fs =
     (if \<not> od_trims dev then (Inl (JournalStorage NotOpened), fs)
      else
        let fs = set_file p (take offset (case fs p of Some d \<Rightarrow> dk_bytes d | None \<Rightarrow> [])) fs in
        if \<not> od_syncs dev then (Inl (JournalStorage NotOpened), fs) else (Inr offset, fs))"

definition acknowledged_length :: "file_codec \<Rightarrow> open_device \<Rightarrow> path \<Rightarrow> disk \<Rightarrow> scan_state \<Rightarrow> halt \<Rightarrow> file_system \<Rightarrow> (file_error + (nat \<times> bool)) \<times> file_system" where
  "acknowledged_length c dev p d s stop fs =
     (let trimmed = (\<lambda>offset. case trim_tail dev p offset fs of (Inl e, fs) \<Rightarrow> (Inl e, fs) | (Inr len, fs) \<Rightarrow> (Inr (len, True), fs)) in
      case stop of
        HaltComplete \<Rightarrow> (Inr (sn_offset s, False), fs)
      | HaltTorn \<Rightarrow> trimmed (sn_offset s)
      | HaltAmbiguous \<Rightarrow>
          (case resolve_ambiguous_tail c d (sn_offset s) (sn_position s) (length (sn_entries s)) of
             Inl e \<Rightarrow> (Inl e, fs)
           | Inr offset \<Rightarrow> trimmed offset))"

definition opened_journal :: "path \<Rightarrow> open_kind \<Rightarrow> scan_state \<Rightarrow> nat \<Rightarrow> bool \<Rightarrow> file_codec \<Rightarrow> file_journal" where
  "opened_journal p kind s acked_len repaired c =
     (let ladder = ladder_of (map je_event (sn_entries s)); outcomes = outcomes_of (sn_entries s) in
      \<lparr>fj_path = p, fj_committed = sn_entries s,
       fj_ladder = (case sn_carried s of
          Some checkpoint \<Rightarrow> hold_settled (cn_settled checkpoint) (hold_unresolved (cn_unresolved checkpoint) ladder)
        | None \<Rightarrow> ladder),
       fj_outcomes = outcomes, fj_disk_len = acked_len, fj_position = sn_position s, fj_repaired = repaired,
       fj_continuing = kind_continues kind, fj_policy = kind_policy kind, fj_carried = sn_carried s, fj_seal = sn_seal s,
       fj_chain_from = sn_chain_from s,
       fj_base = (case sn_carried s of Some checkpoint \<Rightarrow> cn_predecessor checkpoint | None \<Rightarrow> genesis_position (fc_hash c)),
       fj_folded = (case sn_carried s of Some checkpoint \<Rightarrow> cn_settled checkpoint | None \<Rightarrow> []),
       fj_sealed_by = None, fj_pause = None, fj_poisoned = False\<rparr>)"

definition open_journal :: "file_codec \<Rightarrow> open_device \<Rightarrow> path \<Rightarrow> open_kind \<Rightarrow> file_system \<Rightarrow> (file_error + file_journal) \<times> file_system" where
  "open_journal c dev p kind fs =
     (case refuse_ambiguous_base p of
        Inl e \<Rightarrow> (Inl e, fs)
      | Inr _ \<Rightarrow>
          if \<not> od_opens dev then (Inl (JournalStorage NotOpened), fs)
          else
            let fs = (if fs p = None then set_file p [] fs else fs); d = the (fs p); file_len = length (dk_bytes d) in
            if od_lock dev = LockHeld then (Inl (JournalLocked p), fs)
            else if od_lock dev = LockRefused then (Inl (JournalStorage NotOpened), fs)
            else if file_len > max_journal_bytes then (Inl (CapacityExceeded LimitBytes max_journal_bytes file_len), fs)
            else
              case scan c max_journal_events d of
                Inl e \<Rightarrow> (Inl e, fs)
              | Inr (s, stop) \<Rightarrow>
                  if (case sn_seal s of Some checkpoint \<Rightarrow> successor_is_complete c fs (successor_path p) checkpoint | None \<Rightarrow> False)
                  then (Inl (Superseded (successor_path p)), fs)
                  else
                    case acknowledged_length c dev p d s stop fs of
                      (Inl e, fs) \<Rightarrow> (Inl e, fs)
                    | (Inr (acked_len, repaired), fs) \<Rightarrow>
                        if \<not> od_spawns dev then (Inl (JournalStorage NotOpened), fs)
                        else (Inr (opened_journal p kind s acked_len repaired c), fs))"

text \<open>\<open>open_active\<close> walks the generations from a path on, each opening with its own answers of the system.\<close>

fun walk_generations :: "file_codec \<Rightarrow> open_device list \<Rightarrow> path \<Rightarrow> file_system \<Rightarrow> (file_error + file_journal) \<times> file_system" where
  "walk_generations c [] here fs = (Inl (Superseded (successor_path here)), fs)"
| "walk_generations c (dev # devs) here fs =
     (case open_journal c dev here (ContinuingKind policy_declared) fs of
        (Inr j, fs) \<Rightarrow> (Inr j, fs)
      | (Inl (Superseded next_path), fs) \<Rightarrow> walk_generations c devs next_path fs
      | (Inl e, fs) \<Rightarrow> (Inl e, fs))"

definition open_active :: "file_codec \<Rightarrow> (nat \<Rightarrow> open_device) \<Rightarrow> path \<Rightarrow> file_system \<Rightarrow> (file_error + file_journal) \<times> file_system" where
  "open_active c dev p fs = walk_generations c (map dev [0..<max_generation_walk]) p fs"

section \<open>Appending\<close>

definition file_bytes :: "file_system \<Rightarrow> path \<Rightarrow> bytes" where
  "file_bytes fs p = (case fs p of Some d \<Rightarrow> dk_bytes d | None \<Rightarrow> [])"

text \<open>What becomes of a write and its flush: how much of it reached the file when it fails, or that its answer is lost.\<close>

datatype write_fate = WriteDone | WriteStopped nat | FlushRefused | AnswerLost nat

definition refuse_sealed :: "file_journal \<Rightarrow> file_error + unit" where
  "refuse_sealed j = (case fj_sealed_by j of None \<Rightarrow> Inr () | Some next_path \<Rightarrow> Inl (Superseded next_path))"

definition fence :: "file_system \<Rightarrow> file_journal \<Rightarrow> file_error + unit" where
  "fence fs j =
     rbind (refuse_sealed j) (\<lambda>_.
       if fj_poisoned j then Inl (JournalStorage WritePoisoned)
       else if length (file_bytes fs (fj_path j)) \<noteq> fj_disk_len j then Inl (JournalStorage FileMoved)
       else Inr ())"

definition refuse_walked :: "effect_event \<Rightarrow> file_journal \<Rightarrow> file_error + unit" where
  "refuse_walked ev j =
     (let key = event_key ev in
      if fj_ladder j key \<noteq> None then Inr ()
      else
        case find (\<lambda>entry. already_walked entry key) (fj_folded j) of
          Some entry \<Rightarrow> Inl (AttemptAlreadyWalked key (ek_attempt (se_key entry)))
        | None \<Rightarrow> Inr ())"

definition bound_bytes :: "nat \<Rightarrow> file_journal \<Rightarrow> file_error + unit" where
  "bound_bytes staged j =
     (let requested = sat_add_u64 (fj_disk_len j) staged in
      if requested > max_journal_bytes then Inl (CapacityExceeded LimitBytes max_journal_bytes requested) else Inr ())"

definition prepare_append :: "file_codec \<Rightarrow> file_system \<Rightarrow> journal_position \<Rightarrow> effect_event \<Rightarrow> file_journal \<Rightarrow> file_error + (journal_position \<times> bytes)" where
  "prepare_append c fs expected_tail ev j =
     rbind (refuse_sealed j) (\<lambda>_.
     rbind (check_append_order expected_tail (fj_position j) ev (fj_ladder j (event_key ev))) (\<lambda>_.
     rbind (refuse_walked ev j) (\<lambda>_.
     rbind (fence fs j) (\<lambda>_.
     rbind (bound_events (length (fj_committed j)) 1) (\<lambda>_.
     rbind (event_frame c ev (fj_position j)) (\<lambda>(position, framed).
     rbind (bound_bytes (length framed) j) (\<lambda>_. Inr (position, framed))))))))"

text \<open>One write through the storage owner, its length fence first; any failure latches the owner.\<close>

definition write_and_sync :: "write_fate \<Rightarrow> bytes \<Rightarrow> file_journal \<Rightarrow> file_system \<Rightarrow> (file_error + unit) \<times> file_journal \<times> file_system" where
  "write_and_sync fate frames j fs =
     (let p = fj_path j; old = file_bytes fs p; poisoned = j\<lparr>fj_poisoned := True\<rparr> in
      if fj_poisoned j then (Inl (JournalStorage WritePoisoned), j, fs)
      else if length old \<noteq> fj_disk_len j then (Inl (OutcomeUnknownIo FileMoved), poisoned, fs)
      else
        case fate of
          WriteDone \<Rightarrow> (Inr (), j, set_file p (old @ frames) fs)
        | WriteStopped n \<Rightarrow> (Inl (OutcomeUnknownIo (StorageIo DeviceRefused)), poisoned, set_file p (old @ take (min n (length frames - 1)) frames) fs)
        | FlushRefused \<Rightarrow> (Inl (OutcomeUnknownIo (StorageIo DeviceRefused)), poisoned, set_file p (old @ frames) fs)
        | AnswerLost n \<Rightarrow> (Inl (OutcomeUnknownIo AnswerMissing), poisoned, set_file p (old @ take n frames) fs))"

definition accept_event :: "effect_event \<Rightarrow> journal_position \<Rightarrow> nat \<Rightarrow> file_journal \<Rightarrow> file_journal" where
  "accept_event ev position frame_len j =
     j\<lparr>fj_committed := fj_committed j @ [\<lparr>je_position = position, je_event = ev\<rparr>], fj_position := position,
       fj_ladder := (fj_ladder j)(event_key ev \<mapsto> kind_of ev),
       fj_outcomes := (case ev of OutcomeObserved key evidence \<Rightarrow> (fj_outcomes j)(key \<mapsto> (position, evidence)) | _ \<Rightarrow> fj_outcomes j),
       fj_disk_len := sat_add_u64 (fj_disk_len j) frame_len\<rparr>"

definition file_append :: "file_codec \<Rightarrow> write_fate \<Rightarrow> journal_position \<Rightarrow> effect_event \<Rightarrow> file_journal \<Rightarrow> file_system \<Rightarrow> (file_error + durable_ack) \<times> file_journal \<times> file_system" where
  "file_append c fate expected_tail ev j fs =
     (case prepare_append c fs expected_tail ev j of
        Inl e \<Rightarrow> (Inl e, j, fs)
      | Inr (position, framed) \<Rightarrow>
          (case write_and_sync fate framed j fs of
             (Inl e, j, fs) \<Rightarrow> (Inl e, j, fs)
           | (Inr _, j, fs) \<Rightarrow> (Inr \<lparr>da_position = position, da_promise = ProcessCrash\<rparr>, accept_event ev position (length framed) j, fs)))"

text \<open>The batch: every event is checked and framed over what the batch itself stages, and one write carries them all.\<close>

fun stage_batch :: "file_codec \<Rightarrow> file_journal \<Rightarrow> effect_event list \<Rightarrow> journal_position \<Rightarrow> (effect_key \<rightharpoonup> event_kind) \<Rightarrow> bytes \<Rightarrow> (effect_event \<times> journal_position \<times> nat) list \<Rightarrow>
    file_error + (bytes \<times> (effect_event \<times> journal_position \<times> nat) list)" where
  "stage_batch c j [] position staged frames pending = Inr (frames, pending)"
| "stage_batch c j (ev # evs) position staged frames pending =
     (let key = event_key ev; attempted = kind_of ev;
          expected = next_allowed_of (case staged key of Some kind \<Rightarrow> Some kind | None \<Rightarrow> fj_ladder j key) in
      if expected \<noteq> Some attempted then Inl (OutOfOrder key expected attempted)
      else
        rbind (event_frame c ev position) (\<lambda>(position, framed).
        rbind (bound_bytes (sat_add_usize (length frames) (length framed)) j) (\<lambda>_.
          stage_batch c j evs position (staged(key \<mapsto> attempted)) (frames @ framed) (pending @ [(ev, position, length framed)]))))"

definition append_all :: "file_codec \<Rightarrow> write_fate \<Rightarrow> effect_event list \<Rightarrow> file_journal \<Rightarrow> file_system \<Rightarrow> (file_error + durable_ack list) \<times> file_journal \<times> file_system" where
  "append_all c fate evs j fs =
     (case fence fs j of
        Inl e \<Rightarrow> (Inl e, j, fs)
      | Inr _ \<Rightarrow>
          if evs = [] then (Inr [], j, fs)
          else
            case rbind (bound_events (length (fj_committed j)) (length evs)) (\<lambda>_. stage_batch c j evs (fj_position j) Map.empty [] []) of
              Inl e \<Rightarrow> (Inl e, j, fs)
            | Inr (frames, pending) \<Rightarrow>
                (case write_and_sync fate frames j fs of
                   (Inl e, j, fs) \<Rightarrow> (Inl e, j, fs)
                 | (Inr _, j, fs) \<Rightarrow>
                     (Inr (map (\<lambda>(ev, position, len). \<lparr>da_position = position, da_promise = ProcessCrash\<rparr>) pending),
                      fold (\<lambda>(ev, position, len). accept_event ev position len) pending j, fs)))"

text \<open>The receipt of an outcome: the adapter attests what it committed at the position.\<close>

definition confirm_outcome :: "effect_key \<Rightarrow> effect_evidence \<Rightarrow> journal_position \<Rightarrow> durability \<Rightarrow> file_journal \<Rightarrow> file_error + durable_ack" where
  "confirm_outcome key evidence position required j =
     (if \<not> durability_meets ProcessCrash required then Inl (ReceiptUnavailable required)
      else
        case map_option je_event (find (\<lambda>entry. je_position entry = position) (fj_committed j)) of
          Some (OutcomeObserved observed_key observed_evidence) \<Rightarrow>
            if observed_key = key \<and> observed_evidence = evidence then Inr \<lparr>da_position = position, da_promise = ProcessCrash\<rparr>
            else Inl (ReceiptMismatch position (fj_position j))
        | _ \<Rightarrow> Inl (ReceiptMismatch position (fj_position j)))"

definition file_recover :: "file_journal \<Rightarrow> recovered" where
  "file_recover j = recover_continued (fj_carried j) (map je_event (fj_committed j))"

definition file_watermark :: "file_journal \<Rightarrow> watermark" where
  "file_watermark j =
     (if fj_continuing j then watermark_measured (length (fj_committed j)) max_journal_events (fj_disk_len j) max_journal_bytes (fj_policy j)
      else watermark_inert (length (fj_committed j)) max_journal_events (fj_disk_len j) max_journal_bytes)"

section \<open>Sealing\<close>

datatype seal_outcome = SealAppended | SealedBytes nat | SealPausedAt seal_pause

text \<open>Where a seal that nothing pauses fails, if it does.\<close>

datatype seal_fate =
    SealDone
  | SealStopped nat
  | SuccessorRefused
  | SuccessorStopped nat
  | SuccessorUnsynced
  | DirectoryUnsynced
  | SealUnflushed
  | SealAnswerLost

definition paused_at :: "seal_pause option \<Rightarrow> seal_pause \<Rightarrow> seal_outcome option" where
  "paused_at pause boundary = (if pause = Some boundary then Some (SealPausedAt boundary) else None)"

definition seal_on_owner :: "seal_fate \<Rightarrow> path \<Rightarrow> nat \<Rightarrow> bytes \<Rightarrow> path \<Rightarrow> seal_pause option \<Rightarrow> file_system \<Rightarrow> (file_cause + seal_outcome) \<times> file_system" where
  "seal_on_owner fate p expected_len framed successor pause fs =
     (let old = file_bytes fs p; refused = Inl (StorageIo DeviceRefused) in
      if length old \<noteq> expected_len then (Inl FileMoved, fs)
      else
        case fate of
          SealStopped n \<Rightarrow> (refused, set_file p (old @ take (min n (length framed - 1)) framed) fs)
        | _ \<Rightarrow>
            let fs = set_file p (old @ framed) fs in
            case paused_at pause AfterSealWrite of
              Some paused \<Rightarrow> (Inr paused, fs)
            | None \<Rightarrow>
                if fate = SuccessorRefused then (refused, fs)
                else
                  case fate of
                    SuccessorStopped n \<Rightarrow> (refused, set_file successor (take (min n (length framed - 1)) framed) fs)
                  | _ \<Rightarrow>
                      let fs = set_file successor framed fs in
                      case paused_at pause AfterSuccessorWrite of
                        Some paused \<Rightarrow> (Inr paused, fs)
                      | None \<Rightarrow>
                          if fate = SuccessorUnsynced then (refused, fs)
                          else
                            case paused_at pause AfterSuccessorSync of
                              Some paused \<Rightarrow> (Inr paused, fs)
                            | None \<Rightarrow>
                                if fate = DirectoryUnsynced then (refused, fs)
                                else
                                  case paused_at pause AfterDirectorySync of
                                    Some paused \<Rightarrow> (Inr paused, fs)
                                  | None \<Rightarrow>
                                      if fate = SealUnflushed then (refused, fs)
                                      else if fate = SealAnswerLost then (Inl AnswerMissing, fs)
                                      else (Inr (SealedBytes (length framed)), fs))"

definition frame_payload :: "file_codec \<Rightarrow> file_system \<Rightarrow> bytes \<Rightarrow> journal_position \<Rightarrow> file_journal \<Rightarrow> file_error + (bytes \<times> bytes)" where
  "frame_payload c fs payload from j =
     rbind (fence fs j) (\<lambda>_.
       if jp_sequence from + 1 > u64_max then Inl JournalExhausted else seal_frame c payload (jp_head from))"

text \<open>The checkpoint of a seal, framed.\<close>

definition framed_checkpoint :: "file_codec \<Rightarrow> file_system \<Rightarrow> file_journal \<Rightarrow> file_error + (bytes \<times> bytes)" where
  "framed_checkpoint c fs j =
     (let (settled, unresolved) = carried_of (file_recover j) in
      rbind (continuation_new (sat_add_u64 (generation_of (fj_path j)) 1) (fj_position j) settled unresolved) (\<lambda>checkpoint.
      rbind (to_payload c checkpoint) (\<lambda>payload. frame_payload c fs payload (fj_position j) j)))"

definition continue_as_file :: "file_codec \<Rightarrow> seal_fate \<Rightarrow> open_device \<Rightarrow> file_journal \<Rightarrow> file_system \<Rightarrow> (file_error + file_journal option) \<times> file_journal \<times> file_system" where
  "continue_as_file c fate dev j fs =
     (if \<not> fj_continuing j then (Inr None, j, fs)
      else
        case fj_sealed_by j of
          Some next_path \<Rightarrow> (Inl (Superseded next_path), j, fs)
        | None \<Rightarrow>
            let successor = successor_path (fj_path j) in
            case framed_checkpoint c fs j of
              Inl e \<Rightarrow> (Inl e, j, fs)
            | Inr (framed, head) \<Rightarrow>
                let pause = fj_pause j; j = j\<lparr>fj_pause := None\<rparr> in
                case seal_on_owner fate (fj_path j) (fj_disk_len j) framed successor pause fs of
                  (Inl cause, fs) \<Rightarrow> (Inl (OutcomeUnknownIo cause), j\<lparr>fj_poisoned := True\<rparr>, fs)
                | (Inr (SealedBytes bytes), fs) \<Rightarrow>
                    let j = j\<lparr>fj_disk_len := sat_add_u64 (fj_disk_len j) bytes, fj_sealed_by := Some successor\<rparr> in
                    (case open_journal c dev successor (ContinuingKind (fj_policy j)) fs of
                       (Inl e, fs) \<Rightarrow> (Inl e, j, fs)
                     | (Inr next_journal, fs) \<Rightarrow> (Inr (Some next_journal), j, fs))
                | (Inr (SealPausedAt boundary), fs) \<Rightarrow> (Inl (ContinuationPaused boundary), j\<lparr>fj_sealed_by := Some successor\<rparr>, fs)
                | (Inr SealAppended, fs) \<Rightarrow> (Inl (JournalStorage AnswerMissing), j, fs))"

section \<open>What a file of whole frames reads back to\<close>

text \<open>What the code relies on: heads have 32 bytes, the wire format reads back what it wrote, and no event reads as a checkpoint.\<close>

definition codec_ok :: "file_codec \<Rightarrow> bool" where
  "codec_ok c \<longleftrightarrow> (\<forall>x. length (fc_hash c x) = 32) \<and>
     (\<forall>ev b. fc_event c ev = Inr b \<longrightarrow> fc_read_event c b = Some ev \<and> \<not> is_payload b) \<and>
     (\<forall>cp b. fc_checkpoint c cp = Inr b \<longrightarrow> fc_read_checkpoint c b = Inr cp)"

lemma codec_okD:
  assumes "codec_ok c"
  shows "length (fc_hash c x) = 32" and "fc_event c ev = Inr b \<Longrightarrow> fc_read_event c b = Some ev" and "fc_event c ev = Inr b \<Longrightarrow> \<not> is_payload b"
    and "fc_checkpoint c cp = Inr b \<Longrightarrow> fc_read_checkpoint c b = Inr cp"
  using assms unfolding codec_ok_def by blast+

lemma from_payload_event: "codec_ok c \<Longrightarrow> fc_event c ev = Inr b \<Longrightarrow> from_payload c b = None"
  by (simp add: from_payload_def codec_okD)

lemma from_to_payload: "codec_ok c \<Longrightarrow> to_payload c cp = Inr payload \<Longrightarrow> from_payload c payload = Some (Inr cp)"
  by (auto simp: to_payload_def from_payload_def is_payload_def codec_okD split: sum.splits)

lemma writable_length_iff: "writable_length n max_frame_bytes = (if is_possible_length n max_frame_bytes then Some n else None)"
  by (simp add: writable_length_def is_possible_length_def max_frame_bytes_def u32_max_def)

lemma journal_frame_ok:
  "journal_frame c ev previous = Inr (framed, head) \<longleftrightarrow>
     (\<exists>b. fc_event c ev = Inr b \<and> is_possible_length (length b) max_frame_bytes \<and> head = chain_over_bytes (fc_hash c) previous b \<and>
       framed = encode_frame (length b) b head)"
  by (auto simp: journal_frame_def frame_record_def writable_length_iff Let_def split: sum.splits)

lemma seal_frame_ok:
  "seal_frame c payload previous = Inr (framed, head) \<longleftrightarrow>
     is_possible_length (length payload) max_frame_bytes \<and> head = chain_over_bytes (fc_hash c) previous payload \<and>
       framed = encode_frame (length payload) payload head"
  by (auto simp: seal_frame_def frame_record_def writable_length_iff Let_def)

lemma head_length: "codec_ok c \<Longrightarrow> length (chain_over_bytes (fc_hash c) previous payload) = head_bytes"
  by (simp add: chain_over_bytes_def codec_okD head_bytes_def)

lemma sat_succ: "n < u64_max \<Longrightarrow> sat_add_u64 n (Suc 0) = Suc n"
  by (simp add: sat_add_u64_def)

lemma scan_whole_frame:
  assumes "dk_fault d = None" and "dk_bytes d = pre @ encode_frame (length b) b head @ rest"
    and "is_possible_length (length b) max_frame_bytes" and "length head = head_bytes" and "held < max_events" and "max_events \<le> u64_max"
  shows "scan_next_frame d (length pre) held max_events index = Inr (Inr \<lparr>sf_payload = b, sf_head = head, sf_length = length b\<rparr>)"
proof -
  let ?p = "be_bytes length_bytes (length b)"
  have small: "length b \<le> u32_max" using assms(3) by (simp add: is_possible_length_def max_frame_bytes_def u32_max_def)
  have bytes: "dk_bytes d = pre @ ?p @ b @ head @ rest" using assms(2) by (simp add: encode_frame_def)
  have pieces: "read_piece d (length pre + length_bytes) (length b) = Inr (Filled b)"
    "read_piece d (length pre + length_bytes + length b) head_bytes = Inr (Filled head)"
    using bytes assms(4) by (auto intro: read_piece_written [OF assms(1), of "pre @ ?p"] read_piece_written [OF assms(1), of "pre @ ?p @ b"])
  have few: "\<not> sat_add_u64 held 1 > max_events" using assms(5,6) by (simp add: sat_add_u64_def)
  show ?thesis
    unfolding scan_next_frame_def Let_def read_prefix_written [OF assms(1) bytes]
    using pieces assms(3) small few by simp
qed

text \<open>A frame that is cut short stops the scan: torn within the length, ambiguous behind it.\<close>

lemma scan_cut_frame:
  assumes "dk_fault d = None" and "dk_bytes d = pre @ take k (encode_frame (length b) b head)"
    and "is_possible_length (length b) max_frame_bytes" and "length head = head_bytes" and "held < max_events" and "max_events \<le> u64_max"
    and "k < length (encode_frame (length b) b head)"
  shows "scan_next_frame d (length pre) held max_events index =
    Inr (Inl (if k = 0 then HaltComplete else if k < length_bytes then HaltTorn else HaltAmbiguous))"
proof (cases "k < length_bytes")
  case True
  then show ?thesis using assms(1,2,7) by (auto simp: scan_next_frame_def read_prefix_def Let_def)
next
  case False
  let ?p = "be_bytes length_bytes (length b)"
  have small: "length b \<le> u32_max" using assms(3) by (simp add: is_possible_length_def max_frame_bytes_def u32_max_def)
  have bytes: "dk_bytes d = pre @ ?p @ take (k - length_bytes) (b @ head)" using assms(2) False by (simp add: encode_frame_def)
  have len: "length (dk_bytes d) = length pre + k" using assms(2,7) by simp
  have second: "read_piece d (length pre + length_bytes + length b) head_bytes = Inr Interrupted"
    using len assms(4,7) by (intro read_piece_short [OF assms(1)]) (simp_all add: encode_frame_def head_bytes_def)
  have first: "read_piece d (length pre + length_bytes) (length b) = Inr Interrupted \<or>
      (\<exists>got. read_piece d (length pre + length_bytes) (length b) = Inr (Filled got))"
    using assms(1) by (simp add: read_piece_def)
  have few: "\<not> sat_add_u64 held 1 > max_events" using assms(5,6) by (simp add: sat_add_u64_def)
  have nonzero: "k \<noteq> 0" using False by (simp add: length_bytes_def)
  show ?thesis
    unfolding scan_next_frame_def Let_def read_prefix_written [OF assms(1) bytes]
    using first second assms(3) small few False nonzero by auto
qed

lemma scan_end:
  assumes "dk_fault d = None" and "length (dk_bytes d) = pos"
  shows "scan_next_frame d pos held max_events index = Inr (Inl HaltComplete)"
  using assms by (simp add: scan_next_frame_def read_prefix_def)

text \<open>The entries of a list of events from a position on.\<close>

fun file_entries :: "file_codec \<Rightarrow> journal_position \<Rightarrow> effect_event list \<Rightarrow> journal_entry list" where
  "file_entries c position [] = []"
| "file_entries c position (ev # evs) =
     (case journal_frame c ev (jp_head position) of
        Inl _ \<Rightarrow> []
      | Inr (framed, head) \<Rightarrow>
          let position = \<lparr>jp_sequence = jp_sequence position + 1, jp_head = head\<rparr> in
          \<lparr>je_position = position, je_event = ev\<rparr> # file_entries c position evs)"

text \<open>The scan steps over the events of a chain.\<close>

definition scanned_events :: "file_codec \<Rightarrow> effect_event list \<Rightarrow> bytes \<Rightarrow> bytes \<Rightarrow> scan_state \<Rightarrow> scan_state" where
  "scanned_events c evs body tail s =
     s\<lparr>sn_entries := sn_entries s @ file_entries c (sn_position s) evs,
       sn_position := \<lparr>jp_sequence = jp_sequence (sn_position s) + length evs, jp_head = tail\<rparr>,
       sn_offset := sn_offset s + length body, sn_index := sn_index s + length evs\<rparr>"

lemma framed_len_frame: "is_possible_length n max_frame_bytes \<Longrightarrow> framed_len n = 36 + n"
  by (intro framed_len_plain) (simp add: is_possible_length_def max_frame_bytes_def u32_max_def)

lemma scan_event:
  assumes "codec_ok c" and "journal_frame c ev (jp_head (sn_position s)) = Inr (framed, head)" and "dk_fault d = None"
    and "dk_bytes d = pre @ framed @ rest" and "sn_offset s = length pre" and "sn_seal s = None"
    and "length (sn_entries s) < max_events" and "max_events \<le> u64_max" and "jp_sequence (sn_position s) < u64_max"
  shows "scan_loop c max_events d s = scan_loop c max_events d (scanned_events c [ev] framed head s)"
proof -
  obtain b where b: "fc_event c ev = Inr b" "is_possible_length (length b) max_frame_bytes"
      "head = chain_over_bytes (fc_hash c) (jp_head (sn_position s)) b" "framed = encode_frame (length b) b head"
    using assms(2) unfolding journal_frame_ok by blast
  have hlen: "length head = head_bytes" using b(3) by (simp add: head_length [OF assms(1)])
  have next_one: "scan_next_frame d (length pre) (length (sn_entries s)) max_events (sn_index s) =
      Inr (Inr \<lparr>sf_payload = b, sf_head = head, sf_length = length b\<rparr>)"
    by (rule scan_whole_frame [OF assms(3) _ b(2) hlen assms(7,8)]) (use assms(4) b(4) in simp)
  have verified: "verify_frame c b head (sn_position s) (sn_index s) = Inr \<lparr>jp_sequence = jp_sequence (sn_position s) + 1, jp_head = head\<rparr>"
    using b(3) assms(9) by (simp add: verify_frame_def Let_def sat_succ)
  have framed_length: "length framed = framed_len (length b)" using b(4) hlen b(2) by (simp add: framed_len_frame)
  have one: "scan_one c \<lparr>sf_payload = b, sf_head = head, sf_length = length b\<rparr> s = Inr (scanned_events c [ev] framed head s)"
    using assms(2,6) framed_length codec_okD(2) [OF assms(1) b(1)]
    by (simp add: scan_one_def from_payload_event [OF assms(1) b(1)] verified scanned_events_def Let_def)
  show ?thesis by (subst scan_loop.simps) (simp add: assms(5) next_one one)
qed

lemma scanned_events_Cons:
  assumes "journal_frame c ev (jp_head (sn_position s)) = Inr (framed, head)"
  shows "scanned_events c evs rest tail (scanned_events c [ev] framed head s) = scanned_events c (ev # evs) (framed @ rest) tail s"
  using assms by (simp add: scanned_events_def Let_def)

lemma scanned_events_Nil: "jp_head (sn_position s) = tail \<Longrightarrow> scanned_events c [] [] tail s = s"
  by (cases s; cases "sn_position s") (simp add: scanned_events_def)

lemma scan_events:
  assumes "codec_ok c" and "dk_fault d = None" and "max_events \<le> u64_max"
    and "chain (journal_frame c) (jp_head (sn_position s)) evs = Some (body, tail)"
    and "dk_bytes d = pre @ body @ rest" and "sn_offset s = length pre" and "sn_seal s = None"
    and "length (sn_entries s) + length evs \<le> max_events" and "jp_sequence (sn_position s) + length evs \<le> u64_max"
  shows "scan_loop c max_events d s = scan_loop c max_events d (scanned_events c evs body tail s)"
  using assms(4-9)
proof (induction evs arbitrary: s body pre)
  case (Cons ev evs)
  obtain framed head rest' where f: "journal_frame c ev (jp_head (sn_position s)) = Inr (framed, head)"
      "chain (journal_frame c) head evs = Some (rest', tail)" "body = framed @ rest'"
    using Cons.prems(1) by (rule chain_ConsE)
  let ?s = "scanned_events c [ev] framed head s"
  have head: "jp_head (sn_position ?s) = head" by (simp add: scanned_events_def)
  have "scan_loop c max_events d s = scan_loop c max_events d ?s"
    by (rule scan_event [OF assms(1) f(1) assms(2) _ Cons.prems(3,4) _ assms(3)]) (use Cons.prems f(3) in simp_all)
  also have "\<dots> = scan_loop c max_events d (scanned_events c evs rest' tail ?s)"
    by (rule Cons.IH [of ?s rest' "pre @ framed"]) (use Cons.prems f head in \<open>simp_all add: scanned_events_def Let_def\<close>)
  finally show ?case using f by (simp add: scanned_events_Cons)
qed (simp add: scanned_events_Nil)

text \<open>What a file starts with: nothing, or the seal it continues from; its chain starts behind that.\<close>

definition file_opening :: "file_codec \<Rightarrow> checkpoint_record option \<Rightarrow> bytes \<Rightarrow> journal_position \<Rightarrow> bool" where
  "file_opening c carried first start \<longleftrightarrow>
     (case carried of
        None \<Rightarrow> first = [] \<and> start = genesis_position (fc_hash c)
      | Some checkpoint \<Rightarrow>
          \<exists>payload head. to_payload c checkpoint = Inr payload \<and> seal_frame c payload (jp_head (cn_predecessor checkpoint)) = Inr (first, head) \<and>
            jp_sequence (cn_predecessor checkpoint) < u64_max \<and> start = \<lparr>jp_sequence = jp_sequence (cn_predecessor checkpoint) + 1, jp_head = head\<rparr>)"

definition opening_state :: "checkpoint_record option \<Rightarrow> bytes \<Rightarrow> journal_position \<Rightarrow> scan_state" where
  "opening_state carried first start =
     \<lparr>sn_entries = [], sn_carried = carried, sn_seal = None, sn_chain_from = start, sn_position = start, sn_offset = length first,
      sn_index = (if carried = None then 0 else 1)\<rparr>"

definition file_state :: "file_codec \<Rightarrow> checkpoint_record option \<Rightarrow> bytes \<Rightarrow> journal_position \<Rightarrow> effect_event list \<Rightarrow> bytes \<Rightarrow> bytes \<Rightarrow> scan_state" where
  "file_state c carried first start evs body tail = scanned_events c evs body tail (opening_state carried first start)"

lemma file_state_simps [simp]:
  "sn_entries (file_state c carried first start evs body tail) = file_entries c start evs"
  "sn_carried (file_state c carried first start evs body tail) = carried"
  "sn_seal (file_state c carried first start evs body tail) = None"
  "sn_chain_from (file_state c carried first start evs body tail) = start"
  "sn_position (file_state c carried first start evs body tail) = \<lparr>jp_sequence = jp_sequence start + length evs, jp_head = tail\<rparr>"
  "sn_offset (file_state c carried first start evs body tail) = length first + length body"
  by (simp_all add: file_state_def scanned_events_def opening_state_def)

text \<open>A seal in front of a scan that has none, its predecessor read from the frame.\<close>

lemma scan_one_seal:
  assumes "codec_ok c" and "to_payload c cp = Inr payload" and "seal_frame c payload (jp_head (cn_predecessor cp)) = Inr (framed, head)"
    and "sn_seal s = None" and "jp_sequence (cn_predecessor cp) < u64_max"
  shows "scan_one c \<lparr>sf_payload = payload, sf_head = head, sf_length = length payload\<rparr> s =
    (let position = \<lparr>jp_sequence = jp_sequence (cn_predecessor cp) + 1, jp_head = head\<rparr>;
         s = s\<lparr>sn_offset := sn_offset s + length framed, sn_index := sn_index s + 1, sn_position := position\<rparr> in
     Inr (if sn_index s = 1 then s\<lparr>sn_carried := Some cp, sn_chain_from := position\<rparr> else s\<lparr>sn_seal := Some cp\<rparr>))"
proof -
  have frame: "is_possible_length (length payload) max_frame_bytes" "head = chain_over_bytes (fc_hash c) (jp_head (cn_predecessor cp)) payload"
      "framed = encode_frame (length payload) payload head"
    using assms(3) unfolding seal_frame_ok by simp_all
  have hlen: "length head = head_bytes" using frame(2) by (simp add: head_length [OF assms(1)])
  have verified: "verify_frame c payload head (cn_predecessor cp) n = Inr \<lparr>jp_sequence = jp_sequence (cn_predecessor cp) + 1, jp_head = head\<rparr>" for n
    using frame(2) assms(5) by (simp add: verify_frame_def Let_def sat_succ)
  have framed_length: "length framed = framed_len (length payload)" using frame hlen by (simp add: framed_len_frame)
  show ?thesis
    using assms(4) framed_length by (cases s) (simp add: scan_one_def from_to_payload [OF assms(1,2)] verified Let_def)
qed

lemma scan_seal_frame:
  assumes "codec_ok c" and "to_payload c cp = Inr payload" and "seal_frame c payload (jp_head (cn_predecessor cp)) = Inr (framed, head)"
    and "dk_fault d = None" and "dk_bytes d = pre @ framed @ rest" and "sn_offset s = length pre"
    and "length (sn_entries s) < max_events" and "max_events \<le> u64_max"
  shows "scan_loop c max_events d s =
    (case scan_one c \<lparr>sf_payload = payload, sf_head = head, sf_length = length payload\<rparr> s of Inl e \<Rightarrow> Inl e | Inr s' \<Rightarrow> scan_loop c max_events d s')"
proof -
  have frame: "is_possible_length (length payload) max_frame_bytes" "head = chain_over_bytes (fc_hash c) (jp_head (cn_predecessor cp)) payload"
      "framed = encode_frame (length payload) payload head"
    using assms(3) unfolding seal_frame_ok by simp_all
  have hlen: "length head = head_bytes" using frame(2) by (simp add: head_length [OF assms(1)])
  have "scan_next_frame d (length pre) (length (sn_entries s)) max_events (sn_index s) =
      Inr (Inr \<lparr>sf_payload = payload, sf_head = head, sf_length = length payload\<rparr>)"
    by (rule scan_whole_frame [OF assms(4) _ frame(1) hlen assms(7,8)]) (use assms(5) frame(3) in simp)
  then show ?thesis by (subst scan_loop.simps) (simp add: assms(6))
qed

lemma max_journal_events_facts: "0 < max_journal_events" "max_journal_events \<le> u64_max"
  by (simp_all add: max_journal_events_def u64_max_def)

lemma scan_opening:
  assumes "codec_ok c" and "file_opening c carried first start" and "dk_fault d = None" and "dk_bytes d = first @ rest"
  shows "scan c max_journal_events d = scan_loop c max_journal_events d (opening_state carried first start)"
proof (cases carried)
  case None
  then show ?thesis using assms(2) by (simp add: scan_def scan_start_def opening_state_def file_opening_def)
next
  case (Some cp)
  then obtain payload head where f: "to_payload c cp = Inr payload" "seal_frame c payload (jp_head (cn_predecessor cp)) = Inr (first, head)"
      "jp_sequence (cn_predecessor cp) < u64_max" "start = \<lparr>jp_sequence = jp_sequence (cn_predecessor cp) + 1, jp_head = head\<rparr>"
    using assms(2) unfolding file_opening_def by auto
  have seal: "sn_seal (scan_start c) = None" by (simp add: scan_start_def)
  have one: "scan_one c \<lparr>sf_payload = payload, sf_head = head, sf_length = length payload\<rparr> (scan_start c) = Inr (opening_state carried first start)"
    unfolding scan_one_seal [OF assms(1) f(1,2) seal f(3)] by (simp add: Let_def scan_start_def opening_state_def Some f(4))
  have "scan_loop c max_journal_events d (scan_start c) =
      (case scan_one c \<lparr>sf_payload = payload, sf_head = head, sf_length = length payload\<rparr> (scan_start c) of
         Inl e \<Rightarrow> Inl e | Inr s' \<Rightarrow> scan_loop c max_journal_events d s')"
    by (rule scan_seal_frame [OF assms(1) f(1,2) assms(3), of "[]" rest])
       (use assms(4) max_journal_events_facts in \<open>simp_all add: scan_start_def\<close>)
  then show ?thesis by (simp add: scan_def one)
qed

lemma scan_file:
  assumes "codec_ok c" and "file_opening c carried first start" and "dk_fault d = None"
    and "chain (journal_frame c) (jp_head start) evs = Some (body, tail)" and "dk_bytes d = first @ body @ rest"
    and "length evs \<le> max_journal_events" and "jp_sequence start + length evs \<le> u64_max"
  shows "scan c max_journal_events d = scan_loop c max_journal_events d (file_state c carried first start evs body tail)"
  unfolding scan_opening [OF assms(1-3,5)] file_state_def
  by (rule scan_events [OF assms(1,3) max_journal_events_facts(2) _ assms(5)]) (use assms(4,6,7) in \<open>simp_all add: opening_state_def\<close>)

lemma file_entries_length:
  "chain (journal_frame c) (jp_head position) evs = Some (body, tail) \<Longrightarrow> length (file_entries c position evs) = length evs"
proof (induction evs arbitrary: position body)
  case (Cons ev evs)
  then show ?case by (elim chain_ConsE) (simp add: Let_def)
qed simp

lemma file_entries_events:
  "chain (journal_frame c) (jp_head position) evs = Some (body, tail) \<Longrightarrow> map je_event (file_entries c position evs) = evs"
proof (induction evs arbitrary: position body)
  case (Cons ev evs)
  then show ?case by (elim chain_ConsE) (simp add: Let_def)
qed simp

lemma file_entries_append:
  "chain (journal_frame c) (jp_head position) evs = Some (body, tail) \<Longrightarrow>
    file_entries c position (evs @ evs') = file_entries c position evs @ file_entries c \<lparr>jp_sequence = jp_sequence position + length evs, jp_head = tail\<rparr> evs'"
proof (induction evs arbitrary: position body)
  case Nil
  then show ?case by (cases position) simp
next
  case (Cons ev evs)
  then show ?case by (elim chain_ConsE) (simp add: Let_def)
qed

text \<open>Where the scan of such a file stops.\<close>

lemma scan_whole_file:
  assumes "codec_ok c" and "file_opening c carried first start" and "dk_fault d = None"
    and "chain (journal_frame c) (jp_head start) evs = Some (body, tail)" and "dk_bytes d = first @ body"
    and "length evs \<le> max_journal_events" and "jp_sequence start + length evs \<le> u64_max"
  shows "scan c max_journal_events d = Inr (file_state c carried first start evs body tail, HaltComplete)"
  using assms(5)
  by (subst scan_file [OF assms(1-4) _ assms(6,7), of "[]"]) (simp, subst scan_loop.simps, simp add: scan_end [OF assms(3)])

lemma scan_cut_file:
  assumes "codec_ok c" and "file_opening c carried first start" and "dk_fault d = None"
    and "chain (journal_frame c) (jp_head start) evs = Some (body, tail)" and "dk_bytes d = first @ body @ take k framed"
    and "journal_frame c ev tail = Inr (framed, head)" and "k < length framed"
    and "length evs < max_journal_events" and "jp_sequence start + length evs \<le> u64_max"
  shows "scan c max_journal_events d =
    Inr (file_state c carried first start evs body tail, if k = 0 then HaltComplete else if k < length_bytes then HaltTorn else HaltAmbiguous)"
proof -
  obtain b where b: "is_possible_length (length b) max_frame_bytes" "head = chain_over_bytes (fc_hash c) tail b" "framed = encode_frame (length b) b head"
    using assms(6) unfolding journal_frame_ok by blast
  have hlen: "length head = head_bytes" using b(2) by (simp add: head_length [OF assms(1)])
  have cut: "scan_next_frame d (length (first @ body)) (length evs) max_journal_events n =
      Inr (Inl (if k = 0 then HaltComplete else if k < length_bytes then HaltTorn else HaltAmbiguous))" for n
    by (rule scan_cut_frame [OF assms(3) _ b(1) hlen assms(8) max_journal_events_facts(2)]) (use assms(5,7) b(3) in simp_all)
  show ?thesis
    by (subst scan_file [OF assms(1-4,5) _ assms(9)])
       (use assms(8) cut in \<open>simp_all add: scan_loop.simps [of c max_journal_events d "file_state c carried first start evs body tail"] file_entries_length [OF assms(4)]\<close>)
qed

section \<open>Opening a file of whole frames\<close>

definition obliging :: "open_device \<Rightarrow> bool" where
  "obliging dev \<longleftrightarrow> od_opens dev \<and> od_lock dev = LockFree \<and> od_trims dev \<and> od_syncs dev \<and> od_spawns dev"

text \<open>What is left of a cut frame holds a frame that authenticates.\<close>

definition cut_authenticates :: "file_codec \<Rightarrow> nat \<Rightarrow> bytes \<Rightarrow> bytes \<Rightarrow> bool" where
  "cut_authenticates c k framed previous \<longleftrightarrow>
     length_bytes \<le> k \<and> holds_acknowledged_frame (journal_head c) max_frame_bytes (drop length_bytes (take k framed)) previous"

lemma open_scanned:
  assumes "obliging dev" and "refuse_ambiguous_base p = Inr ()" and "fs p = Some d" and "length (dk_bytes d) \<le> max_journal_bytes"
    and "scan c max_journal_events d = Inr (s, stop)" and "sn_seal s = None"
  shows "open_journal c dev p kind fs =
    (case acknowledged_length c dev p d s stop fs of
       (Inl e, fs) \<Rightarrow> (Inl e, fs)
     | (Inr (acked_len, repaired), fs) \<Rightarrow> (Inr (opened_journal p kind s acked_len repaired c), fs))"
  using assms by (simp add: open_journal_def obliging_def split: sum.splits prod.splits)

lemma open_whole:
  assumes "codec_ok c" and "file_opening c carried first start" and "obliging dev" and "refuse_ambiguous_base p = Inr ()"
    and "fs p = Some \<lparr>dk_bytes = first @ body, dk_fault = None\<rparr>" and "length (first @ body) \<le> max_journal_bytes"
    and "chain (journal_frame c) (jp_head start) evs = Some (body, tail)"
    and "length evs \<le> max_journal_events" and "jp_sequence start + length evs \<le> u64_max"
  shows "open_journal c dev p kind fs =
    (Inr (opened_journal p kind (file_state c carried first start evs body tail) (length (first @ body)) False c), fs)"
proof -
  have "scan c max_journal_events \<lparr>dk_bytes = first @ body, dk_fault = None\<rparr> = Inr (file_state c carried first start evs body tail, HaltComplete)"
    by (rule scan_whole_file [OF assms(1,2) _ assms(7) _ assms(8,9)]) simp_all
  from open_scanned [of dev p fs "\<lparr>dk_bytes = first @ body, dk_fault = None\<rparr>", OF assms(3,4,5) _ this] assms(6) show ?thesis
    by (simp add: acknowledged_length_def)
qed

lemma trim_obliging: "obliging dev \<Longrightarrow> trim_tail dev p offset fs = (Inr offset, set_file p (take offset (file_bytes fs p)) fs)"
  by (simp add: trim_tail_def obliging_def file_bytes_def)

lemma resolve_cut:
  assumes "dk_bytes d = pre @ take k framed" and "dk_fault d = None" and "length_bytes \<le> k" and "k \<le> length framed"
    and "length framed \<le> length_bytes + max_frame_bytes + head_bytes"
  shows "resolve_ambiguous_tail c d (length pre) position index =
    (if holds_acknowledged_frame (journal_head c) max_frame_bytes (drop length_bytes (take k framed)) (jp_head position)
     then Inl (Corrupt index Framed) else Inr (length pre))"
proof -
  have "device_read d (length pre + length_bytes) (length (dk_bytes d) - (length pre + length_bytes)) = Inr (drop length_bytes (take k framed))"
    using assms(1-4) by simp
  moreover have "\<not> length (dk_bytes d) - (length pre + length_bytes) > max_frame_bytes + head_bytes" using assms(1,4,5) by simp
  ultimately have "cut_holds_acknowledged (journal_head c) (\<lambda>e. JournalStorage (StorageIo e)) max_frame_bytes d (length pre) (jp_head position) =
      (Inr (holds_acknowledged_frame (journal_head c) max_frame_bytes (drop length_bytes (take k framed)) (jp_head position)) :: file_error + bool)"
    unfolding cut_holds_acknowledged_def Let_def by simp
  then show ?thesis by (simp add: resolve_ambiguous_tail_def)
qed

lemma open_cut:
  assumes "codec_ok c" and "file_opening c carried first start" and "obliging dev" and "refuse_ambiguous_base p = Inr ()"
    and "fs p = Some \<lparr>dk_bytes = first @ body @ take k framed, dk_fault = None\<rparr>" and "length (first @ body @ take k framed) \<le> max_journal_bytes"
    and "chain (journal_frame c) (jp_head start) evs = Some (body, tail)"
    and "journal_frame c ev tail = Inr (framed, head)" and "k < length framed"
    and "length evs < max_journal_events" and "jp_sequence start + length evs \<le> u64_max"
  shows "open_journal c dev p kind fs =
    (if cut_authenticates c k framed tail then (Inl (Corrupt (length evs) Framed), fs)
     else (Inr (opened_journal p kind (file_state c carried first start evs body tail) (length (first @ body)) (k \<noteq> 0) c),
       if k = 0 then fs else set_file p (first @ body) fs))"
proof -
  let ?d = "\<lparr>dk_bytes = first @ body @ take k framed, dk_fault = None\<rparr>"
  let ?s = "file_state c carried first start evs body tail"
  obtain b where b: "is_possible_length (length b) max_frame_bytes" "head = chain_over_bytes (fc_hash c) tail b" "framed = encode_frame (length b) b head"
    using assms(8) unfolding journal_frame_ok by blast
  have hlen: "length head = head_bytes" using b(2) by (simp add: head_length [OF assms(1)])
  have most: "length framed \<le> length_bytes + max_frame_bytes + head_bytes"
    using b(1,3) hlen by (simp add: encode_frame_def is_possible_length_def)
  have scanned: "scan c max_journal_events ?d = Inr (?s, if k = 0 then HaltComplete else if k < length_bytes then HaltTorn else HaltAmbiguous)"
    by (rule scan_cut_file [OF assms(1,2) _ assms(7) _ assms(8,9,10,11)]) simp_all
  have held: "file_bytes fs p = first @ body @ take k framed" using assms(5) by (simp add: file_bytes_def)
  have resolve: "resolve_ambiguous_tail c ?d (length (first @ body)) position index =
      (if holds_acknowledged_frame (journal_head c) max_frame_bytes (drop length_bytes (take k framed)) (jp_head position)
       then Inl (Corrupt index Framed) else Inr (length (first @ body)))" if "length_bytes \<le> k" for position index
    by (rule resolve_cut) (use that assms(9) most in simp_all)
  have opened: "open_journal c dev p kind fs =
      (case acknowledged_length c dev p ?d ?s (if k = 0 then HaltComplete else if k < length_bytes then HaltTorn else HaltAmbiguous) fs of
         (Inl e, fs) \<Rightarrow> (Inl e, fs)
       | (Inr (acked_len, repaired), fs) \<Rightarrow> (Inr (opened_journal p kind ?s acked_len repaired c), fs))"
    by (rule open_scanned [of dev p fs ?d, OF assms(3,4,5) _ scanned]) (use assms(6) in simp_all)
  have entries: "length (file_entries c start evs) = length evs" by (rule file_entries_length [OF assms(7)])
  consider "k = 0" | "0 < k" "k < length_bytes" | "length_bytes \<le> k" "k \<noteq> 0" by linarith
  then show ?thesis
  proof cases
    case 1
    then have "\<not> cut_authenticates c k framed tail" by (simp add: cut_authenticates_def length_bytes_def)
    then show ?thesis using opened 1 by (simp add: acknowledged_length_def)
  next
    case 2
    then have "\<not> cut_authenticates c k framed tail" by (simp add: cut_authenticates_def)
    then show ?thesis using opened 2 by (simp add: acknowledged_length_def trim_obliging [OF assms(3)] held)
  next
    case 3
    then show ?thesis using opened resolve [OF 3(1)] entries
      by (simp add: acknowledged_length_def trim_obliging [OF assms(3)] held cut_authenticates_def)
  qed
qed

section \<open>The life of an open file\<close>

text \<open>
  What is known of an open file at any time: it holds its opening, the frames of the acknowledged events \<open>evs\<close>, and, once the
  handle is poisoned, some of the frames of the events \<open>flight\<close> whose write was not answered.
\<close>

definition journal_holds ::
  "file_codec \<Rightarrow> path \<Rightarrow> checkpoint_record option \<Rightarrow> bytes \<Rightarrow> journal_position \<Rightarrow> effect_event list \<Rightarrow> effect_event list \<Rightarrow> file_journal \<Rightarrow> file_system \<Rightarrow> bool" where
  "journal_holds c p carried first start evs flight j fs \<longleftrightarrow>
     (\<exists>body tail rest last_head q. chain (journal_frame c) (jp_head start) evs = Some (body, tail) \<and>
       chain (journal_frame c) tail flight = Some (rest, last_head) \<and> q \<le> length rest \<and>
       fs p = Some \<lparr>dk_bytes = first @ body @ take q rest, dk_fault = None\<rparr> \<and>
       fj_path j = p \<and> fj_disk_len j = length (first @ body) \<and> fj_position j = \<lparr>jp_sequence = jp_sequence start + length evs, jp_head = tail\<rparr> \<and>
       fj_committed j = file_entries c start evs \<and> fj_carried j = carried \<and> fj_sealed_by j = None \<and> length evs + length flight \<le> max_journal_events \<and>
       length (first @ body @ rest) \<le> max_journal_bytes \<and> jp_sequence start + length evs + length flight \<le> u64_max \<and>
       (\<not> fj_poisoned j \<longrightarrow> flight = []))"

lemma journal_holdsD:
  assumes "journal_holds c p carried first start evs flight j fs"
  obtains body tail rest last_head q where "chain (journal_frame c) (jp_head start) evs = Some (body, tail)"
    "chain (journal_frame c) tail flight = Some (rest, last_head)" "q \<le> length rest"
    "fs p = Some \<lparr>dk_bytes = first @ body @ take q rest, dk_fault = None\<rparr>"
    "fj_path j = p" "fj_disk_len j = length (first @ body)" "fj_position j = \<lparr>jp_sequence = jp_sequence start + length evs, jp_head = tail\<rparr>"
    "fj_committed j = file_entries c start evs" "fj_carried j = carried" "fj_sealed_by j = None" "length evs + length flight \<le> max_journal_events"
    "length (first @ body @ rest) \<le> max_journal_bytes" "jp_sequence start + length evs + length flight \<le> u64_max" "\<not> fj_poisoned j \<Longrightarrow> flight = []"
  using assms unfolding journal_holds_def by blast

text \<open>The positions and lengths a list of events is framed with.\<close>

fun staged_from :: "file_codec \<Rightarrow> journal_position \<Rightarrow> effect_event list \<Rightarrow> (effect_event \<times> journal_position \<times> nat) list" where
  "staged_from c position [] = []"
| "staged_from c position (ev # evs) =
     (case journal_frame c ev (jp_head position) of
        Inl _ \<Rightarrow> []
      | Inr (framed, head) \<Rightarrow>
          let position = \<lparr>jp_sequence = jp_sequence position + 1, jp_head = head\<rparr> in
          (ev, position, length framed) # staged_from c position evs)"

definition accept_staged :: "(effect_event \<times> journal_position \<times> nat) list \<Rightarrow> file_journal \<Rightarrow> file_journal" where
  "accept_staged = fold (\<lambda>(ev, position, len). accept_event ev position len)"

lemma event_frame_ok:
  "event_frame c ev position = Inr (position', framed) \<longleftrightarrow>
     jp_sequence position < u64_max \<and> (\<exists>head. journal_frame c ev (jp_head position) = Inr (framed, head) \<and>
       position' = \<lparr>jp_sequence = jp_sequence position + 1, jp_head = head\<rparr>)"
  by (auto simp: event_frame_def split: sum.splits)

lemma stage_batch_ok:
  assumes "stage_batch c j evs position staged frames pending = Inr (frames', pending')"
    and "fj_disk_len j + length frames \<le> max_journal_bytes"
  shows "\<exists>body tail. chain (journal_frame c) (jp_head position) evs = Some (body, tail) \<and> frames' = frames @ body \<and>
    pending' = pending @ staged_from c position evs \<and> fj_disk_len j + length frames' \<le> max_journal_bytes \<and>
    (evs \<noteq> [] \<longrightarrow> jp_sequence position + length evs \<le> u64_max)"
  using assms
proof (induction evs arbitrary: position staged frames pending)
  case (Cons ev evs)
  obtain position1 framed where f: "event_frame c ev position = Inr (position1, framed)"
      "bound_bytes (sat_add_usize (length frames) (length framed)) j = Inr ()"
      "stage_batch c j evs position1 (staged(event_key ev \<mapsto> kind_of ev)) (frames @ framed) (pending @ [(ev, position1, length framed)]) = Inr (frames', pending')"
    using Cons.prems(1) by (auto simp: Let_def split: if_splits)
  obtain head where h: "jp_sequence position < u64_max" "journal_frame c ev (jp_head position) = Inr (framed, head)"
      "position1 = \<lparr>jp_sequence = jp_sequence position + 1, jp_head = head\<rparr>"
    using f(1) unfolding event_frame_ok by blast
  have "fj_disk_len j + length (frames @ framed) \<le> max_journal_bytes"
    using f(2) by (auto simp: bound_bytes_def Let_def sat_add_u64_def sat_add_usize_def usize_max_def u64_max_def max_journal_bytes_def split: if_splits)
  from Cons.IH [OF f(3) this] obtain body tail where b: "chain (journal_frame c) head evs = Some (body, tail)" "frames' = (frames @ framed) @ body"
      "pending' = (pending @ [(ev, position1, length framed)]) @ staged_from c position1 evs" "fj_disk_len j + length frames' \<le> max_journal_bytes"
      "evs \<noteq> [] \<longrightarrow> jp_sequence position1 + length evs \<le> u64_max"
    unfolding h(3) by auto
  then show ?case using h by (cases "evs = []") (auto simp: Let_def)
qed simp

lemma accept_event_simps [simp]:
  "fj_path (accept_event ev position len j) = fj_path j" "fj_carried (accept_event ev position len j) = fj_carried j"
  "fj_sealed_by (accept_event ev position len j) = fj_sealed_by j" "fj_poisoned (accept_event ev position len j) = fj_poisoned j"
  "fj_position (accept_event ev position len j) = position"
  "fj_committed (accept_event ev position len j) = fj_committed j @ [\<lparr>je_position = position, je_event = ev\<rparr>]"
  "fj_disk_len (accept_event ev position len j) = sat_add_u64 (fj_disk_len j) len"
  by (simp_all add: accept_event_def)

lemma accept_staged_fields:
  assumes "chain (journal_frame c) (jp_head (fj_position j)) evs = Some (body, tail)" and "fj_disk_len j + length body \<le> u64_max"
  shows "fj_path (accept_staged (staged_from c (fj_position j) evs) j) = fj_path j \<and>
    fj_carried (accept_staged (staged_from c (fj_position j) evs) j) = fj_carried j \<and>
    fj_sealed_by (accept_staged (staged_from c (fj_position j) evs) j) = fj_sealed_by j \<and>
    fj_poisoned (accept_staged (staged_from c (fj_position j) evs) j) = fj_poisoned j \<and>
    fj_position (accept_staged (staged_from c (fj_position j) evs) j) = \<lparr>jp_sequence = jp_sequence (fj_position j) + length evs, jp_head = tail\<rparr> \<and>
    fj_committed (accept_staged (staged_from c (fj_position j) evs) j) = fj_committed j @ file_entries c (fj_position j) evs \<and>
    fj_disk_len (accept_staged (staged_from c (fj_position j) evs) j) = fj_disk_len j + length body"
  using assms
proof (induction evs arbitrary: j body)
  case Nil
  then show ?case by (cases "fj_position j") (simp add: accept_staged_def)
next
  case (Cons ev evs)
  obtain framed head rest where f: "journal_frame c ev (jp_head (fj_position j)) = Inr (framed, head)"
      "chain (journal_frame c) head evs = Some (rest, tail)" "body = framed @ rest"
    using Cons.prems(1) by (rule chain_ConsE)
  let ?p = "\<lparr>jp_sequence = jp_sequence (fj_position j) + 1, jp_head = head\<rparr>"
  let ?j = "accept_event ev ?p (length framed) j"
  have len: "fj_disk_len ?j = fj_disk_len j + length framed" using Cons.prems(2) f(3) by (simp add: sat_add_u64_def)
  have unfold: "accept_staged (staged_from c (fj_position j) (ev # evs)) j = accept_staged (staged_from c (fj_position ?j) evs) ?j"
    using f(1) by (simp add: accept_staged_def Let_def)
  show ?case unfolding unfold
    using Cons.IH [of ?j rest] f Cons.prems(2) len by (simp add: Let_def)
qed

lemma file_bytes_set [simp]: "file_bytes (set_file p bs fs) p = bs" "fs p = Some d \<Longrightarrow> set_file p bs fs p = Some \<lparr>dk_bytes = bs, dk_fault = dk_fault d\<rparr>"
  by (simp_all add: file_bytes_def set_file_def)

text \<open>A write through the owner keeps the account: answered, its events are acknowledged; unanswered, they are in flight.\<close>

lemma write_keeps:
  assumes holds: "journal_holds c p carried first start evs flight j fs" and live: "\<not> fj_poisoned j" and fenced: "length (file_bytes fs p) = fj_disk_len j"
    and new: "chain (journal_frame c) (jp_head (fj_position j)) new = Some (rest, last_head)"
    and bounds: "length evs + length new \<le> max_journal_events" "fj_disk_len j + length rest \<le> max_journal_bytes" "jp_sequence (fj_position j) + length new \<le> u64_max"
    and wrote: "write_and_sync fate rest j fs = (answer, j', fs')"
  shows "if is_ok answer
    then journal_holds c p carried first start (evs @ new) [] (accept_staged (staged_from c (fj_position j) new) j') fs' \<and> j' = j
    else journal_holds c p carried first start evs new j' fs' \<and> fj_poisoned j'"
  using holds
proof (rule journal_holdsD)
  fix body tail rest0 last0 q
  assume h: "chain (journal_frame c) (jp_head start) evs = Some (body, tail)" "chain (journal_frame c) tail flight = Some (rest0, last0)" "q \<le> length rest0"
    "fs p = Some \<lparr>dk_bytes = first @ body @ take q rest0, dk_fault = None\<rparr>"
    "fj_path j = p" "fj_disk_len j = length (first @ body)" "fj_position j = \<lparr>jp_sequence = jp_sequence start + length evs, jp_head = tail\<rparr>"
    "fj_committed j = file_entries c start evs" "fj_carried j = carried" "fj_sealed_by j = None" "length evs + length flight \<le> max_journal_events"
    "length (first @ body @ rest0) \<le> max_journal_bytes" "jp_sequence start + length evs + length flight \<le> u64_max" "\<not> fj_poisoned j \<Longrightarrow> flight = []"
  have bytes: "file_bytes fs p = first @ body" using fenced h(2,4,6,14) live by (simp add: file_bytes_def)
  have fsp: "fs p = Some \<lparr>dk_bytes = first @ body, dk_fault = None\<rparr>" using bytes h(4) by (simp add: file_bytes_def)
  have small: "fj_disk_len j + length rest \<le> u64_max" using bounds(2) by (simp add: max_journal_bytes_def u64_max_def)
  have tail: "chain (journal_frame c) tail new = Some (rest, last_head)" using new h(7) by simp
  have inflight: "journal_holds c p carried first start evs new (j\<lparr>fj_poisoned := True\<rparr>) (set_file p (first @ body @ take q rest) fs)" if "q \<le> length rest" for q
    unfolding journal_holds_def using h(1,5-10) tail that fsp bounds by (intro exI conjI) (auto simp: algebra_simps)
  show ?thesis
  proof (cases fate)
    case WriteDone
    have j': "answer = Inr ()" "j' = j" "fs' = set_file p (first @ body @ rest) fs"
      using wrote live fenced bytes h(5) WriteDone by (simp_all add: write_and_sync_def Let_def)
    have chained: "chain (journal_frame c) (jp_head start) (evs @ new) = Some (body @ rest, last_head)" by (rule chain_join [OF h(1) tail])
    note fields = accept_staged_fields [OF new small]
    have "journal_holds c p carried first start (evs @ new) [] (accept_staged (staged_from c (fj_position j) new) j) fs'"
      unfolding journal_holds_def
    proof (intro exI conjI)
      show "chain (journal_frame c) (jp_head start) (evs @ new) = Some (body @ rest, last_head)" by (rule chained)
      show "chain (journal_frame c) last_head [] = Some ([], last_head)" by simp
      show "0 \<le> length ([] :: bytes)" by simp
      show "fj_committed (accept_staged (staged_from c (fj_position j) new) j) = file_entries c start (evs @ new)"
        using fields h(7,8) by (simp add: file_entries_append [OF h(1)])
    qed (use fields h bounds j'(3) fsp in \<open>auto simp: algebra_simps\<close>)
    then show ?thesis using j' by simp
  next
    case (WriteStopped n)
    then show ?thesis using wrote live fenced bytes h(5) inflight [of "min n (length rest - 1)"] by (auto simp: write_and_sync_def Let_def)
  next
    case FlushRefused
    then show ?thesis using wrote live fenced bytes h(5) inflight [of "length rest"] by (auto simp: write_and_sync_def Let_def)
  next
    case (AnswerLost n)
    have "take (min n (length rest)) rest = take n rest" by (simp add: min_def)
    with AnswerLost show ?thesis using wrote live fenced bytes h(5) inflight [of "min n (length rest)"] by (auto simp: write_and_sync_def Let_def)
  qed
qed

lemma fence_ok: "fence fs j = Inr () \<Longrightarrow> fj_sealed_by j = None \<and> \<not> fj_poisoned j \<and> length (file_bytes fs (fj_path j)) = fj_disk_len j"
  by (auto simp: fence_def refuse_sealed_def split: option.splits if_splits)

lemma bound_events_ok: "(bound_events held n :: file_error + unit) = Inr () \<Longrightarrow> held + n \<le> max_journal_events"
  by (auto simp: bound_events_def Let_def sat_add_u64_def max_journal_events_def u64_max_def split: if_splits)

lemma bound_bytes_ok: "bound_bytes n j = Inr () \<Longrightarrow> fj_disk_len j + n \<le> max_journal_bytes"
  by (auto simp: bound_bytes_def Let_def sat_add_u64_def max_journal_bytes_def u64_max_def split: if_splits)

lemma prepare_append_ok:
  assumes "prepare_append c fs expected_tail ev j = Inr (position, framed)"
  shows "expected_tail = fj_position j" and "next_allowed_of (fj_ladder j (event_key ev)) = Some (kind_of ev)" and "refuse_walked ev j = Inr ()"
    and "fence fs j = Inr ()" and "length (fj_committed j) + 1 \<le> max_journal_events" and "event_frame c ev (fj_position j) = Inr (position, framed)"
    and "fj_disk_len j + length framed \<le> max_journal_bytes"
proof -
  have all: "check_append_order expected_tail (fj_position j) ev (fj_ladder j (event_key ev)) = (Inr () :: file_error + unit)"
    "refuse_walked ev j = Inr ()" "fence fs j = Inr ()" "bound_events (length (fj_committed j)) 1 = (Inr () :: file_error + unit)"
    "event_frame c ev (fj_position j) = Inr (position, framed)" "bound_bytes (length framed) j = Inr ()"
    using assms by (auto simp: prepare_append_def)
  show "expected_tail = fj_position j" "next_allowed_of (fj_ladder j (event_key ev)) = Some (kind_of ev)"
    using all(1) by (auto simp: check_append_order_def Let_def split: if_splits)
  show "refuse_walked ev j = Inr ()" "fence fs j = Inr ()" "event_frame c ev (fj_position j) = Inr (position, framed)" using all by simp_all
  show "length (fj_committed j) + 1 \<le> max_journal_events" by (rule bound_events_ok [OF all(4)])
  show "fj_disk_len j + length framed \<le> max_journal_bytes" by (rule bound_bytes_ok [OF all(6)])
qed

text \<open>A single append is a batch of one as far as the file goes.\<close>

lemma append_keeps:
  assumes "journal_holds c p carried first start evs flight j fs" and "file_append c fate expected_tail ev j fs = (answer, j', fs')"
  shows "journal_holds c p carried first start (evs @ (if is_ok answer then [ev] else [])) (if fj_poisoned j' \<and> \<not> fj_poisoned j then [ev] else flight) j' fs'"
proof (cases "prepare_append c fs expected_tail ev j")
  case (Inl e)
  then have "answer = Inl e" "j' = j" "fs' = fs" using assms(2) by (simp_all add: file_append_def)
  then show ?thesis using assms(1) by simp
next
  case (Inr r)
  obtain position framed where prep: "prepare_append c fs expected_tail ev j = Inr (position, framed)" using Inr by (cases r) simp
  note ok = prepare_append_ok [OF prep]
  obtain head where f: "jp_sequence (fj_position j) < u64_max" "journal_frame c ev (jp_head (fj_position j)) = Inr (framed, head)"
      "position = \<lparr>jp_sequence = jp_sequence (fj_position j) + 1, jp_head = head\<rparr>"
    using ok(6) unfolding event_frame_ok by blast
  obtain wrote j1 fs1 where w: "write_and_sync fate framed j fs = (wrote, j1, fs1)" by (metis prod_cases3)
  have path: "fj_path j = p" and committed: "length (fj_committed j) = length evs" and fresh: "\<not> fj_poisoned j \<Longrightarrow> flight = []"
    using assms(1) by (auto elim!: journal_holdsD simp: file_entries_length)
  note live = fence_ok [OF ok(4)]
  have chained: "chain (journal_frame c) (jp_head (fj_position j)) [ev] = Some (framed, head)" using f(2) by simp
  have kept: "if is_ok wrote
      then journal_holds c p carried first start (evs @ [ev]) [] (accept_staged (staged_from c (fj_position j) [ev]) j1) fs1 \<and> j1 = j
      else journal_holds c p carried first start evs [ev] j1 fs1 \<and> fj_poisoned j1"
    by (rule write_keeps [OF assms(1) _ _ chained _ ok(7) _ w]) (use live path ok(5) committed f(1) in simp_all)
  show ?thesis
  proof (cases "is_ok wrote")
    case True
    then have "j1 = j" "answer = Inr \<lparr>da_position = position, da_promise = ProcessCrash\<rparr>" "j' = accept_event ev position (length framed) j1" "fs' = fs1"
      using kept w prep assms(2) by (auto simp: file_append_def is_ok_def split: sum.splits)
    then show ?thesis using kept True f live fresh by (auto simp: accept_staged_def Let_def)
  next
    case False
    then obtain e where "wrote = Inl e" by (cases wrote) simp_all
    then have "answer = Inl e" "j' = j1" "fs' = fs1" using w prep assms(2) by (simp_all add: file_append_def)
    then show ?thesis using kept False live by simp
  qed
qed

lemma batch_keeps:
  assumes "journal_holds c p carried first start evs flight j fs" and "append_all c fate new j fs = (answer, j', fs')"
  shows "journal_holds c p carried first start (evs @ (if is_ok answer then new else [])) (if fj_poisoned j' \<and> \<not> fj_poisoned j then new else flight) j' fs'"
proof -
  have refused: ?thesis if "answer = Inl e" "j' = j" "fs' = fs" for e using assms(1) that by simp
  show ?thesis
  proof (cases "fence fs j")
    case (Inl e)
    then show ?thesis using assms(2) refused [of e] by (auto simp: append_all_def)
  next
    case (Inr u)
    then have fenced: "fence fs j = Inr ()" by simp
    note live = fence_ok [OF fenced]
    have path: "fj_path j = p" and committed: "length (fj_committed j) = length evs" and fresh: "\<not> fj_poisoned j \<Longrightarrow> flight = []"
        and disk: "fj_disk_len j \<le> max_journal_bytes"
      using assms(1) by (auto elim!: journal_holdsD simp: file_entries_length)
    show ?thesis
    proof (cases "new = []")
      case True
      then have "answer = Inr []" "j' = j" "fs' = fs" using assms(2) fenced by (simp_all add: append_all_def)
      then show ?thesis using assms(1) True by simp
    next
      case False
      let ?checked = "rbind (bound_events (length (fj_committed j)) (length new)) (\<lambda>_. stage_batch c j new (fj_position j) Map.empty [] [])"
      show ?thesis
      proof (cases ?checked)
        case (Inl e)
        then show ?thesis using assms(2) refused [of e] fenced False by (auto simp: append_all_def)
      next
        case (Inr r)
        obtain frames pending where r: "r = (frames, pending)" by (cases r)
        have ok: "bound_events (length (fj_committed j)) (length new) = (Inr () :: file_error + unit)"
            "stage_batch c j new (fj_position j) Map.empty [] [] = Inr (frames, pending)"
          using Inr r by auto
        obtain tail where b: "chain (journal_frame c) (jp_head (fj_position j)) new = Some (frames, tail)" "pending = staged_from c (fj_position j) new"
            "fj_disk_len j + length frames \<le> max_journal_bytes" "jp_sequence (fj_position j) + length new \<le> u64_max"
          using stage_batch_ok [OF ok(2)] disk False by auto
        obtain wrote j1 fs1 where w: "write_and_sync fate frames j fs = (wrote, j1, fs1)" by (metis prod_cases3)
        have kept: "if is_ok wrote
            then journal_holds c p carried first start (evs @ new) [] (accept_staged (staged_from c (fj_position j) new) j1) fs1 \<and> j1 = j
            else journal_holds c p carried first start evs new j1 fs1 \<and> fj_poisoned j1"
          by (rule write_keeps [OF assms(1) _ _ b(1) _ b(3,4) w]) (use live path committed bound_events_ok [OF ok(1)] in simp_all)
        show ?thesis
        proof (cases wrote)
          case (Inl e)
          then have "answer = Inl e" "j' = j1" "fs' = fs1" using w assms(2) fenced False Inr r by (simp_all add: append_all_def)
          then show ?thesis using kept Inl live by simp
        next
          case (Inr u)
          then have j1: "j1 = j" using kept by simp
          have "is_ok answer" "j' = accept_staged (staged_from c (fj_position j) new) j1" "fs' = fs1"
            using w assms(2) fenced False \<open>?checked = Inr r\<close> r Inr b(2) by (auto simp: append_all_def accept_staged_def)
          then show ?thesis using kept Inr live fresh j1 accept_staged_fields [OF b(1)] b(3) by (simp add: max_journal_bytes_def u64_max_def)
        qed
      qed
    qed
  qed
qed

lemma opened_journal_simps [simp]:
  "fj_path (opened_journal p kind s len repaired c) = p" "fj_committed (opened_journal p kind s len repaired c) = sn_entries s"
  "fj_disk_len (opened_journal p kind s len repaired c) = len" "fj_position (opened_journal p kind s len repaired c) = sn_position s"
  "fj_carried (opened_journal p kind s len repaired c) = sn_carried s" "fj_sealed_by (opened_journal p kind s len repaired c) = None"
  "fj_poisoned (opened_journal p kind s len repaired c) = False" "fj_repaired (opened_journal p kind s len repaired c) = repaired"
  by (simp_all add: opened_journal_def Let_def)

text \<open>Where an opening succeeds, every call the system refused was one it did not need.\<close>

definition obliging_device :: open_device where
  "obliging_device = \<lparr>od_opens = True, od_lock = LockFree, od_trims = True, od_syncs = True, od_spawns = True\<rparr>"

lemma obliging_device [simp]: "obliging obliging_device"
  by (simp add: obliging_def obliging_device_def)

lemma trim_tail_ok: "trim_tail dev p offset fs = (Inr len, fs') \<Longrightarrow> trim_tail obliging_device p offset fs = (Inr len, fs')"
  by (auto simp: trim_tail_def obliging_device_def Let_def split: if_splits)

lemma acknowledged_length_ok:
  assumes "acknowledged_length c dev p d s stop fs = (Inr r, fs')"
  shows "acknowledged_length c obliging_device p d s stop fs = (Inr r, fs')"
proof -
  have trimmed: "(case trim_tail obliging_device p offset fs of (Inl e, fs) \<Rightarrow> (Inl e, fs) | (Inr len, fs) \<Rightarrow> (Inr (len, True), fs)) = (Inr r, fs')"
    if trim: "(case trim_tail dev p offset fs of (Inl e, fs) \<Rightarrow> (Inl e, fs) | (Inr len, fs) \<Rightarrow> (Inr (len, True), fs)) = (Inr r, fs')" for offset
  proof (cases "trim_tail dev p offset fs")
    case (Pair answer fs1)
    then obtain len where "answer = Inr len" using trim by (cases answer) simp_all
    then show ?thesis using trim Pair trim_tail_ok [of dev p offset fs len fs1] by simp
  qed
  show ?thesis
  proof (cases stop)
    case HaltComplete
    then show ?thesis using assms by (simp add: acknowledged_length_def)
  next
    case HaltTorn
    then show ?thesis using assms trimmed by (simp add: acknowledged_length_def Let_def)
  next
    case HaltAmbiguous
    then show ?thesis using assms trimmed
      by (cases "resolve_ambiguous_tail c d (sn_offset s) (sn_position s) (length (sn_entries s))") (simp_all add: acknowledged_length_def Let_def)
  qed
qed

lemma open_okE:
  assumes "open_journal c dev p kind fs = (Inr j, fs')"
  obtains fs1 d s stop acked_len repaired where "refuse_ambiguous_base p = Inr ()" "od_opens dev" "od_lock dev = LockFree" "od_spawns dev"
    "fs1 = (if fs p = None then set_file p [] fs else fs)" "d = the (fs1 p)" "length (dk_bytes d) \<le> max_journal_bytes"
    "scan c max_journal_events d = Inr (s, stop)"
    "\<not> (case sn_seal s of Some checkpoint \<Rightarrow> successor_is_complete c fs1 (successor_path p) checkpoint | None \<Rightarrow> False)"
    "acknowledged_length c dev p d s stop fs1 = (Inr (acked_len, repaired), fs')" "j = opened_journal p kind s acked_len repaired c"
proof -
  let ?fs = "if fs p = None then set_file p [] fs else fs"
  let ?d = "the (?fs p)"
  have base: "refuse_ambiguous_base p = Inr ()" using assms by (cases "refuse_ambiguous_base p") (simp_all add: open_journal_def)
  have opens: "od_opens dev" using assms base by (cases "od_opens dev") (simp_all add: open_journal_def)
  have lock: "od_lock dev = LockFree" using assms base opens by (cases "od_lock dev") (simp_all add: open_journal_def Let_def)
  have len: "length (dk_bytes ?d) \<le> max_journal_bytes"
    using assms base opens lock by (cases "length (dk_bytes ?d) \<le> max_journal_bytes") (simp_all add: open_journal_def Let_def)
  obtain s stop where scanned: "scan c max_journal_events ?d = Inr (s, stop)"
  proof (cases "scan c max_journal_events ?d")
    case (Inl e)
    then show ?thesis using assms base opens lock len by (simp add: open_journal_def Let_def)
  next
    case (Inr r)
    then show ?thesis using that by (cases r) simp
  qed
  have free: "\<not> (case sn_seal s of Some checkpoint \<Rightarrow> successor_is_complete c ?fs (successor_path p) checkpoint | None \<Rightarrow> False)"
  proof
    assume "case sn_seal s of Some checkpoint \<Rightarrow> successor_is_complete c ?fs (successor_path p) checkpoint | None \<Rightarrow> False"
    then show False using assms base opens lock len scanned by (simp add: open_journal_def Let_def)
  qed
  have rest: "(case acknowledged_length c dev p ?d s stop ?fs of
      (Inl e, fs) \<Rightarrow> (Inl e, fs)
    | (Inr (acked_len, repaired), fs) \<Rightarrow>
        if \<not> od_spawns dev then (Inl (JournalStorage NotOpened), fs) else (Inr (opened_journal p kind s acked_len repaired c), fs)) = (Inr j, fs')"
    using assms base opens lock len scanned free by (simp add: open_journal_def Let_def)
  obtain answer fs2 where ack: "acknowledged_length c dev p ?d s stop ?fs = (answer, fs2)" by fastforce
  show ?thesis
  proof (cases answer)
    case (Inl e)
    then show ?thesis using rest ack by simp
  next
    case (Inr r)
    obtain acked_len repaired where r: "r = (acked_len, repaired)" by (cases r)
    have spawns: "od_spawns dev" using rest ack Inr r by (cases "od_spawns dev") simp_all
    show ?thesis
      by (rule that [OF base opens lock spawns refl refl len scanned free]) (use rest ack Inr r spawns in auto)
  qed
qed

lemma open_ok:
  assumes "open_journal c dev p kind fs = (Inr j, fs')"
  shows "open_journal c obliging_device p kind fs = (Inr j, fs')" and "refuse_ambiguous_base p = Inr ()"
    and "length (file_bytes fs p) \<le> max_journal_bytes"
  using assms
proof (atomize (full), elim open_okE)
  fix fs1 d s stop acked_len repaired
  assume o: "refuse_ambiguous_base p = Inr ()" "fs1 = (if fs p = None then set_file p [] fs else fs)" "d = the (fs1 p)"
    "length (dk_bytes d) \<le> max_journal_bytes" "scan c max_journal_events d = Inr (s, stop)"
    "\<not> (case sn_seal s of Some checkpoint \<Rightarrow> successor_is_complete c fs1 (successor_path p) checkpoint | None \<Rightarrow> False)"
    "acknowledged_length c dev p d s stop fs1 = (Inr (acked_len, repaired), fs')" "j = opened_journal p kind s acked_len repaired c"
  have "open_journal c obliging_device p kind fs = (Inr j, fs')"
    using o(1,4-6,8) acknowledged_length_ok [OF o(7)] unfolding o(2,3) by (simp add: open_journal_def Let_def obliging_device_def)
  moreover have "length (file_bytes fs p) \<le> max_journal_bytes"
    using o(4) unfolding o(2,3) by (cases "fs p") (simp_all add: file_bytes_def)
  ultimately show "open_journal c obliging_device p kind fs = (Inr j, fs') \<and> refuse_ambiguous_base p = Inr () \<and> length (file_bytes fs p) \<le> max_journal_bytes"
    using o(1) by simp
qed

lemma open_elsewhere:
  assumes "open_journal c dev p kind fs = (Inr j, fs')" and "q \<noteq> p"
  shows "fs' q = fs q"
  using assms(1)
proof (rule open_okE)
  fix fs1 d s stop acked_len repaired
  assume o: "fs1 = (if fs p = None then set_file p [] fs else fs)" "acknowledged_length c dev p d s stop fs1 = (Inr (acked_len, repaired), fs')"
  have "fs' q = fs1 q"
    using o(2) assms(2) by (auto simp: acknowledged_length_def trim_tail_def set_file_def Let_def split: halt.splits sum.splits prod.splits if_splits)
  then show ?thesis using assms(2) by (simp add: o(1) set_file_def)
qed

text \<open>
  The lives of a file: it is opened, takes appends and batches, and after a crash, which keeps at least what a returned
  flush covers, it is opened again. \<open>acked\<close> are the events that were acknowledged, in order, and \<open>flight\<close> those of the write whose
  failure poisoned the handle.
\<close>

inductive file_life :: "file_codec \<Rightarrow> path \<Rightarrow> checkpoint_record option \<Rightarrow> bytes \<Rightarrow> effect_event list \<Rightarrow> effect_event list \<Rightarrow> file_journal \<Rightarrow> file_system \<Rightarrow> bool"
  for c p carried first where
  life_opened: "open_journal c dev p kind fs0 = (Inr j, fs) \<Longrightarrow>
     fs0 p = Some \<lparr>dk_bytes = first, dk_fault = None\<rparr> \<or> fs0 p = None \<and> first = [] \<Longrightarrow> file_life c p carried first [] [] j fs"
| life_appended: "file_life c p carried first acked flight j fs \<Longrightarrow> file_append c fate expected_tail ev j fs = (answer, j', fs') \<Longrightarrow>
     file_life c p carried first (acked @ (if is_ok answer then [ev] else [])) (if fj_poisoned j' \<and> \<not> fj_poisoned j then [ev] else flight) j' fs'"
| life_batch: "file_life c p carried first acked flight j fs \<Longrightarrow> append_all c fate new j fs = (answer, j', fs') \<Longrightarrow>
     file_life c p carried first (acked @ (if is_ok answer then new else [])) (if fj_poisoned j' \<and> \<not> fj_poisoned j then new else flight) j' fs'"
| life_crashed: "file_life c p carried first acked flight j fs \<Longrightarrow> fj_disk_len j \<le> n \<Longrightarrow>
     open_journal c dev p kind (set_file p (take n (file_bytes fs p)) fs) = (Inr j', fs') \<Longrightarrow> file_life c p carried first acked [] j' fs'"

text \<open>
  What a crash left of a write in flight: the frames \<open>b\<close> of its first \<open>m\<close> events whole, and of the frame
  \<open>framed\<close> of the next event its first \<open>k\<close> bytes, none when nothing is missing.
\<close>

definition left_in_flight :: "file_codec \<Rightarrow> bytes \<Rightarrow> effect_event list \<Rightarrow> nat \<Rightarrow> bytes \<Rightarrow> bytes \<Rightarrow> nat \<Rightarrow> bytes \<Rightarrow> bool" where
  "left_in_flight c previous flight m b t k framed \<longleftrightarrow>
     m \<le> length flight \<and> chain (journal_frame c) previous (take m flight) = Some (b, t) \<and>
     (if m = length flight then k = 0 \<and> framed = [] else k < length framed \<and> (\<exists>head. journal_frame c (flight ! m) t = Inr (framed, head)))"

text \<open>What an opening makes of a file that a crash left.\<close>

lemma crash_reopens:
  assumes "codec_ok c" and "file_opening c carried first start" and "refuse_ambiguous_base p = Inr ()" and "obliging dev"
    and "journal_holds c p carried first start evs flight j fs" and "fj_disk_len j \<le> n"
    and "crashed = set_file p (take n (file_bytes fs p)) fs"
  shows "\<exists>m b t k framed. left_in_flight c (jp_head (fj_position j)) flight m b t k framed \<and>
    file_bytes crashed p = take (fj_disk_len j) (file_bytes fs p) @ b @ take k framed \<and>
    (if cut_authenticates c k framed t
     then open_journal c dev p kind crashed = (Inl (Corrupt (length evs + m) Framed), crashed)
     else \<exists>j' fs'. open_journal c dev p kind crashed = (Inr j', fs') \<and>
       journal_holds c p carried first start (evs @ take m flight) [] j' fs' \<and> (fj_repaired j' \<longleftrightarrow> k \<noteq> 0))"
  using assms(5)
proof (rule journal_holdsD)
  fix body tail rest last_head q
  assume h: "chain (journal_frame c) (jp_head start) evs = Some (body, tail)" "chain (journal_frame c) tail flight = Some (rest, last_head)" "q \<le> length rest"
    "fs p = Some \<lparr>dk_bytes = first @ body @ take q rest, dk_fault = None\<rparr>"
    "fj_path j = p" "fj_disk_len j = length (first @ body)" "fj_position j = \<lparr>jp_sequence = jp_sequence start + length evs, jp_head = tail\<rparr>"
    "fj_committed j = file_entries c start evs" "fj_carried j = carried" "fj_sealed_by j = None" "length evs + length flight \<le> max_journal_events"
    "length (first @ body @ rest) \<le> max_journal_bytes" "jp_sequence start + length evs + length flight \<le> u64_max" "\<not> fj_poisoned j \<Longrightarrow> flight = []"
  let ?q = "min (n - length (first @ body)) q"
  have left: "crashed p = Some \<lparr>dk_bytes = first @ body @ take ?q rest, dk_fault = None\<rparr>"
    using h(4,6) assms(6) by (simp add: file_bytes_def set_file_def assms(7))
  have kept: "take (fj_disk_len j) (file_bytes fs p) = first @ body" using h(4,6) by (simp add: file_bytes_def)
  have "?q \<le> length rest" using h(3) by simp
  from h(2) this show ?thesis
  proof (rule chain_take)
    assume "?q = length rest"
    then have whole: "crashed p = Some \<lparr>dk_bytes = first @ body @ rest, dk_fault = None\<rparr>" using left by simp
    have all: "chain (journal_frame c) (jp_head start) (evs @ flight) = Some (body @ rest, last_head)" by (rule chain_join [OF h(1,2)])
    let ?j = "opened_journal p kind (file_state c carried first start (evs @ flight) (body @ rest) last_head) (length (first @ body @ rest)) False c"
    have "open_journal c dev p kind crashed = (Inr ?j, crashed)"
      by (rule open_whole [where fs = crashed and p = p, OF assms(1,2,4,3) whole _ all]) (use h(11-13) in \<open>simp_all add: add.assoc\<close>)
    moreover have "journal_holds c p carried first start (evs @ take (length flight) flight) [] ?j crashed"
      unfolding journal_holds_def using all whole h(11-13) by (intro exI [of _ "body @ rest"] exI [of _ last_head] exI [of _ "[]"] exI [of _ 0]) (simp add: add.assoc)
    moreover have "left_in_flight c (jp_head (fj_position j)) flight (length flight) rest last_head 0 []"
      using h(2,7) by (simp add: left_in_flight_def)
    moreover have "file_bytes crashed p = (first @ body) @ rest @ take 0 []" using whole by (simp add: file_bytes_def)
    moreover have "\<not> cut_authenticates c 0 [] last_head" by (simp add: cut_authenticates_def length_bytes_def)
    moreover have "\<not> fj_repaired ?j" by simp
    ultimately show ?thesis unfolding kept
      by (intro exI [of _ "length flight"] exI [of _ rest] exI [of _ last_head] exI [of _ 0] exI [of _ "[]"]) auto
  next
    fix i b t framed head k
    assume c: "i < length flight" "chain (journal_frame c) tail (take i flight) = Some (b, t)" "journal_frame c (flight ! i) t = Inr (framed, head)"
      "k < length framed" "take ?q rest = b @ take k framed" "?q = length b + k"
    have cut: "crashed p = Some \<lparr>dk_bytes = first @ (body @ b) @ take k framed, dk_fault = None\<rparr>" using left c(5) by simp
    have all: "chain (journal_frame c) (jp_head start) (evs @ take i flight) = Some (body @ b, t)" by (rule chain_join [OF h(1) c(2)])
    have few: "length (first @ (body @ b) @ take k framed) \<le> max_journal_bytes" "length (evs @ take i flight) < max_journal_events"
        "jp_sequence start + length (evs @ take i flight) \<le> u64_max"
      using h(11-13) c(1,4-6) \<open>?q \<le> length rest\<close> by simp_all
    have m: "length (evs @ take i flight) = length evs + i" using c(1) by simp
    let ?j = "opened_journal p kind (file_state c carried first start (evs @ take i flight) (body @ b) t) (length (first @ body @ b)) (k \<noteq> 0) c"
    let ?fs' = "if k = 0 then crashed else set_file p (first @ body @ b) crashed"
    have opened: "open_journal c dev p kind crashed = (if cut_authenticates c k framed t then (Inl (Corrupt (length evs + i) Framed), crashed) else (Inr ?j, ?fs'))"
      using open_cut [where kind = kind and fs = crashed and p = p, OF assms(1,2,4,3) cut few(1) all c(3,4) few(2,3)] unfolding m by simp
    have "?fs' p = Some \<lparr>dk_bytes = first @ body @ b, dk_fault = None\<rparr>" using cut by simp
    then have again: "journal_holds c p carried first start (evs @ take i flight) [] ?j ?fs'"
      unfolding journal_holds_def using all few by (intro exI [of _ "body @ b"] exI [of _ t] exI [of _ "[]"] exI [of _ 0]) simp
    have "left_in_flight c (jp_head (fj_position j)) flight i b t k framed"
      using c(1-4) h(7) by (auto simp: left_in_flight_def)
    moreover have "file_bytes crashed p = (first @ body) @ b @ take k framed" using cut by (simp add: file_bytes_def)
    moreover have "fj_repaired ?j \<longleftrightarrow> k \<noteq> 0" by simp
    ultimately show ?thesis unfolding kept opened
      using again by (intro exI [of _ i] exI [of _ b] exI [of _ t] exI [of _ k] exI [of _ framed]) auto
  qed
qed

lemma file_opening_sequence: "file_opening c carried first start \<Longrightarrow> jp_sequence start \<le> u64_max"
  by (auto simp: file_opening_def genesis_position_def split: option.splits)

lemma opened_holds:
  assumes "codec_ok c" and "file_opening c carried first start" and "open_journal c dev p kind fs0 = (Inr j, fs)"
    and "fs0 p = Some \<lparr>dk_bytes = first, dk_fault = None\<rparr> \<or> fs0 p = None \<and> first = []"
  shows "journal_holds c p carried first start [] [] j fs"
proof -
  let ?fs = "if fs0 p = None then set_file p [] fs0 else fs0"
  have held: "?fs p = Some \<lparr>dk_bytes = first @ [], dk_fault = None\<rparr>" using assms(4) by (auto simp: set_file_def)
  have len: "length (first @ []) \<le> max_journal_bytes" using open_ok(3) [OF assms(3)] assms(4) by (auto simp: file_bytes_def)
  have again: "(if ?fs p = None then set_file p [] ?fs else ?fs) = ?fs" by (simp add: set_file_def)
  have same: "open_journal c obliging_device p kind ?fs = open_journal c obliging_device p kind fs0"
    unfolding open_journal_def open_ok(2) [OF assms(3)] sum.case again by (simp only: obliging_device_def open_device.simps simp_thms if_False)
  have "open_journal c obliging_device p kind ?fs =
      (Inr (opened_journal p kind (file_state c carried first start [] [] (jp_head start)) (length (first @ [])) False c), ?fs)"
    by (rule open_whole [where fs = ?fs and p = p, OF assms(1,2) _ open_ok(2) [OF assms(3)] held len])
       (use file_opening_sequence [OF assms(2)] in simp_all)
  then have "j = opened_journal p kind (file_state c carried first start [] [] (jp_head start)) (length (first @ [])) False c" "fs = ?fs"
    using open_ok(1) [OF assms(3)] same by simp_all
  then show ?thesis
    unfolding journal_holds_def using held len file_opening_sequence [OF assms(2)]
    by (intro exI [of _ "[]"] exI [of _ "jp_head start"] exI [of _ 0]) simp
qed

lemma life_base: "file_life c p carried first acked flight j fs \<Longrightarrow> refuse_ambiguous_base p = Inr ()"
  by (induction rule: file_life.induct) (simp_all add: open_ok(2))

lemma life_holds:
  assumes "codec_ok c" and "file_opening c carried first start" and "file_life c p carried first acked flight j fs"
  shows "\<exists>evs. journal_holds c p carried first start evs flight j fs \<and> subseq acked evs"
  using assms(3)
proof (induction rule: file_life.induct)
  case (life_opened dev kind fs0 j fs)
  then show ?case using opened_holds [OF assms(1,2)] by blast
next
  case (life_appended acked flight j fs fate expected_tail ev answer j' fs')
  then obtain evs where evs: "journal_holds c p carried first start evs flight j fs" "subseq acked evs" by blast
  show ?case using append_keeps [OF evs(1) life_appended.hyps(2)] evs(2) by (intro exI conjI) (assumption, simp add: list_emb_append_mono)
next
  case (life_batch acked flight j fs fate new answer j' fs')
  then obtain evs where evs: "journal_holds c p carried first start evs flight j fs" "subseq acked evs" by blast
  show ?case using batch_keeps [OF evs(1) life_batch.hyps(2)] evs(2) by (intro exI conjI) (assumption, simp add: list_emb_append_mono)
next
  case (life_crashed acked flight j fs n dev kind j' fs')
  then obtain evs where evs: "journal_holds c p carried first start evs flight j fs" "subseq acked evs" by blast
  note opened = open_ok(1) [OF life_crashed.hyps(3)]
  obtain m where "journal_holds c p carried first start (evs @ take m flight) [] j' fs'"
    using crash_reopens [where kind = kind, OF assms(1,2) life_base [OF life_crashed.hyps(1)] obliging_device evs(1) life_crashed.hyps(2) refl] opened
    by (auto split: if_splits)
  then show ?case using evs(2) by (blast intro: subseq_order.trans subseq_rev_drop_many list_emb_append2 list_emb_prefix)
qed

text \<open>
  C5: What a file journal acknowledged survives. After any run of appends and batches, failing writes and
  crashes, the events in memory contain every acknowledged event in order. When the process crashes again,
  keeping of the file at least what returned flushes cover, the file holds the frames of the events in
  memory, then of the write in flight the frames of its first \<open>m\<close> events and a cut of the next one.
  Opening it, where the system refuses none of the calls, gives back exactly the events in memory, at their positions, and those \<open>m\<close>, says whether it
  repaired a cut, and leaves their frames in the file. There is one exception, which the code decides so: a
  cut whose own bytes hold a payload and a head that authenticate is refused as corrupt at its index, and
  the file is left as it is. With nothing in flight the reopened journal is the same.
\<close>

theorem file_journal_durable:
  assumes "codec_ok c" and "file_opening c carried first start" and "file_life c p carried first acked flight j fs"
    and "fj_disk_len j \<le> n" and "crashed = set_file p (take n (file_bytes fs p)) fs" and "obliging dev"
  shows "subseq acked (map je_event (fj_committed j)) \<and>
    (\<exists>m b t k framed. left_in_flight c (jp_head (fj_position j)) flight m b t k framed \<and>
      file_bytes crashed p = take (fj_disk_len j) (file_bytes fs p) @ b @ take k framed \<and>
      (if cut_authenticates c k framed t
       then open_journal c dev p kind crashed = (Inl (Corrupt (length (fj_committed j) + m) Framed), crashed)
       else \<exists>j' fs'. open_journal c dev p kind crashed = (Inr j', fs') \<and>
        map je_event (fj_committed j') = map je_event (fj_committed j) @ take m flight \<and>
        take (length (fj_committed j)) (fj_committed j') = fj_committed j \<and>
        file_bytes fs' p = take (fj_disk_len j) (file_bytes fs p) @ b \<and> (fj_repaired j' \<longleftrightarrow> k \<noteq> 0) \<and>
        (flight = [] \<longrightarrow> fj_committed j' = fj_committed j \<and> fj_position j' = fj_position j \<and> fj_disk_len j' = fj_disk_len j)))"
proof -
  obtain evs where evs: "journal_holds c p carried first start evs flight j fs" "subseq acked evs"
    using life_holds [OF assms(1-3)] by blast
  have committed: "fj_committed j = file_entries c start evs" "map je_event (file_entries c start evs) = evs"
    using evs(1) by (auto elim!: journal_holdsD intro: file_entries_events)
  have kept: "map je_event (fj_committed j') = evs @ take m flight \<and> take (length evs) (fj_committed j') = fj_committed j \<and>
      file_bytes fs' p = take (fj_disk_len j) (file_bytes fs p) @ b \<and>
      (flight = [] \<longrightarrow> fj_committed j' = fj_committed j \<and> fj_position j' = fj_position j \<and> fj_disk_len j' = fj_disk_len j)"
    if again: "journal_holds c p carried first start (evs @ take m flight) [] j' fs'"
      and whole: "chain (journal_frame c) (jp_head (fj_position j)) (take m flight) = Some (b, t)" for m j' fs' b t
  proof -
    obtain body tail rest q where h: "chain (journal_frame c) (jp_head start) evs = Some (body, tail)" "fj_position j = \<lparr>jp_sequence = jp_sequence start + length evs, jp_head = tail\<rparr>"
        "fj_disk_len j = length (first @ body)" "fj_committed j = file_entries c start evs" "fs p = Some \<lparr>dk_bytes = first @ body @ take q rest, dk_fault = None\<rparr>"
      using evs(1) by (elim journal_holdsD) (rule that; assumption)
    obtain body' tail' q' where h': "chain (journal_frame c) (jp_head start) (evs @ take m flight) = Some (body', tail')"
        "fj_position j' = \<lparr>jp_sequence = jp_sequence start + length (evs @ take m flight), jp_head = tail'\<rparr>"
        "fj_disk_len j' = length (first @ body')" "fj_committed j' = file_entries c start (evs @ take m flight)" "fs' p = Some \<lparr>dk_bytes = first @ body', dk_fault = None\<rparr>"
      using again by (auto elim!: journal_holdsD)
    have "body' = body @ b" using chain_join [OF h(1), of "take m flight" b t] whole h(2) h'(1) by simp
    then show ?thesis
      using h h' file_entries_events [OF h'(1)] file_entries_append [OF h(1), of "take m flight"] file_entries_length [OF h(1)] by (auto simp: file_bytes_def)
  qed
  have same: "map je_event (fj_committed j) = evs" using committed by simp
  then have len: "length (fj_committed j) = length evs" by auto
  obtain m b t k framed where r: "left_in_flight c (jp_head (fj_position j)) flight m b t k framed"
      "file_bytes crashed p = take (fj_disk_len j) (file_bytes fs p) @ b @ take k framed"
      "if cut_authenticates c k framed t
       then open_journal c dev p kind crashed = (Inl (Corrupt (length evs + m) Framed), crashed)
       else \<exists>j' fs'. open_journal c dev p kind crashed = (Inr j', fs') \<and>
         journal_holds c p carried first start (evs @ take m flight) [] j' fs' \<and> (fj_repaired j' \<longleftrightarrow> k \<noteq> 0)"
    using crash_reopens [where kind = kind, OF assms(1,2) life_base [OF assms(3)] assms(6) evs(1) assms(4,5)] by blast
  have whole: "chain (journal_frame c) (jp_head (fj_position j)) (take m flight) = Some (b, t)" using r(1) by (simp add: left_in_flight_def)
  show ?thesis unfolding same len
  proof (intro conjI exI)
    show "subseq acked evs" by (rule evs(2))
    show "left_in_flight c (jp_head (fj_position j)) flight m b t k framed" "file_bytes crashed p = take (fj_disk_len j) (file_bytes fs p) @ b @ take k framed"
      by (fact r)+
    show "if cut_authenticates c k framed t
       then open_journal c dev p kind crashed = (Inl (Corrupt (length evs + m) Framed), crashed)
       else \<exists>j' fs'. open_journal c dev p kind crashed = (Inr j', fs') \<and>
        map je_event (fj_committed j') = evs @ take m flight \<and> take (length evs) (fj_committed j') = fj_committed j \<and>
        file_bytes fs' p = take (fj_disk_len j) (file_bytes fs p) @ b \<and> (fj_repaired j' \<longleftrightarrow> k \<noteq> 0) \<and>
        (flight = [] \<longrightarrow> fj_committed j' = fj_committed j \<and> fj_position j' = fj_position j \<and> fj_disk_len j' = fj_disk_len j)"
    proof (cases "cut_authenticates c k framed t")
      case False
      then obtain j' fs' where o: "open_journal c dev p kind crashed = (Inr j', fs')" "journal_holds c p carried first start (evs @ take m flight) [] j' fs'"
          "fj_repaired j' \<longleftrightarrow> k \<noteq> 0" using r(3) by auto
      show ?thesis using False o(1,3) kept [OF o(2) whole] by auto
    qed (use r(3) in simp)
  qed
qed

section \<open>Sealed files\<close>

definition sealed_state :: "file_codec \<Rightarrow> checkpoint_record option \<Rightarrow> bytes \<Rightarrow> journal_position \<Rightarrow> effect_event list \<Rightarrow> bytes \<Rightarrow> bytes \<Rightarrow> checkpoint_record \<Rightarrow> bytes \<Rightarrow> bytes \<Rightarrow> scan_state" where
  "sealed_state c carried first start evs body tail cp sealed head =
     (let s = file_state c carried first start evs body tail in
      s\<lparr>sn_offset := sn_offset s + length sealed, sn_index := sn_index s + 1,
        sn_position := \<lparr>jp_sequence = jp_sequence (cn_predecessor cp) + 1, jp_head = head\<rparr>, sn_seal := Some cp\<rparr>)"

lemma sealed_state_simps [simp]:
  "sn_entries (sealed_state c carried first start evs body tail cp sealed head) = file_entries c start evs"
  "sn_carried (sealed_state c carried first start evs body tail cp sealed head) = carried"
  "sn_seal (sealed_state c carried first start evs body tail cp sealed head) = Some cp"
  "sn_position (sealed_state c carried first start evs body tail cp sealed head) = \<lparr>jp_sequence = jp_sequence (cn_predecessor cp) + 1, jp_head = head\<rparr>"
  "sn_offset (sealed_state c carried first start evs body tail cp sealed head) = length first + length body + length sealed"
  "sn_index (sealed_state c carried first start evs body tail cp sealed head) = (if carried = None then 0 else 1) + length evs + 1"
  by (simp_all add: sealed_state_def Let_def) (simp add: file_state_def scanned_events_def opening_state_def)

text \<open>A file of at least one frame, sealed: its chain, the seal frame and the seal.\<close>

definition file_sealed ::
  "file_codec \<Rightarrow> checkpoint_record option \<Rightarrow> bytes \<Rightarrow> journal_position \<Rightarrow> effect_event list \<Rightarrow> bytes \<Rightarrow> bytes \<Rightarrow> checkpoint_record \<Rightarrow> bytes \<Rightarrow> bytes \<Rightarrow> bool" where
  "file_sealed c carried first start evs body tail cp sealed head \<longleftrightarrow>
     file_opening c carried first start \<and> chain (journal_frame c) (jp_head start) evs = Some (body, tail) \<and>
     (\<exists>payload. to_payload c cp = Inr payload \<and> seal_frame c payload (jp_head (cn_predecessor cp)) = Inr (sealed, head)) \<and>
     jp_sequence (cn_predecessor cp) < u64_max \<and> length evs < max_journal_events \<and> jp_sequence start + length evs \<le> u64_max"

lemma scan_sealed_file:
  assumes "codec_ok c" and "file_sealed c carried first start evs body tail cp sealed head" and "dk_fault d = None"
    and "dk_bytes d = first @ body @ sealed @ rest" and "evs \<noteq> [] \<or> carried \<noteq> None"
  shows "scan c max_journal_events d = scan_loop c max_journal_events d (sealed_state c carried first start evs body tail cp sealed head)"
proof -
  obtain payload where p: "to_payload c cp = Inr payload" "seal_frame c payload (jp_head (cn_predecessor cp)) = Inr (sealed, head)"
    using assms(2) unfolding file_sealed_def by blast
  have s: "file_opening c carried first start" "chain (journal_frame c) (jp_head start) evs = Some (body, tail)"
      "jp_sequence (cn_predecessor cp) < u64_max" "length evs < max_journal_events" "jp_sequence start + length evs \<le> u64_max"
    using assms(2) unfolding file_sealed_def by simp_all
  let ?s = "file_state c carried first start evs body tail"
  have index: "sn_index ?s \<noteq> 0" using assms(5) by (auto simp: file_state_def scanned_events_def opening_state_def)
  have one: "scan_one c \<lparr>sf_payload = payload, sf_head = head, sf_length = length payload\<rparr> ?s =
      Inr (sealed_state c carried first start evs body tail cp sealed head)"
    unfolding scan_one_seal [OF assms(1) p file_state_simps(3) s(3)] using index by (simp add: sealed_state_def Let_def)
  have "scan c max_journal_events d = scan_loop c max_journal_events d ?s"
    by (rule scan_file [OF assms(1) s(1) assms(3) s(2) assms(4) _ s(5)]) (use s(4) in simp)
  also have "\<dots> = (case scan_one c \<lparr>sf_payload = payload, sf_head = head, sf_length = length payload\<rparr> ?s of
      Inl e \<Rightarrow> Inl e | Inr s' \<Rightarrow> scan_loop c max_journal_events d s')"
    by (rule scan_seal_frame [OF assms(1) p assms(3), of "first @ body"])
       (use assms(4) s(4) max_journal_events_facts in \<open>simp_all add: file_entries_length [OF s(2)]\<close>)
  finally show ?thesis by (simp add: one)
qed

lemma scan_sealed_end:
  assumes "codec_ok c" and "file_sealed c carried first start evs body tail cp sealed head" and "dk_fault d = None"
    and "dk_bytes d = first @ body @ sealed" and "evs \<noteq> [] \<or> carried \<noteq> None"
  shows "scan c max_journal_events d = Inr (sealed_state c carried first start evs body tail cp sealed head, HaltComplete)"
  by (subst scan_sealed_file [OF assms(1-3) _ assms(5), of "[]"], simp add: assms(4), subst scan_loop.simps,
      simp add: scan_end [OF assms(3)] assms(4))

text \<open>An event behind a seal: the scan refuses the file.\<close>

lemma scan_behind_seal:
  assumes "codec_ok c" and "file_sealed c carried first start evs body tail cp sealed head" and "dk_fault d = None"
    and "dk_bytes d = first @ body @ sealed @ framed" and "evs \<noteq> [] \<or> carried \<noteq> None" and "journal_frame c ev previous = Inr (framed, new_head)"
  shows "scan c max_journal_events d = Inl (Corrupt ((if carried = None then 0 else 1) + length evs + 1) SecondSeal)"
proof -
  let ?s = "sealed_state c carried first start evs body tail cp sealed head"
  obtain b where b: "fc_event c ev = Inr b" "is_possible_length (length b) max_frame_bytes" "new_head = chain_over_bytes (fc_hash c) previous b"
      "framed = encode_frame (length b) b new_head"
    using assms(6) unfolding journal_frame_ok by blast
  have hlen: "length new_head = head_bytes" using b(3) by (simp add: head_length [OF assms(1)])
  have s: "chain (journal_frame c) (jp_head start) evs = Some (body, tail)" "length evs < max_journal_events"
    using assms(2) unfolding file_sealed_def by simp_all
  have "scan_next_frame d (length (first @ body @ sealed)) (length (sn_entries ?s)) max_journal_events (sn_index ?s) =
      Inr (Inr \<lparr>sf_payload = b, sf_head = new_head, sf_length = length b\<rparr>)"
    by (rule scan_whole_frame [OF assms(3) _ b(2) hlen _ max_journal_events_facts(2), where rest = "[]"])
       (use assms(4) b(4) s(2) in \<open>simp_all add: file_entries_length [OF s(1)]\<close>)
  moreover have "scan_one c \<lparr>sf_payload = b, sf_head = new_head, sf_length = length b\<rparr> ?s = Inl (Corrupt (sn_index ?s) SecondSeal)"
    by (simp add: scan_one_def from_payload_event [OF assms(1) b(1)])
  ultimately show ?thesis
    unfolding scan_sealed_file [OF assms(1-5)] by (subst scan_loop.simps) (simp add: add.assoc)
qed

text \<open>What a seal writes.\<close>

definition seal_checkpoint :: "file_journal \<Rightarrow> checkpoint_record" where
  "seal_checkpoint j =
     \<lparr>cn_generation = sat_add_u64 (generation_of (fj_path j)) 1, cn_predecessor = fj_position j,
      cn_settled = fst (carried_of (file_recover j)), cn_unresolved = snd (carried_of (file_recover j))\<rparr>"

definition seal_written :: "file_codec \<Rightarrow> file_system \<Rightarrow> file_journal \<Rightarrow> bytes \<Rightarrow> bytes \<Rightarrow> bool" where
  "seal_written c fs j framed head \<longleftrightarrow> fj_continuing j \<and> fj_sealed_by j = None \<and> fence fs j = Inr () \<and> jp_sequence (fj_position j) < u64_max \<and>
     (\<exists>payload. to_payload c (seal_checkpoint j) = Inr payload \<and> seal_frame c payload (jp_head (fj_position j)) = Inr (framed, head))"

lemma continuation_new_ok:
  "continuation_new generation predecessor settled unresolved = Inr cp \<Longrightarrow>
    cp = \<lparr>cn_generation = generation, cn_predecessor = predecessor, cn_settled = settled, cn_unresolved = unresolved\<rparr>"
  by (auto simp: continuation_new_def split: if_splits)

text \<open>A seal whose successor cannot be written: the seal frame is in the file and the handle is poisoned.\<close>

lemma framed_checkpoint_known: "framed_checkpoint c fs j = Inl e \<Longrightarrow> e \<noteq> OutcomeUnknownIo cause"
  by (cases "carried_of (file_recover j)")
     (auto simp: framed_checkpoint_def frame_payload_def continuation_new_def to_payload_def fence_def refuse_sealed_def
       seal_frame_def frame_record_def Let_def rbind_def split: sum.splits if_splits option.splits)

lemma framed_checkpoint_ok:
  assumes "framed_checkpoint c fs j = Inr (framed, head)"
  shows "fence fs j = Inr () \<and> jp_sequence (fj_position j) < u64_max \<and>
    (\<exists>payload. to_payload c (seal_checkpoint j) = Inr payload \<and> seal_frame c payload (jp_head (fj_position j)) = Inr (framed, head))"
proof -
  obtain settled unresolved where carried: "carried_of (file_recover j) = (settled, unresolved)" by fastforce
  obtain cp payload where cp: "continuation_new (sat_add_u64 (generation_of (fj_path j)) 1) (fj_position j) settled unresolved = (Inr cp :: file_error + _)"
      "to_payload c cp = Inr payload" "fence fs j = Inr ()" "jp_sequence (fj_position j) < u64_max"
      "seal_frame c payload (jp_head (fj_position j)) = Inr (framed, head)"
    using assms by (auto simp: framed_checkpoint_def frame_payload_def carried split: if_splits)
  have "cp = seal_checkpoint j" using continuation_new_ok [OF cp(1)] carried by (simp add: seal_checkpoint_def)
  then show ?thesis using cp(2-5) by auto
qed

lemma successor_refused:
  assumes "continue_as_file c SuccessorRefused dev j fs = (Inl (OutcomeUnknownIo cause), j', fs')"
  obtains framed head where "seal_written c fs j framed head" "fs' = set_file (fj_path j) (file_bytes fs (fj_path j) @ framed) fs"
proof -
  have "fj_continuing j" "fj_sealed_by j = None" using assms by (auto simp: continue_as_file_def split: if_splits option.splits)
  moreover obtain framed head where f: "framed_checkpoint c fs j = Inr (framed, head)"
    using assms framed_checkpoint_known calculation
    by (cases "framed_checkpoint c fs j") (auto simp: continue_as_file_def)
  moreover have "length (file_bytes fs (fj_path j)) = fj_disk_len j" using framed_checkpoint_ok [OF f] fence_ok by blast
  ultimately have "seal_written c fs j framed head" "fs' = set_file (fj_path j) (file_bytes fs (fj_path j) @ framed) fs"
    using assms framed_checkpoint_ok [OF f]
    by (auto simp: seal_written_def continue_as_file_def seal_on_owner_def paused_at_def Let_def split: if_splits)
  then show ?thesis by (rule that)
qed

lemma open_sealed:
  assumes "codec_ok c" and "file_sealed c carried first start evs body tail cp sealed head" and "obliging dev" and "refuse_ambiguous_base p = Inr ()"
    and "fs p = Some \<lparr>dk_bytes = first @ body @ sealed, dk_fault = None\<rparr>" and "length (first @ body @ sealed) \<le> max_journal_bytes"
    and "evs \<noteq> [] \<or> carried \<noteq> None" and "fs (successor_path p) = None"
  shows "open_journal c dev p kind fs =
    (Inr (opened_journal p kind (sealed_state c carried first start evs body tail cp sealed head) (length (first @ body @ sealed)) False c), fs)"
proof -
  have "scan c max_journal_events \<lparr>dk_bytes = first @ body @ sealed, dk_fault = None\<rparr> =
      Inr (sealed_state c carried first start evs body tail cp sealed head, HaltComplete)"
    by (rule scan_sealed_end [OF assms(1,2) _ _ assms(7)]) simp_all
  moreover have "\<not> successor_is_complete c fs (successor_path p) cp" using assms(8) by (simp add: successor_is_complete_def)
  ultimately show ?thesis using assms(3-6) by (simp add: open_journal_def obliging_def acknowledged_length_def Let_def add.assoc)
qed

lemma open_behind_seal:
  assumes "codec_ok c" and "file_sealed c carried first start evs body tail cp sealed head" and "obliging dev" and "refuse_ambiguous_base p = Inr ()"
    and "fs p = Some \<lparr>dk_bytes = first @ body @ sealed @ framed, dk_fault = None\<rparr>" and "length (first @ body @ sealed @ framed) \<le> max_journal_bytes"
    and "evs \<noteq> [] \<or> carried \<noteq> None" and "journal_frame c ev previous = Inr (framed, new_head)"
  shows "open_journal c dev p kind fs = (Inl (Corrupt ((if carried = None then 0 else 1) + length evs + 1) SecondSeal), fs)"
proof -
  have "scan c max_journal_events \<lparr>dk_bytes = first @ body @ sealed @ framed, dk_fault = None\<rparr> =
      Inl (Corrupt ((if carried = None then 0 else 1) + length evs + 1) SecondSeal)"
    by (rule scan_behind_seal [OF assms(1,2) _ _ assms(7,8)]) simp_all
  then show ?thesis using assms(3-6) by (simp add: open_journal_def obliging_def Let_def)
qed

text \<open>A seal over a file that holds its events is a sealed file.\<close>

lemma seal_over_file:
  assumes "file_opening c carried first start" and "journal_holds c p carried first start evs flight j fs" and "seal_written c fs j sealed head"
    and "length evs < max_journal_events"
  obtains body tail where "file_sealed c carried first start evs body tail (seal_checkpoint j) sealed head"
    "fs p = Some \<lparr>dk_bytes = first @ body, dk_fault = None\<rparr>" "fj_committed j = file_entries c start evs" "fj_path j = p"
  using assms(2)
proof (rule journal_holdsD)
  fix body tail rest last_head q
  assume h: "chain (journal_frame c) (jp_head start) evs = Some (body, tail)" "chain (journal_frame c) tail flight = Some (rest, last_head)"
    "fs p = Some \<lparr>dk_bytes = first @ body @ take q rest, dk_fault = None\<rparr>" "fj_path j = p" "fj_disk_len j = length (first @ body)"
    "fj_committed j = file_entries c start evs" "jp_sequence start + length evs + length flight \<le> u64_max"
  have f: "fence fs j = Inr ()" "jp_sequence (fj_position j) < u64_max"
      "\<exists>payload. to_payload c (seal_checkpoint j) = Inr payload \<and> seal_frame c payload (jp_head (fj_position j)) = Inr (sealed, head)"
    using assms(3) unfolding seal_written_def by blast+
  have predecessor: "cn_predecessor (seal_checkpoint j) = fj_position j" by (simp add: seal_checkpoint_def)
  have "file_sealed c carried first start evs body tail (seal_checkpoint j) sealed head"
    unfolding file_sealed_def predecessor using assms(1,4) h(1,7) f(2,3) by simp
  moreover have "fs p = Some \<lparr>dk_bytes = first @ body, dk_fault = None\<rparr>"
    using fence_ok [OF f(1)] h(3,4,5) by (auto simp: file_bytes_def min_def split: if_splits)
  ultimately show ?thesis using h(4,6) by (rule_tac that)
qed

text \<open>
  C7: A seal is written into the file and then its successor cannot be created. Reopened, the file holds its events and, its seal left in
  place, goes on acknowledging appends. Behind the first of them every opening refuses the file as corrupt.
\<close>

theorem interrupted_seal_unreadable:
  assumes "codec_ok c" and "file_opening c carried first start" and "file_life c p carried first acked flight j fs"
    and "continue_as_file c SuccessorRefused dev j fs = (Inl (OutcomeUnknownIo cause), j1, fs1)" and "fs (successor_path p) = None"
    and "fj_committed j \<noteq> [] \<or> carried \<noteq> None" and "length (fj_committed j) < max_journal_events" and "length (file_bytes fs1 p) \<le> max_journal_bytes"
    and "obliging dev1"
  shows "\<exists>j2. open_journal c dev1 p kind fs1 = (Inr j2, fs1) \<and> fj_committed j2 = fj_committed j \<and>
    (\<forall>expected_tail ev position framed. prepare_append c fs1 expected_tail ev j2 = Inr (position, framed) \<longrightarrow>
      (\<exists>j3 fs3. file_append c WriteDone expected_tail ev j2 fs1 = (Inr \<lparr>da_position = position, da_promise = ProcessCrash\<rparr>, j3, fs3) \<and>
        (\<forall>dev2 kind2. obliging dev2 \<longrightarrow> (\<exists>index. open_journal c dev2 p kind2 fs3 = (Inl (Corrupt index SecondSeal), fs3)))))"
proof -
  obtain evs where holds: "journal_holds c p carried first start evs flight j fs" using life_holds [OF assms(1-3)] by blast
  then have len: "length (fj_committed j) = length evs" by (auto elim!: journal_holdsD simp: file_entries_length)
  obtain sealed head where w: "seal_written c fs j sealed head" "fs1 = set_file (fj_path j) (file_bytes fs (fj_path j) @ sealed) fs"
    using assms(4) by (rule successor_refused)
  obtain body tail where s: "file_sealed c carried first start evs body tail (seal_checkpoint j) sealed head"
      "fs p = Some \<lparr>dk_bytes = first @ body, dk_fault = None\<rparr>" "fj_committed j = file_entries c start evs" "fj_path j = p"
    using seal_over_file [OF assms(2) holds w(1)] assms(7) len by metis
  have fs1: "fs1 p = Some \<lparr>dk_bytes = first @ body @ sealed, dk_fault = None\<rparr>" "fs1 (successor_path p) = None"
    using w(2) s(2,4) assms(5) by (auto simp: set_file_def file_bytes_def)
  have some: "evs \<noteq> [] \<or> carried \<noteq> None" using assms(6) len by auto
  have short: "length (first @ body @ sealed) \<le> max_journal_bytes" using assms(8) fs1(1) by (simp add: file_bytes_def)
  let ?j = "opened_journal p kind (sealed_state c carried first start evs body tail (seal_checkpoint j) sealed head) (length (first @ body @ sealed)) False c"
  have opened: "open_journal c dev1 p kind fs1 = (Inr ?j, fs1)"
    by (rule open_sealed [where fs = fs1 and p = p, OF assms(1) s(1) assms(9) life_base [OF assms(3)] fs1(1) short some fs1(2)])
  have behind: "\<exists>j3 fs3. file_append c WriteDone expected_tail ev ?j fs1 = (Inr \<lparr>da_position = position, da_promise = ProcessCrash\<rparr>, j3, fs3) \<and>
      (\<forall>dev2 kind2. obliging dev2 \<longrightarrow> (\<exists>index. open_journal c dev2 p kind2 fs3 = (Inl (Corrupt index SecondSeal), fs3)))"
    if prep: "prepare_append c fs1 expected_tail ev ?j = Inr (position, framed)" for expected_tail ev position framed
  proof -
    note ok = prepare_append_ok [OF prep]
    obtain new_head where f: "journal_frame c ev (jp_head (fj_position ?j)) = Inr (framed, new_head)" using ok(6) unfolding event_frame_ok by blast
    let ?fs = "set_file p (first @ body @ sealed @ framed) fs1"
    have at_end: "?fs p = Some \<lparr>dk_bytes = first @ body @ sealed @ framed, dk_fault = None\<rparr>" using fs1(1) by (simp add: set_file_def)
    have fits: "length (first @ body @ sealed @ framed) \<le> max_journal_bytes" using ok(7) by simp
    have "file_append c WriteDone expected_tail ev ?j fs1 =
        (Inr \<lparr>da_position = position, da_promise = ProcessCrash\<rparr>, accept_event ev position (length framed) ?j, ?fs)"
      using prep fs1(1) by (simp add: file_append_def write_and_sync_def file_bytes_def Let_def)
    then show ?thesis
      using open_behind_seal [where fs = ?fs and p = p, OF assms(1) s(1) _ life_base [OF assms(3)] at_end fits some f] by blast
  qed
  show ?thesis using opened behind s(3) by (intro exI [of _ ?j]) simp
qed

section \<open>What a handed-over file forgets\<close>

lemma hold_settled_other: "key \<notin> se_key ` set helds \<Longrightarrow> hold_settled helds ladder key = ladder key"
  by (induction helds arbitrary: ladder) (auto simp: ladder_hold_def split: option.splits)

lemma hold_unresolved_other: "key \<notin> ur_key ` set helds \<Longrightarrow> hold_unresolved helds ladder key = ladder key"
  by (induction helds arbitrary: ladder) (auto simp: ladder_hold_def split: option.splits)

lemma hold_unresolved_at:
  "distinct (map ur_key helds) \<Longrightarrow> u \<in> set helds \<Longrightarrow> rung_of (ur_rung u) = Some rung \<Longrightarrow> hold_unresolved helds ladder (ur_key u) = Some rung"
  by (induction helds arbitrary: ladder) (auto simp: hold_unresolved_other ladder_hold_def)

lemma append_writes:
  assumes "file_append c WriteDone expected_tail ev j fs = (Inr ack, j', fs')"
  obtains position framed where "prepare_append c fs expected_tail ev j = Inr (position, framed)" "j' = accept_event ev position (length framed) j"
    "ack = \<lparr>da_position = position, da_promise = ProcessCrash\<rparr>"
  using assms by (cases "prepare_append c fs expected_tail ev j") (auto simp: file_append_def write_and_sync_def Let_def split: if_splits)

text \<open>
  C8: A generation that was handed an undecided attempt takes its outcome once. Reopened, it holds the attempt at the rung it was
  handed over at: the same outcome is admitted again, and its verification is refused.
\<close>

theorem reopened_generation_regresses:
  assumes "codec_ok c" and "file_opening c (Some cp) first start" and "file_life c p (Some cp) first acked flight j fs"
    and "u \<in> set (cn_unresolved cp)" and "rung_of (ur_rung u) = Some DispatchKind" and "distinct (map ur_key (cn_unresolved cp))"
    and "ur_key u \<notin> se_key ` set (cn_settled cp)"
    and "file_append c WriteDone (fj_position j) (OutcomeObserved (ur_key u) evidence) j fs = (Inr ack, j1, fs1)" and "obliging dev"
  shows "\<exists>j2. open_journal c dev p kind fs1 = (Inr j2, fs1) \<and> fj_committed j2 = fj_committed j1 \<and> fj_position j2 = fj_position j1 \<and>
    fj_ladder j1 (ur_key u) = Some OutcomeKind \<and> fj_ladder j2 (ur_key u) = Some DispatchKind \<and>
    check_append_order (fj_position j2) (fj_position j2) (OutcomeObserved (ur_key u) again) (fj_ladder j2 (ur_key u)) = (Inr () :: file_error + unit) \<and>
    check_append_order (fj_position j1) (fj_position j1) (OutcomeObserved (ur_key u) again) (fj_ladder j1 (ur_key u)) =
      (Inl (OutOfOrder (ur_key u) (Some VerifiedKind) OutcomeKind) :: file_error + unit)"
proof -
  obtain position framed where a: "prepare_append c fs (fj_position j) (OutcomeObserved (ur_key u) evidence) j = Inr (position, framed)"
      "j1 = accept_event (OutcomeObserved (ur_key u) evidence) position (length framed) j"
    using assms(8) by (rule append_writes)
  have live: "\<not> fj_poisoned j1" using fence_ok [OF prepare_append_ok(4) [OF a(1)]] a(2) by simp
  obtain evs flight1 where holds: "journal_holds c p (Some cp) first start evs flight1 j1 fs1"
    using life_holds [OF assms(1,2) life_appended [OF assms(3,8)]] by blast
  from holds obtain body tail where h: "chain (journal_frame c) (jp_head start) evs = Some (body, tail)"
      "fs1 p = Some \<lparr>dk_bytes = first @ body, dk_fault = None\<rparr>" "fj_committed j1 = file_entries c start evs"
      "fj_position j1 = \<lparr>jp_sequence = jp_sequence start + length evs, jp_head = tail\<rparr>"
      "length evs \<le> max_journal_events" "length (first @ body) \<le> max_journal_bytes" "jp_sequence start + length evs \<le> u64_max"
    by (rule journal_holdsD) (use live in \<open>auto\<close>)
  let ?s = "file_state c (Some cp) first start evs body tail"
  let ?j = "opened_journal p kind ?s (length (first @ body)) False c"
  have opened: "open_journal c dev p kind fs1 = (Inr ?j, fs1)"
    by (rule open_whole [where fs = fs1 and p = p, OF assms(1,2,9) life_base [OF assms(3)] h(2,6,1,5,7)])
  have rungs: "fj_ladder j1 (ur_key u) = Some OutcomeKind" "fj_ladder (opened_journal p kind ?s len False c) (ur_key u) = Some DispatchKind" for len
    using a(2) assms(4-7) by (simp_all add: accept_event_def opened_journal_def Let_def hold_settled_other hold_unresolved_at)
  show ?thesis
    by (intro exI [of _ ?j] conjI) (use opened h(3,4) in \<open>simp_all add: rungs check_append_order_def next_allowed_of_def\<close>)
qed

text \<open>
  C38: An attempt the sealed history already walked is refused where it is appended alone, and acknowledged where a batch carries it.
\<close>

theorem batch_skips_walked:
  assumes "fj_ladder j key = None" and "entry \<in> set (fj_folded j)" and "already_walked entry key" and "fence fs j = Inr ()"
    and "journal_frame c (IntentAdmitted key) (jp_head (fj_position j)) = Inr (framed, head)" and "jp_sequence (fj_position j) < u64_max"
    and "length (fj_committed j) < max_journal_events" and "fj_disk_len j + length framed \<le> max_journal_bytes"
  shows "(\<exists>attempt. file_append c fate (fj_position j) (IntentAdmitted key) j fs = (Inl (AttemptAlreadyWalked key attempt), j, fs)) \<and>
    (\<exists>ack j'. append_all c WriteDone [IntentAdmitted key] j fs = (Inr [ack], j', set_file (fj_path j) (file_bytes fs (fj_path j) @ framed) fs) \<and>
      map je_event (fj_committed j') = map je_event (fj_committed j) @ [IntentAdmitted key])"
proof
  note live = fence_ok [OF assms(4)]
  obtain walked where "find (\<lambda>entry. already_walked entry key) (fj_folded j) = Some walked"
    using assms(2,3) by (cases "find (\<lambda>entry. already_walked entry key) (fj_folded j)") (auto simp: find_None_iff)
  then show "\<exists>attempt. file_append c fate (fj_position j) (IntentAdmitted key) j fs = (Inl (AttemptAlreadyWalked key attempt), j, fs)"
    using live assms(1) by (simp add: file_append_def prepare_append_def refuse_sealed_def check_append_order_def next_allowed_of_def refuse_walked_def)
  have bounds: "bound_events (length (fj_committed j)) (Suc 0) = (Inr () :: file_error + unit)" "bound_bytes (sat_add_usize 0 (length framed)) j = Inr ()"
    using assms(7,8) by (simp_all add: bound_events_def bound_bytes_def sat_add_u64_def sat_add_usize_def usize_max_def max_journal_events_def
      max_journal_bytes_def u64_max_def)
  show "\<exists>ack j'. append_all c WriteDone [IntentAdmitted key] j fs = (Inr [ack], j', set_file (fj_path j) (file_bytes fs (fj_path j) @ framed) fs) \<and>
      map je_event (fj_committed j') = map je_event (fj_committed j) @ [IntentAdmitted key]"
    using assms(1,4,5,6) live bounds
    by (simp add: append_all_def next_allowed_of_def event_frame_def write_and_sync_def Let_def)
qed

section \<open>A seal that is written hands the journal over\<close>

lemma seal_done:
  assumes "continue_as_file c SealDone dev j fs = (Inr (Some j'), j1, fs')" and "fj_pause j = None"
  obtains framed head where "seal_written c fs j framed head"
    "open_journal c dev (successor_path (fj_path j)) (ContinuingKind (fj_policy j))
      (set_file (successor_path (fj_path j)) framed (set_file (fj_path j) (file_bytes fs (fj_path j) @ framed) fs)) = (Inr j', fs')"
    "fj_sealed_by j1 = Some (successor_path (fj_path j))"
proof -
  have "fj_continuing j" "fj_sealed_by j = None" using assms(1) by (auto simp: continue_as_file_def split: if_splits option.splits)
  moreover obtain framed head where f: "framed_checkpoint c fs j = Inr (framed, head)"
    using assms(1) calculation by (cases "framed_checkpoint c fs j") (auto simp: continue_as_file_def)
  moreover have "length (file_bytes fs (fj_path j)) = fj_disk_len j" using framed_checkpoint_ok [OF f] fence_ok by blast
  ultimately have "seal_written c fs j framed head"
    "open_journal c dev (successor_path (fj_path j)) (ContinuingKind (fj_policy j))
      (set_file (successor_path (fj_path j)) framed (set_file (fj_path j) (file_bytes fs (fj_path j) @ framed) fs)) = (Inr j', fs')"
    "fj_sealed_by j1 = Some (successor_path (fj_path j))"
    using assms framed_checkpoint_ok [OF f]
    by (auto simp: seal_written_def continue_as_file_def seal_on_owner_def paused_at_def Let_def split: sum.splits prod.splits)
  then show ?thesis by (rule that)
qed

text \<open>The successor's first frame is the seal: the look at it succeeds.\<close>

lemma successor_complete:
  assumes "codec_ok c" and "to_payload c cp = Inr payload" and "seal_frame c payload (jp_head (cn_predecessor cp)) = Inr (framed, head)"
    and "fs q = Some \<lparr>dk_bytes = framed, dk_fault = None\<rparr>"
  shows "successor_is_complete c fs q cp"
proof -
  have f: "is_possible_length (length payload) max_frame_bytes" "head = chain_over_bytes (fc_hash c) (jp_head (cn_predecessor cp)) payload"
      "framed = be_bytes length_bytes (length payload) @ payload @ head"
    using assms(3) unfolding seal_frame_ok encode_frame_def by simp_all
  have hlen: "length head = head_bytes" using f(2) by (simp add: head_length [OF assms(1)])
  have small: "length payload \<le> u32_max" using f(1) by (simp add: is_possible_length_def max_frame_bytes_def u32_max_def)
  let ?d = "\<lparr>dk_bytes = framed, dk_fault = None\<rparr>"
  have lead: "read_prefix ?d 0 = Inr (Full (be_bytes length_bytes (length payload)))"
    using read_prefix_written [of ?d "[]" "length payload" "payload @ head"] f(3) by simp
  have pieces: "read_padded ?d length_bytes (length payload) = Inr payload"
    "read_padded ?d (min (length_bytes + length payload) (length framed)) head_bytes = Inr head"
    using f(3) hlen by (simp_all add: read_padded_def)
  show ?thesis
    unfolding successor_is_complete_def assms(4) option.case lead Let_def
    using f(1,2) small pieces by (simp add: from_to_payload [OF assms(1,2)])
qed

lemma open_superseded:
  assumes "codec_ok c" and "file_sealed c carried first start evs body tail cp sealed head" and "obliging dev" and "refuse_ambiguous_base p = Inr ()"
    and "fs p = Some \<lparr>dk_bytes = first @ body @ sealed, dk_fault = None\<rparr>" and "length (first @ body @ sealed) \<le> max_journal_bytes"
    and "evs \<noteq> [] \<or> carried \<noteq> None" and "successor_is_complete c fs (successor_path p) cp"
  shows "open_journal c dev p kind fs = (Inl (Superseded (successor_path p)), fs)"
proof -
  have "scan c max_journal_events \<lparr>dk_bytes = first @ body @ sealed, dk_fault = None\<rparr> =
      Inr (sealed_state c carried first start evs body tail cp sealed head, HaltComplete)"
    by (rule scan_sealed_end [OF assms(1,2) _ _ assms(7)]) simp_all
  then show ?thesis using assms(3-6,8) by (simp add: open_journal_def obliging_def Let_def)
qed

text \<open>What a seal that is written leaves, whatever the generation holds.\<close>

lemma seal_hands_over:
  assumes "codec_ok c" and "file_opening c carried first start" and "file_life c p carried first acked flight j fs"
    and "continue_as_file c SealDone dev j fs = (Inr (Some j'), j1, fs')" and "fj_pause j = None" and "fs (successor_path p) = None"
  obtains sealed head where "seal_written c fs j sealed head"
    "fs' = set_file (successor_path p) sealed (set_file p (file_bytes fs p @ sealed) fs)" "fs p \<noteq> None" "dk_fault (the (fs p)) = None"
    "fj_committed j' = []" "fj_position j' = \<lparr>jp_sequence = jp_sequence (fj_position j) + 1, jp_head = head\<rparr>" "fj_sealed_by j1 = Some (successor_path p)"
    "file_recover j' = recover_continued (Some (seal_checkpoint j)) []"
    "file_opening c (Some (seal_checkpoint j)) sealed (fj_position j')" "file_life c (successor_path p) (Some (seal_checkpoint j)) sealed [] [] j' fs'"
proof -
  obtain evs where holds: "journal_holds c p carried first start evs flight j fs" using life_holds [OF assms(1-3)] by blast
  then have path: "fj_path j = p" by (auto elim!: journal_holdsD)
  obtain old where old: "fs p = Some \<lparr>dk_bytes = old, dk_fault = None\<rparr>" using holds by (elim journal_holdsD) blast
  obtain sealed head where w: "seal_written c fs j sealed head" "fj_sealed_by j1 = Some (successor_path p)"
      "open_journal c dev (successor_path p) (ContinuingKind (fj_policy j)) (set_file (successor_path p) sealed (set_file p (file_bytes fs p @ sealed) fs)) = (Inr j', fs')"
    using seal_done [OF assms(4,5)] unfolding path by metis
  let ?fs = "set_file (successor_path p) sealed (set_file p (file_bytes fs p @ sealed) fs)"
  have apart: "successor_path p \<noteq> p" using assms(6) old by auto
  have there: "?fs (successor_path p) = Some \<lparr>dk_bytes = sealed, dk_fault = None\<rparr>"
    using assms(6) apart by (simp add: set_file_def)
  obtain payload where p: "to_payload c (seal_checkpoint j) = Inr payload" "seal_frame c payload (jp_head (fj_position j)) = Inr (sealed, head)"
      "jp_sequence (fj_position j) < u64_max"
    using w(1) unfolding seal_written_def by blast
  let ?start = "\<lparr>jp_sequence = jp_sequence (fj_position j) + 1, jp_head = head\<rparr>"
  have opens: "file_opening c (Some (seal_checkpoint j)) sealed ?start" unfolding file_opening_def using p by (simp add: seal_checkpoint_def)
  have life: "file_life c (successor_path p) (Some (seal_checkpoint j)) sealed [] [] j' fs'"
    by (rule life_opened [OF w(3)]) (use there in simp)
  have short: "length (sealed @ []) \<le> max_journal_bytes" using open_ok(3) [OF w(3)] there by (simp add: file_bytes_def)
  have "open_journal c obliging_device (successor_path p) (ContinuingKind (fj_policy j)) ?fs =
      (Inr (opened_journal (successor_path p) (ContinuingKind (fj_policy j)) (file_state c (Some (seal_checkpoint j)) sealed ?start [] [] head)
        (length (sealed @ [])) False c), ?fs)"
    by (rule open_whole [where fs = ?fs and p = "successor_path p", OF assms(1) opens obliging_device open_ok(2) [OF w(3)] _ short]) (use there p(3) in simp_all)
  then have next_one: "fs' = ?fs" "fj_carried j' = Some (seal_checkpoint j)" "fj_committed j' = []" "fj_position j' = ?start"
    using open_ok(1) [OF w(3)] by auto
  show ?thesis
    by (rule that [OF w(1) next_one(1) _ _ next_one(3,4) w(2) _ _ life]) (use old opens next_one in \<open>simp_all add: file_recover_def\<close>)
qed

text \<open>
  The openings of the old path that do not meet the successor: an empty generation, whose seal reads as
  carried, a full one, whose seal is one frame too many, and a file its seal took over the byte bound.
\<close>

theorem empty_seal_two_owners:
  assumes "codec_ok c" and "file_opening c None [] start" and "file_life c p None [] acked flight j fs"
    and "continue_as_file c SealDone dev j fs = (Inr (Some j'), j1, fs')" and "fj_pause j = None" and "fj_committed j = []"
    and "fs (successor_path p) = None" and "obliging dev1"
  shows "\<exists>old. open_journal c dev1 p kind fs' = (Inr old, fs') \<and> fj_position old = fj_position j' \<and> file_recover old = file_recover j'"
proof -
  obtain evs where holds: "journal_holds c p None [] start evs flight j fs" using life_holds [OF assms(1-3)] by blast
  then have none: "evs = []" and path: "fj_path j = p" using assms(6) by (auto elim!: journal_holdsD dest!: file_entries_length)
  obtain sealed head where w: "seal_written c fs j sealed head"
      "open_journal c dev (successor_path p) (ContinuingKind (fj_policy j)) (set_file (successor_path p) sealed (set_file p (file_bytes fs p @ sealed) fs)) = (Inr j', fs')"
    using seal_done [OF assms(4,5)] unfolding path by metis
  obtain body tail where s: "file_sealed c None [] start evs body tail (seal_checkpoint j) sealed head" "fs p = Some \<lparr>dk_bytes = [] @ body, dk_fault = None\<rparr>"
    using seal_over_file [OF assms(2) holds w(1)] none max_journal_events_facts by (metis list.size(3))
  have body: "body = []" using s(1) none by (simp add: file_sealed_def)
  have apart: "successor_path p \<noteq> p" using assms(7) s(2) by auto
  let ?fs = "set_file (successor_path p) sealed (set_file p (file_bytes fs p @ sealed) fs)"
  have files: "?fs p = Some \<lparr>dk_bytes = sealed @ [], dk_fault = None\<rparr>" "?fs (successor_path p) = Some \<lparr>dk_bytes = sealed @ [], dk_fault = None\<rparr>"
    using s(2) body assms(7) apart by (auto simp: set_file_def file_bytes_def)
  obtain payload where p: "to_payload c (seal_checkpoint j) = Inr payload" "seal_frame c payload (jp_head (fj_position j)) = Inr (sealed, head)"
      "jp_sequence (fj_position j) < u64_max"
    using w(1) unfolding seal_written_def by blast
  let ?start = "\<lparr>jp_sequence = jp_sequence (fj_position j) + 1, jp_head = head\<rparr>"
  let ?s = "file_state c (Some (seal_checkpoint j)) sealed ?start [] [] head"
  have opens: "file_opening c (Some (seal_checkpoint j)) sealed ?start" unfolding file_opening_def using p by (simp add: seal_checkpoint_def)
  have short: "length (sealed @ []) \<le> max_journal_bytes" using open_ok(3) [OF w(2)] files(2) by (simp add: file_bytes_def)
  have both: "open_journal c device q kind' ?fs = (Inr (opened_journal q kind' ?s (length (sealed @ [])) False c), ?fs)"
    if device: "obliging device" and base: "refuse_ambiguous_base q = Inr ()" and there: "?fs q = Some \<lparr>dk_bytes = sealed @ [], dk_fault = None\<rparr>" for device q kind'
    by (rule open_whole [where fs = ?fs and p = q, OF assms(1) opens device base there short]) (use p(3) in simp_all)
  have "fs' = ?fs" "fj_position j' = ?start" "file_recover j' = recover_continued (Some (seal_checkpoint j)) []"
    using both [OF obliging_device open_ok(2) [OF w(2)] files(2)] open_ok(1) [OF w(2)] by (auto simp: file_recover_def)
  moreover note both [OF assms(8) life_base [OF assms(3)] files(1)]
  ultimately show ?thesis
    by (intro exI [of _ "opened_journal p kind ?s (length (sealed @ [])) False c"]) (simp add: file_recover_def)
qed

theorem full_seal_unreadable:
  assumes "codec_ok c" and "file_opening c carried first start" and "file_life c p carried first acked flight j fs"
    and "continue_as_file c SealDone dev j fs = (Inr (Some j'), j1, fs')" and "fj_pause j = None" and "length (fj_committed j) = max_journal_events"
    and "fs (successor_path p) = None" and "length (file_bytes fs' p) \<le> max_journal_bytes" and "obliging dev1"
  shows "open_journal c dev1 p kind fs' = (Inl (CapacityExceeded LimitEvents max_journal_events (max_journal_events + 1)), fs')"
proof -
  obtain evs where holds: "journal_holds c p carried first start evs flight j fs" using life_holds [OF assms(1-3)] by blast
  then obtain body tail where h: "chain (journal_frame c) (jp_head start) evs = Some (body, tail)" "fj_path j = p" "length evs = max_journal_events"
      "jp_sequence start + length evs \<le> u64_max" "\<exists>q rest. fs p = Some \<lparr>dk_bytes = first @ body @ take q rest, dk_fault = None\<rparr>" "fj_disk_len j = length (first @ body)"
    using assms(6) by (auto elim!: journal_holdsD simp: file_entries_length)
  obtain sealed head where w: "seal_written c fs j sealed head"
      "open_journal c dev (successor_path p) (ContinuingKind (fj_policy j)) (set_file (successor_path p) sealed (set_file p (file_bytes fs p @ sealed) fs)) = (Inr j', fs')"
    using seal_done [OF assms(4,5)] unfolding h(2) by metis
  obtain payload where p: "seal_frame c payload (jp_head (fj_position j)) = Inr (sealed, head)" "fence fs j = Inr ()" using w(1) unfolding seal_written_def by blast
  have held: "fs p = Some \<lparr>dk_bytes = first @ body, dk_fault = None\<rparr>"
    using fence_ok [OF p(2)] h(2,5,6) by (auto simp: file_bytes_def min_def split: if_splits)
  have apart: "successor_path p \<noteq> p" using assms(7) held by auto
  let ?fs = "set_file (successor_path p) sealed (set_file p (file_bytes fs p @ sealed) fs)"
  have file_now: "fs' p = Some \<lparr>dk_bytes = first @ body @ sealed, dk_fault = None\<rparr>"
    using open_elsewhere [OF w(2), of p] apart held by (simp add: set_file_def file_bytes_def)
  let ?d = "\<lparr>dk_bytes = first @ body @ sealed, dk_fault = None\<rparr>"
  let ?s = "file_state c carried first start evs body tail"
  have f: "is_possible_length (length payload) max_frame_bytes" "sealed = be_bytes length_bytes (length payload) @ payload @ head"
    using p(1) unfolding seal_frame_ok encode_frame_def by simp_all
  have lead: "read_prefix ?d (length (first @ body)) = Inr (Full (be_bytes length_bytes (length payload)))"
    by (rule read_prefix_written [where rest = "payload @ head"]) (simp_all add: f(2))
  have next_one: "scan_next_frame ?d (length (first @ body)) max_journal_events max_journal_events n = Inl (CapacityExceeded LimitEvents max_journal_events (max_journal_events + 1))" for n
    unfolding scan_next_frame_def lead by (simp add: sat_add_u64_def max_journal_events_def u64_max_def)
  have "scan c max_journal_events ?d = Inl (CapacityExceeded LimitEvents max_journal_events (max_journal_events + 1))"
    by (subst scan_file [OF assms(1,2) _ h(1)]; (subst scan_loop.simps)?)
       (use h(3,4) next_one in \<open>simp_all add: file_entries_length [OF h(1)]\<close>)
  then show ?thesis using file_now life_base [OF assms(3)] assms(8,9) by (simp add: open_journal_def obliging_def file_bytes_def Let_def)
qed

lemma long_seal_unreadable:
  assumes "refuse_ambiguous_base p = Inr ()" and "fs' p \<noteq> None" and "max_journal_bytes < length (file_bytes fs' p)" and "obliging dev1"
  shows "open_journal c dev1 p kind fs' = (Inl (CapacityExceeded LimitBytes max_journal_bytes (length (file_bytes fs' p))), fs')"
  using assms by (auto simp: open_journal_def obliging_def file_bytes_def Let_def)

lemma sealed_old_superseded:
  assumes "codec_ok c" and "file_opening c carried first start" and "file_life c p carried first acked flight j fs"
    and "continue_as_file c SealDone dev j fs = (Inr (Some j'), j1, fs')" and "fj_pause j = None" and "fs (successor_path p) = None"
    and "fj_committed j \<noteq> [] \<or> carried \<noteq> None" and "length (fj_committed j) \<noteq> max_journal_events" and "length (file_bytes fs' p) \<le> max_journal_bytes"
    and "obliging dev1"
  shows "open_journal c dev1 p kind fs' = (Inl (Superseded (successor_path p)), fs')"
proof -
  obtain evs where holds: "journal_holds c p carried first start evs flight j fs" using life_holds [OF assms(1-3)] by blast
  then have len: "length (fj_committed j) = length evs" and most: "length evs \<le> max_journal_events"
    by (auto elim!: journal_holdsD simp: file_entries_length)
  obtain sealed head where w: "seal_written c fs j sealed head" "fs' = set_file (successor_path p) sealed (set_file p (file_bytes fs p @ sealed) fs)"
    using seal_hands_over [OF assms(1-6)] by metis
  obtain body tail where s: "file_sealed c carried first start evs body tail (seal_checkpoint j) sealed head"
      "fs p = Some \<lparr>dk_bytes = first @ body, dk_fault = None\<rparr>"
    using seal_over_file [OF assms(2) holds w(1)] assms(8) len most by (metis le_neq_implies_less)
  have apart: "successor_path p \<noteq> p" using assms(6) s(2) by auto
  have files: "fs' p = Some \<lparr>dk_bytes = first @ body @ sealed, dk_fault = None\<rparr>" "fs' (successor_path p) = Some \<lparr>dk_bytes = sealed, dk_fault = None\<rparr>"
    using s(2) assms(6) apart unfolding w(2) by (auto simp: set_file_def file_bytes_def)
  obtain payload where p: "to_payload c (seal_checkpoint j) = Inr payload" "seal_frame c payload (jp_head (fj_position j)) = Inr (sealed, head)"
    using w(1) unfolding seal_written_def by blast
  have fits: "length (first @ body @ sealed) \<le> max_journal_bytes" using assms(9) files(1) by (simp add: file_bytes_def)
  have some: "evs \<noteq> [] \<or> carried \<noteq> None" using assms(7) len by auto
  have complete: "successor_is_complete c fs' (successor_path p) (seal_checkpoint j)"
    by (rule successor_complete [where fs = fs' and q = "successor_path p", OF assms(1) p(1) _ files(2)]) (use p(2) in \<open>simp add: seal_checkpoint_def\<close>)
  show ?thesis by (rule open_superseded [where fs = fs' and p = p, OF assms(1) s(1) assms(10) life_base [OF assms(3)] files(1) fits some complete])
qed

text \<open>
  C6: What becomes of a journal whose seal is written next to a free successor path. The successor opens at its
  own path, one position on, holding what the seal carried and nothing else; it is a live file of its own, so that whatever
  holds of the life of a file holds of it; and the sealed handle admits nothing more. An opening of the old
  path, where the system refuses none of the calls, is sent to the successor, and so to the one owner, but for three cases, each of them exactly what the
  code does: a seal that took the file over the byte bound makes it unreadable, a generation that was full
  is refused for one event too many, and a generation that was empty and carried nothing opens as a second
  live journal at the position and with the recovery of its successor.
\<close>

theorem sealed_has_one_owner:
  assumes "codec_ok c" and "file_opening c carried first start" and "file_life c p carried first acked flight j fs"
    and "continue_as_file c SealDone dev j fs = (Inr (Some j'), j1, fs')" and "fj_pause j = None" and "fs (successor_path p) = None"
    and "obliging dev1"
  shows "file_recover j' = recover_continued (Some (seal_checkpoint j)) [] \<and> fj_committed j' = [] \<and>
    jp_sequence (fj_position j') = jp_sequence (fj_position j) + 1 \<and>
    (\<exists>framed. file_opening c (Some (seal_checkpoint j)) framed (fj_position j') \<and>
      file_life c (successor_path p) (Some (seal_checkpoint j)) framed [] [] j' fs') \<and>
    (\<forall>fate expected_tail ev. file_append c fate expected_tail ev j1 fs' = (Inl (Superseded (successor_path p)), j1, fs')) \<and>
    (if max_journal_bytes < length (file_bytes fs' p)
     then open_journal c dev1 p kind fs' = (Inl (CapacityExceeded LimitBytes max_journal_bytes (length (file_bytes fs' p))), fs')
     else if length (fj_committed j) = max_journal_events
     then open_journal c dev1 p kind fs' = (Inl (CapacityExceeded LimitEvents max_journal_events (max_journal_events + 1)), fs')
     else if fj_committed j = [] \<and> carried = None
     then \<exists>old. open_journal c dev1 p kind fs' = (Inr old, fs') \<and> fj_position old = fj_position j' \<and> file_recover old = file_recover j'
     else open_journal c dev1 p kind fs' = (Inl (Superseded (successor_path p)), fs'))"
proof -
  obtain sealed head where w: "seal_written c fs j sealed head"
    "fs' = set_file (successor_path p) sealed (set_file p (file_bytes fs p @ sealed) fs)" "fs p \<noteq> None"
    "fj_committed j' = []" "fj_position j' = \<lparr>jp_sequence = jp_sequence (fj_position j) + 1, jp_head = head\<rparr>" "fj_sealed_by j1 = Some (successor_path p)"
    "file_recover j' = recover_continued (Some (seal_checkpoint j)) []"
    "file_opening c (Some (seal_checkpoint j)) sealed (fj_position j')" "file_life c (successor_path p) (Some (seal_checkpoint j)) sealed [] [] j' fs'"
    using seal_hands_over [OF assms(1-6)] by metis
  have apart: "successor_path p \<noteq> p" using assms(6) w(3) by auto
  then have there: "fs' p \<noteq> None" using w(2,3) by (auto simp: set_file_def)
  have refused: "file_append c fate expected_tail ev j1 fs' = (Inl (Superseded (successor_path p)), j1, fs')" for fate expected_tail ev
    using w(6) by (simp add: file_append_def prepare_append_def refuse_sealed_def)
  have "if max_journal_bytes < length (file_bytes fs' p)
     then open_journal c dev1 p kind fs' = (Inl (CapacityExceeded LimitBytes max_journal_bytes (length (file_bytes fs' p))), fs')
     else if length (fj_committed j) = max_journal_events
     then open_journal c dev1 p kind fs' = (Inl (CapacityExceeded LimitEvents max_journal_events (max_journal_events + 1)), fs')
     else if fj_committed j = [] \<and> carried = None
     then \<exists>old. open_journal c dev1 p kind fs' = (Inr old, fs') \<and> fj_position old = fj_position j' \<and> file_recover old = file_recover j'
     else open_journal c dev1 p kind fs' = (Inl (Superseded (successor_path p)), fs')" (is ?old)
  proof -
    consider (long) "max_journal_bytes < length (file_bytes fs' p)"
      | (full) "length (file_bytes fs' p) \<le> max_journal_bytes" "length (fj_committed j) = max_journal_events"
      | (bare) "length (file_bytes fs' p) \<le> max_journal_bytes" "length (fj_committed j) \<noteq> max_journal_events" "fj_committed j = []" "carried = None"
      | (held) "length (file_bytes fs' p) \<le> max_journal_bytes" "length (fj_committed j) \<noteq> max_journal_events" "fj_committed j \<noteq> [] \<or> carried \<noteq> None"
      by force
    then show ?old
    proof cases
      case long
      then show ?thesis using long_seal_unreadable [where kind = kind, OF life_base [OF assms(3)] there long assms(7)] by simp
    next
      case full
      then show ?thesis using full_seal_unreadable [OF assms(1-5) full(2) assms(6) full(1) assms(7), of kind] by simp
    next
      case bare
      have "first = []" using assms(2) bare(4) by (simp add: file_opening_def)
      then obtain old where "open_journal c dev1 p kind fs' = (Inr old, fs')" "fj_position old = fj_position j'" "file_recover old = file_recover j'"
        using empty_seal_two_owners [OF assms(1) _ _ assms(4,5) bare(3) assms(6,7), of start acked flight kind] assms(2,3) bare(4) by auto
      then show ?thesis using bare by simp
    next
      case held
      then show ?thesis using sealed_old_superseded [where kind = kind, OF assms(1-6) held(3,2,1) assms(7)] by auto
    qed
  qed
  then show ?thesis using w refused by (intro conjI) (simp, simp, simp, blast, simp, assumption)
qed

section \<open>The chain of generations\<close>

lemma digit_byte:
  assumes "d < 10"
  shows "unat (word_of_nat (48 + d) :: u8) = 48 + d" and "ascii_digit (word_of_nat (48 + d))"
proof -
  show read: "unat (word_of_nat (48 + d) :: u8) = 48 + d" using assms by (simp add: unat_of_nat del: of_nat_add)
  show "ascii_digit (word_of_nat (48 + d))" using assms read by (simp add: ascii_digit_def word_le_nat_alt del: of_nat_add)
qed

lemma push_digit:
  assumes "n \<le> u64_max"
  shows "sat_add_u64 (min (n div 10 ^ Suc k * 10) u64_max) (unat (word_of_nat (48 + n div 10 ^ k mod 10) :: u8) - 48) = n div 10 ^ k"
proof -
  have "n div 10 ^ Suc k * 10 + n div 10 ^ k mod 10 = n div 10 ^ k"
    by (simp add: div_mult2_eq mult.commute [of 10])
  moreover have "n div 10 ^ k \<le> u64_max" using assms by (meson div_le_dividend le_trans)
  moreover have "unat (word_of_nat (48 + n div 10 ^ k mod 10) :: u8) - 48 = n div 10 ^ k mod 10" using digit_byte(1) [of "n div 10 ^ k mod 10"] by simp
  ultimately show ?thesis by (simp add: sat_add_u64_def min_def)
qed

lemma fold_digits:
  "n \<le> u64_max \<Longrightarrow> foldl (\<lambda>number digit. sat_add_u64 (min (number * 10) u64_max) (unat digit - 48)) (n div 10 ^ k)
     (map (\<lambda>i. word_of_nat (48 + n div 10 ^ i mod 10) :: u8) (rev [0..<k])) = n"
  by (induction k) (simp_all add: push_digit del: power_Suc of_nat_add)

lemma name_of_number:
  assumes "n \<le> max_generation_name"
  shows "name_number (six_digits n) = Some n" and "is_generation_name (six_digits n)"
proof -
  have small: "n \<le> u64_max" "n div 10 ^ generation_digits = 0" using assms by (simp_all add: max_generation_name_def u64_max_def generation_digits_def)
  show named: "is_generation_name (six_digits n)" by (auto simp: is_generation_name_def six_digits_def list_all_iff digit_byte(2) simp del: of_nat_add)
  show "name_number (six_digits n) = Some n"
    using fold_digits [OF small(1), of generation_digits] named unfolding small(2) by (simp add: name_number_def six_digits_def del: of_nat_add)
qed

lemma generation_path:
  assumes "n \<le> max_generation_name"
  shows "generation_of (dir @ [name @ generation_suffix, six_digits n]) = n + 1"
    and "successor_path (dir @ [name @ generation_suffix, six_digits n]) = dir @ [name @ generation_suffix, six_digits (min (n + 1) max_generation_name)]"
    and "refuse_ambiguous_base (dir @ [name @ generation_suffix, six_digits n]) = Inr ()"
proof -
  have small: "sat_add_u64 n 1 = n + 1" using assms by (simp add: sat_add_u64_def max_generation_name_def u64_max_def)
  have own: "is_generation_path (dir @ [name @ generation_suffix, six_digits n])"
    using name_of_number(2) [OF assms] by (simp add: is_generation_path_def file_name_def parent_def butlast_append)
  show "generation_of (dir @ [name @ generation_suffix, six_digits n]) = n + 1"
    using own small name_of_number(1) [OF assms] by (simp add: generation_of_def file_name_def)
  show "successor_path (dir @ [name @ generation_suffix, six_digits n]) = dir @ [name @ generation_suffix, six_digits (min (n + 1) max_generation_name)]"
    using small name_of_number(1) [OF assms] by (simp add: successor_path_def file_name_def parent_def butlast_append Let_def)
  show "refuse_ambiguous_base (dir @ [name @ generation_suffix, six_digits n]) = Inr ()"
    using own name_of_number(1) [OF assms] by (simp add: refuse_ambiguous_base_def file_name_def)
qed

lemma generation_walk:
  assumes "\<not> is_generation_name name"
  shows "(successor_path ^^ n) (dir @ [name]) =
    (if n = 0 then dir @ [name] else dir @ [name @ generation_suffix, six_digits (min n max_generation_name)])"
proof (induction n)
  case (Suc n)
  have base: "successor_path (dir @ [name]) = dir @ [name @ generation_suffix, six_digits 1]"
    using assms by (simp add: successor_path_def file_name_def parent_def name_number_def)
  have later: "min (min n max_generation_name + 1) max_generation_name = min (Suc n) max_generation_name" by simp
  show ?case
  proof (cases "n = 0")
    case True
    then show ?thesis using base by (simp add: max_generation_name_def)
  next
    case False
    then show ?thesis using Suc.IH generation_path(2) [of "min n max_generation_name" dir name] later by simp
  qed
qed simp

text \<open>
  C37: The generations of a journal are numbered one by one and each name reads back as its number, up to the name \<open>999999\<close>: from there
  on a generation is its own successor, so that sealing it writes the seal over the file.
\<close>

theorem generations_numbered:
  assumes "\<not> is_generation_name name"
  shows "generation_of ((successor_path ^^ n) (dir @ [name])) = min n max_generation_name + 1 \<and>
    refuse_ambiguous_base ((successor_path ^^ n) (dir @ [name])) = Inr () \<and>
    (successor_path ((successor_path ^^ n) (dir @ [name])) = (successor_path ^^ n) (dir @ [name]) \<longleftrightarrow> max_generation_name \<le> n)"
proof -
  have plain: "generation_of (dir @ [name]) = 1" "refuse_ambiguous_base (dir @ [name]) = Inr ()"
    using assms by (simp_all add: generation_of_def refuse_ambiguous_base_def file_name_def name_number_def)
  have numbered: "generation_of ((successor_path ^^ n) (dir @ [name])) = min n max_generation_name + 1" for n
    unfolding generation_walk [OF assms] using plain(1) generation_path(1) [of "min n max_generation_name"] by simp
  have base: "refuse_ambiguous_base ((successor_path ^^ n) (dir @ [name])) = Inr ()"
    unfolding generation_walk [OF assms] using plain(2) generation_path(3) [of "min n max_generation_name"] by simp
  have "max_generation_name \<le> n" if "(successor_path ^^ Suc n) (dir @ [name]) = (successor_path ^^ n) (dir @ [name])"
    using numbered [of "Suc n"] numbered [of n] unfolding that by (simp add: min_def split: if_splits)
  moreover have "(successor_path ^^ Suc n) (dir @ [name]) = (successor_path ^^ n) (dir @ [name])" if "max_generation_name \<le> n"
    unfolding generation_walk [OF assms] using that by (auto simp: min_def max_generation_name_def)
  ultimately have "(successor_path ^^ Suc n) (dir @ [name]) = (successor_path ^^ n) (dir @ [name]) \<longleftrightarrow> max_generation_name \<le> n" by blast
  then show ?thesis using numbered base by simp
qed

section \<open>A small file\<close>

definition demo_path :: path where "demo_path = [[106]]"

definition demo_seal :: checkpoint_record where
  "demo_seal = \<lparr>cn_generation = 2, cn_predecessor = \<lparr>jp_sequence = 1, jp_head = replicate 32 0\<rparr>, cn_settled = [],
     cn_unresolved = [unresolved_new demo_key IntentKind]\<rparr>"

definition handed_key :: effect_key where "handed_key = demo_key\<lparr>ek_action := 9\<rparr>"

definition demo_handed :: checkpoint_record where
  "demo_handed = \<lparr>cn_generation = 2, cn_predecessor = \<lparr>jp_sequence = 5, jp_head = replicate 32 0\<rparr>,
     cn_settled = [settled_new other_key OutcomeKind StApplied None], cn_unresolved = [unresolved_new handed_key DispatchKind]\<rparr>"

definition demo_codec :: file_codec where
  "demo_codec =
     \<lparr>fc_hash = flat_hash,
      fc_event = (\<lambda>ev. if ev = IntentAdmitted demo_key then Inr [1] else if ev = IntentAdmitted other_key then Inr [2]
        else if ev = OutcomeObserved handed_key Applied then Inr [4] else Inl (WireRefused 0)),
      fc_read_event = (\<lambda>b. if b = [1] then Some (IntentAdmitted demo_key) else if b = [2] then Some (IntentAdmitted other_key)
        else if b = [4] then Some (OutcomeObserved handed_key Applied) else None),
      fc_checkpoint = (\<lambda>cp. if cp = demo_seal then Inr [3] else if cp = demo_handed then Inr [6] else Inl (WireRefused 0)),
      fc_read_checkpoint = (\<lambda>b. if b = [3] then Inr demo_seal else if b = [6] then Inr demo_handed else Inl (WireRefused 0))\<rparr>"

lemma demo_codec_ok: "codec_ok demo_codec"
  by (auto simp: codec_ok_def demo_codec_def flat_hash_def is_payload_def checkpoint_magic_def split: if_splits)

definition tiny_frame :: "u8 \<Rightarrow> bytes" where "tiny_frame b = encode_frame 1 [b] (replicate 32 0)"

lemma tiny_frame_length [simp]: "length (tiny_frame b) = 37"
  by (simp add: tiny_frame_def encode_frame_def length_bytes_def)

lemma demo_journal_frame:
  "journal_frame demo_codec (IntentAdmitted demo_key) previous = Inr (tiny_frame 1, replicate 32 0)"
  "journal_frame demo_codec (IntentAdmitted other_key) previous = Inr (tiny_frame 2, replicate 32 0)"
  "journal_frame demo_codec (OutcomeObserved handed_key Applied) previous = Inr (tiny_frame 4, replicate 32 0)"
  using other_key_differs
  by (auto simp: journal_frame_ok demo_codec_def is_possible_length_def max_frame_bytes_def u32_max_def chain_over_bytes_def flat_hash_def tiny_frame_def)

definition demo_opened :: file_journal where
  "demo_opened = opened_journal demo_path (ContinuingKind policy_declared)
     (file_state demo_codec None [] (genesis_position flat_hash) [] [] (replicate 32 0)) 0 False demo_codec"

definition tiny_disk :: "bytes \<Rightarrow> file_system" where
  "tiny_disk bytes = [demo_path \<mapsto> \<lparr>dk_bytes = bytes, dk_fault = None\<rparr>]"

lemma tiny_disk_simps [simp]:
  "tiny_disk bytes demo_path = Some \<lparr>dk_bytes = bytes, dk_fault = None\<rparr>" "file_bytes (tiny_disk bytes) demo_path = bytes"
  "set_file demo_path bytes' (tiny_disk bytes) = tiny_disk bytes'"
  by (simp_all add: tiny_disk_def file_bytes_def set_file_def)

lemma demo_paths:
  "refuse_ambiguous_base demo_path = Inr ()" "generation_of demo_path = 1" "tiny_disk bytes (successor_path demo_path) = None"
  by (simp_all add: demo_path_def refuse_ambiguous_base_def file_name_def parent_def name_number_def is_generation_name_def generation_digits_def generation_of_def
      successor_path_def tiny_disk_def)

lemma demo_opening: "file_opening demo_codec None [] (genesis_position flat_hash)"
  by (simp add: file_opening_def demo_codec_def)

lemma tiny_open: "open_journal demo_codec obliging_device demo_path (ContinuingKind policy_declared) (tiny_disk []) = (Inr demo_opened, tiny_disk [])"
  using open_whole [where fs = "tiny_disk []" and p = demo_path and kind = "ContinuingKind policy_declared" and body = "[]" and tail = "replicate 32 0",
      OF demo_codec_ok demo_opening obliging_device demo_paths(1), of "[]"]
  by (simp add: demo_opened_def genesis_position_def flat_hash_def)

definition demo_appended :: file_journal where
  "demo_appended = accept_event (IntentAdmitted demo_key) \<lparr>jp_sequence = 1, jp_head = replicate 32 0\<rparr> 37 demo_opened"

lemma demo_append:
  "file_append demo_codec WriteDone (genesis_position flat_hash) (IntentAdmitted demo_key) demo_opened (tiny_disk []) =
    (Inr \<lparr>da_position = \<lparr>jp_sequence = 1, jp_head = replicate 32 0\<rparr>, da_promise = ProcessCrash\<rparr>, demo_appended, tiny_disk (tiny_frame 1))"
proof -
  have opened: "fj_ladder demo_opened = Map.empty" "fj_folded demo_opened = []"
    by (simp_all add: demo_opened_def opened_journal_def ladder_of_def)
  have fields: "fj_path demo_opened = demo_path" "fj_position demo_opened = genesis_position flat_hash" "fj_sealed_by demo_opened = None"
      "\<not> fj_poisoned demo_opened" "fj_disk_len demo_opened = 0" "fj_committed demo_opened = []"
    by (simp_all add: demo_opened_def genesis_position_def flat_hash_def)
  have "prepare_append demo_codec (tiny_disk []) (genesis_position flat_hash) (IntentAdmitted demo_key) demo_opened =
      Inr (\<lparr>jp_sequence = 1, jp_head = replicate 32 0\<rparr>, tiny_frame 1)"
    by (simp add: prepare_append_def refuse_sealed_def fields opened check_append_order_def next_allowed_of_def refuse_walked_def fence_def
        bound_events_def bound_bytes_def event_frame_def demo_journal_frame genesis_position_def max_journal_events_def max_journal_bytes_def sat_add_u64_def u64_max_def)
  then show ?thesis by (simp add: file_append_def write_and_sync_def fields demo_appended_def)
qed

lemma tiny_life: "file_life demo_codec demo_path None [] [IntentAdmitted demo_key] [] demo_appended (tiny_disk (tiny_frame 1))"
proof -
  have "file_life demo_codec demo_path None [] [] [] demo_opened (tiny_disk [])" by (rule life_opened [OF tiny_open]) simp
  from life_appended [OF this demo_append] show ?thesis by (simp add: demo_appended_def demo_opened_def)
qed

theorem file_journal_durable_witness:
  "\<exists>j' fs'. open_journal demo_codec obliging_device demo_path PlainKind (tiny_disk (tiny_frame 1)) = (Inr j', fs') \<and>
    map je_event (fj_committed j') = [IntentAdmitted demo_key] \<and> \<not> fj_repaired j'"
proof -
  have held: "fj_disk_len demo_appended = 37" "fj_committed demo_appended = [\<lparr>je_position = \<lparr>jp_sequence = 1, jp_head = replicate 32 0\<rparr>, je_event = IntentAdmitted demo_key\<rparr>]"
    by (simp_all add: demo_appended_def demo_opened_def sat_add_u64_def u64_max_def)
  have none: "left_in_flight demo_codec previous [] m b t k framed \<Longrightarrow> k = 0" for previous m b t k framed
    by (simp add: left_in_flight_def)
  have never: "\<not> cut_authenticates demo_codec 0 framed t" for framed t by (simp add: cut_authenticates_def length_bytes_def)
  show ?thesis
    using file_journal_durable [where kind = PlainKind, OF demo_codec_ok demo_opening tiny_life, of 37 "tiny_disk (tiny_frame 1)" obliging_device]
    by (auto simp: held never dest!: none)
qed

definition demo_seal_frame :: "u8 \<Rightarrow> bytes" where
  "demo_seal_frame b = encode_frame 33 (checkpoint_magic @ [b]) (replicate 32 0)"

lemma demo_seal_frame_length [simp]: "length (demo_seal_frame b) = 69"
  by (simp add: demo_seal_frame_def encode_frame_def length_bytes_def checkpoint_magic_def)

lemma demo_seals:
  "to_payload demo_codec demo_seal = Inr (checkpoint_magic @ [3])" "to_payload demo_codec demo_handed = Inr (checkpoint_magic @ [6])"
  "seal_frame demo_codec (checkpoint_magic @ [b]) previous = Inr (demo_seal_frame b, replicate 32 0)"
proof -
  have magic: "length checkpoint_magic = 32" by (simp add: checkpoint_magic_def)
  show "to_payload demo_codec demo_seal = Inr (checkpoint_magic @ [3])" by (simp add: to_payload_def demo_codec_def)
  show "to_payload demo_codec demo_handed = Inr (checkpoint_magic @ [6])" by (simp add: to_payload_def demo_codec_def demo_seal_def demo_handed_def)
  show "seal_frame demo_codec (checkpoint_magic @ [b]) previous = Inr (demo_seal_frame b, replicate 32 0)"
    using magic by (simp add: seal_frame_ok is_possible_length_def max_frame_bytes_def u32_max_def chain_over_bytes_def demo_codec_def flat_hash_def
        demo_seal_frame_def)
qed

lemma demo_appended_fields:
  "fj_path demo_appended = demo_path" "fj_position demo_appended = \<lparr>jp_sequence = 1, jp_head = replicate 32 0\<rparr>" "fj_sealed_by demo_appended = None"
  "\<not> fj_poisoned demo_appended" "fj_disk_len demo_appended = 37" "fj_carried demo_appended = None" "fj_continuing demo_appended" "fj_pause demo_appended = None"
  "fj_committed demo_appended = [\<lparr>je_position = \<lparr>jp_sequence = 1, jp_head = replicate 32 0\<rparr>, je_event = IntentAdmitted demo_key\<rparr>]"
  by (simp_all add: demo_appended_def demo_opened_def sat_add_u64_def u64_max_def)
     (simp_all add: accept_event_def opened_journal_def kind_continues_def Let_def)

lemma demo_checkpoint: "framed_checkpoint demo_codec (tiny_disk (tiny_frame 1)) demo_appended = Inr (demo_seal_frame 3, replicate 32 0)"
proof -
  have carried: "carried_of (file_recover demo_appended) = ([], [unresolved_new demo_key IntentKind])"
    by (simp add: file_recover_def demo_appended_fields recover_continued_def recovered_none_def fold_event_def seed_attempt_def carried_of_def)
  have checkpoint: "continuation_new (Suc (Suc 0)) \<lparr>jp_sequence = Suc 0, jp_head = replicate 32 0\<rparr> [] [unresolved_new demo_key IntentKind] = (Inr demo_seal :: file_error + _)"
    by (simp add: continuation_new_def max_checkpoint_unresolved_def demo_seal_def)
  show ?thesis
    by (simp add: framed_checkpoint_def carried demo_appended_fields demo_paths(2) checkpoint demo_seals frame_payload_def fence_def refuse_sealed_def
        sat_add_u64_def u64_max_def)
qed

lemma demo_continue:
  "\<exists>j1. continue_as_file demo_codec SuccessorRefused obliging_device demo_appended (tiny_disk (tiny_frame 1)) =
    (Inl (OutcomeUnknownIo (StorageIo DeviceRefused)), j1, tiny_disk (tiny_frame 1 @ demo_seal_frame 3))"
  by (simp add: continue_as_file_def demo_appended_fields demo_checkpoint seal_on_owner_def paused_at_def)

lemma demo_reopened:
  "open_journal demo_codec obliging_device demo_path PlainKind (tiny_disk (tiny_frame 1 @ demo_seal_frame 3)) =
    (Inr (opened_journal demo_path PlainKind (sealed_state demo_codec None [] (genesis_position flat_hash) [IntentAdmitted demo_key] (tiny_frame 1)
       (replicate 32 0) demo_seal (demo_seal_frame 3) (replicate 32 0)) 106 False demo_codec), tiny_disk (tiny_frame 1 @ demo_seal_frame 3))"
proof -
  have "file_sealed demo_codec None [] (genesis_position flat_hash) [IntentAdmitted demo_key] (tiny_frame 1) (replicate 32 0) demo_seal (demo_seal_frame 3) (replicate 32 0)"
    using demo_opening
    by (simp add: file_sealed_def demo_journal_frame demo_seals demo_seal_def [THEN arg_cong, of cn_predecessor] genesis_position_def max_journal_events_def u64_max_def)
  from open_sealed [where fs = "tiny_disk (tiny_frame 1 @ demo_seal_frame 3)" and p = demo_path and kind = PlainKind,
      OF demo_codec_ok this obliging_device demo_paths(1)]
  show ?thesis by (simp add: max_journal_bytes_def demo_paths)
qed

definition demo_resumed :: file_journal where
  "demo_resumed = opened_journal demo_path PlainKind (sealed_state demo_codec None [] (genesis_position flat_hash) [IntentAdmitted demo_key] (tiny_frame 1)
     (replicate 32 0) demo_seal (demo_seal_frame 3) (replicate 32 0)) 106 False demo_codec"

lemma demo_resumed_fields:
  "fj_path demo_resumed = demo_path" "fj_position demo_resumed = \<lparr>jp_sequence = 2, jp_head = replicate 32 0\<rparr>" "fj_sealed_by demo_resumed = None"
  "\<not> fj_poisoned demo_resumed" "fj_disk_len demo_resumed = 106" "fj_folded demo_resumed = []" "fj_ladder demo_resumed (event_key (IntentAdmitted other_key)) = None"
  "length (fj_committed demo_resumed) = 1"
  using other_key_differs
  by (simp_all add: demo_resumed_def demo_seal_def [THEN arg_cong, of cn_predecessor] demo_journal_frame)
     (simp_all add: opened_journal_def ladder_of_def Let_def demo_journal_frame)

lemma demo_resumes:
  "prepare_append demo_codec (tiny_disk (tiny_frame 1 @ demo_seal_frame 3)) \<lparr>jp_sequence = 2, jp_head = replicate 32 0\<rparr> (IntentAdmitted other_key) demo_resumed =
    Inr (\<lparr>jp_sequence = 3, jp_head = replicate 32 0\<rparr>, tiny_frame 2)"
  by (simp add: prepare_append_def refuse_sealed_def demo_resumed_fields(1-6,8) demo_resumed_fields(7) [simplified] check_append_order_def next_allowed_of_def
      refuse_walked_def fence_def bound_events_def bound_bytes_def event_frame_def demo_journal_frame max_journal_events_def max_journal_bytes_def
      sat_add_u64_def u64_max_def)

theorem interrupted_seal_unreadable_witness:
  "\<exists>j1 j2 j3 fs1 fs3 ack index. continue_as_file demo_codec SuccessorRefused obliging_device demo_appended (tiny_disk (tiny_frame 1)) =
      (Inl (OutcomeUnknownIo (StorageIo DeviceRefused)), j1, fs1) \<and>
    open_journal demo_codec obliging_device demo_path PlainKind fs1 = (Inr j2, fs1) \<and>
    file_append demo_codec WriteDone (fj_position j2) (IntentAdmitted other_key) j2 fs1 = (Inr ack, j3, fs3) \<and>
    open_journal demo_codec obliging_device demo_path PlainKind fs3 = (Inl (Corrupt index SecondSeal), fs3)"
proof -
  let ?fs = "tiny_disk (tiny_frame 1 @ demo_seal_frame 3)"
  obtain j1 where j1: "continue_as_file demo_codec SuccessorRefused obliging_device demo_appended (tiny_disk (tiny_frame 1)) =
      (Inl (OutcomeUnknownIo (StorageIo DeviceRefused)), j1, ?fs)"
    using demo_continue by blast
  have opened: "open_journal demo_codec obliging_device demo_path PlainKind ?fs = (Inr demo_resumed, ?fs)"
    using demo_reopened by (simp add: demo_resumed_def)
  obtain j2 where j2: "open_journal demo_codec obliging_device demo_path PlainKind ?fs = (Inr j2, ?fs)"
      "\<forall>expected_tail ev position framed. prepare_append demo_codec ?fs expected_tail ev j2 = Inr (position, framed) \<longrightarrow>
        (\<exists>j3 fs3. file_append demo_codec WriteDone expected_tail ev j2 ?fs = (Inr \<lparr>da_position = position, da_promise = ProcessCrash\<rparr>, j3, fs3) \<and>
          (\<forall>dev2 kind2. obliging dev2 \<longrightarrow> (\<exists>index. open_journal demo_codec dev2 demo_path kind2 fs3 = (Inl (Corrupt index SecondSeal), fs3))))"
    using interrupted_seal_unreadable [where kind = PlainKind, OF demo_codec_ok demo_opening tiny_life j1 demo_paths(3) _ _ _ obliging_device]
    by (auto simp: demo_appended_fields max_journal_events_def max_journal_bytes_def)
  have "j2 = demo_resumed" using j2(1) opened by simp
  then obtain j3 fs3 index where "file_append demo_codec WriteDone (fj_position j2) (IntentAdmitted other_key) j2 ?fs =
        (Inr \<lparr>da_position = \<lparr>jp_sequence = 3, jp_head = replicate 32 0\<rparr>, da_promise = ProcessCrash\<rparr>, j3, fs3)"
      "open_journal demo_codec obliging_device demo_path PlainKind fs3 = (Inl (Corrupt index SecondSeal), fs3)"
    using j2(2) demo_resumes demo_resumed_fields(2) obliging_device by metis
  with j1 j2(1) show ?thesis by blast
qed

definition demo_given :: file_journal where
  "demo_given = opened_journal demo_path PlainKind
     (file_state demo_codec (Some demo_handed) (demo_seal_frame 6) \<lparr>jp_sequence = 6, jp_head = replicate 32 0\<rparr> [] [] (replicate 32 0)) 69 False demo_codec"

lemma demo_handed_opening: "file_opening demo_codec (Some demo_handed) (demo_seal_frame 6) \<lparr>jp_sequence = 6, jp_head = replicate 32 0\<rparr>"
  by (simp add: file_opening_def demo_seals demo_handed_def [THEN arg_cong, of cn_predecessor] u64_max_def)

lemma demo_given_open: "open_journal demo_codec obliging_device demo_path PlainKind (tiny_disk (demo_seal_frame 6)) = (Inr demo_given, tiny_disk (demo_seal_frame 6))"
  using open_whole [where fs = "tiny_disk (demo_seal_frame 6)" and p = demo_path and kind = PlainKind and body = "[]" and tail = "replicate 32 0",
      OF demo_codec_ok demo_handed_opening obliging_device demo_paths(1), of "[]"]
  by (simp add: demo_given_def max_journal_bytes_def u64_max_def)

lemma demo_rungs: "rung_of (Suc 0) = Some DispatchKind" "rung_of 2 = Some OutcomeKind"
  by (simp_all add: rung_of_def list_get_def)

lemma demo_given_fields:
  "fj_path demo_given = demo_path" "fj_position demo_given = \<lparr>jp_sequence = 6, jp_head = replicate 32 0\<rparr>" "fj_sealed_by demo_given = None"
  "\<not> fj_poisoned demo_given" "fj_disk_len demo_given = 69" "fj_committed demo_given = []" "fj_folded demo_given = [settled_new other_key OutcomeKind StApplied None]"
  "fj_ladder demo_given = [handed_key \<mapsto> DispatchKind, other_key \<mapsto> OutcomeKind]"
  by (simp_all add: demo_given_def)
     (simp_all add: opened_journal_def ladder_of_def Let_def demo_handed_def ladder_hold_def settled_new_def unresolved_new_def demo_rungs)

lemma demo_keys_differ: "handed_key \<noteq> demo_key" "handed_key \<noteq> other_key"
  by (simp_all add: handed_key_def other_key_def demo_key_def)

theorem reopened_generation_regresses_witness:
  "\<exists>ack j1 j2 fs1. file_append demo_codec WriteDone (fj_position demo_given) (OutcomeObserved handed_key Applied) demo_given (tiny_disk (demo_seal_frame 6)) =
      (Inr ack, j1, fs1) \<and>
    open_journal demo_codec obliging_device demo_path PlainKind fs1 = (Inr j2, fs1) \<and> fj_ladder j1 handed_key = Some OutcomeKind \<and>
    fj_ladder j2 handed_key = Some DispatchKind"
proof -
  have "prepare_append demo_codec (tiny_disk (demo_seal_frame 6)) (fj_position demo_given) (OutcomeObserved handed_key Applied) demo_given =
      Inr (\<lparr>jp_sequence = 7, jp_head = replicate 32 0\<rparr>, tiny_frame 4)"
    using demo_keys_differ
    by (simp add: prepare_append_def refuse_sealed_def demo_given_fields check_append_order_def next_allowed_of_def refuse_walked_def fence_def
      bound_events_def bound_bytes_def event_frame_def demo_journal_frame max_journal_events_def max_journal_bytes_def sat_add_u64_def u64_max_def)
  then obtain ack j1 fs1 where a: "file_append demo_codec WriteDone (fj_position demo_given) (OutcomeObserved handed_key Applied) demo_given (tiny_disk (demo_seal_frame 6)) =
      (Inr ack, j1, fs1)"
    by (simp add: file_append_def write_and_sync_def demo_given_fields)
  have life: "file_life demo_codec demo_path (Some demo_handed) (demo_seal_frame 6) [] [] demo_given (tiny_disk (demo_seal_frame 6))"
    by (rule life_opened [OF demo_given_open]) simp
  have u: "unresolved_new handed_key DispatchKind \<in> set (cn_unresolved demo_handed)" "rung_of (ur_rung (unresolved_new handed_key DispatchKind)) = Some DispatchKind"
      "distinct (map ur_key (cn_unresolved demo_handed))" "ur_key (unresolved_new handed_key DispatchKind) \<notin> se_key ` set (cn_settled demo_handed)"
      "ur_key (unresolved_new handed_key DispatchKind) = handed_key"
    using demo_keys_differ by (simp_all add: demo_handed_def unresolved_new_def settled_new_def demo_rungs)
  show ?thesis
    using reopened_generation_regresses [where kind = PlainKind, OF demo_codec_ok demo_handed_opening life u(1-4), unfolded u(5), OF a obliging_device] a by blast
qed

theorem batch_skips_walked_witness:
  "(\<exists>attempt. file_append demo_codec WriteDone (fj_position demo_given) (IntentAdmitted demo_key) demo_given (tiny_disk (demo_seal_frame 6)) =
      (Inl (AttemptAlreadyWalked demo_key attempt), demo_given, tiny_disk (demo_seal_frame 6))) \<and>
    (\<exists>ack j'. append_all demo_codec WriteDone [IntentAdmitted demo_key] demo_given (tiny_disk (demo_seal_frame 6)) =
      (Inr [ack], j', tiny_disk (demo_seal_frame 6 @ tiny_frame 1)) \<and> map je_event (fj_committed j') = [IntentAdmitted demo_key])"
proof -
  have "already_walked (settled_new other_key OutcomeKind StApplied None) demo_key"
    by (simp add: already_walked_def settled_new_def other_key_def demo_key_def)
  moreover have "fence (tiny_disk (demo_seal_frame 6)) demo_given = Inr ()" by (simp add: fence_def refuse_sealed_def demo_given_fields)
  moreover have "fj_ladder demo_given demo_key = None" using demo_keys_differ other_key_differs by (auto simp: demo_given_fields)
  ultimately show ?thesis
    using batch_skips_walked [where c = demo_codec and fate = WriteDone and j = demo_given and key = demo_key and fs = "tiny_disk (demo_seal_frame 6)"
        and entry = "settled_new other_key OutcomeKind StApplied None" and framed = "tiny_frame 1" and head = "replicate 32 0"]
    by (simp add: demo_given_fields demo_journal_frame max_journal_events_def max_journal_bytes_def u64_max_def)
qed

lemma demo_successor: "refuse_ambiguous_base (successor_path demo_path) = Inr ()"
  by (simp add: demo_path_def refuse_ambiguous_base_def file_name_def parent_def name_number_def is_generation_name_def generation_digits_def
      successor_path_def is_generation_path_def generation_suffix_def six_digits_def)

lemma demo_handover:
  "\<exists>j' j1 fs'. continue_as_file demo_codec SealDone obliging_device demo_appended (tiny_disk (tiny_frame 1)) = (Inr (Some j'), j1, fs') \<and>
    length (file_bytes fs' demo_path) = 106"
proof -
  let ?q = "successor_path demo_path"
  let ?fs = "set_file ?q (demo_seal_frame 3) (tiny_disk (tiny_frame 1 @ demo_seal_frame 3))"
  let ?start = "\<lparr>jp_sequence = 2, jp_head = replicate 32 0\<rparr>"
  have apart: "?q \<noteq> demo_path" using demo_paths(3) [of "[]"] by auto
  have opens: "file_opening demo_codec (Some demo_seal) (demo_seal_frame 3) ?start"
    by (simp add: file_opening_def demo_seals demo_seal_def [THEN arg_cong, of cn_predecessor] u64_max_def)
  have at: "?fs ?q = Some \<lparr>dk_bytes = demo_seal_frame 3 @ [], dk_fault = None\<rparr>" by (simp add: set_file_def demo_paths(3))
  have "open_journal demo_codec obliging_device ?q (ContinuingKind (fj_policy demo_appended)) ?fs =
      (Inr (opened_journal ?q (ContinuingKind (fj_policy demo_appended)) (file_state demo_codec (Some demo_seal) (demo_seal_frame 3) ?start [] [] (replicate 32 0))
        (length (demo_seal_frame 3 @ [])) False demo_codec), ?fs)"
    by (rule open_whole [where fs = ?fs and p = ?q, OF demo_codec_ok opens obliging_device demo_successor at])
       (simp_all add: max_journal_bytes_def u64_max_def)
  moreover have "file_bytes ?fs demo_path = tiny_frame 1 @ demo_seal_frame 3" using apart by (simp add: set_file_def file_bytes_def)
  ultimately show ?thesis
    by (simp add: continue_as_file_def demo_appended_fields demo_checkpoint seal_on_owner_def paused_at_def Let_def)
qed

theorem sealed_has_one_owner_witness:
  "\<exists>j' j1 fs'. continue_as_file demo_codec SealDone obliging_device demo_appended (tiny_disk (tiny_frame 1)) = (Inr (Some j'), j1, fs') \<and>
    open_journal demo_codec obliging_device demo_path PlainKind fs' = (Inl (Superseded (successor_path demo_path)), fs')"
proof -
  obtain j' j1 fs' where c: "continue_as_file demo_codec SealDone obliging_device demo_appended (tiny_disk (tiny_frame 1)) = (Inr (Some j'), j1, fs')"
      "length (file_bytes fs' demo_path) = 106"
    using demo_handover by blast
  show ?thesis
    using sealed_has_one_owner [where kind = PlainKind, OF demo_codec_ok demo_opening tiny_life c(1) _ demo_paths(3) obliging_device] c
    by (auto simp: demo_appended_fields max_journal_events_def max_journal_bytes_def)
qed

theorem generations_numbered_witness: "generation_of ((successor_path ^^ 3) demo_path) = 4"
  using generations_numbered [of "[106]" 3 "[]"]
  by (simp add: demo_path_def is_generation_name_def generation_digits_def max_generation_name_def)

end
