(* ===== verification/Spec2Isabelle.thy ===== *)
theory Spec2Isabelle
  imports Leb128_Signed Control Graph_Run Fan_Out Base64 Rfc3339 Mailbox Lease_Wire Keyed Frontier Run_Ledger Run_Store Cap_Token Cap Compensate Retry File_Journal
begin

text \<open>
  A verification library for the crates of this repository: the orchestration core \<open>lgwks-bot\<close> and
  the primitives of \<open>lgwks-std\<close> it rests on.

  \<^bold>\<open>The program.\<close> \<open>lgwks-bot\<close> runs scripts. A script is a tree of steps under a scope (\<open>script/scope.rs\<close>);
  every effect of a step passes the justification rules of its scope (\<open>script/justify.rs\<close>), is repeated by
  the retry loop (\<open>script/control.rs\<close>) within the retry budget of the run's policy (\<open>script/policy.rs\<close>), and
  fans out over a list (\<open>script/each.rs\<close>) or a dependency graph (\<open>script/graph.rs\<close>), both drawing slots from the
  process-wide host pool and polling only the slots the wake queue names. The value of every durable step of a
  run is written to the run store (\<open>task/store.rs\<close>), and what the run is charged to a ledger (\<open>task/ledger.rs\<close>):
  append-only files in the frames of the journal (\<open>journal/frame.rs\<close>), each owned by one thread that commits in groups
  (\<open>journal/owner/store.rs\<close>). A cell
  (\<open>cell/mailbox.rs\<close>) serves its callers through a bounded mailbox with one worker. Several hosts share work
  under a lease whose epochs fence late writers (\<open>dist_lease.rs\<close>), in process or over a keyed channel
  (\<open>dist_lease/tcp.rs\<close>). The frontier (\<open>frontier.rs\<close>) decides which remote host may be asked now;
  \<open>keyed.rs\<close> creates a thing at a receiver at most once. Bearer tokens (\<open>cap_token.rs\<close>) carry caveats a holder can narrow offline; in a process, a capability
  gate (\<open>cap.rs\<close>, \<open>gate.rs\<close>) issues sealed proofs with lifetimes. An effect on the world is keyed (\<open>effect.rs\<close>) and written to
  a hash-chained journal before and after it happens (\<open>journal.rs\<close>), which a restart recovers from (\<open>journal/recover.rs\<close>) and a
  long run continues in a further generation (\<open>journal/continuation.rs\<close>); \<open>retry.rs\<close> decides whether an effect of unknown outcome may be sent
  again, and a saga undoes what was done (\<open>script/compensate.rs\<close>). \<open>lgwks-std\<close> supplies the byte codecs and the calendar.

  \<^bold>\<open>Theories and what they model.\<close>
  \<^item> \<open>Prelude\<close>: machine types, results as sums (\<open>Inl\<close> the error), saturating arithmetic (collection
    \<open>sat_simps\<close>), \<open>Duration\<close>, shared word and list lemmas. \<open>Int_Bytes\<close>: \<open>to_le_bytes\<close>, \<open>to_be_bytes\<close> and inverses.
  \<^item> \<open>Codec\<close>: the locales \<open>prefix_codec\<close> (a value at the front of a buffer, interpreted by the four LEB128
    widths), \<open>text_codec\<close> (hex) and its extension \<open>canonical_codec\<close> (base64).
  \<^item> \<open>Leb128\<close>, \<open>Leb128_Signed\<close> (\<open>lgwks-std/src/leb128.rs\<close>): the trait \<open>Emittable\<close> as a record, the emit loops,
    the four decoders on machine words; locales \<open>unsigned_emittable\<close> and \<open>signed_emittable\<close> hold the refinement of
    the loops to the reference codes \<open>uleb\<close> and \<open>sleb\<close> on integers, once for each pair of widths.
  \<^item> \<open>Hex\<close> (\<open>hex.rs\<close>), \<open>Base64\<close> and \<open>Percent\<close> (\<open>encoding.rs\<close>): encoders and decoders with every refusal.
  \<^item> \<open>Calendar\<close> (\<open>time/calendar.rs\<close>), \<open>Rfc3339\<close> (\<open>time/format.rs\<close>, \<open>parse.rs\<close>, \<open>error.rs\<close>).
  \<^item> \<open>Flow\<close> (\<open>script/error.rs\<close>, \<open>scope.rs\<close>): \<open>flow_error\<close> with the source's variants, step paths, scopes.
  \<^item> \<open>RetryBudget\<close> (\<open>script/policy.rs\<close>): the policy's atomic cells as the record \<open>policy\<close>, the host pool with its
    leases as a step relation. \<open>Control\<close> (\<open>justify.rs\<close>, \<open>control.rs\<close>): rules over shared counters, backoff, the loop.
  \<^item> \<open>Slots\<close>: the wake queue and slot table both drivers share. \<open>Graph_Plan\<close>, \<open>Graph_Run\<close> (\<open>script/graph.rs\<close>):
    validation, the plan, the run state and each operation on it, the driver's turn, the report.
    \<open>Fan_Out\<close> (\<open>script/each.rs\<close>): the driver of a fan-out, its turn as a step relation.
  \<^item> \<open>Buffer\<close>: the locale \<open>bounded_buffer\<close>, interpreted by the work queue of \<open>Dist_Lease\<close> and by \<open>Mailbox\<close>
    (\<open>cell/mailbox.rs\<close>), whose worker and callers are an \<open>inductive\<close> step relation with its wakes.
  \<^item> \<open>Dist_Lease\<close> (\<open>dist_lease.rs\<close>, \<open>coordinator.rs\<close>): authority, channels, fenced commit, recovery loop; the locale
    \<open>fence\<close> is interpreted by the in-process and by the socket channel. \<open>Lease_Wire\<close> (\<open>dist_lease/tcp.rs\<close>): frames,
    server and client.
  \<^item> \<open>Keyed\<close> (\<open>keyed.rs\<close>), \<open>Frontier\<close> (\<open>frontier.rs\<close>, \<open>frontier/policy.rs\<close>, \<open>vocab.rs\<close>).
  \<^item> \<open>Frame\<close> (\<open>journal/frame.rs\<close>): the frame grammar on a file with a fault position. \<open>Chain\<close>: a list of
    records framed one after the other, and the locale \<open>chained_replay\<close> (what a loop over whole frames reads of a whole, a
    cut and an overfull file), interpreted by the replay of the ledger and of the run store.
  \<^item> \<open>Run_Ledger\<close> (\<open>task/ledger.rs\<close>): deciding, writing, folding and replaying charges; the state is the file, its cursor, the
    index in memory and the poison latch. Its jobs run one after another here.
  \<^item> \<open>Storage_Owner\<close> (\<open>journal/owner/store.rs\<close>): the ring and the line of waiting submitters, batches, the flush, the latch and
    the callers, as an \<open>inductive\<close> step relation over turns of the owner with the history of its events; a job is a function of the
    file and of the caller's state. \<open>Owner_Client\<close>: the locale \<open>owner_client\<close>, the invariant a store keeps under its
    jobs, its flush and its answers, which then holds in every state the owner reaches.
  \<^item> \<open>Run_Store\<close> (\<open>task/store.rs\<close>, \<open>store/append.rs\<close>, \<open>record.rs\<close>, \<open>records.rs\<close>, \<open>task/definition.rs\<close>): records, the
    index with its staged steps, opening, appends as jobs of the owner, lookups and drift; interprets \<open>chained_replay\<close> and
    \<open>owner_client\<close>. The file counts the bytes a returned flush has covered: a crash keeps those and any part of the rest.
  \<^item> \<open>Cap_Token\<close> (\<open>cap_token.rs\<close>, \<open>cap_token/policy.rs\<close>): caveats, the keyed chain, attenuation, revocation, the evaluator;
    the tokens a grant can give are an \<open>inductive\<close> set.
  \<^item> \<open>Cap\<close> (\<open>cap.rs\<close>, \<open>gate.rs\<close>, \<open>skew.rs\<close>): capability names, shortfalls and their repair, grants with lifetimes, sealed proofs
    checked against a clock that may be skewed. \<open>Compensate\<close> (\<open>script/compensate.rs\<close>): undos and the saga that runs them.
  \<^item> \<open>Effect\<close> (\<open>effect.rs\<close>, \<open>lgwks-std/hash.rs\<close>): identifiers, digests and their texts, the key of an effect. \<open>Retry\<close>
    (\<open>retry.rs\<close>, \<open>lgwks-std/retry.rs\<close>): the backoff policy and the rule for sending an uncertain effect again.
  \<^item> \<open>Journal\<close> (\<open>journal.rs\<close>, \<open>journal/adapters.rs\<close>, \<open>memory.rs\<close>): events, the chain, the ladder of rungs of a key, the journal
    in memory, its indexed reads. \<open>Recover\<close> (\<open>journal/recover.rs\<close>, \<open>continuation.rs\<close>, \<open>carried\<close> of \<open>file/write.rs\<close>): the fold
    over events, what a seal carries into the next generation and the recovery that starts from it; the recoveries a
    journal and its continuations come to are the \<open>inductive\<close> predicate \<open>lineage\<close>.
  \<^item> \<open>File_Journal\<close> (\<open>journal/file.rs\<close> with \<open>file/scan.rs\<close>, \<open>open.rs\<close>, \<open>write.rs\<close>, \<open>seal.rs\<close>, \<open>adapter.rs\<close>, and the names
    of \<open>continuation.rs\<close>): the journal in files. A file system is a map from paths to files; the scan, opening and the
    walk over generations, appends and batches with their fences, the seal and the handover to the next generation. What the device
    does to each call is an argument (\<open>open_device\<close>, \<open>write_fate\<close>, \<open>seal_fate\<close>), and \<open>file_life\<close> is the
    \<open>inductive\<close> predicate of openings, appends, batches and crashes.

  \<^bold>\<open>What the lemmas show.\<close> Codecs: round trips both ways, and canonicity (a decoder accepts only what its
  encoder writes), so decoding is injective. Calendar: inverse to each other, and one day on is the next civil
  date by the rule of Gregory. Graph: a declaration is accepted exactly when a topological order exists
  (refusal names why), the plan holds the declared edges both ways, the run starts a node only after the
  needs it declares have succeeded and at most \<open>width\<close> at once, and a finished run's report gives each node exactly one
  outcome, blocked exactly when a need did not succeed. Fan-out: results in input order, errors located at the scope of their input, in-flight bound, and
  it waits only while a body it started is pending. Policy and pool: retries granted never exceed what
  was earned, and slots lent are slots held. Ledger: what was acknowledged is what replay folds, torn tails
  included, and a run never spends past its ceiling; \<open>ledger_run\<close> follows a file until it is opened again after a charge was written
  behind a tail an opening had trimmed, which loses the file. Storage owner: nothing is acknowledged
  before the flush that covers it, answers go out in order, and every admitted request is answered. Run store, opened on
  whole records: what was answered Recorded is read back after any crash, with each refusal exact, a step has one value, and the index is the fold of what was
  acknowledged, which reopening gives again. Lease: a
  commit under a superseded epoch writes nothing, and a reply that verifies was
  written under the key for that very request. Mailbox: every job is delivered once and in order, and a worker
  that waits has been or will be woken. Keyed create: reads precede the create, and at
  least eight follow one of unknown fate before it is called indeterminate. Tokens: one derived from a grant allows nothing
  outside it, the evaluator panics on exactly the requests whose stamp is cut inside a character, narrowing only restricts, and a tag fits one token unless the keyed hash collides. Proofs: issued exactly for what
  is granted, and worth that until the first lifetime ends. Saga: every undo once, in
  reverse, unless the saga runs at the depth limit, where none does. Journal: keys climb their
  ladder, and a position fixes the history before it unless the hash collides. Recovery says of each key what its last event
  says, and continuing a journal changes no answer but for the older settled attempts of an action; an attempt that settles late is the
  exception a finding names. Journal files: what was acknowledged is read back after failing writes and crashes, but for
  a cut that authenticates by itself; a sealed generation hands over to one successor, which is again such a file, with the
  exceptions (an empty, a full and an overlong generation) exact in the same theorem; generations are numbered one by one; a seal cut short,
  a reopened successor and a batch are theorems the findings name. Frontier: counts agree with the leases outstanding, and what
  is admitted meets every gate.

  \<^bold>\<open>Bounds and fuel.\<close> Unsigned counters are natural numbers that saturate where the source does, at
  \<open>u32_max\<close>, \<open>u64_max\<close> or the width given; LEB128 and the text codecs compute on \<open>word\<close>. Loops whose end
  depends on data are \<open>partial_function (option)\<close> and proved to return: the emit loops for every value of
  every width, the retry loop for every bound on attempts a caller can write. Loops over a file
  (\<open>replay\<close>, \<open>scan\<close>) recurse on the bytes that are left, those over a graph on the nodes not yet settled; no
  definition takes fuel. The graph holds at most 4096 nodes, the in-flight bound is 65536 and a frame's payload
  is bounded by the constant its caller passes, all as in the source.

  \<^bold>\<open>Parameters.\<close> Code of dependencies is an argument of the definitions that use it: the hash (BLAKE3) as
  \<open>tag\<close>, \<open>head_of\<close> and a field of \<open>archive\<close> and \<open>store_archive\<close>, the archive format (rkyv) as their other fields; that a hash has
  32 bytes and that the archive reads back what it wrote are the hypotheses \<open>archive_ok\<close>, \<open>store_archive_ok\<close> and, for the
  record \<open>file_codec\<close>, \<open>codec_ok\<close>, by which also no event's archive begins with the magic of a checkpoint. The keyed hash, the JSON
  codec and the entropy of \<open>Cap_Token\<close> and the hash and the event encoding of \<open>Journal\<close> are arguments with no hypothesis. A clock reading, a cancellation
  token and a future's answer are arguments too, so each theorem holds for every behaviour of them.

  \<^bold>\<open>Not modelled.\<close> \<open>Display\<close> texts and \<open>source()\<close> chains; wakers and timers (the runtime's); sockets and
  threads other than the steps above; the trail a script writes; the broker, the registry, the streaming replay
  of a journal file, the feature \<open>sealed\<close> (the stores and the journal files
  are modelled as built without it), sessions and tenancy; the semantic checkers (\<open>lgwks-ast\<close>, \<open>lgwks-deps\<close>) and the benches. The manifest lists each with its reason.
\<close>

end
